(* ===== verification/H2_Prelude.thy ===== *)
theory H2_Prelude
  imports Main "HOL-Library.Word" "HOL-Library.Monad_Syntax"
begin

unbundle bit_operations_syntax

text \<open>
  Shared vocabulary of the HAMMER2 development: names for the C integer types, the result
  conventions, and the generic facts about words, bit masks and lists that the component
  theories use.

  Conventions.  A C function that returns an error code is modelled by a function whose result
  contains that code.  A failed \<open>KKASSERT\<close> and a call of \<open>hpanic\<close> stop the kernel; they are the
  value \<open>None\<close> of an \<open>option\<close> result, so a theorem that the result is \<open>Some\<close> says that no
  assertion of the code fails.
\<close>

section \<open>Types\<close>

type_synonym u8 = "8 word"
type_synonym u16 = "16 word"
type_synonym u32 = "32 word"
type_synonym u64 = "64 word"

text \<open>\<open>hammer2_off_t\<close>, \<open>hammer2_key_t\<close>, \<open>hammer2_tid_t\<close> and \<open>hammer2_bitmap_t\<close> are \<open>uint64_t\<close>.\<close>

type_synonym h2_off = u64
type_synonym h2_key = u64
type_synonym h2_tid = u64

section \<open>Collections of rules\<close>

named_theorems h2_const \<open>unfolds the numeric constants of hammer2_disk.h\<close>
named_theorems h2_panic \<open>computes with results that may be a kernel panic\<close>

section \<open>Assertions and panics\<close>

text \<open>\<open>KKASSERT(b)\<close>: continue if \<open>b\<close> holds, otherwise the kernel panics.\<close>

definition kkassert :: "bool \<Rightarrow> unit option" where
  "kkassert b = (if b then Some () else None)"

abbreviation (input) hpanic :: "'a option" where
  "hpanic \<equiv> None"

lemma kkassert_simps [simp, h2_panic]:
  "kkassert True = Some ()"
  "kkassert False = None"
  by (simp_all add: kkassert_def)

lemma kkassert_eq_Some [simp, h2_panic]: "kkassert b = Some u \<longleftrightarrow> b"
  by (simp add: kkassert_def)

lemma kkassert_eq_None [simp, h2_panic]: "kkassert b = None \<longleftrightarrow> \<not> b"
  by (simp add: kkassert_def)

lemma kkassert_bind [h2_panic]: "Option.bind (kkassert b) f = (if b then f () else None)"
  by (simp add: kkassert_def)

lemma bind_Some_iff [h2_panic]:
  "Option.bind m f = Some r \<longleftrightarrow> (\<exists>x. m = Some x \<and> f x = Some r)"
  by (cases m) simp_all

section \<open>Words and masks\<close>

text \<open>A run of \<open>r\<close> one bits starting at bit \<open>j\<close>: the C expression
  \<open>(((uint64_t)1 << r) - 1) << j\<close>.\<close>

definition runmask :: "nat \<Rightarrow> nat \<Rightarrow> 'a::len word" where
  "runmask j r = push_bit j (mask r)"

lemma bit_runmask: "bit (runmask j r :: 'a::len word) b \<longleftrightarrow> j \<le> b \<and> b < j + r \<and> b < LENGTH('a)"
  by (auto simp: runmask_def bit_push_bit_iff bit_mask_iff)

lemma shift_ones_eq_mask: "(push_bit r 1 - 1 :: 'a::len word) = mask r"
  by (simp add: mask_eq_decr_exp push_bit_eq_mult)

lemma runmask_push: "push_bit s (runmask j r) = (runmask (j + s) r :: 'a::len word)"
  by (simp add: runmask_def add.commute)

lemma and_runmask_eq_0:
  "(w AND runmask j r :: 'a::len word) = 0 \<longleftrightarrow> (\<forall>b. j \<le> b \<and> b < j + r \<and> b < LENGTH('a) \<longrightarrow> \<not> bit w b)"
  by (auto simp: bit_eq_iff bit_and_iff bit_runmask)

lemma and_exp_eq_0: "(w AND push_bit r 1 :: 'a::len word) = 0 \<longleftrightarrow> r \<ge> LENGTH('a) \<or> \<not> bit w r"
  using and_exp_eq_0_iff_not_bit [of w r] by (auto dest: bit_imp_le_length)

lemma unat_and_mask: "unat (w AND mask n :: 'a::len word) = unat w mod 2 ^ n"
  by (simp add: unsigned_take_bit_eq flip: take_bit_eq_mask take_bit_eq_mod)

lemma sint_eq_unat:
  assumes "unat (w :: u32) < 2 ^ 31"
  shows "sint w = int (unat w)"
proof -
  have u: "uint w = int (unat w)" by simp
  have "int (unat w) < 2 ^ 31"
    using assms by (simp only: of_nat_less_iff [where 'a = int, symmetric] of_nat_power of_nat_numeral)
  moreover have "- (2 ^ 31) \<le> int (unat w)" by (rule order_trans [OF _ of_nat_0_le_iff]) simp
  ultimately have "signed_take_bit 31 (int (unat w)) = int (unat w)"
    by (intro signed_take_bit_int_eq_self)
  then show ?thesis by (simp add: sint_uint)
qed

lemma unat_drop_bit: "unat (drop_bit n w :: 'a::len word) = unat w div 2 ^ n"
  by (simp add: unat_drop_bit_eq flip: drop_bit_eq_div)

lemma and_not_mask_eq: "k AND NOT (mask n) = (k - (k AND mask n) :: 'a::len word)"
proof -
  have "NOT k AND (k AND mask n) = 0" by (simp add: bit_eq_iff bit_and_iff bit_not_iff)
  then have "k - (k AND mask n) = k AND NOT (k AND mask n)"
    by (rule disjunctive_diff_eq_and_not)
  also have "\<dots> = k AND NOT (mask n)"
    by (rule bit_word_eqI) (auto simp: bit_simps)
  finally show ?thesis by simp
qed

lemma unat_and_not_mask: "unat (k AND NOT (mask n) :: 'a::len word) = unat k - unat k mod 2 ^ n"
  unfolding and_not_mask_eq
  by (subst unat_sub) (simp_all add: word_le_nat_alt unat_and_mask)

text \<open>A counter in the low \<open>n\<close> bits of a word: it goes up and down without touching the bits above.\<close>

lemma word_Suc: "w \<noteq> - 1 \<Longrightarrow> unat (w + 1 :: 'a::len word) = unat w + 1"
  by (metis Suc_eq_plus1 add.commute add_eq_0_iff unatSuc)

lemma low_up:
  assumes "unat w mod 2 ^ n + 1 < 2 ^ n" "n \<le> LENGTH('a)"
  shows "unat (w + 1 :: 'a::len word) mod 2 ^ n = unat w mod 2 ^ n + 1" "unat (w + 1) div 2 ^ n = unat w div 2 ^ n"
proof -
  have "w \<noteq> - 1"
  proof
    assume "w = - 1"
    then have "unat w mod 2 ^ n = mask n" using assms(2) by (simp add: unsigned_minus_1_eq_mask take_bit_of_mask min_absorb1 flip: take_bit_eq_mod)
    then show False using assms(1) by (simp add: mask_eq_exp_minus_1)
  qed
  then have "unat (w + 1) = unat w + 1" by (rule word_Suc)
  then show "unat (w + 1) mod 2 ^ n = unat w mod 2 ^ n + 1" "unat (w + 1) div 2 ^ n = unat w div 2 ^ n"
    using assms(1) by (simp_all add: mod_Suc div_Suc)
qed

lemma low_down:
  assumes "unat w mod 2 ^ n \<noteq> 0" "n \<le> LENGTH('a)"
  shows "unat (w - 1 :: 'a::len word) mod 2 ^ n = unat w mod 2 ^ n - 1" "unat (w - 1) div 2 ^ n = unat w div 2 ^ n"
proof -
  have "w \<noteq> 0" using assms(1) by auto
  then have Suc: "unat w = unat (w - 1) + 1" by (simp add: unat_minus_one unat_gt_0)
  have "unat (w - 1) mod 2 ^ n + 1 < 2 ^ n"
  proof (rule ccontr)
    assume "\<not> ?thesis"
    moreover have "unat (w - 1) mod 2 ^ n < 2 ^ n" by simp
    ultimately have "Suc (unat (w - 1) mod 2 ^ n) = 2 ^ n" by linarith
    then show False using assms(1) Suc by (simp add: mod_Suc)
  qed
  from low_up [OF this assms(2)] show "unat (w - 1) mod 2 ^ n = unat w mod 2 ^ n - 1" "unat (w - 1) div 2 ^ n = unat w div 2 ^ n" by simp_all
qed

lemma same_high:
  assumes "unat v div 2 ^ n = unat w div 2 ^ n" "f AND mask n = 0"
  shows "v AND f = w AND (f :: 'a::len word)"
proof (rule bit_word_eqI)
  fix k assume k: "k < LENGTH('a)"
  have "\<not> bit (f AND mask n) k" unfolding assms(2) by simp
  then have low: "\<not> bit f k" if "k < n" using that k by (simp add: bit_and_iff bit_mask_iff)
  have eq: "drop_bit n v = drop_bit n w" by (rule iffD2 [OF word_unat_eq_iff]) (simp only: unat_drop_bit assms(1))
  have "bit v k = bit w k" if "n \<le> k"
  proof -
    have j: "k = n + (k - n)" using that by simp
    have "bit (drop_bit n v) (k - n) = bit (drop_bit n w) (k - n)" using eq by (rule arg_cong)
    then show ?thesis by (subst (1 2) j) (simp only: bit_drop_bit_eq o_def)
  qed
  then show "bit (v AND f) k = bit (w AND f) k" using low by (cases "k < n") (auto simp: bit_and_iff)
qed

lemma int_and_mask: "(x AND mask n :: int) = x mod 2 ^ n"
  by (simp flip: take_bit_eq_mask take_bit_eq_mod)

lemma nat_and_mask: "(x AND mask n :: nat) = x mod 2 ^ n"
  by (simp flip: take_bit_eq_mask take_bit_eq_mod)

lemma int_and_16383: "(x AND 16383 :: int) = x mod 16384"
  using int_and_mask [of x 14] by (simp add: mask_eq_exp_minus_1)

lemma int_and_1023: "(x AND 1023 :: int) = x mod 1024"
  using int_and_mask [of x 10] by (simp add: mask_eq_exp_minus_1)

lemma nat_and_16383: "(x AND 16383 :: nat) = x mod 16384"
  using nat_and_mask [of x 14] by (simp add: mask_eq_exp_minus_1)

lemma nat_and_31: "(x AND 31 :: nat) = x mod 32"
  using nat_and_mask [of x 5] by (simp add: mask_eq_exp_minus_1)

lemma nat_and_62: "(x AND 62 :: nat) = 2 * (x div 2 mod 32)"
proof -
  have "x AND 62 = 2 * ((x div 2) AND 31)"
    by (subst and_rec) simp
  also have "(31 :: nat) = mask 5"
    by (simp add: mask_eq_exp_minus_1)
  finally show ?thesis by (simp only: nat_and_mask) simp
qed

lemma int_mod_16384: "int x mod 16384 = int (x mod 16384)"
  by (simp add: zmod_int)

text \<open>An aligned offset and a small number share a word: the data offset of a block reference
  carries the size radix in its low six bits.\<close>

lemma low_bits_zero:
  assumes "2 ^ n dvd unat (w :: 'a::len word)" "i < n"
  shows "\<not> bit w i"
proof -
  have "unat (take_bit n w) = 0"
    using assms(1) by (simp add: unsigned_take_bit_eq) (simp add: take_bit_eq_mod)
  then have "take_bit n w = 0" by (simp only: unat_eq_0)
  then have "\<not> bit (take_bit n w) i" by simp
  then show ?thesis using assms(2) by (simp add: bit_take_bit_iff)
qed

lemma or_radix_split:
  assumes "1024 dvd unat (k :: u64)" "r < 64"
  shows "(k OR of_nat r) AND NOT 63 = k" "unat ((k OR of_nat r) AND 63) = r"
proof -
  have m: "(63 :: u64) = mask 6" by (simp add: mask_eq_exp_minus_1)
  have k: "\<not> bit k i" if "i < 6" for i
    using low_bits_zero [of 10 k i] assms(1) that by simp
  have tr: "take_bit 6 (of_nat r :: u64) = of_nat r"
    using assms(2) by (simp add: word_unat_eq_iff unsigned_take_bit_eq unat_of_nat take_bit_nat_eq_self)
  have r: "\<not> bit (of_nat r :: u64) i" if "\<not> i < 6" for i
    using tr that by (metis bit_take_bit_iff)
  show "(k OR of_nat r) AND NOT 63 = k"
    unfolding m by (rule bit_word_eqI) (use k r in \<open>auto simp: bit_simps\<close>)
  have "(k OR of_nat r) AND 63 = (of_nat r :: u64)"
    unfolding m by (rule bit_word_eqI) (use k r in \<open>auto simp: bit_simps\<close>)
  then show "unat ((k OR of_nat r) AND 63) = r"
    using assms(2) by (simp add: unat_of_nat)
qed

section \<open>Index arithmetic\<close>

lemma div_pred: "y mod c \<noteq> 0 \<Longrightarrow> (y - 1) div c = y div (c :: nat)"
  by (cases y) (auto simp: div_Suc)

text \<open>A run that stays inside one block of \<open>c\<close> entries, in block and offset coordinates.\<close>

lemma run_in_block:
  fixes n m k c :: nat
  assumes "n mod c + m \<le> c"
  shows "n \<le> k \<and> k < n + m \<longleftrightarrow> k div c = n div c \<and> n mod c \<le> k mod c \<and> k mod c < n mod c + m"
proof (cases "k div c = n div c")
  case True
  have "n = c * (n div c) + n mod c" by simp
  moreover have "k = c * (n div c) + k mod c" using True by (metis mult_div_mod_eq)
  ultimately show ?thesis using True by (safe; linarith)
next
  case False
  have split: "n = c * (n div c) + n mod c" "k = c * (k div c) + k mod c" by simp_all
  from False consider "Suc (k div c) \<le> n div c" | "Suc (n div c) \<le> k div c" by linarith
  then have "\<not> (n \<le> k \<and> k < n + m)"
  proof cases
    case 1
    then have le: "c * Suc (k div c) \<le> c * (n div c)" by (rule mult_le_mono2)
    show ?thesis
    proof (cases "c = 0")
      case True
      then show ?thesis using assms by simp
    next
      case False
      then have "k mod c < c" by simp
      moreover have "c + c * (k div c) \<le> c * (n div c)" using le by simp
      ultimately show ?thesis using split by linarith
    qed
  next
    case 2
    then have "c * Suc (n div c) \<le> c * (k div c)" by (rule mult_le_mono2)
    then have "c + c * (n div c) \<le> c * (k div c)" by simp
    then show ?thesis using split assms by linarith
  qed
  with False show ?thesis by simp
qed

section \<open>Lists\<close>

lemma sum_list_update_nat:
  fixes f :: "'a \<Rightarrow> nat"
  assumes "i < length xs"
  shows "sum_list (map f (xs[i := y])) + f (xs ! i) = sum_list (map f xs) + f y"
  using assms by (induction xs arbitrary: i) (auto split: nat.splits simp: nth_Cons)

lemma sum_list_le_bound:
  fixes f :: "'a \<Rightarrow> nat"
  assumes "\<And>x. f x \<le> c"
  shows "sum_list (map f xs) \<le> c * length xs"
proof (induction xs)
  case (Cons x xs)
  then show ?case using assms [of x] by (simp add: algebra_simps)
qed simp

end
