(* ===== verification/H2_Disk.thy ===== *)
theory H2_Disk
  imports H2_Prelude
begin

text \<open>
  The on-disk structures and constants of \<open>sys/hammer2/hammer2_disk.h\<close> and the error codes of
  \<open>sys/hammer2/hammer2.h\<close> that the component theories share.

  A numeric macro is an abbreviation, so it is the numeral of the C source at whatever type the
  C expression has at that place.  Of the 128-byte block reference the model keeps the fields the
  modelled code reads or writes; the \<open>embed\<close> union is kept as the two 64-bit words of its
  \<open>stats\<close> view.  In a bitmap entry \<open>linear\<close> is an \<open>int32_t\<close>, kept as an \<open>int\<close>: every theorem about
  it states the range it has.
\<close>

section \<open>Constants\<close>

abbreviation (input) HAMMER2_ALLOC_MIN :: "'a::numeral" where "HAMMER2_ALLOC_MIN \<equiv> 1024"
abbreviation (input) HAMMER2_RADIX_MIN :: "'a::numeral" where "HAMMER2_RADIX_MIN \<equiv> 10"
abbreviation (input) HAMMER2_ALLOC_MAX :: "'a::numeral" where "HAMMER2_ALLOC_MAX \<equiv> 65536"
abbreviation (input) HAMMER2_RADIX_MAX :: "'a::numeral" where "HAMMER2_RADIX_MAX \<equiv> 16"
abbreviation (input) HAMMER2_SEGSIZE :: "'a::numeral" where "HAMMER2_SEGSIZE \<equiv> 4194304"
abbreviation (input) HAMMER2_SEGRADIX :: "'a::numeral" where "HAMMER2_SEGRADIX \<equiv> 22"
abbreviation (input) HAMMER2_SEGMASK :: "'a::numeral" where "HAMMER2_SEGMASK \<equiv> 4194303"
abbreviation (input) HAMMER2_PBUFRADIX :: "'a::numeral" where "HAMMER2_PBUFRADIX \<equiv> 16"
abbreviation (input) HAMMER2_PBUFSIZE :: "'a::numeral" where "HAMMER2_PBUFSIZE \<equiv> 65536"
abbreviation (input) HAMMER2_PBUFMASK :: "'a::numeral" where "HAMMER2_PBUFMASK \<equiv> 65535"
abbreviation (input) HAMMER2_LBUFRADIX :: "'a::numeral" where "HAMMER2_LBUFRADIX \<equiv> 14"
abbreviation (input) HAMMER2_LBUFSIZE :: "'a::numeral" where "HAMMER2_LBUFSIZE \<equiv> 16384"

abbreviation (input) HAMMER2_ZONE_SEG :: "'a::numeral" where "HAMMER2_ZONE_SEG \<equiv> 4194304"
abbreviation (input) HAMMER2_ZONE_MASK64 :: "'a::numeral" where "HAMMER2_ZONE_MASK64 \<equiv> 2147483647"
abbreviation (input) HAMMER2_ZONE_FREEMAP_INC :: "'a::numeral" where "HAMMER2_ZONE_FREEMAP_INC \<equiv> 5"
abbreviation (input) HAMMER2_ZONE_FREEMAP_00 :: "'a::numeral" where "HAMMER2_ZONE_FREEMAP_00 \<equiv> 1"
abbreviation (input) HAMMER2_ZONE_FREEMAP_END :: "'a::numeral" where "HAMMER2_ZONE_FREEMAP_END \<equiv> 41"
abbreviation (input) HAMMER2_NFREEMAPS :: "'a::numeral" where "HAMMER2_NFREEMAPS \<equiv> 8"

abbreviation (input) HAMMER2_FREEMAP_LEVEL5_RADIX :: "'a::numeral" where "HAMMER2_FREEMAP_LEVEL5_RADIX \<equiv> 62"
abbreviation (input) HAMMER2_FREEMAP_LEVEL4_RADIX :: "'a::numeral" where "HAMMER2_FREEMAP_LEVEL4_RADIX \<equiv> 54"
abbreviation (input) HAMMER2_FREEMAP_LEVEL3_RADIX :: "'a::numeral" where "HAMMER2_FREEMAP_LEVEL3_RADIX \<equiv> 46"
abbreviation (input) HAMMER2_FREEMAP_LEVEL2_RADIX :: "'a::numeral" where "HAMMER2_FREEMAP_LEVEL2_RADIX \<equiv> 38"
abbreviation (input) HAMMER2_FREEMAP_LEVEL1_RADIX :: "'a::numeral" where "HAMMER2_FREEMAP_LEVEL1_RADIX \<equiv> 30"
abbreviation (input) HAMMER2_FREEMAP_LEVEL0_RADIX :: "'a::numeral" where "HAMMER2_FREEMAP_LEVEL0_RADIX \<equiv> 22"
abbreviation (input) HAMMER2_FREEMAP_LEVELN_PSIZE :: "'a::numeral" where "HAMMER2_FREEMAP_LEVELN_PSIZE \<equiv> 32768"
abbreviation (input) HAMMER2_FREEMAP_LEVEL1_SIZE :: "'a::numeral" where "HAMMER2_FREEMAP_LEVEL1_SIZE \<equiv> 1073741824"
abbreviation (input) HAMMER2_FREEMAP_LEVEL1_MASK :: "'a::numeral" where "HAMMER2_FREEMAP_LEVEL1_MASK \<equiv> 1073741823"
abbreviation (input) HAMMER2_FREEMAP_LEVEL0_SIZE :: "'a::numeral" where "HAMMER2_FREEMAP_LEVEL0_SIZE \<equiv> 4194304"
abbreviation (input) HAMMER2_FREEMAP_LEVEL0_MASK :: "'a::numeral" where "HAMMER2_FREEMAP_LEVEL0_MASK \<equiv> 4194303"
abbreviation (input) HAMMER2_FREEMAP_COUNT :: "'a::numeral" where "HAMMER2_FREEMAP_COUNT \<equiv> 256"
abbreviation (input) HAMMER2_FREEMAP_BLOCK_RADIX :: "'a::numeral" where "HAMMER2_FREEMAP_BLOCK_RADIX \<equiv> 14"
abbreviation (input) HAMMER2_FREEMAP_BLOCK_SIZE :: "'a::numeral" where "HAMMER2_FREEMAP_BLOCK_SIZE \<equiv> 16384"
abbreviation (input) HAMMER2_FREEMAP_BLOCK_MASK :: "'a::numeral" where "HAMMER2_FREEMAP_BLOCK_MASK \<equiv> 16383"
abbreviation (input) HAMMER2_BMAP_ELEMENTS :: "'a::numeral" where "HAMMER2_BMAP_ELEMENTS \<equiv> 8"
abbreviation (input) HAMMER2_BMAP_BITS_PER_ELEMENT :: "'a::numeral" where "HAMMER2_BMAP_BITS_PER_ELEMENT \<equiv> 64"
abbreviation (input) HAMMER2_BMAP_BLOCKS_PER_ELEMENT :: "'a::numeral" where "HAMMER2_BMAP_BLOCKS_PER_ELEMENT \<equiv> 32"
abbreviation (input) HAMMER2_BMAP_INDEX_RADIX :: "'a::numeral" where "HAMMER2_BMAP_INDEX_RADIX \<equiv> 5"
abbreviation (input) HAMMER2_BMAP_INDEX_SIZE :: "'a::numeral" where "HAMMER2_BMAP_INDEX_SIZE \<equiv> 524288"
abbreviation (input) HAMMER2_BMAP_INDEX_MASK :: "'a::numeral" where "HAMMER2_BMAP_INDEX_MASK \<equiv> 524287"
abbreviation (input) HAMMER2_BMAP_SIZE :: "'a::numeral" where "HAMMER2_BMAP_SIZE \<equiv> 4194304"
abbreviation (input) HAMMER2_BMAP_MASK :: "'a::numeral" where "HAMMER2_BMAP_MASK \<equiv> 4194303"
abbreviation (input) HAMMER2_OFF_MASK_RADIX :: "'a::numeral" where "HAMMER2_OFF_MASK_RADIX \<equiv> 63"
abbreviation (input) HAMMER2_BLOCKREF_LEAF_MAX :: "'a::numeral" where "HAMMER2_BLOCKREF_LEAF_MAX \<equiv> 65535"

subsection \<open>Block reference types\<close>

abbreviation (input) BREF_EMPTY :: "u8" where "BREF_EMPTY \<equiv> 0"
abbreviation (input) BREF_INODE :: "u8" where "BREF_INODE \<equiv> 1"
abbreviation (input) BREF_INDIRECT :: "u8" where "BREF_INDIRECT \<equiv> 2"
abbreviation (input) BREF_DATA :: "u8" where "BREF_DATA \<equiv> 3"
abbreviation (input) BREF_DIRENT :: "u8" where "BREF_DIRENT \<equiv> 4"
abbreviation (input) BREF_FREEMAP_NODE :: "u8" where "BREF_FREEMAP_NODE \<equiv> 5"
abbreviation (input) BREF_FREEMAP_LEAF :: "u8" where "BREF_FREEMAP_LEAF \<equiv> 6"
abbreviation (input) BREF_INVALID :: "u8" where "BREF_INVALID \<equiv> 7"
abbreviation (input) BREF_FREEMAP :: "u8" where "BREF_FREEMAP \<equiv> 254"
abbreviation (input) BREF_VOLUME :: "u8" where "BREF_VOLUME \<equiv> 255"

subsection \<open>Error codes (hammer2.h)\<close>

abbreviation (input) HAMMER2_ERROR_EIO :: u32 where "HAMMER2_ERROR_EIO \<equiv> 0x00000001"
abbreviation (input) HAMMER2_ERROR_CHECK :: u32 where "HAMMER2_ERROR_CHECK \<equiv> 0x00000002"
abbreviation (input) HAMMER2_ERROR_ENOSPC :: u32 where "HAMMER2_ERROR_ENOSPC \<equiv> 0x00000020"
abbreviation (input) HAMMER2_ERROR_ENOENT :: u32 where "HAMMER2_ERROR_ENOENT \<equiv> 0x00000040"
abbreviation (input) HAMMER2_ERROR_EAGAIN :: u32 where "HAMMER2_ERROR_EAGAIN \<equiv> 0x00000100"
abbreviation (input) HAMMER2_ERROR_EINPROGRESS :: u32 where "HAMMER2_ERROR_EINPROGRESS \<equiv> 0x00000800"
abbreviation (input) HAMMER2_ERROR_ABORTED :: u32 where "HAMMER2_ERROR_ABORTED \<equiv> 0x00001000"
abbreviation (input) HAMMER2_ERROR_EOF :: u32 where "HAMMER2_ERROR_EOF \<equiv> 0x00002000"
abbreviation (input) HAMMER2_ERROR_EINVAL :: u32 where "HAMMER2_ERROR_EINVAL \<equiv> 0x00004000"
abbreviation (input) HAMMER2_ERROR_EDEADLK :: u32 where "HAMMER2_ERROR_EDEADLK \<equiv> 0x00010000"
abbreviation (input) HAMMER2_ERROR_ESRCH :: u32 where "HAMMER2_ERROR_ESRCH \<equiv> 0x00020000"

section \<open>Structures\<close>

record blockref =
  br_type :: u8
  br_methods :: u8
  br_keybits :: u8
  br_flags :: u8
  br_leaf_count :: u16
  br_key :: h2_key
  br_mirror_tid :: h2_tid
  br_modify_tid :: h2_tid
  br_data_off :: h2_off
  br_data_count :: u64
  br_inode_count :: u64

definition bref_zero :: blockref where
  "bref_zero = \<lparr>br_type = 0, br_methods = 0, br_keybits = 0, br_flags = 0, br_leaf_count = 0,
     br_key = 0, br_mirror_tid = 0, br_modify_tid = 0, br_data_off = 0, br_data_count = 0,
     br_inode_count = 0\<rparr>"

record bmap_data =
  bm_linear :: int
  bm_class :: u16
  bm_avail :: u32
  bm_bitmapq :: "u64 list"

definition bmap_zero :: bmap_data where
  "bmap_zero = \<lparr>bm_linear = 0, bm_class = 0, bm_avail = 0, bm_bitmapq = replicate 8 0\<rparr>"

section \<open>Address macros\<close>

text \<open>\<open>rounddown2(x, y)\<close> for a power of two \<open>y\<close>, and the freemap base macros built on it.\<close>

definition rounddown2 :: "u64 \<Rightarrow> u64 \<Rightarrow> u64" where
  "rounddown2 x y = x AND NOT (y - 1)"

definition H2FMBASE :: "h2_key \<Rightarrow> nat \<Rightarrow> h2_key" where
  "H2FMBASE k radix = rounddown2 k (push_bit radix 1)"

definition H2FMZONEBASE :: "h2_key \<Rightarrow> h2_key" where
  "H2FMZONEBASE k = k AND NOT HAMMER2_FREEMAP_LEVEL1_MASK"

lemma H2FMBASE_eq_and_not: "H2FMBASE k radix = k AND NOT (mask radix)"
  by (simp only: H2FMBASE_def rounddown2_def shift_ones_eq_mask)

lemma bit_H2FMBASE: "bit (H2FMBASE k radix) n \<longleftrightarrow> radix \<le> n \<and> bit k n"
  by (auto simp: H2FMBASE_eq_and_not bit_and_iff bit_not_iff bit_mask_iff dest: bit_imp_le_length)

lemma level1_mask_eq: "(HAMMER2_FREEMAP_LEVEL1_MASK :: u64) = mask 30"
  by (simp add: mask_eq_exp_minus_1)

lemma H2FMZONEBASE_eq: "H2FMZONEBASE k = H2FMBASE k HAMMER2_FREEMAP_LEVEL1_RADIX"
  by (simp only: H2FMBASE_eq_and_not H2FMZONEBASE_def level1_mask_eq)

lemma unat_H2FMBASE: "unat (H2FMBASE k radix) = unat k - unat k mod 2 ^ radix"
  by (simp add: H2FMBASE_eq_and_not unat_and_not_mask)

end
