(* ===== verification/H2_Subr.thy ===== *)
theory H2_Subr
  imports H2_Disk "HOL-Library.Signed_Division"
begin

text \<open>
  The helpers of \<open>sys/hammer2/hammer2_subr.c\<close>: conversions between HAMMER2 and kernel types,
  times, size radixes, the logical and physical block size of a file, I/O statistics; and the
  error code conversions of \<open>hammer2.h\<close>.  The kernel's own enumerations (\<open>DT_*\<close>, \<open>enum vtype\<close>,
  \<open>errno\<close>) are datatypes.
\<close>

section \<open>Object types\<close>

datatype dtype = DT_UNKNOWN | DT_DIR | DT_REG | DT_FIFO | DT_CHR | DT_BLK | DT_LNK | DT_SOCK
datatype vtype = VNON | VREG | VDIR | VBLK | VCHR | VLNK | VSOCK | VFIFO | VBAD

abbreviation (input) HAMMER2_OBJTYPE_UNKNOWN :: u8 where "HAMMER2_OBJTYPE_UNKNOWN \<equiv> 0"
abbreviation (input) HAMMER2_OBJTYPE_DIRECTORY :: u8 where "HAMMER2_OBJTYPE_DIRECTORY \<equiv> 1"
abbreviation (input) HAMMER2_OBJTYPE_REGFILE :: u8 where "HAMMER2_OBJTYPE_REGFILE \<equiv> 2"
abbreviation (input) HAMMER2_OBJTYPE_FIFO :: u8 where "HAMMER2_OBJTYPE_FIFO \<equiv> 4"
abbreviation (input) HAMMER2_OBJTYPE_CDEV :: u8 where "HAMMER2_OBJTYPE_CDEV \<equiv> 5"
abbreviation (input) HAMMER2_OBJTYPE_BDEV :: u8 where "HAMMER2_OBJTYPE_BDEV \<equiv> 6"
abbreviation (input) HAMMER2_OBJTYPE_SOFTLINK :: u8 where "HAMMER2_OBJTYPE_SOFTLINK \<equiv> 7"
abbreviation (input) HAMMER2_OBJTYPE_SOCKET :: u8 where "HAMMER2_OBJTYPE_SOCKET \<equiv> 9"
abbreviation (input) HAMMER2_OBJTYPE_WHITEOUT :: u8 where "HAMMER2_OBJTYPE_WHITEOUT \<equiv> 10"

definition hammer2_get_dtype :: "u8 \<Rightarrow> dtype" where
  "hammer2_get_dtype type =
     (if type = HAMMER2_OBJTYPE_UNKNOWN then DT_UNKNOWN
      else if type = HAMMER2_OBJTYPE_DIRECTORY then DT_DIR
      else if type = HAMMER2_OBJTYPE_REGFILE then DT_REG
      else if type = HAMMER2_OBJTYPE_FIFO then DT_FIFO
      else if type = HAMMER2_OBJTYPE_CDEV then DT_CHR
      else if type = HAMMER2_OBJTYPE_BDEV then DT_BLK
      else if type = HAMMER2_OBJTYPE_SOFTLINK then DT_LNK
      else if type = HAMMER2_OBJTYPE_SOCKET then DT_SOCK
      else if type = HAMMER2_OBJTYPE_WHITEOUT then DT_UNKNOWN
      else DT_UNKNOWN)"

definition hammer2_get_vtype :: "u8 \<Rightarrow> vtype" where
  "hammer2_get_vtype type =
     (if type = HAMMER2_OBJTYPE_UNKNOWN then VBAD
      else if type = HAMMER2_OBJTYPE_DIRECTORY then VDIR
      else if type = HAMMER2_OBJTYPE_REGFILE then VREG
      else if type = HAMMER2_OBJTYPE_FIFO then VFIFO
      else if type = HAMMER2_OBJTYPE_CDEV then VCHR
      else if type = HAMMER2_OBJTYPE_BDEV then VBLK
      else if type = HAMMER2_OBJTYPE_SOFTLINK then VLNK
      else if type = HAMMER2_OBJTYPE_SOCKET then VSOCK
      else if type = HAMMER2_OBJTYPE_WHITEOUT then VBAD
      else VBAD)"

fun hammer2_get_obj_type :: "vtype \<Rightarrow> u8" where
  "hammer2_get_obj_type VDIR = HAMMER2_OBJTYPE_DIRECTORY"
| "hammer2_get_obj_type VREG = HAMMER2_OBJTYPE_REGFILE"
| "hammer2_get_obj_type VFIFO = HAMMER2_OBJTYPE_FIFO"
| "hammer2_get_obj_type VSOCK = HAMMER2_OBJTYPE_SOCKET"
| "hammer2_get_obj_type VCHR = HAMMER2_OBJTYPE_CDEV"
| "hammer2_get_obj_type VBLK = HAMMER2_OBJTYPE_BDEV"
| "hammer2_get_obj_type VLNK = HAMMER2_OBJTYPE_SOFTLINK"
| "hammer2_get_obj_type _ = HAMMER2_OBJTYPE_UNKNOWN"

lemma get_vtype_obj_type:
  "hammer2_get_vtype (hammer2_get_obj_type v) = (if v = VNON then VBAD else v)"
  by (cases v) (simp_all add: hammer2_get_vtype_def)

section \<open>Times\<close>

record timespec =
  tv_sec :: int
  tv_nsec :: int

definition hammer2_time_to_timespec :: "u64 \<Rightarrow> timespec" where
  "hammer2_time_to_timespec xtime =
     \<lparr>tv_sec = sint (xtime div 1000000),
      tv_nsec = uint (ucast (xtime mod 1000000) :: u32) * 1000\<rparr>"

definition hammer2_timespec_to_time :: "timespec \<Rightarrow> u64" where
  "hammer2_timespec_to_time ts =
     ucast (word_of_int (tv_nsec ts sdiv 1000) :: u32) + word_of_int (tv_sec ts) * 1000000"

section \<open>uuid to unix id\<close>

text \<open>The 16 bytes of a \<open>struct uuid\<close>; \<open>node\<close> is the field at offset 10, so \<open>node[2]\<close> is byte 12.
  The 32-bit access is little endian.\<close>

definition hammer2_to_unix_xid :: "u8 list \<Rightarrow> u32" where
  "hammer2_to_unix_xid uuid =
     ucast (uuid ! 12) OR push_bit 8 (ucast (uuid ! 13)) OR push_bit 16 (ucast (uuid ! 14)) OR
     push_bit 24 (ucast (uuid ! 15))"

definition hammer2_guid_to_uuid :: "u32 \<Rightarrow> u8 list" where
  "hammer2_guid_to_uuid guid =
     replicate 12 0 @ [ucast guid, ucast (drop_bit 8 guid), ucast (drop_bit 16 guid),
                       ucast (drop_bit 24 guid)]"

section \<open>Radixes and block sizes\<close>

text \<open>\<open>size_t\<close> and \<open>int\<close> are kept as \<open>nat\<close>: the shift in the loop of \<open>hammer2_getradix\<close> stays
  inside 64 bits for sizes up to \<open>2^63\<close>.\<close>

function getradix_loop :: "nat \<Rightarrow> nat \<Rightarrow> nat" where
  "getradix_loop bytes radix =
     (if 2 ^ radix < bytes then getradix_loop bytes (radix + 1) else radix)"
  by pat_completeness auto
termination
proof (relation "measure (\<lambda>(bytes, radix). bytes - 2 ^ radix)")
  fix bytes radix :: nat
  assume "2 ^ radix < bytes"
  moreover have "(2::nat) ^ radix < 2 ^ (radix + 1)" by simp
  ultimately have "bytes - 2 ^ (radix + 1) < bytes - 2 ^ radix" by linarith
  then show "((bytes, radix + 1), bytes, radix) \<in> measure (\<lambda>(bytes, radix). bytes - 2 ^ radix)"
    by simp
qed simp

declare getradix_loop.simps [simp del]

definition hammer2_getradix :: "nat \<Rightarrow> nat" where
  "hammer2_getradix bytes =
     getradix_loop bytes
       (if bytes = HAMMER2_PBUFSIZE then HAMMER2_PBUFRADIX
        else if HAMMER2_LBUFSIZE \<le> bytes then HAMMER2_LBUFRADIX
        else if HAMMER2_ALLOC_MIN \<le> bytes then HAMMER2_RADIX_MIN
        else 0)"

definition hammer2_calc_logical :: "u64 \<Rightarrow> h2_off \<Rightarrow> nat \<times> h2_key \<times> h2_key" where
  "hammer2_calc_logical isize uoff =
     (HAMMER2_PBUFSIZE, uoff AND NOT HAMMER2_PBUFMASK,
      (isize + HAMMER2_PBUFMASK) AND NOT HAMMER2_PBUFMASK)"

function physical_loop :: "nat \<Rightarrow> nat \<Rightarrow> nat" where
  "physical_loop pblksize eofbytes =
     (if eofbytes \<le> pblksize \<and> HAMMER2_ALLOC_MIN \<le> pblksize
      then physical_loop (pblksize div 2) eofbytes else pblksize)"
  by pat_completeness auto
termination
  by (relation "measure fst") auto

declare physical_loop.simps [simp del]

definition hammer2_calc_physical :: "u64 \<Rightarrow> h2_key \<Rightarrow> nat" where
  "hammer2_calc_physical isize lbase =
     (let lblksize = fst (hammer2_calc_logical isize lbase) in
      if lbase + of_nat lblksize \<le> isize then lblksize
      else if isize \<le> lbase then 0
      else physical_loop lblksize (unat (isize - lbase)) * 2)"

subsection \<open>hammer2_getradix finds the smallest radix\<close>

lemma getradix_loop_spec:
  "bytes \<le> 2 ^ getradix_loop bytes radix \<and> radix \<le> getradix_loop bytes radix \<and>
   (\<forall>r. radix \<le> r \<and> r < getradix_loop bytes radix \<longrightarrow> 2 ^ r < bytes)"
proof (induction bytes radix rule: getradix_loop.induct)
  case (1 bytes radix)
  show ?case
  proof (cases "2 ^ radix < bytes")
    case True
    then have "getradix_loop bytes radix = getradix_loop bytes (radix + 1)"
      by (simp add: getradix_loop.simps [of bytes radix])
    with 1 [OF True] True show ?thesis by (metis Suc_eq_plus1 Suc_leD le_antisym not_less_eq_eq)
  next
    case False
    then show ?thesis by (simp add: getradix_loop.simps [of bytes radix])
  qed
qed

lemma getradix_loop_least:
  assumes "\<And>r. r < radix \<Longrightarrow> 2 ^ r < bytes"
  shows "getradix_loop bytes radix = (LEAST r. bytes \<le> 2 ^ r)"
proof (rule sym, rule Least_equality)
  fix r :: nat
  assume "bytes \<le> 2 ^ r"
  then show "getradix_loop bytes radix \<le> r"
    using getradix_loop_spec [of bytes radix] assms [of r] by (meson leD not_le_imp_less)
qed (use getradix_loop_spec [of bytes radix] in simp)

lemma less_power_less: "r < k \<Longrightarrow> (2::nat) ^ r < 2 ^ k"
  by (rule power_strict_increasing) simp_all

lemma getradix_least: "hammer2_getradix bytes = (LEAST r. bytes \<le> 2 ^ r)"
  unfolding hammer2_getradix_def
proof (rule getradix_loop_least)
  fix r :: nat
  assume "r < (if bytes = 65536 then 16 else if 16384 \<le> bytes then 14 else if 1024 \<le> bytes then 10 else 0)"
  then show "2 ^ r < bytes"
    using less_power_less [of r 16] less_power_less [of r 14] less_power_less [of r 10]
    by (auto split: if_splits)
qed

lemma getradix_power: "hammer2_getradix (2 ^ r) = r"
  unfolding getradix_least by (rule Least_equality) simp_all


subsection \<open>The physical block of the end of file\<close>

lemma physical_loop_spec:
  fixes eof r :: nat
  assumes "0 < eof" "eof \<le> 2 ^ r" "10 \<le> r"
  shows "physical_loop (2 ^ r) eof * 2 = 2 ^ max 10 (LEAST k. eof \<le> 2 ^ k)"
  using assms(2,3)
proof (induction r)
  case (Suc r)
  have step: "physical_loop (2 ^ Suc r) eof = physical_loop (2 ^ r) eof"
  proof -
    have "(2::nat) ^ 10 \<le> 2 ^ Suc r" using Suc.prems(2) by (rule power_increasing) simp
    then have "physical_loop (2 ^ Suc r) eof = physical_loop (2 ^ Suc r div 2) eof"
      using Suc.prems(1) by (subst physical_loop.simps) simp
    then show ?thesis by simp
  qed
  show ?case
  proof (cases "eof \<le> 2 ^ r \<and> 10 \<le> r")
    case True
    with Suc.IH step show ?thesis by simp
  next
    case False
    have "\<not> (eof \<le> 2 ^ r \<and> 1024 \<le> (2::nat) ^ r)"
    proof
      assume *: "eof \<le> 2 ^ r \<and> 1024 \<le> (2::nat) ^ r"
      with False have "r < 10" by simp
      then have "(2::nat) ^ r < 2 ^ 10" by (rule less_power_less)
      with * show False by simp
    qed
    then have "physical_loop (2 ^ r) eof = 2 ^ r" by (auto simp: physical_loop.simps [of "2 ^ r"])
    moreover have "max 10 (LEAST k. eof \<le> 2 ^ k) = Suc r"
    proof (cases "eof \<le> 2 ^ r")
      case True
      with False Suc.prems(2) have "Suc r = 10" by simp
      moreover have "(LEAST k. eof \<le> 2 ^ k) \<le> r" using True by (rule Least_le)
      ultimately show ?thesis by simp
    next
      case False
      have "(LEAST k. eof \<le> 2 ^ k) = Suc r"
      proof (rule Least_equality)
        fix k :: nat
        assume "eof \<le> 2 ^ k"
        with False have "(2::nat) ^ r < 2 ^ k" by linarith
        then show "Suc r \<le> k" by simp
      qed (rule Suc.prems(1))
      with Suc.prems(2) show ?thesis by simp
    qed
    ultimately show ?thesis using step by simp
  qed
qed simp

subsection \<open>Round trips\<close>

lemma unix_xid_guid: "hammer2_to_unix_xid (hammer2_guid_to_uuid guid) = guid"
proof -
  have "hammer2_to_unix_xid (hammer2_guid_to_uuid guid) =
    ucast (ucast guid :: u8) OR push_bit 8 (ucast (ucast (drop_bit 8 guid) :: u8)) OR
    push_bit 16 (ucast (ucast (drop_bit 16 guid) :: u8)) OR
    push_bit 24 (ucast (ucast (drop_bit 24 guid) :: u8))"
    by (simp add: hammer2_to_unix_xid_def hammer2_guid_to_uuid_def nth_append)
  also have "\<dots> = guid"
  proof (rule bit_word_eqI)
    fix n
    assume n: "n < LENGTH(32)"
    then consider "n < 8" | "8 \<le> n" "n < 16" | "16 \<le> n" "n < 24" | "24 \<le> n" "n < 32" by fastforce
    then show "bit (ucast (ucast guid :: u8) OR push_bit 8 (ucast (ucast (drop_bit 8 guid) :: u8)) OR
      push_bit 16 (ucast (ucast (drop_bit 16 guid) :: u8)) OR
      push_bit 24 (ucast (ucast (drop_bit 24 guid) :: u8)) :: u32) n = bit guid n"
      by cases (auto simp: bit_simps)
  qed
  finally show ?thesis .
qed

lemma time_timespec: "hammer2_timespec_to_time (hammer2_time_to_timespec t) = t"
proof -
  have sec: "word_of_int (sint (t div 1000000)) = t div 1000000" by simp
  have "uint (t mod 1000000) < 1000000" by (simp add: uint_mod)
  then have "unat (t mod 1000000) < 2 ^ 32" by (simp add: unat_mod_distrib)
  then have usec: "ucast (ucast (t mod 1000000) :: u32) = t mod 1000000"
    by (simp add: word_unat_eq_iff unsigned_ucast_eq unsigned_take_bit_eq take_bit_nat_eq_self)
  have div: "(n * 1000) sdiv 1000 = n" if "0 \<le> n" for n :: int
    using that by (cases "n = 0") (simp_all add: signed_divide_int_def)
  show ?thesis
    unfolding hammer2_timespec_to_time_def hammer2_time_to_timespec_def
    using usec sec by (simp add: div mod_div_mult_eq)
qed


section \<open>Counters\<close>

text \<open>The global read counters are \<open>long\<close>; the statistics are \<open>unsigned long\<close>.\<close>

record iod_read =
  iod_file_read :: u64
  iod_meta_read :: u64
  iod_indr_read :: u64
  iod_fmap_read :: u64
  iod_volu_read :: u64

definition hammer2_adjreadcounter :: "u8 \<Rightarrow> u64 \<Rightarrow> iod_read \<Rightarrow> iod_read" where
  "hammer2_adjreadcounter btype bytes c =
     (if btype = BREF_DATA then c\<lparr>iod_file_read := iod_file_read c + bytes\<rparr>
      else if btype = BREF_DIRENT \<or> btype = BREF_INODE then c\<lparr>iod_meta_read := iod_meta_read c + bytes\<rparr>
      else if btype = BREF_INDIRECT then c\<lparr>iod_indr_read := iod_indr_read c + bytes\<rparr>
      else if btype = BREF_FREEMAP_NODE \<or> btype = BREF_FREEMAP_LEAF
        then c\<lparr>iod_fmap_read := iod_fmap_read c + bytes\<rparr>
      else if btype = BREF_FREEMAP \<or> btype = BREF_VOLUME
        then c\<lparr>iod_volu_read := iod_volu_read c + bytes\<rparr>
      else c)"

record iostat_unit =
  ios_count :: u64
  ios_bytes :: u64

record iostat =
  ios_inode :: iostat_unit
  ios_indirect :: iostat_unit
  ios_data :: iostat_unit
  ios_dirent :: iostat_unit
  ios_freemap_node :: iostat_unit
  ios_freemap_leaf :: iostat_unit
  ios_freemap :: iostat_unit
  ios_volume :: iostat_unit

definition iostat_unit_inc :: "u64 \<Rightarrow> iostat_unit \<Rightarrow> iostat_unit" where
  "iostat_unit_inc bytes p = p\<lparr>ios_count := ios_count p + 1, ios_bytes := ios_bytes p + bytes\<rparr>"

text \<open>\<open>invariants\<close> tells whether the kernel is built with \<open>HAMMER2_INVARIANTS\<close>; without it no unit
  is selected and the call does nothing.\<close>

definition hammer2_inc_iostat :: "bool \<Rightarrow> iostat \<Rightarrow> u8 \<Rightarrow> u64 \<Rightarrow> iostat option" where
  "hammer2_inc_iostat invariants ios btype bytes =
     (if \<not> invariants then Some ios
      else do {
        upd \<leftarrow> (if btype = BREF_INODE then Some ios_inode_update
          else if btype = BREF_INDIRECT then Some ios_indirect_update
          else if btype = BREF_DATA then Some ios_data_update
          else if btype = BREF_DIRENT then Some ios_dirent_update
          else if btype = BREF_FREEMAP_NODE then Some ios_freemap_node_update
          else if btype = BREF_FREEMAP_LEAF then Some ios_freemap_leaf_update
          else if btype = BREF_FREEMAP then Some ios_freemap_update
          else if btype = BREF_VOLUME then Some ios_volume_update
          else hpanic);
        kkassert (0 < bytes);
        Some (upd (iostat_unit_inc bytes) ios)
      })"

definition hammer2_breftype_to_str :: "u8 \<Rightarrow> string" where
  "hammer2_breftype_to_str type =
     (if type = BREF_EMPTY then ''empty''
      else if type = BREF_INODE then ''inode''
      else if type = BREF_INDIRECT then ''indirect''
      else if type = BREF_DATA then ''data''
      else if type = BREF_DIRENT then ''dirent''
      else if type = BREF_FREEMAP_NODE then ''freemap_node''
      else if type = BREF_FREEMAP_LEAF then ''freemap_leaf''
      else if type = BREF_INVALID then ''invalid''
      else if type = BREF_FREEMAP then ''freemap''
      else if type = BREF_VOLUME then ''volume''
      else ''unknown'')"

section \<open>Error codes\<close>

text \<open>The error codes not used by another theory; the kernel's \<open>errno\<close> values are opaque.\<close>

abbreviation (input) HAMMER2_ERROR_INCOMPLETE :: u32 where "HAMMER2_ERROR_INCOMPLETE \<equiv> 0x00000004"
abbreviation (input) HAMMER2_ERROR_DEPTH :: u32 where "HAMMER2_ERROR_DEPTH \<equiv> 0x00000008"
abbreviation (input) HAMMER2_ERROR_BADBREF :: u32 where "HAMMER2_ERROR_BADBREF \<equiv> 0x00000010"
abbreviation (input) HAMMER2_ERROR_ENOTEMPTY :: u32 where "HAMMER2_ERROR_ENOTEMPTY \<equiv> 0x00000080"
abbreviation (input) HAMMER2_ERROR_ENOTDIR :: u32 where "HAMMER2_ERROR_ENOTDIR \<equiv> 0x00000200"
abbreviation (input) HAMMER2_ERROR_EISDIR :: u32 where "HAMMER2_ERROR_EISDIR \<equiv> 0x00000400"
abbreviation (input) HAMMER2_ERROR_EEXIST :: u32 where "HAMMER2_ERROR_EEXIST \<equiv> 0x00008000"
abbreviation (input) HAMMER2_ERROR_ETIMEDOUT :: u32 where "HAMMER2_ERROR_ETIMEDOUT \<equiv> 0x00040000"
abbreviation (input) HAMMER2_ERROR_EOPNOTSUPP :: u32 where "HAMMER2_ERROR_EOPNOTSUPP \<equiv> 0x10000000"

datatype errno = E_OK | EIO | EDOM | EINTR | ENOSPC | ENOENT | ENOTEMPTY | EAGAIN | ENOTDIR | EISDIR
  | EINPROGRESS | EEXIST | EINVAL | EDEADLK | ESRCH | ETIMEDOUT | EOPNOTSUPP

definition hammer2_error_to_errno :: "u32 \<Rightarrow> errno" where
  "hammer2_error_to_errno error =
     (if error \<noteq> 0 then
        (if error AND HAMMER2_ERROR_EIO \<noteq> 0 then EIO
         else if error AND HAMMER2_ERROR_CHECK \<noteq> 0 then EDOM
         else if error AND HAMMER2_ERROR_ABORTED \<noteq> 0 then EINTR
         else if error AND HAMMER2_ERROR_BADBREF \<noteq> 0 then EIO
         else if error AND HAMMER2_ERROR_ENOSPC \<noteq> 0 then ENOSPC
         else if error AND HAMMER2_ERROR_ENOENT \<noteq> 0 then ENOENT
         else if error AND HAMMER2_ERROR_ENOTEMPTY \<noteq> 0 then ENOTEMPTY
         else if error AND HAMMER2_ERROR_EAGAIN \<noteq> 0 then EAGAIN
         else if error AND HAMMER2_ERROR_ENOTDIR \<noteq> 0 then ENOTDIR
         else if error AND HAMMER2_ERROR_EISDIR \<noteq> 0 then EISDIR
         else if error AND HAMMER2_ERROR_EINPROGRESS \<noteq> 0 then EINPROGRESS
         else if error AND HAMMER2_ERROR_EEXIST \<noteq> 0 then EEXIST
         else if error AND HAMMER2_ERROR_EINVAL \<noteq> 0 then EINVAL
         else if error AND HAMMER2_ERROR_EDEADLK \<noteq> 0 then EDEADLK
         else if error AND HAMMER2_ERROR_ESRCH \<noteq> 0 then ESRCH
         else if error AND HAMMER2_ERROR_ETIMEDOUT \<noteq> 0 then ETIMEDOUT
         else EDOM)
      else E_OK)"

fun hammer2_errno_to_error :: "errno \<Rightarrow> u32" where
  "hammer2_errno_to_error E_OK = 0"
| "hammer2_errno_to_error EIO = HAMMER2_ERROR_EIO"
| "hammer2_errno_to_error EDOM = HAMMER2_ERROR_CHECK"
| "hammer2_errno_to_error EINTR = HAMMER2_ERROR_ABORTED"
| "hammer2_errno_to_error ENOSPC = HAMMER2_ERROR_ENOSPC"
| "hammer2_errno_to_error ENOENT = HAMMER2_ERROR_ENOENT"
| "hammer2_errno_to_error ENOTEMPTY = HAMMER2_ERROR_ENOTEMPTY"
| "hammer2_errno_to_error EAGAIN = HAMMER2_ERROR_EAGAIN"
| "hammer2_errno_to_error ENOTDIR = HAMMER2_ERROR_ENOTDIR"
| "hammer2_errno_to_error EISDIR = HAMMER2_ERROR_EISDIR"
| "hammer2_errno_to_error EINPROGRESS = HAMMER2_ERROR_EINPROGRESS"
| "hammer2_errno_to_error EEXIST = HAMMER2_ERROR_EEXIST"
| "hammer2_errno_to_error EINVAL = HAMMER2_ERROR_EINVAL"
| "hammer2_errno_to_error EDEADLK = HAMMER2_ERROR_EDEADLK"
| "hammer2_errno_to_error ESRCH = HAMMER2_ERROR_ESRCH"
| "hammer2_errno_to_error ETIMEDOUT = HAMMER2_ERROR_ETIMEDOUT"
| "hammer2_errno_to_error _ = HAMMER2_ERROR_EINVAL"

lemma error_to_errno_to_error:
  "hammer2_error_to_errno (hammer2_errno_to_error e) = (if e = EOPNOTSUPP then EINVAL else e)"
  by (cases e) (simp_all add: hammer2_error_to_errno_def)

section \<open>Properties\<close>

text \<open>\<open>hammer2_getradix\<close> returns the smallest radix whose power of two holds the given number of
  bytes, in spite of the starting points it jumps to.\<close>

theorem getradix_smallest:
  "bytes \<le> 2 ^ hammer2_getradix bytes \<and> (\<forall>r < hammer2_getradix bytes. 2 ^ r < bytes)"
proof -
  have "bytes \<le> 2 ^ bytes" by (rule less_imp_le [OF less_exp])
  then have "bytes \<le> 2 ^ (LEAST r. bytes \<le> 2 ^ r)" by (rule LeastI)
  moreover have "2 ^ r < bytes" if "r < (LEAST r. bytes \<le> 2 ^ r)" for r
    using not_less_Least [OF that] by simp
  ultimately show ?thesis by (simp add: getradix_least)
qed

theorem getradix_smallest_witness: "hammer2_getradix 3000 = 12"
proof -
  let ?r = "hammer2_getradix 3000"
  have "3000 \<le> (2::nat) ^ ?r" "\<forall>r < ?r. 2 ^ r < (3000::nat)"
    using getradix_smallest [of 3000] by simp_all
  moreover have "\<not> ?r \<le> 11"
  proof
    assume "?r \<le> 11"
    then have "(2::nat) ^ ?r \<le> 2 ^ 11" by (rule power_increasing) simp
    with \<open>3000 \<le> 2 ^ ?r\<close> show False by simp
  qed
  moreover have "\<not> 12 < ?r"
  proof
    assume "12 < ?r"
    with \<open>\<forall>r < ?r. 2 ^ r < (3000::nat)\<close> have "(2::nat) ^ 12 < 3000" by blast
    then show False by simp
  qed
  ultimately show ?thesis by linarith
qed

text \<open>The physical block of a logical 64KB block is the whole block if the file reaches beyond it,
  nothing if the block starts at or after the end of file, and otherwise the smallest power of two,
  at least 1KB, that holds the bytes up to the end of file.\<close>

theorem calc_physical_spec:
  assumes "unat lbase + HAMMER2_PBUFSIZE < 2 ^ 64"
  shows "hammer2_calc_physical isize lbase =
    (if unat lbase + HAMMER2_PBUFSIZE \<le> unat isize then HAMMER2_PBUFSIZE
     else if isize \<le> lbase then 0
     else 2 ^ max HAMMER2_RADIX_MIN (hammer2_getradix (unat isize - unat lbase)))"
proof -
  have sum: "unat (lbase + 65536) = unat lbase + 65536"
    using assms by (simp add: unat_word_ariths)
  then have le: "lbase + 65536 \<le> isize \<longleftrightarrow> unat lbase + 65536 \<le> unat isize"
    by (simp add: word_le_nat_alt)
  have "physical_loop 65536 (unat (isize - lbase)) * 2 = 2 ^ max 10 (hammer2_getradix (unat isize - unat lbase))"
    if "\<not> unat lbase + 65536 \<le> unat isize" "\<not> isize \<le> lbase"
  proof -
    have "unat (isize - lbase) = unat isize - unat lbase"
      using that(2) by (simp add: unat_sub word_le_nat_alt)
    moreover have "0 < unat isize - unat lbase" "unat isize - unat lbase \<le> 2 ^ 16"
      using that by (simp_all add: word_le_nat_alt)
    ultimately show ?thesis
      using physical_loop_spec [of "unat isize - unat lbase" 16] by (simp add: getradix_least)
  qed
  then show ?thesis
    by (auto simp: hammer2_calc_physical_def hammer2_calc_logical_def le)
qed

theorem calc_physical_spec_witness:
  "hammer2_calc_physical 70000 65536 = 2 ^ max 10 (hammer2_getradix 4464)"
  using calc_physical_spec [of 65536 70000] by simp

text \<open>A 64-bit HAMMER2 time (microseconds) survives the conversion to a \<open>timespec\<close> and back, and a
  unix id survives the conversion to a uuid and back.\<close>

theorem time_and_id_round_trip:
  "hammer2_timespec_to_time (hammer2_time_to_timespec t) = t \<and>
   hammer2_to_unix_xid (hammer2_guid_to_uuid guid) = guid"
  by (simp add: time_timespec unix_xid_guid)

text \<open>Every \<open>errno\<close> survives the conversion to a HAMMER2 error and back, except \<open>EOPNOTSUPP\<close>,
  which comes back as \<open>EINVAL\<close>.\<close>

theorem errno_round_trip:
  "hammer2_error_to_errno (hammer2_errno_to_error e) = (if e = EOPNOTSUPP then EINVAL else e)"
  by (rule error_to_errno_to_error)

end
