(* ===== verification/H2_Bitmap.thy ===== *)
theory H2_Bitmap
  imports H2_Disk
begin

text \<open>
  The abstract view of a freemap bitmap.  A \<open>bitmapq[]\<close> word holds 32 two-bit slots, one per 16KB
  block, and a bitmap entry holds eight words, 256 slots for 4MB.  The C code works on the words
  with shifts and masks; this theory relates every such expression to the state of the slots, so
  that the component proofs never look at single bits.
\<close>

section \<open>Slot states\<close>

text \<open>The bit patterns of hammer2_disk.h: 00 unallocated, 01 reserved, 10 possibly free,
  11 allocated.\<close>

datatype bstate = BFree | BPartial | BStaged | BAlloc

text \<open>The order of the two-bit codes.\<close>

definition bstate_code :: "bstate \<Rightarrow> nat" where
  "bstate_code s = (case s of BFree \<Rightarrow> 0 | BPartial \<Rightarrow> 1 | BStaged \<Rightarrow> 2 | BAlloc \<Rightarrow> 3)"

lemma bstate_code_simps [simp]:
  "bstate_code BFree = 0" "bstate_code BPartial = 1" "bstate_code BStaged = 2" "bstate_code BAlloc = 3"
  by (simp_all add: bstate_code_def)

instantiation bstate :: linorder
begin

definition less_eq_bstate :: "bstate \<Rightarrow> bstate \<Rightarrow> bool" where
  "less_eq_bstate s t = (bstate_code s \<le> bstate_code t)"

definition less_bstate :: "bstate \<Rightarrow> bstate \<Rightarrow> bool" where
  "less_bstate s t = (bstate_code s < bstate_code t)"

instance
proof
  fix s t :: bstate
  assume "s \<le> t" "t \<le> s"
  then show "s = t"
    by (cases s; cases t) (simp_all add: less_eq_bstate_def)
qed (auto simp: less_eq_bstate_def less_bstate_def)

end

definition slot_state :: "u64 \<Rightarrow> nat \<Rightarrow> bstate" where
  "slot_state w k =
     (if bit w (2 * k + 1) then (if bit w (2 * k) then BAlloc else BStaged)
      else (if bit w (2 * k) then BPartial else BFree))"

lemma slot_state_iff [simp]:
  "slot_state w k = BFree \<longleftrightarrow> \<not> bit w (2 * k + 1) \<and> \<not> bit w (2 * k)"
  "slot_state w k = BPartial \<longleftrightarrow> \<not> bit w (2 * k + 1) \<and> bit w (2 * k)"
  "slot_state w k = BStaged \<longleftrightarrow> bit w (2 * k + 1) \<and> \<not> bit w (2 * k)"
  "slot_state w k = BAlloc \<longleftrightarrow> bit w (2 * k + 1) \<and> bit w (2 * k)"
  by (simp_all add: slot_state_def)

lemma slot_state_cong_bits:
  "bit v (2 * k + 1) = bit w (2 * l + 1) \<Longrightarrow> bit v (2 * k) = bit w (2 * l)
   \<Longrightarrow> slot_state v k = slot_state w l"
  by (simp add: slot_state_def)

lemma slot_state_eqD:
  assumes "slot_state v k = slot_state w l"
  shows "bit v (2 * k + 1) = bit w (2 * l + 1)" "bit v (2 * k) = bit w (2 * l)"
  using assms by (auto simp: slot_state_def split: if_splits)

lemma nat_cases_2: obtains k where "n = 2 * k" | k where "n = 2 * k + (1::nat)"
  by (metis evenE oddE)

lemma bitmap_word_eqI:
  assumes "\<And>k. k < 32 \<Longrightarrow> slot_state v k = slot_state w k"
  shows "v = w"
proof (rule bit_word_eqI)
  fix n
  assume n: "n < LENGTH(64)"
  show "bit v n = bit w n"
  proof (cases n rule: nat_cases_2)
    case (1 k)
    with n have "slot_state v k = slot_state w k" by (intro assms) simp
    from slot_state_eqD [OF this] 1 show ?thesis by simp
  next
    case (2 k)
    with n have "slot_state v k = slot_state w k" by (intro assms) simp
    from slot_state_eqD [OF this] 2 show ?thesis by simp
  qed
qed

lemma slot_state_0 [simp]: "slot_state 0 k = BFree"
  by simp

lemma slot_state_minus_1: "k < 32 \<Longrightarrow> slot_state (- 1) k = BAlloc"
  by (simp add: bit_minus_1_iff)

section \<open>Mask expressions of the code\<close>

lemma free_run_iff:
  assumes "a + m \<le> 32"
  shows "(w AND runmask (2 * a) (2 * m) :: u64) = 0 \<longleftrightarrow>
    (\<forall>k. a \<le> k \<and> k < a + m \<longrightarrow> slot_state w k = BFree)"
proof -
  have "(\<forall>b. 2 * a \<le> b \<and> b < 2 * a + 2 * m \<and> b < 64 \<longrightarrow> \<not> bit w b) \<longleftrightarrow>
    (\<forall>k. a \<le> k \<and> k < a + m \<longrightarrow> \<not> bit w (2 * k + 1) \<and> \<not> bit w (2 * k))" (is "?L = ?R")
  proof
    assume ?L
    with assms show ?R by auto
  next
    assume R: ?R
    show ?L
    proof (intro allI impI)
      fix b
      assume "2 * a \<le> b \<and> b < 2 * a + 2 * m \<and> b < 64"
      then show "\<not> bit w b"
        by (cases b rule: nat_cases_2) (use R in auto)
    qed
  qed
  then show ?thesis by (simp add: and_runmask_eq_0)
qed

lemma slot_or_run:
  "k < 32 \<Longrightarrow> slot_state (w OR runmask (2 * a) (2 * m)) k =
     (if a \<le> k \<and> k < a + m then BAlloc else slot_state w k)"
  by (auto simp: slot_state_def bit_or_iff bit_runmask)

lemma runmask_2_eq: "runmask (2 * k) 2 = (push_bit (2 * k) 3 :: u64)"
  by (simp add: runmask_def mask_eq_exp_minus_1)

lemma slot_or_3:
  "k < 32 \<Longrightarrow> slot_state (w OR push_bit (2 * i) 3) k = (if k = i then BAlloc else slot_state w k)"
  using slot_or_run [of k w i 1] by (auto simp: runmask_2_eq)

lemma and_3_eq_0_iff: "i < 32 \<Longrightarrow> (w AND push_bit (2 * i) 3 :: u64) = 0 \<longleftrightarrow> slot_state w i = BFree"
  using free_run_iff [of i 1 w] by (auto simp: runmask_2_eq less_Suc_eq_le le_antisym)

lemma bit_clear_1:
  "n < 64 \<Longrightarrow> bit (w AND NOT (push_bit i 1) :: u64) n \<longleftrightarrow> bit w n \<and> n \<noteq> i"
  unfolding bit_and_iff bit_not_iff bit_push_bit_iff by (auto simp: bit_1_iff)

lemma bit_clear_2:
  "n < 64 \<Longrightarrow> bit (w AND NOT (push_bit i 2) :: u64) n \<longleftrightarrow> bit w n \<and> n \<noteq> Suc i"
  unfolding bit_and_iff bit_not_iff bit_push_bit_iff by (auto simp: bit_2_iff)

lemma slot_clear_2:
  assumes "k < 32" "slot_state w i = BStaged"
  shows "slot_state (w AND NOT (push_bit (2 * i) 2)) k = (if k = i then BFree else slot_state w k)"
  using assms bit_clear_2 [of "2 * k" w "2 * i"] bit_clear_2 [of "2 * k + 1" w "2 * i"]
  unfolding slot_state_def [of "w AND NOT (push_bit (2 * i) 2)" k] slot_state_def [of w k]
  by (auto; presburger)

lemma slot_clear_1:
  assumes "k < 32" "slot_state w i = BAlloc"
  shows "slot_state (w AND NOT (push_bit (2 * i) 1)) k = (if k = i then BStaged else slot_state w k)"
  using assms bit_clear_1 [of "2 * k" w "2 * i"] bit_clear_1 [of "2 * k + 1" w "2 * i"]
  unfolding slot_state_def [of "w AND NOT (push_bit (2 * i) 1)" k] slot_state_def [of w k]
  by (auto; presburger)

text \<open>The low two bits of a shifted word, as the loops of the bulk-free pass test them.\<close>

lemma and_3_code: "(w AND 3 :: u64) = of_nat (bstate_code (slot_state w 0))"
proof -
  have "(w AND 3 :: u64) = take_bit 2 w"
    by (simp add: take_bit_eq_mask mask_eq_exp_minus_1)
  also have "\<dots> = of_bool (bit w 0) + 2 * of_bool (bit w 1)"
    by (rule bit_word_eqI) (auto simp: bit_simps numeral_2_eq_2 less_Suc_eq)
  finally show ?thesis by (simp add: slot_state_def)
qed

lemma slot_drop_bit: "slot_state (drop_bit (2 * i) w) k = slot_state w (i + k)"
  by (rule slot_state_cong_bits) (simp_all add: bit_drop_bit_eq algebra_simps)

section \<open>Counting free slots\<close>

definition free_slots :: "u64 \<Rightarrow> nat" where
  "free_slots w = card {k. k < 32 \<and> slot_state w k = BFree}"

lemma free_slots_le: "free_slots w \<le> 32"
proof -
  have "free_slots w \<le> card {k::nat. k < 32}"
    unfolding free_slots_def by (intro card_mono) auto
  then show ?thesis by simp
qed

lemma free_slots_0 [simp]: "free_slots 0 = 32"
  by (simp add: free_slots_def)

lemma free_slots_ones [simp]: "free_slots (- 1) = 0"
  by (simp add: free_slots_def bit_minus_1_iff)

text \<open>Changing the slots of a set: the count moves by what leaves and what becomes free.\<close>

lemma free_slots_take:
  assumes "S \<subseteq> {k. k < 32 \<and> slot_state w k = BFree}"
    and "\<And>k. k < 32 \<Longrightarrow> k \<in> S \<Longrightarrow> slot_state v k \<noteq> BFree"
    and "\<And>k. k < 32 \<Longrightarrow> k \<notin> S \<Longrightarrow> slot_state v k = BFree \<longleftrightarrow> slot_state w k = BFree"
  shows "free_slots v + card S = free_slots w"
proof -
  let ?F = "\<lambda>u. {k. k < 32 \<and> slot_state u k = BFree}"
  have "?F w = ?F v \<union> S" "?F v \<inter> S = {}"
    using assms by blast+
  moreover have "finite (?F v)" "finite S"
    using assms(1) by (auto intro: finite_subset)
  ultimately show ?thesis
    unfolding free_slots_def by (simp add: card_Un_disjoint)
qed

lemma free_slots_cong:
  "(\<And>k. k < 32 \<Longrightarrow> slot_state v k = BFree \<longleftrightarrow> slot_state w k = BFree) \<Longrightarrow> free_slots v = free_slots w"
  unfolding free_slots_def by (metis (no_types, lifting))

lemma free_slots_run:
  assumes "a + m \<le> 32" "w AND runmask (2 * a) (2 * m) = 0"
  shows "free_slots (w OR runmask (2 * a) (2 * m)) + m = free_slots w"
proof -
  have "free_slots (w OR runmask (2 * a) (2 * m)) + card {a..<a + m} = free_slots w"
    using assms by (intro free_slots_take) (auto simp: free_run_iff slot_or_run simp del: slot_state_iff)
  then show ?thesis by simp
qed

section \<open>Eight words: the slots of a 4MB segment\<close>

definition bslot :: "u64 list \<Rightarrow> nat \<Rightarrow> bstate" where
  "bslot q n = slot_state (q ! (n div 32)) (n mod 32)"

definition bmap_free :: "u64 list \<Rightarrow> nat" where
  "bmap_free q = sum_list (map free_slots q)"

definition wf_bmap :: "bmap_data \<Rightarrow> bool" where
  "wf_bmap b \<longleftrightarrow> length (bm_bitmapq b) = 8"

text \<open>\<open>avail\<close> is bitmap-granular: 16KB for every free slot.\<close>

definition avail_exact :: "bmap_data \<Rightarrow> bool" where
  "avail_exact b \<longleftrightarrow> unat (bm_avail b) = HAMMER2_FREEMAP_BLOCK_SIZE * bmap_free (bm_bitmapq b)"

lemma bmap_free_le: "length q = 8 \<Longrightarrow> bmap_free q \<le> 256"
  using sum_list_le_bound [of free_slots 32 q] free_slots_le by (simp add: bmap_free_def)

lemma bmap_free_update:
  "i < length q \<Longrightarrow> bmap_free (q[i := w]) + free_slots (q ! i) = bmap_free q + free_slots w"
  by (simp add: bmap_free_def sum_list_update_nat)

lemma bslot_update:
  "n < 256 \<Longrightarrow> length q = 8 \<Longrightarrow>
   bslot (q[i := w]) n = (if n div 32 = i then slot_state w (n mod 32) else bslot q n)"
  by (auto simp: bslot_def nth_list_update)

lemma bslot_index: "k < 32 \<Longrightarrow> bslot q (32 * i + k) = slot_state (q ! i) k"
  by (simp add: bslot_def)

lemma bmap_free_card:
  assumes "length q = 8"
  shows "bmap_free q = card {n. n < 256 \<and> bslot q n = BFree}"
proof -
  let ?A = "\<lambda>i. {n. n div 32 = i \<and> bslot q n = BFree}"
  have img: "?A i = (\<lambda>k. 32 * i + k) ` {k. k < 32 \<and> slot_state (q ! i) k = BFree}" for i
  proof (intro equalityI subsetI)
    fix n assume n: "n \<in> ?A i"
    then have "n = 32 * i + n mod 32" by auto
    moreover from n have "slot_state (q ! i) (n mod 32) = BFree" by (auto simp: bslot_def)
    ultimately show "n \<in> (\<lambda>k. 32 * i + k) ` {k. k < 32 \<and> slot_state (q ! i) k = BFree}" by force
  qed (auto simp: bslot_def)
  have card: "card (?A i) = free_slots (q ! i)" for i
    unfolding img free_slots_def by (rule card_image) (simp add: inj_on_def)
  have fin: "finite (?A i)" for i
    unfolding img by simp
  have "{n. n < 256 \<and> bslot q n = BFree} = (\<Union>i<8. ?A i)"
    by (auto simp del: slot_state_iff)
  then have "card {n. n < 256 \<and> bslot q n = BFree} = (\<Sum>i<8. card (?A i))"
    by (simp only:) (rule card_UN_disjoint, use fin in auto)
  also have "\<dots> = (\<Sum>i<8. free_slots (q ! i))" by (simp only: card)
  also have "\<dots> = bmap_free q"
    using assms by (simp add: bmap_free_def sum_list_sum_nth atLeast0LessThan)
  finally show ?thesis by simp
qed

section \<open>The accounting contract\<close>

text \<open>
  Every operation of the freemap and of the bulk-free pass that touches a bitmap entry has to keep
  the entry well formed and \<open>avail\<close> equal to the free space the bitmap shows.  The contract is
  stated once, for an operation that may refuse (\<open>None\<close>), and gives the same for any sequence of
  such operations.
\<close>

locale accounted =
  fixes step :: "'op \<Rightarrow> bmap_data \<Rightarrow> bmap_data option"
  assumes wf_step: "wf_bmap b \<Longrightarrow> avail_exact b \<Longrightarrow> step x b = Some b' \<Longrightarrow> wf_bmap b'"
    and exact_step: "wf_bmap b \<Longrightarrow> avail_exact b \<Longrightarrow> step x b = Some b' \<Longrightarrow> avail_exact b'"
begin

fun run :: "'op list \<Rightarrow> bmap_data \<Rightarrow> bmap_data option" where
  "run [] b = Some b"
| "run (x # xs) b = (case step x b of None \<Rightarrow> None | Some b' \<Rightarrow> run xs b')"

lemma run_accounted:
  "wf_bmap b \<Longrightarrow> avail_exact b \<Longrightarrow> run xs b = Some b' \<Longrightarrow> wf_bmap b' \<and> avail_exact b'"
  by (induction xs arbitrary: b) (auto split: option.splits dest: wf_step exact_step)

end

end
