(* ===== verification/H2_Freemap.thy ===== *)
theory H2_Freemap
  imports H2_Bitmap H2_Subr
begin

text \<open>
  The freemap allocator, \<open>sys/hammer2/hammer2_freemap.c\<close>.

  A level-1 freemap leaf (1GB, 256 bitmap entries of 4MB) is the record \<open>leaf\<close>; the freemap
  topology below \<open>hmp->fchain\<close> is the map \<open>fmap\<close> from the leaf's key to the leaf, so
  \<open>hammer2_chain_lookup\<close> of a leaf is application of the map and \<open>hammer2_chain_create\<close> followed by
  \<open>hammer2_freemap_init\<close> is an update.  Locks, references and the transaction id, which do not
  influence the result, are not in the model.  The calls into the device buffer layer and the
  volume-header dirtying are recorded in order in \<open>dv_log\<close>.
\<close>

section \<open>State\<close>

datatype dev_event =
    IoNewnz u8 h2_off              \<comment> \<open>hammer2_io_newnz + putblk of a 64KB buffer\<close>
  | IoDedupSet h2_off              \<comment> \<open>hammer2_io_dedup_set\<close>
  | IoDedupDelete h2_off           \<comment> \<open>hammer2_io_dedup_delete of a 16KB block\<close>
  | IoDedupAssert h2_off           \<comment> \<open>hammer2_io_dedup_assert of a 16KB block\<close>
  | VoldataModify                  \<comment> \<open>hammer2_voldata_modify\<close>

record leaf =
  lf_bigmask :: u32
  lf_avail :: u64
  lf_error :: u32
  lf_bmdata :: "bmap_data list"

record h2dev =
  dv_allocator_beg :: h2_off
  dv_allocator_free :: u64
  dv_total_size :: h2_off
  dv_relaxed :: nat
  dv_heur :: "h2_off list"
  dv_fmap :: "h2_key \<rightharpoonup> leaf"
  dv_create_error :: "h2_key \<Rightarrow> u32"
  dv_log :: "dev_event list"

record fiterate =
  it_bpref :: h2_off
  it_bnext :: h2_off
  it_loops :: nat
  it_relaxed :: nat

definition log_event :: "dev_event \<Rightarrow> h2dev \<Rightarrow> h2dev" where
  "log_event e d = d\<lparr>dv_log := dv_log d @ [e]\<rparr>"

section \<open>hammer2_bmap_alloc\<close>

text \<open>The number of bitmap bits of an allocation: two per 16KB block.\<close>

definition bmradix_of :: "nat \<Rightarrow> nat" where
  "bmradix_of radix =
     (if radix \<le> HAMMER2_FREEMAP_BLOCK_RADIX then 2
      else 2 * 2 ^ (radix - HAMMER2_FREEMAP_BLOCK_RADIX))"

definition bmmask_of :: "nat \<Rightarrow> u64" where
  "bmmask_of bmradix =
     (if bmradix = HAMMER2_BMAP_BITS_PER_ELEMENT then - 1 else push_bit bmradix 1 - 1)"

text \<open>The inner loop over the bit index \<open>j\<close> of one element, and the loop over the elements.  The
  loops yield the element, the bit index and the mask at the \<open>success\<close> label.\<close>

function bmap_scan_bits :: "u64 \<Rightarrow> nat \<Rightarrow> u64 \<Rightarrow> nat \<Rightarrow> (nat \<times> u64) option" where
  "bmap_scan_bits w bmradix bmmask j =
     (if j < HAMMER2_BMAP_BITS_PER_ELEMENT \<and> 0 < bmradix then
        (if w AND bmmask = 0 then Some (j, bmmask)
         else bmap_scan_bits w bmradix (push_bit bmradix bmmask) (j + bmradix))
      else None)"
  by pat_completeness auto
termination
  by (relation "measure (\<lambda>(w, bmradix, bmmask, j). 64 - j)") auto

declare bmap_scan_bits.simps [simp del]

fun bmap_scan :: "u64 list \<Rightarrow> nat \<Rightarrow> nat \<Rightarrow> (nat \<times> nat \<times> u64) option" where
  "bmap_scan [] bmradix i = None"
| "bmap_scan (w # ws) bmradix i =
     (case bmap_scan_bits w bmradix (bmmask_of bmradix) 0 of
        Some (j, bmmask) \<Rightarrow> Some (i, j, bmmask)
      | None \<Rightarrow> bmap_scan ws bmradix (Suc i))"

text \<open>The condition under which the linear iterator is used.\<close>

definition bmap_use_linear :: "bmap_data \<Rightarrow> nat \<Rightarrow> bool" where
  "bmap_use_linear b sz \<longleftrightarrow>
     (bm_linear b AND HAMMER2_FREEMAP_BLOCK_MASK) + int sz \<le> HAMMER2_FREEMAP_BLOCK_SIZE \<and>
     (bm_linear b AND HAMMER2_FREEMAP_BLOCK_MASK) \<noteq> 0 \<and> bm_linear b < HAMMER2_SEGSIZE"

text \<open>A place for the allocation: bitmap element, mask, byte offset in the 4MB segment, and the new
  value of the linear iterator.\<close>

record bmap_place =
  pl_i :: nat
  pl_mask :: u64
  pl_offset :: nat
  pl_linear :: int

definition bmap_place_linear :: "bmap_data \<Rightarrow> nat \<Rightarrow> bmap_place option" where
  "bmap_place_linear b radix = do {
     let sz = 2 ^ radix;
     kkassert (0 \<le> bm_linear b);
     kkassert (bm_linear b + int sz \<le> HAMMER2_SEGSIZE);
     kkassert (bm_linear b AND (HAMMER2_ALLOC_MIN - 1) = 0);
     let offset = nat (bm_linear b);
     let i = offset div (HAMMER2_SEGSIZE div HAMMER2_BMAP_ELEMENTS);
     let j = (offset div (HAMMER2_FREEMAP_BLOCK_SIZE div 2)) AND 62;
     Some \<lparr>pl_i = i, pl_mask = push_bit j (bmmask_of (bmradix_of radix)), pl_offset = offset,
           pl_linear = int (offset + sz)\<rparr>
   }"

text \<open>The place selected by \<open>sub_key\<close> for file data of at least 16KB: \<open>None\<close> stands for the
  value -1 of \<open>i\<close> and \<open>j\<close>.\<close>

definition bmap_sub_index :: "u16 \<Rightarrow> u32 \<Rightarrow> nat \<Rightarrow> (nat \<times> nat) option" where
  "bmap_sub_index class sub_key radix =
     (if ucast (drop_bit 8 class) = BREF_DATA \<and> HAMMER2_FREEMAP_BLOCK_RADIX \<le> radix then
        Some (unat (sub_key AND HAMMER2_BMAP_MASK) div (HAMMER2_BMAP_SIZE div HAMMER2_BMAP_ELEMENTS),
              unat (sub_key AND HAMMER2_BMAP_INDEX_MASK) div
                (HAMMER2_BMAP_INDEX_SIZE div HAMMER2_BMAP_BLOCKS_PER_ELEMENT) * 2)
      else None)"

text \<open>The \<open>success\<close> label: offset of the found bits, and the iterator after a sub-block
  allocation.\<close>

definition bmap_place_success :: "bmap_data \<Rightarrow> nat \<Rightarrow> nat \<times> nat \<times> u64 \<Rightarrow> bmap_place" where
  "bmap_place_success b sz ijm = (case ijm of (i, j, bmmask) \<Rightarrow>
     let offset = i * (HAMMER2_SEGSIZE div HAMMER2_BMAP_ELEMENTS) +
                  j * (HAMMER2_FREEMAP_BLOCK_SIZE div 2)
     in \<lparr>pl_i = i, pl_mask = bmmask, pl_offset = offset,
         pl_linear = (if sz AND HAMMER2_FREEMAP_BLOCK_MASK \<noteq> 0 then int (offset + sz)
                      else bm_linear b)\<rparr>)"

text \<open>The search in the bitmap: first the block selected by \<open>sub_key\<close>, then the general scan.  The
  outer option is the panic, the inner \<open>None\<close> is \<open>ENOSPC\<close>.\<close>

definition bmap_place_bitmap :: "bmap_data \<Rightarrow> u16 \<Rightarrow> u32 \<Rightarrow> nat \<Rightarrow> bmap_place option option" where
  "bmap_place_bitmap b class sub_key radix = do {
     let sz = 2 ^ radix;
     let bmradix = bmradix_of radix;
     let general = Some (map_option (bmap_place_success b sz) (bmap_scan (bm_bitmapq b) bmradix 0));
     (case bmap_sub_index class sub_key radix of
        None \<Rightarrow> general
      | Some (i, j) \<Rightarrow> do {
          kkassert (i < HAMMER2_BMAP_ELEMENTS);
          kkassert (j < 2 * HAMMER2_BMAP_BLOCKS_PER_ELEMENT);
          kkassert (j + bmradix \<le> HAMMER2_BMAP_BITS_PER_ELEMENT);
          let bmmask = push_bit j (bmmask_of bmradix);
          if bm_bitmapq b ! i AND bmmask = 0
          then Some (Some (bmap_place_success b sz (i, j, bmmask)))
          else general
        })
   }"

definition bmap_find_place :: "bmap_data \<Rightarrow> u16 \<Rightarrow> u32 \<Rightarrow> nat \<Rightarrow> bmap_place option option" where
  "bmap_find_place b class sub_key radix =
     (if bmap_use_linear b (2 ^ radix) then map_option Some (bmap_place_linear b radix)
      else bmap_place_bitmap b class sub_key radix)"

text \<open>The 64KB-granular mask that covers the allocation.  The C loop shifts until the masks meet;
  eight steps cover the word, and running out of steps is the endless loop the C code would
  enter for an empty \<open>bmmask\<close>.\<close>

fun pbmmask_find :: "nat \<Rightarrow> u64 \<Rightarrow> u64 \<Rightarrow> u64 option" where
  "pbmmask_find 0 pbmmask bmmask = None"
| "pbmmask_find (Suc fuel) pbmmask bmmask =
     (if pbmmask AND bmmask = 0 then pbmmask_find fuel (push_bit 8 pbmmask) bmmask
      else Some pbmmask)"

definition bmap_prefetch :: "h2dev \<Rightarrow> bmap_data \<Rightarrow> u16 \<Rightarrow> nat \<Rightarrow> h2_key \<Rightarrow> bmap_place \<Rightarrow> h2dev option" where
  "bmap_prefetch d b class sz base pl =
     (if bm_bitmapq b ! pl_i pl AND pl_mask pl = 0 \<and> HAMMER2_PBUFSIZE \<noteq> sz then do {
        pbmmask \<leftarrow> pbmmask_find 8 (bmmask_of 8) (pl_mask pl);
        if bm_bitmapq b ! pl_i pl AND pbmmask = 0
        then Some (log_event (IoNewnz (ucast (drop_bit 8 class))
               ((base + (of_nat (pl_offset pl) AND NOT HAMMER2_PBUFMASK)) OR HAMMER2_PBUFRADIX)) d)
        else Some d
      } else Some d)"

text \<open>The bitmap-granular size that is charged to \<open>avail\<close> and \<open>allocator_free\<close>.\<close>

definition bmap_bgsize :: "bmap_data \<Rightarrow> nat \<Rightarrow> bmap_place \<Rightarrow> nat" where
  "bmap_bgsize b radix pl =
     (if radix < HAMMER2_FREEMAP_BLOCK_RADIX
      then (if bm_bitmapq b ! pl_i pl AND pl_mask pl \<noteq> 0 then 0 else HAMMER2_FREEMAP_BLOCK_SIZE)
      else 2 ^ radix)"

definition bmap_commit :: "bmap_data \<Rightarrow> u16 \<Rightarrow> nat \<Rightarrow> bmap_place \<Rightarrow> bmap_data" where
  "bmap_commit b class bgsize pl =
     b\<lparr>bm_linear := pl_linear pl,
       bm_bitmapq := (bm_bitmapq b)[pl_i pl := (bm_bitmapq b ! pl_i pl) OR pl_mask pl],
       bm_class := (if bm_class b = 0 then class else bm_class b),
       bm_avail := bm_avail b - of_nat bgsize\<rparr>"

definition voldata_sub_free :: "nat \<Rightarrow> h2dev \<Rightarrow> h2dev" where
  "voldata_sub_free bgsize d =
     (if bgsize \<noteq> 0
      then (log_event VoldataModify d)\<lparr>dv_allocator_free := dv_allocator_free d - of_nat bgsize\<rparr>
      else d)"

definition hammer2_bmap_alloc ::
  "h2dev \<Rightarrow> bmap_data \<Rightarrow> u16 \<Rightarrow> u32 \<Rightarrow> nat \<Rightarrow> h2_key \<Rightarrow> (u32 \<times> h2dev \<times> bmap_data \<times> h2_key) option" where
  "hammer2_bmap_alloc d b class sub_key radix base = do {
     place \<leftarrow> bmap_find_place b class sub_key radix;
     (case place of
        None \<Rightarrow> Some (HAMMER2_ERROR_ENOSPC, d, b, base)
      | Some pl \<Rightarrow> do {
          kkassert (pl_i pl < HAMMER2_BMAP_ELEMENTS);
          d' \<leftarrow> bmap_prefetch d b class (2 ^ radix) base pl;
          let bgsize = bmap_bgsize b radix pl;
          Some (0, voldata_sub_free bgsize d', bmap_commit b class bgsize pl,
                base + of_nat (pl_offset pl))
        })
   }"

subsection \<open>What the searches find\<close>

text \<open>The number of 16KB blocks of an allocation.\<close>

definition blocks_of :: "nat \<Rightarrow> nat" where
  "blocks_of radix = (if radix \<le> 14 then 1 else 2 ^ (radix - 14))"

lemma bmradix_of_eq: "bmradix_of radix = 2 * blocks_of radix"
  by (simp add: bmradix_of_def blocks_of_def)

lemma bmmask_of_eq: "bmmask_of r = runmask 0 r"
proof (cases "r = 64")
  case True
  have "(- 1 :: u64) = mask 64"
    by (simp add: mask_eq_exp_minus_1 flip: mask_eq_decr_exp)
  then show ?thesis using True by (simp add: bmmask_of_def runmask_def)
next
  case False
  then show ?thesis by (simp only: bmmask_of_def shift_ones_eq_mask runmask_def push_bit_0_id id_apply if_False)
qed

lemma push_bmmask: "push_bit j (bmmask_of r) = runmask j r"
  by (simp add: bmmask_of_eq runmask_push)

lemma blocks_of_cases:
  assumes "radix \<le> HAMMER2_RADIX_MAX"
  shows "blocks_of radix \<in> {1, 2, 4}"
proof -
  from assms consider "radix \<le> 14" | "radix = 15" | "radix = 16" by linarith
  then show ?thesis by cases (auto simp: blocks_of_def)
qed

lemma blocks_of_dvd_32: "radix \<le> HAMMER2_RADIX_MAX \<Longrightarrow> blocks_of radix dvd 32 \<and> 0 < blocks_of radix"
  using blocks_of_cases [of radix] by auto

lemma power_blocks_of: "14 \<le> radix \<Longrightarrow> (2::nat) ^ radix = 16384 * blocks_of radix"
proof -
  assume "14 \<le> radix"
  then have "(2::nat) ^ radix = 2 ^ 14 * 2 ^ (radix - 14)" by (subst power_add [symmetric]) simp
  then show ?thesis using \<open>14 \<le> radix\<close> by (auto simp: blocks_of_def)
qed

lemma aligned_run_fits: "m dvd a \<Longrightarrow> m dvd (32::nat) \<Longrightarrow> a < 32 \<Longrightarrow> a + m \<le> 32"
  by (metis add.commute add_le_cancel_left dvd_diff_nat dvd_imp_le le_add_diff_inverse less_imp_le zero_less_diff)

lemma bmap_scan_bits_step:
  "0 < m \<Longrightarrow> bmap_scan_bits w (2 * m) (runmask (2 * a) (2 * m)) (2 * a) =
     (if a < 32 then if w AND runmask (2 * a) (2 * m) = 0 then Some (2 * a, runmask (2 * a) (2 * m))
        else bmap_scan_bits w (2 * m) (runmask (2 * (a + m)) (2 * m)) (2 * (a + m))
      else None)"
  by (subst bmap_scan_bits.simps) (simp add: runmask_push algebra_simps)

lemma bmap_scan_bits_Some:
  assumes "0 < m" "m dvd 32" "m dvd a"
    and "bmap_scan_bits w (2 * m) (runmask (2 * a) (2 * m)) (2 * a) = Some (j, mm)"
  shows "\<exists>a'. m dvd a' \<and> a' + m \<le> 32 \<and> j = 2 * a' \<and> mm = runmask (2 * a') (2 * m) \<and> w AND mm = 0"
  using assms(3,4)
proof (induction "32 - a" arbitrary: a rule: less_induct)
  case less
  show ?case
  proof (cases "w AND runmask (2 * a) (2 * m) = 0")
    case True
    with less.prems assms(1) have "a < 32" "j = 2 * a" "mm = runmask (2 * a) (2 * m)"
      by (auto simp: bmap_scan_bits_step split: if_splits)
    with less.prems(1) assms(2) True show ?thesis
      by (auto intro!: exI [of _ a] aligned_run_fits)
  next
    case False
    with less.prems(2) assms(1) have "a < 32"
      and rec: "bmap_scan_bits w (2 * m) (runmask (2 * (a + m)) (2 * m)) (2 * (a + m)) = Some (j, mm)"
      by (auto simp: bmap_scan_bits_step [of m w a] split: if_splits)
    show ?thesis
      by (rule less.hyps [OF _ _ rec]) (use \<open>a < 32\<close> assms(1) less.prems(1) in auto)
  qed
qed

lemma bmap_scan_bits_None:
  assumes "0 < m" "m dvd a"
    and "bmap_scan_bits w (2 * m) (runmask (2 * a) (2 * m)) (2 * a) = None"
    and "a \<le> a'" "m dvd a'" "a' < 32"
  shows "w AND runmask (2 * a') (2 * m) \<noteq> 0"
  using assms(2-4)
proof (induction "32 - a" arbitrary: a rule: less_induct)
  case less
  from less.prems(3) assms(6) have "a < 32" by simp
  with less.prems(2) assms(1) have nz: "w AND runmask (2 * a) (2 * m) \<noteq> 0"
    and rec: "bmap_scan_bits w (2 * m) (runmask (2 * (a + m)) (2 * m)) (2 * (a + m)) = None"
    by (auto simp: bmap_scan_bits_step [of m w a] split: if_splits)
  show ?case
  proof (cases "a = a'")
    case True
    with nz show ?thesis by simp
  next
    case False
    with less.prems(3) have "0 < a' - a" "m dvd a' - a"
      using less.prems(1) assms(5) by (auto intro: dvd_diff_nat)
    then have "m \<le> a' - a" by (intro dvd_imp_le)
    with False less.prems(3) have "a + m \<le> a'" by linarith
    then show ?thesis
      by (intro less.hyps [OF _ _ rec]) (use \<open>a < 32\<close> assms(1) less.prems(1) in auto)
  qed
qed

lemma bmap_scan_Some:
  assumes "0 < m" "m dvd 32" "bmap_scan ws (2 * m) i0 = Some (i, j, mm)"
  shows "\<exists>a. i0 \<le> i \<and> i < i0 + length ws \<and> m dvd a \<and> a + m \<le> 32 \<and> j = 2 * a \<and>
     mm = runmask (2 * a) (2 * m) \<and> ws ! (i - i0) AND mm = 0"
  using assms(3)
proof (induction ws "2 * m" i0 rule: bmap_scan.induct)
  case (2 w ws i0)
  show ?case
  proof (cases "bmap_scan_bits w (2 * m) (bmmask_of (2 * m)) 0")
    case None
    with 2 obtain a where "Suc i0 \<le> i \<and> i < Suc i0 + length ws \<and> m dvd a \<and> a + m \<le> 32 \<and> j = 2 * a \<and>
     mm = runmask (2 * a) (2 * m) \<and> ws ! (i - Suc i0) AND mm = 0" by auto
    then show ?thesis by (intro exI [of _ a]) (auto simp: nth_Cons')
  next
    case (Some p)
    with 2(2) have "i = i0" "p = (j, mm)" by (auto split: prod.splits)
    moreover from this Some have "bmap_scan_bits w (2 * m) (runmask (2 * 0) (2 * m)) (2 * 0) = Some (j, mm)"
      by (simp add: bmmask_of_eq)
    from bmap_scan_bits_Some [OF assms(1,2) _ this] obtain a where
      "m dvd a \<and> a + m \<le> 32 \<and> j = 2 * a \<and> mm = runmask (2 * a) (2 * m) \<and> w AND mm = 0" by auto
    ultimately show ?thesis by auto
  qed
qed simp

lemma bmap_scan_None:
  assumes "0 < m" "bmap_scan ws (2 * m) i0 = None" "w \<in> set ws" "m dvd a" "a < 32"
  shows "w AND runmask (2 * a) (2 * m) \<noteq> 0"
  using assms(2,3)
proof (induction ws "2 * m" i0 rule: bmap_scan.induct)
  case (2 v ws i0)
  then have none: "bmap_scan_bits v (2 * m) (runmask (2 * 0) (2 * m)) (2 * 0) = None"
    and rec: "bmap_scan ws (2 * m) (Suc i0) = None"
    by (auto simp: bmmask_of_eq split: option.splits prod.splits)
  show ?case
  proof (cases "w = v")
    case True
    show ?thesis
      unfolding True by (rule bmap_scan_bits_None [OF assms(1) _ none _ assms(4,5)]) simp_all
  next
    case False
    with 2(3) have "w \<in> set ws" by simp
    from 2(1) [OF _ rec this] none show ?thesis by (simp add: bmmask_of_eq)
  qed
qed simp

text \<open>A place inside the 16KB block the linear iterator points into.\<close>

lemma bmap_place_linear_spec:
  assumes "bmap_use_linear b (2 ^ radix)" "bmap_place_linear b radix = Some pl"
  defines "n \<equiv> pl_offset pl div 16384"
  shows "radix < 14" "n < 256" "pl_i pl = n div 32" "pl_mask pl = runmask (2 * (n mod 32)) 2"
    "pl_offset pl mod 16384 \<noteq> 0" "pl_offset pl mod 16384 + 2 ^ radix \<le> 16384"
    "bm_linear b = int (pl_offset pl)" "pl_linear pl = int (pl_offset pl + 2 ^ radix)"
proof -
  from assms(2) have pos: "0 \<le> bm_linear b" and i: "pl_i pl = pl_offset pl div 524288"
    and m: "pl_mask pl = push_bit ((pl_offset pl div 8192) AND 62) (bmmask_of (bmradix_of radix))"
    and off: "pl_offset pl = nat (bm_linear b)"
    and lin: "pl_linear pl = int (pl_offset pl + 2 ^ radix)"
    by (auto simp: bmap_place_linear_def kkassert_bind Let_def split: if_splits)
  from pos off show lo: "bm_linear b = int (pl_offset pl)" by simp
  from lin show "pl_linear pl = int (pl_offset pl + 2 ^ radix)" .
  from assms(1) have u: "int (pl_offset pl) mod 16384 + 2 ^ radix \<le> 16384"
    "int (pl_offset pl) mod 16384 \<noteq> 0" "int (pl_offset pl) < 4194304"
    by (simp_all add: bmap_use_linear_def int_and_16383 lo)
  from u(1) have "int (pl_offset pl mod 16384 + 2 ^ radix) \<le> int 16384"
    by (simp add: zmod_int)
  then show fit: "pl_offset pl mod 16384 + 2 ^ radix \<le> 16384" by linarith
  from u(2) have "int (pl_offset pl mod 16384) \<noteq> 0" by (simp add: zmod_int)
  then show nz: "pl_offset pl mod 16384 \<noteq> 0" by simp
  from fit nz have "(2::nat) ^ radix < 2 ^ 14" by simp
  then show r: "radix < 14" by (rule power_less_imp_less_exp [rotated]) simp
  from u(3) show "n < 256" by (simp add: n_def)
  show "pl_i pl = n div 32" by (simp add: i n_def div_mult2_eq)
  have "(pl_offset pl div 8192) AND 62 = 2 * (n mod 32)"
    by (simp add: nat_and_62 n_def flip: div_mult2_eq)
  moreover have "bmradix_of radix = 2" using r by (simp add: bmradix_of_def)
  ultimately show "pl_mask pl = runmask (2 * (n mod 32)) 2" by (simp add: m push_bmmask)
qed

text \<open>A place found in the bitmap: a run of free blocks.\<close>

lemma bmap_place_bitmap_spec:
  assumes "wf_bmap b" "radix \<le> HAMMER2_RADIX_MAX"
    and "bmap_place_bitmap b class sub_key radix = Some (Some pl)"
  defines "n \<equiv> pl_offset pl div 16384" and "m \<equiv> blocks_of radix"
  shows "pl_i pl = n div 32" "n < 256" "n mod 32 + m \<le> 32" "pl_offset pl mod 16384 = 0"
    "pl_mask pl = runmask (2 * (n mod 32)) (2 * m)" "bm_bitmapq b ! (n div 32) AND pl_mask pl = 0"
    "pl_linear pl = (if radix < 14 then int (pl_offset pl + 2 ^ radix) else bm_linear b)"
proof -
  have m: "0 < m" "m dvd 32" using blocks_of_dvd_32 [OF assms(2)] by (auto simp: m_def)
  have len: "length (bm_bitmapq b) = 8" using assms(1) by (simp add: wf_bmap_def)
  have pow: "(2 ^ radix AND 16383 :: nat) \<noteq> 0 \<longleftrightarrow> radix < 14"
  proof (cases "radix < 14")
    case True
    then have "(2::nat) ^ radix < 2 ^ 14" by (intro power_strict_increasing) auto
    then show ?thesis using True by (simp add: nat_and_16383)
  next
    case False
    then have "(2::nat) ^ 14 dvd 2 ^ radix" by (intro le_imp_power_dvd) simp
    then show ?thesis using False by (simp add: nat_and_16383)
  qed
  have "\<exists>i a. i < 8 \<and> a + m \<le> 32 \<and> bm_bitmapq b ! i AND runmask (2 * a) (2 * m) = 0 \<and>
     pl = bmap_place_success b (2 ^ radix) (i, 2 * a, runmask (2 * a) (2 * m))"
  proof -
    have general: "\<exists>i a. i < 8 \<and> a + m \<le> 32 \<and> bm_bitmapq b ! i AND runmask (2 * a) (2 * m) = 0 \<and>
       pl = bmap_place_success b (2 ^ radix) (i, 2 * a, runmask (2 * a) (2 * m))"
      if "map_option (bmap_place_success b (2 ^ radix)) (bmap_scan (bm_bitmapq b) (bmradix_of radix) 0) = Some pl"
    proof -
      from that obtain i j mm where scan: "bmap_scan (bm_bitmapq b) (2 * m) 0 = Some (i, j, mm)"
        and pl: "pl = bmap_place_success b (2 ^ radix) (i, j, mm)"
        by (auto simp: bmradix_of_eq m_def)
      from bmap_scan_Some [OF m scan] len pl show ?thesis by auto
    qed
    show ?thesis
    proof (cases "bmap_sub_index class sub_key radix")
      case None
      with assms(3) general show ?thesis
        by (auto simp: bmap_place_bitmap_def Let_def)
    next
      case (Some ij)
      obtain i j where ij: "ij = (i, j)" by force
      define a where "a = unat (sub_key AND HAMMER2_BMAP_INDEX_MASK) div 16384"
      from Some have j: "j = 2 * a" by (auto simp: ij a_def bmap_sub_index_def split: if_splits)
      from assms(3) Some have "i < 8" "j + 2 * m \<le> 64"
        and alt: "bm_bitmapq b ! i AND push_bit j (bmmask_of (2 * m)) = 0 \<and>
             pl = bmap_place_success b (2 ^ radix) (i, j, push_bit j (bmmask_of (2 * m))) \<or>
           map_option (bmap_place_success b (2 ^ radix)) (bmap_scan (bm_bitmapq b) (bmradix_of radix) 0) = Some pl"
        by (auto simp: bmap_place_bitmap_def Let_def kkassert_bind ij bmradix_of_eq m_def split: if_splits)
      from alt show ?thesis
      proof
        assume "bm_bitmapq b ! i AND push_bit j (bmmask_of (2 * m)) = 0 \<and>
             pl = bmap_place_success b (2 ^ radix) (i, j, push_bit j (bmmask_of (2 * m)))"
        then show ?thesis using \<open>i < 8\<close> \<open>j + 2 * m \<le> 64\<close>
          by (intro exI [of _ i] exI [of _ a]) (auto simp: push_bmmask j)
      qed (rule general)
    qed
  qed
  then obtain i a where ia: "i < 8" "a + m \<le> 32" "bm_bitmapq b ! i AND runmask (2 * a) (2 * m) = 0"
    and pl: "pl = bmap_place_success b (2 ^ radix) (i, 2 * a, runmask (2 * a) (2 * m))" by blast
  have off: "pl_offset pl = 16384 * (32 * i + a)"
    by (simp add: pl bmap_place_success_def Let_def)
  then have n: "n = 32 * i + a" by (simp add: n_def)
  have "a < 32" using ia(2) m(1) by linarith
  with n have ndiv: "n div 32 = i" "n mod 32 = a" by auto
  show "pl_i pl = n div 32" by (simp add: ndiv pl bmap_place_success_def Let_def)
  show "n < 256" using ia(1) \<open>a < 32\<close> by (simp add: n)
  show "n mod 32 + m \<le> 32" using ia(2) by (simp add: ndiv)
  show "pl_offset pl mod 16384 = 0" by (simp add: off)
  show "pl_mask pl = runmask (2 * (n mod 32)) (2 * m)" by (simp add: ndiv pl bmap_place_success_def Let_def)
  then show "bm_bitmapq b ! (n div 32) AND pl_mask pl = 0" using ia(3) by (simp add: ndiv)
  show "pl_linear pl = (if radix < 14 then int (pl_offset pl + 2 ^ radix) else bm_linear b)"
    using pow by (auto simp: pl bmap_place_success_def Let_def)
qed

text \<open>What both kinds of place have in common: a run of blocks inside one bitmap element, which is
  free, or is the block the linear iterator is filling.\<close>

definition place_ok :: "bmap_data \<Rightarrow> nat \<Rightarrow> bmap_place \<Rightarrow> bool" where
  "place_ok b radix pl \<longleftrightarrow>
     (let n = pl_offset pl div 16384; m = blocks_of radix in
      n < 256 \<and> n mod 32 + m \<le> 32 \<and> pl_i pl = n div 32 \<and>
      pl_mask pl = runmask (2 * (n mod 32)) (2 * m) \<and>
      (bm_bitmapq b ! (n div 32) AND pl_mask pl = 0 \<and> pl_offset pl mod 16384 = 0 \<and>
         pl_linear pl = (if radix < 14 then int (pl_offset pl + 2 ^ radix) else bm_linear b) \<or>
       radix < 14 \<and> bm_linear b = int (pl_offset pl) \<and> pl_offset pl mod 16384 \<noteq> 0 \<and>
         pl_offset pl mod 16384 + 2 ^ radix \<le> 16384 \<and> pl_linear pl = int (pl_offset pl + 2 ^ radix)))"

lemma bmap_find_place_ok:
  assumes "wf_bmap b" "radix \<le> HAMMER2_RADIX_MAX"
    and "bmap_find_place b class sub_key radix = Some (Some pl)"
  shows "place_ok b radix pl"
proof (cases "bmap_use_linear b (2 ^ radix)")
  case True
  with assms(3) have "bmap_place_linear b radix = Some pl" by (simp add: bmap_find_place_def)
  note spec = bmap_place_linear_spec [OF True this]
  then have "blocks_of radix = 1" by (simp add: blocks_of_def)
  with spec show ?thesis by (simp add: place_ok_def Let_def less_eq_Suc_le [symmetric])
next
  case False
  with assms(3) have "bmap_place_bitmap b class sub_key radix = Some (Some pl)"
    by (simp add: bmap_find_place_def)
  from bmap_place_bitmap_spec [OF assms(1,2) this] show ?thesis
    by (simp add: place_ok_def Let_def)
qed

lemma bmap_alloc_cases:
  assumes "wf_bmap b" "radix \<le> HAMMER2_RADIX_MAX"
    and "hammer2_bmap_alloc d b class sub_key radix base = Some (e, d', b', base')"
  obtains (nospc) "e = HAMMER2_ERROR_ENOSPC" "d' = d" "b' = b" "base' = base"
      "bmap_find_place b class sub_key radix = Some None"
    | (ok) pl where "e = 0" "bmap_find_place b class sub_key radix = Some (Some pl)"
      "place_ok b radix pl" "b' = bmap_commit b class (bmap_bgsize b radix pl) pl"
      "base' = base + of_nat (pl_offset pl)"
      "dv_allocator_free d' = dv_allocator_free d - of_nat (bmap_bgsize b radix pl)"
      "dv_fmap d' = dv_fmap d" "dv_total_size d' = dv_total_size d"
      "dv_allocator_beg d' = dv_allocator_beg d" "dv_create_error d' = dv_create_error d"
proof -
  from assms(3) obtain place where place: "bmap_find_place b class sub_key radix = Some place"
    by (auto simp: hammer2_bmap_alloc_def h2_panic)
  show thesis
  proof (cases place)
    case None
    with assms(3) place nospc show ?thesis by (simp add: hammer2_bmap_alloc_def)
  next
    case (Some pl)
    with assms(3) place obtain d1 where pre: "bmap_prefetch d b class (2 ^ radix) base pl = Some d1"
      and res: "e = 0" "d' = voldata_sub_free (bmap_bgsize b radix pl) d1"
        "b' = bmap_commit b class (bmap_bgsize b radix pl) pl" "base' = base + of_nat (pl_offset pl)"
      by (auto simp: hammer2_bmap_alloc_def h2_panic Let_def split: if_splits)
    from pre have "dv_allocator_free d1 = dv_allocator_free d \<and> dv_fmap d1 = dv_fmap d \<and>
      dv_total_size d1 = dv_total_size d \<and> dv_allocator_beg d1 = dv_allocator_beg d \<and>
      dv_create_error d1 = dv_create_error d"
      by (auto simp: bmap_prefetch_def h2_panic log_event_def split: if_splits)
    then show ?thesis
      using place Some res bmap_find_place_ok [OF assms(1,2)]
      by (intro ok [of pl]) (auto simp: voldata_sub_free_def log_event_def)
  qed
qed

lemma bmap_commit_wf: "wf_bmap b \<Longrightarrow> wf_bmap (bmap_commit b class bg pl)"
  by (simp add: wf_bmap_def bmap_commit_def)

lemma bmap_commit_slots:
  assumes "wf_bmap b" "place_ok b radix pl" "k < 256"
  shows "bslot (bm_bitmapq (bmap_commit b class bg pl)) k =
     (if pl_offset pl div 16384 \<le> k \<and> k < pl_offset pl div 16384 + blocks_of radix then BAlloc
      else bslot (bm_bitmapq b) k)"
proof -
  define n where "n = pl_offset pl div 16384"
  define m where "m = blocks_of radix"
  have n: "n mod 32 + m \<le> 32" "n < 256" "pl_i pl = n div 32" "pl_mask pl = runmask (2 * (n mod 32)) (2 * m)"
    using assms(2) by (simp_all add: place_ok_def Let_def n_def m_def)
  have "n \<le> k \<and> k < n + m \<longleftrightarrow> k div 32 = n div 32 \<and> n mod 32 \<le> k mod 32 \<and> k mod 32 < n mod 32 + m"
    using n(1) by (rule run_in_block)
  moreover have "bslot (bm_bitmapq (bmap_commit b class bg pl)) k =
     (if k div 32 = n div 32 then
        if n mod 32 \<le> k mod 32 \<and> k mod 32 < n mod 32 + m then BAlloc
        else slot_state (bm_bitmapq b ! (n div 32)) (k mod 32)
      else bslot (bm_bitmapq b) k)"
    using assms(1,3) n by (simp add: bmap_commit_def bslot_update wf_bmap_def slot_or_run)
  ultimately show ?thesis by (simp add: bslot_def flip: n_def m_def)
qed

text \<open>The charge is 16KB for every block that was free and is not any more.\<close>

lemma bmap_commit_free:
  assumes "wf_bmap b" "place_ok b radix pl" "radix \<le> HAMMER2_RADIX_MAX"
  shows "16384 * bmap_free (bm_bitmapq (bmap_commit b class bg pl)) + bmap_bgsize b radix pl =
     16384 * bmap_free (bm_bitmapq b)"
proof -
  define n where "n = pl_offset pl div 16384"
  define m where "m = blocks_of radix"
  let ?w = "bm_bitmapq b ! (n div 32)"
  have n: "n mod 32 + m \<le> 32" "n div 32 < 8" "pl_i pl = n div 32" "pl_mask pl = runmask (2 * (n mod 32)) (2 * m)"
    using assms(2) by (auto simp: place_ok_def Let_def n_def m_def)
  have upd: "bmap_free (bm_bitmapq (bmap_commit b class bg pl)) + free_slots ?w =
      bmap_free (bm_bitmapq b) + free_slots (?w OR pl_mask pl)"
    using assms(1) n by (simp add: bmap_commit_def bmap_free_update wf_bmap_def)
  show ?thesis
  proof (cases "?w AND pl_mask pl = 0")
    case True
    from free_slots_run [of "n mod 32" m ?w] n(1) True have "free_slots (?w OR pl_mask pl) + m = free_slots ?w"
      by (simp add: n(4))
    moreover have "bmap_bgsize b radix pl = 16384 * m"
    proof (cases "radix < 14")
      case False
      then show ?thesis by (simp add: bmap_bgsize_def m_def power_blocks_of)
    qed (use True n in \<open>simp add: bmap_bgsize_def m_def blocks_of_def\<close>)
    ultimately show ?thesis using upd by linarith
  next
    case False
    with assms(2) have r: "radix < 14" by (auto simp: place_ok_def Let_def simp flip: n_def)
    then have "m = 1" by (simp add: m_def blocks_of_def)
    with False have nf: "slot_state ?w (n mod 32) \<noteq> BFree"
      using and_3_eq_0_iff [of "n mod 32" ?w] n(4) runmask_2_eq [of "n mod 32"] by simp
    have "free_slots (?w OR pl_mask pl) = free_slots ?w"
      using nf \<open>m = 1\<close>
      by (intro free_slots_cong) (simp add: n(4) runmask_2_eq slot_or_3 del: slot_state_iff)
    moreover have "bmap_bgsize b radix pl = 0" using r False n(3) by (simp add: bmap_bgsize_def)
    ultimately show ?thesis using upd by simp
  qed
qed

end
