(* ===== verification/H2_Segment.thy ===== *)
theory H2_Segment
  imports H2_Freemap
begin

text \<open>
  What \<open>hammer2_bmap_alloc\<close> guarantees for the 4MB segment of a bitmap entry.  \<open>seg_ok b A\<close> relates
  the entry \<open>b\<close> to the set \<open>A\<close> of bytes of the segment that have been handed out.  The lemmas show
  that an allocation is disjoint from \<open>A\<close>, keeps \<open>seg_ok\<close>, stays inside one 64KB buffer, never
  fails an assertion, and fails with \<open>ENOSPC\<close> only when no aligned run of blocks is free.
\<close>

section \<open>No byte is handed out twice\<close>

text \<open>
  \<open>A\<close> is the set of the segment's bytes that have been handed out.  None of them is in a block the
  bitmap shows as free; and in the block the linear iterator is filling, they are all below the
  iterator.
\<close>

definition mid_block :: "bmap_data \<Rightarrow> bool" where
  "mid_block b \<longleftrightarrow> 0 \<le> bm_linear b \<and> bm_linear b < HAMMER2_SEGSIZE \<and>
     bm_linear b AND HAMMER2_FREEMAP_BLOCK_MASK \<noteq> 0"

definition alloc_inv :: "bmap_data \<Rightarrow> nat set \<Rightarrow> bool" where
  "alloc_inv b A \<longleftrightarrow>
     (\<forall>x\<in>A. x < HAMMER2_SEGSIZE \<and> bslot (bm_bitmapq b) (x div HAMMER2_FREEMAP_BLOCK_SIZE) \<noteq> BFree) \<and>
     (mid_block b \<longrightarrow>
        bslot (bm_bitmapq b) (nat (bm_linear b) div HAMMER2_FREEMAP_BLOCK_SIZE) \<noteq> BFree \<and>
        (\<forall>x\<in>A. x div HAMMER2_FREEMAP_BLOCK_SIZE = nat (bm_linear b) div HAMMER2_FREEMAP_BLOCK_SIZE \<longrightarrow>
           x < nat (bm_linear b)))"

lemma bmap_use_linear_mid: "bmap_use_linear b n \<Longrightarrow> 0 \<le> bm_linear b \<Longrightarrow> mid_block b"
  by (simp add: bmap_use_linear_def mid_block_def)

lemma mid_block_div:
  "mid_block b \<Longrightarrow> bm_linear b = int y \<Longrightarrow> y mod 16384 \<noteq> 0 \<and> y < 4194304"
proof -
  assume "mid_block b" "bm_linear b = int y"
  then have "int y mod 16384 \<noteq> 0" "int y < 4194304" by (auto simp: mid_block_def int_and_16383)
  then show ?thesis by (simp flip: of_nat_mod [where 'a = int, of y 16384, simplified])
qed

lemma slot_of_run_bytes:
  assumes "place_ok b radix pl" "pl_offset pl \<le> x" "x < pl_offset pl + 2 ^ radix"
  shows "pl_offset pl div 16384 \<le> x div 16384 \<and> x div 16384 < pl_offset pl div 16384 + blocks_of radix"
proof -
  let ?o = "pl_offset pl" and ?n = "pl_offset pl div 16384"
  have "?n \<le> x div 16384" using assms(2) by (rule div_le_mono)
  moreover have "x div 16384 < ?n + blocks_of radix"
  proof (cases "radix < 14")
    case True
    then have "(2::nat) ^ radix \<le> 2 ^ 14" by (intro power_increasing) auto
    moreover have "?o mod 16384 = 0 \<or> ?o mod 16384 + 2 ^ radix \<le> 16384"
      using assms(1) by (auto simp: place_ok_def Let_def)
    ultimately have "?o mod 16384 + 2 ^ radix \<le> 16384" by auto
    moreover have "?n * 16384 + ?o mod 16384 = ?o" by (rule div_mult_mod_eq)
    ultimately have "x < ?n * 16384 + 16384" using assms(3) by linarith
    then have "x < 16384 * (?n + 1)" by simp
    with True show ?thesis by (simp add: blocks_of_def less_mult_imp_div_less mult.commute)
  next
    case False
    then have "(2::nat) ^ radix = 16384 * blocks_of radix" by (simp add: power_blocks_of)
    moreover have "?n * 16384 = ?o"
      using assms(1) False div_mult_mod_eq [of ?o 16384] by (auto simp: place_ok_def Let_def)
    ultimately have "x < 16384 * (?n + blocks_of radix)"
      using assms(3) by (simp add: algebra_simps)
    then show ?thesis by (simp add: less_mult_imp_div_less mult.commute)
  qed
  ultimately show ?thesis ..
qed

lemma place_end: 
  assumes "place_ok b radix pl"
  shows "pl_offset pl + 2 ^ radix \<le> HAMMER2_SEGSIZE"
proof -
  let ?n = "pl_offset pl div 16384"
  have pos: "(0::nat) < 2 ^ radix" by simp
  then have "pl_offset pl \<le> pl_offset pl + 2 ^ radix - 1"
    "pl_offset pl + 2 ^ radix - 1 < pl_offset pl + 2 ^ radix" by linarith+
  from slot_of_run_bytes [OF assms this]
  have "(pl_offset pl + 2 ^ radix - 1) div 16384 < ?n + blocks_of radix" ..
  moreover have "?n + blocks_of radix \<le> 256"
  proof -
    have "?n mod 32 + blocks_of radix \<le> 32" "?n < 256" using assms by (simp_all add: place_ok_def Let_def)
    moreover from this have "?n div 32 < 8" by simp
    ultimately have "?n div 32 * 32 + 32 \<le> 256" by linarith
    then show ?thesis 
      using \<open>?n mod 32 + blocks_of radix \<le> 32\<close> div_mult_mod_eq [of ?n 32] by linarith
  qed
  ultimately have "(pl_offset pl + 2 ^ radix - 1) div 16384 < 256" by linarith
  then show ?thesis by linarith
qed

text \<open>The two kinds of place, in terms of the block states.\<close>

lemma place_ok_cases:
  assumes "place_ok b radix pl"
  obtains (free) "\<And>k. pl_offset pl div 16384 \<le> k \<Longrightarrow> k < pl_offset pl div 16384 + blocks_of radix \<Longrightarrow>
      bslot (bm_bitmapq b) k = BFree"
      "pl_linear pl = (if radix < 14 then int (pl_offset pl + 2 ^ radix) else bm_linear b)"
  | (linear) "radix < 14" "bm_linear b = int (pl_offset pl)" "mid_block b"
      "pl_linear pl = int (pl_offset pl + 2 ^ radix)"
proof -
  let ?n = "pl_offset pl div 16384"
  have fit: "?n mod 32 + blocks_of radix \<le> 32" "pl_mask pl = runmask (2 * (?n mod 32)) (2 * blocks_of radix)"
    using assms by (simp_all add: place_ok_def Let_def)
  from assms consider (a) "bm_bitmapq b ! (?n div 32) AND pl_mask pl = 0"
      "pl_linear pl = (if radix < 14 then int (pl_offset pl + 2 ^ radix) else bm_linear b)"
    | (b) "radix < 14" "bm_linear b = int (pl_offset pl)" "pl_offset pl mod 16384 \<noteq> 0"
      "pl_linear pl = int (pl_offset pl + 2 ^ radix)"
    by (auto simp: place_ok_def Let_def)
  then show thesis
  proof cases
    case a
    have "bslot (bm_bitmapq b) k = BFree" if "?n \<le> k" "k < ?n + blocks_of radix" for k
    proof -
      from that run_in_block [OF fit(1), of k] have "k div 32 = ?n div 32"
        "?n mod 32 \<le> k mod 32" "k mod 32 < ?n mod 32 + blocks_of radix" by auto
      with a(1) fit free_run_iff [OF fit(1), of "bm_bitmapq b ! (?n div 32)"]
      show ?thesis by (simp add: bslot_def del: slot_state_iff)
    qed
    then show thesis using a(2) by (rule free)
  next
    case b
    have "pl_offset pl < 4194304" 
      using place_end [OF assms] zero_less_power [of "2::nat" radix] by linarith
    with b have "mid_block b"
      by (simp add: mid_block_def int_and_16383 int_mod_16384)
    with b show thesis by (intro linear)
  qed
qed

lemma place_disjoint:
  assumes "alloc_inv b A" "place_ok b radix pl" "x \<in> A"
  shows "x < pl_offset pl \<or> pl_offset pl + 2 ^ radix \<le> x"
proof (rule ccontr)
  assume "\<not> ?thesis"
  then have x: "pl_offset pl \<le> x" "x < pl_offset pl + 2 ^ radix" by auto
  note run = slot_of_run_bytes [OF assms(2) x]
  have nf: "bslot (bm_bitmapq b) (x div 16384) \<noteq> BFree"
    using assms(1,3) by (simp add: alloc_inv_def del: slot_state_iff)
  from assms(2) show False
  proof (cases rule: place_ok_cases)
    case free
    with run nf show False by simp
  next
    case linear
    from run linear(1) have "x div 16384 = pl_offset pl div 16384" by (simp add: blocks_of_def)
    with linear assms(1,3) have "x < pl_offset pl" by (auto simp: alloc_inv_def)
    with x(1) show False by simp
  qed
qed

lemma alloc_inv_commit_bytes:
  assumes "wf_bmap b" "place_ok b radix pl" "alloc_inv b A"
    "x \<in> A \<union> {pl_offset pl..<pl_offset pl + 2 ^ radix}"
  shows "x < 4194304 \<and> bslot (bm_bitmapq (bmap_commit b class bg pl)) (x div 16384) \<noteq> BFree"
proof (cases "x \<in> A")
  case True
  then have "x < 4194304" "bslot (bm_bitmapq b) (x div 16384) \<noteq> BFree"
    using assms(3) by (auto simp: alloc_inv_def)
  then show ?thesis
    using bmap_commit_slots [OF assms(1,2), of "x div 16384"] by (simp del: slot_state_iff)
next
  case False
  with assms(4) have x: "pl_offset pl \<le> x" "x < pl_offset pl + 2 ^ radix" by auto
  with place_end [OF assms(2)] have "x < 4194304" by simp
  with slot_of_run_bytes [OF assms(2) x] bmap_commit_slots [OF assms(1,2), of "x div 16384"]
  show ?thesis by (simp del: slot_state_iff)
qed

text \<open>After a sub-block allocation the iterator points into the block of the allocation or to its
  end.\<close>

lemma sub_block_linear:
  assumes "place_ok b radix pl" "radix < 14" "y = pl_offset pl + 2 ^ radix" "y mod 16384 \<noteq> 0"
  shows "y div 16384 = pl_offset pl div 16384"
proof -
  have "y - 1 < pl_offset pl + 2 ^ radix" "pl_offset pl \<le> y - 1"
    using assms(3) zero_less_power [of "2::nat" radix] by linarith+
  from slot_of_run_bytes [OF assms(1) this(2,1)] assms(2)
  have "(y - 1) div 16384 = pl_offset pl div 16384" by (simp add: blocks_of_def)
  moreover have "(y - 1) div 16384 = y div 16384" using assms(4) by (rule div_pred)
  ultimately show ?thesis by simp
qed

lemma alloc_inv_commit_linear:
  assumes "wf_bmap b" "place_ok b radix pl" "alloc_inv b A" "mid_block (bmap_commit b class bg pl)"
    "x \<in> A \<union> {pl_offset pl..<pl_offset pl + 2 ^ radix}"
    "x div 16384 = nat (pl_linear pl) div 16384"
  shows "x < nat (pl_linear pl)"
proof -
  have lin: "bm_linear (bmap_commit b class bg pl) = pl_linear pl" by (simp add: bmap_commit_def)
  show ?thesis
  proof (cases "radix < 14")
    case True
    define y where "y = pl_offset pl + 2 ^ radix"
    have pl: "pl_linear pl = int y" using assms(2) True by (auto simp: place_ok_def Let_def y_def)
    from mid_block_div [OF assms(4)] lin pl have ymod: "y mod 16384 \<noteq> 0" by simp
    note yn = sub_block_linear [OF assms(2) True y_def ymod]
    have "x < y"
    proof (cases "x \<in> A")
      case xA: True
      have x: "x div 16384 = pl_offset pl div 16384" using assms(6) pl yn by simp
      have nf: "bslot (bm_bitmapq b) (x div 16384) \<noteq> BFree"
        using assms(3) xA by (simp add: alloc_inv_def del: slot_state_iff)
      from assms(2) show ?thesis
      proof (cases rule: place_ok_cases)
        case free
        with nf x True show ?thesis by (simp add: blocks_of_def)
      next
        case linear
        with assms(3) xA x have "x < pl_offset pl" by (auto simp: alloc_inv_def)
        then show ?thesis by (simp add: y_def)
      qed
    qed (use assms(5) in \<open>simp add: y_def\<close>)
    then show ?thesis by (simp add: pl)
  next
    case False
    with assms(2) have pl: "pl_linear pl = bm_linear b" by (auto simp: place_ok_def Let_def)
    with assms(4) have mid: "mid_block b" by (simp add: mid_block_def bmap_commit_def)
    show ?thesis
    proof (cases "x \<in> A")
      case True
      with assms(3,6) mid pl show ?thesis by (auto simp: alloc_inv_def)
    next
      case xA: False
      with assms(5) have "pl_offset pl \<le> x" "x < pl_offset pl + 2 ^ radix" by auto
      from slot_of_run_bytes [OF assms(2) this] assms(3,6) mid pl assms(2) False
      show ?thesis by (auto elim!: place_ok_cases simp: alloc_inv_def simp del: slot_state_iff)
    qed
  qed
qed

lemma alloc_inv_commit_block:
  assumes "wf_bmap b" "place_ok b radix pl" "alloc_inv b A" "mid_block (bmap_commit b class bg pl)"
  shows "bslot (bm_bitmapq (bmap_commit b class bg pl)) (nat (pl_linear pl) div 16384) \<noteq> BFree"
proof -
  have lin: "bm_linear (bmap_commit b class bg pl) = pl_linear pl" by (simp add: bmap_commit_def)
  have small: "nat (pl_linear pl) div 16384 < 256"
    using assms(4) lin by (simp add: mid_block_def) linarith
  note slots = bmap_commit_slots [OF assms(1,2) small]
  show ?thesis
  proof (cases "radix < 14")
    case True
    define y where "y = pl_offset pl + 2 ^ radix"
    have pl: "pl_linear pl = int y" using assms(2) True by (auto simp: place_ok_def Let_def y_def)
    from mid_block_div [OF assms(4)] lin pl have ymod: "y mod 16384 \<noteq> 0" by simp
    from sub_block_linear [OF assms(2) True y_def ymod] slots True pl show ?thesis
      by (simp add: blocks_of_def del: slot_state_iff)
  next
    case False
    with assms(2) have pl: "pl_linear pl = bm_linear b" by (auto simp: place_ok_def Let_def)
    with assms(4) have "mid_block b" by (simp add: mid_block_def bmap_commit_def)
    with assms(3) slots pl show ?thesis by (auto simp: alloc_inv_def simp del: slot_state_iff)
  qed
qed

lemma alloc_inv_commit:
  assumes "wf_bmap b" "place_ok b radix pl" "alloc_inv b A"
  shows "alloc_inv (bmap_commit b class bg pl) (A \<union> {pl_offset pl..<pl_offset pl + 2 ^ radix})"
proof -
  have lin: "bm_linear (bmap_commit b class bg pl) = pl_linear pl" by (simp add: bmap_commit_def)
  show ?thesis
    unfolding alloc_inv_def lin
    using alloc_inv_commit_bytes [OF assms] alloc_inv_commit_linear [OF assms]
      alloc_inv_commit_block [OF assms] by blast
qed


section \<open>The state of a segment\<close>

text \<open>The linear iterator is a 1KB-aligned position in the segment or its end.\<close>

definition linear_ok :: "bmap_data \<Rightarrow> bool" where
  "linear_ok b \<longleftrightarrow> 0 \<le> bm_linear b \<and> bm_linear b \<le> HAMMER2_SEGSIZE \<and> HAMMER2_ALLOC_MIN dvd bm_linear b"

definition seg_ok :: "bmap_data \<Rightarrow> nat set \<Rightarrow> bool" where
  "seg_ok b A \<longleftrightarrow> wf_bmap b \<and> linear_ok b \<and> avail_exact b \<and> alloc_inv b A"

lemma bmap_commit_avail:
  assumes "wf_bmap b" "place_ok b radix pl" "radix \<le> HAMMER2_RADIX_MAX" "avail_exact b"
  shows "avail_exact (bmap_commit b class (bmap_bgsize b radix pl) pl)"
proof -
  let ?bg = "bmap_bgsize b radix pl" and ?q = "bm_bitmapq (bmap_commit b class (bmap_bgsize b radix pl) pl)"
  have sum: "16384 * bmap_free ?q + ?bg = unat (bm_avail b)"
    using bmap_commit_free [OF assms(1-3)] assms(4) by (simp add: avail_exact_def)
  then have bg: "?bg \<le> unat (bm_avail b)" by linarith
  moreover have "unat (bm_avail b) < 2 ^ LENGTH(32)" by (rule unsigned_less)
  ultimately have ubg: "unat (of_nat ?bg :: u32) = ?bg" by (intro of_nat_inverse [OF refl]) (rule le_less_trans)
  have "unat (bm_avail b - of_nat ?bg) = unat (bm_avail b) - ?bg"
    using bg ubg by (subst unat_sub) (simp_all add: word_le_nat_alt)
  with sum show ?thesis by (simp add: avail_exact_def bmap_commit_def)
qed

lemma power_dvd_1024: "10 \<le> r \<Longrightarrow> (1024::nat) dvd 2 ^ r"
  using le_imp_power_dvd [of 10 r "2::nat"] by simp

lemma place_aligned_1024:
  assumes "place_ok b radix pl" "linear_ok b"
  shows "HAMMER2_ALLOC_MIN dvd pl_offset pl"
proof -
  have int: "1024 dvd int x \<longleftrightarrow> 1024 dvd x" for x :: nat
    using int_dvd_int_iff [of 1024 x] by simp
  have "x mod 16384 = 0 \<Longrightarrow> 1024 dvd x" for x :: nat
    using dvd_trans [of 1024 16384 x] by (simp add: mod_0_imp_dvd)
  moreover have "bm_linear b = int (pl_offset pl) \<Longrightarrow> 1024 dvd pl_offset pl"
    using assms(2) by (simp add: linear_ok_def int)
  ultimately show ?thesis
    using assms(1) by (auto simp: place_ok_def Let_def split: if_splits)
qed

lemma bmap_commit_linear_ok:
  assumes "place_ok b radix pl" "HAMMER2_RADIX_MIN \<le> radix" "linear_ok b"
  shows "linear_ok (bmap_commit b class bg pl)"
proof -
  have int: "1024 dvd int x \<longleftrightarrow> 1024 dvd x" for x :: nat
    using int_dvd_int_iff [of 1024 x] by simp
  have "pl_linear pl = bm_linear b \<or> pl_linear pl = int (pl_offset pl + 2 ^ radix) \<and> 1024 dvd pl_offset pl"
    using assms(1) place_aligned_1024 [OF assms(1,3)] by (auto simp: place_ok_def Let_def split: if_splits)
  then show ?thesis
  proof
    assume "pl_linear pl = bm_linear b"
    then show ?thesis using assms(3) by (simp add: linear_ok_def bmap_commit_def)
  next
    assume *: "pl_linear pl = int (pl_offset pl + 2 ^ radix) \<and> 1024 dvd pl_offset pl"
    then have "1024 dvd int (pl_offset pl + 2 ^ radix)"
      unfolding int using power_dvd_1024 [OF assms(2)] by simp
    moreover have "int (pl_offset pl + 2 ^ radix) \<le> 4194304"
      using place_end [OF assms(1)] by linarith
    ultimately show ?thesis using * by (simp add: linear_ok_def bmap_commit_def)
  qed
qed

lemma seg_ok_commit:
  assumes "seg_ok b A" "place_ok b radix pl" "HAMMER2_RADIX_MIN \<le> radix" "radix \<le> HAMMER2_RADIX_MAX"
  shows "seg_ok (bmap_commit b class (bmap_bgsize b radix pl) pl)
    (A \<union> {pl_offset pl..<pl_offset pl + 2 ^ radix})"
  using assms bmap_commit_wf bmap_commit_linear_ok bmap_commit_avail alloc_inv_commit
  by (simp add: seg_ok_def)

text \<open>The segment has something to give: a free block, or a block the iterator is filling.\<close>

definition seg_open :: "bmap_data \<Rightarrow> bool" where
  "seg_open b \<longleftrightarrow> mid_block b \<or> (\<exists>n<256. bslot (bm_bitmapq b) n = BFree)"

lemma place_seg_open:
  assumes "place_ok b radix pl"
  shows "seg_open b"
  using assms
proof (cases rule: place_ok_cases)
  case free
  have "pl_offset pl div 16384 < 256" "0 < blocks_of radix"
    using assms by (simp_all add: place_ok_def Let_def blocks_of_def)
  then show ?thesis using free(1) [of "pl_offset pl div 16384"] by (auto simp: seg_open_def)
qed (simp add: seg_open_def)

text \<open>An allocation stays inside one 64KB device buffer, given that file data is keyed by its
  aligned logical offset.\<close>

definition sub_key_ok :: "u16 \<Rightarrow> u32 \<Rightarrow> nat \<Rightarrow> bool" where
  "sub_key_ok class sub_key radix \<longleftrightarrow>
     (ucast (drop_bit 8 class) = BREF_DATA \<and> HAMMER2_FREEMAP_BLOCK_RADIX \<le> radix \<longrightarrow>
        unat sub_key mod 2 ^ radix = 0)"

section \<open>No assertion fails\<close>

text \<open>The 64KB mask loop finds its group within eight steps, for a mask that is not empty.\<close>

lemma pbmmask_find_Some:
  assumes "bit m x" "k \<le> x div 8" "x < 64" "x div 8 < k + fuel"
  shows "pbmmask_find fuel (runmask (8 * k) 8) m \<noteq> None"
  using assms(2,4)
proof (induction fuel arbitrary: k)
  case (Suc fuel)
  show ?case
  proof (cases "x div 8 = k")
    case True
    then have "8 * k \<le> x" "x < 8 * k + 8" by auto
    with assms(1,3) have "runmask (8 * k) 8 AND m \<noteq> 0"
      using and_runmask_eq_0 [of m "8 * k" 8] by (auto simp: and.commute)
    then show ?thesis by simp
  next
    case False
    with Suc.prems have "pbmmask_find fuel (runmask (8 * Suc k) 8) m \<noteq> None" by (intro Suc.IH) auto
    then show ?thesis by (simp add: runmask_push add.commute)
  qed
qed simp

lemma bmmask_of_8: "bmmask_of 8 = runmask (8 * 0) 8"
  by (simp add: bmmask_of_def runmask_def mask_eq_exp_minus_1)

lemma bmap_prefetch_Some:
  assumes "place_ok b radix pl"
  shows "bmap_prefetch d b class sz base pl \<noteq> None"
proof -
  let ?a = "pl_offset pl div 16384 mod 32"
  have "pl_mask pl = runmask (2 * ?a) (2 * blocks_of radix)" "0 < blocks_of radix" "?a < 32"
    using assms by (simp_all add: place_ok_def Let_def blocks_of_def)
  then have "bit (pl_mask pl) (2 * ?a)" by (simp add: bit_runmask)
  from pbmmask_find_Some [OF this, of 0 8] \<open>?a < 32\<close>
  have "pbmmask_find 8 (bmmask_of 8) (pl_mask pl) \<noteq> None" by (simp add: bmmask_of_8)
  then show ?thesis by (auto simp: bmap_prefetch_def)
qed

lemma bmap_place_linear_Some:
  assumes "bmap_use_linear b (2 ^ radix)" "linear_ok b"
  shows "bmap_place_linear b radix \<noteq> None"
proof -
  from assms(2) obtain x where x: "bm_linear b = int x"
    by (metis linear_ok_def nonneg_int_cases)
  from assms(1) have u: "int x mod 16384 + 2 ^ radix \<le> 16384" "int x < 4194304"
    by (simp_all add: bmap_use_linear_def int_and_16383 x)
  then have fit: "x mod 16384 + 2 ^ radix \<le> 16384" "x < 4194304"
    by (simp_all add: int_mod_16384 of_nat_le_iff [where 'a = int, symmetric])
  have "x = x div 16384 * 16384 + x mod 16384" by simp
  moreover have "x div 16384 < 256" using fit(2) by simp
  ultimately have "x + 2 ^ radix \<le> 4194304" using fit(1) by linarith
  then have "int x + int (2 ^ radix) \<le> 4194304" by linarith
  moreover have "int x AND 1023 = 0" using assms(2) by (simp add: linear_ok_def x int_and_1023 dvd_eq_mod_eq_0)
  ultimately show ?thesis
    by (simp add: bmap_place_linear_def x Let_def kkassert_bind)
qed

lemma sub_index_fits:
  assumes "sub_key_ok class sub_key radix" "radix \<le> HAMMER2_RADIX_MAX"
    and "bmap_sub_index class sub_key radix = Some (i, j)"
  shows "14 \<le> radix" "i < 8" "j < 64" "2 * blocks_of radix dvd j"
proof -
  let ?k = "unat sub_key"
  have m19: "(524287 :: u32) = mask 19" and m22: "(4194303 :: u32) = mask 22"
    by (simp_all add: mask_eq_exp_minus_1)
  from assms(3) have r: "14 \<le> radix" and i: "i = ?k mod 2 ^ 22 div 524288"
    and j: "j = ?k mod 2 ^ 19 div 16384 * 2"
    by (simp_all only: bmap_sub_index_def m19 m22 unat_and_mask split: if_splits) simp_all
  show "14 \<le> radix" by (rule r)
  show "i < 8" unfolding i by (rule div_less_iff_less_mult [THEN iffD2]) simp_all
  have "?k mod 2 ^ 19 div 16384 < 32" by (rule div_less_iff_less_mult [THEN iffD2]) simp_all
  then show "j < 64" by (simp add: j)
  from assms(1,3) r have "?k mod 2 ^ radix = 0"
    by (auto simp: sub_key_ok_def bmap_sub_index_def split: if_splits)
  moreover have "(2::nat) ^ radix dvd 2 ^ 19" using assms(2) by (intro le_imp_power_dvd) simp
  ultimately have "2 ^ radix dvd ?k mod 2 ^ 19" by (metis dvd_mod mod_0_imp_dvd)
  then have "16384 * blocks_of radix dvd ?k mod 2 ^ 19" by (simp only: power_blocks_of [OF r])
  then obtain q where "?k mod 2 ^ 19 = 16384 * (blocks_of radix * q)"
    by (metis dvd_def mult.assoc)
  then have "?k mod 2 ^ 19 div 16384 = blocks_of radix * q" by simp
  then show "2 * blocks_of radix dvd j" by (simp add: j)
qed

lemma sub_index_run:
  assumes "sub_key_ok class sub_key radix" "radix \<le> HAMMER2_RADIX_MAX"
    and "bmap_sub_index class sub_key radix = Some (i, j)"
  shows "j + bmradix_of radix \<le> 64"
proof -
  from sub_index_fits(4) [OF assms] obtain a where j: "j = 2 * a" and a: "blocks_of radix dvd a"
    by (metis dvd_def mult.assoc dvd_triv_left)
  from sub_index_fits(3) [OF assms] j have "a < 32" by simp
  from aligned_run_fits [OF a _ this] blocks_of_dvd_32 [OF assms(2)] show ?thesis
    by (simp add: j bmradix_of_eq)
qed

lemma bmap_place_bitmap_Some:
  assumes "sub_key_ok class sub_key radix" "radix \<le> HAMMER2_RADIX_MAX"
  shows "bmap_place_bitmap b class sub_key radix \<noteq> None"
  using sub_index_fits(2,3) [OF assms] sub_index_run [OF assms]
  by (auto simp: bmap_place_bitmap_def Let_def kkassert_bind split: option.splits prod.splits)

lemma bmap_alloc_Some:
  assumes "wf_bmap b" "linear_ok b" "sub_key_ok class sub_key radix" "radix \<le> HAMMER2_RADIX_MAX"
  shows "hammer2_bmap_alloc d b class sub_key radix base \<noteq> None"
proof -
  have "bmap_find_place b class sub_key radix \<noteq> None"
    using bmap_place_linear_Some [OF _ assms(2), of radix] bmap_place_bitmap_Some [OF assms(3,4), of b]
    by (simp add: bmap_find_place_def)
  then obtain place where place: "bmap_find_place b class sub_key radix = Some place" by blast
  show ?thesis
  proof (cases place)
    case (Some pl)
    with bmap_find_place_ok [OF assms(1,4)] place have ok: "place_ok b radix pl" by simp
    then have "pl_i pl < 8" by (simp add: place_ok_def Let_def) linarith
    with place Some bmap_prefetch_Some [OF ok, of d "class" "2 ^ radix" base] show ?thesis
      by (auto simp: hammer2_bmap_alloc_def Let_def kkassert_bind)
  qed (simp add: hammer2_bmap_alloc_def place)
qed

section \<open>Alignment\<close>

lemma bmap_find_place_aligned:
  assumes "wf_bmap b" "radix \<le> HAMMER2_RADIX_MAX" "14 \<le> radix" "sub_key_ok class sub_key radix"
    and "bmap_find_place b class sub_key radix = Some (Some pl)"
  shows "2 ^ radix dvd pl_offset pl"
proof -
  let ?m = "blocks_of radix"
  have m: "0 < ?m" "?m dvd 32" using blocks_of_dvd_32 [OF assms(2)] by auto
  have "\<not> bmap_use_linear b (2 ^ radix)"
    using bmap_place_linear_spec(1) [of b radix pl] assms(3,5) by (auto simp: bmap_find_place_def)
  with assms(5) have "bmap_place_bitmap b class sub_key radix = Some (Some pl)"
    by (simp add: bmap_find_place_def)
  then consider (sub) i j where "bmap_sub_index class sub_key radix = Some (i, j)"
      "pl_offset pl = i * 524288 + j * 8192"
    | (scan) i j mm where "bmap_scan (bm_bitmapq b) (2 * ?m) 0 = Some (i, j, mm)"
      "pl_offset pl = i * 524288 + j * 8192"
    by (auto simp: bmap_place_bitmap_def Let_def kkassert_bind bmradix_of_eq bmap_place_success_def
        split: option.splits prod.splits if_splits)
  then obtain i a where off: "pl_offset pl = i * 524288 + (2 * a) * 8192" and a: "?m dvd a"
  proof cases
    case sub
    from sub_index_fits(4) [OF assms(4,2) sub(1)] obtain q where "j = 2 * ?m * q"
      by (rule dvdE)
    with sub(2) show ?thesis by (intro that [of i "?m * q"]) simp_all
  next
    case scan
    with bmap_scan_Some [OF m scan(1)] that show ?thesis by auto
  qed
  have "?m dvd 32 * i + a" using a m(2) by simp
  then have "16384 * ?m dvd 16384 * (32 * i + a)" by (rule mult_dvd_mono [OF dvd_refl])
  moreover have "pl_offset pl = 16384 * (32 * i + a)" by (simp add: off)
  ultimately show ?thesis by (simp only: power_blocks_of [OF assms(3)])
qed

lemma aligned_block_fits: "(c::nat) dvd x \<Longrightarrow> c dvd k \<Longrightarrow> 0 < k \<Longrightarrow> x mod k + c \<le> k"
proof -
  assume "c dvd x" "c dvd k" "0 < k"
  then have "c dvd k - x mod k" by (meson dvd_diff_nat dvd_mod)
  moreover have "0 < k - x mod k" using \<open>0 < k\<close> by simp
  ultimately have "c \<le> k - x mod k" by (simp add: dvd_imp_le)
  then show ?thesis using \<open>0 < k\<close> mod_less_divisor [of k x] by linarith
qed

lemma bmap_find_place_pbuf:
  assumes "wf_bmap b" "radix \<le> HAMMER2_RADIX_MAX" "sub_key_ok class sub_key radix"
    and "bmap_find_place b class sub_key radix = Some (Some pl)"
  shows "pl_offset pl mod HAMMER2_PBUFSIZE + 2 ^ radix \<le> HAMMER2_PBUFSIZE"
proof (cases "radix < 14")
  case True
  have "(2::nat) ^ radix \<le> 2 ^ 14" using True by (intro power_increasing) auto
  then have fit: "pl_offset pl mod 16384 + 2 ^ radix \<le> 16384"
    using bmap_find_place_ok [OF assms(1,2,4)] by (auto simp: place_ok_def Let_def)
  have "pl_offset pl mod 65536 = 16384 * (pl_offset pl div 16384 mod 4) + pl_offset pl mod 16384"
    using mod_mult2_eq [of "pl_offset pl" 16384 4] by simp
  moreover have "pl_offset pl div 16384 mod 4 < 4" by simp
  ultimately show ?thesis using fit by linarith
next
  case False
  have "(2::nat) ^ radix dvd 2 ^ 16" using assms(2) by (intro le_imp_power_dvd) simp
  with bmap_find_place_aligned [OF assms(1,2) _ assms(3,4)] False show ?thesis
    by (intro aligned_block_fits) simp_all
qed

section \<open>One allocation\<close>

lemma bmap_alloc_seg:
  assumes "seg_ok b A" "HAMMER2_RADIX_MIN \<le> radix" "radix \<le> HAMMER2_RADIX_MAX"
    and "hammer2_bmap_alloc d b class sub_key radix base = Some (e, d', b', base')"
    and "sub_key_ok class sub_key radix"
  obtains (nospc) "e = HAMMER2_ERROR_ENOSPC" "d' = d" "b' = b" "base' = base"
      "bmap_find_place b class sub_key radix = Some None"
    | (ok) off where "e = 0" "base' = base + of_nat off" "off + 2 ^ radix \<le> HAMMER2_SEGSIZE"
      "\<And>x. off \<le> x \<Longrightarrow> x < off + 2 ^ radix \<Longrightarrow> x \<notin> A"
      "HAMMER2_ALLOC_MIN dvd off" "off mod HAMMER2_PBUFSIZE + 2 ^ radix \<le> HAMMER2_PBUFSIZE"
      "seg_ok b' (A \<union> {off..<off + 2 ^ radix})" "seg_open b"
      "dv_fmap d' = dv_fmap d" "dv_total_size d' = dv_total_size d" "dv_allocator_beg d' = dv_allocator_beg d"
      "dv_create_error d' = dv_create_error d"
      "dv_allocator_free d' + of_nat (16384 * bmap_free (bm_bitmapq b)) =
       dv_allocator_free d + of_nat (16384 * bmap_free (bm_bitmapq b'))"
proof -
  have wf: "wf_bmap b" and inv: "alloc_inv b A" using assms(1) by (simp_all add: seg_ok_def)
  from wf assms(3,4) show thesis
  proof (cases rule: bmap_alloc_cases)
    case nospc
    then show ?thesis by (rule that(1))
  next
    case (ok pl)
    have free: "16384 * bmap_free (bm_bitmapq b) =
        16384 * bmap_free (bm_bitmapq b') + bmap_bgsize b radix pl"
      using bmap_commit_free [OF wf ok(3) assms(3)] ok(4) by simp
    show ?thesis
    proof (rule that(2) [of "pl_offset pl"])
      fix x
      assume "pl_offset pl \<le> x" "x < pl_offset pl + 2 ^ radix"
      then show "x \<notin> A" using place_disjoint [OF inv ok(3), of x] by auto
    next
      show "dv_allocator_free d' + of_nat (16384 * bmap_free (bm_bitmapq b)) =
       dv_allocator_free d + of_nat (16384 * bmap_free (bm_bitmapq b'))"
        unfolding free ok(6) by simp
    next
      show "1024 dvd pl_offset pl" using place_aligned_1024 [OF ok(3)] assms(1) by (simp add: seg_ok_def)
      show "pl_offset pl mod 65536 + 2 ^ radix \<le> 65536"
        using bmap_find_place_pbuf [OF wf assms(3,5) ok(2)] .
    qed (use ok place_end seg_ok_commit [OF assms(1) ok(3) assms(2,3)] place_seg_open in simp_all)
  qed
qed


section \<open>ENOSPC means that there is no run\<close>

lemma bmap_find_place_None:
  assumes "wf_bmap b" "radix \<le> HAMMER2_RADIX_MAX" "bmap_find_place b class sub_key radix = Some None"
    and "n < 256" "blocks_of radix dvd n mod 32"
  shows "\<exists>k. n \<le> k \<and> k < n + blocks_of radix \<and> bslot (bm_bitmapq b) k \<noteq> BFree"
proof (rule ccontr)
  let ?m = "blocks_of radix" and ?a = "n mod 32"
  assume "\<not> ?thesis"
  then have free: "bslot (bm_bitmapq b) k = BFree" if "n \<le> k" "k < n + ?m" for k using that by blast
  have m: "0 < ?m" "?m dvd 32" using blocks_of_dvd_32 [OF assms(2)] by auto
  have fit: "?a + ?m \<le> 32" using aligned_run_fits [OF assms(5) m(2)] by simp
  from assms(3) have none: "bmap_scan (bm_bitmapq b) (2 * ?m) 0 = None"
    by (auto simp: bmap_find_place_def bmap_place_bitmap_def Let_def kkassert_bind bmradix_of_eq
        split: if_splits option.splits prod.splits)
  have "n div 32 < 8" using assms(4) by linarith
  then have mem: "bm_bitmapq b ! (n div 32) \<in> set (bm_bitmapq b)"
    using assms(1) by (simp add: wf_bmap_def)
  have "bm_bitmapq b ! (n div 32) AND runmask (2 * ?a) (2 * ?m) = 0"
    unfolding free_run_iff [OF fit]
  proof (intro allI impI)
    fix k
    assume k: "?a \<le> k \<and> k < ?a + ?m"
    have "k < 32" using k fit by simp
    moreover have "n = 32 * (n div 32) + ?a" by simp
    ultimately have "bslot (bm_bitmapq b) (32 * (n div 32) + k) = BFree"
      using k by (intro free) linarith+
    then show "slot_state (bm_bitmapq b ! (n div 32)) k = BFree"
      using \<open>k < 32\<close> by (simp add: bslot_index)
  qed
  with bmap_scan_None [OF m(1) none mem assms(5)] show False by simp
qed

section \<open>The allocator keeps the accounting contract\<close>

definition bmap_alloc_step :: "h2dev \<times> u16 \<times> u32 \<times> nat \<times> h2_key \<Rightarrow> bmap_data \<Rightarrow> bmap_data option" where
  "bmap_alloc_step op b = (case op of (d, class, sub_key, radix, base) \<Rightarrow>
     if radix \<le> HAMMER2_RADIX_MAX
     then map_option (\<lambda>(e, d', b', base'). b') (hammer2_bmap_alloc d b class sub_key radix base)
     else None)"

interpretation bmap_alloc: accounted bmap_alloc_step
proof
  fix b op b'
  assume wf: "wf_bmap b" and ex: "avail_exact b" and "bmap_alloc_step op b = Some b'"
  then obtain d cl sub_key radix base e d' base' where r: "radix \<le> HAMMER2_RADIX_MAX"
    and "hammer2_bmap_alloc d b cl sub_key radix base = Some (e, d', b', base')"
    by (auto simp: bmap_alloc_step_def split: prod.splits if_splits)
  from this(2) have both: "wf_bmap b' \<and> avail_exact b'"
    by (rule bmap_alloc_cases [OF wf r])
      (auto simp: wf ex bmap_commit_wf bmap_commit_avail [OF wf _ r ex])
  show "wf_bmap b'" "avail_exact b'" using both by simp_all
qed

section \<open>Full and free segments\<close>

definition bmap_full :: bmap_data where
  "bmap_full = \<lparr>bm_linear = HAMMER2_SEGSIZE, bm_class = 0, bm_avail = 0,
     bm_bitmapq = replicate HAMMER2_BMAP_ELEMENTS (- 1)\<rparr>"

definition bmap_fresh :: bmap_data where
  "bmap_fresh = \<lparr>bm_linear = 0, bm_class = 0, bm_avail = HAMMER2_FREEMAP_LEVEL0_SIZE,
     bm_bitmapq = replicate HAMMER2_BMAP_ELEMENTS 0\<rparr>"

lemma seg_full: "seg_ok bmap_full {}" "\<not> seg_open bmap_full"
proof -
  have "bslot (replicate 8 (- 1)) n = BAlloc" if "n < 256" for n
    using that slot_state_minus_1 [of "n mod 32"] by (simp add: bslot_def del: slot_state_iff)
  moreover have "\<not> mid_block bmap_full" by (simp add: mid_block_def bmap_full_def)
  ultimately show "\<not> seg_open bmap_full" by (auto simp: seg_open_def bmap_full_def)
  show "seg_ok bmap_full {}"
    by (simp add: seg_ok_def wf_bmap_def linear_ok_def avail_exact_def alloc_inv_def mid_block_def
        bmap_full_def bmap_free_def sum_list_replicate)
qed

lemma seg_fresh: "seg_ok bmap_fresh {}"
  by (simp add: seg_ok_def wf_bmap_def linear_ok_def avail_exact_def alloc_inv_def mid_block_def
      bmap_fresh_def bmap_free_def sum_list_replicate)

section \<open>Properties of hammer2_bmap_alloc\<close>

text \<open>C9: An allocation keeps \<open>avail\<close> equal to the free space the bitmap shows, and the volume header's
  \<open>allocator_free\<close> drops by exactly the 16KB blocks that were taken from the bitmap; packing a small
  allocation into a block that is already allocated costs nothing.\<close>

theorem bmap_alloc_accounting:
  assumes "wf_bmap b" "avail_exact b" "radix \<le> HAMMER2_RADIX_MAX"
    and "hammer2_bmap_alloc d b class sub_key radix base = Some (e, d', b', base')"
  shows "wf_bmap b' \<and> avail_exact b' \<and> bmap_free (bm_bitmapq b') \<le> bmap_free (bm_bitmapq b) \<and>
    dv_allocator_free d' =
      dv_allocator_free d - of_nat (16384 * (bmap_free (bm_bitmapq b) - bmap_free (bm_bitmapq b')))"
  using assms(1,3,4)
proof (cases rule: bmap_alloc_cases)
  case nospc
  with assms show ?thesis by simp
next
  case (ok pl)
  have free: "16384 * bmap_free (bm_bitmapq b') + bmap_bgsize b radix pl = 16384 * bmap_free (bm_bitmapq b)"
    using bmap_commit_free [OF assms(1) ok(3) assms(3)] ok(4) by simp
  then have "bmap_bgsize b radix pl = 16384 * (bmap_free (bm_bitmapq b) - bmap_free (bm_bitmapq b'))"
    "bmap_free (bm_bitmapq b') \<le> bmap_free (bm_bitmapq b)" by linarith+
  moreover have "wf_bmap b'" "avail_exact b'"
    using bmap_commit_wf [OF assms(1)] bmap_commit_avail [OF assms(1) ok(3) assms(3,2)] by (simp_all add: ok(4))
  ultimately show ?thesis using ok(6) by simp
qed

text \<open>An entry of which one element is free; the other seven are allocated.\<close>

definition sample_bmap :: bmap_data where
  "sample_bmap = \<lparr>bm_linear = 0, bm_class = 0, bm_avail = 32 * 16384, bm_bitmapq = 0 # replicate 7 (- 1)\<rparr>"

text \<open>A 4GB device whose freemap is still empty.\<close>

definition sample_dev :: h2dev where
  "sample_dev = \<lparr>dv_allocator_beg = 0x800000, dv_allocator_free = 0x100000000 - 0x800000,
     dv_total_size = 0x100000000, dv_relaxed = 0, dv_heur = replicate 32 0, dv_fmap = Map.empty,
     dv_create_error = (\<lambda>_. 0), dv_log = []\<rparr>"

lemma sample_bmap_wf: "wf_bmap sample_bmap" "avail_exact sample_bmap" "linear_ok sample_bmap"
  by (simp_all add: sample_bmap_def wf_bmap_def avail_exact_def linear_ok_def bmap_free_def sum_list_replicate)

theorem bmap_alloc_accounting_witness:
  "\<exists>e d' b' base'. hammer2_bmap_alloc sample_dev sample_bmap 0x0310 0 14 0x800000 = Some (e, d', b', base') \<and>
     avail_exact b'"
proof -
  have "sub_key_ok 0x0310 0 14" by (simp add: sub_key_ok_def)
  from bmap_alloc_Some [OF sample_bmap_wf(1,3) this, where d = sample_dev and base = "0x800000"] obtain e d' b' base' where
    alloc: "hammer2_bmap_alloc sample_dev sample_bmap 0x0310 0 14 0x800000 = Some (e, d', b', base')" by auto
  with bmap_alloc_accounting [OF sample_bmap_wf(1,2) _ alloc] show ?thesis by auto
qed

text \<open>C10: \<open>ENOSPC\<close> is returned only if no aligned run of free blocks of the requested size is left in the
  segment and the block under the linear iterator has no room; and then nothing has been changed.\<close>

theorem bmap_alloc_enospc:
  assumes "wf_bmap b" "radix \<le> HAMMER2_RADIX_MAX"
    and "hammer2_bmap_alloc d b class sub_key radix base = Some (HAMMER2_ERROR_ENOSPC, d', b', base')"
  shows "d' = d \<and> b' = b \<and> base' = base \<and> \<not> bmap_use_linear b (2 ^ radix) \<and>
    (\<forall>n. n < 256 \<and> blocks_of radix dvd n mod 32 \<longrightarrow>
       (\<exists>k. n \<le> k \<and> k < n + blocks_of radix \<and> bslot (bm_bitmapq b) k \<noteq> BFree))"
  using assms
proof (cases rule: bmap_alloc_cases)
  case nospc
  then have "\<not> bmap_use_linear b (2 ^ radix)" by (auto simp: bmap_find_place_def)
  with nospc bmap_find_place_None [OF assms(1,2) nospc(5)] show ?thesis by blast
qed simp

theorem bmap_alloc_enospc_witness:
  "\<exists>b. wf_bmap b \<and> hammer2_bmap_alloc sample_dev b 0x0310 0 16 0x800000 = Some (HAMMER2_ERROR_ENOSPC, sample_dev, b, 0x800000) \<and>
     \<not> bmap_use_linear b (2 ^ 16)"
proof -
  have sk: "sub_key_ok 0x0310 0 16" by (simp add: sub_key_ok_def)
  have wf: "wf_bmap bmap_full" "linear_ok bmap_full" using seg_full(1) by (simp_all add: seg_ok_def)
  from bmap_alloc_Some [OF wf sk, where d = sample_dev and base = "0x800000"] obtain e d' b' base' where
    alloc: "hammer2_bmap_alloc sample_dev bmap_full 0x0310 0 16 0x800000 = Some (e, d', b', base')" by auto
  have run: "hammer2_bmap_alloc sample_dev bmap_full 0x0310 0 16 0x800000 =
      Some (HAMMER2_ERROR_ENOSPC, sample_dev, bmap_full, 0x800000)"
    by (rule bmap_alloc_seg [OF seg_full(1) _ _ alloc sk]) (use alloc seg_full(2) in simp_all)
  from bmap_alloc_enospc [OF wf(1) _ run] run wf(1) show ?thesis by (intro exI [of _ bmap_full]) simp
qed

end
