(* ===== verification/H2_Zone.thy ===== *)
theory H2_Zone
  imports H2_Segment
begin

text \<open>
  The freemap above one bitmap entry, \<open>sys/hammer2/hammer2_freemap.c\<close>: reserved locations of the
  freemap blocks, initialisation of a level-1 leaf, the scan of a leaf, the iteration over the
  leaves of the device, the allocator entry point and the recovery adjustment.

  \<open>hammer2_chain_lookup\<close> of the leaf with key \<open>k\<close> is \<open>dv_fmap d k\<close>; \<open>hammer2_chain_create\<close> of that
  leaf returns the error \<open>dv_create_error d k\<close> (0 in normal operation).  \<open>INVARIANTS\<close> is on, and
  \<open>hmp->spmp\<close> is set.
\<close>

section \<open>hammer2_freemap_reserve\<close>

text \<open>The selection index 0..7 of the current location, rotated to the next.\<close>

definition freemap_reserve_index :: "h2_off \<Rightarrow> nat option" where
  "freemap_reserve_index data_off =
     (if data_off AND NOT HAMMER2_OFF_MASK_RADIX = 0 then Some 0
      else do {
        let off = unat (data_off AND NOT HAMMER2_OFF_MASK_RADIX AND HAMMER2_SEGMASK) div HAMMER2_PBUFSIZE;
        kkassert (HAMMER2_ZONE_FREEMAP_00 \<le> off \<and> off < HAMMER2_ZONE_FREEMAP_END);
        let index = (off - HAMMER2_ZONE_FREEMAP_00) div HAMMER2_ZONE_FREEMAP_INC;
        kkassert (index < HAMMER2_NFREEMAPS);
        Some (if index + 1 = HAMMER2_NFREEMAPS then 0 else index + 1)
      })"

text \<open>The cases on \<open>keybits\<close>: the block type required and \<open>HAMMER2_ZONEFM_LEVEL1..5\<close>.\<close>

definition freemap_reserve_level :: "u8 \<Rightarrow> (u8 \<times> nat) option" where
  "freemap_reserve_level keybits =
     (if keybits = HAMMER2_FREEMAP_LEVEL5_RADIX then Some (BREF_FREEMAP_NODE, 4)
      else if keybits = HAMMER2_FREEMAP_LEVEL4_RADIX then Some (BREF_FREEMAP_NODE, 3)
      else if keybits = HAMMER2_FREEMAP_LEVEL3_RADIX then Some (BREF_FREEMAP_NODE, 2)
      else if keybits = HAMMER2_FREEMAP_LEVEL2_RADIX then Some (BREF_FREEMAP_NODE, 1)
      else if keybits = HAMMER2_FREEMAP_LEVEL1_RADIX then Some (BREF_FREEMAP_LEAF, 0)
      else hpanic)"

definition hammer2_freemap_reserve :: "blockref \<Rightarrow> nat \<Rightarrow> blockref option" where
  "hammer2_freemap_reserve bref radix = do {
     index \<leftarrow> freemap_reserve_index (br_data_off bref);
     let index_inc = index * HAMMER2_ZONE_FREEMAP_INC;
     (type, level) \<leftarrow> freemap_reserve_level (br_keybits bref);
     kkassert (br_type bref = type);
     kkassert ((2::nat) ^ radix = HAMMER2_FREEMAP_LEVELN_PSIZE);
     let off = H2FMBASE (br_key bref) (unat (br_keybits bref)) +
               of_nat ((index_inc + HAMMER2_ZONE_FREEMAP_00 + level) * HAMMER2_PBUFSIZE);
     Some (bref\<lparr>br_data_off := off OR of_nat radix\<rparr>)
   }"

section \<open>hammer2_freemap_init\<close>

definition freemap_init_lokey :: "h2dev \<Rightarrow> h2_key \<Rightarrow> h2_off" where
  "freemap_init_lokey d key =
     (let lokey = (dv_allocator_beg d + HAMMER2_SEGMASK) AND NOT HAMMER2_SEGMASK;
          lokey = (if lokey < H2FMBASE key HAMMER2_FREEMAP_LEVEL1_RADIX
                   then H2FMBASE key HAMMER2_FREEMAP_LEVEL1_RADIX else lokey)
      in if lokey < H2FMZONEBASE key + HAMMER2_ZONE_SEG
         then H2FMZONEBASE key + HAMMER2_ZONE_SEG else lokey)"

definition freemap_init_hikey :: "h2dev \<Rightarrow> h2_key \<Rightarrow> h2_off" where
  "freemap_init_hikey d key =
     (let hikey = key + HAMMER2_FREEMAP_LEVEL1_SIZE
      in if dv_total_size d < hikey then dv_total_size d AND NOT HAMMER2_SEGMASK else hikey)"

fun freemap_init_loop ::
  "h2_off \<Rightarrow> h2_off \<Rightarrow> h2_key \<Rightarrow> bmap_data list \<Rightarrow> u64 \<Rightarrow> bmap_data list \<times> u64" where
  "freemap_init_loop lokey hikey key [] avail = ([], avail)"
| "freemap_init_loop lokey hikey key (bmap # bmaps) avail =
     (let (bmap', avail') =
        (if key < lokey \<or> hikey \<le> key
         then (bmap\<lparr>bm_bitmapq := replicate HAMMER2_BMAP_ELEMENTS (- 1), bm_avail := 0,
                    bm_linear := HAMMER2_SEGSIZE\<rparr>, avail - HAMMER2_FREEMAP_LEVEL0_SIZE)
         else (bmap\<lparr>bm_avail := HAMMER2_FREEMAP_LEVEL0_SIZE\<rparr>, avail));
        (bmaps', avail'') = freemap_init_loop lokey hikey (key + HAMMER2_FREEMAP_LEVEL0_SIZE) bmaps avail'
      in (bmap' # bmaps', avail''))"

definition hammer2_freemap_init :: "h2dev \<Rightarrow> h2_key \<Rightarrow> leaf \<Rightarrow> leaf" where
  "hammer2_freemap_init d key lf =
     (let (bmaps, avail) = freemap_init_loop (freemap_init_lokey d key) (freemap_init_hikey d key) key
                             (lf_bmdata lf) HAMMER2_FREEMAP_LEVEL1_SIZE
      in lf\<lparr>lf_bmdata := bmaps, lf_avail := avail\<rparr>)"

section \<open>hammer2_freemap_iterate\<close>

definition hammer2_freemap_iterate :: "h2dev \<Rightarrow> fiterate \<Rightarrow> u32 \<times> fiterate" where
  "hammer2_freemap_iterate d it =
     (let bnext = (it_bnext it AND NOT HAMMER2_FREEMAP_LEVEL1_MASK) + HAMMER2_FREEMAP_LEVEL1_SIZE in
      if dv_total_size d \<le> bnext then
        let it = it\<lparr>it_bnext := 0, it_loops := it_loops it + 1\<rparr> in
        (if 2 \<le> it_loops it then
           (if it_relaxed it = 0 then (HAMMER2_ERROR_EAGAIN, it\<lparr>it_relaxed := 1\<rparr>)
            else (HAMMER2_ERROR_ENOSPC, it))
         else (HAMMER2_ERROR_EAGAIN, it))
      else (HAMMER2_ERROR_EAGAIN, it\<lparr>it_bnext := bnext\<rparr>))"

section \<open>hammer2_freemap_try_alloc\<close>

text \<open>A leaf as it is created: cleared, with all size hints set, and initialised.\<close>

definition freemap_leaf_new :: "h2dev \<Rightarrow> h2_key \<Rightarrow> leaf" where
  "freemap_leaf_new d key =
     hammer2_freemap_init d key
       \<lparr>lf_bigmask = - 1, lf_avail = HAMMER2_FREEMAP_LEVEL1_SIZE, lf_error = 0,
        lf_bmdata = replicate HAMMER2_FREEMAP_COUNT bmap_zero\<rparr>"

definition freemap_get_leaf :: "h2dev \<Rightarrow> h2_key \<Rightarrow> nat \<Rightarrow> (u32 \<times> leaf) option" where
  "freemap_get_leaf d key radix =
     (case dv_fmap d key of
        None \<Rightarrow> do {
          kkassert (dv_create_error d key = 0);
          Some (0, freemap_leaf_new d key)
        }
      | Some lf \<Rightarrow>
          if lf_error lf \<noteq> 0 then Some (HAMMER2_ERROR_EIO, lf)
          else if ucast (lf_bigmask lf) AND (push_bit radix 1 :: u64) = 0
          then Some (HAMMER2_ERROR_ENOSPC, lf)
          else Some (0, lf))"

definition freemap_availchk :: "bmap_data \<Rightarrow> nat \<Rightarrow> bool" where
  "freemap_availchk bmap radix \<longleftrightarrow>
     bm_avail bmap \<noteq> 0 \<or>
     radix < HAMMER2_FREEMAP_BLOCK_RADIX \<and> bm_linear bmap AND HAMMER2_FREEMAP_BLOCK_MASK \<noteq> 0"

text \<open>One attempt, at index \<open>n\<close>; both directions of the scan make it.  The forward index is never
  negative and the backward index never too large, so the two range tests are one.\<close>

definition freemap_try_bmap ::
  "h2dev \<Rightarrow> leaf \<Rightarrow> u16 \<Rightarrow> u32 \<Rightarrow> nat \<Rightarrow> nat \<Rightarrow> h2_key \<Rightarrow> int \<Rightarrow> (u32 \<times> h2dev \<times> leaf \<times> h2_key) option" where
  "freemap_try_bmap d lf class sub_key radix relaxed key n =
     (let bmap = lf_bmdata lf ! nat n in
      if 0 \<le> n \<and> n < HAMMER2_FREEMAP_COUNT \<and> freemap_availchk bmap radix \<and>
         (bm_class bmap = 0 \<or> bm_class bmap = class \<or> relaxed \<noteq> 0)
      then do {
        (error, d', bmap', base_key) \<leftarrow> hammer2_bmap_alloc d bmap class sub_key radix
                                         (key + of_int n * HAMMER2_FREEMAP_LEVEL0_SIZE);
        Some (error, d', lf\<lparr>lf_bmdata := (lf_bmdata lf)[nat n := bmap']\<rparr>,
              (if error \<noteq> HAMMER2_ERROR_ENOSPC then base_key else key))
      }
      else Some (HAMMER2_ERROR_ENOSPC, d, lf, key))"

function freemap_scan ::
  "h2dev \<Rightarrow> leaf \<Rightarrow> u16 \<Rightarrow> u32 \<Rightarrow> nat \<Rightarrow> nat \<Rightarrow> h2_key \<Rightarrow> nat \<Rightarrow> nat \<Rightarrow> (u32 \<times> h2dev \<times> leaf \<times> h2_key) option" where
  "freemap_scan d lf class sub_key radix relaxed key start count =
     (if count < HAMMER2_FREEMAP_COUNT \<and> \<not> (HAMMER2_FREEMAP_COUNT \<le> start + count \<and> start < count)
      then do {
        (error, d1, lf1, key1) \<leftarrow>
          freemap_try_bmap d lf class sub_key radix relaxed key (int start + int count);
        if error \<noteq> HAMMER2_ERROR_ENOSPC then Some (error, d1, lf1, key1)
        else do {
          (error, d2, lf2, key2) \<leftarrow>
            freemap_try_bmap d1 lf1 class sub_key radix relaxed key (int start - int count);
          if error \<noteq> HAMMER2_ERROR_ENOSPC then Some (error, d2, lf2, key2)
          else freemap_scan d2 lf2 class sub_key radix relaxed key start (count + 1)
        }
      }
      else Some (HAMMER2_ERROR_ENOSPC, d, lf, key))"
  by pat_completeness auto
termination
  by (relation "measure (\<lambda>(d, lf, class, sub_key, radix, relaxed, key, start, count). 256 - count)") auto

declare freemap_scan.simps [simp del]

definition freemap_scan_leaf ::
  "h2dev \<Rightarrow> leaf \<Rightarrow> u16 \<Rightarrow> u32 \<Rightarrow> nat \<Rightarrow> h2_key \<Rightarrow> fiterate \<Rightarrow> (u32 \<times> h2dev \<times> h2_key) option" where
  "freemap_scan_leaf d lf class sub_key radix key it = do {
     let start = unat (drop_bit HAMMER2_FREEMAP_LEVEL0_RADIX (it_bnext it - key));
     kkassert (start < HAMMER2_FREEMAP_COUNT);
     (error, d1, lf1, key1) \<leftarrow> freemap_scan d lf class sub_key radix (it_relaxed it) key start 0;
     let lf2 = (if error = HAMMER2_ERROR_ENOSPC \<and> start = 0 \<and> it_relaxed it \<noteq> 0
                then lf1\<lparr>lf_bigmask := lf_bigmask lf1 AND ucast (NOT (push_bit radix 1 :: u64))\<rparr>
                else lf1);
     Some (error, d1\<lparr>dv_fmap := (dv_fmap d1)(key \<mapsto> lf2)\<rparr>, key1)
   }"

definition freemap_class :: "u8 \<Rightarrow> u16" where
  "freemap_class type = push_bit 8 (ucast type) OR HAMMER2_PBUFRADIX"

definition hammer2_freemap_try_alloc ::
  "h2dev \<Rightarrow> blockref \<Rightarrow> nat \<Rightarrow> fiterate \<Rightarrow> (u32 \<times> h2dev \<times> blockref \<times> fiterate) option" where
  "hammer2_freemap_try_alloc d bref radix it = do {
     let class = freemap_class (br_type bref);
     let key = H2FMBASE (it_bnext it) HAMMER2_FREEMAP_LEVEL1_RADIX;
     (error, lf) \<leftarrow> freemap_get_leaf d key radix;
     (error, d, key) \<leftarrow>
       (if error = 0 then freemap_scan_leaf d lf class (ucast (br_key bref)) radix key it
        else Some (error, d, key));
     if error = 0 then do {
       kkassert (dv_allocator_beg d \<le> key \<and> key + of_nat (2 ^ radix) \<le> dv_total_size d);
       kkassert (HAMMER2_ZONE_SEG \<le> key AND HAMMER2_ZONE_MASK64);
       let data_off = key OR of_nat radix;
       let d = (if br_type bref = BREF_DATA then log_event (IoDedupSet data_off) d else d);
       Some (0, d, bref\<lparr>br_data_off := data_off\<rparr>, it)
     }
     else if error = HAMMER2_ERROR_ENOSPC then
       (let (error, it') = hammer2_freemap_iterate d it in Some (error, d, bref, it'))
     else Some (error, d, bref, it)
   }"

section \<open>hammer2_freemap_alloc\<close>

text \<open>The retry loop, with fuel; \<open>freemap_fuel\<close> below is enough for every device, and a loop that ran
  out of fuel would return the \<open>EAGAIN\<close> it is still waiting with.\<close>

fun freemap_alloc_loop ::
  "nat \<Rightarrow> u32 \<Rightarrow> h2dev \<Rightarrow> blockref \<Rightarrow> nat \<Rightarrow> fiterate \<Rightarrow> (u32 \<times> h2dev \<times> blockref \<times> fiterate) option" where
  "freemap_alloc_loop 0 error d bref radix it = Some (error, d, bref, it)"
| "freemap_alloc_loop (Suc fuel) error d bref radix it =
     (if error = HAMMER2_ERROR_EAGAIN then do {
        (error, d, bref, it) \<leftarrow> hammer2_freemap_try_alloc d bref radix it;
        freemap_alloc_loop fuel error d bref radix it
      } else Some (error, d, bref, it))"

definition freemap_hindex :: "u8 \<Rightarrow> nat" where
  "freemap_hindex type = (HAMMER2_PBUFRADIX - HAMMER2_LBUFRADIX + unat type * 4) AND (8 * 4 - 1)"

definition freemap_fuel :: "h2dev \<Rightarrow> nat" where
  "freemap_fuel d = 4 * (unat (dv_total_size d) div HAMMER2_FREEMAP_LEVEL1_SIZE + 2)"

definition hammer2_freemap_alloc :: "h2dev \<Rightarrow> blockref \<Rightarrow> nat \<Rightarrow> (u32 \<times> h2dev \<times> blockref) option" where
  "hammer2_freemap_alloc d bref bytes =
     (if bytes = 0 then Some (0, d, bref\<lparr>br_data_off := 0\<rparr>)
      else do {
        let radix = hammer2_getradix bytes;
        kkassert (2 ^ radix = bytes);
        if br_type bref = BREF_FREEMAP_NODE \<or> br_type bref = BREF_FREEMAP_LEAF then do {
          bref' \<leftarrow> hammer2_freemap_reserve bref radix;
          Some (0, d, bref')
        } else do {
          kkassert (HAMMER2_ALLOC_MIN \<le> bytes \<and> bytes \<le> HAMMER2_ALLOC_MAX);
          let hindex = freemap_hindex (br_type bref);
          kkassert (hindex < 32);
          let bpref = dv_heur d ! hindex;
          let bpref = (if dv_total_size d < bpref then dv_total_size d - 1 else bpref);
          let it = \<lparr>it_bpref = bpref, it_bnext = bpref, it_loops = 0, it_relaxed = dv_relaxed d\<rparr>;
          (error, d', bref', it') \<leftarrow>
            freemap_alloc_loop (freemap_fuel d) HAMMER2_ERROR_EAGAIN d bref radix it;
          Some (error, d'\<lparr>dv_relaxed := dv_relaxed d' OR it_relaxed it',
                          dv_heur := (dv_heur d')[hindex := it_bnext it']\<rparr>, bref')
        }
      })"

section \<open>hammer2_freemap_adjust\<close>

text \<open>The loop over the 16KB blocks, with \<open>goto again\<close>: the first block that has to change sets
  \<open>modified\<close>, clears the linear iterator and is looked at again.  \<open>i\<close> is the element of \<open>bitmapq\<close>.\<close>

function freemap_adjust_loop ::
  "nat \<Rightarrow> nat \<Rightarrow> u64 \<Rightarrow> u16 \<Rightarrow> bool \<Rightarrow> bmap_data \<Rightarrow> nat \<Rightarrow> (bool \<times> bmap_data \<times> nat) option" where
  "freemap_adjust_loop i count bmmask11 class modified bmap bgsize =
     (if count = 0 then Some (modified, bmap, bgsize)
      else do {
        kkassert (bmmask11 \<noteq> 0);
        if bm_bitmapq bmap ! i AND bmmask11 \<noteq> bmmask11 then
          (if \<not> modified then
             freemap_adjust_loop i count bmmask11 class True (bmap\<lparr>bm_linear := 0\<rparr>) bgsize
           else
             (let free = (bm_bitmapq bmap ! i AND bmmask11 = 0);
                  bmap' = bmap\<lparr>bm_avail := (if free then bm_avail bmap - HAMMER2_FREEMAP_BLOCK_SIZE
                                           else bm_avail bmap),
                              bm_class := (if bm_class bmap = 0 then class else bm_class bmap),
                              bm_bitmapq := (bm_bitmapq bmap)[i := bm_bitmapq bmap ! i OR bmmask11]\<rparr>
              in freemap_adjust_loop i (count - 1) (push_bit 2 bmmask11) class modified bmap'
                   (if free then bgsize + HAMMER2_FREEMAP_BLOCK_SIZE else bgsize)))
        else freemap_adjust_loop i (count - 1) (push_bit 2 bmmask11) class modified bmap bgsize
      })"
  by pat_completeness auto
termination
  by (relation "measure (\<lambda>(i, count, bmmask11, class, modified, bmap, bgsize).
        2 * count + (if modified then 0 else 1))") auto

declare freemap_adjust_loop.simps [simp del]

text \<open>The caller passes \<open>HAMMER2_FREEMAP_DORECOVER\<close>, the only value the function accepts.  A missing
  leaf is dereferenced (\<open>chain->error\<close>) before the code that would create it.\<close>

definition hammer2_freemap_adjust :: "h2dev \<Rightarrow> blockref \<Rightarrow> h2dev option" where
  "hammer2_freemap_adjust d bref = do {
     let radix = unat (br_data_off bref AND HAMMER2_OFF_MASK_RADIX);
     kkassert (radix \<noteq> 0);
     kkassert (radix \<le> HAMMER2_RADIX_MAX);
     let data_off = br_data_off bref AND NOT HAMMER2_OFF_MASK_RADIX;
     let class = freemap_class (br_type bref);
     if data_off < dv_allocator_beg d then Some d
     else do {
       kkassert (HAMMER2_ZONE_SEG \<le> data_off AND HAMMER2_ZONE_MASK64);
       let key = H2FMBASE data_off HAMMER2_FREEMAP_LEVEL1_RADIX;
       (case dv_fmap d key of
          None \<Rightarrow> hpanic
        | Some lf \<Rightarrow>
            if lf_error lf \<noteq> 0 then Some d
            else do {
              let start = (unat (drop_bit HAMMER2_FREEMAP_BLOCK_RADIX data_off) AND 15) * 2;
              let count = (if radix < HAMMER2_FREEMAP_BLOCK_RADIX then 1
                           else 2 ^ (radix - HAMMER2_FREEMAP_BLOCK_RADIX));
              let n = unat (drop_bit HAMMER2_SEGRADIX data_off) AND (HAMMER2_FREEMAP_COUNT - 1);
              let i = unat (drop_bit (HAMMER2_SEGRADIX - 3) data_off) AND 7;
              (modified, bmap, bgsize) \<leftarrow>
                freemap_adjust_loop i count (push_bit start 3) class False (lf_bmdata lf ! n) 0;
              let lf' = lf\<lparr>lf_bmdata := (lf_bmdata lf)[n := bmap],
                          lf_bigmask := (if modified then - 1 else lf_bigmask lf)\<rparr>;
              let d' = d\<lparr>dv_fmap := (dv_fmap d)(key \<mapsto> lf'),
                         dv_relaxed := (if modified then 0 else dv_relaxed d)\<rparr>;
              Some (voldata_sub_free bgsize d')
            })
     }
   }"

section \<open>A fresh leaf\<close>

lemma freemap_init_loop_length [simp]:
  "length (fst (freemap_init_loop lo hi key bs avail)) = length bs"
  by (induction lo hi key bs avail rule: freemap_init_loop.induct) (auto split: prod.splits)

lemma freemap_init_loop_nth:
  "n < length bs \<Longrightarrow>
   fst (freemap_init_loop lo hi key bs avail) ! n =
     (let k = key + of_nat n * HAMMER2_FREEMAP_LEVEL0_SIZE in
      if k < lo \<or> hi \<le> k
      then (bs ! n)\<lparr>bm_bitmapq := replicate HAMMER2_BMAP_ELEMENTS (- 1), bm_avail := 0,
                   bm_linear := HAMMER2_SEGSIZE\<rparr>
      else (bs ! n)\<lparr>bm_avail := HAMMER2_FREEMAP_LEVEL0_SIZE\<rparr>)"
proof (induction lo hi key bs avail arbitrary: n rule: freemap_init_loop.induct)
  case (2 lo hi key b bs avail)
  show ?case
  proof (cases n)
    case 0
    then show ?thesis by (auto simp: Let_def split: prod.splits)
  next
    case (Suc m)
    with 2(2) have m: "m < length bs" by simp
    have step: "fst (freemap_init_loop lo hi key (b # bs) avail) ! n =
        fst (freemap_init_loop lo hi (key + 4194304) bs
          (if key < lo \<or> hi \<le> key then avail - 4194304 else avail)) ! m"
      by (simp add: Suc Let_def split: prod.splits)
    show ?thesis
      unfolding step using 2(1) [OF refl _ m] Suc by (auto simp: Let_def algebra_simps)
  qed
qed simp

lemma freemap_leaf_new_bmdata:
  "length (lf_bmdata (freemap_leaf_new d key)) = 256"
  "n < 256 \<Longrightarrow> lf_bmdata (freemap_leaf_new d key) ! n =
     (let k = key + of_nat n * HAMMER2_FREEMAP_LEVEL0_SIZE in
      if k < freemap_init_lokey d key \<or> freemap_init_hikey d key \<le> k then bmap_full else bmap_fresh)"
proof -
  let ?r = "freemap_init_loop (freemap_init_lokey d key) (freemap_init_hikey d key) key
    (replicate 256 bmap_zero) 1073741824"
  have eq: "lf_bmdata (freemap_leaf_new d key) = fst ?r"
    by (simp add: freemap_leaf_new_def hammer2_freemap_init_def split: prod.splits)
  show "length (lf_bmdata (freemap_leaf_new d key)) = 256"
    unfolding eq by simp
  show "n < 256 \<Longrightarrow> lf_bmdata (freemap_leaf_new d key) ! n =
     (let k = key + of_nat n * HAMMER2_FREEMAP_LEVEL0_SIZE in
      if k < freemap_init_lokey d key \<or> freemap_init_hikey d key \<le> k then bmap_full else bmap_fresh)"
    unfolding eq by (subst freemap_init_loop_nth)
      (simp_all add: Let_def bmap_full_def bmap_fresh_def bmap_zero_def)
qed

end
