(* ===== verification/H2_Device.thy ===== *)
theory H2_Device
  imports H2_Zone
begin

text \<open>
  The device-wide invariant of the freemap.  \<open>dev_inv d A\<close> relates the freemap of \<open>d\<close> to the set \<open>A\<close>
  of all device bytes that have been handed out.
\<close>

section \<open>Where allocations may lie\<close>

text \<open>Volume sizes and offsets are below 8EB, so that the additions of \<open>hammer2_freemap_init\<close> and
  of the allocator's assertions do not wrap.\<close>

definition dev_geom :: "h2dev \<Rightarrow> bool" where
  "dev_geom d \<longleftrightarrow> 0 < dv_total_size d \<and> unat (dv_total_size d) \<le> 2 ^ 63 \<and> unat (dv_allocator_beg d) \<le> 2 ^ 63"

text \<open>A 4MB segment above the static allocation, inside the volume and not the reserved segment of
  its zone.\<close>

definition seg_place :: "h2dev \<Rightarrow> nat \<Rightarrow> bool" where
  "seg_place d s \<longleftrightarrow> unat (dv_allocator_beg d) \<le> s \<and> s + HAMMER2_SEGSIZE \<le> unat (dv_total_size d) \<and>
     HAMMER2_ZONE_SEG \<le> s mod 2 ^ 31"

lemma segmask_eq: "(HAMMER2_SEGMASK :: u64) = mask 22"
  by (simp add: mask_eq_exp_minus_1)

lemma H2FMBASE_aligned: "unat k mod 2 ^ 30 = 0 \<Longrightarrow> H2FMBASE k 30 = k"
  by (simp add: word_unat_eq_iff unat_H2FMBASE)

lemma aligned_key_bound:
  assumes "unat (k :: u64) mod 2 ^ 30 = 0"
  shows "unat k + 2 ^ 30 \<le> 2 ^ 64"
proof -
  have "unat k < 2 ^ LENGTH(64)" by (rule unsigned_less)
  then have "unat k < 2 ^ 30 * 2 ^ 34" by simp
  moreover obtain q where q: "unat k = 2 ^ 30 * q" using assms by (metis mod_0_imp_dvd dvdE)
  ultimately have "q < 2 ^ 34" by simp
  then have "q + 1 \<le> 2 ^ 34" by simp
  then have "2 ^ 30 * (q + 1) \<le> (2 ^ 30 * 2 ^ 34 :: nat)" by (rule mult_le_mono2)
  then show ?thesis by (simp add: q algebra_simps)
qed

lemma unat_seg_key:
  assumes "unat (k :: u64) mod 2 ^ 30 = 0" "n < 256" "x < HAMMER2_SEGSIZE"
  shows "unat (k + of_nat n * HAMMER2_FREEMAP_LEVEL0_SIZE + of_nat x) = unat k + n * HAMMER2_SEGSIZE + x"
proof -
  have "n * 4194304 + x < 2 ^ 30" using assms(2,3) by simp
  then have "unat k + (n * 4194304 + x) < 2 ^ 64"
    using aligned_key_bound [OF assms(1)] by linarith
  moreover have "k + of_nat n * 4194304 + of_nat x = of_nat (unat k + (n * 4194304 + x))"
    by simp
  ultimately show ?thesis
    by (simp only: unat_of_nat) simp
qed

lemma unat_add_small: "unat (a::u64) + unat b < 2 ^ 64 \<Longrightarrow> unat (a + b) = unat a + unat b"
  by (simp add: unat_word_ariths)

lemma round_up_segment:
  assumes "unat (a :: u64) \<le> 2 ^ 63"
  shows "unat a \<le> unat ((a + HAMMER2_SEGMASK) AND NOT HAMMER2_SEGMASK)"
proof -
  have "unat (a + 4194303) = unat a + 4194303"
    using assms unat_add_small [of a 4194303] by simp
  then show ?thesis
    unfolding segmask_eq unat_and_not_mask using mod_less_divisor [of "2 ^ 22" "unat a + 4194303"]
    by (simp add: mask_eq_exp_minus_1)
qed

lemma zone_offset:
  fixes q n :: nat
  assumes "1 \<le> n" "n < 256"
  shows "HAMMER2_ZONE_SEG \<le> (2 ^ 30 * q + n * HAMMER2_SEGSIZE) mod 2 ^ 31"
proof -
  obtain p r where pr: "q = 2 * p + r" "r < 2"
    by (rule that [of "q div 2" "q mod 2"]) simp_all
  have eq: "2 ^ 30 * q + n * 4194304 = 2 ^ 31 * p + (2 ^ 30 * r + n * 4194304)"
    by (simp add: pr algebra_simps)
  have "2 ^ 30 * r + n * 4194304 < 2 ^ 31"
    using assms(2) pr(2) by (cases "r = 0") (simp_all add: less_2_cases_iff)
  then have "(2 ^ 30 * q + n * 4194304) mod 2 ^ 31 = 2 ^ 30 * r + n * 4194304"
    unfolding eq by (simp only: mod_mult_self4 mod_less)
  then show ?thesis using assms(1) by linarith
qed

text \<open>A segment below the end of the initialised area ends inside the volume.\<close>

lemma below_hikey:
  assumes "unat key = 2 ^ 30 * q" "unat k = unat key + n * HAMMER2_SEGSIZE" "n < 256"
    and "\<not> freemap_init_hikey d key \<le> k"
  shows "unat k + HAMMER2_SEGSIZE \<le> unat (dv_total_size d)"
proof (cases "dv_total_size d < key + 1073741824")
  case True
  with assms(4) have "k < dv_total_size d AND NOT 4194303"
    by (simp add: freemap_init_hikey_def)
  then have lt: "unat k < unat (dv_total_size d) - unat (dv_total_size d) mod 2 ^ 22"
    by (simp only: word_less_nat_alt segmask_eq unat_and_not_mask)
  define t where "t = unat (dv_total_size d) div 2 ^ 22"
  have t: "unat (dv_total_size d) = 2 ^ 22 * t + unat (dv_total_size d) mod 2 ^ 22"
    by (simp add: t_def)
  have k: "unat k = 2 ^ 22 * (2 ^ 8 * q + n)" by (simp add: assms(1,2))
  with lt t have "2 ^ 22 * (2 ^ 8 * q + n) < 2 ^ 22 * t" by linarith
  then have "2 ^ 8 * q + n + 1 \<le> t" by simp
  then have "2 ^ 22 * (2 ^ 8 * q + n + 1) \<le> 2 ^ 22 * t" by (rule mult_le_mono2)
  with t k show ?thesis by (simp add: algebra_simps)
next
  case False
  then have "k < key + 1073741824" using assms(4) by (simp add: freemap_init_hikey_def)
  then have less: "unat k < unat (key + 1073741824)" by (simp only: word_less_nat_alt)
  have "unat key mod 2 ^ 30 = 0" by (simp add: assms(1))
  have "unat key + 1073741824 < 2 ^ 64"
  proof (rule ccontr)
    assume "\<not> ?thesis"
    with aligned_key_bound [OF \<open>unat key mod 2 ^ 30 = 0\<close>] have "unat key + 1073741824 = 2 ^ 64" by simp
    then have "unat (key + 1073741824) = 0" by (simp add: unat_word_ariths)
    with less show False by simp
  qed
  then have "unat (key + 1073741824) = unat key + 1073741824"
    using unat_add_small [of key 1073741824] by simp
  with False have "unat key + 1073741824 \<le> unat (dv_total_size d)"
    by (simp add: word_less_nat_alt not_less)
  moreover have "n * 4194304 + 4194304 \<le> 1073741824" using assms(3) by simp
  ultimately show ?thesis using assms(2) by linarith
qed

lemma fresh_seg_place:
  assumes "dev_geom d" "unat key mod 2 ^ 30 = 0" "n < 256"
    and "\<not> key + of_nat n * HAMMER2_FREEMAP_LEVEL0_SIZE < freemap_init_lokey d key"
    and "\<not> freemap_init_hikey d key \<le> key + of_nat n * HAMMER2_FREEMAP_LEVEL0_SIZE"
  shows "seg_place d (unat key + n * HAMMER2_SEGSIZE)"
proof -
  let ?k = "key + of_nat n * HAMMER2_FREEMAP_LEVEL0_SIZE :: u64"
  have k: "unat ?k = unat key + n * 4194304" using unat_seg_key [OF assms(2,3), of 0] by simp
  have base: "H2FMZONEBASE key = key" by (simp only: H2FMZONEBASE_eq H2FMBASE_aligned [OF assms(2)])
  have key4: "unat (key + 4194304) = unat key + 4194304"
    using unat_seg_key [OF assms(2), of 1 0] by simp
  have "(dv_allocator_beg d + 4194303) AND NOT 4194303 \<le> ?k" "key + 4194304 \<le> ?k"
    using assms(4) by (auto simp: freemap_init_lokey_def Let_def base not_less split: if_splits)
  then have beg: "unat (dv_allocator_beg d) \<le> unat ?k" and "unat key + 4194304 \<le> unat ?k"
    using round_up_segment [of "dv_allocator_beg d"] assms(1) key4
    by (auto simp: dev_geom_def word_le_nat_alt intro: le_trans)
  then have "1 \<le> n" by (simp add: k)
  obtain q where q: "unat key = 2 ^ 30 * q" using assms(2) by (metis mod_0_imp_dvd dvdE)
  have "4194304 \<le> unat ?k mod 2 ^ 31"
    using zone_offset [OF \<open>1 \<le> n\<close> assms(3), of q] by (simp only: k q)
  with beg below_hikey [OF q k assms(3,5)] show ?thesis by (simp only: seg_place_def k)
qed

section \<open>The invariant\<close>

text \<open>The handed-out bytes of the segment at \<open>s\<close>, relative to its start.\<close>

definition seg_bytes :: "nat set \<Rightarrow> nat \<Rightarrow> nat set" where
  "seg_bytes A s = {x. x < HAMMER2_SEGSIZE \<and> s + x \<in> A}"

definition leaf_inv :: "h2dev \<Rightarrow> nat set \<Rightarrow> h2_key \<Rightarrow> leaf \<Rightarrow> bool" where
  "leaf_inv d A k lf \<longleftrightarrow> unat k mod 2 ^ 30 = 0 \<and> length (lf_bmdata lf) = 256 \<and>
     (\<forall>n<256. seg_ok (lf_bmdata lf ! n) (seg_bytes A (unat k + n * HAMMER2_SEGSIZE)) \<and>
        (seg_open (lf_bmdata lf ! n) \<longrightarrow> seg_place d (unat k + n * HAMMER2_SEGSIZE)))"

definition leaf_range :: "h2_key \<Rightarrow> nat set" where
  "leaf_range k = {unat k..<unat k + 2 ^ 30}"

definition dev_inv :: "h2dev \<Rightarrow> nat set \<Rightarrow> bool" where
  "dev_inv d A \<longleftrightarrow> dev_geom d \<and> (\<forall>k lf. dv_fmap d k = Some lf \<longrightarrow> leaf_inv d A k lf) \<and>
     A \<subseteq> (\<Union>k\<in>dom (dv_fmap d). leaf_range k)"

definition same_dev :: "h2dev \<Rightarrow> h2dev \<Rightarrow> bool" where
  "same_dev d d' \<longleftrightarrow> dv_total_size d' = dv_total_size d \<and> dv_allocator_beg d' = dv_allocator_beg d \<and>
     dv_create_error d' = dv_create_error d"

lemma same_dev_refl [simp]: "same_dev d d"
  by (simp add: same_dev_def)

lemma same_dev_trans [trans]: "same_dev a b \<Longrightarrow> same_dev b c \<Longrightarrow> same_dev a c"
  by (simp add: same_dev_def)

lemma leaf_inv_same_dev: "same_dev d d' \<Longrightarrow> leaf_inv d' A k lf = leaf_inv d A k lf"
  by (simp add: leaf_inv_def seg_place_def same_dev_def)

text \<open>Two different aligned leaves do not overlap.\<close>

lemma leaf_range_disjoint:
  assumes "unat k mod 2 ^ 30 = 0" "unat l mod 2 ^ 30 = 0" "x \<in> leaf_range k" "x \<in> leaf_range l"
  shows "k = l"
proof -
  obtain p where p: "unat k = 2 ^ 30 * p" using assms(1) by (metis mod_0_imp_dvd dvdE)
  obtain q where q: "unat l = 2 ^ 30 * q" using assms(2) by (metis mod_0_imp_dvd dvdE)
  from assms(3,4) p q have "2 ^ 30 * p < 2 ^ 30 * (q + 1)" "2 ^ 30 * q < 2 ^ 30 * (p + 1)"
    by (simp_all add: leaf_range_def)
  then have "p < q + 1" "q < p + 1" by (simp_all only: mult_less_cancel1)
  then have "unat k = unat l" by (simp add: p q)
  then show ?thesis by (simp add: word_unat_eq_iff)
qed

lemma seg_bytes_outside:
  assumes "\<And>x. x < HAMMER2_SEGSIZE \<Longrightarrow> s + x \<notin> B"
  shows "seg_bytes (A \<union> B) s = seg_bytes A s"
  using assms by (auto simp: seg_bytes_def)

lemma seg_bytes_inside:
  assumes "off + c \<le> HAMMER2_SEGSIZE"
  shows "seg_bytes (A \<union> {s + off..<s + off + c}) s = seg_bytes A s \<union> {off..<off + c}"
  using assms by (auto simp: seg_bytes_def)

text \<open>A new leaf meets the invariant if nothing of its range was handed out.\<close>

lemma leaf_inv_new:
  assumes "dev_geom d" "unat k mod 2 ^ 30 = 0" "A \<inter> leaf_range k = {}"
  shows "leaf_inv d A k (freemap_leaf_new d k)"
proof -
  have "seg_bytes A (unat k + n * 4194304) = {}" if "n < 256" for n
  proof -
    have "unat k + n * 4194304 + x \<in> leaf_range k" if "x < 4194304" for x
      using that \<open>n < 256\<close> by (simp add: leaf_range_def)
    with assms(3) show ?thesis by (auto simp: seg_bytes_def)
  qed
  then show ?thesis
    using assms(2) fresh_seg_place [OF assms(1,2)] seg_full seg_fresh
    by (simp add: leaf_inv_def freemap_leaf_new_bmdata Let_def del: not_less not_le)
qed

section \<open>One attempt\<close>

text \<open>What a successful allocation of \<open>2 ^ radix\<close> bytes at \<open>key'\<close> guarantees, for the leaf at \<open>k\<close>.\<close>

definition alloc_at :: "h2dev \<Rightarrow> nat set \<Rightarrow> h2_key \<Rightarrow> nat \<Rightarrow> h2_key \<Rightarrow> bool" where
  "alloc_at d A k radix key' \<longleftrightarrow>
     {unat key'..<unat key' + 2 ^ radix} \<subseteq> leaf_range k - A \<and>
     unat (dv_allocator_beg d) \<le> unat key' \<and> unat key' + 2 ^ radix \<le> unat (dv_total_size d) \<and>
     HAMMER2_ZONE_SEG \<le> unat key' mod 2 ^ 31 \<and> HAMMER2_ALLOC_MIN dvd unat key' \<and>
     unat key' mod HAMMER2_PBUFSIZE + 2 ^ radix \<le> HAMMER2_PBUFSIZE"

lemma leaf_inv_update:
  assumes "leaf_inv d A k lf" "n < 256" "off + 2 ^ radix \<le> HAMMER2_SEGSIZE" "seg_place d (unat k + n * HAMMER2_SEGSIZE)"
    and "seg_ok b (seg_bytes A (unat k + n * HAMMER2_SEGSIZE) \<union> {off..<off + 2 ^ radix})"
  shows "leaf_inv d (A \<union> {unat k + n * HAMMER2_SEGSIZE + off..<unat k + n * HAMMER2_SEGSIZE + off + 2 ^ radix}) k
    (lf\<lparr>lf_bmdata := (lf_bmdata lf)[n := b]\<rparr>)"
proof -
  let ?s = "\<lambda>m. unat k + m * 4194304"
  let ?B = "{?s n + off..<?s n + off + 2 ^ radix}"
  have other: "seg_bytes (A \<union> ?B) (?s m) = seg_bytes A (?s m)" if "m \<noteq> n" for m
  proof (rule seg_bytes_outside)
    fix x :: nat
    assume x: "x < 4194304"
    from that have "m + 1 \<le> n \<or> n + 1 \<le> m" by linarith
    then have "(m + 1) * 4194304 \<le> n * 4194304 \<or> (n + 1) * 4194304 \<le> m * 4194304"
      by (metis mult_le_mono1)
    with x assms(3) show "?s m + x \<notin> ?B" by auto
  qed
  have this_seg: "seg_bytes (A \<union> ?B) (?s n) = seg_bytes A (?s n) \<union> {off..<off + 2 ^ radix}"
    using assms(3) by (rule seg_bytes_inside)
  from assms(1,2,4,5) show ?thesis
    by (auto simp: leaf_inv_def nth_list_update other this_seg)
qed


lemma seg_start_arith:
  assumes "unat (k :: u64) mod 2 ^ 30 = 0" "off < HAMMER2_SEGSIZE"
  shows "(unat k + n * HAMMER2_SEGSIZE + off) mod 65536 = off mod 65536"
    "HAMMER2_ALLOC_MIN dvd off \<Longrightarrow> HAMMER2_ALLOC_MIN dvd unat k + n * HAMMER2_SEGSIZE + off"
    "HAMMER2_ZONE_SEG \<le> (unat k + n * HAMMER2_SEGSIZE) mod 2 ^ 31 \<Longrightarrow>
     HAMMER2_ZONE_SEG \<le> (unat k + n * HAMMER2_SEGSIZE + off) mod 2 ^ 31"
proof -
  obtain q where q: "unat k = 2 ^ 30 * q" using assms(1) by (metis mod_0_imp_dvd dvdE)
  have "unat k + n * 4194304 + off = off + 65536 * (16384 * q + 64 * n)" by (simp add: q)
  then show "(unat k + n * 4194304 + off) mod 65536 = off mod 65536" by (simp only: mod_mult_self2)
  have "1024 dvd unat k + n * 4194304"
    by (rule dvdI [of _ _ "1048576 * q + 4096 * n"]) (simp add: q)
  then show "1024 dvd off \<Longrightarrow> 1024 dvd unat k + n * 4194304 + off" by (rule dvd_add)
  assume lo: "4194304 \<le> (unat k + n * 4194304) mod 2 ^ 31"
  let ?t = "(256 * q + n) mod 512"
  have s: "unat k + n * 4194304 = 4194304 * (256 * q + n)" by (simp add: q)
  have "(unat k + n * 4194304) mod 2 ^ 31 = (4194304 * (256 * q + n)) mod (4194304 * 512)"
    unfolding s by simp
  then have m: "(unat k + n * 4194304) mod 2 ^ 31 = 4194304 * ?t"
    by (simp only: mod_mult_mult1)
  have "?t < 512" by simp
  then have "4194304 * (?t + 1) \<le> 4194304 * 512" by (intro mult_le_mono2) simp
  with assms(2) have lt: "4194304 * ?t + off < 2 ^ 31" by simp
  have "(unat k + n * 4194304 + off) mod 2 ^ 31 = (4194304 * ?t + off) mod 2 ^ 31"
    using m by (metis mod_add_left_eq)
  also have "\<dots> = 4194304 * ?t + off" using lt by (rule mod_less)
  finally show "4194304 \<le> (unat k + n * 4194304 + off) mod 2 ^ 31" using lo m by linarith
qed

lemma try_bmap_step:
  assumes inv: "leaf_inv d A k lf" and r: "HAMMER2_RADIX_MIN \<le> radix" "radix \<le> HAMMER2_RADIX_MAX"
    and sk: "sub_key_ok cl sub_key radix"
  obtains (nospc) "freemap_try_bmap d lf cl sub_key radix relaxed k n = Some (HAMMER2_ERROR_ENOSPC, d, lf, k)"
    | (ok) d' lf' key' where "freemap_try_bmap d lf cl sub_key radix relaxed k n = Some (0, d', lf', key')"
      "same_dev d d'" "dv_fmap d' = dv_fmap d" "alloc_at d A k radix key'"
      "leaf_inv d (A \<union> {unat key'..<unat key' + 2 ^ radix}) k lf'"
proof (cases "0 \<le> n \<and> n < 256 \<and> freemap_availchk (lf_bmdata lf ! nat n) radix \<and>
    (bm_class (lf_bmdata lf ! nat n) = 0 \<or> bm_class (lf_bmdata lf ! nat n) = cl \<or> relaxed \<noteq> 0)")
  case False
  show ?thesis
    by (rule nospc) (unfold freemap_try_bmap_def Let_def, rule if_not_P [OF False])
next
  case True
  then obtain m where m: "n = int m" "m < 256" by (metis nonneg_int_cases of_nat_less_numeral_iff)
  let ?b = "lf_bmdata lf ! m" and ?s = "unat k + m * 4194304"
  have seg: "seg_ok ?b (seg_bytes A ?s)" "seg_open ?b \<longrightarrow> seg_place d ?s"
    and k0: "unat k mod 2 ^ 30 = 0" using inv m(2) by (simp_all add: leaf_inv_def)
  then have "hammer2_bmap_alloc d ?b cl sub_key radix (k + of_nat m * 4194304) \<noteq> None"
    using bmap_alloc_Some [OF _ _ sk r(2)] by (simp add: seg_ok_def)
  then obtain e d' b' base' where alloc:
    "hammer2_bmap_alloc d ?b cl sub_key radix (k + of_nat m * 4194304) = Some (e, d', b', base')" by auto
  have tried: "freemap_try_bmap d lf cl sub_key radix relaxed k n =
      Some (e, d', lf\<lparr>lf_bmdata := (lf_bmdata lf)[m := b']\<rparr>, if e \<noteq> HAMMER2_ERROR_ENOSPC then base' else k)"
    using True m alloc by (simp add: freemap_try_bmap_def Let_def)
  from seg(1) r alloc sk show ?thesis
  proof (cases rule: bmap_alloc_seg)
    case nospc
    with tried show ?thesis by (intro that(1)) (simp add: list_update_id)
  next
    case (ok off)
    have "0 < (2::nat) ^ radix" by simp
    with ok(3) have off: "off < 4194304" by linarith
    have place: "seg_place d ?s" using seg(2) ok(8) by simp
    have key: "unat base' = ?s + off" using unat_seg_key [OF k0 m(2) off] ok(2) by simp
    have "?s + off + 2 ^ radix \<le> unat k + 2 ^ 30" using m(2) ok(3) by simp
    moreover have "?s + off + c \<notin> A" if "c < 2 ^ radix" for c
      using ok(3) ok(4) [of "off + c"] that by (simp add: seg_bytes_def add.assoc)
    ultimately have "{unat base'..<unat base' + 2 ^ radix} \<subseteq> leaf_range k - A"
      by (auto simp: key leaf_range_def le_iff_add [of "?s + off"])
    then have at: "alloc_at d A k radix base'"
      using place ok(3,5,6) seg_start_arith [OF k0 off, of m]
      by (simp add: alloc_at_def key seg_place_def)
    show ?thesis
    proof (rule that(2) [of d' "lf\<lparr>lf_bmdata := (lf_bmdata lf)[m := b']\<rparr>" base'])
      show "leaf_inv d (A \<union> {unat base'..<unat base' + 2 ^ radix}) k (lf\<lparr>lf_bmdata := (lf_bmdata lf)[m := b']\<rparr>)"
        unfolding key by (rule leaf_inv_update [OF inv m(2) ok(3) place ok(7)])
    qed (use tried ok at in \<open>simp_all add: same_dev_def\<close>)
  qed
qed


section \<open>The scan of a leaf\<close>

lemma scan_spec:
  assumes "leaf_inv d A k lf" "HAMMER2_RADIX_MIN \<le> radix" "radix \<le> HAMMER2_RADIX_MAX"
    and "sub_key_ok cl sub_key radix"
  shows "freemap_scan d lf cl sub_key radix relaxed k start count = Some (HAMMER2_ERROR_ENOSPC, d, lf, k) \<or>
    (\<exists>d' lf' key'. freemap_scan d lf cl sub_key radix relaxed k start count = Some (0, d', lf', key') \<and>
       same_dev d d' \<and> dv_fmap d' = dv_fmap d \<and> alloc_at d A k radix key' \<and>
       leaf_inv d (A \<union> {unat key'..<unat key' + 2 ^ radix}) k lf')"
    (is "?N count \<or> ?S count")
proof (induction "256 - count" arbitrary: count rule: less_induct)
  case less
  let ?attempt = "freemap_try_bmap d lf cl sub_key radix relaxed k"
  show ?case
  proof (cases "count < 256 \<and> \<not> (256 \<le> start + count \<and> start < count)")
    case False
    have "?N count" by (subst freemap_scan.simps) (rule if_not_P [OF False])
    then show ?thesis ..
  next
    case True
    note unfold = freemap_scan.simps [of d lf cl sub_key radix relaxed k start count]
    from assms show ?thesis
    proof (cases rule: try_bmap_step [where relaxed = relaxed and n = "int start + int count"])
      case fwd: nospc
      from assms show ?thesis
      proof (cases rule: try_bmap_step [where relaxed = relaxed and n = "int start - int count"])
        case nospc
        with True fwd have step: "freemap_scan d lf cl sub_key radix relaxed k start count =
            freemap_scan d lf cl sub_key radix relaxed k start (count + 1)"
          by (simp add: unfold)
        have "256 - (count + 1) < 256 - count" using True by linarith
        from less [OF this] show ?thesis unfolding step .
      next
        case (ok d' lf' key')
        with True fwd show ?thesis by (simp add: unfold)
      qed
    next
      case (ok d' lf' key')
      with True show ?thesis by (simp add: unfold)
    qed
  qed
qed


text \<open>The leaf for an allocation, existing or new.\<close>

lemma get_leaf_cases:
  assumes "dev_inv d A" "freemap_get_leaf d k radix = Some (e, lf)" "unat k mod 2 ^ 30 = 0"
  shows "leaf_inv d A k lf" "e = 0 \<or> e = HAMMER2_ERROR_EIO \<or> e = HAMMER2_ERROR_ENOSPC"
proof -
  have "leaf_inv d A k (freemap_leaf_new d k)" if new: "dv_fmap d k = None"
  proof (rule leaf_inv_new)
    show "A \<inter> leaf_range k = {}"
    proof (rule ccontr)
      assume "A \<inter> leaf_range k \<noteq> {}"
      then obtain x where x: "x \<in> A" "x \<in> leaf_range k" by auto
      with assms(1) obtain l lf where l: "dv_fmap d l = Some lf" "x \<in> leaf_range l"
        by (auto simp: dev_inv_def)
      with assms(1) have "unat l mod 2 ^ 30 = 0" by (simp add: dev_inv_def leaf_inv_def)
      with leaf_range_disjoint [OF assms(3) this x(2) l(2)] l(1) new show False by simp
    qed
  qed (use assms in \<open>simp_all add: dev_inv_def\<close>)
  then show "leaf_inv d A k lf" "e = 0 \<or> e = HAMMER2_ERROR_EIO \<or> e = HAMMER2_ERROR_ENOSPC"
    using assms by (auto simp: freemap_get_leaf_def dev_inv_def kkassert_bind split: option.splits if_splits)
qed

lemma leaf_inv_mono_elsewhere:
  assumes "leaf_inv d A l lf" "unat k mod 2 ^ 30 = 0" "l \<noteq> k" "B \<subseteq> leaf_range k"
  shows "leaf_inv d (A \<union> B) l lf"
proof -
  have l: "unat l mod 2 ^ 30 = 0" using assms(1) by (simp add: leaf_inv_def)
  have "seg_bytes (A \<union> B) (unat l + n * 4194304) = seg_bytes A (unat l + n * 4194304)" if "n < 256" for n
  proof (rule seg_bytes_outside)
    fix x :: nat
    assume "x < 4194304"
    with that have "unat l + n * 4194304 + x \<in> leaf_range l" by (simp add: leaf_range_def)
    with leaf_range_disjoint [OF l assms(2)] assms(3,4) show "unat l + n * 4194304 + x \<notin> B" by blast
  qed
  with assms(1) show ?thesis by (simp add: leaf_inv_def)
qed

lemma dev_inv_update:
  assumes "dev_inv d A" "unat k mod 2 ^ 30 = 0" "B \<subseteq> leaf_range k" "leaf_inv d (A \<union> B) k lf"
    and "same_dev d d'" "dv_fmap d' = (dv_fmap d)(k \<mapsto> lf)"
  shows "dev_inv d' (A \<union> B)"
  unfolding dev_inv_def
proof (intro conjI allI impI)
  show "dev_geom d'" using assms(1,5) by (simp add: dev_inv_def dev_geom_def same_dev_def)
  fix l lf'
  assume "dv_fmap d' l = Some lf'"
  then consider "l = k" "lf' = lf" | "l \<noteq> k" "dv_fmap d l = Some lf'"
    using assms(6) by (auto split: if_splits)
  then show "leaf_inv d' (A \<union> B) l lf'"
  proof cases
    case 2
    then have "leaf_inv d A l lf'" using assms(1) by (simp add: dev_inv_def)
    from leaf_inv_mono_elsewhere [OF this assms(2) 2(1) assms(3)] assms(5) show ?thesis
      by (simp add: leaf_inv_same_dev)
  qed (use assms(4,5) in \<open>simp add: leaf_inv_same_dev\<close>)
next
  show "A \<union> B \<subseteq> (\<Union>k\<in>dom (dv_fmap d'). leaf_range k)"
    using assms(1,3,6) by (auto simp: dev_inv_def)
qed


section \<open>The allocator entry\<close>

lemma H2FMBASE_base: "unat (H2FMBASE k 30) mod 2 ^ 30 = 0"
  by (simp only: unat_H2FMBASE) (metis minus_mod_eq_mult_div mod_mult_self1_is_0)

lemma scan_start:
  "unat (drop_bit 22 (b - H2FMBASE b 30)) < 256"
proof -
  have "H2FMBASE b 30 \<le> b" by (simp add: word_le_nat_alt unat_H2FMBASE)
  then have "unat (b - H2FMBASE b 30) = unat b mod 2 ^ 30"
    by (simp add: unat_sub unat_H2FMBASE)
  then have "unat (drop_bit 22 (b - H2FMBASE b 30)) = unat b mod 2 ^ 30 div 2 ^ 22"
    by (simp only: unat_drop_bit)
  also have "\<dots> < 256" by (rule div_less_iff_less_mult [THEN iffD2]) simp_all
  finally show ?thesis .
qed

lemma leaf_inv_bigmask [simp]: "leaf_inv d A k (lf\<lparr>lf_bigmask := m\<rparr>) = leaf_inv d A k lf"
  by (simp add: leaf_inv_def)

lemma scan_leaf_spec:
  assumes "dev_inv d A" "leaf_inv d A k lf" "k = H2FMBASE (it_bnext it) 30"
    and "HAMMER2_RADIX_MIN \<le> radix" "radix \<le> HAMMER2_RADIX_MAX" "sub_key_ok cl sub_key radix"
  obtains (nospc) d' where "freemap_scan_leaf d lf cl sub_key radix k it = Some (HAMMER2_ERROR_ENOSPC, d', k)"
      "same_dev d d'" "dev_inv d' A"
    | (ok) d' key' where "freemap_scan_leaf d lf cl sub_key radix k it = Some (0, d', key')"
      "same_dev d d'" "alloc_at d A k radix key'" "dev_inv d' (A \<union> {unat key'..<unat key' + 2 ^ radix})"
proof -
  let ?start = "unat (drop_bit 22 (it_bnext it - k))"
  have k: "unat k mod 2 ^ 30 = 0" unfolding assms(3) by (rule H2FMBASE_base)
  have start: "?start < 256" unfolding assms(3) by (rule scan_start)
  define lf0 where "lf0 = (if ?start = 0 \<and> it_relaxed it \<noteq> 0
    then lf\<lparr>lf_bigmask := lf_bigmask lf AND ucast (NOT (push_bit radix 1 :: u64))\<rparr> else lf)"
  from scan_spec [OF assms(2,4-6), of "it_relaxed it" ?start 0] show thesis
  proof (elim disjE exE conjE)
    assume *: "freemap_scan d lf cl sub_key radix (it_relaxed it) k ?start 0 = Some (HAMMER2_ERROR_ENOSPC, d, lf, k)"
    show ?thesis
    proof (rule nospc)
      show "freemap_scan_leaf d lf cl sub_key radix k it =
          Some (HAMMER2_ERROR_ENOSPC, d\<lparr>dv_fmap := (dv_fmap d)(k \<mapsto> lf0)\<rparr>, k)"
        using start * by (simp add: freemap_scan_leaf_def lf0_def kkassert_bind)
      show "dev_inv (d\<lparr>dv_fmap := (dv_fmap d)(k \<mapsto> lf0)\<rparr>) A"
        using dev_inv_update [OF assms(1) k, of "{}" lf0 "d\<lparr>dv_fmap := (dv_fmap d)(k \<mapsto> lf0)\<rparr>"] assms(2)
        by (simp add: same_dev_def lf0_def)
    qed (simp add: same_dev_def)
  next
    fix d1 lf1 key1
    assume *: "freemap_scan d lf cl sub_key radix (it_relaxed it) k ?start 0 = Some (0, d1, lf1, key1)"
      and d1: "same_dev d d1" "dv_fmap d1 = dv_fmap d" and at: "alloc_at d A k radix key1"
      and inv: "leaf_inv d (A \<union> {unat key1..<unat key1 + 2 ^ radix}) k lf1"
    show ?thesis
    proof (rule ok)
      show "freemap_scan_leaf d lf cl sub_key radix k it =
          Some (0, d1\<lparr>dv_fmap := (dv_fmap d1)(k \<mapsto> lf1)\<rparr>, key1)"
        using start * by (simp add: freemap_scan_leaf_def kkassert_bind)
      show "same_dev d (d1\<lparr>dv_fmap := (dv_fmap d1)(k \<mapsto> lf1)\<rparr>)" using d1 by (simp add: same_dev_def)
      then show "dev_inv (d1\<lparr>dv_fmap := (dv_fmap d1)(k \<mapsto> lf1)\<rparr>) (A \<union> {unat key1..<unat key1 + 2 ^ radix})"
        using at d1(2) by (intro dev_inv_update [OF assms(1) k _ inv]) (auto simp: alloc_at_def)
    qed (rule at)
  qed
qed

text \<open>The validity assertions at the end of \<open>hammer2_freemap_try_alloc\<close> hold.\<close>

lemma alloc_at_asserts:
  assumes "alloc_at d A k radix key"
  shows "dv_allocator_beg d \<le> key \<and> key + of_nat (2 ^ radix) \<le> dv_total_size d"
    "HAMMER2_ZONE_SEG \<le> key AND HAMMER2_ZONE_MASK64"
proof -
  have m: "(HAMMER2_ZONE_MASK64 :: u64) = mask 31" by (simp add: mask_eq_exp_minus_1)
  have le: "unat key + 2 ^ radix \<le> unat (dv_total_size d)" using assms by (simp add: alloc_at_def)
  have "unat (dv_total_size d) < 2 ^ LENGTH(64)" by (rule unsigned_less)
  with le have "unat key + 2 ^ radix < 2 ^ 64" by simp
  then have "unat (key + of_nat (2 ^ radix)) = unat key + 2 ^ radix"
    using unat_add_small [of key "of_nat (2 ^ radix)"] of_nat_inverse [OF refl, of "2 ^ radix", where 'a = 64]
    by simp
  with le assms show "dv_allocator_beg d \<le> key \<and> key + of_nat (2 ^ radix) \<le> dv_total_size d"
    by (simp add: alloc_at_def word_le_nat_alt)
  show "HAMMER2_ZONE_SEG \<le> key AND HAMMER2_ZONE_MASK64"
    using assms by (simp only: m word_le_nat_alt unat_and_mask alloc_at_def) simp
qed

lemma dev_inv_log: "dev_inv (log_event e d) A = dev_inv d A"
  by (simp add: dev_inv_def log_event_def dev_geom_def leaf_inv_def seg_place_def)

lemma same_dev_log: "same_dev d d' \<Longrightarrow> same_dev d (log_event e d')"
  by (simp add: same_dev_def log_event_def)

text \<open>What one successful attempt has done: fresh bytes inside the volume, the data offset.\<close>

definition alloc_done :: "h2dev \<Rightarrow> nat set \<Rightarrow> blockref \<Rightarrow> nat \<Rightarrow> h2dev \<Rightarrow> blockref \<Rightarrow> bool" where
  "alloc_done d A bref radix d' bref' \<longleftrightarrow>
     (\<exists>k key. alloc_at d A k radix key \<and> bref' = bref\<lparr>br_data_off := key OR of_nat radix\<rparr> \<and>
        dev_inv d' (A \<union> {unat key..<unat key + 2 ^ radix}))"

lemma try_alloc_spec:
  assumes "dev_inv d A" "HAMMER2_RADIX_MIN \<le> radix" "radix \<le> HAMMER2_RADIX_MAX"
    and "sub_key_ok (freemap_class (br_type bref)) (ucast (br_key bref)) radix"
    and "\<And>k. dv_create_error d k = 0"
  obtains (fail) e d' it' where "hammer2_freemap_try_alloc d bref radix it = Some (e, d', bref, it')"
      "same_dev d d'" "dev_inv d' A"
      "e = HAMMER2_ERROR_EIO \<and> it' = it \<or> (e, it') = hammer2_freemap_iterate d it"
    | (ok) d' bref' where "hammer2_freemap_try_alloc d bref radix it = Some (0, d', bref', it)"
      "same_dev d d'" "alloc_done d A bref radix d' bref'"
proof -
  let ?k = "H2FMBASE (it_bnext it) 30" and ?cl = "freemap_class (br_type bref)"
  have iterate: "hammer2_freemap_iterate d' it = hammer2_freemap_iterate d it" if "same_dev d d'" for d'
    using that by (simp add: hammer2_freemap_iterate_def same_dev_def Let_def)
  have "freemap_get_leaf d ?k radix \<noteq> None"
    using assms(5) by (auto simp: freemap_get_leaf_def kkassert_bind split: option.splits)
  then obtain e lf where get: "freemap_get_leaf d ?k radix = Some (e, lf)" by auto
  note leaf = get_leaf_cases [OF assms(1) get H2FMBASE_base]
  note def = hammer2_freemap_try_alloc_def [of d bref radix it]
  from leaf(2) show thesis
  proof (elim disjE)
    assume "e = HAMMER2_ERROR_EIO"
    then show ?thesis using get assms(1) by (intro fail [of e d it]) (simp_all add: def)
  next
    assume "e = HAMMER2_ERROR_ENOSPC"
    then show ?thesis using get assms(1)
      by (intro fail [of "fst (hammer2_freemap_iterate d it)" d "snd (hammer2_freemap_iterate d it)"])
        (simp_all add: def split: prod.splits)
  next
    assume 3: "e = 0"
    from assms(1) leaf(1) refl assms(2-4) show ?thesis
    proof (cases rule: scan_leaf_spec)
      case (nospc d')
      then show ?thesis using get 3 iterate [OF nospc(2)]
        by (intro fail [of "fst (hammer2_freemap_iterate d it)" d' "snd (hammer2_freemap_iterate d it)"])
          (simp_all add: def split: prod.splits)
    next
      case (ok d' key)
      let ?d = "if br_type bref = BREF_DATA then log_event (IoDedupSet (key OR of_nat radix)) d' else d'"
      let ?b = "bref\<lparr>br_data_off := key OR of_nat radix\<rparr>"
      from ok(3) have "alloc_at d' A ?k radix key" using ok(2) by (simp add: alloc_at_def same_dev_def)
      note asserts = alloc_at_asserts [OF this]
      show ?thesis
      proof (rule that(2) [of ?d ?b])
        show "hammer2_freemap_try_alloc d bref radix it = Some (0, ?d, ?b, it)"
          using get 3 ok(1) asserts by (simp add: def kkassert_bind Let_def)
        show "alloc_done d A bref radix ?d ?b"
          using ok(3,4) by (auto simp: alloc_done_def dev_inv_log)
      qed (use ok(2) in \<open>simp add: same_dev_log\<close>)
    qed
  qed
qed


section \<open>The retry loop ends\<close>

text \<open>The number of times the iteration may still wrap around, and the zones left in this round.\<close>

definition it_wraps :: "fiterate \<Rightarrow> nat" where
  "it_wraps it = (2 - it_loops it) + (if it_relaxed it = 0 then 1 else 0)"

definition it_rank :: "h2dev \<Rightarrow> fiterate \<Rightarrow> nat" where
  "it_rank d it = (let z = unat (dv_total_size d) div 2 ^ 30 + 1
     in it_wraps it * (z + 1) + (z - unat (it_bnext it) div 2 ^ 30))"

lemma next_zone:
  fixes b :: u64
  assumes "unat b \<le> 2 ^ 63"
  shows "unat ((b AND NOT HAMMER2_FREEMAP_LEVEL1_MASK) + HAMMER2_FREEMAP_LEVEL1_SIZE) div 2 ^ 30 =
    unat b div 2 ^ 30 + 1"
proof -
  let ?b = "b AND NOT HAMMER2_FREEMAP_LEVEL1_MASK :: u64"
  have b: "unat ?b = 2 ^ 30 * (unat b div 2 ^ 30)"
    by (simp only: level1_mask_eq unat_and_not_mask minus_mod_eq_mult_div)
  then have "unat ?b \<le> unat b" by simp
  with assms have "unat ?b + 2 ^ 30 < 2 ^ 64" by simp
  then have "unat (?b + HAMMER2_FREEMAP_LEVEL1_SIZE) = 2 ^ 30 * (unat b div 2 ^ 30) + 2 ^ 30"
    using unat_add_small [of ?b HAMMER2_FREEMAP_LEVEL1_SIZE] b by simp
  also have "\<dots> = 2 ^ 30 * (unat b div 2 ^ 30 + 1)" by simp
  finally show ?thesis by (simp only: nonzero_mult_div_cancel_left power_not_zero) simp
qed

lemma iterate_result:
  "fst (hammer2_freemap_iterate d it) = HAMMER2_ERROR_EAGAIN \<or>
   fst (hammer2_freemap_iterate d it) = HAMMER2_ERROR_ENOSPC"
  by (simp add: hammer2_freemap_iterate_def Let_def)

lemma iterate_rank:
  assumes "dev_geom d" "unat (it_bnext it) \<le> unat (dv_total_size d)"
    and "hammer2_freemap_iterate d it = (HAMMER2_ERROR_EAGAIN, it')"
  shows "it_rank d it' < it_rank d it" "unat (it_bnext it') \<le> unat (dv_total_size d)"
proof -
  let ?n = "(it_bnext it AND NOT HAMMER2_FREEMAP_LEVEL1_MASK) + HAMMER2_FREEMAP_LEVEL1_SIZE"
  let ?z = "unat (dv_total_size d) div 2 ^ 30 + 1"
  have b: "unat (it_bnext it) \<le> 2 ^ 63" using assms(1,2) by (simp add: dev_geom_def)
  note zone = next_zone [OF b]
  show "it_rank d it' < it_rank d it"
  proof (cases "dv_total_size d \<le> ?n")
    case False
    then have it': "it' = it\<lparr>it_bnext := ?n\<rparr>"
      using assms(3) by (simp add: hammer2_freemap_iterate_def Let_def)
    from False have "?n \<le> dv_total_size d" by (simp only: not_le less_imp_le)
    then have "unat ?n \<le> unat (dv_total_size d)" by (simp only: word_le_nat_alt)
    then have "unat ?n div 2 ^ 30 \<le> unat (dv_total_size d) div 2 ^ 30" by (rule div_le_mono)
    with zone have "?z - unat ?n div 2 ^ 30 < ?z - unat (it_bnext it) div 2 ^ 30" by linarith
    moreover have "it_wraps it' = it_wraps it" "it_bnext it' = ?n" by (simp_all add: it' it_wraps_def)
    ultimately show ?thesis by (simp only: it_rank_def Let_def add_less_cancel_left)
  next
    case True
    then have "it_bnext it' = 0" "it_wraps it' < it_wraps it"
      using assms(3) by (auto simp: hammer2_freemap_iterate_def Let_def it_wraps_def split: if_splits)
    then have "it_wraps it' * (?z + 1) + (?z + 1) \<le> it_wraps it * (?z + 1)"
      using mult_le_mono1 [of "it_wraps it' + 1" "it_wraps it" "?z + 1"] by simp
    then show ?thesis unfolding it_rank_def Let_def \<open>it_bnext it' = 0\<close> by simp
  qed
  show "unat (it_bnext it') \<le> unat (dv_total_size d)"
    using assms(3) by (auto simp: hammer2_freemap_iterate_def Let_def word_le_nat_alt split: if_splits)
qed

lemma it_rank_fuel:
  assumes "it_loops it = 0"
  shows "it_rank d it < freemap_fuel d"
proof -
  have "it_wraps it \<le> 3" using assms by (simp add: it_wraps_def)
  then have "it_wraps it * (unat (dv_total_size d) div 2 ^ 30 + 1 + 1) \<le>
      3 * (unat (dv_total_size d) div 2 ^ 30 + 1 + 1)" by (rule mult_le_mono1)
  then show ?thesis by (simp add: it_rank_def freemap_fuel_def Let_def)
qed

lemma it_rank_same_dev: "same_dev d d' \<Longrightarrow> it_rank d' it = it_rank d it"
  by (simp add: it_rank_def same_dev_def)

lemma alloc_done_same_dev: "same_dev d d1 \<Longrightarrow> alloc_done d1 A bref radix d' bref' = alloc_done d A bref radix d' bref'"
  by (simp add: alloc_done_def alloc_at_def same_dev_def)

lemma alloc_loop_spec:
  assumes "dev_inv d A" "HAMMER2_RADIX_MIN \<le> radix" "radix \<le> HAMMER2_RADIX_MAX"
    and "sub_key_ok (freemap_class (br_type bref)) (ucast (br_key bref)) radix"
    and "\<And>k. dv_create_error d k = 0"
    and "unat (it_bnext it) \<le> unat (dv_total_size d)" "it_rank d it < fuel"
  shows "\<exists>e d' bref' it'. freemap_alloc_loop fuel HAMMER2_ERROR_EAGAIN d bref radix it = Some (e, d', bref', it') \<and> same_dev d d' \<and>
    (e = 0 \<and> alloc_done d A bref radix d' bref' \<or>
     (e = HAMMER2_ERROR_EIO \<or> e = HAMMER2_ERROR_ENOSPC) \<and> bref' = bref \<and> dev_inv d' A)"
  using assms(1,5-7)
proof (induction fuel arbitrary: d it)
  case (Suc fuel)
  have stop: "freemap_alloc_loop fuel e d' b radix it' = Some (e, d', b, it')"
    if "e \<noteq> HAMMER2_ERROR_EAGAIN" for e d' b it'
    using that by (cases fuel) simp_all
  from Suc.prems(1) assms(2-4) Suc.prems(2) show ?case
  proof (cases rule: try_alloc_spec [where it = it])
    case (ok d' bref')
    then show ?thesis by (simp add: stop)
  next
    case (fail e d' it')
    show ?thesis
    proof (cases "e = HAMMER2_ERROR_EAGAIN")
      case False
      from fail(4) have "e = HAMMER2_ERROR_EIO \<or> e = fst (hammer2_freemap_iterate d it)" by (metis fst_conv)
      with False iterate_result [of d it] have "e = HAMMER2_ERROR_EIO \<or> e = HAMMER2_ERROR_ENOSPC"
        by (elim disjE) simp_all
      with fail False show ?thesis by (simp add: stop)
    next
      case True
      with fail(4) have it: "hammer2_freemap_iterate d it = (HAMMER2_ERROR_EAGAIN, it')" by simp
      have geom: "dev_geom d" using Suc.prems(1) by (simp add: dev_inv_def)
      note rank = iterate_rank [OF geom Suc.prems(3) it]
      have IH: "\<exists>e d'' bref' it''. freemap_alloc_loop fuel HAMMER2_ERROR_EAGAIN d' bref radix it' = Some (e, d'', bref', it'') \<and> same_dev d' d'' \<and>
        (e = 0 \<and> alloc_done d' A bref radix d'' bref' \<or>
         (e = HAMMER2_ERROR_EIO \<or> e = HAMMER2_ERROR_ENOSPC) \<and> bref' = bref \<and> dev_inv d'' A)"
      proof (rule Suc.IH)
        show "it_rank d' it' < fuel" using rank(1) Suc.prems(4) it_rank_same_dev [OF fail(2)] by simp
        show "\<And>k. dv_create_error d' k = 0" using fail(2) Suc.prems(2) by (simp add: same_dev_def)
        show "unat (it_bnext it') \<le> unat (dv_total_size d')" using fail(2) rank(2) by (simp add: same_dev_def)
      qed (rule fail(3))
      then show ?thesis using fail(1) True same_dev_trans [OF fail(2)]
        by (auto simp: alloc_done_same_dev [OF fail(2)])
    qed
  qed
qed simp


section \<open>Properties of the allocator\<close>

lemma freemap_hindex_less: "freemap_hindex type < 32"
proof -
  have "freemap_hindex type = (2 + unat type * 4) mod 32"
    by (simp add: freemap_hindex_def nat_and_31)
  then show ?thesis by simp
qed

lemma dev_inv_heur [simp]:
  "dev_inv (d\<lparr>dv_relaxed := r, dv_heur := h\<rparr>) A = dev_inv d A"
  by (simp add: dev_inv_def dev_geom_def leaf_inv_def seg_place_def)

lemma alloc_spec:
  assumes "dev_inv d A" "HAMMER2_RADIX_MIN \<le> radix" "radix \<le> HAMMER2_RADIX_MAX"
    and "sub_key_ok (freemap_class (br_type bref)) (ucast (br_key bref)) radix"
    and "\<And>k. dv_create_error d k = 0"
    and "br_type bref \<noteq> BREF_FREEMAP_NODE" "br_type bref \<noteq> BREF_FREEMAP_LEAF"
  obtains (ok) d' bref' where "hammer2_freemap_alloc d bref (2 ^ radix) = Some (0, d', bref')"
      "same_dev d d'" "alloc_done d A bref radix d' bref'"
    | (fail) e d' where "hammer2_freemap_alloc d bref (2 ^ radix) = Some (e, d', bref)" "same_dev d d'"
      "e = HAMMER2_ERROR_EIO \<or> e = HAMMER2_ERROR_ENOSPC" "dev_inv d' A"
proof -
  let ?h = "freemap_hindex (br_type bref)"
  define b where "b = (if dv_total_size d < dv_heur d ! ?h then dv_total_size d - 1 else dv_heur d ! ?h)"
  define it where "it = \<lparr>it_bpref = b, it_bnext = b, it_loops = 0, it_relaxed = dv_relaxed d\<rparr>"
  have "0 < dv_total_size d" using assms(1) by (simp add: dev_inv_def dev_geom_def)
  then have "dv_total_size d - 1 \<le> dv_total_size d"
    by (auto simp: word_le_nat_alt unat_minus_one)
  then have "b \<le> dv_total_size d" by (simp add: b_def not_less)
  then have le: "unat (it_bnext it) \<le> unat (dv_total_size d)" by (simp add: it_def word_le_nat_alt)
  have fuel: "it_rank d it < freemap_fuel d" by (rule it_rank_fuel) (simp add: it_def)
  from alloc_loop_spec [OF assms(1-5) le fuel]
  obtain e d' bref' it' where loop:
    "freemap_alloc_loop (freemap_fuel d) HAMMER2_ERROR_EAGAIN d bref radix it = Some (e, d', bref', it')"
    and sd: "same_dev d d'" and res: "e = 0 \<and> alloc_done d A bref radix d' bref' \<or>
     (e = HAMMER2_ERROR_EIO \<or> e = HAMMER2_ERROR_ENOSPC) \<and> bref' = bref \<and> dev_inv d' A" by auto
  have bounds: "(2::nat) ^ 10 \<le> 2 ^ radix" "(2::nat) ^ radix \<le> 2 ^ 16"
    using power_increasing [of 10 radix "2::nat"] power_increasing [of radix 16 "2::nat"] assms(2,3)
    by simp_all
  define d1 where "d1 = d'\<lparr>dv_relaxed := dv_relaxed d' OR it_relaxed it',
    dv_heur := (dv_heur d')[?h := it_bnext it']\<rparr>"
  have run: "hammer2_freemap_alloc d bref (2 ^ radix) = Some (e, d1, bref')"
    using loop assms(6,7) freemap_hindex_less [of "br_type bref"] bounds
    by (simp add: hammer2_freemap_alloc_def getradix_power Let_def kkassert_bind b_def it_def d1_def)
  have sd1: "same_dev d d1" and inv: "dev_inv d1 B = dev_inv d' B" for B
    using sd by (simp_all add: same_dev_def d1_def)
  from res show thesis
  proof (elim disjE conjE)
    assume "e = 0" "alloc_done d A bref radix d' bref'"
    with run sd1 show ?thesis by (intro ok [of d1 bref']) (simp_all add: alloc_done_def inv)
  qed (use run sd1 inv in \<open>auto intro: fail [of e d1]\<close>)
qed

text \<open>The media range a block reference names.\<close>

definition bref_off :: "blockref \<Rightarrow> nat" where
  "bref_off b = unat (br_data_off b AND NOT HAMMER2_OFF_MASK_RADIX)"

definition bref_bytes :: "blockref \<Rightarrow> nat" where
  "bref_bytes b = 2 ^ unat (br_data_off b AND HAMMER2_OFF_MASK_RADIX)"

definition bref_range :: "blockref \<Rightarrow> nat set" where
  "bref_range b = {bref_off b..<bref_off b + bref_bytes b}"

lemma alloc_done_range:
  assumes "alloc_done d A bref radix d' bref'" "radix < 64"
  shows "bref_range bref' \<inter> A = {}" "bref_bytes bref' = 2 ^ radix"
    "unat (dv_allocator_beg d) \<le> bref_off bref'" "bref_off bref' + 2 ^ radix \<le> unat (dv_total_size d)"
    "HAMMER2_ZONE_SEG \<le> bref_off bref' mod 2 ^ 31"
    "bref_off bref' mod HAMMER2_PBUFSIZE + 2 ^ radix \<le> HAMMER2_PBUFSIZE"
    "dev_inv d' (A \<union> bref_range bref')" "bref' = bref\<lparr>br_data_off := br_data_off bref'\<rparr>"
proof -
  from assms(1) obtain k key where at: "alloc_at d A k radix key"
    and b: "bref' = bref\<lparr>br_data_off := key OR of_nat radix\<rparr>"
    and inv: "dev_inv d' (A \<union> {unat key..<unat key + 2 ^ radix})" by (auto simp: alloc_done_def)
  have off: "bref_off bref' = unat key" and bytes: "bref_bytes bref' = 2 ^ radix"
    using or_radix_split [of key radix] at assms(2)
    by (simp_all add: bref_off_def bref_bytes_def b alloc_at_def)
  then have range: "bref_range bref' = {unat key..<unat key + 2 ^ radix}" by (simp add: bref_range_def)
  show "bref_bytes bref' = 2 ^ radix" by (rule bytes)
  show "bref_range bref' \<inter> A = {}" "unat (dv_allocator_beg d) \<le> bref_off bref'"
    "bref_off bref' + 2 ^ radix \<le> unat (dv_total_size d)" "HAMMER2_ZONE_SEG \<le> bref_off bref' mod 2 ^ 31"
    "bref_off bref' mod HAMMER2_PBUFSIZE + 2 ^ radix \<le> HAMMER2_PBUFSIZE"
    using at by (auto simp: alloc_at_def range off)
  show "dev_inv d' (A \<union> bref_range bref')" using inv by (simp add: range)
  show "bref' = bref\<lparr>br_data_off := br_data_off bref'\<rparr>" by (simp add: b)
qed

text \<open>A sequence of allocation requests, keeping the block references of those that succeed.\<close>

fun freemap_alloc_all :: "h2dev \<Rightarrow> (blockref \<times> nat) list \<Rightarrow> (h2dev \<times> blockref list) option" where
  "freemap_alloc_all d [] = Some (d, [])"
| "freemap_alloc_all d ((bref, radix) # reqs) = do {
     (e, d', bref') \<leftarrow> hammer2_freemap_alloc d bref (2 ^ radix);
     (d'', brefs) \<leftarrow> freemap_alloc_all d' reqs;
     Some (d'', if e = 0 then bref' # brefs else brefs)
   }"

definition alloc_request :: "blockref \<times> nat \<Rightarrow> bool" where
  "alloc_request req \<longleftrightarrow> (case req of (bref, radix) \<Rightarrow>
     HAMMER2_RADIX_MIN \<le> radix \<and> radix \<le> HAMMER2_RADIX_MAX \<and>
     sub_key_ok (freemap_class (br_type bref)) (ucast (br_key bref)) radix \<and>
     br_type bref \<noteq> BREF_FREEMAP_NODE \<and> br_type bref \<noteq> BREF_FREEMAP_LEAF)"

lemma alloc_all_spec:
  assumes "dev_inv d A" "\<And>k. dv_create_error d k = 0" "\<forall>req\<in>set reqs. alloc_request req"
  shows "\<exists>d' brefs. freemap_alloc_all d reqs = Some (d', brefs) \<and>
    (\<forall>b\<in>set brefs. bref_range b \<inter> A = {}) \<and>
    sorted_wrt (\<lambda>b c. bref_range b \<inter> bref_range c = {}) brefs \<and>
    dev_inv d' (A \<union> \<Union> (bref_range ` set brefs))"
  using assms
proof (induction reqs arbitrary: d A)
  case (Cons req reqs)
  obtain bref radix where req: "req = (bref, radix)" by force
  have ok: "10 \<le> radix" "radix \<le> 16" "sub_key_ok (freemap_class (br_type bref)) (ucast (br_key bref)) radix"
    "br_type bref \<noteq> BREF_FREEMAP_NODE" "br_type bref \<noteq> BREF_FREEMAP_LEAF"
    using Cons.prems(3) by (simp_all add: req alloc_request_def)
  have rest: "\<forall>req\<in>set reqs. alloc_request req" using Cons.prems(3) by simp
  from Cons.prems(1) ok(1-3) Cons.prems(2) ok(4,5) show ?case
  proof (cases rule: alloc_spec)
    case first: (ok d1 bref')
    have ce: "\<And>k. dv_create_error d1 k = 0" using first(2) Cons.prems(2) by (simp add: same_dev_def)
    have "radix < 64" using ok(2) by simp
    note range = alloc_done_range [OF first(3) this]
    from Cons.IH [OF range(7) ce rest] obtain d' brefs where
      "freemap_alloc_all d1 reqs = Some (d', brefs)"
      "\<forall>b\<in>set brefs. bref_range b \<inter> (A \<union> bref_range bref') = {}"
      "sorted_wrt (\<lambda>b c. bref_range b \<inter> bref_range c = {}) brefs"
      "dev_inv d' (A \<union> bref_range bref' \<union> \<Union> (bref_range ` set brefs))" by blast
    with first(1) range(1) req show ?thesis by (auto simp: Un_assoc)
  next
    case first: (fail e d1)
    then have "e \<noteq> 0" by auto
    have ce: "\<And>k. dv_create_error d1 k = 0" using first(2) Cons.prems(2) by (simp add: same_dev_def)
    from Cons.IH [OF first(4) ce rest] first(1) req \<open>e \<noteq> 0\<close> show ?thesis by auto
  qed
qed simp


text \<open>C1: An allocation of a block of 1KB to 64KB never panics and returns.  When it succeeds, the new
  data offset carries the size radix, and the block shares no byte with any block handed out before,
  lies between the static area and the end of the volume, outside the reserved segment of its zone
  and inside one 64KB device buffer; otherwise the result is \<open>ENOSPC\<close> or \<open>EIO\<close> and the block reference
  is unchanged.  The freemap invariant holds again for the enlarged set of bytes.\<close>

theorem freemap_alloc_correct:
  assumes "dev_inv d A" "HAMMER2_RADIX_MIN \<le> radix" "radix \<le> HAMMER2_RADIX_MAX"
    and "sub_key_ok (freemap_class (br_type bref)) (ucast (br_key bref)) radix"
    and "\<And>k. dv_create_error d k = 0"
    and "br_type bref \<noteq> BREF_FREEMAP_NODE" "br_type bref \<noteq> BREF_FREEMAP_LEAF"
  shows "\<exists>e d' bref'. hammer2_freemap_alloc d bref (2 ^ radix) = Some (e, d', bref') \<and>
    (if e = 0 then
       bref_range bref' \<inter> A = {} \<and> bref_bytes bref' = 2 ^ radix \<and>
       unat (dv_allocator_beg d) \<le> bref_off bref' \<and>
       bref_off bref' + 2 ^ radix \<le> unat (dv_total_size d) \<and>
       HAMMER2_ZONE_SEG \<le> bref_off bref' mod 2 ^ 31 \<and>
       bref_off bref' mod HAMMER2_PBUFSIZE + 2 ^ radix \<le> HAMMER2_PBUFSIZE \<and>
       bref' = bref\<lparr>br_data_off := br_data_off bref'\<rparr> \<and> dev_inv d' (A \<union> bref_range bref')
     else (e = HAMMER2_ERROR_EIO \<or> e = HAMMER2_ERROR_ENOSPC) \<and> bref' = bref \<and> dev_inv d' A)"
  using assms
proof (cases rule: alloc_spec)
  case (ok d' bref')
  have "radix < 64" using assms(3) by simp
  with ok alloc_done_range [OF ok(3)] show ?thesis by (intro exI [of _ 0] exI [of _ d'] exI [of _ bref']) simp
next
  case (fail e d')
  then show ?thesis by (intro exI [of _ e] exI [of _ d'] exI [of _ bref]) auto
qed

text \<open>A file data block at logical offset 64KB.\<close>

definition sample_bref :: blockref where
  "sample_bref = bref_zero\<lparr>br_type := BREF_DATA, br_keybits := 16, br_key := 0x10000\<rparr>"

lemma sample_dev_inv: "dev_inv sample_dev {}" "dv_create_error sample_dev k = 0"
  by (simp_all add: dev_inv_def sample_dev_def dev_geom_def)

lemma sample_bref_facts:
  "sub_key_ok (freemap_class (br_type sample_bref)) (ucast (br_key sample_bref)) 16"
  "br_type sample_bref \<noteq> BREF_FREEMAP_NODE" "br_type sample_bref \<noteq> BREF_FREEMAP_LEAF"
  by (simp_all add: sample_bref_def bref_zero_def sub_key_ok_def)

theorem freemap_alloc_correct_witness:
  "\<exists>e d' bref'. hammer2_freemap_alloc sample_dev sample_bref 65536 = Some (e, d', bref') \<and>
     (e = 0 \<longrightarrow> 0x800000 \<le> bref_off bref' \<and> bref_off bref' + 65536 \<le> 0x100000000)"
proof -
  have pow: "(2::nat) ^ 16 = 65536" by simp
  have dev: "unat (dv_allocator_beg sample_dev) = 0x800000" "unat (dv_total_size sample_dev) = 0x100000000"
    by (simp_all add: sample_dev_def)
  from freemap_alloc_correct [OF sample_dev_inv(1) _ _ sample_bref_facts(1) sample_dev_inv(2) sample_bref_facts(2,3)]
  show ?thesis unfolding dev pow by (auto split: if_splits)
qed

text \<open>C2: On a device whose freemap has not been built yet, any sequence of allocation requests runs
  without a panic, and the blocks of the requests that succeed are pairwise disjoint.\<close>

theorem freemap_alloc_all_disjoint:
  assumes "dev_geom d" "dv_fmap d = Map.empty" "\<And>k. dv_create_error d k = 0"
    and "\<forall>req\<in>set reqs. alloc_request req"
  shows "\<exists>d' brefs. freemap_alloc_all d reqs = Some (d', brefs) \<and>
    sorted_wrt (\<lambda>b c. bref_range b \<inter> bref_range c = {}) brefs \<and>
    dev_inv d' (\<Union> (bref_range ` set brefs))"
proof -
  have "dev_inv d {}" using assms(1,2) by (simp add: dev_inv_def)
  from alloc_all_spec [OF this assms(3,4)] show ?thesis by auto
qed

theorem freemap_alloc_all_disjoint_witness:
  "\<exists>d' brefs. freemap_alloc_all sample_dev [(sample_bref, 16), (sample_bref, 10), (sample_bref, 14)] = Some (d', brefs) \<and>
    sorted_wrt (\<lambda>b c. bref_range b \<inter> bref_range c = {}) brefs"
proof -
  have "\<forall>req\<in>set [(sample_bref, 16), (sample_bref, 10), (sample_bref, 14)]. alloc_request req"
    by (simp add: alloc_request_def sample_bref_def bref_zero_def sub_key_ok_def)
  from freemap_alloc_all_disjoint [OF _ _ _ this, of sample_dev] show ?thesis
    by (auto simp: sample_dev_def dev_geom_def)
qed


end
