(* ===== verification/H2_Adjust.thy ===== *)
theory H2_Adjust
  imports H2_Device
begin

text \<open>
  What \<open>hammer2_freemap_adjust\<close>, the on-mount recovery, does to the bitmap: which slots become
  allocated, and the accounting.  The slots it marks are the right ones for a block in the lower
  half of a bitmap element only.
\<close>

section \<open>The loop of hammer2_freemap_adjust\<close>

lemma push_3_neq_0: "a < 32 \<Longrightarrow> (push_bit (2 * a) 3 :: u64) \<noteq> 0"
proof -
  assume "a < 32"
  then have "bit (push_bit (2 * a) 3 :: u64) (2 * a)" by (simp add: bit_push_bit_iff bit_numeral_rec)
  then show ?thesis by auto
qed

lemma and_3_eq_3_iff:
  assumes "i < 32"
  shows "(w AND push_bit (2 * i) 3 :: u64) = push_bit (2 * i) 3 \<longleftrightarrow> slot_state w i = BAlloc"
proof -
  have "(w AND push_bit (2 * i) 3 :: u64) = push_bit (2 * i) 3 \<longleftrightarrow>
    (\<forall>b. 2 * i \<le> b \<and> b < 2 * i + 2 \<longrightarrow> bit w b)"
  proof (intro iffI allI impI)
    fix b
    assume eq: "(w AND push_bit (2 * i) 3 :: u64) = push_bit (2 * i) 3" and b: "2 * i \<le> b \<and> b < 2 * i + 2"
    have "bit (w AND runmask (2 * i) 2) b = bit (runmask (2 * i) 2 :: u64) b"
      using eq by (simp only: runmask_2_eq)
    then show "bit w b" using b assms by (simp add: bit_and_iff bit_runmask)
  next
    assume all: "\<forall>b. 2 * i \<le> b \<and> b < 2 * i + 2 \<longrightarrow> bit w b"
    show "(w AND push_bit (2 * i) 3 :: u64) = push_bit (2 * i) 3"
      unfolding runmask_2_eq [symmetric]
      by (rule bit_word_eqI) (use all in \<open>auto simp: bit_and_iff bit_runmask\<close>)
  qed
  also have "\<dots> \<longleftrightarrow> bit w (2 * i + 1) \<and> bit w (2 * i)"
    by (auto simp: less_Suc_eq numeral_2_eq_2 le_Suc_eq dest: le_antisym)
  finally show ?thesis by simp
qed

lemma free_slots_or_3:
  assumes "a < 32"
  shows "free_slots (w OR push_bit (2 * a) 3) + (if slot_state w a = BFree then 1 else 0) = free_slots w"
proof (cases "slot_state w a = BFree")
  case True
  then have "w AND runmask (2 * a) (2 * 1) = 0"
    using assms and_3_eq_0_iff [of a w] by (simp add: runmask_2_eq)
  from free_slots_run [OF _ this] assms True show ?thesis by (simp add: runmask_2_eq)
next
  case False
  have "free_slots (w OR push_bit (2 * a) 3) = free_slots w"
    by (rule free_slots_cong) (use False in \<open>auto simp: slot_or_3 simp del: slot_state_iff\<close>)
  with False show ?thesis by simp
qed

text \<open>Marking one block allocated.\<close>

definition adjust_block :: "nat \<Rightarrow> nat \<Rightarrow> u16 \<Rightarrow> bmap_data \<Rightarrow> bmap_data" where
  "adjust_block i a class b =
     b\<lparr>bm_avail := (if slot_state (bm_bitmapq b ! i) a = BFree then bm_avail b - HAMMER2_FREEMAP_BLOCK_SIZE
                    else bm_avail b),
       bm_class := (if bm_class b = 0 then class else bm_class b),
       bm_bitmapq := (bm_bitmapq b)[i := bm_bitmapq b ! i OR push_bit (2 * a) 3]\<rparr>"

lemma adjust_block_facts:
  assumes "wf_bmap b" "i < 8" "a < 32"
  shows "wf_bmap (adjust_block i a cl b)"
    "n < 256 \<Longrightarrow> bslot (bm_bitmapq (adjust_block i a cl b)) n =
       (if n = 32 * i + a then BAlloc else bslot (bm_bitmapq b) n)"
    "bmap_free (bm_bitmapq (adjust_block i a cl b)) + (if slot_state (bm_bitmapq b ! i) a = BFree then 1 else 0) =
       bmap_free (bm_bitmapq b)"
    "avail_exact b \<Longrightarrow> avail_exact (adjust_block i a cl b)"
proof -
  have len: "length (bm_bitmapq b) = 8" using assms(1) by (simp add: wf_bmap_def)
  show "wf_bmap (adjust_block i a cl b)" by (simp add: adjust_block_def wf_bmap_def len)
  show "n < 256 \<Longrightarrow> bslot (bm_bitmapq (adjust_block i a cl b)) n =
       (if n = 32 * i + a then BAlloc else bslot (bm_bitmapq b) n)"
  proof -
    assume n: "n < 256"
    have "n = 32 * i + a \<longleftrightarrow> n div 32 = i \<and> n mod 32 = a" using assms(3) by auto
    then show ?thesis
      using n len assms(2) by (auto simp: adjust_block_def bslot_def nth_list_update slot_or_3 simp del: slot_state_iff)
  qed
  show free: "bmap_free (bm_bitmapq (adjust_block i a cl b)) + (if slot_state (bm_bitmapq b ! i) a = BFree then 1 else 0) =
       bmap_free (bm_bitmapq b)"
    using bmap_free_update [of i "bm_bitmapq b" "bm_bitmapq b ! i OR push_bit (2 * a) 3"] assms(2) len
      free_slots_or_3 [OF assms(3), of "bm_bitmapq b ! i"]
    by (simp add: adjust_block_def)
  assume ex: "avail_exact b"
  show "avail_exact (adjust_block i a cl b)"
  proof (cases "slot_state (bm_bitmapq b ! i) a = BFree")
    case True
    with free ex have sum: "16384 * bmap_free (bm_bitmapq (adjust_block i a cl b)) + 16384 = unat (bm_avail b)"
      by (simp add: avail_exact_def)
    then have "unat (bm_avail b - 16384) = unat (bm_avail b) - 16384"
      by (subst unat_sub) (simp_all add: word_le_nat_alt)
    moreover have "bm_avail (adjust_block i a cl b) = bm_avail b - 16384"
      using True by (simp add: adjust_block_def)
    ultimately show ?thesis using sum by (simp add: avail_exact_def)
  next
    case False
    then have "bm_avail (adjust_block i a cl b) = bm_avail b" by (simp add: adjust_block_def)
    moreover have "bmap_free (bm_bitmapq (adjust_block i a cl b)) = bmap_free (bm_bitmapq b)"
      using free by (simp only: False if_False add_0_right)
    ultimately show ?thesis using ex by (simp only: avail_exact_def)
  qed
qed

lemma adjust_loop_0: "freemap_adjust_loop i 0 m cl modi b bg = Some (modi, b, bg)"
  by (simp add: freemap_adjust_loop.simps)

lemma adjust_loop_Suc:
  assumes "a < 32"
  shows "freemap_adjust_loop i (Suc count) (push_bit (2 * a) 3) cl modi b bg =
    (if slot_state (bm_bitmapq b ! i) a = BAlloc
     then freemap_adjust_loop i count (push_bit (2 * Suc a) 3) cl modi b bg
     else if \<not> modi then freemap_adjust_loop i (Suc count) (push_bit (2 * a) 3) cl True (b\<lparr>bm_linear := 0\<rparr>) bg
     else freemap_adjust_loop i count (push_bit (2 * Suc a) 3) cl True (adjust_block i a cl b)
       (if slot_state (bm_bitmapq b ! i) a = BFree then bg + HAMMER2_FREEMAP_BLOCK_SIZE else bg))"
proof -
  have push: "push_bit 2 (push_bit (2 * a) 3 :: u64) = push_bit (2 * Suc a) 3" by simp
  show ?thesis
    by (subst freemap_adjust_loop.simps)
      (simp add: kkassert_bind push_3_neq_0 [OF assms] and_3_eq_3_iff [OF assms] and_3_eq_0_iff [OF assms]
        adjust_block_def push Let_def del: slot_state_iff push_bit_push_bit)
qed


lemma adjust_loop_Suc':
  assumes "a < 32"
  shows "freemap_adjust_loop i (Suc count) (push_bit (2 * a) 3) cl modi b bg =
    (if slot_state (bm_bitmapq b ! i) a = BAlloc
     then freemap_adjust_loop i count (push_bit (2 * Suc a) 3) cl modi b bg
     else freemap_adjust_loop i count (push_bit (2 * Suc a) 3) cl True
       (adjust_block i a cl (if modi then b else b\<lparr>bm_linear := 0\<rparr>))
       (if slot_state (bm_bitmapq b ! i) a = BFree then bg + HAMMER2_FREEMAP_BLOCK_SIZE else bg))"
  by (simp add: adjust_loop_Suc [OF assms] del: slot_state_iff)

text \<open>The blocks \<open>a\<close>, \<open>a + 1\<close>, ... of element \<open>i\<close> have become allocated, nothing else has changed, and
  the charge is 16KB for every block that was free.\<close>

definition adjusted :: "nat \<Rightarrow> nat \<Rightarrow> nat \<Rightarrow> bmap_data \<Rightarrow> nat \<Rightarrow> bmap_data \<Rightarrow> nat \<Rightarrow> bool" where
  "adjusted i a count b bg b' bg' \<longleftrightarrow>
     wf_bmap b' \<and> (avail_exact b \<longrightarrow> avail_exact b') \<and>
     (\<forall>n<256. bslot (bm_bitmapq b') n =
        (if 32 * i + a \<le> n \<and> n < 32 * i + a + count then BAlloc else bslot (bm_bitmapq b) n)) \<and>
     16384 * bmap_free (bm_bitmapq b') + bg' = 16384 * bmap_free (bm_bitmapq b) + bg"

lemma adjusted_0: "wf_bmap b \<Longrightarrow> adjusted i a 0 b bg b bg"
  by (auto simp: adjusted_def simp del: slot_state_iff)

lemma adjusted_skip:
  assumes "adjusted i (Suc a) count b bg b' bg'" "slot_state (bm_bitmapq b ! i) a = BAlloc" "a < 32"
  shows "adjusted i a (Suc count) b bg b' bg'"
proof -
  have "bslot (bm_bitmapq b) (32 * i + a) = BAlloc" using assms(2,3) by (simp only: bslot_index)
  moreover have "32 * i + a \<le> n \<and> n < 32 * i + a + Suc count \<longleftrightarrow>
      n = 32 * i + a \<or> 32 * i + Suc a \<le> n \<and> n < 32 * i + Suc a + count" for n by auto
  ultimately show ?thesis using assms(1) by (auto simp: adjusted_def)
qed

lemma adjusted_block:
  assumes "adjusted i (Suc a) count (adjust_block i a cl b)
      (if slot_state (bm_bitmapq b ! i) a = BFree then bg + HAMMER2_FREEMAP_BLOCK_SIZE else bg) b' bg'"
    and "wf_bmap b" "i < 8" "a < 32"
  shows "adjusted i a (Suc count) b bg b' bg'"
proof -
  note facts = adjust_block_facts [OF assms(2-4), where cl = cl]
  have "32 * i + a \<le> n \<and> n < 32 * i + a + Suc count \<longleftrightarrow>
      n = 32 * i + a \<or> 32 * i + Suc a \<le> n \<and> n < 32 * i + Suc a + count" for n by auto
  with assms(1) facts(2) have slots: "\<forall>n<256. bslot (bm_bitmapq b') n =
      (if 32 * i + a \<le> n \<and> n < 32 * i + a + Suc count then BAlloc else bslot (bm_bitmapq b) n)"
    by (auto simp: adjusted_def)
  have "16384 * bmap_free (bm_bitmapq b') + bg' = 16384 * bmap_free (bm_bitmapq b) + bg"
    using assms(1) facts(3) by (cases "slot_state (bm_bitmapq b ! i) a = BFree")
      (simp_all add: adjusted_def algebra_simps del: slot_state_iff)
  with slots assms(1) facts(4) show ?thesis by (simp add: adjusted_def)
qed

lemma adjusted_linear: "adjusted i a count (b\<lparr>bm_linear := l\<rparr>) bg b' bg' = adjusted i a count b bg b' bg'"
  by (simp add: adjusted_def avail_exact_def)

lemma adjust_loop_spec:
  assumes "wf_bmap b" "i < 8" "a + count \<le> 32"
  shows "\<exists>modi' b' bg'. freemap_adjust_loop i count (push_bit (2 * a) 3) cl modi b bg = Some (modi', b', bg') \<and>
    adjusted i a count b bg b' bg'"
  using assms(1,3)
proof (induction count arbitrary: a b bg modi)
  case 0
  then show ?case by (simp add: adjust_loop_0 adjusted_0)
next
  case (Suc count)
  then have a: "a < 32" "Suc a + count \<le> 32" by simp_all
  show ?case
  proof (cases "slot_state (bm_bitmapq b ! i) a = BAlloc")
    case True
    from Suc.IH [OF Suc.prems(1) a(2), of modi bg] adjusted_skip [OF _ True a(1)] show ?thesis
      unfolding adjust_loop_Suc' [OF a(1)] if_P [OF True] by blast
  next
    case False
    let ?b = "if modi then b else b\<lparr>bm_linear := 0\<rparr>"
    let ?bg = "if slot_state (bm_bitmapq b ! i) a = BFree then bg + HAMMER2_FREEMAP_BLOCK_SIZE else bg"
    have wf: "wf_bmap ?b" and q: "bm_bitmapq ?b = bm_bitmapq b" using Suc.prems(1) by (simp_all add: wf_bmap_def)
    from Suc.IH [OF adjust_block_facts(1) [OF wf assms(2) a(1), of cl] a(2), of True ?bg]
    obtain modi' b' bg' where
      "freemap_adjust_loop i count (push_bit (2 * Suc a) 3) cl True (adjust_block i a cl ?b) ?bg = Some (modi', b', bg')"
      and adj: "adjusted i (Suc a) count (adjust_block i a cl ?b) ?bg b' bg'" by blast
    moreover have "adjusted i a (Suc count) ?b bg b' bg'"
      by (rule adjusted_block [OF _ wf assms(2) a(1)]) (use adj in \<open>simp only: q\<close>)
    then have "adjusted i a (Suc count) b bg b' bg'" by (cases modi) (simp_all add: adjusted_linear)
    ultimately show ?thesis unfolding adjust_loop_Suc' [OF a(1)] if_not_P [OF False] by blast
  qed
qed


section \<open>hammer2_freemap_adjust\<close>

text \<open>The segment of the leaf and the block of the segment a media offset lies in.\<close>

definition off_segment :: "nat \<Rightarrow> nat" where
  "off_segment off = off div HAMMER2_SEGSIZE mod 256"

definition off_block :: "nat \<Rightarrow> nat" where
  "off_block off = off div HAMMER2_FREEMAP_BLOCK_SIZE mod 256"

lemma adjust_indices:
  fixes w :: u64
  shows "unat (drop_bit 22 w) AND 255 = off_segment (unat w)"
    "unat (drop_bit 19 w) AND 7 = off_block (unat w) div 32"
    "unat (drop_bit 14 w) AND 15 = off_block (unat w) mod 16"
proof -
  have m: "(255 :: nat) = mask 8" "(7 :: nat) = mask 3" "(15 :: nat) = mask 4"
    by (simp_all add: mask_eq_exp_minus_1)
  show "unat (drop_bit 22 w) AND 255 = off_segment (unat w)"
    unfolding m nat_and_mask unat_drop_bit by (simp add: off_segment_def)
  have "unat w div 16384 mod 256 div 32 = unat w div 16384 div 32 mod 8"
    using mod_mult2_eq [of "unat w div 16384" 32 8] by simp
  then show "unat (drop_bit 19 w) AND 7 = off_block (unat w) div 32"
    unfolding m nat_and_mask unat_drop_bit by (simp add: off_block_def flip: div_mult2_eq)
  show "unat (drop_bit 14 w) AND 15 = off_block (unat w) mod 16"
    unfolding m nat_and_mask unat_drop_bit by (simp add: off_block_def mod_mod_cancel)
qed

text \<open>The first block that is marked: bit 4 of the block number is lost by the mask 15.\<close>

definition adjust_start :: "nat \<Rightarrow> nat" where
  "adjust_start off = off_block off div 32 * 32 + off_block off mod 16"

lemma adjust_spec:
  fixes bref :: blockref
  defines "off \<equiv> br_data_off bref AND NOT HAMMER2_OFF_MASK_RADIX"
    and "radix \<equiv> unat (br_data_off bref AND HAMMER2_OFF_MASK_RADIX)"
  assumes "radix \<noteq> 0" "radix \<le> HAMMER2_RADIX_MAX" "dv_allocator_beg d \<le> off"
    and "HAMMER2_ZONE_SEG \<le> off AND HAMMER2_ZONE_MASK64"
    and leaf: "dv_fmap d (H2FMBASE off 30) = Some lf" "lf_error lf = 0"
    and wf: "wf_bmap (lf_bmdata lf ! off_segment (unat off))"
  shows "\<exists>d' lf' b' bg. hammer2_freemap_adjust d bref = Some d' \<and>
    dv_fmap d' = (dv_fmap d)(H2FMBASE off 30 \<mapsto> lf') \<and>
    lf_bmdata lf' = (lf_bmdata lf)[off_segment (unat off) := b'] \<and>
    adjusted (off_block (unat off) div 32) (off_block (unat off) mod 16) (blocks_of radix)
      (lf_bmdata lf ! off_segment (unat off)) 0 b' bg \<and>
    dv_allocator_free d' = dv_allocator_free d - of_nat bg"
proof -
  let ?i = "off_block (unat off) div 32" and ?a = "off_block (unat off) mod 16"
  let ?b = "lf_bmdata lf ! off_segment (unat off)"
  have i: "?i < 8" by (simp add: off_block_def div_less_iff_less_mult)
  have "blocks_of radix \<le> 4"
    using power_increasing [of "radix - 14" 2 "2::nat"] assms(4) by (auto simp: blocks_of_def)
  moreover have "?a < 16" by simp
  ultimately have fit: "?a + blocks_of radix \<le> 32" by linarith
  have count: "(if radix < 14 then 1 else 2 ^ (radix - 14)) = blocks_of radix"
    by (auto simp: blocks_of_def)
  obtain modi b' bg where loop: "freemap_adjust_loop ?i (blocks_of radix) (push_bit (2 * ?a) 3)
      (freemap_class (br_type bref)) False ?b 0 = Some (modi, b', bg)"
    and adj: "adjusted ?i ?a (blocks_of radix) ?b 0 b' bg"
    using adjust_loop_spec [OF wf i fit] by blast
  let ?lf = "lf\<lparr>lf_bmdata := (lf_bmdata lf)[off_segment (unat off) := b'], lf_bigmask := (if modi then - 1 else lf_bigmask lf)\<rparr>"
  let ?d = "voldata_sub_free bg (d\<lparr>dv_fmap := (dv_fmap d)(H2FMBASE off 30 \<mapsto> ?lf),
    dv_relaxed := (if modi then 0 else dv_relaxed d)\<rparr>)"
  have "hammer2_freemap_adjust d bref = Some ?d"
    using assms(3-6) leaf loop
    unfolding hammer2_freemap_adjust_def off_def [symmetric] radix_def [symmetric]
    by (simp add: Let_def kkassert_bind adjust_indices count mult.commute not_less)
  moreover have "dv_fmap ?d = (dv_fmap d)(H2FMBASE off 30 \<mapsto> ?lf)"
    "dv_allocator_free ?d = dv_allocator_free d - of_nat bg"
    by (simp_all add: voldata_sub_free_def log_event_def)
  ultimately show ?thesis using adj by (intro exI [of _ ?d] exI [of _ ?lf]) auto
qed


text \<open>C7: Recovery of a block that lies in the lower half (the first 256KB) of its 512KB bitmap
  element marks exactly the 16KB blocks of the reference as allocated, changes no other slot of the
  freemap leaf, keeps \<open>avail\<close> equal to the free space and charges \<open>allocator_free\<close> 16KB for every block
  that was free.\<close>

theorem freemap_adjust_marks:
  fixes bref :: blockref
  defines "off \<equiv> br_data_off bref AND NOT HAMMER2_OFF_MASK_RADIX"
    and "radix \<equiv> unat (br_data_off bref AND HAMMER2_OFF_MASK_RADIX)"
  assumes "radix \<noteq> 0" "radix \<le> HAMMER2_RADIX_MAX" "dv_allocator_beg d \<le> off"
    and "HAMMER2_ZONE_SEG \<le> off AND HAMMER2_ZONE_MASK64"
    and "dv_fmap d (H2FMBASE off 30) = Some lf" "lf_error lf = 0"
    and "wf_bmap (lf_bmdata lf ! off_segment (unat off))" "avail_exact (lf_bmdata lf ! off_segment (unat off))"
    and lower: "off_block (unat off) mod 32 < 16"
  shows "\<exists>d' lf' b' bg. hammer2_freemap_adjust d bref = Some d' \<and>
    dv_fmap d' = (dv_fmap d)(H2FMBASE off 30 \<mapsto> lf') \<and>
    lf_bmdata lf' = (lf_bmdata lf)[off_segment (unat off) := b'] \<and> avail_exact b' \<and>
    (\<forall>n<256. bslot (bm_bitmapq b') n =
       (if off_block (unat off) \<le> n \<and> n < off_block (unat off) + blocks_of radix then BAlloc
        else bslot (bm_bitmapq (lf_bmdata lf ! off_segment (unat off))) n)) \<and>
    dv_allocator_free d' = dv_allocator_free d - of_nat bg \<and>
    16384 * bmap_free (bm_bitmapq b') + bg = 16384 * bmap_free (bm_bitmapq (lf_bmdata lf ! off_segment (unat off)))"
proof -
  let ?k = "off_block (unat off)"
  have "?k mod 32 mod 16 = ?k mod 16" by (rule mod_mod_cancel) simp
  with lower have "?k mod 16 = ?k mod 32" by simp
  then have start: "32 * (?k div 32) + ?k mod 16 = ?k" by simp
  from adjust_spec [of bref d lf, folded off_def radix_def, OF assms(3-9)] obtain d' lf' b' bg where
    run: "hammer2_freemap_adjust d bref = Some d'" "dv_fmap d' = (dv_fmap d)(H2FMBASE off 30 \<mapsto> lf')"
      "lf_bmdata lf' = (lf_bmdata lf)[off_segment (unat off) := b']"
      "dv_allocator_free d' = dv_allocator_free d - of_nat bg"
    and adj: "adjusted (?k div 32) (?k mod 16) (blocks_of radix) (lf_bmdata lf ! off_segment (unat off)) 0 b' bg"
    by blast
  from adj assms(10) have facts: "avail_exact b'"
    "\<forall>n<256. bslot (bm_bitmapq b') n = (if ?k \<le> n \<and> n < ?k + blocks_of radix then BAlloc
        else bslot (bm_bitmapq (lf_bmdata lf ! off_segment (unat off))) n)"
    "16384 * bmap_free (bm_bitmapq b') + bg = 16384 * bmap_free (bm_bitmapq (lf_bmdata lf ! off_segment (unat off)))"
    unfolding adjusted_def start by simp_all
  show ?thesis using run facts by (intro exI conjI)
qed

text \<open>A device with one leaf whose bitmaps are all free.\<close>

definition sample_leaf :: leaf where
  "sample_leaf = \<lparr>lf_bigmask = - 1, lf_avail = HAMMER2_FREEMAP_LEVEL1_SIZE, lf_error = 0,
     lf_bmdata = replicate 256 bmap_fresh\<rparr>"

definition sample_dev_leaf :: h2dev where
  "sample_dev_leaf = sample_dev\<lparr>dv_fmap := [0 \<mapsto> sample_leaf]\<rparr>"

lemma sample_leaf_bmap:
  "n < 256 \<Longrightarrow> lf_bmdata sample_leaf ! n = bmap_fresh" "wf_bmap bmap_fresh" "avail_exact bmap_fresh"
  using seg_fresh by (simp_all add: sample_leaf_def seg_ok_def)

theorem freemap_adjust_marks_witness:
  "\<exists>d' lf'. hammer2_freemap_adjust sample_dev_leaf (sample_bref\<lparr>br_data_off := 0x810000 OR 16\<rparr>) = Some d' \<and>
     dv_fmap d' 0 = Some lf' \<and> bslot (bm_bitmapq (lf_bmdata lf' ! 2)) 7 = BAlloc"
proof -
  have off: "br_data_off (sample_bref\<lparr>br_data_off := 0x810000 OR 16\<rparr>) AND NOT 63 = 0x810000"
    "unat (br_data_off (sample_bref\<lparr>br_data_off := 0x810000 OR 16\<rparr>) AND 63) = 16"
    "H2FMBASE 0x810000 30 = 0" "unat (0x810000 :: u64) = 0x810000"
    "off_segment 0x810000 = 2" "off_block 0x810000 = 4"
    by (simp_all add: H2FMBASE_def rounddown2_def off_segment_def off_block_def)
  have dev: "dv_allocator_beg sample_dev_leaf = 0x800000" "dv_fmap sample_dev_leaf 0 = Some sample_leaf"
    "lf_error sample_leaf = 0" "length (lf_bmdata sample_leaf) = 256"
    by (simp_all add: sample_dev_leaf_def sample_dev_def sample_leaf_def)
  have blk: "blocks_of 16 = 4" by (simp add: blocks_of_def)
  from freemap_adjust_marks [where bref = "sample_bref\<lparr>br_data_off := 0x810000 OR 16\<rparr>" and d = sample_dev_leaf
      and lf = sample_leaf, unfolded off blk, OF _ _ _ _ dev(2,3)]
  obtain d' lf' b' where
    "hammer2_freemap_adjust sample_dev_leaf (sample_bref\<lparr>br_data_off := 0x810000 OR 16\<rparr>) = Some d'"
    "dv_fmap d' = (dv_fmap sample_dev_leaf)(0 \<mapsto> lf')" "lf_bmdata lf' = (lf_bmdata sample_leaf)[2 := b']"
    "\<forall>n<256. bslot (bm_bitmapq b') n = (if 4 \<le> n \<and> n < 4 + 4 then BAlloc
       else bslot (bm_bitmapq (lf_bmdata sample_leaf ! 2)) n)"
    using dev(1) sample_leaf_bmap by auto
  then show ?thesis using dev(4) by (intro exI [of _ d'] exI [of _ lf']) (simp del: slot_state_iff)
qed

text \<open>C8: For a block in the upper half of its bitmap element, the mask 15 in the computation of the
  bit position makes recovery mark the blocks 256KB below; the blocks of the reference keep their
  state.\<close>

theorem freemap_adjust_misses_upper_half:
  fixes bref :: blockref
  defines "off \<equiv> br_data_off bref AND NOT HAMMER2_OFF_MASK_RADIX"
    and "radix \<equiv> unat (br_data_off bref AND HAMMER2_OFF_MASK_RADIX)"
  assumes "radix \<noteq> 0" "radix \<le> HAMMER2_RADIX_MAX" "dv_allocator_beg d \<le> off"
    and "HAMMER2_ZONE_SEG \<le> off AND HAMMER2_ZONE_MASK64"
    and "dv_fmap d (H2FMBASE off 30) = Some lf" "lf_error lf = 0"
    and "wf_bmap (lf_bmdata lf ! off_segment (unat off))" "length (lf_bmdata lf) = 256"
    and upper: "16 \<le> off_block (unat off) mod 32"
  shows "\<exists>d' lf'. hammer2_freemap_adjust d bref = Some d' \<and>
    dv_fmap d' (H2FMBASE off 30) = Some lf' \<and>
    (\<forall>n. off_block (unat off) \<le> n \<and> n < off_block (unat off) + blocks_of radix \<and> n < 256 \<longrightarrow>
       bslot (bm_bitmapq (lf_bmdata lf' ! off_segment (unat off))) n =
       bslot (bm_bitmapq (lf_bmdata lf ! off_segment (unat off))) n) \<and>
    bslot (bm_bitmapq (lf_bmdata lf' ! off_segment (unat off))) (off_block (unat off) - 16) = BAlloc"
proof -
  let ?k = "off_block (unat off)" and ?b = "lf_bmdata lf ! off_segment (unat off)"
  have "?k mod 32 mod 16 = ?k mod 16" by (rule mod_mod_cancel) simp
  moreover have "?k mod 32 mod 16 = ?k mod 32 - 16" using upper by (simp add: mod_if [of "?k mod 32"])
  moreover have "32 * (?k div 32) + ?k mod 32 = ?k" by simp
  ultimately have start: "32 * (?k div 32) + ?k mod 16 = ?k - 16" using upper by linarith
  have k: "16 \<le> ?k" using upper by (metis le_trans mod_less_eq_dividend)
  have seg: "off_segment (unat off) < 256" by (simp add: off_segment_def)
  have "blocks_of radix \<le> 4"
    using power_increasing [of "radix - 14" 2 "2::nat"] assms(4) by (auto simp: blocks_of_def)
  then have m: "0 < blocks_of radix" "blocks_of radix \<le> 16" by (simp_all add: blocks_of_def)
  from adjust_spec [of bref d lf, folded off_def radix_def, OF assms(3-9)] obtain d' lf' b' bg where
    run: "hammer2_freemap_adjust d bref = Some d'" "dv_fmap d' = (dv_fmap d)(H2FMBASE off 30 \<mapsto> lf')"
      "lf_bmdata lf' = (lf_bmdata lf)[off_segment (unat off) := b']"
    and adj: "adjusted (?k div 32) (?k mod 16) (blocks_of radix) ?b 0 b' bg"
    by blast
  have b': "lf_bmdata lf' ! off_segment (unat off) = b'" using run(3) seg assms(10) by simp
  from adj have slots: "\<forall>n<256. bslot (bm_bitmapq b') n =
      (if ?k - 16 \<le> n \<and> n < ?k - 16 + blocks_of radix then BAlloc else bslot (bm_bitmapq ?b) n)"
    unfolding adjusted_def start by simp
  have "?k < 256" by (simp add: off_block_def)
  then have "bslot (bm_bitmapq b') (?k - 16) = BAlloc" using slots m(1) by (simp del: slot_state_iff)
  moreover have "\<forall>n. ?k \<le> n \<and> n < ?k + blocks_of radix \<and> n < 256 \<longrightarrow>
      bslot (bm_bitmapq b') n = bslot (bm_bitmapq ?b) n"
    using slots m(2) k by auto
  ultimately show ?thesis using run(1,2) by (intro exI [of _ d'] exI [of _ lf']) (simp add: b' del: slot_state_iff)
qed

theorem freemap_adjust_misses_upper_half_witness:
  "\<exists>d' lf'. hammer2_freemap_adjust sample_dev_leaf (sample_bref\<lparr>br_data_off := 0x840000 OR 14\<rparr>) = Some d' \<and>
     dv_fmap d' 0 = Some lf' \<and> bslot (bm_bitmapq (lf_bmdata lf' ! 2)) 16 = BFree \<and>
     bslot (bm_bitmapq (lf_bmdata lf' ! 2)) 0 = BAlloc"
proof -
  have off: "br_data_off (sample_bref\<lparr>br_data_off := 0x840000 OR 14\<rparr>) AND NOT 63 = 0x840000"
    "unat (br_data_off (sample_bref\<lparr>br_data_off := 0x840000 OR 14\<rparr>) AND 63) = 14"
    "H2FMBASE 0x840000 30 = 0" "unat (0x840000 :: u64) = 0x840000"
    "off_segment 0x840000 = 2" "off_block 0x840000 = 16"
    by (simp_all add: H2FMBASE_def rounddown2_def off_segment_def off_block_def)
  have dev: "dv_allocator_beg sample_dev_leaf = 0x800000" "dv_fmap sample_dev_leaf 0 = Some sample_leaf"
    "lf_error sample_leaf = 0" "length (lf_bmdata sample_leaf) = 256"
    by (simp_all add: sample_dev_leaf_def sample_dev_def sample_leaf_def)
  have "bslot (bm_bitmapq bmap_fresh) 16 = BFree" by (simp add: bmap_fresh_def bslot_def)
  moreover have blk: "blocks_of 14 = 1" by (simp add: blocks_of_def)
  moreover from freemap_adjust_misses_upper_half [where bref = "sample_bref\<lparr>br_data_off := 0x840000 OR 14\<rparr>" and
      d = sample_dev_leaf and lf = sample_leaf, unfolded off blk, OF _ _ _ _ dev(2,3)]
  obtain d' lf' where
    "hammer2_freemap_adjust sample_dev_leaf (sample_bref\<lparr>br_data_off := 0x840000 OR 14\<rparr>) = Some d'"
    "dv_fmap d' 0 = Some lf'" "bslot (bm_bitmapq (lf_bmdata lf' ! 2)) 0 = BAlloc"
    "bslot (bm_bitmapq (lf_bmdata lf' ! 2)) 16 = bslot (bm_bitmapq (lf_bmdata sample_leaf ! 2)) 16"
    using dev(1,4) sample_leaf_bmap by auto
  ultimately show ?thesis using sample_leaf_bmap(1) [of 2]
    by (intro exI [of _ d'] exI [of _ lf']) (simp del: slot_state_iff)
qed

text \<open>Recovery of a block whose freemap leaf does not exist yet dereferences a null chain, although
  the code after it means to create the leaf.\<close>

theorem freemap_adjust_no_leaf:
  assumes "unat (br_data_off bref AND HAMMER2_OFF_MASK_RADIX) \<noteq> 0"
    and "dv_allocator_beg d \<le> br_data_off bref AND NOT HAMMER2_OFF_MASK_RADIX"
    and "dv_fmap d (H2FMBASE (br_data_off bref AND NOT HAMMER2_OFF_MASK_RADIX) 30) = None"
  shows "hammer2_freemap_adjust d bref = None"
  using assms unfolding hammer2_freemap_adjust_def by (auto simp: Let_def kkassert_bind)

theorem freemap_adjust_no_leaf_witness:
  "hammer2_freemap_adjust sample_dev (sample_bref\<lparr>br_data_off := 0x810000 OR 16\<rparr>) = None"
  by (rule freemap_adjust_no_leaf) (simp_all add: sample_dev_def)


section \<open>Recovery keeps the accounting contract\<close>

definition adjust_step :: "nat \<times> nat \<times> nat \<times> u16 \<times> bool \<Rightarrow> bmap_data \<Rightarrow> bmap_data option" where
  "adjust_step op b = (case op of (i, a, count, class, modified) \<Rightarrow>
     if i < HAMMER2_BMAP_ELEMENTS \<and> a + count \<le> HAMMER2_BMAP_BLOCKS_PER_ELEMENT
     then map_option (\<lambda>(modified', b', bgsize). b')
            (freemap_adjust_loop i count (push_bit (2 * a) 3) class modified b 0)
     else None)"

interpretation adjust: accounted adjust_step
proof
  fix b op b'
  assume wf: "wf_bmap b" and ex: "avail_exact b" and step: "adjust_step op b = Some b'"
  obtain i a count cl modi where op: "op = (i, a, count, cl, modi)" by (metis prod_cases5)
  with step have fit: "i < 8" "a + count \<le> 32" by (auto simp: adjust_step_def split: if_splits)
  from adjust_loop_spec [OF wf fit, of cl modi 0] step op fit have "\<exists>bg. adjusted i a count b 0 b' bg"
    by (auto simp: adjust_step_def)
  with ex show "wf_bmap b'" "avail_exact b'" by (auto simp: adjusted_def)
qed

end
