(* ===== verification/H2_Reserve.thy ===== *)
theory H2_Reserve
  imports H2_Device
begin

text \<open>
  \<open>hammer2_freemap_reserve\<close>: the eight fixed locations of a freemap block and their rotation.
\<close>

section \<open>Rotation of the freemap blocks\<close>

text \<open>Location number \<open>j\<close> of a freemap block of level \<open>level + 1\<close>.\<close>

definition freemap_location :: "blockref \<Rightarrow> nat \<Rightarrow> nat \<Rightarrow> h2_off" where
  "freemap_location bref level j = H2FMBASE (br_key bref) (unat (br_keybits bref)) +
     of_nat ((j * HAMMER2_ZONE_FREEMAP_INC + HAMMER2_ZONE_FREEMAP_00 + level) * HAMMER2_PBUFSIZE)"

lemma reserve_level_keybits:
  assumes "freemap_reserve_level keybits = Some (type, level)"
  shows "30 \<le> unat keybits" "level < 5"
  using assms by (auto simp: freemap_reserve_level_def split: if_splits)

lemma freemap_location_base:
  assumes "freemap_reserve_level (br_keybits bref) = Some (type, level)"
  shows "unat (H2FMBASE (br_key bref) (unat (br_keybits bref))) mod 2 ^ 30 = 0"
proof -
  let ?r = "unat (br_keybits bref)" and ?k = "unat (br_key bref)"
  have "(2::nat) ^ 30 dvd 2 ^ ?r"
    using reserve_level_keybits(1) [OF assms] by (rule le_imp_power_dvd)
  moreover have "2 ^ ?r dvd ?k - ?k mod 2 ^ ?r" by (rule dvd_minus_mod)
  ultimately have "2 ^ 30 dvd ?k - ?k mod 2 ^ ?r" by (rule dvd_trans)
  then show ?thesis by (simp only: unat_H2FMBASE) (rule dvd_imp_mod_0)
qed

lemma unat_freemap_location:
  assumes "freemap_reserve_level (br_keybits bref) = Some (type, level)" "j < 8"
  shows "unat (freemap_location bref level j) =
    unat (H2FMBASE (br_key bref) (unat (br_keybits bref))) + (j * 5 + 1 + level) * 65536"
    "(j * 5 + 1 + level) * 65536 < HAMMER2_SEGSIZE"
proof -
  let ?x = "(j * 5 + 1 + level) * 65536"
  show x: "?x < 4194304" using assms(2) reserve_level_keybits(2) [OF assms(1)] by simp
  then show "unat (freemap_location bref level j) =
      unat (H2FMBASE (br_key bref) (unat (br_keybits bref))) + ?x"
    using unat_seg_key [OF freemap_location_base [OF assms(1)], of 0 ?x] by (simp add: freemap_location_def)
qed

lemma reserve_index_location:
  assumes "freemap_reserve_level (br_keybits bref) = Some (type, level)" "j < 8" "r < 64"
  shows "freemap_reserve_index (freemap_location bref level j OR of_nat r) = Some ((j + 1) mod 8)"
proof -
  let ?loc = "freemap_location bref level j"
  let ?base = "unat (H2FMBASE (br_key bref) (unat (br_keybits bref)))"
  obtain q where q: "?base = 2 ^ 30 * q"
    using freemap_location_base [OF assms(1)] by (metis mod_0_imp_dvd dvdE)
  have loc: "unat ?loc = 4194304 * (256 * q) + (j * 5 + 1 + level) * 65536"
    using unat_freemap_location(1) [OF assms(1,2)] q by simp
  have "1024 dvd unat ?loc" unfolding loc
    by (rule dvdI [of _ _ "4096 * (256 * q) + (j * 5 + 1 + level) * 64"]) simp
  note split = or_radix_split(1) [OF this assms(3)]
  have nz: "?loc \<noteq> 0" using loc by (auto simp: unat_eq_0 [symmetric])
  have pw: "(2::nat) ^ 22 = 4194304" by simp
  have "unat (?loc AND HAMMER2_SEGMASK) = (4194304 * (256 * q) + (j * 5 + 1 + level) * 65536) mod 4194304"
    by (simp only: segmask_eq unat_and_mask loc pw)
  also have "\<dots> = (j * 5 + 1 + level) * 65536"
    using unat_freemap_location(2) [OF assms(1,2)] by (simp only: mod_mult_self4 mod_less)
  finally have off: "unat (?loc AND HAMMER2_SEGMASK) div 65536 = j * 5 + 1 + level" by simp
  have "level < 5" by (rule reserve_level_keybits(2) [OF assms(1)])
  then have "(j * 5 + level) div 5 = j" "j * 5 + 1 + level < 41" using assms(2) by simp_all
  then show ?thesis
    using assms(2) nz unfolding freemap_reserve_index_def and.assoc [symmetric] split off
    by (auto simp: kkassert_bind Let_def)
qed

lemma freemap_location_inj:
  assumes "freemap_reserve_level (br_keybits bref) = Some (type, l)" "j < 8" "j' < 8"
    and "freemap_location bref l j = freemap_location bref l j'"
  shows "j = j'"
proof -
  have "unat (freemap_location bref l j) = unat (freemap_location bref l j')" by (simp only: assms(4))
  with unat_freemap_location(1) [OF assms(1)] assms(2,3) show ?thesis by simp
qed

text \<open>A freemap block that is reserved for the first time gets the first of its eight locations, and
  one that is reserved again moves to the next location in rotation, which differs from the current
  one; every location lies in the reserved 4MB segment at the base of the block's range, behind the
  volume header.\<close>

theorem freemap_reserve_rotates:
  assumes "freemap_reserve_level (br_keybits bref) = Some (br_type bref, level)" "j < 8"
  shows "(br_data_off bref AND NOT HAMMER2_OFF_MASK_RADIX = 0 \<longrightarrow>
      hammer2_freemap_reserve bref 15 = Some (bref\<lparr>br_data_off := freemap_location bref level 0 OR 15\<rparr>)) \<and>
    (br_data_off bref = freemap_location bref level j OR 15 \<longrightarrow>
      hammer2_freemap_reserve bref 15 =
        Some (bref\<lparr>br_data_off := freemap_location bref level ((j + 1) mod 8) OR 15\<rparr>)) \<and>
    freemap_location bref level ((j + 1) mod 8) \<noteq> freemap_location bref level j \<and>
    unat (H2FMBASE (br_key bref) (unat (br_keybits bref))) + HAMMER2_PBUFSIZE \<le> unat (freemap_location bref level j) \<and>
    unat (freemap_location bref level j) + HAMMER2_PBUFSIZE \<le>
      unat (H2FMBASE (br_key bref) (unat (br_keybits bref))) + HAMMER2_ZONE_SEG"
proof (intro conjI impI)
  have reserve: "hammer2_freemap_reserve bref 15 =
      Some (bref\<lparr>br_data_off := freemap_location bref level i OR 15\<rparr>)"
    if "freemap_reserve_index (br_data_off bref) = Some i" for i
    using that assms(1) by (simp add: hammer2_freemap_reserve_def freemap_location_def Let_def)
  show "hammer2_freemap_reserve bref 15 = Some (bref\<lparr>br_data_off := freemap_location bref level 0 OR 15\<rparr>)"
    if "br_data_off bref AND NOT HAMMER2_OFF_MASK_RADIX = 0"
    by (rule reserve) (use that in \<open>simp only: freemap_reserve_index_def simp_thms if_True\<close>)
  show "hammer2_freemap_reserve bref 15 =
      Some (bref\<lparr>br_data_off := freemap_location bref level ((j + 1) mod 8) OR 15\<rparr>)"
    if "br_data_off bref = freemap_location bref level j OR 15"
    using reserve_index_location [OF assms, of 15] by (intro reserve) (simp add: that)
  show "freemap_location bref level ((j + 1) mod 8) \<noteq> freemap_location bref level j"
  proof
    assume "freemap_location bref level ((j + 1) mod 8) = freemap_location bref level j"
    from freemap_location_inj [OF assms(1) _ assms(2) this] have "(j + 1) mod 8 = j" by simp
    with assms(2) show False by (simp add: mod_Suc split: if_splits)
  qed
  have "level < 5" by (rule reserve_level_keybits(2) [OF assms(1)])
  then show "unat (H2FMBASE (br_key bref) (unat (br_keybits bref))) + HAMMER2_PBUFSIZE \<le> unat (freemap_location bref level j)"
    "unat (freemap_location bref level j) + HAMMER2_PBUFSIZE \<le>
      unat (H2FMBASE (br_key bref) (unat (br_keybits bref))) + HAMMER2_ZONE_SEG"
    using assms(2) unfolding unat_freemap_location(1) [OF assms] by simp_all
qed

theorem freemap_reserve_rotates_witness:
  "hammer2_freemap_reserve (bref_zero\<lparr>br_type := BREF_FREEMAP_LEAF, br_keybits := 30, br_key := 0x40000000\<rparr>) 15 =
     Some (bref_zero\<lparr>br_type := BREF_FREEMAP_LEAF, br_keybits := 30, br_key := 0x40000000,
       br_data_off := 0x4001000F\<rparr>)"
proof -
  let ?b = "bref_zero\<lparr>br_type := BREF_FREEMAP_LEAF, br_keybits := 30, br_key := 0x40000000\<rparr>"
  have "freemap_reserve_level (br_keybits ?b) = Some (br_type ?b, 0)"
    by (simp add: freemap_reserve_level_def)
  from freemap_reserve_rotates [OF this, of 0]
  have "hammer2_freemap_reserve ?b 15 = Some (?b\<lparr>br_data_off := freemap_location ?b 0 0 OR 15\<rparr>)"
    by (simp add: bref_zero_def)
  then show ?thesis by (simp add: freemap_location_def H2FMBASE_def rounddown2_def)
qed


end
