(* ===== verification/H2_Crc.thy ===== *)
theory H2_Crc
  imports H2_CrcTables
begin

text \<open>
  The CRC routines of \<open>sys/lib/libkern/icrc32.c\<close>.  A buffer is the list of its bytes; the address of
  the buffer matters for the slicing routine, which first brings it to a word boundary, and is an
  argument.  The theorem is that all of them compute the bit-at-a-time CRC-32C, whatever the
  address.  Little-endian loads, as on the only platform the repository builds for.
  Lengths are not bounded: the narrowing of \<open>size_t\<close> to \<open>unsigned int\<close> in the calls of
  \<open>calculate_crc32c\<close>, which cuts buffers of 4GB and more, is left out (HAMMER2 checks blocks of at most 64KB).
\<close>

section \<open>Bit-at-a-time reference\<close>

definition crc32c_update :: "u32 \<Rightarrow> u8 \<Rightarrow> u32" where
  "crc32c_update crc b = crc_byte (crc XOR ucast b)"

definition crc32c_reference :: "u32 \<Rightarrow> u8 list \<Rightarrow> u32" where
  "crc32c_reference crc buf = foldl crc32c_update crc buf"

section \<open>The routines of icrc32.c\<close>

fun singletable_crc32c :: "u32 \<Rightarrow> u8 list \<Rightarrow> u32" where
  "singletable_crc32c crc [] = crc"
| "singletable_crc32c crc (p # buf) =
     singletable_crc32c (crc32Table ! unat ((crc XOR ucast p) AND 0xff) XOR drop_bit 8 crc) buf"

text \<open>The two byte loops of the slicing routine.\<close>

fun sb8_bytes :: "u32 \<Rightarrow> u8 list \<Rightarrow> u32" where
  "sb8_bytes crc [] = crc"
| "sb8_bytes crc (p # buf) =
     sb8_bytes (sctp_crc_tableil8_o32 ! unat ((crc XOR ucast p) AND 0xff) XOR drop_bit 8 crc) buf"

definition load_le32 :: "u8 list \<Rightarrow> u32" where
  "load_le32 p = ucast (p ! 0) OR push_bit 8 (ucast (p ! 1)) OR push_bit 16 (ucast (p ! 2)) OR
     push_bit 24 (ucast (p ! 3))"

text \<open>One round of eight bytes.\<close>

definition sb8_round :: "u32 \<Rightarrow> u8 list \<Rightarrow> u32" where
  "sb8_round crc p =
     (let crc = crc XOR load_le32 p;
          term1 = sctp_crc_tableil8_o88 ! unat (crc AND 0xff) XOR
                  sctp_crc_tableil8_o80 ! unat (drop_bit 8 crc AND 0xff);
          term2 = drop_bit 16 crc;
          crc = term1 XOR sctp_crc_tableil8_o72 ! unat (term2 AND 0xff) XOR
                sctp_crc_tableil8_o64 ! unat (drop_bit 8 term2 AND 0xff);
          w = load_le32 (drop 4 p);
          term1 = sctp_crc_tableil8_o56 ! unat (w AND 0xff) XOR
                  sctp_crc_tableil8_o48 ! unat (drop_bit 8 w AND 0xff);
          term2 = drop_bit 16 w
      in crc XOR term1 XOR sctp_crc_tableil8_o40 ! unat (term2 AND 0xff) XOR
         sctp_crc_tableil8_o32 ! unat (drop_bit 8 term2 AND 0xff))"

fun sb8_rounds :: "nat \<Rightarrow> u32 \<Rightarrow> u8 list \<Rightarrow> u32" where
  "sb8_rounds 0 crc p = crc"
| "sb8_rounds (Suc n) crc p = sb8_rounds n (sb8_round crc (take 8 p)) (drop 8 p)"

definition crc32c_sb8_64_bit :: "u32 \<Rightarrow> u8 list \<Rightarrow> nat \<Rightarrow> u32" where
  "crc32c_sb8_64_bit crc p_buf init_bytes =
     (let running_length = (length p_buf - init_bytes) div 8 * 8;
          crc = sb8_bytes crc (take init_bytes p_buf);
          crc = sb8_rounds (running_length div 8) crc (drop init_bytes p_buf)
      in sb8_bytes crc (drop (init_bytes + running_length) p_buf))"

definition multitable_crc32c :: "nat \<Rightarrow> u32 \<Rightarrow> u8 list \<Rightarrow> u32" where
  "multitable_crc32c addr crc32c buffer =
     (if length buffer = 0 then crc32c
      else crc32c_sb8_64_bit crc32c buffer (4 - (addr AND 3)))"

definition calculate_crc32c :: "nat \<Rightarrow> u32 \<Rightarrow> u8 list \<Rightarrow> u32" where
  "calculate_crc32c addr crc32c buffer =
     (if length buffer < 4 then singletable_crc32c crc32c buffer
      else multitable_crc32c addr crc32c buffer)"

definition iscsi_crc32 :: "nat \<Rightarrow> u8 list \<Rightarrow> u32" where
  "iscsi_crc32 addr buf = NOT (calculate_crc32c addr (- 1) buf)"

definition iscsi_crc32_ext :: "nat \<Rightarrow> u8 list \<Rightarrow> u32 \<Rightarrow> u32" where
  "iscsi_crc32_ext addr buf ocrc = NOT (calculate_crc32c addr (NOT ocrc) buf)"

section \<open>A byte of the division, by table\<close>

lemma crc_bit_push:
  assumes "\<not> bit c 31"
  shows "crc_bit (push_bit 1 c) = c"
proof -
  have nb: "\<not> bit (push_bit 1 c) 0" by (simp only: bit_push_bit_iff) simp
  have "drop_bit 1 (push_bit 1 c) = c"
  proof (rule bit_word_eqI)
    fix n
    assume n: "n < LENGTH(32)"
    have "bit (drop_bit 1 (push_bit 1 c)) n \<longleftrightarrow> Suc n < 32 \<and> bit c n"
      by (simp only: bit_drop_bit_eq o_def bit_push_bit_iff) simp
    moreover have "bit c n \<Longrightarrow> n \<noteq> 31" using assms by auto
    ultimately show "bit (drop_bit 1 (push_bit 1 c)) n = bit c n" using n by auto
  qed
  then show ?thesis unfolding crc_bit_def if_not_P [OF nb] .
qed

lemma crc_bit_pow_push:
  assumes "\<And>j. 32 - n \<le> j \<Longrightarrow> \<not> bit c j" "n \<le> 32"
  shows "(crc_bit ^^ n) (push_bit n c) = c"
  using assms
proof (induction n)
  case (Suc n)
  have "push_bit (Suc n) c = push_bit 1 (push_bit n c)" by simp
  moreover have "\<not> bit (push_bit n c) 31" using Suc.prems by (auto simp: bit_push_bit_iff)
  ultimately have "crc_bit (push_bit (Suc n) c) = push_bit n c" by (metis crc_bit_push)
  then have "(crc_bit ^^ Suc n) (push_bit (Suc n) c) = (crc_bit ^^ n) (push_bit n c)"
    by (simp add: funpow_Suc_right del: funpow.simps)
  also have "\<dots> = c" using Suc.prems by (intro Suc.IH) auto
  finally show ?case .
qed simp

lemma crc_byte_push:
  assumes "\<And>j. 24 \<le> j \<Longrightarrow> \<not> bit c j"
  shows "crc_byte (push_bit 8 c) = c"
  unfolding crc_byte_def by (rule crc_bit_pow_push) (use assms in simp_all)

lemma crc_byte_pow_push_byte:
  assumes "k \<le> n" "k < 4"
  shows "(crc_byte ^^ n) (push_bit (8 * k) (x AND 0xff)) = (crc_byte ^^ (n - k)) (x AND 0xff)"
  using assms
proof (induction k arbitrary: n)
  case (Suc k)
  let ?c = "push_bit (8 * k) (x AND 0xff) :: u32"
  have m: "(0xff :: u32) = mask 8" by (simp add: mask_eq_exp_minus_1)
  obtain n' where n: "n = Suc n'" using Suc.prems(1) by (cases n) auto
  have "\<not> bit ?c j" if "24 \<le> j" for j
    using that Suc.prems(2) unfolding m by (auto simp: bit_simps)
  then have "crc_byte (push_bit 8 ?c) = ?c" by (rule crc_byte_push)
  moreover have "push_bit (8 * Suc k) (x AND 0xff) = push_bit 8 ?c" by (simp add: add.commute)
  ultimately have "(crc_byte ^^ n) (push_bit (8 * Suc k) (x AND 0xff)) = (crc_byte ^^ n') ?c"
    by (simp only: n funpow_Suc_right o_def)
  with Suc.IH [of n'] Suc.prems n show ?case by simp
qed simp

lemma split_bytes:
  "c = (c AND 0xff) XOR push_bit 8 (drop_bit 8 c AND 0xff) XOR push_bit 16 (drop_bit 16 c AND 0xff) XOR
     push_bit 24 (drop_bit 24 c AND 0xff)" for c :: u32
proof -
  have m: "(0xff :: u32) = mask 8" by (simp add: mask_eq_exp_minus_1)
  show ?thesis
  proof (rule bit_word_eqI)
    fix n
    assume "n < LENGTH(32)"
    then consider "n < 8" | "8 \<le> n" "n < 16" | "16 \<le> n" "n < 24" | "24 \<le> n" "n < 32" by fastforce
    then show "bit c n = bit ((c AND 0xff) XOR push_bit 8 (drop_bit 8 c AND 0xff) XOR
        push_bit 16 (drop_bit 16 c AND 0xff) XOR push_bit 24 (drop_bit 24 c AND 0xff)) n"
      unfolding m by cases (auto simp: bit_simps)
  qed
qed

text \<open>Four bytes further, in terms of the bytes of the word.\<close>

lemma crc_byte_pow_word:
  assumes "4 \<le> n"
  shows "(crc_byte ^^ n) c =
    (crc_byte ^^ n) (c AND 0xff) XOR (crc_byte ^^ (n - 1)) (drop_bit 8 c AND 0xff) XOR
    (crc_byte ^^ (n - 2)) (drop_bit 16 c AND 0xff) XOR (crc_byte ^^ (n - 3)) (drop_bit 24 c AND 0xff)"
  using assms crc_byte_pow_push_byte [of 1 n "drop_bit 8 c"] crc_byte_pow_push_byte [of 2 n "drop_bit 16 c"]
    crc_byte_pow_push_byte [of 3 n "drop_bit 24 c"]
  by (subst split_bytes [of c]) (simp add: crc_byte_pow_xor)

lemma unat_byte: "unat (c AND 0xff :: u32) < 256"
proof -
  have "(0xff :: u32) = mask 8" by (simp add: mask_eq_exp_minus_1)
  then show ?thesis by (simp only: unat_and_mask) simp
qed

lemma crc_byte_by_table:
  "crc_byte c = crc_byte (c AND 0xff) XOR drop_bit 8 c"
proof -
  have m: "(0xff :: u32) = mask 8" by (simp add: mask_eq_exp_minus_1)
  have "c = (c AND 0xff) XOR push_bit 8 (drop_bit 8 c)"
    unfolding m by (rule bit_word_eqI) (auto simp: bit_simps)
  then have "crc_byte c = crc_byte (c AND 0xff) XOR crc_byte (push_bit 8 (drop_bit 8 c))"
    by (metis crc_byte_xor)
  moreover have "crc_byte (push_bit 8 (drop_bit 8 c)) = drop_bit 8 c"
    by (rule crc_byte_push) (auto simp: bit_simps dest: bit_imp_le_length)
  ultimately show ?thesis by simp
qed

section \<open>The routines compute the reference\<close>

lemma table_byte:
  "sctp_crc_tableil8_o32 ! unat ((crc XOR ucast p) AND 0xff) XOR drop_bit 8 crc = crc32c_update crc p"
  "crc32Table ! unat ((crc XOR ucast p) AND 0xff) XOR drop_bit 8 crc = crc32c_update crc p"
proof -
  let ?c = "crc XOR ucast p"
  have "drop_bit 8 ?c = drop_bit 8 crc"
    by (rule bit_word_eqI) (auto simp: bit_simps dest: bit_imp_le_length)
  then have "crc32c_update crc p = crc_byte (?c AND 0xff) XOR drop_bit 8 crc"
    unfolding crc32c_update_def by (subst crc_byte_by_table) simp
  then show "sctp_crc_tableil8_o32 ! unat (?c AND 0xff) XOR drop_bit 8 crc = crc32c_update crc p"
    "crc32Table ! unat (?c AND 0xff) XOR drop_bit 8 crc = crc32c_update crc p"
    using unat_byte [of ?c] by (simp_all add: o32_nth crc32Table_nth)
qed

lemma singletable_reference: "singletable_crc32c crc buf = crc32c_reference crc buf"
  by (induction crc buf rule: singletable_crc32c.induct) (simp_all add: crc32c_reference_def table_byte)

lemma sb8_bytes_reference: "sb8_bytes crc buf = crc32c_reference crc buf"
  by (induction crc buf rule: sb8_bytes.induct) (simp_all add: crc32c_reference_def table_byte)

lemma reference_append: "crc32c_reference crc (a @ b) = crc32c_reference (crc32c_reference crc a) b"
  by (simp add: crc32c_reference_def)

text \<open>Four bytes at once.\<close>

lemma update_4:
  "crc32c_reference crc [a, b, c, d] =
     (crc_byte ^^ 4) (crc XOR (ucast a OR push_bit 8 (ucast b) OR push_bit 16 (ucast c) OR push_bit 24 (ucast d)))"
proof -
  have m: "(0xff :: u32) = mask 8" by (simp add: mask_eq_exp_minus_1)
  let ?b = "\<lambda>x :: u8. (ucast x :: u32)"
  have or: "?b a OR push_bit 8 (?b b) OR push_bit 16 (?b c) OR push_bit 24 (?b d) =
      ?b a XOR push_bit 8 (?b b) XOR push_bit 16 (?b c) XOR push_bit 24 (?b d)"
    by (rule bit_word_eqI) (auto simp: bit_simps dest: bit_imp_le_length)
  have byte: "?b x = ?b x AND 0xff" for x
    unfolding m by (rule bit_word_eqI) (auto simp: bit_simps dest: bit_imp_le_length)
  have "(crc_byte ^^ 4) (push_bit 8 (?b b)) = (crc_byte ^^ 3) (?b b)"
    "(crc_byte ^^ 4) (push_bit 16 (?b c)) = (crc_byte ^^ 2) (?b c)"
    "(crc_byte ^^ 4) (push_bit 24 (?b d)) = crc_byte (?b d)"
    using crc_byte_pow_push_byte [of 1 4 "?b b"] crc_byte_pow_push_byte [of 2 4 "?b c"]
      crc_byte_pow_push_byte [of 3 4 "?b d"] by (simp_all flip: byte)
  then show ?thesis
    unfolding or crc_byte_pow_xor
    by (simp add: crc32c_reference_def crc32c_update_def crc_byte_xor numeral_eq_Suc ac_simps)
qed

lemma list_4: "length p = 4 \<Longrightarrow> p = [p ! 0, p ! 1, p ! 2, p ! 3]"
  by (rule nth_equalityI) (auto simp: less_Suc_eq numeral_eq_Suc)

lemma update_word: "length p = 4 \<Longrightarrow> crc32c_reference crc p = (crc_byte ^^ 4) (crc XOR load_le32 p)"
  by (subst list_4) (simp_all add: update_4 load_le32_def)

lemma sb8_round_reference:
  assumes "length p = 8"
  shows "sb8_round crc p = crc32c_reference crc p"
proof -
  let ?x = "crc XOR load_le32 p" and ?w = "load_le32 (drop 4 p)"
  have "load_le32 p = load_le32 (take 4 p)" by (simp add: load_le32_def)
  then have "crc32c_reference crc p = (crc_byte ^^ 4) ((crc_byte ^^ 4) ?x XOR ?w)"
    using reference_append [of crc "take 4 p" "drop 4 p"] assms by (simp add: update_word)
  also have "\<dots> = (crc_byte ^^ 8) ?x XOR (crc_byte ^^ 4) ?w"
    by (simp add: crc_byte_pow_xor flip: funpow_add o_apply [of "crc_byte ^^ 4" "crc_byte ^^ 4"])
  finally show ?thesis
    unfolding crc_byte_pow_word [of 8 ?x, simplified] crc_byte_pow_word [of 4 ?w, simplified]
    by (simp add: sb8_round_def Let_def unat_byte o32_nth o40_nth o48_nth o56_nth o64_nth o72_nth o80_nth
        o88_nth ac_simps)
qed

lemma sb8_rounds_reference:
  "8 * n \<le> length p \<Longrightarrow> sb8_rounds n crc p = crc32c_reference crc (take (8 * n) p)"
proof (induction n arbitrary: crc p)
  case (Suc n)
  then have "sb8_rounds (Suc n) crc p =
      crc32c_reference (crc32c_reference crc (take 8 p)) (take (8 * n) (drop 8 p))"
    by (simp add: sb8_round_reference)
  moreover have "take (8 * Suc n) p = take 8 p @ take (8 * n) (drop 8 p)"
    using take_add [of 8 "8 * n" p] by simp
  ultimately show ?case by (simp only: reference_append)
qed (simp add: crc32c_reference_def)

lemma sb8_reference:
  assumes "k \<le> length p"
  shows "crc32c_sb8_64_bit crc p k = crc32c_reference crc p"
proof -
  let ?n = "(length p - k) div 8"
  have "8 * ?n \<le> length (drop k p)" by simp
  then have "crc32c_sb8_64_bit crc p k =
      crc32c_reference crc (take k p @ take (8 * ?n) (drop k p) @ drop (k + 8 * ?n) p)"
    by (simp add: crc32c_sb8_64_bit_def Let_def sb8_bytes_reference sb8_rounds_reference reference_append
        mult.commute)
  also have "take k p @ take (8 * ?n) (drop k p) @ drop (k + 8 * ?n) p = p"
    by (metis append_take_drop_id drop_drop add.commute)
  finally show ?thesis .
qed

lemma calculate_reference: "calculate_crc32c addr crc buf = crc32c_reference crc buf"
proof (cases "length buf < 4")
  case False
  then have "4 - (addr AND 3) \<le> length buf" by simp
  with False show ?thesis by (auto simp: calculate_crc32c_def multitable_crc32c_def sb8_reference)
qed (simp add: calculate_crc32c_def singletable_reference)

section \<open>Properties\<close>

text \<open>C39: The optimised CRC (byte table for short buffers, slicing-by-8 with an alignment prologue for
  the others) computes the bit-at-a-time CRC-32C of the buffer (below 4GB), at every address; in particular it
  gives the published check value of the ASCII digits 1 to 9.\<close>

theorem iscsi_crc32_correct:
  "iscsi_crc32 addr buf = NOT (crc32c_reference (- 1) buf) \<and>
   iscsi_crc32_ext addr buf ocrc = NOT (crc32c_reference (NOT ocrc) buf) \<and>
   iscsi_crc32 addr [0x31, 0x32, 0x33, 0x34, 0x35, 0x36, 0x37, 0x38, 0x39] = 0xE3069283"
proof -
  have "crc32c_reference (- 1) [0x31, 0x32, 0x33, 0x34, 0x35, 0x36, 0x37, 0x38, 0x39] = 0x1CF96D7C"
    by (simp add: crc32c_reference_def crc32c_update_def crc_eval)
  then show ?thesis by (simp add: iscsi_crc32_def iscsi_crc32_ext_def calculate_reference)
qed

text \<open>The CRC of a buffer can be computed piecewise: extending the CRC of a first part by a second
  part gives the CRC of the whole, wherever the parts lie in memory.\<close>

theorem iscsi_crc32_incremental:
  "iscsi_crc32_ext addr2 b (iscsi_crc32 addr1 a) = iscsi_crc32 addr (a @ b)"
  by (simp add: iscsi_crc32_def iscsi_crc32_ext_def calculate_reference reference_append)

end
