(* ===== verification/H2_Dirhash.thy ===== *)
theory H2_Dirhash
  imports H2_Crc
begin

text \<open>
  \<open>hammer2_dirhash\<close> of \<open>sys/hammer2/hammer2_subr.c\<close>: the 64-bit key under which a directory entry is
  indexed.  A name is the list of its bytes, stored at address \<open>addr\<close>.
\<close>

section \<open>The code\<close>

definition is_separator :: "u8 \<Rightarrow> bool" where
  "is_separator c \<longleftrightarrow> c = 0x2E \<or> c = 0x2D \<or> c = 0x5F \<or> c = 0x7E"

definition field_crc :: "nat \<Rightarrow> u8 list \<Rightarrow> nat \<Rightarrow> nat \<Rightarrow> u32" where
  "field_crc addr aname j i = iscsi_crc32 (addr + j) (take (i - j) (drop j aname))"

text \<open>The loop over the name: \<open>j\<close> is the start of the current field.\<close>

function dirhash_loop :: "nat \<Rightarrow> u8 list \<Rightarrow> nat \<Rightarrow> nat \<Rightarrow> u32 \<Rightarrow> nat \<times> u32" where
  "dirhash_loop addr aname i j crcx =
     (if i < length aname then
        (if is_separator (aname ! i)
         then dirhash_loop addr aname (i + 1) (i + 1)
                (if i \<noteq> j then crcx + field_crc addr aname j i else crcx)
         else dirhash_loop addr aname (i + 1) j crcx)
      else (j, crcx))"
  by pat_completeness auto
termination
  by (relation "measure (\<lambda>(addr, aname, i, j, crcx). length aname - i)") auto

declare dirhash_loop.simps [simp del]

definition dirhash_m32 :: "nat \<Rightarrow> u8 list \<Rightarrow> u32" where
  "dirhash_m32 addr aname =
     (let (j, crcx) = dirhash_loop addr aname 0 0 0
      in if length aname \<noteq> j then crcx + field_crc addr aname j (length aname) else crcx)"

definition hammer2_dirhash :: "nat \<Rightarrow> u8 list \<Rightarrow> h2_key" where
  "hammer2_dirhash addr aname =
     (let key = 0;
          crcx = dirhash_m32 addr aname OR 0x80000000;
          key = key OR push_bit 32 (ucast crcx);
          crcx = iscsi_crc32 addr aname;
          crcx = crcx XOR push_bit 16 crcx;
          key = key OR ucast (crcx AND 0xFFFF0000)
      in key OR 0x8000)"

section \<open>The fields of a name\<close>

text \<open>The maximal runs of bytes that are not separators, with the empty runs between adjacent
  separators.\<close>

fun name_fields :: "u8 list \<Rightarrow> u8 list \<Rightarrow> u8 list list" where
  "name_fields acc [] = [acc]"
| "name_fields acc (c # cs) =
     (if is_separator c then acc # name_fields [] cs else name_fields (acc @ [c]) cs)"

definition fields_sum :: "u8 list list \<Rightarrow> u32" where
  "fields_sum fs = sum_list (map (\<lambda>f. NOT (crc32c_reference (- 1) f)) (filter (\<lambda>f. f \<noteq> []) fs))"

lemma iscsi_crc32_reference: "iscsi_crc32 addr buf = NOT (crc32c_reference (- 1) buf)"
  by (simp add: iscsi_crc32_def calculate_reference)

lemma field_crc_eq:
  assumes "j \<le> i" "i \<le> length aname"
  shows "(if i \<noteq> j then c + field_crc addr aname j i else c) = c + fields_sum [take (i - j) (drop j aname)]"
proof (cases "i = j")
  case True
  then show ?thesis by (simp add: fields_sum_def)
next
  case False
  with assms have "take (i - j) (drop j aname) \<noteq> []" by auto
  then show ?thesis using False by (simp add: fields_sum_def field_crc_def iscsi_crc32_reference)
qed

lemma fields_sum_Cons: "fields_sum (f # fs) = fields_sum [f] + fields_sum fs"
  by (simp add: fields_sum_def)

lemma dirhash_loop_fields:
  assumes "dirhash_loop addr aname i j crcx = (j', crcx')" "j \<le> i" "i \<le> length aname"
  shows "j' \<le> length aname \<and> crcx' + fields_sum [drop j' aname] =
    crcx + fields_sum (name_fields (take (i - j) (drop j aname)) (drop i aname))"
  using assms
proof (induction addr aname i j crcx rule: dirhash_loop.induct)
  case (1 addr aname i j crcx)
  show ?case
  proof (cases "i < length aname")
    case False
    with 1(3-5) show ?thesis by (auto simp: dirhash_loop.simps [of addr aname i j crcx])
  next
    case True
    then have drop: "drop i aname = aname ! i # drop (i + 1) aname" by (simp add: Cons_nth_drop_Suc)
    show ?thesis
    proof (cases "is_separator (aname ! i)")
      case sep: True
      let ?c = "if i \<noteq> j then crcx + field_crc addr aname j i else crcx"
      from 1(3) True sep have "dirhash_loop addr aname (i + 1) (i + 1) ?c = (j', crcx')"
        by (simp add: dirhash_loop.simps [of addr aname i j crcx])
      from 1(1) [OF True sep this] True have "j' \<le> length aname \<and> crcx' + fields_sum [drop j' aname] =
          ?c + fields_sum (name_fields [] (drop (i + 1) aname))" by simp
      moreover have "name_fields (take (i - j) (drop j aname)) (drop i aname) =
          take (i - j) (drop j aname) # name_fields [] (drop (i + 1) aname)"
        unfolding drop using sep by simp
      moreover have "fields_sum (take (i - j) (drop j aname) # name_fields [] (drop (i + 1) aname)) =
          fields_sum [take (i - j) (drop j aname)] + fields_sum (name_fields [] (drop (i + 1) aname))"
        by (rule fields_sum_Cons)
      moreover have "?c = crcx + fields_sum [take (i - j) (drop j aname)]"
        using 1(4,5) by (rule field_crc_eq)
      ultimately show ?thesis by (simp only: add.assoc)
    next
      case nosep: False
      from 1(3) True nosep have "dirhash_loop addr aname (i + 1) j crcx = (j', crcx')"
        by (simp add: dirhash_loop.simps [of addr aname i j crcx])
      from 1(2) [OF True nosep this] True 1(4) have "j' \<le> length aname \<and> crcx' + fields_sum [drop j' aname] =
          crcx + fields_sum (name_fields (take (i + 1 - j) (drop j aname)) (drop (i + 1) aname))" by simp
      moreover have "take (i + 1 - j) (drop j aname) = take (i - j) (drop j aname) @ [aname ! i]"
        using True 1(4) by (simp add: take_Suc_conv_app_nth Suc_diff_le)
      ultimately show ?thesis unfolding drop using nosep by simp
    qed
  qed
qed

lemma dirhash_m32_fields: "dirhash_m32 addr aname = fields_sum (name_fields [] aname)"
proof -
  obtain j crcx where loop: "dirhash_loop addr aname 0 0 0 = (j, crcx)" by force
  from dirhash_loop_fields [OF loop] have j: "j \<le> length aname"
    and sum: "crcx + fields_sum [drop j aname] = fields_sum (name_fields [] aname)" by simp_all
  have "dirhash_m32 addr aname = (if length aname \<noteq> j then crcx + field_crc addr aname j (length aname) else crcx)"
    by (simp add: dirhash_m32_def loop)
  also have "\<dots> = crcx + fields_sum [take (length aname - j) (drop j aname)]"
    by (rule field_crc_eq [OF j order_refl])
  finally show ?thesis using sum by simp
qed

section \<open>Properties\<close>

text \<open>C40: A directory hash has bit 63 and bit 15 set and bits 0 to 14 clear, so it can never collide with
  the keys of hidden inodes or of the artificial entries, and a cookie with bit 63 stripped stays
  positive.  Its upper half is the sum of the CRCs of the separated fields of the name, so it depends
  on the fields only and not on their order; nothing of it depends on where the name is stored.\<close>

theorem dirhash_spec:
  "bit (hammer2_dirhash addr aname) 63 \<and> bit (hammer2_dirhash addr aname) 15 \<and>
   hammer2_dirhash addr aname AND 0x7FFF = 0 \<and>
   drop_bit 32 (hammer2_dirhash addr aname) =
     ucast (fields_sum (name_fields [] aname) OR 0x80000000) \<and>
   hammer2_dirhash addr aname = hammer2_dirhash addr' aname"
proof -
  define hi where "hi = fields_sum (name_fields [] aname) OR 0x80000000"
  define lo where "lo = (iscsi_crc32 0 aname XOR push_bit 16 (iscsi_crc32 0 aname)) AND 0xFFFF0000"
  have hash: "hammer2_dirhash a aname = push_bit 32 (ucast hi) OR ucast lo OR 0x8000" for a
    by (simp add: hammer2_dirhash_def dirhash_m32_fields iscsi_crc32_reference hi_def lo_def or.assoc)
  have "(0x8000 :: u64) = push_bit 15 1" by (simp add: push_bit_eq_mult)
  then have b8000: "bit (0x8000 :: u64) n \<longleftrightarrow> n = 15" for n
    by (simp only: bit_push_bit_iff bit_1_iff) auto
  have m15: "(0x7FFF :: u64) = mask 15"
    and m31: "(0x80000000 :: u32) = push_bit 31 1" and hi16: "(0xFFFF0000 :: u32) = NOT (mask 16)"
    by (simp_all add: mask_eq_exp_minus_1 push_bit_eq_mult)
  have hi31: "bit hi 31" unfolding hi_def m31 by (simp add: bit_simps)
  have lo15: "\<not> bit lo n" if "n < 16" for n
    unfolding lo_def hi16 using that by (simp add: bit_simps)
  have b63: "bit (hammer2_dirhash addr aname) 63" using hi31 unfolding hash by (simp add: bit_simps)
  have b15: "bit (hammer2_dirhash addr aname) 15" unfolding hash by (simp add: bit_simps b8000)
  have low: "hammer2_dirhash addr aname AND 0x7FFF = 0"
    unfolding hash m15 by (rule bit_word_eqI) (use lo15 in \<open>auto simp: bit_simps b8000 simp del: bit_numeral_word_iff\<close>)
  have high: "drop_bit 32 (hammer2_dirhash addr aname) = ucast hi"
    unfolding hash by (rule bit_word_eqI) (auto simp: bit_simps b8000 simp del: bit_numeral_word_iff dest: bit_imp_le_length)
  from b63 b15 low high show ?thesis by (simp add: hi_def hash)
qed

end
