(* ===== verification/H2_Bulkfree.thy ===== *)
theory H2_Bulkfree
  imports H2_Adjust H2_Crc
begin

text \<open>
  The bulk-free pass, \<open>sys/hammer2/hammer2_bulkfree.c\<close>: the in-memory freemap of one range, the
  callback that marks a scanned block, the merge of the in-memory freemap into the live one, the
  duplicate filter of the scan and the size-hint check.

  The in-memory freemap is a list of bitmap entries, one for each 4MB from \<open>sbase\<close>; the duplicate
  filter, an array whose index is always masked, is a function.  The signal, the tick counter and
  the CPU yield are inputs or omitted; the messages are not modelled.
\<close>

section \<open>State\<close>

record dedup_entry =
  dd_data_off :: h2_off
  dd_ticks :: u32
  dd_saved_error :: u32

record bulkfree_info =
  cb_sbase :: h2_off
  cb_sstop :: h2_off
  cb_bmap :: "bmap_data list"
  cb_count_10_00 :: nat
  cb_count_11_10 :: nat
  cb_count_00_11 :: nat
  cb_count_01_11 :: nat
  cb_count_10_11 :: nat
  cb_count_l0cleans :: nat
  cb_count_linadjusts :: nat
  cb_count_dedup_factor :: nat
  cb_adj_free :: u64
  cb_signaled :: bool
  cb_dedup :: "nat \<Rightarrow> dedup_entry"

section \<open>cbinfo_bmap_init\<close>

fun cbinfo_bmap_loop :: "h2_off \<Rightarrow> h2_off \<Rightarrow> h2_key \<Rightarrow> nat \<Rightarrow> bmap_data list" where
  "cbinfo_bmap_loop lokey hikey key 0 = []"
| "cbinfo_bmap_loop lokey hikey key (Suc n) =
     (let lokey = (if lokey < H2FMBASE key HAMMER2_FREEMAP_LEVEL1_RADIX
                   then H2FMBASE key HAMMER2_FREEMAP_LEVEL1_RADIX else lokey);
          lokey = (if lokey < H2FMZONEBASE key + HAMMER2_ZONE_SEG
                   then H2FMZONEBASE key + HAMMER2_ZONE_SEG else lokey)
      in (if key < lokey \<or> hikey \<le> key
          then bmap_zero\<lparr>bm_bitmapq := replicate HAMMER2_BMAP_ELEMENTS (- 1), bm_avail := 0,
                         bm_linear := HAMMER2_SEGSIZE\<rparr>
          else bmap_zero\<lparr>bm_avail := HAMMER2_FREEMAP_LEVEL0_SIZE\<rparr>) #
         cbinfo_bmap_loop lokey hikey (key + HAMMER2_FREEMAP_LEVEL0_SIZE) n)"

text \<open>\<open>n\<close> is the buffer size in entries of 128 bytes.\<close>

definition cbinfo_bmap_init :: "h2dev \<Rightarrow> bulkfree_info \<Rightarrow> nat \<Rightarrow> bulkfree_info" where
  "cbinfo_bmap_init d cb n =
     cb\<lparr>cb_bmap := cbinfo_bmap_loop ((dv_allocator_beg d + HAMMER2_SEGMASK) AND NOT HAMMER2_SEGMASK)
                     (dv_total_size d AND NOT HAMMER2_SEGMASK) (cb_sbase cb) n\<rparr>"

section \<open>h2_bulkfree_callback\<close>

text \<open>The adjustment of the in-memory linear offset.\<close>

definition bulkfree_linear :: "int \<Rightarrow> nat \<Rightarrow> nat \<Rightarrow> int" where
  "bulkfree_linear linear data_off bytes =
     (if bytes AND HAMMER2_FREEMAP_BLOCK_MASK \<noteq> 0
      then (if linear < int data_off + int bytes then int data_off + int bytes else linear)
      else if int data_off \<le> linear \<and> linear < int data_off + int bytes
      then int data_off + int bytes else linear)"

text \<open>The loop that marks the 16KB blocks; \<open>data_off\<close> and \<open>bytes\<close> are below 4MB.\<close>

function bulkfree_mark :: "nat \<Rightarrow> nat \<Rightarrow> bmap_data \<Rightarrow> bmap_data" where
  "bulkfree_mark data_off bytes bmap =
     (if 0 < bytes then
        (let bindex = data_off div 2 ^ (HAMMER2_FREEMAP_BLOCK_RADIX + HAMMER2_BMAP_INDEX_RADIX);
             bmask = push_bit ((data_off AND HAMMER2_BMAP_INDEX_MASK) div 2 ^ HAMMER2_FREEMAP_BLOCK_RADIX * 2) 3;
             bmap' = (if bm_bitmapq bmap ! bindex AND bmask = 0
                      then bmap\<lparr>bm_avail := bm_avail bmap -
                                   (if bytes < HAMMER2_FREEMAP_BLOCK_SIZE then HAMMER2_FREEMAP_BLOCK_SIZE
                                    else of_nat bytes),
                                bm_bitmapq := (bm_bitmapq bmap)[bindex := bm_bitmapq bmap ! bindex OR bmask]\<rparr>
                      else bmap)
         in bulkfree_mark (data_off + HAMMER2_FREEMAP_BLOCK_SIZE) (bytes - HAMMER2_FREEMAP_BLOCK_SIZE) bmap')
      else bmap)"
  by pat_completeness auto
termination
  by (relation "measure (\<lambda>(data_off, bytes, bmap). bytes)") auto

declare bulkfree_mark.simps [simp del]

text \<open>\<open>sig\<close> tells whether a signal is pending.\<close>

definition h2_bulkfree_callback ::
  "bool \<Rightarrow> h2dev \<Rightarrow> bulkfree_info \<Rightarrow> blockref \<Rightarrow> (u32 \<times> bulkfree_info) option" where
  "h2_bulkfree_callback sig d cb bref =
     (if sig \<and> \<not> cb_signaled cb then Some (HAMMER2_ERROR_ABORTED, cb\<lparr>cb_signaled := True\<rparr>)
      else
        (let data_off = br_data_off bref AND NOT HAMMER2_OFF_MASK_RADIX in
         if data_off < cb_sbase cb \<or> cb_sstop cb \<le> data_off then Some (0, cb)
         else if data_off < dv_allocator_beg d then Some (0, cb)
         else if dv_total_size d \<le> data_off then Some (0, cb)
         else do {
           let radix = unat (br_data_off bref AND HAMMER2_OFF_MASK_RADIX);
           kkassert (radix \<noteq> 0);
           let bytes = (push_bit radix 1 :: u64);
           let class = freemap_class (br_type bref);
           let bytes = (if cb_sstop cb < data_off + bytes then cb_sstop cb - data_off else bytes);
           let data_off = data_off - cb_sbase cb;
           let n = unat (drop_bit HAMMER2_FREEMAP_LEVEL0_RADIX data_off);
           let bmap = cb_bmap cb ! n;
           let data_off = data_off AND HAMMER2_FREEMAP_LEVEL0_MASK;
           let bytes = (if HAMMER2_FREEMAP_LEVEL0_SIZE < data_off + bytes
                        then HAMMER2_FREEMAP_LEVEL0_SIZE - data_off else bytes);
           let bmap = (if bm_class bmap = 0
                       then bmap\<lparr>bm_class := class, bm_avail := HAMMER2_FREEMAP_LEVEL0_SIZE\<rparr> else bmap);
           let bmap = bmap\<lparr>bm_linear := bulkfree_linear (bm_linear bmap) (unat data_off) (unat bytes)\<rparr>;
           Some (0, cb\<lparr>cb_bmap := (cb_bmap cb)[n := bulkfree_mark (unat data_off) (unat bytes) bmap]\<rparr>)
         }))"

section \<open>h2_bulkfree_sync_adjust\<close>

text \<open>The state of the merge: pass information, device, live entry.\<close>

record sync_state =
  sy_cb :: bulkfree_info
  sy_dev :: h2dev
  sy_live :: bmap_data

text \<open>One slot: \<open>m\<close> and \<open>l\<close> are the low two bits of the shifted in-memory and live words.\<close>

definition sync_slot :: "u64 \<Rightarrow> u64 \<Rightarrow> nat \<Rightarrow> nat \<Rightarrow> h2_off \<Rightarrow> sync_state \<Rightarrow> sync_state" where
  "sync_slot m l bindex scount tmp_off s =
     (let cb = sy_cb s; d = sy_dev s; live = sy_live s; q = bm_bitmapq live in
      if m = 0 then
        (if l = 2 then
           (let avail = bm_avail live + HAMMER2_FREEMAP_BLOCK_SIZE in
            \<lparr>sy_cb = cb\<lparr>cb_adj_free := cb_adj_free cb + HAMMER2_FREEMAP_BLOCK_SIZE,
                        cb_count_10_00 := cb_count_10_00 cb + 1\<rparr>,
             sy_dev = log_event (IoDedupAssert (tmp_off OR HAMMER2_FREEMAP_BLOCK_RADIX)) d,
             sy_live = live\<lparr>bm_bitmapq := q[bindex := q ! bindex AND NOT (push_bit scount 2)],
                            bm_avail := (if HAMMER2_FREEMAP_LEVEL0_SIZE < avail
                                         then HAMMER2_FREEMAP_LEVEL0_SIZE else avail)\<rparr>\<rparr>)
         else if l = 3 then
           \<lparr>sy_cb = cb\<lparr>cb_count_11_10 := cb_count_11_10 cb + 1\<rparr>,
            sy_dev = log_event (IoDedupDelete (tmp_off OR HAMMER2_FREEMAP_BLOCK_RADIX)) d,
            sy_live = live\<lparr>bm_bitmapq := q[bindex := q ! bindex AND NOT (push_bit scount 1)]\<rparr>\<rparr>
         else s)
      else if m = 3 then
        (let s = (if l = 0 then
                    (let avail = bm_avail live - HAMMER2_FREEMAP_BLOCK_SIZE in
                     s\<lparr>sy_cb := cb\<lparr>cb_count_00_11 := cb_count_00_11 cb + 1,
                                  cb_adj_free := cb_adj_free cb - HAMMER2_FREEMAP_BLOCK_SIZE\<rparr>,
                       sy_live := live\<lparr>bm_avail := (if sint avail < 0 then 0 else avail)\<rparr>\<rparr>)
                  else if l = 1 then s\<lparr>sy_cb := cb\<lparr>cb_count_01_11 := cb_count_01_11 cb + 1\<rparr>\<rparr>
                  else if l = 2 then s\<lparr>sy_cb := cb\<lparr>cb_count_10_11 := cb_count_10_11 cb + 1\<rparr>\<rparr>
                  else s)
         in s\<lparr>sy_live := (sy_live s)\<lparr>bm_bitmapq := q[bindex := q ! bindex OR push_bit scount 3]\<rparr>\<rparr>)
      else s)"

function sync_bits :: "u64 \<Rightarrow> u64 \<Rightarrow> nat \<Rightarrow> nat \<Rightarrow> h2_off \<Rightarrow> sync_state \<Rightarrow> h2_off \<times> sync_state" where
  "sync_bits mmask lmask bindex scount tmp_off s =
     (if scount < HAMMER2_BMAP_BITS_PER_ELEMENT
      then sync_bits (drop_bit 2 mmask) (drop_bit 2 lmask) bindex (scount + 2)
             (tmp_off + HAMMER2_FREEMAP_BLOCK_SIZE)
             (sync_slot (mmask AND 3) (lmask AND 3) bindex scount tmp_off s)
      else (tmp_off, s))"
  by pat_completeness auto
termination
  by (relation "measure (\<lambda>(mmask, lmask, bindex, scount, tmp_off, s). 64 - scount)") auto

declare sync_bits.simps [simp del]

function sync_elements :: "u64 list \<Rightarrow> nat \<Rightarrow> h2_off \<Rightarrow> sync_state \<Rightarrow> sync_state" where
  "sync_elements mq bindex tmp_off s =
     (if bindex < HAMMER2_BMAP_ELEMENTS then
        (let lmask = bm_bitmapq (sy_live s) ! bindex; mmask = mq ! bindex in
         if lmask = mmask then sync_elements mq (bindex + 1) (tmp_off + HAMMER2_BMAP_INDEX_SIZE) s
         else
           (let (tmp_off', s') = sync_bits mmask lmask bindex 0 tmp_off s
            in sync_elements mq (bindex + 1) tmp_off' s'))
      else s)"
  by pat_completeness auto
termination
  by (relation "measure (\<lambda>(mq, bindex, tmp_off, s). 8 - bindex)") auto

declare sync_elements.simps [simp del]

text \<open>The highest element that is not empty; \<open>None\<close> is the value -1 of \<open>bindex\<close>.\<close>

fun sync_highest :: "u64 list \<Rightarrow> nat \<Rightarrow> nat option" where
  "sync_highest q 0 = None"
| "sync_highest q (Suc bindex) = (if q ! bindex \<noteq> 0 then Some bindex else sync_highest q bindex)"

definition sync_linear :: "bmap_data \<Rightarrow> bulkfree_info \<Rightarrow> bmap_data \<Rightarrow> bulkfree_info \<times> bmap_data" where
  "sync_linear bmap cb live =
     (case sync_highest (bm_bitmapq live) HAMMER2_BMAP_ELEMENTS of
        None \<Rightarrow> (cb\<lparr>cb_count_l0cleans := cb_count_l0cleans cb + 1\<rparr>,
                 live\<lparr>bm_avail := HAMMER2_FREEMAP_LEVEL0_SIZE, bm_class := 0, bm_linear := 0\<rparr>)
      | Some bindex \<Rightarrow>
          if bindex < 7 then
            (cb\<lparr>cb_count_linadjusts := cb_count_linadjusts cb + 1\<rparr>,
             if bm_linear live < bm_linear bmap \<and>
                (bm_linear live XOR bm_linear bmap) AND NOT HAMMER2_FREEMAP_BLOCK_MASK = 0
             then live\<lparr>bm_linear := bm_linear bmap\<rparr>
             else live\<lparr>bm_linear := (bm_linear bmap + HAMMER2_FREEMAP_BLOCK_MASK) AND
                                   NOT HAMMER2_FREEMAP_BLOCK_MASK\<rparr>)
          else (cb, live\<lparr>bm_linear := HAMMER2_SEGSIZE\<rparr>))"

definition h2_bulkfree_sync_adjust ::
  "bulkfree_info \<Rightarrow> h2dev \<Rightarrow> h2_off \<Rightarrow> bmap_data \<Rightarrow> bmap_data \<Rightarrow> bulkfree_info \<times> h2dev \<times> bmap_data" where
  "h2_bulkfree_sync_adjust cb d data_off live bmap =
     (let s = sync_elements (bm_bitmapq bmap) 0 data_off \<lparr>sy_cb = cb, sy_dev = d, sy_live = live\<rparr>;
          (cb', live') = sync_linear bmap (sy_cb s) (sy_live s)
      in (cb', sy_dev s, live'))"

section \<open>bigmask_get and bigmask_good\<close>

text \<open>The loop over the positions \<open>j\<close> of one size, the loop over the sizes, the loop over the
  elements.\<close>

function bigmask_scan :: "u64 \<Rightarrow> u64 \<Rightarrow> nat \<Rightarrow> nat \<Rightarrow> u32 \<Rightarrow> u32 \<Rightarrow> u32" where
  "bigmask_scan bm scan iter j radix_mask bigmask =
     (if j < HAMMER2_BMAP_BITS_PER_ELEMENT \<and> 0 < iter
      then bigmask_scan bm (push_bit iter scan) iter (j + iter) radix_mask
             (if scan AND bm = 0 then bigmask OR radix_mask else bigmask)
      else bigmask)"
  by pat_completeness auto
termination
  by (relation "measure (\<lambda>(bm, scan, iter, j, radix_mask, bigmask). 64 - j)") auto

declare bigmask_scan.simps [simp del]

function bigmask_iter :: "u64 \<Rightarrow> nat \<Rightarrow> u32 \<Rightarrow> u32 \<Rightarrow> u32" where
  "bigmask_iter bm iter radix_mask bigmask =
     (if iter \<le> HAMMER2_BMAP_BITS_PER_ELEMENT \<and> 0 < iter
      then bigmask_iter bm (iter * 2) (push_bit 1 radix_mask OR 1)
             (bigmask_scan bm (if iter = HAMMER2_BMAP_BITS_PER_ELEMENT then - 1 else push_bit iter 1 - 1)
                iter 0 radix_mask bigmask)
      else bigmask)"
  by pat_completeness auto
termination
  by (relation "measure (\<lambda>(bm, iter, radix_mask, bigmask). 65 - iter)") auto

declare bigmask_iter.simps [simp del]

definition bigmask_radix :: u32 where
  "bigmask_radix = (let r = push_bit HAMMER2_FREEMAP_BLOCK_RADIX 1 in r OR (r - 1))"

definition bigmask_get :: "bmap_data \<Rightarrow> u32" where
  "bigmask_get bmap =
     foldl (\<lambda>bigmask i. bigmask_iter (bm_bitmapq bmap ! i) 2 bigmask_radix bigmask) 0 [0..<HAMMER2_BMAP_ELEMENTS]"

definition bigmask_good :: "bmap_data \<Rightarrow> u32 \<Rightarrow> bool" where
  "bigmask_good bmap live_bigmask \<longleftrightarrow> (let bigmask = bigmask_get bmap in live_bigmask AND bigmask = bigmask)"

section \<open>h2_bulkfree_sync\<close>

text \<open>One 4MB entry, with the leaf found through the live freemap.  The modification of the leaf's
  chain succeeds.\<close>

definition sync_entry :: "h2_off \<Rightarrow> bmap_data \<Rightarrow> bulkfree_info \<times> h2dev \<Rightarrow> bulkfree_info \<times> h2dev" where
  "sync_entry data_off bmap st = (case st of (cb, d) \<Rightarrow>
     if data_off < dv_allocator_beg d then (cb, d)
     else if dv_total_size d \<le> data_off then (cb, d)
     else
       (let key = data_off AND NOT HAMMER2_FREEMAP_LEVEL1_MASK in
        case dv_fmap d key of
          None \<Rightarrow> (cb, d)
        | Some lf \<Rightarrow>
            if lf_error lf \<noteq> 0 then (cb, d)
            else
              (let n = unat (drop_bit HAMMER2_FREEMAP_LEVEL0_RADIX (data_off AND HAMMER2_FREEMAP_LEVEL1_MASK));
                   live = lf_bmdata lf ! n in
               if bm_bitmapq live = bm_bitmapq bmap \<and> bm_linear bmap \<le> bm_linear live \<and>
                  bigmask_good bmap (lf_bigmask lf)
               then (cb, d)
               else
                 (let (cb', d', live') = h2_bulkfree_sync_adjust cb (d\<lparr>dv_relaxed := 0\<rparr>) data_off live bmap
                  in (cb', d'\<lparr>dv_fmap := (dv_fmap d')(key \<mapsto>
                        lf\<lparr>lf_bigmask := - 1, lf_bmdata := (lf_bmdata lf)[n := live']\<rparr>)\<rparr>)))))"

function sync_loop :: "h2_off \<Rightarrow> bmap_data list \<Rightarrow> bulkfree_info \<times> h2dev \<Rightarrow> bulkfree_info \<times> h2dev" where
  "sync_loop data_off [] st = st"
| "sync_loop data_off (bmap # bmaps) st =
     (if data_off < cb_sstop (fst st)
      then sync_loop (data_off + HAMMER2_FREEMAP_LEVEL0_SIZE) bmaps (sync_entry data_off bmap st)
      else st)"
  by pat_completeness auto
termination
  by (relation "measure (\<lambda>(data_off, bmaps, st). length bmaps)") auto

definition h2_bulkfree_sync :: "bulkfree_info \<Rightarrow> h2dev \<Rightarrow> bulkfree_info \<times> h2dev" where
  "h2_bulkfree_sync cb d = sync_loop (cb_sbase cb) (cb_bmap cb) (cb, d)"

section \<open>h2_bulkfree_test\<close>

definition le64_bytes :: "u64 \<Rightarrow> u8 list" where
  "le64_bytes w = map (\<lambda>i. ucast (drop_bit (8 * i) w)) [0..<8]"

text \<open>The loop over the eight entries of the group that starts at \<open>base\<close>; \<open>Inl i\<close> is a hit, \<open>Inr best\<close>
  the entry to replace.\<close>

function test_loop :: "(nat \<Rightarrow> dedup_entry) \<Rightarrow> nat \<Rightarrow> h2_off \<Rightarrow> nat \<Rightarrow> nat \<Rightarrow> nat + nat" where
  "test_loop dedup base data_off i best =
     (if i < 8 then
        (if dd_data_off (dedup (base + i)) = data_off then Inl i
         else test_loop dedup base data_off (i + 1)
                (if dd_ticks (dedup (base + i)) < dd_ticks (dedup (base + best)) then i else best))
      else Inr best)"
  by pat_completeness auto
termination
  by (relation "measure (\<lambda>(dedup, base, data_off, i, best). 8 - i)") auto

declare test_loop.simps [simp del]

definition test_base :: "h2_off \<Rightarrow> nat" where
  "test_base data_off = unat (iscsi_crc32 0 (le64_bytes data_off) AND (0x3FFFF AND NOT 7))"

definition h2_bulkfree_test :: "bulkfree_info \<Rightarrow> blockref \<Rightarrow> nat \<Rightarrow> u32 \<Rightarrow> u32 \<times> bulkfree_info" where
  "h2_bulkfree_test cb bref pri saved_error =
     (let base = test_base (br_data_off bref) in
      case test_loop (cb_dedup cb) base (br_data_off bref) 0 0 of
        Inl i \<Rightarrow>
          (let e = cb_dedup cb (base + i);
               e' = (if dd_ticks e < of_nat pri then e\<lparr>dd_ticks := of_nat pri\<rparr> else e)
           in (dd_saved_error e OR HAMMER2_ERROR_EOF,
               cb\<lparr>cb_dedup := (cb_dedup cb)(base + i := e'),
                  cb_count_dedup_factor := (if pri = 1 then cb_count_dedup_factor cb + unat (dd_ticks e')
                                            else cb_count_dedup_factor cb)\<rparr>))
      | Inr best \<Rightarrow>
          (0, cb\<lparr>cb_dedup := (cb_dedup cb)(base + best :=
                 \<lparr>dd_data_off = br_data_off bref, dd_ticks = of_nat pri, dd_saved_error = saved_error\<rparr>)\<rparr>))"

end
