(* ===== verification/H2_Sync.thy ===== *)
theory H2_Sync
  imports H2_Bulkfree
begin

text \<open>
  The merge of the bulk-free pass: what \<open>h2_bulkfree_sync_adjust\<close> does to the slots, to
  \<open>avail\<close> and to the free-space adjustment of the live entry.
\<close>

section \<open>The transition table\<close>

text \<open>The table of the comment above \<open>h2_bulkfree_sync\<close>: the in-memory and the live state.\<close>

definition merge_slot :: "bstate \<Rightarrow> bstate \<Rightarrow> bstate" where
  "merge_slot m l =
     (case m of
        BAlloc \<Rightarrow> BAlloc
      | BFree \<Rightarrow> (case l of BAlloc \<Rightarrow> BStaged | BStaged \<Rightarrow> BFree | _ \<Rightarrow> l)
      | _ \<Rightarrow> l)"

lemma merge_slot_simps [simp]:
  "merge_slot BAlloc l = BAlloc"
  "merge_slot BFree BAlloc = BStaged" "merge_slot BFree BStaged = BFree"
  "merge_slot BFree BFree = BFree" "merge_slot BFree BPartial = BPartial"
  "merge_slot BPartial l = l" "merge_slot BStaged l = l"
  by (simp_all add: merge_slot_def)

lemma merge_slot_same [simp]: "merge_slot x x = x"
  by (cases x) simp_all

definition merged :: "u64 list \<Rightarrow> nat set \<Rightarrow> sync_state \<Rightarrow> sync_state \<Rightarrow> bool" where
  "merged mq S s s' \<longleftrightarrow>
     wf_bmap (sy_live s') \<and> avail_exact (sy_live s') \<and>
     (\<forall>n < 256. bslot (bm_bitmapq (sy_live s')) n =
        (if n \<in> S then merge_slot (bslot mq n) (bslot (bm_bitmapq (sy_live s)) n)
         else bslot (bm_bitmapq (sy_live s)) n)) \<and>
     cb_adj_free (sy_cb s') + 16384 * of_nat (bmap_free (bm_bitmapq (sy_live s))) =
     cb_adj_free (sy_cb s) + 16384 * of_nat (bmap_free (bm_bitmapq (sy_live s'))) \<and>
     bm_class (sy_live s') = bm_class (sy_live s) \<and> bm_linear (sy_live s') = bm_linear (sy_live s)"

lemma merged_refl:
  "wf_bmap (sy_live s) \<Longrightarrow> avail_exact (sy_live s) \<Longrightarrow>
   (\<And>n. n \<in> S \<Longrightarrow> n < 256 \<Longrightarrow> merge_slot (bslot mq n) (bslot (bm_bitmapq (sy_live s)) n)
      = bslot (bm_bitmapq (sy_live s)) n) \<Longrightarrow> merged mq S s s"
  by (auto simp: merged_def simp del: slot_state_iff)

lemma merged_trans:
  assumes "merged mq S s s'" "merged mq T s' s''" "S \<inter> T = {}"
  shows "merged mq (S \<union> T) s s''"
proof -
  have "bslot (bm_bitmapq (sy_live s'')) n = (if n \<in> S \<union> T
          then merge_slot (bslot mq n) (bslot (bm_bitmapq (sy_live s)) n)
          else bslot (bm_bitmapq (sy_live s)) n)" if "n < 256" for n
    using assms that unfolding merged_def by (cases "n \<in> S"; cases "n \<in> T") auto
  moreover have "cb_adj_free (sy_cb s'') + 16384 * of_nat (bmap_free (bm_bitmapq (sy_live s))) =
     cb_adj_free (sy_cb s) + 16384 * of_nat (bmap_free (bm_bitmapq (sy_live s'')))"
  proof -
    have "c + x = a + z" if "b + x = a + y" "c + y = b + z" for a b c x y z :: u64
    proof -
      have "(c + y) + (b + x) = (b + z) + (a + y)" by (simp only: that)
      then show ?thesis by (simp add: algebra_simps)
    qed
    then show ?thesis using assms(1,2) unfolding merged_def by blast
  qed
  ultimately show ?thesis using assms(1,2) unfolding merged_def by simp
qed

section \<open>One slot\<close>

lemma code_cases:
  assumes "x = (of_nat (bstate_code st) :: u64)"
  shows "x = 0 \<longleftrightarrow> st = BFree" "x = 1 \<longleftrightarrow> st = BPartial" "x = 2 \<longleftrightarrow> st = BStaged" "x = 3 \<longleftrightarrow> st = BAlloc"
  using assms by (cases st; simp)+

lemma bslot_set:
  assumes "length q = 8" "i < 32" "b < 8"
    and "\<And>k. k < 32 \<Longrightarrow> slot_state w k = (if k = i then st else slot_state (q ! b) k)"
    and "n < 256"
  shows "bslot (q[b := w]) n = (if n = 32 * b + i then st else bslot q n)"
proof -
  have n: "n = 32 * (n div 32) + n mod 32" "n mod 32 < 32" by simp_all
  show ?thesis
  proof (cases "n div 32 = b")
    case True
    then show ?thesis
      using assms n by (auto simp: bslot_update bslot_def simp del: slot_state_iff)
  next
    case False
    then have "n \<noteq> 32 * b + i" using assms(2) by auto
    then show ?thesis using False assms(1,5) by (simp add: bslot_update)
  qed
qed

lemma bmap_free_set:
  assumes "length q = 8" "i < 32" "b < 8"
    and "\<And>k. k < 32 \<Longrightarrow> slot_state w k = (if k = i then st else slot_state (q ! b) k)"
  shows "bmap_free (q[b := w]) + of_bool (slot_state (q ! b) i = BFree) =
         bmap_free q + of_bool (st = BFree)"
proof -
  let ?o = "slot_state (q ! b) i"
  have wi: "slot_state w i = st" using assms(2,4) by simp
  have keep: "slot_state w k = BFree \<longleftrightarrow> slot_state (q ! b) k = BFree" if "k < 32" "k \<noteq> i" for k
    using assms(4) [of k] that by (simp del: slot_state_iff)
  have "free_slots w + of_bool (?o = BFree) = free_slots (q ! b) + of_bool (st = BFree)"
  proof (cases "(?o = BFree) = (st = BFree)")
    case True
    then have "free_slots w = free_slots (q ! b)"
      by (intro free_slots_cong) (metis keep wi)
    then show ?thesis using True by simp
  next
    case False
    show ?thesis
    proof (cases "st = BFree")
      case True
      then have "?o \<noteq> BFree" using False by simp
      then have "free_slots (q ! b) + card {i} = free_slots w"
        using assms(2) keep wi True by (intro free_slots_take) (auto simp del: slot_state_iff)
      then show ?thesis using True \<open>?o \<noteq> BFree\<close> by (simp del: slot_state_iff)
    next
      case F: False
      then have "?o = BFree" using False by simp
      then have "free_slots w + card {i} = free_slots (q ! b)"
        using assms(2) keep wi F by (intro free_slots_take) (auto simp del: slot_state_iff)
      then show ?thesis using F \<open>?o = BFree\<close> by (simp del: slot_state_iff)
    qed
  qed
  moreover have "bmap_free (q[b := w]) + free_slots (q ! b) = bmap_free q + free_slots w"
    using assms by (intro bmap_free_update) simp
  ultimately show ?thesis by linarith
qed

lemma avail_add:
  assumes "unat a = 16384 * n" "n < 256"
  shows "unat (if 4194304 < a + 16384 then 4194304 else a + 16384 :: u32) = 16384 * Suc n"
proof -
  have "unat (a + 16384) = 16384 * Suc n"
    using assms by (subst unat_word_ariths) simp
  then show ?thesis using assms(2) by (simp add: word_less_nat_alt)
qed

lemma avail_sub:
  assumes "unat a = 16384 * Suc n" "n < 256"
  shows "unat (if sint (a - 16384) < 0 then 0 else a - 16384 :: u32) = 16384 * n"
proof -
  have "16384 \<le> a" using assms by (simp add: word_le_nat_alt)
  then have v: "unat (a - 16384) = 16384 * n"
    using assms by (subst unat_sub) auto
  then have "sint (a - 16384) = int (16384 * n)"
    using assms(2) by (subst sint_eq_unat) simp_all
  then show ?thesis using v by simp
qed

lemma sync_slot_merged:
  assumes wf: "wf_bmap (sy_live s)" and ex: "avail_exact (sy_live s)" and b: "b < 8" and i: "i < 32"
    and m: "m = of_nat (bstate_code (bslot mq (32 * b + i)))"
    and l: "l = of_nat (bstate_code (bslot (bm_bitmapq (sy_live s)) (32 * b + i)))"
  shows "merged mq {32 * b + i} s (sync_slot m l b (2 * i) off s)"
proof -
  define q where "q = bm_bitmapq (sy_live s)"
  define sl where "sl = bslot q (32 * b + i)"
  have len: "length q = 8" using wf by (simp add: wf_bmap_def q_def)
  have sl: "slot_state (q ! b) i = sl" using i by (simp add: sl_def bslot_def)
  have le: "bmap_free q \<le> 256" using bmap_free_le len by simp
  have le': "bmap_free (q[b := w]) \<le> 256" for w using bmap_free_le len by simp
  have mc: "merged mq {32 * b + i} s s'"
    if w: "\<And>k. k < 32 \<Longrightarrow> slot_state w k = (if k = i then merge_slot (bslot mq (32 * b + i)) sl else slot_state (q ! b) k)"
      and s': "bm_bitmapq (sy_live s') = q[b := w]" "avail_exact (sy_live s')"
        "bm_class (sy_live s') = bm_class (sy_live s)" "bm_linear (sy_live s') = bm_linear (sy_live s)"
      and adj: "cb_adj_free (sy_cb s') + 16384 * of_nat (bmap_free q) =
        cb_adj_free (sy_cb s) + 16384 * of_nat (bmap_free (q[b := w]))"
    for w s'
    using s' adj len bslot_set [OF len i b w]
    unfolding merged_def by (simp add: wf_bmap_def flip: q_def sl_def)
  show ?thesis
  proof (cases "bslot mq (32 * b + i)")
    case BFree
    then have m0: "m = 0" using m by simp
    show ?thesis
    proof (cases sl)
      case BFree
      then have "l = 0" using l by (simp add: sl_def q_def)
      then show ?thesis using m0 \<open>bslot mq (32 * b + i) = BFree\<close> BFree wf ex
        by (auto intro: merged_refl simp: sync_slot_def Let_def sl_def q_def)
    next
      case BPartial
      then have "l = 1" using l by (simp add: sl_def q_def)
      then show ?thesis using m0 \<open>bslot mq (32 * b + i) = BFree\<close> BPartial wf ex
        by (auto intro: merged_refl simp: sync_slot_def Let_def sl_def q_def)
    next
      case BStaged
      then have l2: "l = 2" using l by (simp add: sl_def q_def)
      have w: "slot_state (q ! b AND NOT (push_bit (2 * i) 2)) k =
          (if k = i then merge_slot (bslot mq (32 * b + i)) sl else slot_state (q ! b) k)" if "k < 32" for k
        using slot_clear_2 [OF that, of "q ! b" i] sl BStaged \<open>bslot mq (32 * b + i) = BFree\<close>
        by (simp del: slot_state_iff)
      from bmap_free_set [OF len i b w] sl BStaged \<open>bslot mq (32 * b + i) = BFree\<close>
      have fr: "bmap_free (q[b := q ! b AND NOT (push_bit (2 * i) 2)]) = bmap_free q + 1"
        by (simp del: slot_state_iff)
      show ?thesis
        using m0 l2 avail_add [of "bm_avail (sy_live s)" "bmap_free q"] ex fr le' [of "q ! b AND NOT (push_bit (2 * i) 2)"]
        by (intro mc [OF w]) (simp_all add: sync_slot_def Let_def q_def ring_distribs avail_exact_def)
    next
      case BAlloc
      then have l3: "l = 3" using l by (simp add: sl_def q_def)
      have w: "slot_state (q ! b AND NOT (push_bit (2 * i) 1)) k =
          (if k = i then merge_slot (bslot mq (32 * b + i)) sl else slot_state (q ! b) k)" if "k < 32" for k
        using slot_clear_1 [OF that, of "q ! b" i] sl BAlloc \<open>bslot mq (32 * b + i) = BFree\<close>
        by (simp del: slot_state_iff)
      from bmap_free_set [OF len i b w] sl BAlloc \<open>bslot mq (32 * b + i) = BFree\<close>
      have fr: "bmap_free (q[b := q ! b AND NOT (push_bit (2 * i) 1)]) = bmap_free q"
        by (simp del: slot_state_iff)
      show ?thesis
        using m0 l3 ex fr
        by (intro mc [OF w]) (simp_all add: sync_slot_def Let_def q_def avail_exact_def)
    qed
  next
    case BAlloc
    then have m3: "m = 3" using m by simp
    have w: "slot_state (q ! b OR push_bit (2 * i) 3) k =
        (if k = i then merge_slot (bslot mq (32 * b + i)) sl else slot_state (q ! b) k)" if "k < 32" for k
      using slot_or_3 [OF that] BAlloc by simp
    from bmap_free_set [OF len i b w] sl BAlloc
    have fr: "bmap_free (q[b := q ! b OR push_bit (2 * i) 3]) + of_bool (sl = BFree) = bmap_free q"
      by (simp del: slot_state_iff)
    show ?thesis
    proof (cases "sl = BFree")
      case True
      then have l0: "l = 0" using l by (simp add: sl_def q_def)
      have fr': "bmap_free (q[b := q ! b OR push_bit (2 * i) 3]) + 1 = bmap_free q" using fr True by simp
      show ?thesis
        using m3 l0 avail_sub [of "bm_avail (sy_live s)" "bmap_free (q[b := q ! b OR push_bit (2 * i) 3])"]
          ex fr' [symmetric] le
        by (intro mc [OF w]) (simp_all add: sync_slot_def Let_def q_def ring_distribs avail_exact_def)
    next
      case False
      then have "l \<noteq> 0" using l by (cases sl) (simp_all add: sl_def q_def)
      moreover have "bmap_free (q[b := q ! b OR push_bit (2 * i) 3]) = bmap_free q" using fr False by simp
      ultimately show ?thesis
        using m3 ex by (intro mc [OF w]) (simp_all add: sync_slot_def Let_def q_def avail_exact_def)
    qed
  next
    case BPartial
    then show ?thesis using m wf ex by (auto intro: merged_refl simp: sync_slot_def Let_def)
  next
    case BStaged
    then show ?thesis using m wf ex by (auto intro: merged_refl simp: sync_slot_def Let_def)
  qed
qed

section \<open>One element and one entry\<close>

lemma and_3_bslot:
  "i < 32 \<Longrightarrow> drop_bit (2 * i) (q ! b) AND 3 = (of_nat (bstate_code (bslot q (32 * b + i))) :: u64)"
  by (simp only: and_3_code slot_drop_bit add_0_right bslot_index)

lemma mergedD:
  assumes "merged mq S s s'"
  shows "wf_bmap (sy_live s')" "avail_exact (sy_live s')"
    "n < 256 \<Longrightarrow> n \<notin> S \<Longrightarrow> bslot (bm_bitmapq (sy_live s')) n = bslot (bm_bitmapq (sy_live s)) n"
  using assms by (simp_all add: merged_def)

lemma sync_bits_merged:
  assumes "i \<le> 32" "b < 8" "wf_bmap (sy_live s)" "avail_exact (sy_live s)"
    and "\<And>k. i \<le> k \<Longrightarrow> k < 32 \<Longrightarrow> bslot (bm_bitmapq (sy_live s)) (32 * b + k) = bslot lq (32 * b + k)"
  shows "merged mq ((+) (32 * b) ` {i..<32}) s
           (snd (sync_bits (drop_bit (2 * i) (mq ! b)) (drop_bit (2 * i) (lq ! b)) b (2 * i) off s)) \<and>
         fst (sync_bits (drop_bit (2 * i) (mq ! b)) (drop_bit (2 * i) (lq ! b)) b (2 * i) off s) =
           off + 16384 * of_nat (32 - i)"
  using assms
proof (induction "32 - i" arbitrary: i off s)
  case 0
  then have "i = 32" by simp
  then show ?case using 0 by (auto simp: sync_bits.simps [of _ _ _ 64] intro: merged_refl)
next
  case (Suc n)
  then have i: "i < 32" by simp
  let ?s = "sync_slot (drop_bit (2 * i) (mq ! b) AND 3) (drop_bit (2 * i) (lq ! b) AND 3) b (2 * i) off s"
  have one: "merged mq {32 * b + i} s ?s"
    using Suc.prems i by (intro sync_slot_merged) (simp_all only: and_3_bslot le_refl)
  have "merged mq ((+) (32 * b) ` {Suc i..<32}) ?s
      (snd (sync_bits (drop_bit (2 * Suc i) (mq ! b)) (drop_bit (2 * Suc i) (lq ! b)) b (2 * Suc i) (off + 16384) ?s)) \<and>
     fst (sync_bits (drop_bit (2 * Suc i) (mq ! b)) (drop_bit (2 * Suc i) (lq ! b)) b (2 * Suc i) (off + 16384) ?s) =
       (off + 16384) + 16384 * of_nat (32 - Suc i)"
    using Suc.hyps(2) Suc.prems i one
    by (intro Suc.hyps(1)) (auto simp: mergedD [OF one] mergedD(3) [OF one])
  then have rest: "merged mq ((+) (32 * b) ` {Suc i..<32}) ?s
      (snd (sync_bits (drop_bit (2 * Suc i) (mq ! b)) (drop_bit (2 * Suc i) (lq ! b)) b (2 * Suc i) (off + 16384) ?s))"
    and off: "fst (sync_bits (drop_bit (2 * Suc i) (mq ! b)) (drop_bit (2 * Suc i) (lq ! b)) b (2 * Suc i) (off + 16384) ?s) =
       (off + 16384) + 16384 * of_nat (32 - Suc i)" by blast+
  have step: "sync_bits (drop_bit (2 * i) (mq ! b)) (drop_bit (2 * i) (lq ! b)) b (2 * i) off s =
     sync_bits (drop_bit (2 * Suc i) (mq ! b)) (drop_bit (2 * Suc i) (lq ! b)) b (2 * Suc i) (off + 16384) ?s"
    using i by (subst sync_bits.simps) (simp add: drop_bit_drop_bit)
  have S: "(+) (32 * b) ` {i..<32} = {32 * b + i} \<union> (+) (32 * b) ` {Suc i..<32}"
    using i by (auto simp: image_iff Suc_le_eq)
  have "(of_nat (32 - i) :: u64) = of_nat (Suc (32 - Suc i))" using i by (simp add: Suc_diff_Suc)
  then have "off + 16384 + 16384 * of_nat (32 - Suc i) = (off + 16384 * of_nat (32 - i) :: u64)"
    by (simp only:) (simp add: ring_distribs)
  then show ?case
    unfolding step S using merged_trans [OF one rest] off by auto
qed

lemma sync_elements_merged:
  assumes "b \<le> 8" "wf_bmap (sy_live s)" "avail_exact (sy_live s)" "length mq = 8"
  shows "merged mq {32 * b..<256} s (sync_elements mq b off s)"
  using assms
proof (induction "8 - b" arbitrary: b off s)
  case 0
  then have "b = 8" by simp
  then show ?case using 0 by (auto simp: sync_elements.simps [of _ 8] intro: merged_refl)
next
  case (Suc n)
  then have b: "b < 8" by simp
  let ?lq = "bm_bitmapq (sy_live s)"
  let ?r = "if ?lq ! b = mq ! b then (off + HAMMER2_BMAP_INDEX_SIZE, s)
            else sync_bits (mq ! b) (?lq ! b) b 0 off s"
  have step: "sync_elements mq b off s = sync_elements mq (Suc b) (fst ?r) (snd ?r)"
    using b by (subst sync_elements.simps) (simp add: Let_def split: prod.split)
  have S: "{32 * b..<256} = (+) (32 * b) ` {0..<32} \<union> {32 * Suc b..<256}"
    using b by auto
  have one: "merged mq ((+) (32 * b) ` {0..<32}) s (snd ?r)"
  proof (cases "?lq ! b = mq ! b")
    case True
    then have "bslot ?lq n = bslot mq n" if "n \<in> (+) (32 * b) ` {0..<32}" for n
      using that True by (elim imageE) (simp add: bslot_index)
    then show ?thesis using True Suc.prems by (auto intro: merged_refl)
  next
    case False
    then show ?thesis
      using sync_bits_merged [of 0 b s ?lq mq off] b Suc.prems by simp
  qed
  have "merged mq {32 * Suc b..<256} (snd ?r) (sync_elements mq (Suc b) (fst ?r) (snd ?r))"
    using Suc.hyps(2) Suc.prems b mergedD(1,2) [OF one] by (intro Suc.hyps(1)) auto
  then show ?case
    unfolding step S by (intro merged_trans [OF one]) auto
qed

section \<open>h2_bulkfree_sync_adjust\<close>

lemma sync_highest_None: "sync_highest q n = None \<longleftrightarrow> (\<forall>i < n. q ! i = 0)"
  by (induction n) (auto simp: less_Suc_eq)

lemma bmap_free_all: "length q = 8 \<Longrightarrow> (\<forall>i < 8. q ! i = 0) \<Longrightarrow> bmap_free q = 256"
proof -
  assume "length q = 8" "\<forall>i < 8. q ! i = 0"
  then have "q = replicate 8 0" by (auto intro: nth_equalityI)
  then show ?thesis by (simp add: bmap_free_def sum_list_replicate)
qed

lemma sync_linear_frame:
  assumes "wf_bmap live" "avail_exact live" "sync_linear bmap cb live = (cb', live')"
  shows "bm_bitmapq live' = bm_bitmapq live" "avail_exact live'" "cb_adj_free cb' = cb_adj_free cb"
  using assms
  by (auto simp: sync_linear_def avail_exact_def wf_bmap_def bmap_free_all sync_highest_None
      split: option.splits if_splits)

text \<open>What one merge does to an entry, as one statement.\<close>

definition sync_spec ::
  "bulkfree_info \<Rightarrow> bmap_data \<Rightarrow> bmap_data \<Rightarrow> bulkfree_info \<Rightarrow> bmap_data \<Rightarrow> bool" where
  "sync_spec cb live bmap cb' live' \<longleftrightarrow>
     wf_bmap live' \<and> avail_exact live' \<and>
     (\<forall>n < 256. bslot (bm_bitmapq live') n = merge_slot (bslot (bm_bitmapq bmap) n) (bslot (bm_bitmapq live) n)) \<and>
     cb_adj_free cb' + 16384 * of_nat (bmap_free (bm_bitmapq live)) =
     cb_adj_free cb + 16384 * of_nat (bmap_free (bm_bitmapq live'))"

lemma sync_adjust_spec:
  assumes "wf_bmap live" "avail_exact live" "wf_bmap bmap"
    and "h2_bulkfree_sync_adjust cb d off live bmap = (cb', d', live')"
  shows "sync_spec cb live bmap cb' live'"
proof -
  define s where "s = sync_elements (bm_bitmapq bmap) 0 off \<lparr>sy_cb = cb, sy_dev = d, sy_live = live\<rparr>"
  have m: "merged (bm_bitmapq bmap) {0..<256} \<lparr>sy_cb = cb, sy_dev = d, sy_live = live\<rparr> s"
    using sync_elements_merged [of 0 "\<lparr>sy_cb = cb, sy_dev = d, sy_live = live\<rparr>" "bm_bitmapq bmap" off] assms
    by (simp add: s_def wf_bmap_def)
  obtain c l where l: "sync_linear bmap (sy_cb s) (sy_live s) = (c, l)" by fastforce
  then have eq: "cb' = c" "live' = l"
    using assms(4) by (simp_all add: h2_bulkfree_sync_adjust_def s_def)
  from sync_linear_frame [OF mergedD(1,2) [OF m] l] m show ?thesis
    by (auto simp: sync_spec_def merged_def wf_bmap_def eq simp del: slot_state_iff)
qed

section \<open>The bitmap alone\<close>

text \<open>The new bitmap depends on the two bitmaps only, not on \<open>avail\<close>.\<close>

lemma sync_slot_bits:
  "bm_bitmapq (sy_live s) = bm_bitmapq (sy_live t) \<Longrightarrow>
   bm_bitmapq (sy_live (sync_slot m l b k off s)) = bm_bitmapq (sy_live (sync_slot m l b k off' t))"
  by (simp add: sync_slot_def Let_def)

lemma sync_bits_bits:
  "bm_bitmapq (sy_live s) = bm_bitmapq (sy_live t) \<Longrightarrow>
   bm_bitmapq (sy_live (snd (sync_bits m l b k off s))) = bm_bitmapq (sy_live (snd (sync_bits m l b k off' t)))"
proof (induction m l b k off s arbitrary: off' t rule: sync_bits.induct)
  case (1 m l b k off s)
  show ?case
  proof (cases "k < 64")
    case True
    note IH = "1.IH" [OF True sync_slot_bits [OF "1.prems"]]
    show ?thesis
      by (subst (1 2) sync_bits.simps) (use IH True in simp)
  next
    case False
    then show ?thesis using "1.prems" by (simp add: sync_bits.simps [of m l b k])
  qed
qed

lemma sync_elements_bits:
  "bm_bitmapq (sy_live s) = bm_bitmapq (sy_live t) \<Longrightarrow>
   bm_bitmapq (sy_live (sync_elements mq b off s)) = bm_bitmapq (sy_live (sync_elements mq b off' t))"
proof (induction "8 - b" arbitrary: b off off' s t)
  case 0
  then show ?case by (simp add: sync_elements.simps [of mq b])
next
  case (Suc n)
  let ?r = "\<lambda>off s. if bm_bitmapq (sy_live s) ! b = mq ! b then (off + HAMMER2_BMAP_INDEX_SIZE, s)
            else sync_bits (mq ! b) (bm_bitmapq (sy_live s) ! b) b 0 off s"
  have step: "sync_elements mq b off s = sync_elements mq (Suc b) (fst (?r off s)) (snd (?r off s))" for off s
    using Suc.hyps(2) by (subst sync_elements.simps) (simp add: Let_def split: prod.split)
  have "bm_bitmapq (sy_live (snd (?r off s))) = bm_bitmapq (sy_live (snd (?r off' t)))"
    using Suc.prems sync_bits_bits [OF Suc.prems] by simp
  then show ?case unfolding step [of off s] step [of off' t] using Suc.hyps(2) by (intro Suc.hyps(1)) simp_all
qed

lemma sync_adjust_bits:
  "bm_bitmapq (snd (snd (h2_bulkfree_sync_adjust cb d off live bmap))) =
   bm_bitmapq (sy_live (sync_elements (bm_bitmapq bmap) 0 off \<lparr>sy_cb = cb, sy_dev = d, sy_live = live\<rparr>))"
proof -
  have "bm_bitmapq (snd (sync_linear bmap cb live)) = bm_bitmapq live" for cb live
    by (auto simp: sync_linear_def split: option.splits)
  then show ?thesis by (simp add: h2_bulkfree_sync_adjust_def Let_def split: prod.split) (metis snd_conv)
qed

lemma sync_adjust_slots:
  assumes "wf_bmap live" "wf_bmap bmap" "h2_bulkfree_sync_adjust cb d off live bmap = (cb', d', live')"
  shows "wf_bmap live' \<and> (avail_exact live \<longrightarrow> avail_exact live') \<and>
    (\<forall>n < 256. bslot (bm_bitmapq live') n = merge_slot (bslot (bm_bitmapq bmap) n) (bslot (bm_bitmapq live) n))"
proof -
  define x where "x = live\<lparr>bm_avail := of_nat (16384 * bmap_free (bm_bitmapq live))\<rparr>"
  have "bmap_free (bm_bitmapq live) \<le> 256" using bmap_free_le assms(1) by (simp add: wf_bmap_def)
  then have "unat (of_nat (16384 * bmap_free (bm_bitmapq live)) :: u32) = 16384 * bmap_free (bm_bitmapq live)"
    by (simp add: unsigned_of_nat take_bit_nat_eq_self del: of_nat_mult)
  then have x: "wf_bmap x" "avail_exact x" "bm_bitmapq x = bm_bitmapq live"
    using assms(1) by (simp_all add: x_def wf_bmap_def avail_exact_def del: of_nat_mult)
  obtain cx dx lx where run: "h2_bulkfree_sync_adjust cb d off x bmap = (cx, dx, lx)" by (metis prod_cases3)
  have "bm_bitmapq live' = bm_bitmapq lx"
    using sync_adjust_bits [of cb d off live bmap] sync_adjust_bits [of cb d off x bmap]
      sync_elements_bits [of "\<lparr>sy_cb = cb, sy_dev = d, sy_live = live\<rparr>" "\<lparr>sy_cb = cb, sy_dev = d, sy_live = x\<rparr>"] assms(3) run x(3) by simp
  moreover have "sync_spec cb x bmap cx lx" by (rule sync_adjust_spec [OF x(1,2) assms(2) run])
  ultimately show ?thesis
    using sync_adjust_spec [OF assms(1) _ assms(2,3)] x(3) by (auto simp: sync_spec_def wf_bmap_def simp del: slot_state_iff)
qed

end
