(* ===== verification/H2_BulkMark.thy ===== *)
theory H2_BulkMark
  imports H2_Sync
begin

text \<open>
  The scan side of the bulk-free pass: \<open>h2_bulkfree_callback\<close> marks exactly the 16KB blocks a block
  reference covers, in the entry of its 4MB segment, and keeps the in-memory entry well formed.
\<close>

section \<open>The marking loop\<close>

text \<open>An in-memory entry has only the states 00 and 11.\<close>

definition two_state :: "u64 list \<Rightarrow> bool" where
  "two_state q \<longleftrightarrow> (\<forall>n < 256. bslot q n = BFree \<or> bslot q n = BAlloc)"

lemma mark_bit_index:
  fixes off :: nat
  assumes "off < 4194304"
  shows "off div 2 ^ (14 + 5) = off div 16384 div 32"
    "(off AND 524287) div 2 ^ 14 * 2 = 2 * (off div 16384 mod 32)"
    "off div 16384 div 32 < 8" "off div 16384 mod 32 < 32"
proof -
  have "off AND 524287 = off mod (16384 * 32)"
    using nat_and_mask [of off 19] by (simp add: mask_eq_exp_minus_1)
  also have "\<dots> = 16384 * (off div 16384 mod 32) + off mod 16384"
    by (rule mod_mult2_eq)
  finally have "(off AND 524287) div 16384 = off div 16384 mod 32" by simp
  then show "(off AND 524287) div 2 ^ 14 * 2 = 2 * (off div 16384 mod 32)" by simp
  show "off div 2 ^ (14 + 5) = off div 16384 div 32"
    by (simp add: div_mult2_eq [symmetric])
  show "off div 16384 div 32 < 8"
    using assms by (simp add: less_mult_imp_div_less)
qed simp

definition marked_slot :: "nat \<Rightarrow> nat \<Rightarrow> nat \<Rightarrow> bool" where
  "marked_slot off bytes n \<longleftrightarrow> off div 16384 \<le> n \<and> n < off div 16384 + (bytes + 16383) div 16384"

lemma marked_slot_step:
  assumes "0 < bytes"
  shows "marked_slot off bytes n \<longleftrightarrow> n = off div 16384 \<or> marked_slot (off + 16384) (bytes - 16384) n"
proof -
  have "(off + 16384) div 16384 = Suc (off div 16384)" by simp
  moreover have "(bytes + 16383) div 16384 = Suc ((bytes - 16384 + 16383) div 16384)"
  proof (cases "16384 \<le> bytes")
    case True
    then obtain k where "bytes = k + 16384" by (metis le_add_diff_inverse2)
    then show ?thesis by simp
  next
    case False
    then have "bytes + 16383 = (bytes - 1) + 16384" "bytes - 1 < 16384" "bytes - 16384 = 0"
      using assms by simp_all
    then show ?thesis by simp
  qed
  ultimately show ?thesis by (auto simp: marked_slot_def)
qed

lemma bulkfree_mark_step:
  assumes "off < 4194304" "0 < bytes"
  shows "bulkfree_mark off bytes b = bulkfree_mark (off + 16384) (bytes - 16384)
    (let i = off div 16384 div 32; m = push_bit (2 * (off div 16384 mod 32)) 3; q = bm_bitmapq b
     in if q ! i AND m = 0
        then b\<lparr>bm_avail := bm_avail b - (if bytes < 16384 then 16384 else of_nat bytes),
               bm_bitmapq := q[i := q ! i OR m]\<rparr>
        else b)"
  apply (subst bulkfree_mark.simps)
  apply (simp only: Let_def)
  apply (simp only: mark_bit_index(1,2) [OF assms(1)])
  apply (simp only: assms(2) if_True)
  done

lemma bulkfree_mark_0: "bulkfree_mark off 0 b = b"
  by (subst bulkfree_mark.simps) simp

lemma bulkfree_mark_spec:
  assumes "wf_bmap b" "two_state (bm_bitmapq b)" "off + bytes \<le> 4194304"
  shows "wf_bmap (bulkfree_mark off bytes b) \<and>
    (\<forall>n < 256. bslot (bm_bitmapq (bulkfree_mark off bytes b)) n =
       (if marked_slot off bytes n then BAlloc else bslot (bm_bitmapq b) n)) \<and>
    bm_linear (bulkfree_mark off bytes b) = bm_linear b \<and> bm_class (bulkfree_mark off bytes b) = bm_class b"
  using assms
proof (induction bytes arbitrary: off b rule: less_induct)
  case (less bytes off b)
  show ?case
  proof (cases "0 < bytes")
    case False
    then show ?thesis using less.prems by (auto simp: bulkfree_mark_0 marked_slot_def)
  next
    case True
    let ?n = "off div 16384"
    let ?m = "push_bit (2 * (?n mod 32)) 3 :: u64"
    let ?q = "bm_bitmapq b"
    have lt: "off < 4194304" using True less.prems(3) by simp
    note ix = mark_bit_index [OF lt]
    have len: "length ?q = 8" using less.prems(1) by (simp add: wf_bmap_def)
    have n: "?n < 256" using lt by (simp add: less_mult_imp_div_less)
    let ?b = "if ?q ! (?n div 32) AND ?m = 0
              then b\<lparr>bm_avail := bm_avail b - (if bytes < 16384 then 16384 else of_nat bytes),
                     bm_bitmapq := ?q[?n div 32 := ?q ! (?n div 32) OR ?m]\<rparr> else b"
    have step: "bulkfree_mark off bytes b = bulkfree_mark (off + 16384) (bytes - 16384) ?b"
      using bulkfree_mark_step [OF lt True] by (simp only: Let_def)
    have free: "?q ! (?n div 32) AND ?m = 0 \<longleftrightarrow> bslot ?q ?n = BFree"
      by (simp only: and_3_eq_0_iff [OF ix(4)] bslot_def)
    have slot: "bslot (bm_bitmapq ?b) k = (if k = ?n then BAlloc else bslot ?q k)" if k: "k < 256" for k
    proof (cases "bslot ?q ?n = BFree")
      case True
      have "bslot (?q[?n div 32 := ?q ! (?n div 32) OR ?m]) k =
          (if k = 32 * (?n div 32) + ?n mod 32 then BAlloc else bslot ?q k)"
        using ix(3,4) by (intro bslot_set [OF len _ _ _ k]) (simp_all add: slot_or_3)
      then show ?thesis using True unfolding free by simp
    next
      case False
      then have "bslot ?q ?n = BAlloc" using less.prems(2) n by (auto simp: two_state_def simp del: slot_state_iff)
      then show ?thesis using False unfolding free by simp
    qed
    have wf': "wf_bmap ?b" using less.prems(1) by (simp add: wf_bmap_def)
    have ts': "two_state (bm_bitmapq ?b)"
      using less.prems(2) slot by (simp add: two_state_def del: slot_state_iff)
    have IH: "wf_bmap (bulkfree_mark (off + 16384) (bytes - 16384) ?b) \<and>
      (\<forall>n < 256. bslot (bm_bitmapq (bulkfree_mark (off + 16384) (bytes - 16384) ?b)) n =
         (if marked_slot (off + 16384) (bytes - 16384) n then BAlloc else bslot (bm_bitmapq ?b) n)) \<and>
      bm_linear (bulkfree_mark (off + 16384) (bytes - 16384) ?b) = bm_linear ?b \<and>
      bm_class (bulkfree_mark (off + 16384) (bytes - 16384) ?b) = bm_class ?b"
    proof (cases "16384 \<le> bytes")
      case ge: True
      have le: "off + 16384 + (bytes - 16384) \<le> 4194304" using less.prems(3) ge by simp
      show ?thesis
        using True by (intro less.IH [OF _ wf' ts' le]) simp
    next
      case False
      then have "bytes - 16384 = 0" by simp
      then show ?thesis using wf' by (auto simp: bulkfree_mark_0 marked_slot_def)
    qed
    define b' where "b' = ?b"
    have lin: "bm_linear b' = bm_linear b" "bm_class b' = bm_class b" by (simp_all add: b'_def)
    show ?thesis
      using IH slot lin unfolding step b'_def [symmetric]
      by (auto simp: marked_slot_step [OF True] simp del: slot_state_iff)
  qed
qed

section \<open>One block reference\<close>

text \<open>The in-memory entry: well formed, two-state, with the bytes \<open>R\<close> of its segment referenced; a linear
  offset inside a block is inside a marked block.\<close>

definition mem_ok :: "bmap_data \<Rightarrow> nat set \<Rightarrow> bool" where
  "mem_ok b R \<longleftrightarrow> wf_bmap b \<and> two_state (bm_bitmapq b) \<and> linear_ok b \<and>
     (mid_block b \<longrightarrow> bslot (bm_bitmapq b) (nat (bm_linear b) div 16384) = BAlloc) \<and>
     (\<forall>x \<in> R. x < HAMMER2_SEGSIZE \<and> bslot (bm_bitmapq b) (x div 16384) = BAlloc)"

text \<open>The extents the allocator hands out: a fragment stays inside its block, larger sizes are aligned
  to their size.\<close>

definition extent_ok :: "nat \<Rightarrow> nat \<Rightarrow> bool" where
  "extent_ok x r \<longleftrightarrow> HAMMER2_RADIX_MIN \<le> r \<and> r \<le> HAMMER2_RADIX_MAX \<and> HAMMER2_ALLOC_MIN dvd x \<and>
     (if r < 14 then x mod 16384 + 2 ^ r \<le> 16384 else 2 ^ r dvd x)"

lemma extent_block_range:
  assumes "extent_ok x r" "y \<in> {x..<x + 2 ^ r}"
  shows "marked_slot x (2 ^ r) (y div 16384)"
proof (cases "r < 14")
  case True
  have "x = 16384 * (x div 16384) + x mod 16384" by simp
  moreover have "x mod 16384 + 2 ^ r \<le> 16384" "y < x + 2 ^ r"
    using assms True by (simp_all add: extent_ok_def)
  ultimately have "y < 16384 * Suc (x div 16384)" unfolding mult_Suc_right by linarith
  then have "y div 16384 < Suc (x div 16384)" by (simp add: less_mult_imp_div_less)
  moreover have "1 \<le> (2 ^ r + 16383) div (16384 :: nat)"
    by (simp add: div_greater_zero_iff Suc_le_eq)
  moreover have "x div 16384 \<le> y div 16384" using assms(2) by (intro div_le_mono) simp
  ultimately show ?thesis by (simp add: marked_slot_def)
next
  case False
  then have "(2::nat) ^ 14 dvd 2 ^ r" by (intro le_imp_power_dvd) simp
  then obtain k where k: "2 ^ r = 16384 * (k :: nat)" by (auto elim: dvdE)
  moreover obtain z where "x = 2 ^ r * z" using assms(1) False by (auto simp: extent_ok_def elim: dvdE)
  ultimately have x: "x = 16384 * (k * z)" by simp
  have "y < 16384 * (k * z + k)" "16384 * (k * z) \<le> y" using assms(2) unfolding k x by (simp_all add: algebra_simps)
  then have "y div 16384 < k * z + k" "k * z \<le> y div 16384"
    by (simp_all add: less_mult_imp_div_less less_eq_div_iff_mult_less_eq mult.commute)
  then show ?thesis by (simp add: marked_slot_def k x)
qed

lemma extent_in_segment:
  assumes "extent_ok x r" "x < 4194304"
  shows "x + 2 ^ r \<le> 4194304"
proof (cases "r < 14")
  case True
  have "x div 16384 < 256" using assms(2) by (simp add: less_mult_imp_div_less)
  then have "16384 * (x div 16384) + 16384 \<le> 4194304" by simp
  moreover have "x = 16384 * (x div 16384) + x mod 16384" by simp
  moreover have "x mod 16384 + 2 ^ r \<le> 16384" using assms(1) True by (simp add: extent_ok_def)
  ultimately show ?thesis by linarith
next
  case False
  then have d: "(2::nat) ^ r dvd x" "r \<le> 16" using assms(1) by (simp_all add: extent_ok_def)
  then have "(2::nat) ^ r dvd 2 ^ 22" by (intro le_imp_power_dvd) simp
  then have "2 ^ r dvd 4194304 - x" using d(1) by (intro dvd_diff_nat) simp_all
  then have "2 ^ r \<le> 4194304 - x" using assms(2) by (intro dvd_imp_le) simp_all
  then show ?thesis using assms(2) by simp
qed

lemma bulkfree_linear_cases:
  assumes "extent_ok x r"
  shows "bulkfree_linear l x (2 ^ r) = l \<or>
    bulkfree_linear l x (2 ^ r) = int (x + 2 ^ r) \<and>
      ((x + 2 ^ r) mod 16384 = 0 \<or> (x + 2 ^ r) div 16384 = x div 16384)"
proof -
  have "(x + 2 ^ r) mod 16384 = 0 \<or> (x + 2 ^ r) div 16384 = x div 16384"
  proof (cases "r < 14")
    case True
    then have le: "x mod 16384 + 2 ^ r \<le> 16384" using assms by (simp add: extent_ok_def)
    have "x + 2 ^ r = 16384 * (x div 16384) + (x mod 16384 + 2 ^ r)" by simp
    then show ?thesis
      using le by (cases "x mod 16384 + 2 ^ r = 16384")
        (metis div_mult_self4 mod_mult_self4 mod_self, metis (no_types, lifting) add.right_neutral div_less div_mult_self4 le_neq_implies_less mult.commute zero_neq_numeral)
  next
    case False
    then have "(2::nat) ^ 14 dvd 2 ^ r" by (intro le_imp_power_dvd) simp
    moreover have "2 ^ r dvd x" using assms False by (simp add: extent_ok_def)
    ultimately have "16384 dvd x + 2 ^ r" by (auto intro: dvd_trans)
    then show ?thesis by (simp add: dvd_eq_mod_eq_0)
  qed
  then show ?thesis by (simp add: bulkfree_linear_def)
qed

lemma mem_ok_mark:
  assumes b: "mem_ok b R" and e: "extent_ok x r" and x: "x < 4194304"
  defines "b' \<equiv> bulkfree_mark x (2 ^ r) (b\<lparr>bm_linear := bulkfree_linear (bm_linear b) x (2 ^ r)\<rparr>)"
  shows "mem_ok b' (R \<union> {x..<x + 2 ^ r})"
    and "\<And>n. n < 256 \<Longrightarrow> bslot (bm_bitmapq b') n =
      (if marked_slot x (2 ^ r) n then BAlloc else bslot (bm_bitmapq b) n)"
proof -
  let ?l = "bulkfree_linear (bm_linear b) x (2 ^ r)"
  note inseg = extent_in_segment [OF e x]
  have spec: "wf_bmap b'" "bm_linear b' = ?l"
    and slot: "\<And>n. n < 256 \<Longrightarrow> bslot (bm_bitmapq b') n =
      (if marked_slot x (2 ^ r) n then BAlloc else bslot (bm_bitmapq b) n)"
    using bulkfree_mark_spec [of "b\<lparr>bm_linear := ?l\<rparr>" x "2 ^ r"] b inseg
    by (simp_all add: b'_def mem_ok_def wf_bmap_def)
  show "\<And>n. n < 256 \<Longrightarrow> bslot (bm_bitmapq b') n =
      (if marked_slot x (2 ^ r) n then BAlloc else bslot (bm_bitmapq b) n)" by (rule slot)
  have mid: "bslot (bm_bitmapq b') (nat ?l div 16384) = BAlloc" if m: "mid_block b'"
  proof -
    have lt: "nat ?l div 16384 < 256"
      using m spec(2) by (auto simp: mid_block_def less_mult_imp_div_less)
    from bulkfree_linear_cases [OF e, of "bm_linear b"] show ?thesis
    proof (elim disjE conjE)
      assume "?l = bm_linear b"
      then show ?thesis using b m spec(2) lt slot by (auto simp: mem_ok_def mid_block_def simp del: slot_state_iff)
    next
      assume l: "?l = int (x + 2 ^ r)" and "(x + 2 ^ r) mod 16384 = 0"
      then have "int (x + 2 ^ r) AND 16383 = 0" by (simp only: int_and_16383 int_mod_16384)
      then show ?thesis using m spec(2) l by (simp add: mid_block_def)
    next
      assume l: "?l = int (x + 2 ^ r)" and d: "(x + 2 ^ r) div 16384 = x div 16384"
      have "marked_slot x (2 ^ r) (x div 16384)" by (rule extent_block_range [OF e]) simp
      moreover have "nat ?l div 16384 = x div 16384" unfolding l nat_int by (rule d)
      ultimately show ?thesis using lt slot by (simp del: slot_state_iff)
    qed
  qed
  have i: "int (x + 2 ^ r) \<le> int 4194304" using inseg by (rule iffD2 [OF of_nat_le_iff])
  have lin: "linear_ok b'"
    using bulkfree_linear_cases [OF e, of "bm_linear b"]
  proof
    assume "?l = bm_linear b"
    then show ?thesis using b spec(2) by (simp add: mem_ok_def linear_ok_def)
  next
    assume "?l = int (x + 2 ^ r) \<and> ((x + 2 ^ r) mod 16384 = 0 \<or> (x + 2 ^ r) div 16384 = x div 16384)"
    then have l: "bm_linear b' = int (x + 2 ^ r)" using spec(2) by simp
    have "1024 dvd x + 2 ^ r" using e by (intro dvd_add power_dvd_1024) (simp_all add: extent_ok_def)
    then have "int 1024 dvd int (x + 2 ^ r)" by (rule iffD2 [OF of_nat_dvd_iff])
    then show ?thesis using i unfolding linear_ok_def l by (simp only: of_nat_0_le_iff of_nat_numeral simp_thms)
  qed
  have two: "two_state (bm_bitmapq b')"
    using b slot by (auto simp: mem_ok_def two_state_def simp del: slot_state_iff)
  have ref: "y < 4194304 \<and> bslot (bm_bitmapq b') (y div 16384) = BAlloc" if "y \<in> R \<union> {x..<x + 2 ^ r}" for y
  proof -
    have y: "y < 4194304" using that b inseg by (auto simp: mem_ok_def)
    then have "y div 16384 < 256" by (simp add: less_mult_imp_div_less)
    then show ?thesis
      using that y b extent_block_range [OF e, of y] by (auto simp: mem_ok_def slot simp del: slot_state_iff)
  qed
  show "mem_ok b' (R \<union> {x..<x + 2 ^ r})"
    unfolding mem_ok_def using spec mid lin two ref by simp
qed

section \<open>h2_bulkfree_callback\<close>

lemma unat_push_1:
  assumes "r < 64"
  shows "unat (push_bit r 1 :: u64) = 2 ^ r"
proof -
  have "(2::nat) ^ r < 2 ^ 64" using assms by (intro power_strict_increasing) simp_all
  then have "take_bit 64 (2 ^ r :: nat) = 2 ^ r" by (rule take_bit_nat_eq_self)
  then show ?thesis by (simp only: unsigned_push_bit_eq) (simp add: push_bit_eq_mult)
qed

text \<open>The range of one pass: whole 4MB segments, each with an entry of the in-memory freemap, which may have more.\<close>

definition cb_geom :: "bulkfree_info \<Rightarrow> bool" where
  "cb_geom cb \<longleftrightarrow> unat (cb_sbase cb) mod 4194304 = 0 \<and>
     unat (cb_sstop cb) mod 4194304 = 0 \<and> unat (cb_sstop cb) \<le> unat (cb_sbase cb) + 4194304 * length (cb_bmap cb)"

definition ext_radix :: "blockref \<Rightarrow> nat" where
  "ext_radix bref = unat (br_data_off bref AND HAMMER2_OFF_MASK_RADIX)"

definition in_range :: "h2dev \<Rightarrow> bulkfree_info \<Rightarrow> blockref \<Rightarrow> bool" where
  "in_range d cb bref \<longleftrightarrow> unat (cb_sbase cb) \<le> bref_off bref \<and> bref_off bref < unat (cb_sstop cb) \<and>
     unat (dv_allocator_beg d) \<le> bref_off bref \<and> bref_off bref < unat (dv_total_size d)"

lemma callback_outside:
  "\<not> (sig \<and> \<not> cb_signaled cb) \<Longrightarrow> \<not> in_range d cb bref \<Longrightarrow>
   h2_bulkfree_callback sig d cb bref = Some (0, cb)"
  by (auto simp: h2_bulkfree_callback_def in_range_def bref_off_def Let_def word_less_nat_alt word_le_nat_alt)

text \<open>The entry and the offset inside it.\<close>

definition ref_entry :: "bulkfree_info \<Rightarrow> blockref \<Rightarrow> nat" where
  "ref_entry cb bref = (bref_off bref - unat (cb_sbase cb)) div 4194304"

definition ref_off :: "bulkfree_info \<Rightarrow> blockref \<Rightarrow> nat" where
  "ref_off cb bref = (bref_off bref - unat (cb_sbase cb)) mod 4194304"

lemma ref_off_eq:
  assumes "cb_geom cb" "unat (cb_sbase cb) \<le> bref_off bref"
  shows "ref_off cb bref = bref_off bref mod 4194304"
proof -
  obtain k where "unat (cb_sbase cb) = 4194304 * k" using assms(1) by (auto simp: cb_geom_def)
  moreover obtain z where "bref_off bref = unat (cb_sbase cb) + z" using assms(2) by (metis le_iff_add)
  ultimately show ?thesis by (simp add: ref_off_def)
qed

lemma extent_mod:
  assumes "extent_ok x r"
  shows "extent_ok (x mod 4194304) r"
proof -
  have "x mod 4194304 mod 16384 = x mod 16384" by (simp add: mod_mod_cancel)
  moreover have "2 ^ r dvd x mod 4194304" if "2 ^ r dvd x" "r \<le> 16"
  proof -
    have "(2::nat) ^ r dvd 2 ^ 22" using that(2) by (intro le_imp_power_dvd) simp
    then have "2 ^ r dvd (4194304 :: nat)" by simp
    then show ?thesis using that(1) by (simp add: dvd_mod)
  qed
  moreover have "1024 dvd x mod 4194304 \<longleftrightarrow> 1024 dvd x" by (simp add: dvd_mod_iff)
  ultimately show ?thesis using assms by (auto simp: extent_ok_def)
qed

definition mark_entry :: "u8 \<Rightarrow> nat \<Rightarrow> nat \<Rightarrow> bmap_data \<Rightarrow> bmap_data" where
  "mark_entry type x r b =
     (let b = (if bm_class b = 0 then b\<lparr>bm_class := freemap_class type, bm_avail := HAMMER2_FREEMAP_LEVEL0_SIZE\<rparr> else b)
      in bulkfree_mark x (2 ^ r) (b\<lparr>bm_linear := bulkfree_linear (bm_linear b) x (2 ^ r)\<rparr>))"

lemma callback_inside:
  assumes geom: "cb_geom cb" and sig: "\<not> (sig \<and> \<not> cb_signaled cb)" and rng: "in_range d cb bref"
    and ext: "extent_ok (bref_off bref) (ext_radix bref)"
  shows "h2_bulkfree_callback sig d cb bref =
      Some (0, cb\<lparr>cb_bmap := (cb_bmap cb)[ref_entry cb bref :=
        mark_entry (br_type bref) (ref_off cb bref) (ext_radix bref) (cb_bmap cb ! ref_entry cb bref)]\<rparr>)"
    and "ref_entry cb bref < length (cb_bmap cb)"
proof -
  let ?r = "ext_radix bref"
  let ?o = "br_data_off bref AND NOT HAMMER2_OFF_MASK_RADIX"
  let ?x = "ref_off cb bref"
  have r: "10 \<le> ?r" "?r \<le> 16" using ext by (simp_all add: extent_ok_def)
  have sb: "unat (cb_sbase cb) \<le> unat ?o" "unat ?o < unat (cb_sstop cb)"
    using rng by (simp_all add: in_range_def bref_off_def)
  have x: "?x < 4194304" by (simp add: ref_off_def)
  have ex: "extent_ok ?x ?r"
    using extent_mod [OF ext] rng by (simp add: ref_off_eq [OF geom] in_range_def)
  note inseg = extent_in_segment [OF ex x]
  have bytes: "unat (push_bit ?r 1 :: u64) = 2 ^ ?r"
    using r by (intro unat_push_1) simp
  have rel: "unat (?o - cb_sbase cb) = bref_off bref - unat (cb_sbase cb)"
    using sb by (simp add: unat_sub word_le_nat_alt bref_off_def)
  have m22: "(4194303 :: u64) = mask 22" by (simp add: mask_eq_exp_minus_1)
  have entry: "unat (drop_bit 22 (?o - cb_sbase cb)) = ref_entry cb bref"
    by (simp only: unat_drop_bit rel ref_entry_def) simp
  have off: "unat ((?o - cb_sbase cb) AND 4194303) = ?x"
    by (simp only: m22 unat_and_mask rel ref_off_def) simp
  have len: "bref_off bref - unat (cb_sbase cb) < 4194304 * length (cb_bmap cb)"
    using geom sb unfolding cb_geom_def bref_off_def by linarith
  then show elen: "ref_entry cb bref < length (cb_bmap cb)"
    by (simp add: ref_entry_def less_mult_imp_div_less mult.commute)
  have sum: "bref_off bref = unat (cb_sbase cb) + 4194304 * ref_entry cb bref + ?x"
    using sb by (simp add: ref_entry_def ref_off_def bref_off_def)
  have fit: "bref_off bref + 2 ^ ?r \<le> unat (cb_sstop cb)"
  proof -
    obtain i j where ij: "unat (cb_sbase cb) = 4194304 * i" "unat (cb_sstop cb) = 4194304 * j"
      using geom unfolding cb_geom_def mod_eq_0_iff_dvd by (elim conjE dvdE) blast
    have "bref_off bref < unat (cb_sstop cb)" using sb by (simp add: bref_off_def)
    then have "i + ref_entry cb bref < j" using sum ij by simp
    then have "4194304 * Suc (i + ref_entry cb bref) \<le> 4194304 * j" by (intro mult_le_mono2) simp
    then show ?thesis using sum inseg ij by simp
  qed
  have nofix1: "\<not> cb_sstop cb < ?o + push_bit ?r 1"
  proof -
    have "unat ?o + unat (push_bit ?r 1 :: u64) \<le> unat (cb_sstop cb)" using fit bytes by (simp add: bref_off_def)
    moreover have "unat (cb_sstop cb) < 2 ^ 64" using unsigned_less [of "cb_sstop cb"] by simp
    ultimately show ?thesis by (simp add: word_less_nat_alt unat_add_small)
  qed
  have nofix2: "\<not> 4194304 < ((?o - cb_sbase cb) AND 4194303) + push_bit ?r 1"
  proof -
    have "unat (((?o - cb_sbase cb) AND 4194303) + push_bit ?r 1) = ?x + 2 ^ ?r"
      using inseg off bytes by (subst unat_add_small) simp_all
    then show ?thesis using inseg by (simp add: word_less_nat_alt)
  qed
  have guards: "\<not> (?o < cb_sbase cb \<or> cb_sstop cb \<le> ?o)" "\<not> ?o < dv_allocator_beg d" "\<not> dv_total_size d \<le> ?o"
    using rng by (simp_all add: in_range_def bref_off_def word_less_nat_alt word_le_nat_alt)
  have rr: "unat (br_data_off bref AND HAMMER2_OFF_MASK_RADIX) = ?r" "?r \<noteq> 0"
    using r by (simp_all add: ext_radix_def)
  show "h2_bulkfree_callback sig d cb bref =
      Some (0, cb\<lparr>cb_bmap := (cb_bmap cb)[ref_entry cb bref :=
        mark_entry (br_type bref) ?x ?r (cb_bmap cb ! ref_entry cb bref)]\<rparr>)"
    unfolding h2_bulkfree_callback_def Let_def if_not_P [OF sig] if_not_P [OF guards(1)]
      if_not_P [OF guards(2)] if_not_P [OF guards(3)]
    by (simp only: rr kkassert_bind if_True simp_thms if_not_P [OF nofix1] if_not_P [OF nofix2]
        entry off bytes mark_entry_def Let_def)
qed

end
