(* ===== verification/H2_Bigmask.thy ===== *)
theory H2_Bigmask
  imports H2_Sync
begin

text \<open>
  The size hint of a freemap leaf, as the bulk-free pass recomputes it: \<open>bigmask_get\<close> sets the bit of
  a radix exactly when the entry has a free aligned run of that size.
\<close>

definition free_run :: "u64 \<Rightarrow> nat \<Rightarrow> nat \<Rightarrow> bool" where
  "free_run w a m \<longleftrightarrow> (\<forall>k. a \<le> k \<and> k < a + m \<longrightarrow> slot_state w k = BFree)"

lemma scan_test:
  "m * c + m \<le> 32 \<Longrightarrow> (runmask (2 * (m * c)) (2 * m) AND w = (0 :: u64)) \<longleftrightarrow> free_run w (m * c) m"
  by (simp only: and.commute [of "runmask _ _"] free_run_iff free_run_def)

lemma bigmask_scan_run:
  assumes "0 < m" "m * n = 32" "c \<le> n"
  shows "bigmask_scan w (runmask (2 * (m * c)) (2 * m)) (2 * m) (2 * (m * c)) rm big =
    (if \<exists>c'. c \<le> c' \<and> c' < n \<and> free_run w (m * c') m then big OR rm else big)"
  using assms(3)
proof (induction "n - c" arbitrary: c big)
  case 0
  then have "c = n" by simp
  then show ?case using assms(2) by (subst bigmask_scan.simps) auto
next
  case (Suc k)
  then have c: "c < n" by simp
  then have "m * Suc c \<le> m * n" by (intro mult_le_mono2) simp
  then have le: "m * c + m \<le> 32" using assms(2) by simp
  then have lt: "2 * (m * c) < 64" using assms(1) by linarith
  have j: "2 * (m * c) + 2 * m = 2 * (m * Suc c)" by simp
  have pos: "0 < 2 * m" using assms(1) by simp
  have push: "push_bit (2 * m) (runmask (2 * (m * c)) (2 * m)) = (runmask (2 * (m * Suc c)) (2 * m) :: u64)"
    by (simp only: runmask_push j)
  have step: "bigmask_scan w (runmask (2 * (m * c)) (2 * m)) (2 * m) (2 * (m * c)) rm big =
      bigmask_scan w (runmask (2 * (m * Suc c)) (2 * m)) (2 * m) (2 * (m * Suc c)) rm
        (if free_run w (m * c) m then big OR rm else big)"
    by (subst bigmask_scan.simps) (simp only: push scan_test [OF le] j lt pos simp_thms if_True)
  have ex: "(\<exists>c'. c \<le> c' \<and> c' < n \<and> free_run w (m * c') m) \<longleftrightarrow>
      free_run w (m * c) m \<or> (\<exists>c'. Suc c \<le> c' \<and> c' < n \<and> free_run w (m * c') m)"
    using c by (metis Suc_leD Suc_leI le_neq_implies_less le_refl)
  show ?case
    unfolding step ex using Suc.hyps(2) c
    by (subst Suc.hyps(1)) (auto simp: or.assoc)
qed

lemma bigmask_scan_start:
  "(if 2 * m = 64 then - 1 else push_bit (2 * m) 1 - 1 :: u64) = runmask 0 (2 * m)" if "m \<le> 32"
proof (cases "m = 32")
  case True
  then show ?thesis by (simp add: runmask_def mask_eq_exp_minus_1)
next
  case False
  then have "2 * m \<noteq> 64" by simp
  then show ?thesis by (simp only: runmask_def shift_ones_eq_mask push_bit_0_id id_apply if_False)
qed

text \<open>The sizes: \<open>t\<close> is the base-2 logarithm of the number of slots.\<close>

definition has_run :: "u64 \<Rightarrow> nat \<Rightarrow> bool" where
  "has_run w t \<longleftrightarrow> (\<exists>c. 2 ^ t * c + 2 ^ t \<le> 32 \<and> free_run w (2 ^ t * c) (2 ^ t))"

lemma push_mask_or_1: "push_bit 1 (mask n) OR 1 = (mask (Suc n) :: 'a::len word)"
  by (simp add: mask_Suc_double or.commute mult.commute)

lemma bit_bigmask_iter:
  assumes "t \<le> 6" "r < 32"
  shows "bit (bigmask_iter w (2 * 2 ^ t) (mask (15 + t)) big) r \<longleftrightarrow>
    bit big r \<or> (\<exists>t'. t \<le> t' \<and> t' \<le> 5 \<and> r < 15 + t' \<and> has_run w t')"
  using assms(1)
proof (induction "6 - t" arbitrary: t big)
  case 0
  then have "t = 6" by simp
  then show ?case by (subst bigmask_iter.simps) auto
next
  case (Suc k)
  then have t: "t \<le> 5" by simp
  then have le: "(2::nat) ^ t \<le> 2 ^ 5" by (intro power_increasing) simp_all
  then have le32: "(2::nat) ^ t \<le> 32" by simp
  then have cond: "2 * 2 ^ t \<le> (64 :: nat)" "0 < 2 * (2 :: nat) ^ t" by simp_all
  have it: "2 * 2 ^ t * 2 = 2 * (2 :: nat) ^ Suc t" and mk: "Suc (15 + t) = 15 + Suc t" by simp_all
  have n: "2 ^ t * 2 ^ (5 - t) = (32 :: nat)"
    using t by (simp flip: power_add)
  let ?big = "if has_run w t then big OR mask (15 + t) else big"
  have run: "(\<exists>c'. c' < 2 ^ (5 - t) \<and> free_run w (2 ^ t * c') (2 ^ t)) \<longleftrightarrow> has_run w t"
  proof -
    have "c' < 2 ^ (5 - t) \<longleftrightarrow> 2 ^ t * c' + 2 ^ t \<le> (32 :: nat)" for c'
    proof -
      have "c' < 2 ^ (5 - t) \<longleftrightarrow> 2 ^ t * Suc c' \<le> 2 ^ t * 2 ^ (5 - t)"
        by (subst nat_mult_le_cancel1) (simp_all add: Suc_le_eq)
      then show ?thesis by (simp add: n add.commute)
    qed
    then show ?thesis by (simp add: has_run_def)
  qed
  have scan: "bigmask_scan w (runmask 0 (2 * 2 ^ t)) (2 * 2 ^ t) 0 (mask (15 + t)) big = ?big"
    using bigmask_scan_run [of "2 ^ t" "2 ^ (5 - t)" 0 w "mask (15 + t)" big] n run by simp
  have step: "bigmask_iter w (2 * 2 ^ t) (mask (15 + t)) big =
      bigmask_iter w (2 * 2 ^ Suc t) (mask (15 + Suc t)) ?big"
    by (subst bigmask_iter.simps)
      (simp only: bigmask_scan_start [OF le32] scan push_mask_or_1 cond simp_thms if_True it mk)
  have b: "bit ?big r \<longleftrightarrow> bit big r \<or> (has_run w t \<and> r < 15 + t)"
    using assms(2) by (auto simp: bit_or_iff bit_mask_iff)
  then show ?case
  proof -
    have "bit (bigmask_iter w (2 * 2 ^ Suc t) (mask (15 + Suc t)) ?big) r \<longleftrightarrow>
        bit ?big r \<or> (\<exists>t'. Suc t \<le> t' \<and> t' \<le> 5 \<and> r < 15 + t' \<and> has_run w t')"
      using Suc.hyps(2) t by (intro Suc.hyps(1)) simp_all
    moreover have "(\<exists>t'. t \<le> t' \<and> t' \<le> 5 \<and> r < 15 + t' \<and> has_run w t') \<longleftrightarrow>
        (has_run w t \<and> r < 15 + t) \<or> (\<exists>t'. Suc t \<le> t' \<and> t' \<le> 5 \<and> r < 15 + t' \<and> has_run w t')"
      using t by (metis Suc_leD Suc_leI le_neq_implies_less le_refl)
    ultimately show ?thesis unfolding step using b by blast
  qed
qed

lemma bigmask_radix_eq: "bigmask_radix = mask 15"
  by (simp add: bigmask_radix_def Let_def mask_eq_exp_minus_1)


lemma bit_bigmask_element:
  assumes "r < 32"
  shows "bit (bigmask_iter w 2 bigmask_radix big) r \<longleftrightarrow>
    bit big r \<or> (\<exists>t \<le> 5. r < 15 + t \<and> has_run w t)"
  using bit_bigmask_iter [of 0 r w big] assms by (simp add: bigmask_radix_eq)

lemma bit_bigmask_get:
  assumes "r < 32"
  shows "bit (bigmask_get b) r \<longleftrightarrow> (\<exists>e < 8. \<exists>t \<le> 5. r < 15 + t \<and> has_run (bm_bitmapq b ! e) t)"
proof -
  have "bit (foldl (\<lambda>big i. bigmask_iter (bm_bitmapq b ! i) 2 bigmask_radix big) big is) r \<longleftrightarrow>
      bit big r \<or> (\<exists>e \<in> set is. \<exists>t \<le> 5. r < 15 + t \<and> has_run (bm_bitmapq b ! e) t)" for big "is"
    using assms by (induction "is" arbitrary: big) (auto simp: bit_bigmask_element)
  then show ?thesis by (auto simp: bigmask_get_def)
qed

text \<open>A free aligned run contains the smaller ones, so the smallest size that the radix needs decides.\<close>

lemma has_run_mono:
  assumes "has_run w t" "s \<le> t"
  shows "has_run w s"
proof -
  obtain c where c: "2 ^ t * c + 2 ^ t \<le> 32" "free_run w (2 ^ t * c) (2 ^ t)"
    using assms(1) by (auto simp: has_run_def)
  have eq: "(2::nat) ^ t = 2 ^ s * 2 ^ (t - s)" using assms(2) by (simp flip: power_add)
  have le: "(2::nat) ^ s \<le> 2 ^ t" using assms(2) by (intro power_increasing) simp_all
  show ?thesis
    unfolding has_run_def
  proof (intro exI conjI)
    have "2 ^ s * (2 ^ (t - s) * c) = 2 ^ t * c" by (simp add: eq mult.assoc)
    then show "2 ^ s * (2 ^ (t - s) * c) + 2 ^ s \<le> 32"
      using c(1) le by linarith
    show "free_run w (2 ^ s * (2 ^ (t - s) * c)) (2 ^ s)"
      using c(2) le unfolding free_run_def eq mult.assoc by (meson add_left_mono less_le_trans)
  qed
qed

text \<open>In the coordinates of the entry.\<close>

definition free_blocks :: "bmap_data \<Rightarrow> nat \<Rightarrow> nat \<Rightarrow> bool" where
  "free_blocks b n m \<longleftrightarrow> (\<forall>k. n \<le> k \<and> k < n + m \<longrightarrow> bslot (bm_bitmapq b) k = BFree)"

lemma free_run_blocks:
  assumes "a + m \<le> 32"
  shows "free_run (bm_bitmapq b ! e) a m \<longleftrightarrow> free_blocks b (32 * e + a) m"
proof
  assume L: "free_run (bm_bitmapq b ! e) a m"
  show "free_blocks b (32 * e + a) m"
    unfolding free_blocks_def
  proof (intro allI impI)
    fix k assume k: "32 * e + a \<le> k \<and> k < 32 * e + a + m"
    then obtain j where j: "k = 32 * e + j" "a \<le> j" "j < a + m"
      by (metis add.assoc add_le_cancel_left add_lessD1 le_iff_add nat_add_left_cancel_less)
    then show "bslot (bm_bitmapq b) k = BFree"
      using L assms by (simp only: bslot_index free_run_def)
  qed
next
  assume R: "free_blocks b (32 * e + a) m"
  show "free_run (bm_bitmapq b ! e) a m"
    unfolding free_run_def
  proof (intro allI impI)
    fix k assume "a \<le> k \<and> k < a + m"
    then show "slot_state (bm_bitmapq b ! e) k = BFree"
      using R assms bslot_index [of k "bm_bitmapq b" e]
      by (auto simp: free_blocks_def simp del: slot_state_iff)
  qed
qed

lemma has_run_blocks:
  assumes "t \<le> 5"
  shows "(\<exists>e < 8. has_run (bm_bitmapq b ! e) t) \<longleftrightarrow>
    (\<exists>n. 2 ^ t dvd n \<and> n + 2 ^ t \<le> 256 \<and> free_blocks b n (2 ^ t))"
proof -
  define p where "p = (2 :: nat) ^ t"
  have p: "p * 2 ^ (5 - t) = 32" using assms by (simp add: p_def flip: power_add)
  have pos: "0 < p" by (simp add: p_def)
  have d32: "p dvd 32" using p by (metis dvd_triv_left)
  show ?thesis
    unfolding has_run_def p_def [symmetric]
  proof
    assume "\<exists>e<8. \<exists>c. p * c + p \<le> 32 \<and> free_run (bm_bitmapq b ! e) (p * c) p"
    then obtain e c where e: "e < 8" "p * c + p \<le> 32" "free_run (bm_bitmapq b ! e) (p * c) p" by blast
    then have "free_blocks b (32 * e + p * c) p" by (simp add: free_run_blocks)
    moreover have "p dvd 32 * e + p * c" using d32 by simp
    ultimately show "\<exists>n. p dvd n \<and> n + p \<le> 256 \<and> free_blocks b n p" using e by force
  next
    assume "\<exists>n. p dvd n \<and> n + p \<le> 256 \<and> free_blocks b n p"
    then obtain n where n: "p dvd n" "n + p \<le> 256" "free_blocks b n p" by blast
    have "p dvd n mod 32" using n(1) d32 by (simp add: dvd_mod_iff)
    then obtain c where c: "n mod 32 = p * c" by blast
    have "p * c < p * 2 ^ (5 - t)" using c p by (metis mod_less_divisor zero_less_numeral)
    then have "p * Suc c \<le> p * 2 ^ (5 - t)" using pos by (intro mult_le_mono2) simp
    then have "p * c + p \<le> 32" using p by simp
    moreover have "n = 32 * (n div 32) + p * c" using c by (metis mult_div_mod_eq)
    moreover have "n div 32 < 8" using n(2) pos by (simp add: less_mult_imp_div_less)
    ultimately show "\<exists>e<8. \<exists>c. p * c + p \<le> 32 \<and> free_run (bm_bitmapq b ! e) (p * c) p"
      using n(3) by (metis free_run_blocks)
  qed
qed

lemma bigmask_get_radix:
  assumes "r < 32"
  shows "bit (bigmask_get b) r \<longleftrightarrow>
    r \<le> 19 \<and> (\<exists>n. 2 ^ (r - 14) dvd n \<and> n + 2 ^ (r - 14) \<le> 256 \<and> free_blocks b n (2 ^ (r - 14)))"
proof (cases "r \<le> 19")
  case True
  have "(\<exists>t \<le> 5. r < 15 + t \<and> has_run w t) \<longleftrightarrow> has_run w (r - 14)" for w
  proof
    assume "\<exists>t \<le> 5. r < 15 + t \<and> has_run w t"
    then obtain t where "r < 15 + t" "has_run w t" by blast
    then show "has_run w (r - 14)" by (auto intro: has_run_mono)
  next
    assume "has_run w (r - 14)"
    then show "\<exists>t \<le> 5. r < 15 + t \<and> has_run w t" using True by (intro exI [of _ "r - 14"]) auto
  qed
  then show ?thesis
    using True assms has_run_blocks [of "r - 14" b] by (simp add: bit_bigmask_get)
next
  case False
  then show ?thesis using assms by (auto simp: bit_bigmask_get)
qed

end
