(* ===== verification/H2_BulkSync.thy ===== *)
theory H2_BulkSync
  imports H2_BulkMark H2_Bigmask
begin

text \<open>
  The whole merge: \<open>h2_bulkfree_sync\<close> visits every entry of the range once and merges it into the
  live leaf, and leaves every other entry alone.
\<close>

section \<open>Frames\<close>

definition sync_frame :: "bulkfree_info \<times> h2dev \<Rightarrow> bulkfree_info \<times> h2dev \<Rightarrow> bool" where
  "sync_frame s t \<longleftrightarrow>
     cb_sbase (fst t) = cb_sbase (fst s) \<and> cb_sstop (fst t) = cb_sstop (fst s) \<and>
     dv_fmap (snd t) = dv_fmap (snd s) \<and> dv_allocator_beg (snd t) = dv_allocator_beg (snd s) \<and>
     dv_total_size (snd t) = dv_total_size (snd s)"

lemma sync_frame_refl [simp]: "sync_frame s s"
  by (simp add: sync_frame_def)

lemma sync_frame_trans: "sync_frame s t \<Longrightarrow> sync_frame t u \<Longrightarrow> sync_frame s u"
  by (simp add: sync_frame_def)

lemma sync_slot_frame: "sync_frame (sy_cb s, sy_dev s) (sy_cb (sync_slot m l b k off s), sy_dev (sync_slot m l b k off s))"
  by (simp add: sync_slot_def Let_def sync_frame_def log_event_def)

lemma sync_bits_frame:
  "sync_frame (sy_cb s, sy_dev s)
     (sy_cb (snd (sync_bits mm lm b k off s)), sy_dev (snd (sync_bits mm lm b k off s)))"
proof (induction mm lm b k off s rule: sync_bits.induct)
  case (1 mm lm b k off s)
  show ?case
  proof (cases "k < 64")
    case True
    then show ?thesis
      by (subst sync_bits.simps, subst sync_bits.simps)
        (use sync_frame_trans [OF sync_slot_frame "1.IH" [OF True]] in simp)
  qed (simp add: sync_bits.simps [of mm])
qed

lemma sync_elements_frame:
  "sync_frame (sy_cb s, sy_dev s) (sy_cb (sync_elements mq b off s), sy_dev (sync_elements mq b off s))"
proof (induction "8 - b" arbitrary: b off s)
  case 0
  then show ?case by (simp add: sync_elements.simps [of mq b])
next
  case (Suc n)
  let ?lq = "bm_bitmapq (sy_live s)"
  let ?r = "if ?lq ! b = mq ! b then (off + HAMMER2_BMAP_INDEX_SIZE, s)
            else sync_bits (mq ! b) (?lq ! b) b 0 off s"
  have step: "sync_elements mq b off s = sync_elements mq (Suc b) (fst ?r) (snd ?r)"
    using Suc.hyps(2) by (subst sync_elements.simps) (simp add: Let_def split: prod.split)
  have "sync_frame (sy_cb s, sy_dev s) (sy_cb (snd ?r), sy_dev (snd ?r))"
    using sync_bits_frame by simp
  moreover have "sync_frame (sy_cb (snd ?r), sy_dev (snd ?r))
      (sy_cb (sync_elements mq (Suc b) (fst ?r) (snd ?r)), sy_dev (sync_elements mq (Suc b) (fst ?r) (snd ?r)))"
    using Suc.hyps(2) by (intro Suc.hyps(1)) simp
  ultimately show ?case unfolding step by (rule sync_frame_trans)
qed

lemma sync_adjust_frame:
  assumes "h2_bulkfree_sync_adjust cb d off live bmap = (cb', d', live')"
  shows "sync_frame (cb, d) (cb', d')"
proof -
  define s where "s = sync_elements (bm_bitmapq bmap) 0 off \<lparr>sy_cb = cb, sy_dev = d, sy_live = live\<rparr>"
  have 1: "sync_frame (cb, d) (sy_cb s, sy_dev s)"
    using sync_elements_frame [of "\<lparr>sy_cb = cb, sy_dev = d, sy_live = live\<rparr>"] by (simp add: s_def)
  obtain c l where l: "sync_linear bmap (sy_cb s) (sy_live s) = (c, l)" by fastforce
  then have "sync_frame (sy_cb s, sy_dev s) (c, sy_dev s)"
    by (auto simp: sync_linear_def sync_frame_def split: option.splits if_splits)
  moreover have "cb' = c" "d' = sy_dev s"
    using assms l by (simp_all add: h2_bulkfree_sync_adjust_def s_def)
  ultimately show ?thesis using 1 sync_frame_trans by blast
qed

section \<open>The live entry of an address\<close>

definition leaf_key :: "h2_off \<Rightarrow> h2_key" where
  "leaf_key a = a AND NOT HAMMER2_FREEMAP_LEVEL1_MASK"

definition leaf_slot :: "h2_off \<Rightarrow> nat" where
  "leaf_slot a = unat (drop_bit HAMMER2_FREEMAP_LEVEL0_RADIX (a AND HAMMER2_FREEMAP_LEVEL1_MASK))"

definition live_at :: "h2dev \<Rightarrow> h2_off \<Rightarrow> bmap_data option" where
  "live_at d a = (case dv_fmap d (leaf_key a) of None \<Rightarrow> None
     | Some lf \<Rightarrow> if lf_error lf = 0 then Some (lf_bmdata lf ! leaf_slot a) else None)"

definition leaves_ok :: "h2dev \<Rightarrow> bool" where
  "leaves_ok d \<longleftrightarrow> (\<forall>k lf. dv_fmap d k = Some lf \<longrightarrow> length (lf_bmdata lf) = HAMMER2_FREEMAP_COUNT)"

lemma leaf_slot_nat: "leaf_slot a = unat a mod 2 ^ 30 div 2 ^ 22"
proof -
  have m: "(HAMMER2_FREEMAP_LEVEL1_MASK :: u64) = mask 30" by (simp add: mask_eq_exp_minus_1)
  show ?thesis by (simp only: leaf_slot_def m unat_drop_bit unat_and_mask)
qed

lemma leaf_slot_less: "leaf_slot a < 256"
proof -
  have "unat a mod 2 ^ 30 < 256 * 2 ^ 22" by simp
  then show ?thesis unfolding leaf_slot_nat by (rule less_mult_imp_div_less)
qed

lemma leaf_key_nat: "unat (leaf_key a) = unat a - unat a mod 2 ^ 30"
proof -
  have m: "(HAMMER2_FREEMAP_LEVEL1_MASK :: u64) = mask 30" by (simp add: mask_eq_exp_minus_1)
  show ?thesis by (simp only: leaf_key_def m unat_and_not_mask)
qed

lemma same_live_slot:
  assumes "leaf_key a = leaf_key b" "leaf_slot a = leaf_slot b"
    and "unat a mod 4194304 = 0" "unat b mod 4194304 = 0"
  shows "a = b"
proof -
  have split: "unat c = unat (leaf_key c) + 4194304 * leaf_slot c" if c: "unat c mod 4194304 = 0" for c
  proof -
    have "unat c mod 2 ^ 30 mod 4194304 = unat c mod 4194304" by (rule mod_mod_cancel) simp
    then have "4194304 * (unat c mod 2 ^ 30 div 4194304) = unat c mod 2 ^ 30"
      using c by (metis add.right_neutral mult_div_mod_eq)
    moreover have "unat c mod 2 ^ 30 \<le> unat c" by (rule mod_less_eq_dividend)
    ultimately show ?thesis by (simp add: leaf_key_nat leaf_slot_nat)
  qed
  have "unat a = unat b" using split [OF assms(3)] split [OF assms(4)] assms(1,2) by simp
  then show ?thesis by (simp add: word_unat_eq_iff)
qed

section \<open>One entry\<close>

definition merged_entry :: "bmap_data \<Rightarrow> bmap_data \<Rightarrow> bmap_data \<Rightarrow> bool" where
  "merged_entry bmap live live' \<longleftrightarrow> wf_bmap live' \<and> (avail_exact live \<longrightarrow> avail_exact live') \<and>
     (\<forall>n < 256. bslot (bm_bitmapq live') n = merge_slot (bslot (bm_bitmapq bmap) n) (bslot (bm_bitmapq live) n))"

definition dev_frame :: "bulkfree_info \<times> h2dev \<Rightarrow> bulkfree_info \<times> h2dev \<Rightarrow> bool" where
  "dev_frame s t \<longleftrightarrow>
     cb_sbase (fst t) = cb_sbase (fst s) \<and> cb_sstop (fst t) = cb_sstop (fst s) \<and>
     dv_allocator_beg (snd t) = dv_allocator_beg (snd s) \<and> dv_total_size (snd t) = dv_total_size (snd s) \<and>
     (leaves_ok (snd s) \<longrightarrow> leaves_ok (snd t))"

lemma sync_entry_eq:
  "sync_entry a bm (cb, d) =
     (if a < dv_allocator_beg d then (cb, d)
      else if dv_total_size d \<le> a then (cb, d)
      else case dv_fmap d (leaf_key a) of None \<Rightarrow> (cb, d)
      | Some lf \<Rightarrow>
          if lf_error lf \<noteq> 0 then (cb, d)
          else if bm_bitmapq (lf_bmdata lf ! leaf_slot a) = bm_bitmapq bm \<and>
                  bm_linear bm \<le> bm_linear (lf_bmdata lf ! leaf_slot a) \<and> bigmask_good bm (lf_bigmask lf)
          then (cb, d)
          else (case h2_bulkfree_sync_adjust cb (d\<lparr>dv_relaxed := 0\<rparr>) a (lf_bmdata lf ! leaf_slot a) bm of
                  (cb', d', live') \<Rightarrow> (cb', d'\<lparr>dv_fmap := (dv_fmap d')(leaf_key a \<mapsto>
                     lf\<lparr>lf_bigmask := - 1, lf_bmdata := (lf_bmdata lf)[leaf_slot a := live']\<rparr>)\<rparr>)))"
  by (simp only: sync_entry_def leaf_key_def leaf_slot_def Let_def prod.case)

lemma sync_entry_cases:
  obtains (skip) "sync_entry a bm (cb, d) = (cb, d)"
      "\<And>live. live_at d a = Some live \<Longrightarrow> dv_allocator_beg d \<le> a \<Longrightarrow> a < dv_total_size d \<Longrightarrow>
         bm_bitmapq live = bm_bitmapq bm"
  | (merge) lf cb' d' live' where "dv_fmap d (leaf_key a) = Some lf" "lf_error lf = 0"
      "h2_bulkfree_sync_adjust cb (d\<lparr>dv_relaxed := 0\<rparr>) a (lf_bmdata lf ! leaf_slot a) bm = (cb', d', live')"
      "sync_entry a bm (cb, d) = (cb', d'\<lparr>dv_fmap := (dv_fmap d')(leaf_key a \<mapsto>
         lf\<lparr>lf_bigmask := - 1, lf_bmdata := (lf_bmdata lf)[leaf_slot a := live']\<rparr>)\<rparr>)"
proof (cases "a < dv_allocator_beg d \<or> dv_total_size d \<le> a")
  case True
  then show ?thesis by (intro skip) (auto simp: sync_entry_eq)
next
  case rng: False
  show ?thesis
  proof (cases "dv_fmap d (leaf_key a)")
    case None
    then show ?thesis by (intro skip) (auto simp: sync_entry_eq live_at_def)
  next
    case (Some lf)
    show ?thesis
    proof (cases "lf_error lf = 0")
      case False
      then show ?thesis using Some
        by (intro skip) (auto simp: sync_entry_eq live_at_def)
    next
      case err: True
      let ?live = "lf_bmdata lf ! leaf_slot a"
      show ?thesis
      proof (cases "bm_bitmapq ?live = bm_bitmapq bm \<and> bm_linear bm \<le> bm_linear ?live \<and> bigmask_good bm (lf_bigmask lf)")
        case True
        then show ?thesis using Some rng err
          by (intro skip) (auto simp: sync_entry_eq live_at_def)
      next
        case False
        obtain cb' d' live' where adj:
          "h2_bulkfree_sync_adjust cb (d\<lparr>dv_relaxed := 0\<rparr>) a ?live bm = (cb', d', live')"
          by (metis prod_cases3)
        have "sync_entry a bm (cb, d) = (cb', d'\<lparr>dv_fmap := (dv_fmap d')(leaf_key a \<mapsto>
            lf\<lparr>lf_bigmask := - 1, lf_bmdata := (lf_bmdata lf)[leaf_slot a := live']\<rparr>)\<rparr>)"
          using rng Some err adj by (simp add: sync_entry_eq if_not_P [OF False])
        then show ?thesis using Some err adj by (intro merge)
      qed
    qed
  qed
qed

lemma sync_entry_frame: "dev_frame (cb, d) (sync_entry a bm (cb, d))"
proof (cases rule: sync_entry_cases [of a bm cb d])
  case skip
  then show ?thesis by (simp add: dev_frame_def)
next
  case (merge lf cb' d' live')
  show ?thesis
    using sync_adjust_frame [OF merge(3)] merge(1)
    by (auto simp: merge(4) dev_frame_def sync_frame_def leaves_ok_def)
qed

lemma sync_entry_other:
  assumes "a \<noteq> b" "unat a mod 4194304 = 0" "unat b mod 4194304 = 0" "leaves_ok d"
  shows "live_at (snd (sync_entry a bm (cb, d))) b = live_at d b"
proof (cases rule: sync_entry_cases [of a bm cb d])
  case skip
  then show ?thesis by simp
next
  case (merge lf cb' d' live')
  have fm: "dv_fmap d' = dv_fmap d" using sync_adjust_frame [OF merge(3)] by (simp add: sync_frame_def)
  show ?thesis
  proof (cases "leaf_key a = leaf_key b")
    case True
    then have "leaf_slot b \<noteq> leaf_slot a" using same_live_slot assms(1-3) by metis
    then show ?thesis using True merge(1) fm by (simp add: live_at_def merge(4))
  next
    case False
    then show ?thesis using fm by (simp add: live_at_def merge(4))
  qed
qed

lemma sync_entry_this:
  assumes "live_at d a = Some live" "wf_bmap live" "wf_bmap bm" "leaves_ok d"
    and "dv_allocator_beg d \<le> a" "a < dv_total_size d"
  shows "\<exists>live'. live_at (snd (sync_entry a bm (cb, d))) a = Some live' \<and> merged_entry bm live live'"
proof (cases rule: sync_entry_cases [of a bm cb d])
  case skip
  then show ?thesis using assms by (simp add: merged_entry_def)
next
  case (merge lf cb' d' live')
  have live: "live = lf_bmdata lf ! leaf_slot a" using assms(1) merge(1,2) by (simp add: live_at_def)
  have len: "leaf_slot a < length (lf_bmdata lf)"
    using assms(4) merge(1) leaf_slot_less by (simp add: leaves_ok_def)
  have "merged_entry bm live live'"
    using sync_adjust_slots [OF assms(2,3) merge(3) [folded live]] by (simp add: merged_entry_def)
  then show ?thesis using len merge(2) by (simp add: live_at_def merge(4))
qed

text \<open>An entry that the pass cannot use stays as it is.\<close>

lemma sync_entry_unused:
  assumes "live_at d a = None \<or> a < dv_allocator_beg d"
  shows "live_at (snd (sync_entry a bm (cb, d))) a = live_at d a"
proof (cases "a < dv_allocator_beg d")
  case True
  then show ?thesis by (simp add: sync_entry_eq)
next
  case False
  show ?thesis
  proof (cases rule: sync_entry_cases [of a bm cb d])
    case skip
    then show ?thesis by simp
  next
    case (merge lf cb' d' live')
    then show ?thesis using assms False by (simp add: live_at_def)
  qed
qed

section \<open>The whole range\<close>

lemma unat_step:
  assumes "unat a mod 4194304 = 0" "unat e mod 4194304 = 0" "a < e"
  shows "unat (a + 4194304 :: u64) = unat a + 4194304" "unat a + 4194304 \<le> unat e"
proof -
  obtain i j where ij: "unat a = 4194304 * i" "unat e = 4194304 * j"
    using assms(1,2) unfolding mod_eq_0_iff_dvd by (elim dvdE) blast
  then have "i < j" using assms(3) by (simp add: word_less_nat_alt)
  then show le: "unat a + 4194304 \<le> unat e" using ij by simp
  have "unat e < 2 ^ 64" using unsigned_less [of e] by simp
  then show "unat (a + 4194304) = unat a + 4194304" using le by (subst unat_add_small) simp_all
qed

text \<open>The entries up to the end of the range are merged, all others stay.\<close>

lemma sync_loop_spec:
  assumes "unat a mod 4194304 = 0" "unat (cb_sstop cb) mod 4194304 = 0"
    and "leaves_ok d" "\<forall>bm \<in> set bms. wf_bmap bm"
  shows "dev_frame (cb, d) (sync_loop a bms (cb, d)) \<and>
    (\<forall>b. unat b mod 4194304 = 0 \<longrightarrow> b < a \<or> cb_sstop cb \<le> b \<or> live_at d b = None \<or> b < dv_allocator_beg d \<longrightarrow>
       live_at (snd (sync_loop a bms (cb, d))) b = live_at d b) \<and>
    (\<forall>b k live. k < length bms \<longrightarrow> unat b = unat a + 4194304 * k \<longrightarrow> b < cb_sstop cb \<longrightarrow> live_at d b = Some live \<longrightarrow>
       wf_bmap live \<longrightarrow> dv_allocator_beg d \<le> b \<longrightarrow> b < dv_total_size d \<longrightarrow>
       (\<exists>live'. live_at (snd (sync_loop a bms (cb, d))) b = Some live' \<and> merged_entry (bms ! k) live live'))"
  using assms
proof (induction bms arbitrary: a cb d)
  case Nil
  then show ?case by (simp add: dev_frame_def)
next
  case (Cons bm bms)
  show ?case
  proof (cases "a < cb_sstop cb")
    case False
    then have "\<not> b < cb_sstop cb" if "unat b = unat a + 4194304 * k" for b k
      using that by (simp add: word_less_nat_alt)
    then show ?thesis using False by (auto simp: dev_frame_def)
  next
    case lt: True
    obtain cb1 d1 where e: "sync_entry a bm (cb, d) = (cb1, d1)" by fastforce
    have fr: "dev_frame (cb, d) (cb1, d1)" using sync_entry_frame [of cb d a bm] by (simp add: e)
    note ua = unat_step(1) [OF Cons.prems(1,2) lt]
    then have next_: "a < a + 4194304" by (simp add: word_less_nat_alt)
    from lt have step: "sync_loop a (bm # bms) (cb, d) = sync_loop (a + 4194304) bms (cb1, d1)" by (simp add: e)
    let ?d' = "snd (sync_loop (a + 4194304) bms (cb1, d1))"
    have IH: "dev_frame (cb1, d1) (sync_loop (a + 4194304) bms (cb1, d1)) \<and>
      (\<forall>b. unat b mod 4194304 = 0 \<longrightarrow> b < a + 4194304 \<or> cb_sstop cb \<le> b \<or> live_at d1 b = None \<or> b < dv_allocator_beg d \<longrightarrow>
         live_at ?d' b = live_at d1 b) \<and>
      (\<forall>b k live. k < length bms \<longrightarrow> unat b = unat (a + 4194304) + 4194304 * k \<longrightarrow> b < cb_sstop cb \<longrightarrow> live_at d1 b = Some live \<longrightarrow>
         wf_bmap live \<longrightarrow> dv_allocator_beg d \<le> b \<longrightarrow> b < dv_total_size d \<longrightarrow>
         (\<exists>live'. live_at ?d' b = Some live' \<and> merged_entry (bms ! k) live live'))"
      using Cons.IH [of "a + 4194304" cb1 d1] Cons.prems fr ua by (simp add: dev_frame_def)
    note keep = IH [THEN conjunct2, THEN conjunct1, rule_format] and later = IH [THEN conjunct2, THEN conjunct2, rule_format]
    have other: "live_at d1 b = live_at d b" if "a \<noteq> b" "unat b mod 4194304 = 0" for b
      using sync_entry_other [OF that(1) Cons.prems(1) that(2) Cons.prems(3), of bm cb] by (simp add: e)
    have this_: "live_at ?d' a = live_at d1 a" using keep [of a] Cons.prems(1) next_ by simp
    have A: "dev_frame (cb, d) (sync_loop a (bm # bms) (cb, d))"
      unfolding step using fr IH by (auto simp: dev_frame_def)
    have B: "live_at (snd (sync_loop a (bm # bms) (cb, d))) b = live_at d b"
      if b: "unat b mod 4194304 = 0" "b < a \<or> cb_sstop cb \<le> b \<or> live_at d b = None \<or> b < dv_allocator_beg d" for b
    proof (cases "a = b")
      case True
      then have "live_at d a = None \<or> a < dv_allocator_beg d" using b(2) lt by auto
      then have "live_at d1 a = live_at d a" using sync_entry_unused [of d a bm cb] by (simp add: e)
      then show ?thesis unfolding step using True this_ by simp
    next
      case False
      have "b < a + 4194304 \<or> cb_sstop cb \<le> b \<or> live_at d1 b = None \<or> b < dv_allocator_beg d"
        using b(2) other [OF False b(1)] next_ by (auto intro: less_trans)
      then show ?thesis unfolding step using keep [OF b(1)] other [OF False b(1)] by simp
    qed
    have C: "\<exists>live'. live_at (snd (sync_loop a (bm # bms) (cb, d))) b = Some live' \<and> merged_entry ((bm # bms) ! k) live live'"
      if b: "k < length (bm # bms)" "unat b = unat a + 4194304 * k" "b < cb_sstop cb" "live_at d b = Some live"
         "wf_bmap live" "dv_allocator_beg d \<le> b" "b < dv_total_size d" for b k live
    proof (cases k)
      case 0
      then have "b = a" using b(2) by (simp add: word_unat_eq_iff)
      then show ?thesis
        using sync_entry_this [of d a live bm cb] b Cons.prems(3,4) this_ 0 unfolding step by (simp add: e)
    next
      case (Suc j)
      then have "a \<noteq> b" "unat b mod 4194304 = 0" using b(2) Cons.prems(1) by (auto simp: mod_add_eq [symmetric])
      then have "live_at d1 b = Some live" using other b(4) by simp
      moreover have "unat b = unat (a + 4194304) + 4194304 * j" using b(2) Suc ua by simp
      ultimately show ?thesis unfolding step using later [of j b live] b Suc by simp
    qed
    show ?thesis using A B C by blast
  qed
qed

end
