(* ===== verification/H2_BulkSafe.thy ===== *)
theory H2_BulkSafe
  imports H2_BulkSync
begin

text \<open>
  What the bulk-free pass promises: it keeps the accounting contract, frees a block only after two
  passes that did not see it, never hides an allocatable size behind the hint, and never touches a
  block that a scanned reference covers; and the merged entry still protects the bytes that are in
  use from the allocator.
\<close>

section \<open>The accounting contract\<close>

text \<open>The state of a pass over one 4MB segment at 8MB, with empty counters and an empty filter.\<close>

definition sample_cb :: bulkfree_info where
  "sample_cb = \<lparr>cb_sbase = 0x800000, cb_sstop = 0xC00000, cb_bmap = [bmap_zero], cb_count_10_00 = 0,
     cb_count_11_10 = 0, cb_count_00_11 = 0, cb_count_01_11 = 0, cb_count_10_11 = 0, cb_count_l0cleans = 0,
     cb_count_linadjusts = 0, cb_count_dedup_factor = 0, cb_adj_free = 0, cb_signaled = False,
     cb_dedup = \<lambda>_. \<lparr>dd_data_off = 0, dd_ticks = 0, dd_saved_error = 0\<rparr>\<rparr>"

definition sync_step :: "bmap_data \<Rightarrow> bmap_data \<Rightarrow> bmap_data option" where
  "sync_step bmap live =
     (if wf_bmap bmap
      then Some (snd (snd (h2_bulkfree_sync_adjust sample_cb sample_dev 0 live bmap)))
      else None)"

interpretation sync: accounted sync_step
proof
  fix b bmap b'
  assume wf: "wf_bmap b" and ex: "avail_exact b" and step: "sync_step bmap b = Some b'"
  then have bm: "wf_bmap bmap" by (simp add: sync_step_def split: if_splits)
  from step bm obtain cb' d' where "h2_bulkfree_sync_adjust sample_cb sample_dev 0 b bmap = (cb', d', b')"
    by (metis option.inject prod.collapse sync_step_def)
  from sync_adjust_spec [OF wf ex bm this] show "wf_bmap b'" "avail_exact b'"
    by (simp_all add: sync_spec_def)
qed

section \<open>Properties of one merge\<close>

text \<open>C6: One merge changes every 16KB block of a live entry by the table of the comment above
  \<open>h2_bulkfree_sync\<close> (in-memory 00: 11 becomes 10, 10 becomes 00; in-memory 11: everything becomes
  11), keeps \<open>avail\<close> equal to the free space the bitmap shows, and counts in \<open>adj_free\<close> exactly the
  bytes that became free.\<close>

theorem bulkfree_sync_transitions:
  assumes "wf_bmap live" "avail_exact live" "wf_bmap bmap"
    and "h2_bulkfree_sync_adjust cb d off live bmap = (cb', d', live')"
  shows "(\<forall>n < 256. bslot (bm_bitmapq live') n =
       (case bslot (bm_bitmapq bmap) n of
          BAlloc \<Rightarrow> BAlloc
        | BFree \<Rightarrow> (case bslot (bm_bitmapq live) n of BAlloc \<Rightarrow> BStaged | BStaged \<Rightarrow> BFree | s \<Rightarrow> s)
        | _ \<Rightarrow> bslot (bm_bitmapq live) n)) \<and>
    wf_bmap live' \<and> avail_exact live' \<and>
    cb_adj_free cb' - cb_adj_free cb =
      16384 * of_nat (bmap_free (bm_bitmapq live')) - 16384 * of_nat (bmap_free (bm_bitmapq live))"
proof -
  have "x - y = v - u" if "x + u = y + v" for x y u v :: u64
  proof -
    have "x - y = (x + u) - (y + u)" by simp
    then show ?thesis by (simp add: that)
  qed
  moreover have "merge_slot m l = (case m of BAlloc \<Rightarrow> BAlloc
      | BFree \<Rightarrow> (case l of BAlloc \<Rightarrow> BStaged | BStaged \<Rightarrow> BFree | s \<Rightarrow> s) | _ \<Rightarrow> l)" for m l
    by (cases m; cases l) simp_all
  ultimately show ?thesis
    using sync_adjust_spec [OF assms] unfolding sync_spec_def by metis
qed

lemma sample_bmap_slot: "bslot (bm_bitmapq sample_bmap) 40 = BAlloc" "bslot (bm_bitmapq bmap_fresh) 40 = BFree"
  by (simp_all add: bslot_def sample_bmap_def bmap_fresh_def slot_state_minus_1 del: slot_state_iff)

lemma fresh_wf: "wf_bmap bmap_fresh" "avail_exact bmap_fresh"
  using seg_fresh by (simp_all add: seg_ok_def)

theorem bulkfree_sync_transitions_witness:
  "\<exists>cb' d' live'. h2_bulkfree_sync_adjust sample_cb sample_dev 0x800000 sample_bmap bmap_fresh = (cb', d', live') \<and>
     bslot (bm_bitmapq live') 40 = BStaged \<and> avail_exact live'"
proof -
  obtain cb' d' live' where
    run: "h2_bulkfree_sync_adjust sample_cb sample_dev 0x800000 sample_bmap bmap_fresh = (cb', d', live')"
    by (metis prod_cases3)
  from bulkfree_sync_transitions [OF sample_bmap_wf(1,2) fresh_wf(1) run] sample_bmap_slot run
  show ?thesis by (auto simp del: slot_state_iff)
qed

text \<open>C5: Freeing takes two passes: a block that is allocated and has become free after two merges was
  seen by neither scan; and two merges with the same two-state bitmap bring the live entry to exactly
  that bitmap.\<close>

theorem bulkfree_two_passes:
  assumes "wf_bmap live" "avail_exact live" "wf_bmap m1" "wf_bmap m2"
    and "h2_bulkfree_sync_adjust cb d off live m1 = (cb1, d1, live1)"
    and "h2_bulkfree_sync_adjust cb1' d1' off' live1 m2 = (cb2, d2, live2)"
    and "n < 256"
  shows "(bslot (bm_bitmapq live) n = BAlloc \<longrightarrow> bslot (bm_bitmapq live1) n \<noteq> BFree) \<and>
    (bslot (bm_bitmapq live) n = BAlloc \<and> bslot (bm_bitmapq live2) n = BFree \<longrightarrow>
       bslot (bm_bitmapq m1) n = BFree \<and> bslot (bm_bitmapq m2) n = BFree) \<and>
    (m1 = m2 \<and> two_state (bm_bitmapq m1) \<and> bslot (bm_bitmapq live) n \<noteq> BPartial \<longrightarrow>
       bslot (bm_bitmapq live2) n = bslot (bm_bitmapq m2) n)"
proof -
  let ?l = "bslot (bm_bitmapq live) n" and ?m1 = "bslot (bm_bitmapq m1) n" and ?m2 = "bslot (bm_bitmapq m2) n"
  have s1: "wf_bmap live1" "avail_exact live1" "bslot (bm_bitmapq live1) n = merge_slot ?m1 ?l"
    using sync_adjust_spec [OF assms(1,2,3,5)] assms(7) by (simp_all add: sync_spec_def)
  have s2: "bslot (bm_bitmapq live2) n = merge_slot ?m2 (merge_slot ?m1 ?l)"
    using sync_adjust_spec [OF s1(1,2) assms(4,6)] assms(7) s1(3) by (simp add: sync_spec_def)
  have "merge_slot m BAlloc \<noteq> BFree" for m by (cases m) simp_all
  moreover have "merge_slot m' (merge_slot m BAlloc) = BFree \<longrightarrow> m = BFree \<and> m' = BFree" for m m'
    by (cases m; cases m') simp_all
  moreover have "m = BFree \<or> m = BAlloc \<Longrightarrow> l \<noteq> BPartial \<Longrightarrow> merge_slot m (merge_slot m l) = m" for m l
    by (cases m; cases l) simp_all
  moreover have "m1 = m2 \<Longrightarrow> two_state (bm_bitmapq m1) \<Longrightarrow> ?m1 = ?m2 \<and> (?m1 = BFree \<or> ?m1 = BAlloc)"
    using assms(7) by (simp add: two_state_def del: slot_state_iff)
  ultimately show ?thesis using s1(3) s2 by metis
qed

theorem bulkfree_two_passes_witness:
  "\<exists>cb1 d1 live1 cb2 d2 live2.
     h2_bulkfree_sync_adjust sample_cb sample_dev 0x800000 sample_bmap bmap_fresh = (cb1, d1, live1) \<and>
     h2_bulkfree_sync_adjust cb1 d1 0x800000 live1 bmap_fresh = (cb2, d2, live2) \<and>
     bslot (bm_bitmapq live1) 40 \<noteq> BFree"
proof -
  obtain cb1 d1 live1 where
    run1: "h2_bulkfree_sync_adjust sample_cb sample_dev 0x800000 sample_bmap bmap_fresh = (cb1, d1, live1)"
    by (metis prod_cases3)
  obtain cb2 d2 live2 where
    run2: "h2_bulkfree_sync_adjust cb1 d1 0x800000 live1 bmap_fresh = (cb2, d2, live2)"
    by (metis prod_cases3)
  have "(40 :: nat) < 256" by simp
  from bulkfree_two_passes [OF sample_bmap_wf(1,2) fresh_wf(1,1) run1 run2 this] sample_bmap_slot(1) run1 run2
  show ?thesis by (auto simp del: slot_state_iff)
qed

text \<open>The size hint is exact for whole blocks: bit \<open>r\<close> of \<open>bigmask_get\<close> is set if and only if the
  entry has a free aligned run of 2^(r - 14) blocks (one block for r below 14), up to the 512KB of one
  bitmap element; so a leaf whose hint passes \<open>bigmask_good\<close> never hides a size that would fit.\<close>

theorem bigmask_get_exact:
  "(bit (bigmask_get b) r \<longleftrightarrow>
      r \<le> 19 \<and> (\<exists>n. 2 ^ (r - 14) dvd n \<and> n + 2 ^ (r - 14) \<le> 256 \<and>
        (\<forall>k. n \<le> k \<and> k < n + 2 ^ (r - 14) \<longrightarrow> bslot (bm_bitmapq b) k = BFree))) \<and>
   (bigmask_good b hint \<and> bit (bigmask_get b) r \<longrightarrow> bit hint r)"
proof (cases "r < 32")
  case True
  have "bit hint r" if "bigmask_good b hint" "bit (bigmask_get b) r"
  proof -
    have "bit (hint AND bigmask_get b) r" using that by (simp add: bigmask_good_def Let_def)
    then show ?thesis by (simp add: bit_and_iff)
  qed
  then show ?thesis using bigmask_get_radix [OF True, of b] by (simp add: free_blocks_def)
next
  case False
  then have "\<not> bit (bigmask_get b) r" by (auto dest: bit_imp_le_length)
  then show ?thesis using False by simp
qed

theorem bigmask_get_exact_witness:
  "bit (bigmask_get bmap_fresh) 16"
proof -
  have "\<forall>k. (0::nat) \<le> k \<and> k < 0 + 2 ^ (16 - 14) \<longrightarrow> bslot (bm_bitmapq bmap_fresh) k = BFree"
    by (auto simp: bslot_def bmap_fresh_def simp del: slot_state_iff) 
  then show ?thesis by (intro iffD2 [OF bigmask_get_exact [THEN conjunct1]] conjI exI [of _ 0]) simp_all
qed

section \<open>The merged entry still protects the bytes in use\<close>

lemma int_same_block:
  assumes "(a XOR b) AND NOT (16383 :: int) = 0"
  shows "a div 16384 = b div 16384"
proof -
  have m: "(16383 :: int) = mask 14" by (simp add: mask_eq_exp_minus_1)
  have "drop_bit 14 a = drop_bit 14 b"
  proof (rule bit_eqI)
    fix n
    have "\<not> bit ((a XOR b) AND NOT (mask 14)) (14 + n)" using assms unfolding m by simp
    then show "bit (drop_bit 14 a) n \<longleftrightarrow> bit (drop_bit 14 b) n"
      by (simp add: bit_and_iff bit_xor_iff bit_not_iff bit_mask_iff bit_drop_bit_eq)
  qed
  then show ?thesis by (simp add: drop_bit_eq_div)
qed

lemma int_and_not_block: "(x AND NOT (16383 :: int)) = 16384 * (x div 16384)"
proof -
  have m: "(16383 :: int) = mask 14" by (simp add: mask_eq_exp_minus_1)
  have "x AND NOT (mask 14) = push_bit 14 (drop_bit 14 x)"
    by (rule bit_eqI) (auto simp: bit_and_iff bit_not_iff bit_mask_iff bit_push_bit_iff bit_drop_bit_eq)
  then show ?thesis unfolding m by (simp add: push_bit_eq_mult drop_bit_eq_div)
qed

lemma sync_linear_new:
  assumes "sync_linear bmap cb live = (cb', live')" "linear_ok bmap" "linear_ok live"
  shows "linear_ok live' \<and> (mid_block live' \<longrightarrow>
     bm_linear live' = bm_linear bmap \<and> bm_linear live < bm_linear bmap \<and>
     bm_linear live div 16384 = bm_linear bmap div 16384)"
proof (cases "sync_highest (bm_bitmapq live) 8")
  case None
  then have "bm_linear live' = 0" using assms(1) by (auto simp: sync_linear_def)
  then show ?thesis by (simp add: linear_ok_def mid_block_def)
next
  case (Some i)
  show ?thesis
  proof (cases "i < 7")
    case False
    then have "bm_linear live' = 4194304" using assms(1) Some by (auto simp: sync_linear_def)
    then show ?thesis by (simp add: linear_ok_def mid_block_def)
  next
    case i: True
    let ?up = "bm_linear live < bm_linear bmap \<and> (bm_linear live XOR bm_linear bmap) AND NOT 16383 = 0"
    let ?al = "(bm_linear bmap + 16383) AND NOT 16383"
    have l: "bm_linear live' = (if ?up then bm_linear bmap else ?al)"
      using assms(1) Some i by (simp only: sync_linear_def option.case if_True) auto
    show ?thesis
    proof (cases ?up)
      case True
      have "bm_linear live div 16384 = bm_linear bmap div 16384" using True by (intro int_same_block) blast
      then show ?thesis using True assms(2) l by (auto simp: linear_ok_def)
    next
      case False
      have al: "?al = 16384 * ((bm_linear bmap + 16383) div 16384)" by (rule int_and_not_block)
      then have "bm_linear live' = 16384 * ((bm_linear bmap + 16383) div 16384)"
        by (simp only: l if_not_P [OF False] al)
      moreover have "0 \<le> bm_linear bmap" "bm_linear bmap \<le> 4194304" using assms(2) by (simp_all add: linear_ok_def)
      ultimately show ?thesis
        by (auto simp: linear_ok_def mid_block_def int_and_16383)
    qed
  qed
qed

text \<open>C4: If the in-memory entry covers the referenced bytes \<open>R\<close> and the live entry protects the bytes
  \<open>A\<close> in use, the merged entry is well formed and protects every byte of \<open>A\<close> whose block it does not
  free, the referenced ones among them: the next allocation cannot return any of them.  The one
  condition is about the linear iterator: where the merge raises a block-aligned live iterator into
  its block, the bytes in use in that block must be below the in-memory iterator.\<close>

theorem bulkfree_sync_protects:
  assumes live: "seg_ok live A" and mem: "mem_ok bmap R"
    and run: "h2_bulkfree_sync_adjust cb d off live bmap = (cb', d', live')"
    and race: "mid_block bmap \<and> \<not> mid_block live \<and> bm_linear live < bm_linear bmap \<and>
        bm_linear live div 16384 = bm_linear bmap div 16384 \<longrightarrow>
        (\<forall>x \<in> A. x div 16384 = nat (bm_linear bmap) div 16384 \<longrightarrow> x < nat (bm_linear bmap))"
  shows "seg_ok live' {x \<in> A. bslot (bm_bitmapq live') (x div 16384) \<noteq> BFree} \<and>
    A \<inter> R \<subseteq> {x \<in> A. bslot (bm_bitmapq live') (x div 16384) \<noteq> BFree}"
proof -
  let ?A = "{x \<in> A. bslot (bm_bitmapq live') (x div 16384) \<noteq> BFree}"
  have wf: "wf_bmap live" "avail_exact live" "linear_ok live" "alloc_inv live A"
    and wfm: "wf_bmap bmap" "linear_ok bmap" using live mem by (simp_all add: seg_ok_def mem_ok_def)
  have spec: "sync_spec cb live bmap cb' live'" by (rule sync_adjust_spec [OF wf(1,2) wfm(1) run])
  then have slot: "bslot (bm_bitmapq live') n = merge_slot (bslot (bm_bitmapq bmap) n) (bslot (bm_bitmapq live) n)"
    if "n < 256" for n using that by (simp add: sync_spec_def)
  define s where "s = sync_elements (bm_bitmapq bmap) 0 off \<lparr>sy_cb = cb, sy_dev = d, sy_live = live\<rparr>"
  have "merged (bm_bitmapq bmap) {0..<256} \<lparr>sy_cb = cb, sy_dev = d, sy_live = live\<rparr> s"
    using sync_elements_merged [of 0 "\<lparr>sy_cb = cb, sy_dev = d, sy_live = live\<rparr>" "bm_bitmapq bmap" off] wf wfm
    by (simp add: s_def wf_bmap_def)
  then have keep: "bm_linear (sy_live s) = bm_linear live" by (simp add: merged_def)
  obtain c l where sl: "sync_linear bmap (sy_cb s) (sy_live s) = (c, l)" by fastforce
  then have "live' = l" using run by (simp add: h2_bulkfree_sync_adjust_def s_def)
  with sync_linear_new [OF sl wfm(2)] wf(3) keep have lin: "linear_ok live'" and
    mid: "mid_block live' \<Longrightarrow> bm_linear live' = bm_linear bmap \<and> bm_linear live < bm_linear bmap \<and>
       bm_linear live div 16384 = bm_linear bmap div 16384"
    by (simp_all add: linear_ok_def)
  have A: "x < 4194304" if "x \<in> A" for x using wf(4) that by (simp add: alloc_inv_def)
  have block: "x div 16384 < 256" if "x < 4194304" for x :: nat using that by (simp add: less_mult_imp_div_less)
  have up: "bslot (bm_bitmapq live') (nat (bm_linear live') div 16384) \<noteq> BFree \<and>
      (\<forall>x \<in> ?A. x div 16384 = nat (bm_linear live') div 16384 \<longrightarrow> x < nat (bm_linear live'))" if m: "mid_block live'"
  proof -
    note mm = mid [OF m]
    have mb: "mid_block bmap" using m mm by (simp add: mid_block_def)
    then have "bslot (bm_bitmapq bmap) (nat (bm_linear bmap) div 16384) = BAlloc" "nat (bm_linear bmap) < 4194304"
      using mem by (simp_all add: mem_ok_def mid_block_def nat_less_iff del: slot_state_iff)
    then have one: "bslot (bm_bitmapq live') (nat (bm_linear live') div 16384) \<noteq> BFree"
      using mm slot [OF block] by (simp del: slot_state_iff)
    have nat: "nat (bm_linear live) div 16384 = nat (bm_linear bmap) div 16384"
    proof -
      have "nat (bm_linear live) div 16384 = nat (bm_linear live div 16384)"
        "nat (bm_linear bmap) div 16384 = nat (bm_linear bmap div 16384)"
        using wf(3) wfm(2) by (simp_all add: linear_ok_def nat_div_distrib)
      then show ?thesis using mm by simp
    qed
    have "x < nat (bm_linear bmap)" if x: "x \<in> A" "x div 16384 = nat (bm_linear bmap) div 16384" for x
    proof (cases "mid_block live")
      case True
      then have "x < nat (bm_linear live)" using wf(4) x nat by (auto simp: alloc_inv_def)
      also have "\<dots> \<le> nat (bm_linear bmap)" using mm by (intro nat_mono) simp
      finally show ?thesis .
    next
      case False
      then show ?thesis using race mb mm x by blast
    qed
    then show ?thesis using one mm by simp
  qed
  have "alloc_inv live' ?A"
    unfolding alloc_inv_def using A up by blast
  then have "seg_ok live' ?A" using spec lin by (simp add: seg_ok_def sync_spec_def)
  moreover have "bslot (bm_bitmapq live') (x div 16384) \<noteq> BFree" if "x \<in> R" for x
    using mem that slot [OF block, of x] by (simp add: mem_ok_def del: slot_state_iff)
  ultimately show ?thesis by blast
qed

lemma full_uses:
  "seg_ok bmap_full {0..<1024}" "mem_ok bmap_full {0..<1024}" "\<not> mid_block bmap_full"
  using seg_full(1)
  by (simp_all add: mem_ok_def seg_ok_def two_state_def alloc_inv_def mid_block_def bmap_full_def bslot_def
      slot_state_minus_1 del: slot_state_iff)

theorem bulkfree_sync_protects_witness:
  "\<exists>cb' d' live'. h2_bulkfree_sync_adjust sample_cb sample_dev 0x800000 bmap_full bmap_full = (cb', d', live') \<and>
     seg_ok live' {0..<1024}"
proof -
  obtain cb' d' live' where
    run: "h2_bulkfree_sync_adjust sample_cb sample_dev 0x800000 bmap_full bmap_full = (cb', d', live')"
    by (metis prod_cases3)
  from bulkfree_sync_protects [OF full_uses(1,2) run] full_uses(3)
  have "seg_ok live' {x \<in> {0..<1024}. bslot (bm_bitmapq live') (x div 16384) \<noteq> BFree}"
    "{x \<in> {0..<1024}. bslot (bm_bitmapq live') (x div 16384) \<noteq> BFree} = {0..<1024}" by blast+
  then have "seg_ok live' {0..<1024}" by (simp only:)
  then show ?thesis using run by blast
qed

section \<open>A referenced block is never freed\<close>

text \<open>The callbacks of one scan, in the order of the visits; no signal is pending.\<close>

definition bulkfree_visit :: "h2dev \<Rightarrow> (u32 \<times> bulkfree_info) option \<Rightarrow> blockref \<Rightarrow> (u32 \<times> bulkfree_info) option" where
  "bulkfree_visit d r bref = (case r of None \<Rightarrow> None | Some (e, cb) \<Rightarrow> h2_bulkfree_callback False d cb bref)"

definition bulkfree_visits :: "h2dev \<Rightarrow> blockref list \<Rightarrow> bulkfree_info \<Rightarrow> (u32 \<times> bulkfree_info) option" where
  "bulkfree_visits d brefs cb = foldl (bulkfree_visit d) (Some (0, cb)) brefs"

definition bref_ok :: "blockref \<Rightarrow> bool" where
  "bref_ok bref \<longleftrightarrow> extent_ok (bref_off bref) (ext_radix bref)"

lemma bref_range_eq: "bref_range b = {bref_off b..<bref_off b + 2 ^ ext_radix b}"
  by (simp add: bref_range_def bref_bytes_def ext_radix_def)

definition mem_inv :: "bulkfree_info \<Rightarrow> nat set \<Rightarrow> bool" where
  "mem_inv cb R \<longleftrightarrow> cb_geom cb \<and>
     (\<forall>k < length (cb_bmap cb). mem_ok (cb_bmap cb ! k) (seg_bytes R (unat (cb_sbase cb) + 4194304 * k)))"

definition visit_frame :: "bulkfree_info \<Rightarrow> bulkfree_info \<Rightarrow> bool" where
  "visit_frame cb cb' \<longleftrightarrow> cb_sbase cb' = cb_sbase cb \<and> cb_sstop cb' = cb_sstop cb \<and>
     length (cb_bmap cb') = length (cb_bmap cb)"

lemma mem_ok_class:
  "mem_ok (b\<lparr>bm_class := c, bm_avail := a\<rparr>) R \<longleftrightarrow> mem_ok b R"
  by (simp add: mem_ok_def wf_bmap_def linear_ok_def mid_block_def)

lemma mem_ok_entry:
  assumes "mem_ok b R" "extent_ok x r" "x < 4194304"
  shows "mem_ok (mark_entry type x r b) (R \<union> {x..<x + 2 ^ r})"
    and "\<And>n. n < 256 \<Longrightarrow> bslot (bm_bitmapq (mark_entry type x r b)) n =
      (if marked_slot x (2 ^ r) n then BAlloc else bslot (bm_bitmapq b) n)"
proof -
  let ?b = "if bm_class b = 0 then b\<lparr>bm_class := freemap_class type, bm_avail := 4194304\<rparr> else b"
  have b: "mem_ok ?b R" using assms(1) by (simp add: mem_ok_class)
  have eq: "mark_entry type x r b = bulkfree_mark x (2 ^ r) (?b\<lparr>bm_linear := bulkfree_linear (bm_linear ?b) x (2 ^ r)\<rparr>)"
    by (simp only: mark_entry_def Let_def)
  have q: "bm_bitmapq ?b = bm_bitmapq b" by simp
  show "mem_ok (mark_entry type x r b) (R \<union> {x..<x + 2 ^ r})"
    unfolding eq by (rule mem_ok_mark(1) [OF b assms(2,3)])
  show "\<And>n. n < 256 \<Longrightarrow> bslot (bm_bitmapq (mark_entry type x r b)) n =
      (if marked_slot x (2 ^ r) n then BAlloc else bslot (bm_bitmapq b) n)"
    unfolding eq by (subst mem_ok_mark(2) [OF b assms(2,3)]) (simp_all only: q)
qed

lemma ref_split:
  assumes "cb_geom cb" "in_range d cb bref"
  shows "bref_off bref = unat (cb_sbase cb) + 4194304 * ref_entry cb bref + ref_off cb bref"
    "ref_off cb bref < 4194304" "ref_off cb bref = bref_off bref mod 4194304"
proof -
  have le: "unat (cb_sbase cb) \<le> bref_off bref" using assms(2) by (simp add: in_range_def)
  then show "bref_off bref = unat (cb_sbase cb) + 4194304 * ref_entry cb bref + ref_off cb bref"
    by (simp add: ref_entry_def ref_off_def)
  show "ref_off cb bref = bref_off bref mod 4194304" using assms(1) le by (rule ref_off_eq)
qed (simp add: ref_off_def)

lemma seg_bytes_of_ref:
  assumes "cb_geom cb" "in_range d cb bref" "bref_ok bref" "k < length (cb_bmap cb)"
  shows "seg_bytes (R \<union> bref_range bref) (unat (cb_sbase cb) + 4194304 * k) \<subseteq>
    (if k = ref_entry cb bref
     then seg_bytes R (unat (cb_sbase cb) + 4194304 * k) \<union>
       {ref_off cb bref..<ref_off cb bref + 2 ^ ext_radix bref}
     else seg_bytes R (unat (cb_sbase cb) + 4194304 * k))"
proof -
  note sp = ref_split [OF assms(1,2)]
  let ?e = "ref_entry cb bref" and ?x = "ref_off cb bref" and ?s = "unat (cb_sbase cb)"
  have "extent_ok ?x (ext_radix bref)" using extent_mod [of "bref_off bref"] assms(3) sp(3) by (simp add: bref_ok_def)
  then have fit: "?x + 2 ^ ext_radix bref \<le> 4194304" using sp(2) by (rule extent_in_segment)
  have "k = ?e \<and> ?x \<le> y \<and> y < ?x + 2 ^ ext_radix bref"
    if y: "y < 4194304" "?s + 4194304 * k + y \<in> bref_range bref" for y
  proof -
    have "bref_off bref \<le> ?s + 4194304 * k + y" "?s + 4194304 * k + y < bref_off bref + 2 ^ ext_radix bref"
      using y(2) by (simp_all add: bref_range_eq)
    then have b: "4194304 * ?e + ?x \<le> 4194304 * k + y" "4194304 * k + y < 4194304 * ?e + (?x + 2 ^ ext_radix bref)"
      using y(2) sp(1) by (simp_all add: bref_bytes_def)
    then have "4194304 * ?e < 4194304 * Suc k" "4194304 * k < 4194304 * Suc ?e" using y(1) fit by simp_all
    then have "k = ?e" by simp
    then show ?thesis using b by simp
  qed
  then show ?thesis by (auto simp: seg_bytes_def)
qed

lemma mem_ok_mono: "mem_ok b R \<Longrightarrow> S \<subseteq> R \<Longrightarrow> mem_ok b S"
  by (auto simp: mem_ok_def)

lemma visit_inv:
  assumes inv: "mem_inv cb R" and ok: "bref_ok bref"
  shows "\<exists>cb'. h2_bulkfree_callback False d cb bref = Some (0, cb') \<and> visit_frame cb cb' \<and>
    mem_inv cb' (R \<union> (if in_range d cb bref then bref_range bref else {}))"
proof (cases "in_range d cb bref")
  case False
  then show ?thesis using callback_outside [of False cb d bref] inv by (simp add: visit_frame_def)
next
  case True
  have geom: "cb_geom cb" using inv by (simp add: mem_inv_def)
  let ?e = "ref_entry cb bref" and ?x = "ref_off cb bref" and ?r = "ext_radix bref"
  let ?b = "mark_entry (br_type bref) ?x ?r (cb_bmap cb ! ?e)"
  let ?cb = "cb\<lparr>cb_bmap := (cb_bmap cb)[?e := ?b]\<rparr>"
  have run: "h2_bulkfree_callback False d cb bref = Some (0, ?cb)" and e: "?e < length (cb_bmap cb)"
    using callback_inside [OF geom _ True, of False] ok by (simp_all add: bref_ok_def)
  note sp = ref_split [OF geom True]
  have ext: "extent_ok ?x ?r" using extent_mod [of "bref_off bref"] ok sp(3) by (simp add: bref_ok_def)
  have "mem_ok (cb_bmap ?cb ! k) (seg_bytes (R \<union> bref_range bref) (unat (cb_sbase cb) + 4194304 * k))"
    if k: "k < length (cb_bmap cb)" for k
  proof (cases "k = ?e")
    case T: True
    have "mem_ok ?b (seg_bytes R (unat (cb_sbase cb) + 4194304 * k) \<union> {?x..<?x + 2 ^ ?r})"
      using inv k T ext sp(2) by (intro mem_ok_entry(1)) (simp_all add: mem_inv_def)
    then have "mem_ok ?b (seg_bytes (R \<union> bref_range bref) (unat (cb_sbase cb) + 4194304 * k))"
      by (rule mem_ok_mono) (use seg_bytes_of_ref [OF geom True ok k, of R] T in simp)
    then show ?thesis using T k by simp
  next
    case F: False
    have "mem_ok (cb_bmap cb ! k) (seg_bytes R (unat (cb_sbase cb) + 4194304 * k))"
      using inv k by (simp add: mem_inv_def)
    then have "mem_ok (cb_bmap cb ! k) (seg_bytes (R \<union> bref_range bref) (unat (cb_sbase cb) + 4194304 * k))"
      by (rule mem_ok_mono) (use seg_bytes_of_ref [OF geom True ok k, of R] F in simp)
    then show ?thesis using F by simp
  qed
  then have "mem_inv ?cb (R \<union> bref_range bref)" using geom by (simp add: mem_inv_def cb_geom_def)
  then show ?thesis using run True by (simp add: visit_frame_def)
qed

lemma mem_ok_init:
  "mem_ok (bmap_zero\<lparr>bm_bitmapq := replicate 8 (- 1), bm_avail := 0, bm_linear := 4194304\<rparr>) {}"
  "mem_ok (bmap_zero\<lparr>bm_avail := 4194304\<rparr>) {}"
  by (auto simp: mem_ok_def wf_bmap_def bmap_zero_def two_state_def linear_ok_def mid_block_def bslot_def
      slot_state_minus_1 less_mult_imp_div_less simp del: slot_state_iff)

lemma bmap_loop_ok:
  "length (cbinfo_bmap_loop lo hi key n) = n \<and> (\<forall>b \<in> set (cbinfo_bmap_loop lo hi key n). mem_ok b {})"
  by (induction n arbitrary: lo key) (auto simp: Let_def mem_ok_init)

lemma bmap_init_inv:
  assumes "unat (cb_sbase cb) mod 4194304 = 0" "unat (cb_sstop cb) mod 4194304 = 0" "unat (cb_sstop cb) \<le> unat (cb_sbase cb) + 4194304 * n"
  shows "mem_inv (cbinfo_bmap_init d cb n) {}"
proof -
  have "mem_ok (cbinfo_bmap_loop lo hi key n ! k) {}" if "k < n" for lo hi key k
    using bmap_loop_ok [of lo hi key n] that by simp
  then show ?thesis
    using assms bmap_loop_ok by (simp add: mem_inv_def cb_geom_def cbinfo_bmap_init_def seg_bytes_def)
qed

lemma visit_frame_range: "visit_frame cb cb' \<Longrightarrow> in_range d cb' b = in_range d cb b"
  by (simp add: visit_frame_def in_range_def)

lemma visits_inv:
  assumes "mem_inv cb R" "\<forall>b \<in> set brefs. bref_ok b"
  shows "\<exists>cb'. foldl (bulkfree_visit d) (Some (e, cb)) brefs = Some (if brefs = [] then e else 0, cb') \<and>
    visit_frame cb cb' \<and> mem_inv cb' (R \<union> \<Union> (bref_range ` {b \<in> set brefs. in_range d cb b}))"
  using assms
proof (induction brefs arbitrary: e cb R)
  case Nil
  then show ?case by (simp add: visit_frame_def)
next
  case (Cons b bs)
  obtain cb1 where one: "h2_bulkfree_callback False d cb b = Some (0, cb1)" "visit_frame cb cb1"
      "mem_inv cb1 (R \<union> (if in_range d cb b then bref_range b else {}))"
    using visit_inv [OF Cons.prems(1), of b d] Cons.prems(2) by auto
  have "\<forall>c \<in> set bs. bref_ok c" using Cons.prems(2) by simp
  from Cons.IH [OF one(3) this, of 0] obtain cb2 where
    two: "foldl (bulkfree_visit d) (Some (0, cb1)) bs = Some (0, cb2)" "visit_frame cb1 cb2"
      "mem_inv cb2 (R \<union> (if in_range d cb b then bref_range b else {}) \<union>
         \<Union> (bref_range ` {b \<in> set bs. in_range d cb1 b}))"
    by (simp only: if_cancel) blast
  have "R \<union> (if in_range d cb b then bref_range b else {}) \<union> \<Union> (bref_range ` {b \<in> set bs. in_range d cb1 b}) =
      R \<union> \<Union> (bref_range ` {c \<in> set (b # bs). in_range d cb c})"
    using visit_frame_range [OF one(2)] by auto
  then have "mem_inv cb2 (R \<union> \<Union> (bref_range ` {c \<in> set (b # bs). in_range d cb c}))"
    using two(3) by (simp only:)
  moreover have "foldl (bulkfree_visit d) (Some (e, cb)) (b # bs) = Some (0, cb2)"
    using one(1) two(1) by (simp add: bulkfree_visit_def)
  moreover have "visit_frame cb cb2" using one(2) two(2) by (simp add: visit_frame_def)
  ultimately show ?case by (intro exI [of _ cb2]) (simp only: list.distinct if_False simp_thms)
qed

text \<open>The scan of a range: it never fails an assertion, and the in-memory freemap covers what it has visited.\<close>

lemma visits_range:
  assumes "unat (cb_sbase cb) mod 4194304 = 0" "unat (cb_sstop cb) mod 4194304 = 0" "unat (cb_sstop cb) \<le> unat (cb_sbase cb) + 4194304 * N"
    and "\<forall>b \<in> set brefs. bref_ok b"
  shows "\<exists>cb1. bulkfree_visits d brefs (cbinfo_bmap_init d cb N) = Some (0, cb1) \<and> cb_sbase cb1 = cb_sbase cb \<and> cb_sstop cb1 = cb_sstop cb \<and>
    mem_inv cb1 (\<Union> (bref_range ` {b \<in> set brefs. in_range d cb b}))"
proof -
  let ?cb0 = "cbinfo_bmap_init d cb N"
  have frame0: "cb_sbase ?cb0 = cb_sbase cb" "cb_sstop ?cb0 = cb_sstop cb" by (simp_all add: cbinfo_bmap_init_def)
  then have rng0: "in_range d ?cb0 b = in_range d cb b" for b by (simp add: in_range_def)
  from visits_inv [OF bmap_init_inv [OF assms(1-3)] assms(4), of d 0 d] frame0 show ?thesis
    unfolding rng0 by (auto simp: bulkfree_visits_def visit_frame_def split: if_splits)
qed

text \<open>C3: A block in use is never freed.  Take a pass over a range of whole 4MB segments for which the in-memory freemap
has room (the buffer of \<open>N\<close> entries may be larger than the range, as in a single or last pass): the in-memory freemap
is initialised, the scan visits the references \<open>brefs\<close> in any order without a signal, the result is merged into the
live freemap.  The references are extents of 1KB to 64KB as the allocator gives them out; the leaves and the bitmaps of
the live freemap have their fixed sizes.  Then the scan never fails an assertion, and for a visited reference in the
range, inside the area of the allocator: when the live freemap has an entry for its segment in a leaf without an error,
and the segment does not begin below \<open>allocator_beg\<close>, every byte that the reference covers is afterwards in a block that
this entry shows as allocated; otherwise the live entry of the segment is left as it was.  Nothing is asked of
\<open>avail\<close> or of the old state of the live bitmap.\<close>

theorem bulkfree_keeps_referenced:
  assumes range: "unat (cb_sbase cb) mod 4194304 = 0" "unat (cb_sstop cb) mod 4194304 = 0"
      "unat (cb_sstop cb) \<le> unat (cb_sbase cb) + 4194304 * N"
    and refs: "\<forall>b \<in> set brefs. bref_ok b" and bref: "bref \<in> set brefs" "in_range d cb bref"
    and leaf: "leaves_ok d" "\<And>live. live_at d a = Some live \<Longrightarrow> wf_bmap live"
    and a: "unat a = bref_off bref - bref_off bref mod 4194304"
  shows "\<exists>cb1. bulkfree_visits d brefs (cbinfo_bmap_init d cb N) = Some (0, cb1) \<and>
    (if live_at d a = None \<or> a < dv_allocator_beg d then live_at (snd (h2_bulkfree_sync cb1 d)) a = live_at d a
     else \<exists>live'. live_at (snd (h2_bulkfree_sync cb1 d)) a = Some live' \<and>
       (\<forall>y \<in> bref_range bref. bslot (bm_bitmapq live') ((y - unat a) div 16384) = BAlloc))"
proof -
  let ?R = "\<Union> (bref_range ` {b \<in> set brefs. in_range d cb b})"
  obtain cb1 where visits: "bulkfree_visits d brefs (cbinfo_bmap_init d cb N) = Some (0, cb1)"
    and fr: "cb_sbase cb1 = cb_sbase cb" "cb_sstop cb1 = cb_sstop cb" and inv1: "mem_inv cb1 ?R"
    using visits_range [OF range refs] by blast
  have geom: "cb_geom cb1" using inv1 by (simp add: mem_inv_def)
  have rng: "in_range d cb1 bref" using bref(2) fr by (simp add: in_range_def)
  note sp = ref_split [OF geom rng]
  let ?k = "ref_entry cb1 bref"
  have ok: "extent_ok (bref_off bref) (ext_radix bref)" using refs bref(1) by (simp add: bref_ok_def)
  have k: "?k < length (cb_bmap cb1)" using callback_inside(2) [OF geom _ rng ok, of False] by simp
  have ua: "unat a = unat (cb_sbase cb1) + 4194304 * ?k"
  proof -
    have "unat a = bref_off bref - ref_off cb1 bref" by (simp only: a sp(3))
    then show ?thesis using sp(1) by linarith
  qed
  have am: "unat a mod 4194304 = 0" unfolding a by (simp add: minus_mod_eq_mult_div)
  have lim: "a < dv_total_size d" "a < cb_sstop cb1"
    using rng a unfolding in_range_def word_less_nat_alt by linarith+
  have wfs: "\<forall>bm \<in> set (cb_bmap cb1). wf_bmap bm"
    using inv1 by (auto simp: in_set_conv_nth mem_inv_def mem_ok_def)
  have base: "unat (cb_sbase cb1) mod 4194304 = 0" "unat (cb_sstop cb1) mod 4194304 = 0" using range(1,2) fr by simp_all
  note L = sync_loop_spec [where cb = cb1 and a = "cb_sbase cb1" and bms = "cb_bmap cb1" and d = d,
    OF base leaf(1) wfs, folded h2_bulkfree_sync_def]
  show ?thesis
  proof (cases "live_at d a = None \<or> a < dv_allocator_beg d")
    case True
    then have "live_at (snd (h2_bulkfree_sync cb1 d)) a = live_at d a"
      using L [THEN conjunct2, THEN conjunct1, rule_format, OF am] by blast
    then show ?thesis using visits True by auto
  next
    case False
    then obtain live where live: "live_at d a = Some live" "wf_bmap live" "dv_allocator_beg d \<le> a" using leaf(2) by auto
    then obtain live' where live': "live_at (snd (h2_bulkfree_sync cb1 d)) a = Some live'"
      and merged: "merged_entry (cb_bmap cb1 ! ?k) live live'"
      using L [THEN conjunct2, THEN conjunct2, rule_format, OF k ua lim(2) _ _ _ lim(1)] by blast
    have "bslot (bm_bitmapq live') ((y - unat a) div 16384) = BAlloc" if y: "y \<in> bref_range bref" for y
    proof -
      let ?y = "y - unat a"
      have ext: "extent_ok (ref_off cb1 bref) (ext_radix bref)" using extent_mod [OF ok] sp(3) by simp
      have fit2: "ref_off cb1 bref + 2 ^ ext_radix bref \<le> 4194304" using ext sp(2) by (rule extent_in_segment)
      have "bref_off bref \<le> y" "y < bref_off bref + 2 ^ ext_radix bref" using y by (simp_all add: bref_range_eq)
      then have lt: "unat a \<le> y" "?y < 4194304" using sp(1) ua fit2 by linarith+
      then have "?y \<in> seg_bytes ?R (unat (cb_sbase cb1) + 4194304 * ?k)" using y bref ua by (auto simp: seg_bytes_def)
      then have "bslot (bm_bitmapq (cb_bmap cb1 ! ?k)) (?y div 16384) = BAlloc"
        using inv1 k by (simp add: mem_inv_def mem_ok_def del: slot_state_iff)
      moreover have "?y div 16384 < 256" using lt(2) by (simp add: less_mult_imp_div_less)
      ultimately show ?thesis using merged by (simp add: merged_entry_def del: slot_state_iff)
    qed
    then show ?thesis using visits live' False by auto
  qed
qed

definition sample_ref :: blockref where
  "sample_ref = sample_bref\<lparr>br_data_off := 0x810000 OR 16\<rparr>"

lemma sample_ref_range:
  "bref_off sample_ref = 0x810000" "ext_radix sample_ref = 16" "bref_ok sample_ref"
  "in_range sample_dev_leaf sample_cb sample_ref"
proof -
  show off: "bref_off sample_ref = 0x810000" "ext_radix sample_ref = 16"
    by (simp_all add: bref_off_def ext_radix_def sample_ref_def)
  show "bref_ok sample_ref" by (simp add: bref_ok_def off extent_ok_def)
  show "in_range sample_dev_leaf sample_cb sample_ref"
    by (simp add: in_range_def off sample_cb_def sample_dev_leaf_def sample_dev_def)
qed

lemma sample_live_at: "live_at sample_dev_leaf 0x800000 = Some bmap_fresh"
proof -
  have "leaf_key 0x800000 = 0" "leaf_slot 0x800000 = 2" by (simp_all add: leaf_key_def leaf_slot_def)
  moreover have "dv_fmap sample_dev_leaf 0 = Some sample_leaf" "lf_error sample_leaf = 0"
    by (simp_all add: sample_dev_leaf_def sample_leaf_def)
  ultimately show ?thesis using sample_leaf_bmap(1) [of 2] by (simp add: live_at_def)
qed

text \<open>A buffer of three entries for a range of one segment.\<close>

theorem bulkfree_keeps_referenced_witness:
  "\<exists>cb1 live'. bulkfree_visits sample_dev_leaf [sample_ref] (cbinfo_bmap_init sample_dev_leaf sample_cb 3) = Some (0, cb1) \<and>
    live_at (snd (h2_bulkfree_sync cb1 sample_dev_leaf)) 0x800000 = Some live' \<and>
    bslot (bm_bitmapq live') 5 = BAlloc"
proof -
  have leaves: "leaves_ok sample_dev_leaf"
    by (simp add: leaves_ok_def sample_dev_leaf_def sample_leaf_def)
  have cb: "unat (cb_sbase sample_cb) mod 4194304 = 0" "unat (cb_sstop sample_cb) mod 4194304 = 0"
    "unat (cb_sstop sample_cb) \<le> unat (cb_sbase sample_cb) + 4194304 * 3" by (simp_all add: sample_cb_def)
  have refs: "\<forall>b \<in> set [sample_ref]. bref_ok b" "sample_ref \<in> set [sample_ref]"
    using sample_ref_range(3) by simp_all
  have beg: "\<not> (0x800000 :: u64) < dv_allocator_beg sample_dev_leaf" by (simp add: sample_dev_leaf_def sample_dev_def)
  have a: "unat (0x800000 :: u64) = bref_off sample_ref - bref_off sample_ref mod 4194304"
    by (simp add: sample_ref_range)
  have wf: "live_at sample_dev_leaf 0x800000 = Some live \<Longrightarrow> wf_bmap live" for live
    using fresh_wf(1) by (simp add: sample_live_at)
  from bulkfree_keeps_referenced [OF cb refs sample_ref_range(4) leaves wf a] beg sample_live_at
  obtain cb1 live' where r:
    "bulkfree_visits sample_dev_leaf [sample_ref] (cbinfo_bmap_init sample_dev_leaf sample_cb 3) = Some (0, cb1)"
    "live_at (snd (h2_bulkfree_sync cb1 sample_dev_leaf)) 0x800000 = Some live'"
    "\<forall>y \<in> bref_range sample_ref. bslot (bm_bitmapq live') ((y - unat (0x800000 :: u64)) div 16384) = BAlloc" by (auto simp del: slot_state_iff)
  have "0x814000 \<in> bref_range sample_ref" by (simp add: bref_range_eq sample_ref_range)
  with r(3) have "bslot (bm_bitmapq live') ((0x814000 - unat (0x800000 :: u64)) div 16384) = BAlloc" by blast
  then have "bslot (bm_bitmapq live') 5 = BAlloc" by (simp del: slot_state_iff)
  then show ?thesis using r(1,2) by blast
qed

section \<open>The duplicate filter\<close>

lemma test_loop_cases:
  assumes "i \<le> 8" "best < 8"
  obtains (hit) j where "test_loop dedup base off i best = Inl j" "i \<le> j" "j < 8" "dd_data_off (dedup (base + j)) = off"
  | (miss) j where "test_loop dedup base off i best = Inr j" "j < 8"
      "\<And>k. i \<le> k \<Longrightarrow> k < 8 \<Longrightarrow> dd_data_off (dedup (base + k)) \<noteq> off"
  using assms
proof (induction "8 - i" arbitrary: i best thesis)
  case 0
  then have "i = 8" by simp
  then show ?case using 0 by (intro "0.prems"(2) [of best]) (simp_all add: test_loop.simps [of _ _ _ 8])
next
  case (Suc n)
  show ?case
  proof (cases "dd_data_off (dedup (base + i)) = off")
    case True
    then show ?thesis using Suc.hyps(2) by (intro Suc.prems(1) [of i]) (simp_all add: test_loop.simps [of _ _ _ i])
  next
    case False
    have i8: "i < 8" using Suc.hyps(2) by linarith
    let ?best = "if dd_ticks (dedup (base + i)) < dd_ticks (dedup (base + best)) then i else best"
    have step: "test_loop dedup base off i best = test_loop dedup base off (Suc i) ?best"
      using i8 False by (subst test_loop.simps) simp
    have b: "?best < 8" "Suc i \<le> 8" "n = 8 - Suc i" using Suc.hyps(2) Suc.prems(4) by auto
    show ?thesis
    proof (rule Suc.hyps(1) [OF b(3) _ _ b(2,1)])
      fix j assume "test_loop dedup base off (Suc i) ?best = Inl j" "Suc i \<le> j" "j < 8" "dd_data_off (dedup (base + j)) = off"
      then show thesis using step by (intro Suc.prems(1) [of j]) simp_all
    next
      fix j assume "test_loop dedup base off (Suc i) ?best = Inr j" "j < 8"
        "\<And>k. Suc i \<le> k \<Longrightarrow> k < 8 \<Longrightarrow> dd_data_off (dedup (base + k)) \<noteq> off"
      then show thesis using step False
        by (intro Suc.prems(2) [of j]) (simp_all, metis le_neq_implies_less Suc_leI)
    qed
  qed
qed

lemma test_miss_hit:
  assumes "dd_data_off (dedup (base + j)) = off" "j < 8"
  shows "\<exists>k < 8. test_loop dedup base off 0 0 = Inl k \<and> dd_data_off (dedup (base + k)) = off"
  by (rule test_loop_cases [of 0 0 dedup base off]) (use assms in auto)

lemma eof_or: "(e OR HAMMER2_ERROR_EOF :: u32) \<noteq> 0"
proof
  assume "e OR 0x00002000 = (0 :: u32)"
  then have "bit (e OR 0x00002000 :: u32) 13 = bit (0 :: u32) 13" by simp
  then show False by (simp add: bit_or_iff)
qed

text \<open>The duplicate filter reports a block reference as seen (a result that is not zero) exactly if
  its data offset is in the group of eight entries that its checksum selects; after a test the offset is
  in the group, so the next test of the same reference reports it as seen; and no test changes another
  group.\<close>

theorem bulkfree_test_remembers:
  "case h2_bulkfree_test cb bref pri err of (r, cb') \<Rightarrow>
     (r \<noteq> 0 \<longleftrightarrow> (\<exists>i < 8. dd_data_off (cb_dedup cb (test_base (br_data_off bref) + i)) = br_data_off bref)) \<and>
     fst (h2_bulkfree_test cb' bref pri' err') \<noteq> 0 \<and>
     (\<forall>j. (j < test_base (br_data_off bref) \<or> test_base (br_data_off bref) + 8 \<le> j) \<longrightarrow>
        cb_dedup cb' j = cb_dedup cb j)"
proof -
  let ?o = "br_data_off bref" and ?b = "test_base (br_data_off bref)"
  have seen: "fst (h2_bulkfree_test c bref p e) \<noteq> 0"
    if "dd_data_off (cb_dedup c (?b + j)) = ?o" "j < 8" for c j p e
    using test_miss_hit [where dedup = "cb_dedup c" and base = ?b, OF that] eof_or by (auto simp: h2_bulkfree_test_def Let_def)
  obtain r cb' where run: "h2_bulkfree_test cb bref pri err = (r, cb')" by fastforce
  have "(r \<noteq> 0 \<longleftrightarrow> (\<exists>i < 8. dd_data_off (cb_dedup cb (?b + i)) = ?o)) \<and>
      (\<exists>j < 8. dd_data_off (cb_dedup cb' (?b + j)) = ?o) \<and>
      (\<forall>j. j < ?b \<or> ?b + 8 \<le> j \<longrightarrow> cb_dedup cb' j = cb_dedup cb j)"
  proof (rule test_loop_cases [of 0 0 "cb_dedup cb" ?b ?o])
    fix j assume hit: "test_loop (cb_dedup cb) ?b ?o 0 0 = Inl j" "0 \<le> j" "j < 8"
      "dd_data_off (cb_dedup cb (?b + j)) = ?o"
    then have "r \<noteq> 0" "dd_data_off (cb_dedup cb' (?b + j)) = ?o" "\<forall>k. k \<noteq> ?b + j \<longrightarrow> cb_dedup cb' k = cb_dedup cb k"
      using run eof_or by (auto simp: h2_bulkfree_test_def Let_def)
    then show ?thesis using hit by auto
  next
    fix j assume miss: "test_loop (cb_dedup cb) ?b ?o 0 0 = Inr j" "j < 8"
      "\<And>k. 0 \<le> k \<Longrightarrow> k < 8 \<Longrightarrow> dd_data_off (cb_dedup cb (?b + k)) \<noteq> ?o"
    then have "r = 0" "dd_data_off (cb_dedup cb' (?b + j)) = ?o" "\<forall>k. k \<noteq> ?b + j \<longrightarrow> cb_dedup cb' k = cb_dedup cb k"
      using run by (auto simp: h2_bulkfree_test_def Let_def)
    then show ?thesis using miss by auto
  qed simp_all
  then show ?thesis using seen run by auto
qed

theorem bulkfree_test_remembers_witness:
  "fst (h2_bulkfree_test (snd (h2_bulkfree_test sample_cb sample_bref 1 0)) sample_bref 1 0) \<noteq> 0"
  using bulkfree_test_remembers [of sample_cb sample_bref 1 0 1 0] by (simp add: case_prod_beta)

section \<open>The free-space count of the in-memory entry\<close>

lemma mark_avail:
  assumes "wf_bmap b" "n + k \<le> 256" "\<And>j. j < k \<Longrightarrow> bslot (bm_bitmapq b) (n + j) = BFree"
  shows "bm_avail (bulkfree_mark (16384 * n) (16384 * k) b) = bm_avail b - of_nat (\<Sum>j\<le>k. 16384 * j)"
  using assms
proof (induction k arbitrary: n b)
  case 0
  then show ?case by (simp add: bulkfree_mark_0)
next
  case (Suc k)
  let ?i = "n div 32" and ?m = "push_bit (2 * (n mod 32)) 3 :: u64" and ?q = "bm_bitmapq b"
  let ?b = "b\<lparr>bm_avail := bm_avail b - of_nat (16384 * Suc k), bm_bitmapq := ?q[?i := ?q ! ?i OR ?m]\<rparr>"
  have len: "length ?q = 8" using Suc.prems(1) by (simp add: wf_bmap_def)
  have ix: "?i < 8" "n mod 32 < 32" using Suc.prems(2) by (simp_all add: less_mult_imp_div_less)
  have "bslot ?q n = BFree" using Suc.prems(3) [of 0] by simp
  then have free: "?q ! ?i AND ?m = 0" by (simp only: and_3_eq_0_iff [OF ix(2)] bslot_def)
  have lt: "16384 * n < 4194304" "0 < 16384 * Suc k" using Suc.prems(2) by simp_all
  have div: "16384 * n div 16384 = n" by simp
  have step: "bulkfree_mark (16384 * n) (16384 * Suc k) b = bulkfree_mark (16384 * Suc n) (16384 * k) ?b"
    using bulkfree_mark_step [OF lt, of b] free unfolding Let_def div by (simp add: algebra_simps)
  have "bslot (bm_bitmapq ?b) (Suc n + j) = BFree" if j: "j < k" for j
  proof -
    have "Suc n + j < 256" "Suc n + j \<noteq> 32 * ?i + n mod 32" using j Suc.prems(2) by simp_all
    then have "bslot (?q[?i := ?q ! ?i OR ?m]) (Suc n + j) = bslot ?q (Suc n + j)"
      using bslot_set [OF len ix(2,1), of "?q ! ?i OR ?m" BAlloc "Suc n + j"] by (simp add: slot_or_3)
    then show ?thesis using Suc.prems(3) [of "Suc j"] j by simp
  qed
  moreover have "wf_bmap ?b" using Suc.prems(1) by (simp add: wf_bmap_def)
  ultimately have "bm_avail (bulkfree_mark (16384 * Suc n) (16384 * k) ?b) =
      bm_avail ?b - of_nat (\<Sum>j\<le>k. 16384 * j)"
    using Suc.prems(2) by (intro Suc.IH) simp_all
  then show ?case unfolding step by (simp add: algebra_simps)
qed

text \<open>The marking loop subtracts the bytes that are left instead of 16KB at each block it marks, so
  the in-memory \<open>avail\<close> is exact for one block but drops by 160KB for a 64KB reference.\<close>

theorem bulkfree_mark_overcounts:
  assumes "wf_bmap b" "n + 4 \<le> 256" "\<And>j. j < 4 \<Longrightarrow> bslot (bm_bitmapq b) (n + j) = BFree"
  shows "bm_avail (bulkfree_mark (16384 * n) 16384 b) = bm_avail b - 16384 \<and>
    bm_avail (bulkfree_mark (16384 * n) 65536 b) = bm_avail b - 163840"
proof -
  have sum: "(\<Sum>j\<le>k. 16384 * j) = 16384 * (k * Suc k div 2)" for k :: nat
    unfolding sum_distrib_left [symmetric] by (simp add: atMost_atLeast0 gauss_sum_nat)
  show ?thesis
    using mark_avail [of b n 4] mark_avail [of b n 1] assms assms(3) [of 0] unfolding sum by simp
qed

theorem bulkfree_mark_overcounts_witness:
  "bm_avail (bulkfree_mark (16384 * 0) 65536 bmap_fresh) = 4194304 - 163840"
proof -
  have "bslot (bm_bitmapq bmap_fresh) (0 + j) = BFree" if "j < 4" for j
    using that by (simp add: bslot_def bmap_fresh_def del: slot_state_iff)
  from bulkfree_mark_overcounts [OF fresh_wf(1) _ this] show ?thesis by (simp add: bmap_fresh_def)
qed

end
