(* ===== verification/H2_Blockmap.thy ===== *)
theory H2_Blockmap
  imports H2_Disk
begin

text \<open>
  The block tables of \<open>sys/hammer2/hammer2_chain.c\<close>: the search, insertion and deletion in the array of
  block references of a chain, the in-memory children, the combined search, and the choice of the key
  range for a new indirect block.

  An array is a list of \<open>count\<close> entries.  The children of a chain are the list of the red-black tree's
  elements in the order \<open>RB_FOREACH\<close> visits them.  Locks, reference counts and the generation counter
  are not in the state.  \<open>hpanic\<close> and a failed \<open>KKASSERT\<close> are \<open>None\<close>.
\<close>

section \<open>State\<close>

abbreviation (input) HAMMER2_KEY_MAX :: h2_key where "HAMMER2_KEY_MAX \<equiv> - 1"
abbreviation (input) HAMMER2_CHAIN_DELETED :: u32 where "HAMMER2_CHAIN_DELETED \<equiv> 0x00000010"
abbreviation (input) HAMMER2_CHAIN_COUNTEDBREFS :: u32 where "HAMMER2_CHAIN_COUNTEDBREFS \<equiv> 0x00002000"
abbreviation (input) HAMMER2_CHAIN_BLKMAPPED :: u32 where "HAMMER2_CHAIN_BLKMAPPED \<equiv> 0x00040000"
abbreviation (input) HAMMER2_CHAIN_BLKMAPUPD :: u32 where "HAMMER2_CHAIN_BLKMAPUPD \<equiv> 0x00080000"
abbreviation (input) HAMMER2_CHAIN_HINT_LEAF_COUNT :: u32 where "HAMMER2_CHAIN_HINT_LEAF_COUNT \<equiv> 0x00800000"

record chain =
  ch_bref :: blockref
  ch_flags :: u32

text \<open>The parent: its array (\<open>bl_null\<close> is a \<open>NULL\<close> base, a chain in the initial state), the fields of
  the core, the children and its own reference.\<close>

record blockmap =
  bl_base :: "blockref list"
  bl_null :: bool
  bl_live_zero :: nat
  bl_live_count :: u32
  bl_cache :: nat
  bl_flags :: u32
  bl_bref :: blockref
  bl_children :: "chain list"

definition bref_empty :: "blockref \<Rightarrow> bool" where
  "bref_empty b \<longleftrightarrow> br_type b = BREF_EMPTY"

text \<open>\<open>(hammer2_key_t)1 << keybits\<close> and the end of the key range.\<close>

definition bref_span :: "blockref \<Rightarrow> h2_key" where
  "bref_span b = push_bit (unat (br_keybits b)) 1"

definition bref_end :: "blockref \<Rightarrow> h2_key" where
  "bref_end b = br_key b + bref_span b - 1"

section \<open>hammer2_chain_countbrefs\<close>

fun count_zero :: "blockref list \<Rightarrow> nat \<Rightarrow> nat" where
  "count_zero base 0 = 0"
| "count_zero base (Suc n) = (if \<not> bref_empty (base ! n) then Suc n else count_zero base n)"

fun count_live :: "blockref list \<Rightarrow> nat \<Rightarrow> u32 \<Rightarrow> u32" where
  "count_live base 0 c = c"
| "count_live base (Suc n) c = count_live base n (if \<not> bref_empty (base ! n) then c + 1 else c)"

definition hammer2_chain_countbrefs :: "blockmap \<Rightarrow> blockmap" where
  "hammer2_chain_countbrefs p =
     (if bl_flags p AND HAMMER2_CHAIN_COUNTEDBREFS = 0 then
        (let p = (if \<not> bl_null p
                  then (let z = count_zero (bl_base p) (length (bl_base p))
                        in p\<lparr>bl_live_zero := z, bl_live_count := count_live (bl_base p) z (bl_live_count p)\<rparr>)
                  else p\<lparr>bl_live_zero := 0\<rparr>)
         in p\<lparr>bl_flags := bl_flags p OR HAMMER2_CHAIN_COUNTEDBREFS\<rparr>)
      else p)"

section \<open>hammer2_base_find\<close>

fun base_back :: "blockref list \<Rightarrow> h2_key \<Rightarrow> nat \<Rightarrow> nat" where
  "base_back base key_beg 0 = 0"
| "base_back base key_beg (Suc i) =
     (if bref_empty (base ! Suc i) \<or> key_beg < br_key (base ! Suc i) then base_back base key_beg i else Suc i)"

function base_forward :: "blockref list \<Rightarrow> h2_key \<Rightarrow> nat \<Rightarrow> nat \<Rightarrow> nat" where
  "base_forward base key_beg limit i =
     (if i < length base then
        (if \<not> bref_empty (base ! i) \<and> (key_beg < br_key (base ! i) \<or> key_beg \<le> bref_end (base ! i)) then i
         else if limit \<le> i then length base
         else base_forward base key_beg limit (i + 1))
      else length base)"
  by pat_completeness auto
termination
  by (relation "measure (\<lambda>(base, key_beg, limit, i). length base - i)") auto

declare base_forward.simps [simp del]

text \<open>The result: the index, the new \<open>*key_nextp\<close>, the parent.\<close>

definition hammer2_base_find :: "blockmap \<Rightarrow> h2_key \<Rightarrow> h2_key \<Rightarrow> (nat \<times> h2_key \<times> blockmap) option" where
  "hammer2_base_find p key_next key_beg = do {
     kkassert (bl_flags p AND HAMMER2_CHAIN_COUNTEDBREFS \<noteq> 0);
     let count = length (bl_base p);
     if count = 0 \<or> bl_null p then Some (count, key_next, p)
     else do {
       let limit = bl_live_zero p;
       let i = (if limit \<le> bl_cache p then limit - 1 else bl_cache p);
       kkassert (i < count);
       let i = base_back (bl_base p) key_beg i;
       let p = p\<lparr>bl_cache := i\<rparr>;
       let i = base_forward (bl_base p) key_beg limit i;
       Some (if i \<noteq> count
             then (let p = p\<lparr>bl_cache := i\<rparr> in
                   if limit \<le> i then (count, key_next, p)
                   else (let scan_end = br_key (bl_base p ! i) + bref_span (bl_base p ! i)
                         in (i, if scan_end \<noteq> 0 \<and> (scan_end < key_next \<or> key_next = 0) then scan_end else key_next, p)))
             else (i, key_next, p))
     }
   }"

section \<open>hammer2_chain_cmp, hammer2_chain_find\<close>

definition hammer2_chain_cmp :: "chain \<Rightarrow> chain \<Rightarrow> int" where
  "hammer2_chain_cmp chain1 chain2 =
     (let c1_beg = br_key (ch_bref chain1); c1_end = c1_beg + bref_span (ch_bref chain1) - 1;
          c2_beg = br_key (ch_bref chain2); c2_end = c2_beg + bref_span (ch_bref chain2) - 1
      in if c1_end < c2_beg then - 1 else if c2_end < c1_beg then 1 else 0)"

definition hammer2_chain_find_cmp :: "chain \<Rightarrow> h2_key \<Rightarrow> h2_key \<Rightarrow> int" where
  "hammer2_chain_find_cmp child key_beg key_end =
     (let child_beg = br_key (ch_bref child); child_end = child_beg + bref_span (ch_bref child) - 1
      in if child_end < key_beg then - 1 else if key_end < child_beg then 1 else 0)"

text \<open>The search state is \<open>best\<close> and \<open>key_next\<close>.\<close>

definition hammer2_chain_find_callback ::
  "h2_key \<Rightarrow> chain \<Rightarrow> chain option \<times> h2_key \<Rightarrow> (chain option \<times> h2_key) option" where
  "hammer2_chain_find_callback key_beg child st = (case st of (best, key_next) \<Rightarrow> do {
     (best, key_next) \<leftarrow>
       (case best of
          None \<Rightarrow> Some (Some child, key_next)
        | Some b \<Rightarrow>
            if br_key (ch_bref b) \<le> key_beg \<and> br_key (ch_bref child) \<le> key_beg then None
            else if br_key (ch_bref child) < br_key (ch_bref b) then
              Some (Some child,
                    if br_key (ch_bref b) < key_next \<or> key_next = 0 then br_key (ch_bref b) else key_next)
            else if br_key (ch_bref child) = br_key (ch_bref b) then None
            else Some (Some b,
                    if br_key (ch_bref child) < key_next \<or> key_next = 0 then br_key (ch_bref child) else key_next));
     let child_end = br_key (ch_bref child) + bref_span (ch_bref child);
     Some (best, if child_end \<noteq> 0 \<and> (child_end < key_next \<or> key_next = 0) then child_end else key_next)
   })"

fun chain_find_foreach ::
  "h2_key \<Rightarrow> h2_key \<Rightarrow> chain list \<Rightarrow> chain option \<times> h2_key \<Rightarrow> (chain option \<times> h2_key) option" where
  "chain_find_foreach key_beg key_end [] st = Some st"
| "chain_find_foreach key_beg key_end (c # cs) st = do {
     st \<leftarrow> (if hammer2_chain_find_cmp c key_beg key_end = 0 then hammer2_chain_find_callback key_beg c st else Some st);
     chain_find_foreach key_beg key_end cs st
   }"

definition hammer2_chain_find :: "blockmap \<Rightarrow> h2_key \<Rightarrow> h2_key \<Rightarrow> h2_key \<Rightarrow> (chain option \<times> h2_key) option" where
  "hammer2_chain_find p key_next key_beg key_end =
     chain_find_foreach key_beg key_end (bl_children p) (None, key_next)"

section \<open>hammer2_combined_find\<close>

text \<open>The result: the chain, the reference (\<open>None\<close> is a \<open>NULL\<close> \<open>*brefp\<close>), \<open>*key_nextp\<close>, the parent.\<close>

definition hammer2_combined_find ::
  "blockmap \<Rightarrow> h2_key \<Rightarrow> h2_key \<Rightarrow> (chain option \<times> blockref option \<times> h2_key \<times> blockmap) option" where
  "hammer2_combined_find p key_beg key_end = do {
     (i, key_next, p) \<leftarrow> hammer2_base_find p (key_end + 1) key_beg;
     (chain, key_next) \<leftarrow> hammer2_chain_find p key_next key_beg key_end;
     let count = length (bl_base p);
     let base = bl_base p;
     (chain, bref) \<leftarrow>
       (case chain of
          None \<Rightarrow> Some (None, if i = count then None else Some (base ! i))
        | Some c \<Rightarrow>
            if i = count then Some (Some c, Some (ch_bref c))
            else if (br_key (ch_bref c) \<le> key_beg \<and> br_key (base ! i) \<le> key_beg) \<or>
                    br_key (ch_bref c) = br_key (base ! i)
            then do { kkassert (br_key (ch_bref c) = br_key (base ! i)); Some (Some c, Some (ch_bref c)) }
            else if br_key (ch_bref c) < br_key (base ! i) then Some (Some c, Some (ch_bref c))
            else Some (None, Some (base ! i)));
     Some (case bref of
             None \<Rightarrow> (None, None, key_next, p)
           | Some b \<Rightarrow> if key_end < br_key b then (None, None, key_next, p) else (chain, Some b, key_next, p))
   }"

section \<open>hammer2_base_delete\<close>

definition radix_bytes :: "blockref \<Rightarrow> u64" where
  "radix_bytes b = (let r = unat (br_data_off b AND HAMMER2_OFF_MASK_RADIX) in if r \<noteq> 0 then push_bit r 1 else 0)"

definition leaf_dec :: "blockref \<times> u32 \<Rightarrow> blockref \<times> u32" where
  "leaf_dec s = (case s of (p, fl) \<Rightarrow>
     if br_leaf_count p = HAMMER2_BLOCKREF_LEAF_MAX then (p, fl OR HAMMER2_CHAIN_HINT_LEAF_COUNT)
     else (if br_leaf_count p \<noteq> 0 then p\<lparr>br_leaf_count := br_leaf_count p - 1\<rparr> else p, fl))"

definition leaf_sub :: "u16 \<Rightarrow> blockref \<times> u32 \<Rightarrow> blockref \<times> u32" where
  "leaf_sub n s = (case s of (p, fl) \<Rightarrow>
     if br_leaf_count p = HAMMER2_BLOCKREF_LEAF_MAX then (p, fl OR HAMMER2_CHAIN_HINT_LEAF_COUNT)
     else (if br_leaf_count p \<le> n then p\<lparr>br_leaf_count := 0\<rparr>
           else p\<lparr>br_leaf_count := br_leaf_count p - n\<rparr>, fl))"

definition stats_sub :: "blockref \<Rightarrow> blockref \<Rightarrow> blockref" where
  "stats_sub scan p = p\<lparr>br_data_count := br_data_count p - br_data_count scan,
                        br_inode_count := br_inode_count p - br_inode_count scan\<rparr>"

text \<open>The switch over the type of the deleted entry: the parent's reference and the chain's flags.\<close>

definition delete_stats :: "blockref \<Rightarrow> blockref \<times> u32 \<Rightarrow> blockref \<times> u32" where
  "delete_stats scan s =
     (let (p, fl) = s; p = p\<lparr>br_data_count := br_data_count p - radix_bytes scan\<rparr> in
      if br_type scan = BREF_INODE then
        (let (p, fl) = leaf_dec (p\<lparr>br_inode_count := br_inode_count p - 1\<rparr>, fl) in (stats_sub scan p, fl))
      else if br_type scan = BREF_DATA then leaf_sub (br_leaf_count scan) (leaf_dec (p, fl))
      else if br_type scan = BREF_INDIRECT then leaf_sub (br_leaf_count scan) (stats_sub scan p, fl)
      else if br_type scan = BREF_DIRENT then leaf_dec (p, fl)
      else (p, fl))"

text \<open>The result: the parent, the chain, the deleted entry (\<open>*obref\<close>).\<close>

definition hammer2_base_delete :: "blockmap \<Rightarrow> chain \<Rightarrow> (blockmap \<times> chain \<times> blockref) option" where
  "hammer2_base_delete p chain = do {
     let elm = ch_bref chain;
     (i, key_next, p) \<leftarrow> hammer2_base_find p 0 (br_key elm);
     let count = length (bl_base p);
     if i = count \<or> bref_empty (bl_base p ! i) \<or> br_key (bl_base p ! i) \<noteq> br_key elm \<or>
        (ch_flags chain AND HAMMER2_CHAIN_BLKMAPUPD = 0 \<and> br_keybits (bl_base p ! i) \<noteq> br_keybits elm)
     then hpanic
     else do {
       let scan = bl_base p ! i;
       let (pbref, flags) = delete_stats scan (bl_bref p, ch_flags chain);
       let base = (bl_base p)[i := bref_zero];
       let p = p\<lparr>bl_bref := pbref, bl_base := base,
                 bl_live_zero := (if bl_live_zero p = i + 1 then count_zero base i else bl_live_zero p)\<rparr>;
       Some (p, chain\<lparr>ch_flags := flags AND NOT (HAMMER2_CHAIN_BLKMAPPED OR HAMMER2_CHAIN_BLKMAPUPD)\<rparr>, scan)
     }
   }"

section \<open>hammer2_base_insert\<close>

definition leaf_inc :: "blockref \<Rightarrow> blockref" where
  "leaf_inc p = (if br_leaf_count p \<noteq> HAMMER2_BLOCKREF_LEAF_MAX then p\<lparr>br_leaf_count := br_leaf_count p + 1\<rparr> else p)"

text \<open>The sum of two 16-bit counts is an \<open>int\<close> in C, so it does not wrap.\<close>

definition leaf_add :: "u16 \<Rightarrow> blockref \<Rightarrow> blockref" where
  "leaf_add n p =
     (if unat (br_leaf_count p) + unat n < HAMMER2_BLOCKREF_LEAF_MAX
      then p\<lparr>br_leaf_count := br_leaf_count p + n\<rparr>
      else p\<lparr>br_leaf_count := HAMMER2_BLOCKREF_LEAF_MAX\<rparr>)"

definition stats_add :: "blockref \<Rightarrow> blockref \<Rightarrow> blockref" where
  "stats_add elm p = p\<lparr>br_data_count := br_data_count p + br_data_count elm,
                       br_inode_count := br_inode_count p + br_inode_count elm\<rparr>"

definition insert_stats :: "blockref \<Rightarrow> blockref \<Rightarrow> blockref" where
  "insert_stats elm p =
     (let p = p\<lparr>br_data_count := br_data_count p + radix_bytes elm\<rparr> in
      if br_type elm = BREF_INODE then stats_add elm (leaf_inc (p\<lparr>br_inode_count := br_inode_count p + 1\<rparr>))
      else if br_type elm = BREF_DATA then leaf_add (br_leaf_count elm) (leaf_inc p)
      else if br_type elm = BREF_INDIRECT then leaf_add (br_leaf_count elm) (stats_add elm p)
      else if br_type elm = BREF_DIRENT then leaf_inc p
      else p)"

text \<open>The search for an empty slot before (\<open>Inl\<close>) or after (\<open>Inr\<close>) the insertion point.\<close>

function insert_search :: "blockref list \<Rightarrow> int \<Rightarrow> nat \<Rightarrow> (nat + nat) option" where
  "insert_search base j k =
     (if 0 < j \<or> k < length base then
        (let j = j - 1 in
         if 0 \<le> j \<and> bref_empty (base ! nat j) then Some (Inl (nat j))
         else
           (let k = k + 1 in
            if k < length base \<and> bref_empty (base ! k) then Some (Inr k)
            else insert_search base j k))
      else None)"
  by pat_completeness auto
termination
  by (relation "measure (\<lambda>(base, j, k). nat j + (length base - k))") auto

declare insert_search.simps [simp del]

definition memmove_list :: "'a list \<Rightarrow> nat \<Rightarrow> nat \<Rightarrow> nat \<Rightarrow> 'a list" where
  "memmove_list xs dst src n = take dst xs @ take n (drop src xs) @ drop (dst + n) xs"

text \<open>The debugging check at the end: the ranges of the entries must be ascending.\<close>

fun validate_from :: "h2_key \<Rightarrow> blockref list \<Rightarrow> bool" where
  "validate_from key_next [] = True"
| "validate_from key_next (b # bs) =
     (if bref_empty b then validate_from key_next bs
      else if br_key b \<le> key_next then False
      else validate_from (bref_end b) bs)"

fun base_validate :: "blockref list \<Rightarrow> bool" where
  "base_validate [] = True"
| "base_validate (b # bs) = (if bref_empty b then base_validate bs else validate_from (bref_end b) bs)"

text \<open>\<open>chain\<close> may be \<open>NULL\<close>; a \<open>NULL\<close> base is dereferenced on every path, which is \<open>None\<close>.\<close>

definition hammer2_base_insert ::
  "blockmap \<Rightarrow> chain option \<Rightarrow> blockref \<Rightarrow> (blockmap \<times> chain option) option" where
  "hammer2_base_insert p chain elm = do {
     (i, key_next, p) \<leftarrow> hammer2_base_find p 0 (br_key elm);
     let count = length (bl_base p);
     kkassert (i \<le> count);
     let chain = map_option (\<lambda>c. c\<lparr>ch_flags := ch_flags c OR HAMMER2_CHAIN_BLKMAPPED\<rparr>) chain;
     let p = p\<lparr>bl_bref := insert_stats elm (bl_bref p)\<rparr>;
     if bl_null p then None
     else if i = count \<and> bl_live_zero p < count then
       Some (p\<lparr>bl_base := (bl_base p)[bl_live_zero p := elm], bl_live_zero := bl_live_zero p + 1\<rparr>, chain)
     else do {
       let base = bl_base p;
       let xkey = br_key elm + bref_span elm - 1;
       if i \<noteq> count \<and> (br_key (base ! i) < br_key elm \<or> br_key (base ! i) \<le> xkey) then hpanic
       else do {
         slot \<leftarrow> insert_search base (int i) i;
         let p = (case slot of
                    Inl j \<Rightarrow>
                      if int j = int i - 1 then p\<lparr>bl_base := base[j := elm]\<rparr>
                      else p\<lparr>bl_base := (memmove_list base j (j + 1) (i - j - 1))[i - 1 := elm]\<rparr>
                  | Inr k \<Rightarrow>
                      p\<lparr>bl_base := (memmove_list base (i + 1) i (k - i))[i := elm],
                        bl_live_zero := (if bl_live_zero p \<le> k then k + 1 else bl_live_zero p)\<rparr>);
         kkassert (base_validate (bl_base p));
         Some (p, chain)
       }
     }
   }"

end
