(* ===== verification/H2_BlockmapOps.thy ===== *)
theory H2_BlockmapOps
  imports H2_Blockmap
begin

text \<open>
  The block table as an ordered store of disjoint key ranges: the search finds the first range that
  ends at or after a key whatever the cached index is, insertion and deletion keep the order, the
  \<open>live_zero\<close> bound and the statistics of the parent, and fail exactly when the code means to panic.
\<close>

section \<open>Key ranges\<close>

definition rbeg :: "blockref \<Rightarrow> nat" where
  "rbeg b = unat (br_key b)"

definition rend :: "blockref \<Rightarrow> nat" where
  "rend b = unat (br_key b) + 2 ^ unat (br_keybits b) - 1"

definition before :: "blockref \<Rightarrow> blockref \<Rightarrow> bool" where
  "before a b \<longleftrightarrow> rend a < rbeg b"

definition wf_bref :: "blockref \<Rightarrow> bool" where
  "wf_bref b \<longleftrightarrow> unat (br_keybits b) < 64 \<and> 2 ^ unat (br_keybits b) dvd unat (br_key b)"

lemma rbeg_le_rend: "rbeg b \<le> rend b"
proof -
  have "(1 :: nat) \<le> 2 ^ unat (br_keybits b)" by simp
  then show ?thesis unfolding rbeg_def rend_def by linarith
qed

lemma rend_less:
  assumes "wf_bref b"
  shows "rend b < 2 ^ 64"
proof -
  let ?n = "unat (br_keybits b)"
  have "unat (br_key b) < 2 ^ 64" using unsigned_less [of "br_key b"] by simp
  moreover have "(2::nat) ^ ?n dvd 2 ^ 64" using assms by (intro le_imp_power_dvd) (simp add: wf_bref_def)
  ultimately have "2 ^ ?n dvd 2 ^ 64 - unat (br_key b)" "0 < 2 ^ 64 - unat (br_key b)"
    using assms by (auto simp: wf_bref_def intro: dvd_diff_nat)
  then have "2 ^ ?n \<le> 2 ^ 64 - unat (br_key b)" by (rule dvd_imp_le)
  moreover have "(0::nat) < 2 ^ ?n" by simp
  ultimately show ?thesis unfolding rend_def by linarith
qed

lemma unat_shl:
  assumes "r < 64"
  shows "unat (push_bit r 1 :: u64) = 2 ^ r"
proof -
  have "(2::nat) ^ r < 2 ^ 64" using assms by (intro power_strict_increasing) simp_all
  then have "take_bit 64 (2 ^ r :: nat) = 2 ^ r" by (rule take_bit_nat_eq_self)
  then show ?thesis by (simp only: unsigned_push_bit_eq) (simp add: push_bit_eq_mult)
qed

lemma unat_span: "unat (br_keybits b) < 64 \<Longrightarrow> unat (bref_span b) = 2 ^ unat (br_keybits b)"
  unfolding bref_span_def by (rule unat_shl)

lemma unat_bref_end:
  assumes "wf_bref b"
  shows "unat (bref_end b) = rend b"
proof -
  let ?n = "2 ^ unat (br_keybits b) :: nat"
  have s: "unat (bref_span b) = ?n" using assms by (intro unat_span) (simp add: wf_bref_def)
  have pos: "0 < ?n" by simp
  then have "1 \<le> bref_span b" using s by (simp add: word_le_nat_alt)
  then have m: "unat (bref_span b - 1) = ?n - 1" using s by (simp add: unat_sub)
  have "bref_end b = br_key b + (bref_span b - 1)" by (simp add: bref_end_def)
  moreover have "unat (br_key b) + unat (bref_span b - 1) < 2 ^ 64"
    using rend_less [OF assms] m pos by (simp add: rend_def)
  ultimately show ?thesis
    using m pos by (simp add: unat_word_ariths rend_def)
qed

lemma end_conv: "bref_span b - 1 + br_key b = bref_end b" "br_key b + bref_span b - 1 = bref_end b"
  by (simp_all add: bref_end_def)

lemma unat_key_max: "unat (- 1 :: u64) = 2 ^ 64 - 1"
  by (simp add: unsigned_minus_1_eq_mask mask_eq_exp_minus_1)

text \<open>The key after the range is 0 exactly at the end of the key space.\<close>

lemma scan_end_unat:
  assumes "wf_bref b"
  shows "br_key b + bref_span b = 0 \<longleftrightarrow> rend b = 2 ^ 64 - 1"
    "br_key b + bref_span b \<noteq> 0 \<Longrightarrow> unat (br_key b + bref_span b) = Suc (rend b)"
proof -
  have e: "br_key b + bref_span b = bref_end b + 1" by (simp add: bref_end_def)
  show "br_key b + bref_span b = 0 \<longleftrightarrow> rend b = 2 ^ 64 - 1"
  proof
    assume "br_key b + bref_span b = 0"
    then have "bref_end b = - 1" unfolding e by (simp add: eq_neg_iff_add_eq_0)
    then show "rend b = 2 ^ 64 - 1" using unat_bref_end [OF assms] by (simp add: unat_key_max)
  next
    assume "rend b = 2 ^ 64 - 1"
    then have "unat (bref_end b) = unat (- 1 :: u64)" using unat_bref_end [OF assms] by (simp only: unat_key_max)
    then have "bref_end b = - 1" by (simp only: word_unat_eq_iff)
    then show "br_key b + bref_span b = 0" unfolding e by simp
  qed
  show "unat (br_key b + bref_span b) = Suc (rend b)" if "br_key b + bref_span b \<noteq> 0"
    using that unfolding e by (simp add: unatSuc unat_bref_end [OF assms] add.commute)
qed

lemma le_end_iff: "wf_bref b \<Longrightarrow> k \<le> bref_end b \<longleftrightarrow> unat k \<le> rend b"
  by (simp add: word_le_nat_alt unat_bref_end)

section \<open>The invariant\<close>

definition live_brefs :: "blockref list \<Rightarrow> blockref list" where
  "live_brefs base = filter (\<lambda>b. \<not> bref_empty b) base"

definition ordered :: "blockref list \<Rightarrow> bool" where
  "ordered base \<longleftrightarrow> sorted_wrt (\<lambda>a b. bref_empty a \<or> bref_empty b \<or> before a b) base"

definition base_wf :: "blockref list \<Rightarrow> bool" where
  "base_wf base \<longleftrightarrow> (\<forall>b \<in> set base. \<not> bref_empty b \<longrightarrow> wf_bref b)"

definition live_zero_ok :: "blockref list \<Rightarrow> nat \<Rightarrow> bool" where
  "live_zero_ok base z \<longleftrightarrow> z \<le> length base \<and> (\<forall>i < length base. z \<le> i \<longrightarrow> bref_empty (base ! i)) \<and>
     (0 < z \<longrightarrow> \<not> bref_empty (base ! (z - 1)))"

definition blockmap_ok :: "blockmap \<Rightarrow> bool" where
  "blockmap_ok p \<longleftrightarrow> bl_flags p AND HAMMER2_CHAIN_COUNTEDBREFS \<noteq> 0 \<and> \<not> bl_null p \<and> 0 < length (bl_base p) \<and>
     live_zero_ok (bl_base p) (bl_live_zero p) \<and> base_wf (bl_base p) \<and> ordered (bl_base p)"

lemma ordered_live: "ordered base \<longleftrightarrow> sorted_wrt before (live_brefs base)"
  by (induction base) (auto simp: ordered_def live_brefs_def)

lemma orderedD:
  "ordered base \<Longrightarrow> i < j \<Longrightarrow> j < length base \<Longrightarrow> \<not> bref_empty (base ! i) \<Longrightarrow> \<not> bref_empty (base ! j)
   \<Longrightarrow> before (base ! i) (base ! j)"
  unfolding ordered_def by (auto dest: sorted_wrt_nth_less)

lemma base_wfD: "base_wf base \<Longrightarrow> i < length base \<Longrightarrow> \<not> bref_empty (base ! i) \<Longrightarrow> wf_bref (base ! i)"
  by (simp add: base_wf_def)

lemma live_append: "live_brefs (xs @ ys) = live_brefs xs @ live_brefs ys"
  by (simp add: live_brefs_def)

lemma live_Nil [simp]: "live_brefs [] = []"
  by (simp add: live_brefs_def)

lemma live_Cons: "live_brefs (x # xs) = (if bref_empty x then live_brefs xs else x # live_brefs xs)"
  by (simp add: live_brefs_def)

lemma live_none: "(\<And>b. b \<in> set xs \<Longrightarrow> bref_empty b) \<Longrightarrow> live_brefs xs = []"
  by (simp add: live_brefs_def filter_empty_conv)

lemma base_wf_live: "base_wf base \<longleftrightarrow> (\<forall>b \<in> set (live_brefs base). wf_bref b)"
  by (auto simp: base_wf_def live_brefs_def)

lemma empty_zero [simp]: "bref_empty bref_zero"
  by (simp add: bref_empty_def bref_zero_def)

section \<open>hammer2_chain_countbrefs\<close>

lemma count_zero_ok: "n \<le> length base \<Longrightarrow> (\<forall>i < length base. n \<le> i \<longrightarrow> bref_empty (base ! i)) \<Longrightarrow>
   live_zero_ok base (count_zero base n)"
proof (induction n)
  case 0
  then show ?case by (simp add: live_zero_ok_def)
next
  case (Suc n)
  show ?case
  proof (cases "bref_empty (base ! n)")
    case True
    then have "\<forall>i < length base. n \<le> i \<longrightarrow> bref_empty (base ! i)"
      using Suc.prems(2) by (metis le_neq_implies_less Suc_leI)
    then show ?thesis using Suc True by simp
  next
    case False
    then show ?thesis using Suc.prems by (simp add: live_zero_ok_def)
  qed
qed

lemma count_live_eq: "n \<le> length base \<Longrightarrow> count_live base n c = c + of_nat (length (live_brefs (take n base)))"
  by (induction n arbitrary: c) (auto simp: take_Suc_conv_app_nth live_append live_Cons)

lemma live_take_zero:
  assumes "live_zero_ok base z"
  shows "live_brefs (take z base) = live_brefs base"
proof -
  have "live_brefs (drop z base) = []"
  proof (rule live_none)
    fix b assume "b \<in> set (drop z base)"
    then obtain i where "i < length base - z" "b = base ! (z + i)" by (auto simp: in_set_conv_nth)
    then show "bref_empty b" using assms by (simp add: live_zero_ok_def)
  qed
  then show ?thesis using live_append [of "take z base" "drop z base"] by simp
qed

section \<open>hammer2_base_find\<close>

text \<open>The index of the first range that ends at or after \<open>k\<close>.\<close>

definition first_at :: "blockref list \<Rightarrow> nat \<Rightarrow> nat \<Rightarrow> bool" where
  "first_at base k i \<longleftrightarrow> i \<le> length base \<and>
     (i < length base \<longrightarrow> \<not> bref_empty (base ! i) \<and> k \<le> rend (base ! i)) \<and>
     (\<forall>j < i. \<not> bref_empty (base ! j) \<longrightarrow> rend (base ! j) < k)"

lemma base_back_spec:
  "i < length base \<Longrightarrow> ordered base \<Longrightarrow>
   base_back base k i \<le> i \<and> (\<forall>j < base_back base k i. \<not> bref_empty (base ! j) \<longrightarrow> rend (base ! j) < unat k)"
proof (induction i)
  case (Suc i)
  show ?case
  proof (cases "bref_empty (base ! Suc i) \<or> k < br_key (base ! Suc i)")
    case True
    then show ?thesis using Suc by simp
  next
    case False
    then have "rend (base ! j) < unat k" if "j < Suc i" "\<not> bref_empty (base ! j)" for j
      using orderedD [OF Suc.prems(2) that(1) Suc.prems(1) that(2)]
      by (simp add: before_def rbeg_def word_le_nat_alt not_less)
    then show ?thesis using False by simp
  qed
qed simp

lemma base_forward_spec:
  assumes "live_zero_ok base z" "base_wf base"
    and "i \<le> length base" "\<forall>j < i. \<not> bref_empty (base ! j) \<longrightarrow> rend (base ! j) < unat k"
  shows "first_at base (unat k) (base_forward base k z i)"
  using assms(3,4)
proof (induction "length base - i" arbitrary: i)
  case 0
  then show ?case by (simp add: base_forward.simps [of _ _ _ i] first_at_def)
next
  case (Suc n)
  then have i: "i < length base" by simp
  have wf: "\<not> bref_empty (base ! i) \<Longrightarrow> wf_bref (base ! i)" using base_wfD [OF assms(2) i] .
  have lt: "k < br_key (base ! i) \<Longrightarrow> unat k \<le> rend (base ! i)"
    using rbeg_le_rend [of "base ! i"] by (simp add: word_less_nat_alt rbeg_def)
  show ?case
  proof (cases "\<not> bref_empty (base ! i) \<and> unat k \<le> rend (base ! i)")
    case True
    then have "base_forward base k z i = i"
      using i by (subst base_forward.simps) (simp add: le_end_iff wf)
    then show ?thesis using True Suc.prems by (simp add: first_at_def)
  next
    case False
    then have no: "\<not> (\<not> bref_empty (base ! i) \<and> (k < br_key (base ! i) \<or> k \<le> bref_end (base ! i)))"
      using lt by (auto simp: le_end_iff wf)
    have upto: "\<forall>j < Suc i. \<not> bref_empty (base ! j) \<longrightarrow> rend (base ! j) < unat k"
      using Suc.prems(2) False by (auto simp: less_Suc_eq)
    show ?thesis
    proof (cases "z \<le> i")
      case True
      then have "base_forward base k z i = length base"
        using i by (subst base_forward.simps) (simp only: if_True if_not_P [OF no] simp_thms)
      moreover have "rend (base ! j) < unat k" if "j < length base" "\<not> bref_empty (base ! j)" for j
      proof -
        have "j < z" using that assms(1) by (metis live_zero_ok_def not_le)
        then show ?thesis using True Suc.prems(2) that(2) by simp
      qed
      ultimately show ?thesis by (simp add: first_at_def)
    next
      case False
      then have "base_forward base k z i = base_forward base k z (Suc i)"
        using i by (subst base_forward.simps) (simp only: if_True if_not_P [OF no] if_False simp_thms Suc_eq_plus1)
      then show ?thesis using Suc.hyps upto i by simp
    qed
  qed
qed

definition key_next_upd :: "blockref list \<Rightarrow> nat \<Rightarrow> h2_key \<Rightarrow> h2_key" where
  "key_next_upd base i key_next =
     (if i < length base
      then (let e = br_key (base ! i) + bref_span (base ! i)
            in if e \<noteq> 0 \<and> (e < key_next \<or> key_next = 0) then e else key_next)
      else key_next)"

lemma base_find_spec:
  assumes "blockmap_ok p"
  obtains i c where "hammer2_base_find p key_next k = Some (i, key_next_upd (bl_base p) i key_next, p\<lparr>bl_cache := c\<rparr>)"
    "first_at (bl_base p) (unat k) i"
proof -
  let ?base = "bl_base p" and ?z = "bl_live_zero p"
  have ok: "live_zero_ok ?base ?z" "base_wf ?base" "ordered ?base" "0 < length ?base" "\<not> bl_null p"
    "bl_flags p AND HAMMER2_CHAIN_COUNTEDBREFS \<noteq> 0"
    using assms by (simp_all add: blockmap_ok_def)
  let ?start = "if ?z \<le> bl_cache p then ?z - 1 else bl_cache p"
  have "?z \<le> length ?base" using ok(1) by (simp add: live_zero_ok_def)
  then have i0: "?start < length ?base" using ok(4) by (simp split: if_split; linarith)
  let ?b = "base_back ?base k ?start"
  let ?i = "base_forward ?base k ?z ?b"
  have bk: "?b \<le> ?start" "\<forall>j < ?b. \<not> bref_empty (?base ! j) \<longrightarrow> rend (?base ! j) < unat k"
    using base_back_spec [OF i0 ok(3)] by auto
  have first: "first_at ?base (unat k) ?i"
    using base_forward_spec [OF ok(1,2) _ bk(2)] bk(1) i0 by simp
  have lim: "\<not> ?z \<le> ?i" if "?i < length ?base"
    using first that ok(1) by (auto simp: first_at_def live_zero_ok_def)
  have le: "?i \<le> length ?base" using first by (simp add: first_at_def)
  show thesis
  proof (cases "?i = length ?base")
    case True
    have "hammer2_base_find p key_next k = Some (?i, key_next_upd ?base ?i key_next, p\<lparr>bl_cache := ?b\<rparr>)"
      using ok i0 True by (simp add: hammer2_base_find_def kkassert_bind Let_def key_next_upd_def)
    then show thesis using first by (rule that)
  next
    case False
    then have "?i < length ?base" using le by simp
    then have "hammer2_base_find p key_next k = Some (?i, key_next_upd ?base ?i key_next, p\<lparr>bl_cache := ?i\<rparr>)"
      using ok i0 lim by (simp add: hammer2_base_find_def kkassert_bind Let_def key_next_upd_def)
    then show thesis using first by (rule that)
  qed
qed

lemma first_at_split:
  assumes "first_at base k i" "ordered base" "base_wf base"
  shows "live_brefs (take i base) = filter (\<lambda>b. rend b < k) (live_brefs base)"
    "live_brefs (drop i base) = filter (\<lambda>b. \<not> rend b < k) (live_brefs base)"
proof -
  have lo: "rend b < k" if "b \<in> set (live_brefs (take i base))" for b
  proof -
    have "b \<in> set (take i base)" "\<not> bref_empty b" using that by (auto simp: live_brefs_def)
    then obtain j where "j < i" "j < length base" "b = base ! j" by (auto simp: in_set_conv_nth)
    then show ?thesis using assms(1) \<open>\<not> bref_empty b\<close> by (simp add: first_at_def)
  qed
  have hi: "\<not> rend b < k" if "b \<in> set (live_brefs (drop i base))" for b
  proof -
    have "b \<in> set (drop i base)" "\<not> bref_empty b" using that by (auto simp: live_brefs_def)
    then obtain m where m: "m < length base - i" "b = base ! (i + m)" by (auto simp: in_set_conv_nth)
    then have i: "i < length base" "\<not> bref_empty (base ! i)" "k \<le> rend (base ! i)"
      using assms(1) by (auto simp: first_at_def)
    show ?thesis
    proof (cases m)
      case 0
      then show ?thesis using i m by simp
    next
      case (Suc n)
      then have "before (base ! i) b"
        using orderedD [OF assms(2), of i "i + m"] i m \<open>\<not> bref_empty b\<close> by simp
      then show ?thesis using i(3) rbeg_le_rend [of b] by (simp add: before_def)
    qed
  qed
  have "live_brefs base = live_brefs (take i base) @ live_brefs (drop i base)"
    using live_append [of "take i base" "drop i base"] by simp
  then show "live_brefs (take i base) = filter (\<lambda>b. rend b < k) (live_brefs base)"
    "live_brefs (drop i base) = filter (\<lambda>b. \<not> rend b < k) (live_brefs base)"
    using lo hi by (auto simp: filter_empty_conv intro!: filter_True [symmetric])
qed

section \<open>hammer2_base_insert\<close>

lemma insert_search_spec:
  "case insert_search base j k of
     None \<Rightarrow> (\<forall>m. int m < j \<longrightarrow> \<not> bref_empty (base ! m)) \<and> (\<forall>m. k < m \<and> m < length base \<longrightarrow> \<not> bref_empty (base ! m))
   | Some (Inl m) \<Rightarrow> int m < j \<and> bref_empty (base ! m)
   | Some (Inr m) \<Rightarrow> k < m \<and> m < length base \<and> bref_empty (base ! m) \<and> (\<forall>l. k < l \<and> l < m \<longrightarrow> \<not> bref_empty (base ! l))"
proof (induction base j k rule: insert_search.induct)
  case (1 base j k)
  show ?case
  proof (cases "0 < j \<or> k < length base")
    case False
    then show ?thesis by (subst insert_search.simps) auto
  next
    case run: True
    show ?thesis
    proof (cases "0 \<le> j - 1 \<and> bref_empty (base ! nat (j - 1))")
      case True
      then show ?thesis using run by (subst insert_search.simps) (simp add: Let_def)
    next
      case no1: False
      show ?thesis
      proof (cases "k + 1 < length base \<and> bref_empty (base ! (k + 1))")
        case True
        then show ?thesis using run no1 by (subst insert_search.simps) (auto simp: Let_def)
      next
        case no2: False
        have step: "insert_search base j k = insert_search base (j - 1) (k + 1)"
          using run by (subst insert_search.simps) (simp only: Let_def if_True if_not_P [OF no1] if_not_P [OF no2])
        note IH = "1.IH" [OF run refl no1 refl no2]
        show ?thesis
        proof (cases "insert_search base (j - 1) (k + 1)")
          case None
          have "\<not> bref_empty (base ! m)" if "int m < j" for m
          proof (cases "int m = j - 1")
            case True
            then have "m = nat (j - 1)" "0 \<le> j - 1" by simp_all
            then show ?thesis using no1 by simp
          next
            case False
            then show ?thesis using IH None that by simp
          qed
          moreover have "\<not> bref_empty (base ! m)" if "k < m" "m < length base" for m
            using IH None no2 that by (cases "m = k + 1") auto
          ultimately show ?thesis unfolding step None by simp
        next
          case (Some r)
          show ?thesis
          proof (cases r)
            case (Inl m)
            then show ?thesis using IH unfolding step Some by simp
          next
            case (Inr m)
            have "\<not> bref_empty (base ! l)" if "k < l" "l < m" for l
              using IH Some Inr no2 that by (cases "l = k + 1") auto
            then show ?thesis using IH Some Inr unfolding step by simp
          qed
        qed
      qed
    qed
  qed
qed

lemma validate_from_ok:
  "(\<forall>b \<in> set (live_brefs bs). wf_bref b \<and> unat k < rbeg b) \<Longrightarrow> sorted_wrt before (live_brefs bs) \<Longrightarrow> validate_from k bs"
proof (induction bs arbitrary: k)
  case (Cons b bs)
  show ?case
  proof (cases "bref_empty b")
    case True
    then show ?thesis using Cons by (simp add: live_Cons)
  next
    case False
    then have wf: "wf_bref b" "unat k < rbeg b" using Cons.prems(1) by (simp_all add: live_Cons)
    have "validate_from (bref_end b) bs"
      using Cons.prems False wf(1) by (intro Cons.IH) (auto simp: live_Cons unat_bref_end before_def)
    then show ?thesis using False wf(2) by (simp add: word_le_nat_alt rbeg_def)
  qed
qed simp

lemma base_validate_ok: "base_wf bs \<Longrightarrow> ordered bs \<Longrightarrow> base_validate bs"
  unfolding base_wf_live ordered_live
proof (induction bs)
  case (Cons b bs)
  show ?case
  proof (cases "bref_empty b")
    case True
    then show ?thesis using Cons by (simp add: live_Cons)
  next
    case False
    then have bs: "wf_bref b" "\<forall>c \<in> set (live_brefs bs). wf_bref c \<and> before b c" "sorted_wrt before (live_brefs bs)"
      using Cons.prems by (simp_all add: live_Cons)
    then have "\<forall>c \<in> set (live_brefs bs). wf_bref c \<and> unat (bref_end b) < rbeg c"
      by (simp add: unat_bref_end before_def)
    then show ?thesis using False validate_from_ok bs(3) by simp
  qed
qed simp

text \<open>The three ways to place the new entry, as a list.\<close>

lemma upd_at: "length ys = n \<Longrightarrow> (ys @ z # zs)[n := e] = ys @ e # zs"
  by (auto simp: list_update_append)

lemma place_before:
  assumes "j < i" "i \<le> length base"
  shows "(memmove_list base j (j + 1) (i - j - 1))[i - 1 := e] = take j base @ take (i - j - 1) (drop (j + 1) base) @ e # drop i base"
proof -
  have len: "length (take j base @ take (i - j - 1) (drop (j + 1) base)) = i - 1" using assms by simp
  have "drop (j + (i - j - 1)) base = drop (i - 1) base" using assms by simp
  also have "\<dots> = base ! (i - 1) # drop i base"
    using assms by (metis Cons_nth_drop_Suc Suc_diff_1 diff_less less_le_trans not_gr_zero not_less_zero zero_less_one)
  finally have "memmove_list base j (j + 1) (i - j - 1) =
      (take j base @ take (i - j - 1) (drop (j + 1) base)) @ base ! (i - 1) # drop i base"
    by (simp add: memmove_list_def)
  then show ?thesis
    using upd_at [OF len, of "base ! (i - 1)" "drop i base" e] by (simp only: append_assoc)
qed

lemma place_after:
  assumes "i < k" "k < length base"
  shows "(memmove_list base (i + 1) i (k - i))[i := e] = take i base @ e # take (k - i) (drop i base) @ drop (k + 1) base"
proof -
  have "take (i + 1) base = take i base @ [base ! i]" using assms by (simp add: take_Suc_conv_app_nth)
  then have "memmove_list base (i + 1) i (k - i) = take i base @ base ! i # take (k - i) (drop i base) @ drop (k + 1) base"
    using assms by (simp add: memmove_list_def)
  moreover have "length (take i base) = i" using assms by simp
  ultimately show ?thesis by (simp only: upd_at)
qed

lemma place_at:
  assumes "j < length base"
  shows "base[j := e] = take j base @ e # drop (j + 1) base"
  using upd_conv_take_nth_drop [OF assms, of e] by simp

text \<open>A base whose parts around the new entry are known.\<close>

lemma new_base:
  assumes "base_wf base" "ordered base" "wf_bref e" "\<not> bref_empty e"
    and "\<forall>b \<in> set (live_brefs base). before b e \<or> before e b"
    and "live_brefs ys = filter (\<lambda>b. rend b < rbeg e) (live_brefs base)"
    and "live_brefs zs = filter (\<lambda>b. \<not> rend b < rbeg e) (live_brefs base)"
  shows "live_brefs (ys @ e # zs) = filter (\<lambda>b. before b e) (live_brefs base) @ e # filter (before e) (live_brefs base)"
    "base_wf (ys @ e # zs)" "ordered (ys @ e # zs)"
proof -
  have be: "(\<not> rend b < rbeg e) = before e b" if "b \<in> set (live_brefs base)" for b
    using that assms(5) rbeg_le_rend [of b] rbeg_le_rend [of e] by (auto simp: before_def)
  have zs: "live_brefs zs = filter (before e) (live_brefs base)"
    unfolding assms(7) by (rule filter_cong) (simp_all add: be)
  show live: "live_brefs (ys @ e # zs) = filter (\<lambda>b. before b e) (live_brefs base) @ e # filter (before e) (live_brefs base)"
    using assms(4) by (simp add: live_append live_Cons assms(6) zs before_def)
  show "base_wf (ys @ e # zs)" using assms(1,3) unfolding base_wf_live live by auto
  have tr: "before a c" if "before a e" "before e c" for a c
    using that rbeg_le_rend [of e] by (simp add: before_def)
  show "ordered (ys @ e # zs)"
    using assms(2) unfolding ordered_live live
    by (auto simp: sorted_wrt_append intro: sorted_wrt_filter tr)
qed

lemma live_take_drop_cut:
  assumes "j < length base" "bref_empty (base ! j)"
  shows "live_brefs (take j base @ drop (j + 1) base) = live_brefs base"
proof -
  have "base = take j base @ base ! j # drop (j + 1) base" using assms(1) by (simp add: id_take_nth_drop)
  then have "live_brefs base = live_brefs (take j base @ base ! j # drop (j + 1) base)" by simp
  then show ?thesis using assms(2) by (simp add: live_append live_Cons)
qed

text \<open>The result of an insertion.\<close>

definition inserted :: "blockref \<Rightarrow> blockmap \<Rightarrow> blockmap \<Rightarrow> bool" where
  "inserted e p p' \<longleftrightarrow> blockmap_ok p' \<and> length (bl_base p') = length (bl_base p) \<and>
     live_brefs (bl_base p') =
       filter (\<lambda>b. before b e) (live_brefs (bl_base p)) @ e # filter (before e) (live_brefs (bl_base p)) \<and>
     bl_bref p' = insert_stats e (bl_bref p) \<and> bl_children p' = bl_children p \<and>
     bl_flags p' = bl_flags p \<and> bl_null p' = bl_null p \<and> bl_live_count p' = bl_live_count p"

definition fits :: "blockref \<Rightarrow> blockmap \<Rightarrow> bool" where
  "fits e p \<longleftrightarrow> (\<forall>b \<in> set (live_brefs (bl_base p)). before b e \<or> before e b) \<and>
     length (live_brefs (bl_base p)) < length (bl_base p)"

lemma live_full: "length (live_brefs base) < length base \<longleftrightarrow> (\<exists>i < length base. bref_empty (base ! i))"
proof
  assume "length (live_brefs base) < length base"
  then have "live_brefs base \<noteq> base" by auto
  then obtain b where "b \<in> set base" "bref_empty b" unfolding live_brefs_def by (metis filter_True)
  then show "\<exists>i < length base. bref_empty (base ! i)" by (auto simp: in_set_conv_nth)
next
  assume "\<exists>i < length base. bref_empty (base ! i)"
  then show "length (live_brefs base) < length base"
    unfolding live_brefs_def by (elim exE conjE) (rule length_filter_less, auto)
qed

lemma live_zero_nonempty: "live_zero_ok base z \<Longrightarrow> i < length base \<Longrightarrow> \<not> bref_empty (base ! i) \<Longrightarrow> i < z"
  unfolding live_zero_ok_def by (metis not_le)

lemma live_zero_end: "z \<le> length ys \<Longrightarrow> (\<forall>b \<in> set (drop z ys). bref_empty b) \<Longrightarrow> (0 < z \<Longrightarrow> \<not> bref_empty (ys ! (z - 1))) \<Longrightarrow>
   live_zero_ok ys z"
proof -
  assume a: "z \<le> length ys" "\<forall>b \<in> set (drop z ys). bref_empty b" "0 < z \<Longrightarrow> \<not> bref_empty (ys ! (z - 1))"
  have "bref_empty (ys ! i)" if "i < length ys" "z \<le> i" for i
  proof -
    have "ys ! i = drop z ys ! (i - z)" "i - z < length (drop z ys)" using that by simp_all
    then show ?thesis using a(2) nth_mem by metis
  qed
  then show ?thesis using a by (simp add: live_zero_ok_def)
qed

text \<open>The bound after each way to place the entry.\<close>

lemma drop_past: "length ys < m \<Longrightarrow> drop m (ys @ e # zs) = drop (m - length ys - 1) zs"
  by (cases "m - length ys") simp_all

lemma live_zero_at:
  assumes "live_zero_ok base z" "z < length base" "\<not> bref_empty e"
  shows "live_zero_ok (take z base @ e # drop (z + 1) base) (z + 1)"
proof (rule live_zero_end)
  show "z + 1 \<le> length (take z base @ e # drop (z + 1) base)" using assms(2) by simp
  have "bref_empty b" if "b \<in> set (drop (z + 1) base)" for b
    using that assms(1) by (auto simp: in_set_conv_nth live_zero_ok_def)
  then show "\<forall>b \<in> set (drop (z + 1) (take z base @ e # drop (z + 1) base)). bref_empty b"
    using assms(2) by simp
qed (use assms(2,3) in \<open>simp add: nth_append\<close>)

lemma live_zero_before:
  assumes "live_zero_ok base z" "j < i" "i \<le> length base" "i \<le> z" "\<not> bref_empty e"
  shows "live_zero_ok (take j base @ take (i - j - 1) (drop (j + 1) base) @ e # drop i base) z"
proof -
  let ?ys = "take j base @ take (i - j - 1) (drop (j + 1) base)"
  have len: "length ?ys = i - 1" "0 < i" using assms(2,3) by simp_all
  then have tot: "length (?ys @ e # drop i base) = length base" using assms(3) by simp
  have "length ?ys < z" using len assms(4) by simp
  then have "drop z (?ys @ e # drop i base) = drop (z - i) (drop i base)"
    using len(2) by (simp only: drop_past len(1)) (simp add: diff_diff_left)
  then have shift: "drop z (?ys @ e # drop i base) = drop z base" using assms(4) by simp
  have "live_zero_ok (?ys @ e # drop i base) z"
  proof (rule live_zero_end)
    show "z \<le> length (?ys @ e # drop i base)" using assms(1) unfolding tot by (simp add: live_zero_ok_def)
    show "\<forall>b \<in> set (drop z (?ys @ e # drop i base)). bref_empty b"
      unfolding shift using assms(1) by (auto simp: in_set_conv_nth live_zero_ok_def)
    show "\<not> bref_empty ((?ys @ e # drop i base) ! (z - 1))" if "0 < z"
    proof (cases "z = i")
      case True
      then have "(?ys @ e # drop i base) ! (z - 1) = e"
        using nth_append_length [of ?ys e "drop i base"] unfolding len(1) by (simp only:)
      then show ?thesis using assms(5) by (simp only: not_False_eq_True)
    next
      case False
      then have lt: "i < z" using assms(4) by simp
      have "(?ys @ e # drop i base) ! (z - 1) = (e # drop i base) ! (z - 1 - (i - 1))"
        using lt len by (subst nth_append) auto
      also have "\<dots> = base ! (z - 1)" using lt len assms(3) by (simp add: nth_Cons')
      finally show ?thesis using assms(1) that by (simp add: live_zero_ok_def)
    qed
  qed
  then show ?thesis by simp
qed

lemma live_zero_after:
  assumes "live_zero_ok base z" "i < k" "k < length base" "bref_empty (base ! k)" "\<not> bref_empty (base ! i)"
    and "\<And>l. i < l \<Longrightarrow> l < k \<Longrightarrow> \<not> bref_empty (base ! l)"
  shows "live_zero_ok (take i base @ e # take (k - i) (drop i base) @ drop (k + 1) base) (if z \<le> k then k + 1 else z)"
    (is "live_zero_ok ?N _")
proof -
  have len: "length ?N = length base" using assms(2,3) by simp
  have ne: "\<not> bref_empty (base ! (k - 1))"
  proof (cases "k - 1 = i")
    case True
    then show ?thesis using assms(5) by simp
  next
    case False
    then show ?thesis using assms(2) by (intro assms(6)) simp_all
  qed
  have dz: "drop m ?N = drop m base" if "k + 1 \<le> m" for m
  proof -
    have li: "length (take i base) = i" using assms(2,3) by simp
    then have "drop m ?N = drop (m - i - 1) (take (k - i) (drop i base) @ drop (k + 1) base)"
      using that assms(2) by (subst drop_past) simp_all
    also have "\<dots> = drop (m - (k + 1)) (drop (k + 1) base)" using that assms(2,3) by simp
    finally show ?thesis using that by simp
  qed
  have nthN: "?N ! k = base ! (k - 1)"
  proof -
    have "?N ! k = (e # take (k - i) (drop i base) @ drop (k + 1) base) ! (k - i)"
      using assms(2,3) by (simp add: nth_append)
    also have "\<dots> = drop i base ! (k - i - 1)" using assms(2,3) by (simp add: nth_Cons' nth_append)
    finally show ?thesis using assms(2,3) by simp
  qed
  have tail: "bref_empty b" if "b \<in> set (drop m base)" "z \<le> m" for b m
    using that assms(1) by (auto simp: in_set_conv_nth live_zero_ok_def)
  show ?thesis
  proof (cases "z \<le> k")
    case True
    then have "\<forall>b \<in> set (drop (k + 1) ?N). bref_empty b" using tail by (simp only: dz le_refl) auto
    then have "live_zero_ok ?N (k + 1)" using ne nthN len assms(3) by (intro live_zero_end) simp_all
    then show ?thesis using True by simp
  next
    case False
    then have zk: "k + 1 \<le> z" by simp
    have nez: "\<not> bref_empty (base ! (z - 1))" "z \<le> length base" using assms(1) False by (simp_all add: live_zero_ok_def)
    then have "z - 1 \<noteq> k" using assms(4) by auto
    then have zk': "k + 1 \<le> z - 1" using zk by simp
    have "?N ! (z - 1) = hd (drop (z - 1) ?N)" using nez(2) len zk by (intro hd_drop_conv_nth [symmetric]) linarith
    also have "\<dots> = base ! (z - 1)"
      unfolding dz [OF zk'] using nez(2) zk by (intro hd_drop_conv_nth) linarith
    finally have "\<not> bref_empty (?N ! (z - 1))" using nez(1) by simp
    moreover have "\<forall>b \<in> set (drop z ?N). bref_empty b"
      unfolding dz [OF zk] using tail by auto
    moreover have "z \<le> length ?N" using nez(2) len by (simp only:)
    ultimately have "live_zero_ok ?N z" by (intro live_zero_end)
    then show ?thesis using False by (simp only: if_False)
  qed
qed

lemma live_cut_before:
  assumes "j < i" "i \<le> length base" "bref_empty (base ! j)"
  shows "live_brefs (take j base @ take (i - j - 1) (drop (j + 1) base)) = live_brefs (take i base)"
proof -
  have "take (i - j - 1) (drop (j + 1) base) = drop (j + 1) (take i base)" by (simp add: drop_take)
  moreover have "take j base = take j (take i base)" using assms(1) by simp
  ultimately show ?thesis using live_take_drop_cut [of j "take i base"] assms by simp
qed

text \<open>The overlap test of the insertion looks at one entry and decides for all of them.\<close>

lemma overlap_iff:
  assumes "first_at base (rbeg e) i" "ordered base" "base_wf base" "wf_bref e"
  shows "i \<noteq> length base \<and> (br_key (base ! i) < br_key e \<or> br_key (base ! i) \<le> bref_end e) \<longleftrightarrow>
    \<not> (\<forall>b \<in> set (live_brefs base). before b e \<or> before e b)"
proof -
  note split = first_at_split [OF assms(1-3)]
  have i: "i \<le> length base" using assms(1) by (simp add: first_at_def)
  show ?thesis
  proof (cases "i < length base")
    case False
    then have "before b e" if "b \<in> set (live_brefs base)" for b
      using split(1) i that by (metis before_def filter_id_conv le_neq_implies_less order_refl take_all)
    then show ?thesis using False i by auto
  next
    case True
    then have bi: "\<not> bref_empty (base ! i)" "rbeg e \<le> rend (base ! i)" using assms(1) by (simp_all add: first_at_def)
    then have mem: "base ! i \<in> set (live_brefs base)" using True by (simp add: live_brefs_def)
    have rest: "before e b" if "before e (base ! i)" "b \<in> set (live_brefs base)" "\<not> before b e" for b
    proof -
      have "b \<in> set (live_brefs (drop i base))" unfolding split(2) using that by (simp add: before_def)
      then have "b \<in> set (drop i base)" "\<not> bref_empty b" by (auto simp: live_brefs_def)
      then obtain m where m: "m < length base - i" "b = base ! (i + m)" by (auto simp: in_set_conv_nth)
      show ?thesis
      proof (cases m)
        case 0
        then show ?thesis using that m by simp
      next
        case (Suc n)
        then have "before (base ! i) b"
          using orderedD [OF assms(2), of i "i + m"] m bi(1) \<open>\<not> bref_empty b\<close> by simp
        then show ?thesis using that(1) rbeg_le_rend [of "base ! i"] by (simp add: before_def)
      qed
    qed
    have "br_key (base ! i) < br_key e \<or> br_key (base ! i) \<le> bref_end e \<longleftrightarrow> \<not> before e (base ! i)"
      using unat_bref_end [OF assms(4)] rbeg_le_rend [of e]
      by (auto simp: word_less_nat_alt word_le_nat_alt before_def rbeg_def)
    moreover have "\<not> before (base ! i) e" using bi(2) by (simp add: before_def)
    ultimately show ?thesis using True mem rest by blast
  qed
qed

text \<open>The insertion succeeds exactly when the new range is disjoint from all ranges and a slot is empty.\<close>

lemma base_insert_spec:
  assumes ok: "blockmap_ok p" and e: "wf_bref e" "\<not> bref_empty e"
  shows "if fits e p
    then \<exists>p'. hammer2_base_insert p chain e =
           Some (p', map_option (\<lambda>c. c\<lparr>ch_flags := ch_flags c OR HAMMER2_CHAIN_BLKMAPPED\<rparr>) chain) \<and> inserted e p p'
    else hammer2_base_insert p chain e = None"
proof -
  let ?base = "bl_base p" and ?z = "bl_live_zero p"
  let ?L = "live_brefs ?base"
  let ?c = "map_option (\<lambda>c. c\<lparr>ch_flags := ch_flags c OR HAMMER2_CHAIN_BLKMAPPED\<rparr>) chain"
  have inv: "live_zero_ok ?base ?z" "base_wf ?base" "ordered ?base" "0 < length ?base"
    using ok by (simp_all add: blockmap_ok_def)
  have nn: "\<not> bl_null p" using ok by (simp add: blockmap_ok_def)
  obtain i c where find: "hammer2_base_find p 0 (br_key e) = Some (i, key_next_upd ?base i 0, p\<lparr>bl_cache := c\<rparr>)"
    and first: "first_at ?base (rbeg e) i" using base_find_spec [OF ok, of 0 "br_key e"] by (metis rbeg_def)
  let ?p = "p\<lparr>bl_cache := c, bl_bref := insert_stats e (bl_bref p)\<rparr>"
  note split = first_at_split [OF first inv(3,2)]
  note over = overlap_iff [OF first inv(3,2) e(1)]
  have i: "i \<le> length ?base" using first by (simp add: first_at_def)
  have mk: "inserted e p (?p\<lparr>bl_base := ys @ e # zs, bl_live_zero := z\<rparr>)"
    if "live_brefs ys = live_brefs (take i ?base)" "live_brefs zs = live_brefs (drop i ?base)"
      "live_zero_ok (ys @ e # zs) z" "length (ys @ e # zs) = length ?base" "fits e p" for ys zs z
  proof -
    have "\<forall>b \<in> set ?L. before b e \<or> before e b" using that(5) by (simp add: fits_def)
    note nb = new_base [OF inv(2,3) e this that(1) [unfolded split] that(2) [unfolded split]]
    show ?thesis using nb that(3,4) ok by (simp add: inserted_def blockmap_ok_def)
  qed
  show ?thesis
  proof (cases "i = length ?base \<and> ?z < length ?base")
    case True
    have lo: "rend b < rbeg e" if "b \<in> set ?L" for b
      using split(1) True that by (metis filter_id_conv order_refl take_all)
    then have fit: "fits e p"
      using inv(1) True by (auto simp: fits_def before_def live_full live_zero_ok_def)
    have eq: "?base[?z := e] = take ?z ?base @ e # drop (?z + 1) ?base" using True by (intro place_at) simp
    have lens: "length (take ?z ?base @ e # drop (?z + 1) ?base) = length ?base" unfolding eq [symmetric] by simp
    have "live_brefs (drop (?z + 1) ?base) = live_brefs (drop i ?base)"
      using inv(1) True by (subst live_none) (auto simp: in_set_conv_nth live_zero_ok_def)
    then have "inserted e p (?p\<lparr>bl_base := ?base[?z := e], bl_live_zero := ?z + 1\<rparr>)"
      unfolding eq using live_take_zero [OF inv(1)] True lens fit live_zero_at [OF inv(1) _ e(2)] by (intro mk) simp_all
    then show ?thesis using True fit by (simp add: hammer2_base_insert_def nn find Let_def)
  next
    case nofast: False
    show ?thesis
    proof (cases "\<forall>b \<in> set ?L. before b e \<or> before e b")
      case False
      then have "hammer2_base_insert p chain e = None"
        using nofast over by (simp add: hammer2_base_insert_def nn find Let_def kkassert_bind end_conv)
      then show ?thesis using False by (simp add: fits_def)
    next
      case disj: True
      then have nov: "\<not> (i \<noteq> length ?base \<and> (br_key (?base ! i) < br_key e \<or> br_key (?base ! i) \<le> bref_end e))"
        using over by blast
      note run = hammer2_base_insert_def nn find Let_def kkassert_bind end_conv
      show ?thesis
      proof (cases "insert_search ?base (int i) i")
        case None
        have "\<not> (\<exists>m < length ?base. bref_empty (?base ! m))"
        proof (intro notI, elim exE conjE)
          fix m assume m: "m < length ?base" "bref_empty (?base ! m)"
          then have "\<not> m < i" "\<not> i < m"
            using insert_search_spec [where base = ?base and j = "int i" and k = i] None by auto
          then have "m = i" by simp
          then show False using first m by (simp add: first_at_def)
        qed
        then show ?thesis using nofast nov None live_full [of ?base] by (simp add: fits_def run)
      next
        case (Some r)
        then have room: "fits e p" if "\<exists>m < length ?base. bref_empty (?base ! m)"
          using that disj live_full [of ?base] by (simp add: fits_def)
        show ?thesis
        proof (cases r)
          case (Inl j)
          then have j: "j < i" "bref_empty (?base ! j)" using insert_search_spec [where base = ?base and j = "int i" and k = i] Some by simp_all
          let ?N = "take j ?base @ take (i - j - 1) (drop (j + 1) ?base) @ e # drop i ?base"
          have eq: "(if int j = int i - 1 then ?base[j := e] else (memmove_list ?base j (j + 1) (i - j - 1))[i - 1 := e]) = ?N"
          proof (cases "int j = int i - 1")
            case True
            then have "i = j + 1" by simp
            then show ?thesis using place_at [of j ?base e] i by simp
          next
            case False
            then show ?thesis using place_before [OF j(1) i] by simp
          qed
          have iz: "i \<le> ?z"
          proof (cases "i < length ?base")
            case True
            then show ?thesis using live_zero_nonempty [OF inv(1) True] first by (simp add: first_at_def)
          next
            case False
            then show ?thesis using nofast i by simp
          qed
          have fit: "fits e p" using j i by (intro room exI [of _ j]) simp
          have lens: "length ?N = length ?base"
          proof -
            have "length (take j ?base @ take (i - j - 1) (drop (j + 1) ?base)) = i - 1" "0 < i" using j(1) i by simp_all
            then show ?thesis using i by simp
          qed
          have ins: "inserted e p (?p\<lparr>bl_base := ?N, bl_live_zero := ?z\<rparr>)"
            using mk [OF live_cut_before [OF j(1) i j(2)] refl, unfolded append_assoc,
                OF live_zero_before [OF inv(1) j(1) i iz e(2)] lens fit] .
          then have "base_validate ?N" by (intro base_validate_ok) (simp_all add: inserted_def blockmap_ok_def)
          then have "hammer2_base_insert p chain e = Some (?p\<lparr>bl_base := ?N, bl_live_zero := ?z\<rparr>, ?c)"
            using eq i nofast nov Some Inl by (cases "int j = int i - 1") (auto simp: run)
          then show ?thesis using ins fit by auto
        next
          case (Inr k)
          then have k: "i < k" "k < length ?base" "bref_empty (?base ! k)"
              "\<And>l. i < l \<Longrightarrow> l < k \<Longrightarrow> \<not> bref_empty (?base ! l)"
            using insert_search_spec [where base = ?base and j = "int i" and k = i] Some by simp_all
          let ?N = "take i ?base @ e # take (k - i) (drop i ?base) @ drop (k + 1) ?base"
          have fit: "fits e p" using k by (intro room exI [of _ k]) simp
          have bi: "\<not> bref_empty (?base ! i)" using first k by (simp add: first_at_def)
          have ins: "inserted e p (?p\<lparr>bl_base := ?N, bl_live_zero := if ?z \<le> k then k + 1 else ?z\<rparr>)"
            using mk [OF refl live_take_drop_cut [of "k - i" "drop i ?base"]] live_zero_after [OF inv(1) k(1-3) bi k(4)] k fit
            by simp
          then have "base_validate ?N" by (intro base_validate_ok) (simp_all add: inserted_def blockmap_ok_def)
          then have "hammer2_base_insert p chain e =
              Some (?p\<lparr>bl_base := ?N, bl_live_zero := if ?z \<le> k then k + 1 else ?z\<rparr>, ?c)"
            using i nofast nov Some Inr place_after [OF k(1,2), of e] by (auto simp: run)
          then show ?thesis using ins fit by auto
        qed
      qed
    qed
  qed
qed

end
