(* ===== verification/H2_BlockmapStore.thy ===== *)
theory H2_BlockmapStore
  imports H2_BlockmapOps
begin

text \<open>
  Deletion from a block table, and the block table as an implementation of a store of disjoint key
  ranges: the locale states the contract of find, insert and delete, its interpretation is the code.
\<close>

section \<open>hammer2_base_delete\<close>

text \<open>The entry that a deletion for \<open>chain\<close> takes out.\<close>

definition deletes :: "chain \<Rightarrow> blockref \<Rightarrow> bool" where
  "deletes chain b \<longleftrightarrow> br_key b = br_key (ch_bref chain) \<and>
     (ch_flags chain AND HAMMER2_CHAIN_BLKMAPUPD = 0 \<longrightarrow> br_keybits b = br_keybits (ch_bref chain))"

definition deleted :: "chain \<Rightarrow> blockref \<Rightarrow> blockmap \<Rightarrow> blockmap \<Rightarrow> bool" where
  "deleted chain b p p' \<longleftrightarrow> blockmap_ok p' \<and> length (bl_base p') = length (bl_base p) \<and>
     live_brefs (bl_base p') = filter (\<lambda>x. br_key x \<noteq> br_key b) (live_brefs (bl_base p)) \<and>
     bl_bref p' = fst (delete_stats b (bl_bref p, ch_flags chain)) \<and> bl_children p' = bl_children p \<and>
     bl_flags p' = bl_flags p \<and> bl_null p' = bl_null p \<and> bl_live_count p' = bl_live_count p"

lemma live_cut_key:
  assumes "ordered base" "i < length base" "\<not> bref_empty (base ! i)"
  shows "live_brefs (base[i := bref_zero]) = filter (\<lambda>x. br_key x \<noteq> br_key (base ! i)) (live_brefs base)"
proof -
  let ?b = "base ! i" and ?xs = "live_brefs (take i base)" and ?ys = "live_brefs (drop (Suc i) base)"
  have "base = take i base @ ?b # drop (Suc i) base" using assms(2) by (rule id_take_nth_drop)
  then have live: "live_brefs base = ?xs @ ?b # ?ys" using assms(3) by (metis live_append live_Cons)
  then have "sorted_wrt before (?xs @ ?b # ?ys)" using assms(1) by (simp add: ordered_live)
  then have "\<forall>x \<in> set ?xs. before x ?b" "\<forall>y \<in> set ?ys. before ?b y" by (simp_all add: sorted_wrt_append)
  moreover have "br_key x \<noteq> br_key y" if "before x y" for x y
    using that rbeg_le_rend [of x] by (auto simp: before_def rbeg_def)
  ultimately have keep: "filter (\<lambda>x. br_key x \<noteq> br_key ?b) ?xs = ?xs" "filter (\<lambda>x. br_key x \<noteq> br_key ?b) ?ys = ?ys"
    by (fastforce simp: filter_id_conv)+
  have "live_brefs (base[i := bref_zero]) = ?xs @ ?ys"
    unfolding upd_conv_take_nth_drop [OF assms(2)] by (simp add: live_append live_Cons)
  then show ?thesis unfolding live using keep by simp
qed

lemma live_zero_cut:
  assumes "live_zero_ok base z" "i < length base" "\<not> bref_empty (base ! i)"
  shows "live_zero_ok (base[i := bref_zero]) (if z = i + 1 then count_zero (base[i := bref_zero]) i else z)"
proof (cases "z = i + 1")
  case True
  have "live_zero_ok (base[i := bref_zero]) (count_zero (base[i := bref_zero]) i)"
  proof (rule count_zero_ok)
    show "\<forall>j < length (base[i := bref_zero]). i \<le> j \<longrightarrow> bref_empty (base[i := bref_zero] ! j)"
      using assms(1) True by (auto simp: live_zero_ok_def nth_list_update)
  qed (use assms(2) in simp)
  then show ?thesis using True by simp
next
  case False
  then have "z - 1 \<noteq> i" using live_zero_nonempty [OF assms] by simp
  then show ?thesis using assms(1,2) False by (simp add: live_zero_ok_def nth_list_update)
qed

lemma first_at_key:
  assumes "first_at base (unat k) i" "ordered base" "m < length base" "\<not> bref_empty (base ! m)" "br_key (base ! m) = k"
  shows "i = m"
proof -
  have k: "unat k \<le> rend (base ! m)" "rbeg (base ! m) = unat k"
    using assms(5) rbeg_le_rend [of "base ! m"] by (simp_all add: rbeg_def)
  have "\<not> m < i" using assms(1,4) k(1) by (auto simp: first_at_def)
  moreover have "\<not> i < m"
  proof
    assume "i < m"
    then have "before (base ! i) (base ! m)" "unat k \<le> rend (base ! i)"
      using assms(1-4) orderedD [OF assms(2), of i m] by (auto simp: first_at_def)
    then show False using k(2) by (simp add: before_def)
  qed
  ultimately show ?thesis by simp
qed

lemma base_delete_spec:
  assumes ok: "blockmap_ok p"
  shows "case List.find (deletes chain) (live_brefs (bl_base p)) of
      None \<Rightarrow> hammer2_base_delete p chain = None
    | Some b \<Rightarrow> \<exists>p'. hammer2_base_delete p chain = Some (p',
        chain\<lparr>ch_flags := snd (delete_stats b (bl_bref p, ch_flags chain)) AND
          NOT (HAMMER2_CHAIN_BLKMAPPED OR HAMMER2_CHAIN_BLKMAPUPD)\<rparr>, b) \<and> deleted chain b p p'"
proof -
  let ?base = "bl_base p" and ?k = "br_key (ch_bref chain)"
  have inv: "live_zero_ok ?base (bl_live_zero p)" "base_wf ?base" "ordered ?base"
    using ok by (simp_all add: blockmap_ok_def)
  obtain i c where find: "hammer2_base_find p 0 ?k = Some (i, key_next_upd ?base i 0, p\<lparr>bl_cache := c\<rparr>)"
    and first: "first_at ?base (unat ?k) i" by (rule base_find_spec [OF ok])
  have i: "i \<le> length ?base" using first by (simp add: first_at_def)
  show ?thesis
  proof (cases "List.find (deletes chain) (live_brefs ?base)")
    case None
    then have "\<not> deletes chain (?base ! i)" if "i \<noteq> length ?base" "\<not> bref_empty (?base ! i)"
      using None that(2) nth_mem [OF le_neq_implies_less [OF i that(1)]] by (auto simp: find_None_iff live_brefs_def)
    then have "hammer2_base_delete p chain = None"
      by (auto simp: hammer2_base_delete_def find Let_def deletes_def)
    then show ?thesis using None by simp
  next
    case (Some b)
    then have b: "b \<in> set ?base" "\<not> bref_empty b" "deletes chain b"
      by (auto simp: find_Some_iff live_brefs_def dest: nth_mem)
    then obtain m where m: "m < length ?base" "b = ?base ! m" by (auto simp: in_set_conv_nth)
    then have "i = m" using b first_at_key [OF first inv(3), of m] by (simp add: deletes_def)
    then have bi: "b = ?base ! i" "i < length ?base" using m by simp_all
    let ?p = "p\<lparr>bl_cache := c, bl_bref := fst (delete_stats b (bl_bref p, ch_flags chain)), bl_base := ?base[i := bref_zero],
        bl_live_zero := if bl_live_zero p = i + 1 then count_zero (?base[i := bref_zero]) i else bl_live_zero p\<rparr>"
    have "hammer2_base_delete p chain = Some (?p,
        chain\<lparr>ch_flags := snd (delete_stats b (bl_bref p, ch_flags chain)) AND
          NOT (HAMMER2_CHAIN_BLKMAPPED OR HAMMER2_CHAIN_BLKMAPUPD)\<rparr>, b)"
      using b(2,3) bi by (auto simp: hammer2_base_delete_def find Let_def deletes_def split: prod.split)
    moreover have "deleted chain b p ?p"
    proof -
      note cut = live_cut_key [OF inv(3) bi(2)] and zero = live_zero_cut [OF inv(1) bi(2)]
      have ne: "\<not> bref_empty (?base ! i)" using b(2) bi(1) by simp
      have "base_wf (?base[i := bref_zero])" "ordered (?base[i := bref_zero])"
        using inv(2,3) unfolding base_wf_live ordered_live cut [OF ne] by (auto intro: sorted_wrt_filter)
      then show ?thesis using ok cut [OF ne] zero [OF ne] bi by (simp add: deleted_def blockmap_ok_def)
    qed
    ultimately show ?thesis using Some by auto
  qed
qed

section \<open>The contract\<close>

text \<open>A bounded store of disjoint key ranges.  \<open>find_op k\<close> is the first range that ends at or after
\<open>k\<close>; an insertion fails when the range overlaps another one or the store is full; a deletion names
the key and the size of the range.\<close>

definition disjoint_from :: "blockref \<Rightarrow> blockref list \<Rightarrow> bool" where
  "disjoint_from e bs \<longleftrightarrow> (\<forall>b \<in> set bs. before b e \<or> before e b)"

definition place :: "blockref \<Rightarrow> blockref list \<Rightarrow> blockref list" where
  "place e bs = filter (\<lambda>b. before b e) bs @ e # filter (before e) bs"

definition same_range :: "blockref \<Rightarrow> blockref \<Rightarrow> bool" where
  "same_range a b \<longleftrightarrow> br_key a = br_key b \<and> br_keybits a = br_keybits b"

lemma before_irrefl: "\<not> before b b"
  using rbeg_le_rend [of b] by (simp add: before_def)

lemma before_asym: "before a b \<Longrightarrow> \<not> before b a"
  using rbeg_le_rend [of a] rbeg_le_rend [of b] by (simp add: before_def)

lemma before_trans: "before a b \<Longrightarrow> before b c \<Longrightarrow> before a c"
  using rbeg_le_rend [of b] by (simp add: before_def)

lemma before_keys: "before a b \<Longrightarrow> br_key a \<noteq> br_key b"
  using rbeg_le_rend [of a] by (auto simp: before_def rbeg_def)

lemma set_place: "disjoint_from e bs \<Longrightarrow> set (place e bs) = insert e (set bs)"
  by (auto simp: place_def disjoint_from_def)

lemma place_sorted: "sorted_wrt before bs \<Longrightarrow> sorted_wrt before (place e bs)"
  by (auto simp: place_def sorted_wrt_append intro: sorted_wrt_filter before_trans)

text \<open>Two sorted lists of ranges with the same elements are equal.\<close>

lemma sorted_before_eq: "sorted_wrt before xs \<Longrightarrow> sorted_wrt before ys \<Longrightarrow> set xs = set ys \<Longrightarrow> xs = ys"
proof (induction xs arbitrary: ys)
  case (Cons x xs)
  then obtain y ys' where ys: "ys = y # ys'" by (cases ys) auto
  have "x = y \<or> before y x" "y = x \<or> before x y" using Cons.prems unfolding ys by auto
  then have "x = y" using before_asym by blast
  moreover have "set xs = set ys'"
  proof -
    have "x \<notin> set xs" "y \<notin> set ys'" using Cons.prems unfolding ys by (auto simp: before_irrefl)
    then show ?thesis using Cons.prems(3) \<open>x = y\<close> unfolding ys by auto
  qed
  ultimately show ?case using Cons unfolding ys by simp
qed simp

lemma sorted_delete_place:
  assumes "sorted_wrt before bs" "disjoint_from e bs"
  shows "filter (\<lambda>x. br_key x \<noteq> br_key e) (place e bs) = bs"
proof (rule sorted_before_eq [OF sorted_wrt_filter [OF place_sorted [OF assms(1)]] assms(1)])
  have "br_key x \<noteq> br_key e" if "x \<in> set bs" for x
    using assms(2) that before_keys [of x e] before_keys [of e x] by (auto simp: disjoint_from_def)
  then show "set (filter (\<lambda>x. br_key x \<noteq> br_key e) (place e bs)) = set bs"
    using set_place [OF assms(2)] by auto
qed

lemma find_sorted:
  "sorted_wrt before bs \<Longrightarrow> b \<in> set bs \<Longrightarrow> k \<le> rend b \<Longrightarrow> rbeg b \<le> k \<Longrightarrow> List.find (\<lambda>b. k \<le> rend b) bs = Some b"
proof (induction bs)
  case (Cons a bs)
  show ?case
  proof (cases "b = a")
    case False
    then have "before a b" using Cons.prems by simp
    then have "\<not> k \<le> rend a" using Cons.prems(4) by (simp add: before_def)
    then show ?thesis using Cons False by simp
  qed (use Cons in simp)
qed simp

locale range_store =
  fixes ok :: "'s \<Rightarrow> bool"
    and ranges :: "'s \<Rightarrow> blockref list"
    and capacity :: "'s \<Rightarrow> nat"
    and find_op :: "h2_key \<Rightarrow> 's \<Rightarrow> blockref option"
    and insert_op :: "blockref \<Rightarrow> 's \<Rightarrow> 's option"
    and delete_op :: "blockref \<Rightarrow> 's \<Rightarrow> (blockref \<times> 's) option"
  assumes ranges_sorted: "ok s \<Longrightarrow> sorted_wrt before (ranges s)"
    and find_law: "ok s \<Longrightarrow> find_op k s = List.find (\<lambda>b. unat k \<le> rend b) (ranges s)"
    and insert_iff: "ok s \<Longrightarrow> wf_bref e \<Longrightarrow> \<not> bref_empty e \<Longrightarrow>
      insert_op e s \<noteq> None \<longleftrightarrow> disjoint_from e (ranges s) \<and> length (ranges s) < capacity s"
    and insert_law: "ok s \<Longrightarrow> wf_bref e \<Longrightarrow> \<not> bref_empty e \<Longrightarrow> insert_op e s = Some s' \<Longrightarrow>
      ok s' \<and> capacity s' = capacity s \<and> ranges s' = place e (ranges s)"
    and delete_iff: "ok s \<Longrightarrow> delete_op e s \<noteq> None \<longleftrightarrow> (\<exists>b \<in> set (ranges s). same_range b e)"
    and delete_law: "ok s \<Longrightarrow> delete_op e s = Some (b, s') \<Longrightarrow>
      ok s' \<and> capacity s' = capacity s \<and> b \<in> set (ranges s) \<and> same_range b e \<and>
      ranges s' = filter (\<lambda>x. br_key x \<noteq> br_key b) (ranges s)"
begin

lemma insertE:
  assumes "ok s" "wf_bref e" "\<not> bref_empty e" "insert_op e s = Some s'"
  obtains "ok s'" "capacity s' = capacity s" "ranges s' = place e (ranges s)" "disjoint_from e (ranges s)"
    "length (ranges s) < capacity s"
  using insert_law [OF assms] insert_iff [OF assms(1-3)] assms(4) by auto

text \<open>Every key of the range finds the new entry.\<close>

lemma find_inserted:
  assumes "ok s" "wf_bref e" "\<not> bref_empty e" "insert_op e s = Some s'" "rbeg e \<le> unat k" "unat k \<le> rend e"
  shows "find_op k s' = Some e"
proof -
  obtain s': "ok s'" "ranges s' = place e (ranges s)" using insertE [OF assms(1-4)] by metis
  then show ?thesis
    using find_law find_sorted [OF ranges_sorted [OF s'(1)] _ assms(6,5)] by (simp add: place_def)
qed

lemma insert_delete:
  assumes "ok s" "wf_bref e" "\<not> bref_empty e" "insert_op e s = Some s'"
  obtains b s'' where "delete_op e s' = Some (b, s'')" "b = e" "ok s''" "ranges s'' = ranges s"
proof -
  obtain s': "ok s'" "ranges s' = place e (ranges s)" "disjoint_from e (ranges s)" using insertE [OF assms] by metis
  have "e \<in> set (ranges s')" unfolding s' by (simp add: place_def)
  then obtain b s'' where d: "delete_op e s' = Some (b, s'')"
    using delete_iff [OF s'(1), of e] by (force simp: same_range_def)
  note law = delete_law [OF s'(1) d]
  have "b \<in> insert e (set (ranges s))" using law set_place [OF s'(3)] s'(2) by simp
  then have "b = e"
    using law s'(3) before_keys [of b e] before_keys [of e b] by (auto simp: disjoint_from_def same_range_def)
  then show thesis
    using that [OF d] law sorted_delete_place [OF ranges_sorted [OF assms(1)] s'(3)] s'(2) by simp
qed

text \<open>The order of insertion does not matter.\<close>

lemma insert_commute:
  assumes "ok s" "wf_bref a" "\<not> bref_empty a" "wf_bref b" "\<not> bref_empty b"
    and "insert_op a s = Some sa" "insert_op b sa = Some sab"
  obtains sb sba where "insert_op b s = Some sb" "insert_op a sb = Some sba" "ranges sba = ranges sab"
proof -
  obtain sa: "ok sa" "capacity sa = capacity s" "ranges sa = place a (ranges s)" "disjoint_from a (ranges s)"
    using insertE [OF assms(1-3,6)] by metis
  obtain sab: "ok sab" "ranges sab = place b (ranges sa)" "disjoint_from b (ranges sa)"
      "length (ranges sa) < capacity sa" using insertE [OF sa(1) assms(4,5,7)] by metis
  have dis: "disjoint_from b (ranges s)" "before a b \<or> before b a"
    using sab(3) set_place [OF sa(4)] unfolding sa(3) by (auto simp: disjoint_from_def)
  have len: "length (ranges sa) = Suc (length (ranges s))"
  proof -
    have "distinct xs" if "sorted_wrt before xs" for xs using that by (induction xs) (auto simp: before_irrefl)
    then have "length (ranges sa) = card (set (ranges sa))" "length (ranges s) = card (set (ranges s))"
      using ranges_sorted [OF sa(1)] ranges_sorted [OF assms(1)] by (simp_all add: distinct_card)
    moreover have "a \<notin> set (ranges s)" using sa(4) by (auto simp: disjoint_from_def before_irrefl)
    ultimately show ?thesis using set_place [OF sa(4)] unfolding sa(3) by simp
  qed
  obtain sb where b: "insert_op b s = Some sb"
    using insert_iff [OF assms(1,4,5)] dis(1) len sab(4) sa(2) by auto
  obtain sb: "ok sb" "capacity sb = capacity s" "ranges sb = place b (ranges s)" using insertE [OF assms(1,4,5) b] by metis
  have "disjoint_from a (ranges sb)" using sa(4) dis set_place [OF dis(1)] unfolding sb(3) by (auto simp: disjoint_from_def)
  moreover have "length (ranges sb) = length (ranges sa)"
  proof -
    have "length (place e bs) = Suc (length bs)" if "disjoint_from e bs" for e bs
      using that by (induction bs) (auto simp: place_def disjoint_from_def dest: before_asym)
    then show ?thesis using len dis(1) sb(3) by simp
  qed
  ultimately obtain sba where a: "insert_op a sb = Some sba"
    using insert_iff [OF sb(1) assms(2,3)] sab(4) sa(2) sb(2) by auto
  obtain sba: "ok sba" "ranges sba = place a (ranges sb)" "disjoint_from a (ranges sb)"
    using insertE [OF sb(1) assms(2,3) a] by metis
  have "set (ranges sba) = set (ranges sab)"
    using set_place [OF sba(3)] set_place [OF dis(1)] set_place [OF sab(3)] set_place [OF sa(4)]
    unfolding sba(2) sb(3) sab(2) sa(3) by auto
  then show thesis using that [OF b a] sorted_before_eq [OF ranges_sorted [OF sba(1)] ranges_sorted [OF sab(1)]] by simp
qed

end

end
