(* ===== verification/H2_BlockmapProps.thy ===== *)
theory H2_BlockmapProps
  imports H2_BlockmapStore
begin

text \<open>
  The properties of the block table: the interpretation of the store contract on the code, the
  statistics that the parent keeps of its entries, and the claims.
\<close>

section \<open>The code provides the contract\<close>

definition bm_find :: "h2_key \<Rightarrow> blockmap \<Rightarrow> blockref option" where
  "bm_find k p = (case hammer2_base_find p 0 k of
     Some (i, key_next, p') \<Rightarrow> if i < length (bl_base p') then Some (bl_base p' ! i) else None
   | None \<Rightarrow> None)"

definition bm_insert :: "blockref \<Rightarrow> blockmap \<Rightarrow> blockmap option" where
  "bm_insert e p = map_option fst (hammer2_base_insert p None e)"

definition bm_delete :: "blockref \<Rightarrow> blockmap \<Rightarrow> (blockref \<times> blockmap) option" where
  "bm_delete e p = map_option (\<lambda>(p', c, b). (b, p')) (hammer2_base_delete p \<lparr>ch_bref = e, ch_flags = 0\<rparr>)"

lemma find_after: "\<forall>x \<in> set xs. \<not> P x \<Longrightarrow> P y \<Longrightarrow> List.find P (xs @ y # ys) = Some y"
  by (induction xs) auto

lemma find_first_at:
  assumes "first_at base k i" "ordered base" "base_wf base"
  shows "List.find (\<lambda>b. k \<le> rend b) (live_brefs base) = (if i < length base then Some (base ! i) else None)"
proof (cases "i < length base")
  case True
  then have i: "\<not> bref_empty (base ! i)" "k \<le> rend (base ! i)" using assms(1) by (simp_all add: first_at_def)
  have "base = take i base @ base ! i # drop (Suc i) base" using True by (rule id_take_nth_drop)
  then have live: "live_brefs base = live_brefs (take i base) @ base ! i # live_brefs (drop (Suc i) base)"
    using i(1) by (metis live_append live_Cons)
  have "\<forall>b \<in> set (live_brefs (take i base)). \<not> k \<le> rend b" using first_at_split(1) [OF assms] by simp
  then show ?thesis unfolding live using True i(2) by (subst find_after) simp_all
next
  case False
  then have "filter (\<lambda>b. rend b < k) (live_brefs base) = live_brefs base" using first_at_split(1) [OF assms] by simp
  then have "\<forall>b \<in> set (live_brefs base). rend b < k" by (rule filter_id_conv [THEN iffD1])
  then show ?thesis using False by (auto simp: find_None_iff)
qed

lemma insert_law_base:
  assumes "blockmap_ok p" "wf_bref e" "\<not> bref_empty e" "bm_insert e p = Some p'"
  shows "inserted e p p'"
  using base_insert_spec [OF assms(1-3), of None] assms(4) by (auto simp: bm_insert_def split: if_splits)

lemma deletes_same: "deletes \<lparr>ch_bref = e, ch_flags = 0\<rparr> b \<longleftrightarrow> same_range b e"
  by (simp add: deletes_def same_range_def)

lemma delete_law_base:
  assumes "blockmap_ok p" "bm_delete e p = Some (b, p')"
  shows "deleted \<lparr>ch_bref = e, ch_flags = 0\<rparr> b p p' \<and> b \<in> set (live_brefs (bl_base p)) \<and> same_range b e"
  using base_delete_spec [OF assms(1), of "\<lparr>ch_bref = e, ch_flags = 0\<rparr>"] assms(2)
  by (auto simp: bm_delete_def deletes_same find_Some_iff split: option.splits dest: nth_mem)

interpretation bm: range_store blockmap_ok "\<lambda>p. live_brefs (bl_base p)" "\<lambda>p. length (bl_base p)" bm_find bm_insert bm_delete
proof unfold_locales
  fix p :: blockmap and e b p' k
  assume ok: "blockmap_ok p"
  then have inv: "ordered (bl_base p)" "base_wf (bl_base p)" by (simp_all add: blockmap_ok_def)
  show "sorted_wrt before (live_brefs (bl_base p))" using inv(1) by (simp add: ordered_live)
  show "bm_find k p = List.find (\<lambda>b. unat k \<le> rend b) (live_brefs (bl_base p))"
    by (rule base_find_spec [OF ok, of 0 k]) (simp add: bm_find_def find_first_at [OF _ inv])
  show "bm_insert e p \<noteq> None \<longleftrightarrow> disjoint_from e (live_brefs (bl_base p)) \<and>
      length (live_brefs (bl_base p)) < length (bl_base p)" if "wf_bref e" "\<not> bref_empty e"
    using base_insert_spec [OF ok that, of None] by (auto simp: bm_insert_def fits_def disjoint_from_def split: if_splits)
  show "blockmap_ok p' \<and> length (bl_base p') = length (bl_base p) \<and>
      live_brefs (bl_base p') = place e (live_brefs (bl_base p))"
    if "wf_bref e" "\<not> bref_empty e" "bm_insert e p = Some p'"
    using insert_law_base [OF ok that] by (simp add: inserted_def place_def)
  show "bm_delete e p \<noteq> None \<longleftrightarrow> (\<exists>b \<in> set (live_brefs (bl_base p)). same_range b e)"
    using base_delete_spec [OF ok, of "\<lparr>ch_bref = e, ch_flags = 0\<rparr>"]
    by (auto simp: bm_delete_def deletes_same find_Some_iff find_None_iff split: option.splits dest: nth_mem)
  show "blockmap_ok p' \<and> length (bl_base p') = length (bl_base p) \<and> b \<in> set (live_brefs (bl_base p)) \<and>
      same_range b e \<and> live_brefs (bl_base p') = filter (\<lambda>x. br_key x \<noteq> br_key b) (live_brefs (bl_base p))"
    if "bm_delete e p = Some (b, p')"
    using delete_law_base [OF ok that] by (simp add: deleted_def)
qed

section \<open>The statistics of the parent\<close>

text \<open>What an entry adds to \<open>data_count\<close> and to \<open>inode_count\<close> of the parent's reference.\<close>

definition data_share :: "blockref \<Rightarrow> u64" where
  "data_share b = radix_bytes b + (if br_type b = BREF_INODE \<or> br_type b = BREF_INDIRECT then br_data_count b else 0)"

definition inode_share :: "blockref \<Rightarrow> u64" where
  "inode_share b = (if br_type b = BREF_INODE then 1 else 0) +
     (if br_type b = BREF_INODE \<or> br_type b = BREF_INDIRECT then br_inode_count b else 0)"

definition data_balance :: "blockmap \<Rightarrow> u64" where
  "data_balance p = br_data_count (bl_bref p) - sum_list (map data_share (live_brefs (bl_base p)))"

definition inode_balance :: "blockmap \<Rightarrow> u64" where
  "inode_balance p = br_inode_count (bl_bref p) - sum_list (map inode_share (live_brefs (bl_base p)))"

lemmas stats_defs = insert_stats_def delete_stats_def stats_add_def stats_sub_def leaf_inc_def leaf_add_def
  leaf_dec_def leaf_sub_def data_share_def inode_share_def

lemma insert_stats_counts:
  "br_data_count (insert_stats e p) = br_data_count p + data_share e"
  "br_inode_count (insert_stats e p) = br_inode_count p + inode_share e"
  by (simp_all add: stats_defs Let_def)

lemma delete_stats_counts:
  "br_data_count (fst (delete_stats e (p, fl))) = br_data_count p - data_share e"
  "br_inode_count (fst (delete_stats e (p, fl))) = br_inode_count p - inode_share e"
  by (simp_all add: stats_defs Let_def split: prod.splits if_splits)

lemma sum_place:
  fixes f :: "blockref \<Rightarrow> u64"
  assumes "disjoint_from e bs"
  shows "sum_list (map f (place e bs)) = f e + sum_list (map f bs)"
  using assms by (induction bs) (auto simp: place_def disjoint_from_def dest: before_asym)

lemma sum_cut:
  fixes f :: "blockref \<Rightarrow> u64"
  assumes "sorted_wrt before bs" "b \<in> set bs"
  shows "sum_list (map f (filter (\<lambda>x. br_key x \<noteq> br_key b) bs)) = sum_list (map f bs) - f b"
  using assms
proof (induction bs)
  case (Cons a bs)
  show ?case
  proof (cases "b = a")
    case True
    then have "filter (\<lambda>x. br_key x \<noteq> br_key b) bs = bs"
      using Cons.prems(1) by (auto simp: filter_id_conv dest!: bspec before_keys)
    then show ?thesis using True by simp
  next
    case False
    then have "br_key a \<noteq> br_key b" using Cons.prems before_keys by auto
    then show ?thesis using Cons False by simp
  qed
qed simp

text \<open>A step of a block table: an insertion, a deletion or a search.\<close>

inductive blockmap_step :: "blockmap \<Rightarrow> blockmap \<Rightarrow> bool" where
  insert_step: "hammer2_base_insert p chain e = Some (p', chain') \<Longrightarrow> wf_bref e \<Longrightarrow> \<not> bref_empty e \<Longrightarrow>
    blockmap_step p p'"
| delete_step: "hammer2_base_delete p chain = Some (p', chain', obref) \<Longrightarrow> blockmap_step p p'"
| find_step: "hammer2_base_find p key_next k = Some (i, key_next', p') \<Longrightarrow> blockmap_step p p'"

lemma step_balance:
  assumes "blockmap_step p p'" "blockmap_ok p"
  shows "blockmap_ok p' \<and> length (bl_base p') = length (bl_base p) \<and>
    data_balance p' = data_balance p \<and> inode_balance p' = inode_balance p"
  using assms
proof (induction rule: blockmap_step.induct)
  case (insert_step p chain e p' chain')
  have ins: "inserted e p p'" "fits e p"
    using base_insert_spec [OF insert_step.prems insert_step.hyps(2,3), of chain] insert_step.hyps(1) by (auto split: if_splits)
  then have "disjoint_from e (live_brefs (bl_base p))" by (simp add: fits_def disjoint_from_def)
  then show ?case
    using ins(1) sum_place [of e "live_brefs (bl_base p)"]
    by (simp add: inserted_def data_balance_def inode_balance_def insert_stats_counts flip: place_def)
next
  case (delete_step p chain p' chain' b)
  then have d: "deleted chain b p p'" "b \<in> set (live_brefs (bl_base p))"
    using base_delete_spec [OF delete_step.prems, of chain]
    by (auto simp: find_Some_iff split: option.splits dest: nth_mem)
  then show ?case
    using sum_cut [OF bm.ranges_sorted [OF delete_step.prems]]
    by (simp add: deleted_def data_balance_def inode_balance_def delete_stats_counts)
next
  case (find_step p key_next k i key_next' p')
  then obtain c where "p' = p\<lparr>bl_cache := c\<rparr>" using base_find_spec [OF find_step.prems, of key_next k] by force
  then show ?case using find_step.prems by (simp add: blockmap_ok_def data_balance_def inode_balance_def)
qed

lemma leaf_words:
  fixes a n :: u16
  assumes "unat a + unat n + 1 < 65535"
  shows "a \<noteq> 65535" "a + 1 \<noteq> 65535" "a + 1 \<noteq> 0" "a + n \<noteq> 65535" "a + 1 + n \<noteq> 65535" "a + 1 + n \<noteq> 0"
    "unat (a + 1) = unat a + 1" "unat (a + n) = unat a + unat n" "a + n \<le> n \<longleftrightarrow> a = 0"
proof -
  have u1: "unat (a + 1) = unat a + 1" and u: "unat (a + n) = unat a + unat n"
    using assms by (simp_all add: unat_word_ariths)
  have u2: "unat (a + 1 + n) = unat a + 1 + unat n" using assms by (simp add: unat_word_ariths)
  show "unat (a + 1) = unat a + 1" "unat (a + n) = unat a + unat n" using u1 u by simp_all
  show "a \<noteq> 65535" "a + 1 \<noteq> 65535" "a + 1 \<noteq> 0" "a + n \<noteq> 65535" "a + 1 + n \<noteq> 65535" "a + 1 + n \<noteq> 0"
    using assms u u1 u2 by (auto simp: word_unat_eq_iff)
  show "a + n \<le> n \<longleftrightarrow> a = 0" using u by (simp add: word_le_nat_alt unat_eq_0)
qed

lemma delete_insert_stats:
  assumes "unat (br_leaf_count p) + unat (br_leaf_count e) + 1 < 65535"
  shows "delete_stats e (insert_stats e p, fl) = (p, fl)"
  using leaf_words [OF assms] assms by (simp add: stats_defs Let_def)

section \<open>Claims\<close>

definition sample_bref :: "u8 \<Rightarrow> h2_key \<Rightarrow> u8 \<Rightarrow> blockref" where
  "sample_bref t k n = bref_zero\<lparr>br_type := t, br_key := k, br_keybits := n, br_data_off := 10, br_leaf_count := 2\<rparr>"

definition sample_map :: blockmap where
  "sample_map = \<lparr>bl_base = [sample_bref BREF_DATA 16 4, bref_zero, sample_bref BREF_DIRENT 64 5, bref_zero],
     bl_null = False, bl_live_zero = 3, bl_live_count = 2, bl_cache = 9, bl_flags = 0x2000,
     bl_bref = bref_zero\<lparr>br_data_count := 4096\<rparr>, bl_children = []\<rparr>"

lemma sample_bref_wf:
  "wf_bref (sample_bref BREF_DATA 16 4)" "wf_bref (sample_bref BREF_DIRENT 64 5)" "wf_bref (sample_bref BREF_INDIRECT 32 5)"
  by (simp_all add: wf_bref_def sample_bref_def)

lemma sample_bref_types [simp]: "br_type (sample_bref t k n) = t" "br_key (sample_bref t k n) = k"
  "br_keybits (sample_bref t k n) = n" "br_leaf_count (sample_bref t k n) = 2"
  by (simp_all add: sample_bref_def)

lemma sample_live: "live_brefs (bl_base sample_map) = [sample_bref BREF_DATA 16 4, sample_bref BREF_DIRENT 64 5]"
  by (simp add: sample_map_def live_brefs_def bref_empty_def bref_zero_def sample_bref_def)

lemma sample_map_ok: "blockmap_ok sample_map"
proof -
  have live: "\<not> bref_empty (sample_bref BREF_DIRENT 64 5)" by (simp add: bref_empty_def)
  then have "live_zero_ok (bl_base sample_map) 3"
    by (auto simp: live_zero_ok_def sample_map_def less_Suc_eq numeral_eq_Suc)
  moreover have "ordered (bl_base sample_map)"
    unfolding ordered_live sample_live by (simp add: before_def rend_def rbeg_def)
  moreover have "base_wf (bl_base sample_map)" unfolding base_wf_live sample_live by (simp add: sample_bref_wf)
  ultimately show ?thesis by (simp add: blockmap_ok_def) (simp add: sample_map_def)
qed

text \<open>C34: The search of a block array does not depend on where the cached index points: on a well-formed
array it returns, for every value of the cache, the first range that ends at or after the key (or
the size of the array), moves \<open>*key_nextp\<close> down to the key after that range, and changes nothing but
the cache.\<close>

theorem base_find_first:
  assumes "blockmap_ok p"
  shows "\<exists>i. first_at (bl_base p) (unat k) i \<and>
    (\<forall>c. \<exists>c'. hammer2_base_find (p\<lparr>bl_cache := c\<rparr>) key_next k =
       Some (i, key_next_upd (bl_base p) i key_next, p\<lparr>bl_cache := c'\<rparr>))"
proof -
  have unique: "i = j" if "first_at base n i" "first_at base n j" for base n i j
    using that unfolding first_at_def by (metis leD le_neq_implies_less linorder_neqE_nat not_le)
  obtain i c0 where i: "hammer2_base_find p key_next k = Some (i, key_next_upd (bl_base p) i key_next, p\<lparr>bl_cache := c0\<rparr>)"
    "first_at (bl_base p) (unat k) i" by (rule base_find_spec [OF assms])
  have "\<exists>c'. hammer2_base_find (p\<lparr>bl_cache := c\<rparr>) key_next k = Some (i, key_next_upd (bl_base p) i key_next, p\<lparr>bl_cache := c'\<rparr>)" for c
  proof -
    have "blockmap_ok (p\<lparr>bl_cache := c\<rparr>)" using assms by (simp add: blockmap_ok_def)
    then obtain j c' where "hammer2_base_find (p\<lparr>bl_cache := c\<rparr>) key_next k =
        Some (j, key_next_upd (bl_base p) j key_next, p\<lparr>bl_cache := c'\<rparr>)" "first_at (bl_base p) (unat k) j"
      using base_find_spec [of "p\<lparr>bl_cache := c\<rparr>" key_next k] by auto
    then show ?thesis using unique i(2) by blast
  qed
  then show ?thesis using i(2) by blast
qed

theorem base_find_first_witness:
  "\<exists>i. first_at (bl_base sample_map) (unat (40 :: u64)) i \<and>
    (\<forall>c. \<exists>c'. hammer2_base_find (sample_map\<lparr>bl_cache := c\<rparr>) 0 40 =
       Some (i, key_next_upd (bl_base sample_map) i 0, sample_map\<lparr>bl_cache := c'\<rparr>))"
  by (rule base_find_first [OF sample_map_ok])

text \<open>C31: An insertion into a well-formed block array succeeds exactly when the new range overlaps no
range of the array and a slot is empty; otherwise it panics.  On success the live entries are the old
ones with the new one in its place, the parent's statistics are updated and the array is well formed.\<close>

theorem base_insert_exact:
  assumes "blockmap_ok p" "wf_bref e" "\<not> bref_empty e"
  shows "if (\<forall>b \<in> set (live_brefs (bl_base p)). before b e \<or> before e b) \<and>
           length (live_brefs (bl_base p)) < length (bl_base p)
    then \<exists>p'. hammer2_base_insert p chain e =
           Some (p', map_option (\<lambda>c. c\<lparr>ch_flags := ch_flags c OR HAMMER2_CHAIN_BLKMAPPED\<rparr>) chain) \<and>
         blockmap_ok p' \<and> length (bl_base p') = length (bl_base p) \<and>
         live_brefs (bl_base p') =
           filter (\<lambda>b. before b e) (live_brefs (bl_base p)) @ e # filter (before e) (live_brefs (bl_base p)) \<and>
         bl_bref p' = insert_stats e (bl_bref p)
    else hammer2_base_insert p chain e = None"
  using base_insert_spec [OF assms, of chain] unfolding fits_def inserted_def by (auto split: if_split_asm)

theorem base_insert_exact_witness:
  "if (\<forall>b \<in> set (live_brefs (bl_base sample_map)). before b (sample_bref BREF_INDIRECT 32 5) \<or> before (sample_bref BREF_INDIRECT 32 5) b) \<and>
       length (live_brefs (bl_base sample_map)) < length (bl_base sample_map)
   then \<exists>p'. hammer2_base_insert sample_map None (sample_bref BREF_INDIRECT 32 5) =
           Some (p', map_option (\<lambda>c. c\<lparr>ch_flags := ch_flags c OR HAMMER2_CHAIN_BLKMAPPED\<rparr>) None) \<and>
         blockmap_ok p' \<and> length (bl_base p') = length (bl_base sample_map) \<and>
         live_brefs (bl_base p') =
           filter (\<lambda>b. before b (sample_bref BREF_INDIRECT 32 5)) (live_brefs (bl_base sample_map)) @
           sample_bref BREF_INDIRECT 32 5 # filter (before (sample_bref BREF_INDIRECT 32 5)) (live_brefs (bl_base sample_map)) \<and>
         bl_bref p' = insert_stats (sample_bref BREF_INDIRECT 32 5) (bl_bref sample_map)
   else hammer2_base_insert sample_map None (sample_bref BREF_INDIRECT 32 5) = None"
  by (rule base_insert_exact [OF sample_map_ok sample_bref_wf(3)]) (simp add: bref_empty_def)

text \<open>C32: A deletion from a well-formed block array panics exactly when no live entry has the chain's key
(and, unless the chain's update is pending, its \<open>keybits\<close>); otherwise it returns that entry, takes
exactly it out of the live entries and of the parent's statistics, and leaves a well-formed array.\<close>

theorem base_delete_exact:
  assumes "blockmap_ok p"
  shows "case List.find (\<lambda>b. br_key b = br_key (ch_bref chain) \<and>
        (ch_flags chain AND HAMMER2_CHAIN_BLKMAPUPD = 0 \<longrightarrow> br_keybits b = br_keybits (ch_bref chain)))
        (live_brefs (bl_base p)) of
      None \<Rightarrow> hammer2_base_delete p chain = None
    | Some b \<Rightarrow> \<exists>p' chain'. hammer2_base_delete p chain = Some (p', chain', b) \<and>
        ch_flags chain' AND (HAMMER2_CHAIN_BLKMAPPED OR HAMMER2_CHAIN_BLKMAPUPD) = 0 \<and>
        blockmap_ok p' \<and> length (bl_base p') = length (bl_base p) \<and>
        live_brefs (bl_base p') = filter (\<lambda>x. br_key x \<noteq> br_key b) (live_brefs (bl_base p)) \<and>
        br_data_count (bl_bref p') = br_data_count (bl_bref p) - data_share b \<and>
        br_inode_count (bl_bref p') = br_inode_count (bl_bref p) - inode_share b"
proof -
  have pred: "deletes chain = (\<lambda>b. br_key b = br_key (ch_bref chain) \<and>
        (ch_flags chain AND HAMMER2_CHAIN_BLKMAPUPD = 0 \<longrightarrow> br_keybits b = br_keybits (ch_bref chain)))"
    by (simp add: deletes_def fun_eq_iff)
  have clear: "(x AND - 786433) AND 786432 = 0" for x :: u32 by (simp add: and.assoc)
  show ?thesis
    using base_delete_spec [OF assms, of chain] unfolding pred
    by (auto split: option.splits simp: deleted_def delete_stats_counts clear)
qed

theorem base_delete_exact_witness:
  "case List.find (\<lambda>b. br_key b = br_key (ch_bref \<lparr>ch_bref = sample_bref BREF_DATA 16 4, ch_flags = 0\<rparr>) \<and>
        (ch_flags \<lparr>ch_bref = sample_bref BREF_DATA 16 4, ch_flags = 0\<rparr> AND HAMMER2_CHAIN_BLKMAPUPD = 0 \<longrightarrow>
         br_keybits b = br_keybits (ch_bref \<lparr>ch_bref = sample_bref BREF_DATA 16 4, ch_flags = 0\<rparr>)))
        (live_brefs (bl_base sample_map)) of
      None \<Rightarrow> hammer2_base_delete sample_map \<lparr>ch_bref = sample_bref BREF_DATA 16 4, ch_flags = 0\<rparr> = None
    | Some b \<Rightarrow> \<exists>p' chain'. hammer2_base_delete sample_map \<lparr>ch_bref = sample_bref BREF_DATA 16 4, ch_flags = 0\<rparr> =
          Some (p', chain', b) \<and>
        ch_flags chain' AND (HAMMER2_CHAIN_BLKMAPPED OR HAMMER2_CHAIN_BLKMAPUPD) = 0 \<and>
        blockmap_ok p' \<and> length (bl_base p') = length (bl_base sample_map) \<and>
        live_brefs (bl_base p') = filter (\<lambda>x. br_key x \<noteq> br_key b) (live_brefs (bl_base sample_map)) \<and>
        br_data_count (bl_bref p') = br_data_count (bl_bref sample_map) - data_share b \<and>
        br_inode_count (bl_bref p') = br_inode_count (bl_bref sample_map) - inode_share b"
  by (rule base_delete_exact [OF sample_map_ok])

text \<open>Deleting what was just inserted gives the old table back: the same live entries and, while the
16-bit leaf count does not saturate, the same statistics in the parent's reference.\<close>

theorem base_insert_delete:
  assumes "blockmap_ok p" "wf_bref e" "\<not> bref_empty e" "hammer2_base_insert p None e = Some (p', c)"
    and "unat (br_leaf_count (bl_bref p)) + unat (br_leaf_count e) + 1 < 65535"
  shows "\<exists>p'' c''. hammer2_base_delete p' \<lparr>ch_bref = e, ch_flags = 0\<rparr> = Some (p'', c'', e) \<and>
    blockmap_ok p'' \<and> live_brefs (bl_base p'') = live_brefs (bl_base p) \<and> bl_bref p'' = bl_bref p"
proof -
  have ins: "bm_insert e p = Some p'" using assms(4) by (simp add: bm_insert_def)
  obtain b p'' where del: "bm_delete e p' = Some (b, p'')" "b = e" "blockmap_ok p''"
      "live_brefs (bl_base p'') = live_brefs (bl_base p)"
    by (rule bm.insert_delete [OF assms(1-3) ins])
  have "bl_bref p' = insert_stats e (bl_bref p)" "blockmap_ok p'"
    using insert_law_base [OF assms(1-3) ins] by (simp_all add: inserted_def)
  then have "bl_bref p'' = bl_bref p"
    using delete_law_base [OF _ del(1)] del(2) delete_insert_stats [OF assms(5)] by (simp add: deleted_def)
  then show ?thesis using del by (auto simp: bm_delete_def)
qed

theorem base_insert_delete_witness:
  "\<exists>p' c p'' c''. hammer2_base_insert sample_map None (sample_bref BREF_INDIRECT 32 5) = Some (p', c) \<and>
    hammer2_base_delete p' \<lparr>ch_bref = sample_bref BREF_INDIRECT 32 5, ch_flags = 0\<rparr> =
      Some (p'', c'', sample_bref BREF_INDIRECT 32 5) \<and>
    blockmap_ok p'' \<and> live_brefs (bl_base p'') = live_brefs (bl_base sample_map) \<and> bl_bref p'' = bl_bref sample_map"
proof -
  let ?e = "sample_bref BREF_INDIRECT 32 5"
  have ne: "\<not> bref_empty ?e" by (simp add: bref_empty_def)
  have "fits ?e sample_map"
    unfolding fits_def sample_live by (simp add: before_def rend_def rbeg_def) (simp add: sample_map_def)
  then obtain p' c where ins: "hammer2_base_insert sample_map None ?e = Some (p', c)"
    using base_insert_spec [OF sample_map_ok sample_bref_wf(3) ne, of None] by auto
  have "br_leaf_count (bl_bref sample_map) = 0" by (simp add: sample_map_def bref_zero_def)
  then show ?thesis using base_insert_delete [OF sample_map_ok sample_bref_wf(3) ne ins] ins by fastforce
qed

text \<open>After an insertion every key of the new range finds the new entry.\<close>

theorem base_insert_found:
  assumes "blockmap_ok p" "wf_bref e" "\<not> bref_empty e" "hammer2_base_insert p None e = Some (p', c)"
    and "unat (br_key e) \<le> unat k" "unat k < unat (br_key e) + 2 ^ unat (br_keybits e)"
  shows "\<exists>i key_next p''. hammer2_base_find p' 0 k = Some (i, key_next, p'') \<and>
    i < length (bl_base p'') \<and> bl_base p'' ! i = e"
proof -
  have "bm_insert e p = Some p'" using assms(4) by (simp add: bm_insert_def)
  moreover have "unat k \<le> rend e" using assms(6) unfolding rend_def by linarith
  ultimately have "bm_find k p' = Some e" using assms(5) bm.find_inserted [OF assms(1-3)] by (simp add: rbeg_def)
  then show ?thesis by (auto simp: bm_find_def split: option.splits prod.splits if_splits)
qed

theorem base_insert_found_witness:
  "\<exists>p' c i key_next p''. hammer2_base_insert sample_map None (sample_bref BREF_INDIRECT 32 5) = Some (p', c) \<and>
    hammer2_base_find p' 0 50 = Some (i, key_next, p'') \<and>
    i < length (bl_base p'') \<and> bl_base p'' ! i = sample_bref BREF_INDIRECT 32 5"
proof -
  let ?e = "sample_bref BREF_INDIRECT 32 5"
  have ne: "\<not> bref_empty ?e" by (simp add: bref_empty_def)
  have "fits ?e sample_map"
    unfolding fits_def sample_live by (simp add: before_def rend_def rbeg_def) (simp add: sample_map_def)
  then obtain p' c where ins: "hammer2_base_insert sample_map None ?e = Some (p', c)"
    using base_insert_spec [OF sample_map_ok sample_bref_wf(3) ne, of None] by auto
  then show ?thesis using base_insert_found [OF sample_map_ok sample_bref_wf(3) ne ins, of 50] by fastforce
qed

text \<open>C33: Over any sequence of insertions, deletions and searches a block array stays well formed, and the
parent's \<open>data_count\<close> and \<open>inode_count\<close> stay equal, modulo \<open>2 ^ 64\<close>, to a constant plus the shares of the
live entries.\<close>

theorem blockmap_steps_accounted:
  assumes "blockmap_step\<^sup>*\<^sup>* p p'" "blockmap_ok p"
  shows "blockmap_ok p' \<and> length (bl_base p') = length (bl_base p) \<and>
    br_data_count (bl_bref p') - sum_list (map data_share (live_brefs (bl_base p'))) =
      br_data_count (bl_bref p) - sum_list (map data_share (live_brefs (bl_base p))) \<and>
    br_inode_count (bl_bref p') - sum_list (map inode_share (live_brefs (bl_base p'))) =
      br_inode_count (bl_bref p) - sum_list (map inode_share (live_brefs (bl_base p)))"
  using assms
proof (induction rule: rtranclp_induct)
  case (step q r)
  then show ?case using step_balance [OF step.hyps(2)] by (simp add: data_balance_def inode_balance_def)
qed simp

theorem blockmap_steps_accounted_witness:
  "\<exists>p'. length (live_brefs (bl_base p')) = 3 \<and> blockmap_ok p' \<and>
    br_data_count (bl_bref p') - sum_list (map data_share (live_brefs (bl_base p'))) =
      br_data_count (bl_bref sample_map) - sum_list (map data_share (live_brefs (bl_base sample_map)))"
proof -
  let ?e = "sample_bref BREF_INDIRECT 32 5"
  have ne: "\<not> bref_empty ?e" by (simp add: bref_empty_def)
  have fit: "fits ?e sample_map"
    unfolding fits_def sample_live by (simp add: before_def rend_def rbeg_def) (simp add: sample_map_def)
  then obtain p' c where ins: "hammer2_base_insert sample_map None ?e = Some (p', c)" and "inserted ?e sample_map p'"
    using base_insert_spec [OF sample_map_ok sample_bref_wf(3) ne, of None] by auto
  then have "length (live_brefs (bl_base p')) = 3"
    by (simp add: inserted_def sample_live before_def rend_def rbeg_def)
  moreover have "blockmap_step\<^sup>*\<^sup>* sample_map p'" using insert_step [OF ins sample_bref_wf(3) ne] by simp
  ultimately show ?thesis using blockmap_steps_accounted [OF _ sample_map_ok] by blast
qed

text \<open>C35: The first count of a block array makes it well formed for the search: it sets \<open>live_zero\<close> to the
index after the last live entry and adds the number of live entries to \<open>live_count\<close>, whatever the two
fields held.\<close>

theorem countbrefs_establishes:
  assumes "bl_flags p AND HAMMER2_CHAIN_COUNTEDBREFS = 0" "\<not> bl_null p" "0 < length (bl_base p)"
    and "sorted_wrt before (live_brefs (bl_base p))" "\<forall>b \<in> set (live_brefs (bl_base p)). wf_bref b"
  shows "blockmap_ok (hammer2_chain_countbrefs p) \<and>
    bl_base (hammer2_chain_countbrefs p) = bl_base p \<and>
    bl_live_count (hammer2_chain_countbrefs p) = bl_live_count p + of_nat (length (live_brefs (bl_base p)))"
proof -
  let ?z = "count_zero (bl_base p) (length (bl_base p))"
  have z: "live_zero_ok (bl_base p) ?z" by (rule count_zero_ok) simp_all
  then have "count_live (bl_base p) ?z c = c + of_nat (length (live_brefs (bl_base p)))" for c
    using count_live_eq [of ?z] live_take_zero [OF z] by (simp add: live_zero_ok_def)
  moreover have "(bl_flags p OR HAMMER2_CHAIN_COUNTEDBREFS) AND HAMMER2_CHAIN_COUNTEDBREFS \<noteq> 0"
    by (simp add: bit.conj_disj_distrib2)
  ultimately show ?thesis
    using assms z by (simp add: hammer2_chain_countbrefs_def Let_def blockmap_ok_def base_wf_live ordered_live)
qed

theorem countbrefs_establishes_witness:
  "blockmap_ok (hammer2_chain_countbrefs (sample_map\<lparr>bl_flags := 0, bl_live_zero := 0, bl_live_count := - 1\<rparr>)) \<and>
    bl_live_count (hammer2_chain_countbrefs (sample_map\<lparr>bl_flags := 0, bl_live_zero := 0, bl_live_count := - 1\<rparr>)) = 1"
proof -
  have "sorted_wrt before (live_brefs (bl_base sample_map))" "\<forall>b \<in> set (live_brefs (bl_base sample_map)). wf_bref b"
    "0 < length (bl_base sample_map)" "\<not> bl_null sample_map"
    using sample_map_ok by (simp_all add: blockmap_ok_def base_wf_live ordered_live)
  then show ?thesis
    using countbrefs_establishes [of "sample_map\<lparr>bl_flags := 0, bl_live_zero := 0, bl_live_count := - 1\<rparr>"]
    by (simp add: sample_live)
qed

end
