(* ===== verification/H2_Combined.thy ===== *)
theory H2_Combined
  imports H2_BlockmapProps
begin

text \<open>
  The combined search of \<open>hammer2_chain.c\<close>: the array and the in-memory children of a chain seen as one
  ordered list of ranges, in which a child stands for the array entry with the same range.
\<close>

section \<open>The merged view\<close>

fun merge_view :: "chain list \<Rightarrow> blockref list \<Rightarrow> (chain option \<times> blockref) list" where
  "merge_view [] bs = map (Pair None) bs"
| "merge_view (c # cs) [] = (Some c, ch_bref c) # merge_view cs []"
| "merge_view (c # cs) (b # bs) =
     (if br_key (ch_bref c) = br_key b then (Some c, ch_bref c) # merge_view cs bs
      else if br_key (ch_bref c) < br_key b then (Some c, ch_bref c) # merge_view cs (b # bs)
      else (None, b) # merge_view (c # cs) bs)"

definition view :: "blockmap \<Rightarrow> (chain option \<times> blockref) list" where
  "view p = merge_view (bl_children p) (live_brefs (bl_base p))"

text \<open>The children are in order, and a child has the range of an array entry or is disjoint from it.\<close>

definition compatible :: "blockref \<Rightarrow> blockref \<Rightarrow> bool" where
  "compatible a b \<longleftrightarrow> same_range a b \<or> before a b \<or> before b a"

definition children_ok :: "blockmap \<Rightarrow> bool" where
  "children_ok p \<longleftrightarrow> sorted_wrt (\<lambda>a b. before (ch_bref a) (ch_bref b)) (bl_children p) \<and>
     (\<forall>c \<in> set (bl_children p). wf_bref (ch_bref c) \<and>
        (\<forall>b \<in> set (live_brefs (bl_base p)). compatible (ch_bref c) b))"

section \<open>Next keys\<close>

text \<open>A next key of 0 is the key after the whole key space.\<close>

definition nx :: "h2_key \<Rightarrow> nat" where
  "nx w = (if w = 0 then 2 ^ 64 else unat w)"

definition upd_next :: "h2_key \<Rightarrow> h2_key \<Rightarrow> h2_key" where
  "upd_next kn w = (if w \<noteq> 0 \<and> (w < kn \<or> kn = 0) then w else kn)"

lemma unat_u64: "unat (w :: u64) < 2 ^ 64"
  by (rule order_less_le_trans [OF unsigned_less]) simp

lemma nx_inject: "nx a = nx b \<longleftrightarrow> a = b"
proof -
  have "unat w \<noteq> 2 ^ 64" for w :: u64 using unat_u64 [of w] by simp
  then show ?thesis unfolding nx_def by (metis word_unat_eq_iff)
qed

lemma nx_upd: "nx (upd_next kn w) = min (nx kn) (nx w)"
  using unat_u64 [of w] unat_u64 [of kn] unfolding nx_def upd_next_def by (auto simp: word_less_nat_alt min_def)

lemma upd_eq: "nx kn \<le> nx w \<Longrightarrow> upd_next kn w = kn"
  using nx_upd [of kn w] by (simp flip: nx_inject)

lemma nx_end: "wf_bref b \<Longrightarrow> nx (br_key b + bref_span b) = Suc (rend b)"
  using scan_end_unat [of b] by (auto simp: nx_def)

lemma upd_key: "w \<noteq> 0 \<Longrightarrow> (if w < kn \<or> kn = 0 then w else kn) = upd_next kn w"
  by (simp add: upd_next_def)

lemma upd_upd:
  "nx b \<le> nx a \<Longrightarrow> upd_next (upd_next kn a) b = upd_next kn b" "nx a \<le> nx b \<Longrightarrow> upd_next (upd_next kn a) b = upd_next kn a"
  by (simp_all add: nx_upd min.assoc min_absorb2 min_absorb1 flip: nx_inject)

lemma nx_Suc: "nx (e + 1) = Suc (unat e)"
proof (cases "e = - 1")
  case True
  then show ?thesis by (simp add: nx_def unsigned_minus_1_eq_mask mask_eq_exp_minus_1)
next
  case False
  then have "1 + e \<noteq> 0" by (metis add.commute eq_neg_iff_add_eq_0)
  then show ?thesis using unatSuc [of e] by (simp add: nx_def add.commute)
qed

section \<open>hammer2_chain_find\<close>

lemma find_cmp_eq:
  assumes "wf_bref (ch_bref c)"
  shows "hammer2_chain_find_cmp c k e = (if rend (ch_bref c) < unat k then - 1 else if e < br_key (ch_bref c) then 1 else 0)"
  using unat_bref_end [OF assms] by (simp add: hammer2_chain_find_cmp_def Let_def end_conv) (simp add: word_less_nat_alt)

lemma foreach_after:
  assumes "\<forall>c \<in> set cs. before (ch_bref b) (ch_bref c) \<and> wf_bref (ch_bref c)"
    and "unat k \<le> rend (ch_bref b)" "nx kn \<le> Suc (rend (ch_bref b))"
  shows "chain_find_foreach k e cs (Some b, kn) = Some (Some b, kn)"
  using assms(1)
proof (induction cs)
  case (Cons c cs)
  then have c: "before (ch_bref b) (ch_bref c)" "wf_bref (ch_bref c)" by simp_all
  have le: "rbeg (ch_bref c) \<le> rend (ch_bref c)" "rbeg (ch_bref b) \<le> rend (ch_bref b)" by (rule rbeg_le_rend)+
  have k: "\<not> br_key (ch_bref c) \<le> k" "\<not> br_key (ch_bref c) < br_key (ch_bref b)"
    "br_key (ch_bref c) \<noteq> br_key (ch_bref b)" "br_key (ch_bref c) \<noteq> 0"
    using c(1) assms(2) le by (auto simp: before_def rbeg_def word_le_nat_alt word_less_nat_alt)
  have "nx kn \<le> nx (br_key (ch_bref c))" using assms(3) c(1) k(4) by (simp add: before_def nx_def rbeg_def)
  then have u1: "(if br_key (ch_bref c) < kn \<or> kn = 0 then br_key (ch_bref c) else kn) = kn"
    using upd_eq upd_key [OF k(4)] by simp
  have "nx kn \<le> nx (br_key (ch_bref c) + bref_span (ch_bref c))"
    unfolding nx_end [OF c(2)] using assms(3) c(1) le by (simp add: before_def)
  note u2 = upd_eq [OF this, unfolded upd_next_def]
  have "hammer2_chain_find_callback k c (Some b, kn) = Some (Some b, kn)"
    using k(1-3) u1 u2 by (simp only: hammer2_chain_find_callback_def Let_def prod.case option.case if_False simp_thms
        bind.bind_lunit)
  then show ?case using Cons by simp
qed simp

text \<open>The children that begin after the last key are passed over.\<close>

lemma foreach_beyond:
  "\<forall>c \<in> set cs. wf_bref (ch_bref c) \<and> e < br_key (ch_bref c) \<Longrightarrow> chain_find_foreach k e cs st = Some st"
  by (induction cs) (simp_all add: find_cmp_eq)

lemma chain_find_spec:
  assumes "sorted_wrt (\<lambda>a b. before (ch_bref a) (ch_bref b)) cs" "\<forall>c \<in> set cs. wf_bref (ch_bref c)"
  shows "chain_find_foreach k e cs (None, kn) =
    Some (case List.find (\<lambda>c. unat k \<le> rend (ch_bref c)) cs of
            None \<Rightarrow> (None, kn)
          | Some c \<Rightarrow> if e < br_key (ch_bref c) then (None, kn)
                     else (Some c, upd_next kn (br_key (ch_bref c) + bref_span (ch_bref c))))"
  using assms
proof (induction cs)
  case (Cons c cs)
  have wf: "wf_bref (ch_bref c)" using Cons.prems(2) by simp
  show ?case
  proof (cases "unat k \<le> rend (ch_bref c)")
    case True
    show ?thesis
    proof (cases "e < br_key (ch_bref c)")
      case beyond: True
      have "e < br_key (ch_bref x)" if "x \<in> set cs" for x
        using Cons.prems(1) that beyond rbeg_le_rend [of "ch_bref c"] by (auto simp: before_def rbeg_def word_less_nat_alt)
      then have "\<forall>x \<in> set (c # cs). wf_bref (ch_bref x) \<and> e < br_key (ch_bref x)" using Cons.prems(2) beyond by simp
      then show ?thesis using True beyond foreach_beyond [of "c # cs" e k "(None, kn)"] by simp
    next
      case False
      have "nx (upd_next kn (br_key (ch_bref c) + bref_span (ch_bref c))) \<le> Suc (rend (ch_bref c))"
        unfolding nx_upd nx_end [OF wf] by simp
      note after = foreach_after [OF _ True this, of cs]
      have "hammer2_chain_find_callback k c (None, kn) =
          Some (Some c, upd_next kn (br_key (ch_bref c) + bref_span (ch_bref c)))"
        by (simp add: hammer2_chain_find_callback_def upd_next_def)
      then show ?thesis using True False after Cons.prems find_cmp_eq [OF wf, of k e] by simp
    qed
  next
    case False
    then show ?thesis using Cons find_cmp_eq [OF wf, of k e] by simp
  qed
qed simp

section \<open>hammer2_combined_find\<close>

definition nearer :: "chain option \<Rightarrow> blockref option \<Rightarrow> (chain option \<times> blockref) option" where
  "nearer oc ob = (case oc of
     None \<Rightarrow> map_option (Pair None) ob
   | Some c \<Rightarrow> (case ob of
       None \<Rightarrow> Some (Some c, ch_bref c)
     | Some b \<Rightarrow> if br_key (ch_bref c) \<le> br_key b then Some (Some c, ch_bref c) else Some (None, b)))"

lemma find_map_pair: "List.find (\<lambda>(c, b). P b) (map (Pair x) bs) = map_option (Pair x) (List.find P bs)"
  by (induction bs) auto

lemma compatible_cases:
  assumes "compatible a b"
  obtains "same_range a b" "rbeg a = rbeg b" "rend a = rend b" | "before a b" "br_key a < br_key b" | "before b a" "br_key b < br_key a"
  using assms rbeg_le_rend [of a] rbeg_le_rend [of b]
  by (auto simp: compatible_def same_range_def before_def rbeg_def rend_def word_less_nat_alt)

lemma find_in: "List.find P xs = Some x \<Longrightarrow> x \<in> set xs \<and> P x"
  by (auto simp: find_Some_iff)

lemma find_merge:
  assumes "sorted_wrt (\<lambda>a b. before (ch_bref a) (ch_bref b)) cs" "sorted_wrt before bs"
    and "\<forall>c \<in> set cs. \<forall>b \<in> set bs. compatible (ch_bref c) b"
  shows "List.find (\<lambda>(c, b). k \<le> rend b) (merge_view cs bs) =
    nearer (List.find (\<lambda>c. k \<le> rend (ch_bref c)) cs) (List.find (\<lambda>b. k \<le> rend b) bs)"
  using assms
proof (induction cs bs rule: merge_view.induct)
  case (1 bs)
  then show ?case by (simp add: find_map_pair nearer_def)
next
  case (2 c cs)
  then show ?case by (simp add: nearer_def)
next
  case (3 c cs b bs)
  have "compatible (ch_bref c) b" using "3.prems"(3) by simp
  then show ?case
  proof (cases rule: compatible_cases)
    case 1
    then have "br_key (ch_bref c) = br_key b" by (simp add: same_range_def)
    then show ?thesis using 1 "3.IH"(1) "3.prems" by (simp add: nearer_def)
  next
    case 2
    then have ne: "br_key (ch_bref c) \<noteq> br_key b" by auto
    have mono: "k \<le> rend b" if "k \<le> rend (ch_bref c)"
      using that 2(1) rbeg_le_rend [of b] by (simp add: before_def)
    show ?thesis
    proof (cases "k \<le> rend (ch_bref c)")
      case True
      then show ?thesis using 2 ne mono by (simp add: nearer_def)
    next
      case False
      then show ?thesis using 2(2) ne "3.IH"(2) [OF ne 2(2)] "3.prems" by simp
    qed
  next
    case 3
    then have ne: "br_key (ch_bref c) \<noteq> br_key b" "\<not> br_key (ch_bref c) < br_key b" by auto
    have mono: "k \<le> rend (ch_bref c)" if "k \<le> rend b"
      using that 3(1) rbeg_le_rend [of "ch_bref c"] by (simp add: before_def)
    show ?thesis
    proof (cases "k \<le> rend b")
      case True
      then show ?thesis using 3 ne mono by (simp add: nearer_def not_le)
    next
      case False
      then show ?thesis using ne "3.IH"(3) [OF ne] "3.prems" by simp
    qed
  qed
qed

text \<open>The combined search for the keys from \<open>k\<close> to \<open>e\<close>: the first range of the merged view that ends at or after
\<open>k\<close>, unless it begins after \<open>e\<close>, and the key after it or after \<open>e\<close>.\<close>

definition combined_result :: "blockmap \<Rightarrow> h2_key \<Rightarrow> h2_key \<Rightarrow> chain option \<times> blockref option \<times> h2_key" where
  "combined_result p k e = (case List.find (\<lambda>(c, b). unat k \<le> rend b) (view p) of
     None \<Rightarrow> (None, None, e + 1)
   | Some (ch, b) \<Rightarrow> if br_key b \<le> e then (ch, Some b, upd_next (e + 1) (br_key b + bref_span b)) else (None, None, e + 1))"

text \<open>The search of the array has found entry \<open>i\<close>; no child is in the bounds, or the child \<open>ch\<close>.\<close>

lemma combined_no_child:
  assumes "hammer2_base_find p (e + 1) k = Some (i, key_next_upd (bl_base p) i (e + 1), p')" "bl_base p' = bl_base p"
    and "\<And>kn. hammer2_chain_find p' kn k e = Some (None, kn)" "i \<le> length (bl_base p)" "i < length (bl_base p) \<Longrightarrow> wf_bref (bl_base p ! i)"
  shows "hammer2_combined_find p k e = Some (if i < length (bl_base p) \<and> br_key (bl_base p ! i) \<le> e
     then (None, Some (bl_base p ! i), upd_next (e + 1) (br_key (bl_base p ! i) + bref_span (bl_base p ! i)), p')
     else (None, None, e + 1, p'))"
proof -
  let ?b = "bl_base p ! i"
  have kn: "key_next_upd (bl_base p) i (e + 1) = (if i < length (bl_base p) then upd_next (e + 1) (br_key ?b + bref_span ?b) else e + 1)"
    by (simp add: key_next_upd_def upd_next_def Let_def)
  have "upd_next (e + 1) (br_key ?b + bref_span ?b) = e + 1" if "i < length (bl_base p)" "e < br_key ?b"
    using that rbeg_le_rend [of ?b] nx_end [OF assms(5) [OF that(1)]]
    by (intro upd_eq) (simp add: nx_Suc rbeg_def word_less_nat_alt)
  then show ?thesis using assms(1-4) by (auto simp: hammer2_combined_find_def Let_def kn not_le)
qed

lemma combined_child:
  assumes "hammer2_base_find p (e + 1) k = Some (i, key_next_upd (bl_base p) i (e + 1), p')" "bl_base p' = bl_base p"
    and "\<And>kn. hammer2_chain_find p' kn k e = Some (Some ch, upd_next kn (br_key (ch_bref ch) + bref_span (ch_bref ch)))"
    and "i \<le> length (bl_base p)" "wf_bref (ch_bref ch)" "br_key (ch_bref ch) \<le> e" "unat k \<le> rend (ch_bref ch)"
    and "i < length (bl_base p) \<Longrightarrow> wf_bref (bl_base p ! i) \<and> unat k \<le> rend (bl_base p ! i) \<and> compatible (ch_bref ch) (bl_base p ! i)"
  shows "hammer2_combined_find p k e = Some (if i < length (bl_base p) \<and> br_key (bl_base p ! i) < br_key (ch_bref ch)
     then (None, Some (bl_base p ! i), upd_next (e + 1) (br_key (bl_base p ! i) + bref_span (bl_base p ! i)), p')
     else (Some ch, Some (ch_bref ch), upd_next (e + 1) (br_key (ch_bref ch) + bref_span (ch_bref ch)), p'))"
proof (cases "i < length (bl_base p)")
  case False
  then show ?thesis using assms(1-4,6) by (simp add: hammer2_combined_find_def key_next_upd_def)
next
  case True
  let ?b = "bl_base p ! i"
  have b: "wf_bref ?b" "unat k \<le> rend ?b" "compatible (ch_bref ch) ?b" using assms(8) [OF True] by blast+
  have kn: "key_next_upd (bl_base p) i (e + 1) = upd_next (e + 1) (br_key ?b + bref_span ?b)"
    using True by (simp add: key_next_upd_def upd_next_def Let_def)
  note run = hammer2_combined_find_def assms(1-3) Let_def kn
  have beg: "\<not> br_key y \<le> k" if "before x y" "unat k \<le> rend x" for x y
    using that by (simp add: before_def rbeg_def word_le_nat_alt)
  have ends: "nx (br_key x + bref_span x) \<le> nx (br_key y + bref_span y)" if "before x y" "wf_bref x" "wf_bref y" for x y
    using that rbeg_le_rend [of y] by (simp add: before_def nx_end)
  from b(3) show ?thesis
  proof (cases rule: compatible_cases)
    case 1
    then have "br_key (ch_bref ch) + bref_span (ch_bref ch) = br_key ?b + bref_span ?b" "br_key (ch_bref ch) = br_key ?b"
      by (simp_all add: same_range_def bref_span_def)
    then show ?thesis using True assms(6) by (simp add: run kkassert_bind upd_upd)
  next
    case 2
    then have "br_key (ch_bref ch) \<noteq> br_key ?b" "\<not> br_key ?b < br_key (ch_bref ch)" "\<not> e < br_key (ch_bref ch)" using assms(6) by auto
    then show ?thesis using True 2(2) beg [OF 2(1) assms(7)] upd_upd(1) [OF ends [OF 2(1) assms(5) b(1)]] by (simp add: run)
  next
    case 3
    then have "br_key ?b \<le> e" "br_key (ch_bref ch) \<noteq> br_key ?b" "\<not> br_key (ch_bref ch) < br_key ?b" using assms(6) by auto
    then show ?thesis using True 3(2) beg [OF 3(1) b(2)] upd_upd(2) [OF ends [OF 3(1) b(1) assms(5)]] by (simp add: run)
  qed
qed

lemma combined_find_bounded:
  assumes ok: "blockmap_ok p" "children_ok p"
  obtains c where "hammer2_combined_find p k e =
    Some (case combined_result p k e of (ch, b, kn) \<Rightarrow> (ch, b, kn, p\<lparr>bl_cache := c\<rparr>))"
proof -
  let ?base = "bl_base p" and ?cs = "bl_children p"
  have inv: "ordered ?base" "base_wf ?base" using ok(1) by (simp_all add: blockmap_ok_def)
  have cs: "sorted_wrt (\<lambda>a b. before (ch_bref a) (ch_bref b)) ?cs" "\<forall>c \<in> set ?cs. wf_bref (ch_bref c)"
    "\<forall>c \<in> set ?cs. \<forall>b \<in> set (live_brefs ?base). compatible (ch_bref c) b"
    using ok(2) by (simp_all add: children_ok_def)
  obtain i c where find: "hammer2_base_find p (e + 1) k = Some (i, key_next_upd ?base i (e + 1), p\<lparr>bl_cache := c\<rparr>)"
    and first: "first_at ?base (unat k) i" by (rule base_find_spec [OF ok(1)])
  have i: "i \<le> length ?base" using first by (simp add: first_at_def)
  let ?b = "List.find (\<lambda>b. unat k \<le> rend b) (live_brefs ?base)" and ?c = "List.find (\<lambda>c. unat k \<le> rend (ch_bref c)) ?cs"
  have b: "?b = (if i < length ?base then Some (?base ! i) else None)" by (rule find_first_at [OF first inv(1,2)])
  have live: "?base ! i \<in> set (live_brefs ?base) \<and> unat k \<le> rend (?base ! i) \<and> wf_bref (?base ! i)" if "i < length ?base"
    using first that inv(2) by (auto simp: first_at_def live_brefs_def base_wfD)
  note view = find_merge [OF cs(1) inv(1) [unfolded ordered_live] cs(3), of "unat k", folded view_def, unfolded b]
  note child = chain_find_spec [OF cs(1,2), of k e]
  show thesis
  proof (rule that [of c], cases "\<exists>ch. ?c = Some ch \<and> br_key (ch_bref ch) \<le> e")
    case False
    then have none: "hammer2_chain_find (p\<lparr>bl_cache := c\<rparr>) kn k e = Some (None, kn)" for kn
      using child [of kn] by (auto simp: hammer2_chain_find_def split: option.splits)
    have run: "hammer2_combined_find p k e = Some (if i < length ?base \<and> br_key (?base ! i) \<le> e
        then (None, Some (?base ! i), upd_next (e + 1) (br_key (?base ! i) + bref_span (?base ! i)), p\<lparr>bl_cache := c\<rparr>)
        else (None, None, e + 1, p\<lparr>bl_cache := c\<rparr>))"
      by (rule combined_no_child [OF find _ none i]) (use live in simp_all)
    show "hammer2_combined_find p k e = Some (case combined_result p k e of (ch, b, kn) \<Rightarrow> (ch, b, kn, p\<lparr>bl_cache := c\<rparr>))"
    proof (cases ?c)
      case None
      then show ?thesis unfolding run combined_result_def view by (simp add: nearer_def)
    next
      case (Some ch)
      then have "\<not> br_key (ch_bref ch) \<le> e" using False by blast
      then show ?thesis unfolding run combined_result_def view using Some by (auto simp: nearer_def)
    qed
  next
    case True
    then obtain ch where ch: "?c = Some ch" "br_key (ch_bref ch) \<le> e" by blast
    have mem: "ch \<in> set ?cs" "unat k \<le> rend (ch_bref ch)" using find_in [OF ch(1)] by simp_all
    have wf: "wf_bref (ch_bref ch)" using cs(2) mem(1) by blast
    have some: "hammer2_chain_find (p\<lparr>bl_cache := c\<rparr>) kn k e = Some (Some ch, upd_next kn (br_key (ch_bref ch) + bref_span (ch_bref ch)))" for kn
      using child [of kn] ch by (simp add: hammer2_chain_find_def not_less)
    have run: "hammer2_combined_find p k e = Some (if i < length ?base \<and> br_key (?base ! i) < br_key (ch_bref ch)
        then (None, Some (?base ! i), upd_next (e + 1) (br_key (?base ! i) + bref_span (?base ! i)), p\<lparr>bl_cache := c\<rparr>)
        else (Some ch, Some (ch_bref ch), upd_next (e + 1) (br_key (ch_bref ch) + bref_span (ch_bref ch)), p\<lparr>bl_cache := c\<rparr>))"
      by (rule combined_child [OF find _ some i wf ch(2) mem(2)]) (use live cs(3) mem(1) in auto)
    show "hammer2_combined_find p k e = Some (case combined_result p k e of (ch, b, kn) \<Rightarrow> (ch, b, kn, p\<lparr>bl_cache := c\<rparr>))"
      unfolding run combined_result_def view using ch by (auto simp: nearer_def not_less)
  qed
qed

text \<open>The whole key space from \<open>k\<close>.\<close>

lemma combined_find_spec:
  assumes ok: "blockmap_ok p" "children_ok p"
  obtains c where "hammer2_combined_find p k HAMMER2_KEY_MAX =
    Some (case List.find (\<lambda>(c, b). unat k \<le> rend b) (view p) of
            None \<Rightarrow> (None, None, 0, p\<lparr>bl_cache := c\<rparr>)
          | Some (ch, b) \<Rightarrow> (ch, Some b, br_key b + bref_span b, p\<lparr>bl_cache := c\<rparr>))"
proof -
  have max: "w \<le> HAMMER2_KEY_MAX" for w :: h2_key using word_order.extremum [of w] by simp
  obtain c where c: "hammer2_combined_find p k HAMMER2_KEY_MAX =
    Some (case combined_result p k HAMMER2_KEY_MAX of (ch, b, kn) \<Rightarrow> (ch, b, kn, p\<lparr>bl_cache := c\<rparr>))"
    by (rule combined_find_bounded [OF ok])
  show thesis
  proof (rule that [of c])
    show "hammer2_combined_find p k HAMMER2_KEY_MAX =
      Some (case List.find (\<lambda>(c, b). unat k \<le> rend b) (view p) of
            None \<Rightarrow> (None, None, 0, p\<lparr>bl_cache := c\<rparr>)
          | Some (ch, b) \<Rightarrow> (ch, Some b, br_key b + bref_span b, p\<lparr>bl_cache := c\<rparr>))"
      unfolding c combined_result_def using max by (auto simp: upd_next_def split: option.splits)
  qed
qed

end
