(* ===== verification/H2_Indkey.thy ===== *)
theory H2_Indkey
  imports H2_Combined
begin

text \<open>
  The choice of the key range of a new indirect block in \<open>hammer2_chain.c\<close>: the scan of all live
  ranges of the parent, and the range for the freemap, for file data and for directories.
\<close>

section \<open>The scan\<close>

text \<open>The loop the three functions share: \<open>step\<close> is its body for a live element, \<open>maxloops\<close> counts down.\<close>

fun indkey_loop :: "(blockref \<Rightarrow> 's \<Rightarrow> 's option) \<Rightarrow> nat \<Rightarrow> blockmap \<Rightarrow> h2_key \<Rightarrow> 's \<Rightarrow> ('s \<times> blockmap) option" where
  "indkey_loop step 0 p key_beg st = hpanic"
| "indkey_loop step (Suc maxloops) p key_beg st =
     (if maxloops = 0 then hpanic
      else do {
        (chain, bref, key_next, p) \<leftarrow> hammer2_combined_find p key_beg HAMMER2_KEY_MAX;
        case bref of
          None \<Rightarrow> Some (st, p)
        | Some b \<Rightarrow>
            if (case chain of None \<Rightarrow> False | Some c \<Rightarrow> ch_flags c AND HAMMER2_CHAIN_DELETED \<noteq> 0) then
              (if key_next = 0 \<or> HAMMER2_KEY_MAX < key_next then Some (st, p)
               else indkey_loop step maxloops p key_next st)
            else do {
              let key_next = br_key b + bref_span b;
              st \<leftarrow> step b st;
              if key_next = 0 then Some (st, p) else indkey_loop step maxloops p key_next st
            }
      })"

abbreviation (input) "maxloops_init \<equiv> (300000 :: nat)"

section \<open>Freemap and file\<close>

text \<open>The smallest range, and the lowest key among the ranges of that size.\<close>

definition scan_smallest :: "blockref \<Rightarrow> h2_key \<times> int \<Rightarrow> (h2_key \<times> int) option" where
  "scan_smallest bref st = (case st of (key, keybits) \<Rightarrow>
     Some (if int (unat (br_keybits bref)) < keybits then (br_key bref, int (unat (br_keybits bref)))
           else if keybits = int (unat (br_keybits bref)) \<and> br_key bref < key then (br_key bref, keybits)
           else (key, keybits)))"

definition freemap_up :: "int \<Rightarrow> int option" where
  "freemap_up keybits =
     (if keybits = 22 then Some 30
      else if keybits = 30 then Some 38
      else if keybits = 38 then Some 46
      else if keybits = 46 then Some 54
      else if keybits = 54 then Some 62
      else hpanic)"

text \<open>The result: the key, the keybits, the parent.\<close>

definition hammer2_chain_indkey_freemap :: "blockmap \<Rightarrow> h2_key \<Rightarrow> (h2_key \<times> int \<times> blockmap) option" where
  "hammer2_chain_indkey_freemap p key0 = do {
     ((key, keybits), p) \<leftarrow> indkey_loop scan_smallest maxloops_init p 0 (key0, 64);
     keybits \<leftarrow> freemap_up keybits;
     Some (key, keybits, p)
   }"

definition ind_nradix :: "nat \<Rightarrow> int option" where
  "ind_nradix ncount =
     (if ncount = 4096 div 128 then Some (12 - 7)
      else if ncount = 16384 div 128 then Some (14 - 7)
      else if ncount = 65536 div 128 then Some (16 - 7)
      else hpanic)"

definition hammer2_chain_indkey_file :: "blockmap \<Rightarrow> h2_key \<Rightarrow> nat \<Rightarrow> (h2_key \<times> int \<times> blockmap) option" where
  "hammer2_chain_indkey_file p key0 ncount = do {
     ((key, keybits), p) \<leftarrow> indkey_loop scan_smallest maxloops_init p 0 (key0, 64);
     nradix \<leftarrow> ind_nradix ncount;
     let nradix = (if 64 \<le> nradix then 63 else nradix);
     Some (key, keybits + nradix, p)
   }"

section \<open>Directory\<close>

text \<open>\<open>(hammer2_key_t)1 << n\<close>; a shift count outside 0 .. 63 is undefined in C.\<close>

definition shl1 :: "int \<Rightarrow> h2_key option" where
  "shl1 n = (if 0 \<le> n \<and> n < 64 then Some (push_bit (nat n) 1) else None)"

function dir_expand :: "h2_key \<Rightarrow> h2_key \<Rightarrow> int \<Rightarrow> int option" where
  "dir_expand key bkey n =
     (if n < 64 then do {
        y \<leftarrow> shl1 n;
        if (key XOR bkey) AND NOT (y - 1) \<noteq> 0 then dir_expand key bkey (n + 1) else Some n
      }
      else Some n)"
  by pat_completeness auto
termination
  by (relation "measure (\<lambda>(key, bkey, n). nat (64 - n))") auto

declare dir_expand.simps [simp del]

text \<open>The counts after the range has grown: everything is on the side of the bit of the key.\<close>

definition dir_collapse :: "h2_key \<Rightarrow> h2_key \<Rightarrow> int \<times> int \<Rightarrow> int \<times> int" where
  "dir_collapse key m cnt = (case cnt of (lo, hi) \<Rightarrow> if m AND key \<noteq> 0 then (0, hi + lo) else (lo + hi, 0))"

text \<open>The state: \<open>keybits\<close>, \<open>locount\<close>, \<open>hicount\<close>.\<close>

definition scan_dir :: "h2_key \<Rightarrow> blockref \<Rightarrow> int \<times> int \<times> int \<Rightarrow> (int \<times> int \<times> int) option" where
  "scan_dir key bref st = (case st of (keybits, lo, hi) \<Rightarrow> do {
     nkeybits \<leftarrow> (if keybits < int (unat (br_keybits bref))
                  then (if 64 < unat (br_keybits bref) then hpanic else Some (int (unat (br_keybits bref))))
                  else Some keybits);
     nkeybits \<leftarrow> dir_expand key (br_key bref) nkeybits;
     (lo, hi) \<leftarrow> (if keybits \<noteq> nkeybits
                  then do { m \<leftarrow> shl1 (nkeybits - 1); Some (dir_collapse key m (lo, hi)) }
                  else Some (lo, hi));
     m \<leftarrow> shl1 (nkeybits - 1);
     Some (if m AND br_key bref \<noteq> 0 then (nkeybits, lo, hi + 1) else (nkeybits, lo + 1, hi))
   })"

function dir_grow :: "h2_key \<Rightarrow> nat \<Rightarrow> int \<Rightarrow> int \<times> int \<Rightarrow> (int \<times> int \<times> int) option" where
  "dir_grow key ncount keybits cnt = do {
     y \<leftarrow> shl1 keybits;
     if y < of_nat ncount then do {
       m \<leftarrow> shl1 (keybits + 1);
       dir_grow key ncount (keybits + 1) (dir_collapse key m cnt)
     }
     else Some (keybits, fst cnt, snd cnt)
   }"
  by pat_completeness auto
termination
  by (relation "measure (\<lambda>(key, ncount, keybits, cnt). nat (64 - keybits))") (auto simp: shl1_def split: if_splits)

declare dir_grow.simps [simp del]

definition hammer2_chain_indkey_dir :: "blockmap \<Rightarrow> h2_key \<Rightarrow> int \<Rightarrow> nat \<Rightarrow> (h2_key \<times> int \<times> blockmap) option" where
  "hammer2_chain_indkey_dir p key keybits ncount = do {
     ((keybits, lo, hi), p) \<leftarrow> indkey_loop (scan_dir key) maxloops_init p 0 (keybits, 0, 0);
     let keybits = keybits - 1;
     (keybits, lo, hi) \<leftarrow> dir_grow key ncount keybits (lo, hi);
     m \<leftarrow> shl1 keybits;
     Some (if lo < hi then key OR m else key AND push_bit (nat keybits) (NOT 1), keybits, p)
   }"

section \<open>The scan visits the live ranges in order\<close>

definition live_view :: "blockmap \<Rightarrow> blockref list" where
  "live_view p = map snd (filter (\<lambda>(c, b). case c of None \<Rightarrow> True | Some c \<Rightarrow> ch_flags c AND HAMMER2_CHAIN_DELETED = 0) (view p))"

fun fold_step :: "(blockref \<Rightarrow> 's \<Rightarrow> 's option) \<Rightarrow> blockref list \<Rightarrow> 's \<Rightarrow> 's option" where
  "fold_step step [] st = Some st"
| "fold_step step (b # bs) st = do { st \<leftarrow> step b st; fold_step step bs st }"

lemma merge_set: "x \<in> set (merge_view cs bs) \<Longrightarrow> (\<exists>c \<in> set cs. snd x = ch_bref c) \<or> snd x \<in> set bs"
  by (induction cs bs rule: merge_view.induct) (auto split: if_splits)

lemma merge_ball: "\<forall>c \<in> set cs. P (ch_bref c) \<Longrightarrow> \<forall>b \<in> set bs. P b \<Longrightarrow> \<forall>x \<in> set (merge_view cs bs). P (snd x)"
  using merge_set [of _ cs bs] by fastforce

lemma merge_sorted:
  assumes "sorted_wrt (\<lambda>a b. before (ch_bref a) (ch_bref b)) cs" "sorted_wrt before bs"
    and "\<forall>c \<in> set cs. \<forall>b \<in> set bs. compatible (ch_bref c) b"
  shows "sorted_wrt before (map snd (merge_view cs bs))"
  using assms
proof (induction cs bs rule: merge_view.induct)
  case (1 bs)
  then show ?case by (simp add: comp_def)
next
  case (2 c cs)
  then show ?case using merge_ball [of cs "before (ch_bref c)" "[]"] by simp
next
  case (3 c cs b bs)
  have comp: "compatible (ch_bref c) b" using "3.prems"(3) by simp
  then show ?case
  proof (cases rule: compatible_cases)
    case 1
    then have eq: "br_key (ch_bref c) = br_key b" by (simp add: same_range_def)
    moreover have "\<forall>x \<in> set bs. before (ch_bref c) x" using 1 "3.prems"(2) by (simp add: before_def)
    ultimately show ?thesis
      using "3.IH"(1) [OF eq] "3.prems" merge_ball [of cs "before (ch_bref c)" bs] by simp
  next
    case 2
    then have ne: "br_key (ch_bref c) \<noteq> br_key b" by auto
    have "\<forall>x \<in> set bs. before (ch_bref c) x" using 2(1) "3.prems"(2) before_trans by auto
    then show ?thesis
      using 2 ne "3.IH"(2) [OF ne 2(2)] "3.prems" merge_ball [of cs "before (ch_bref c)" "b # bs"] by simp
  next
    case 3
    then have ne: "br_key (ch_bref c) \<noteq> br_key b" "\<not> br_key (ch_bref c) < br_key b" by auto
    have "\<forall>x \<in> set cs. before b (ch_bref x)" using 3(1) "3.prems"(1) before_trans by auto
    then show ?thesis
      using 3 ne "3.IH"(3) [OF ne] "3.prems" merge_ball [of "c # cs" "before b" bs] by simp
  qed
qed

lemma view_facts:
  assumes "blockmap_ok p" "children_ok p"
  shows "sorted_wrt before (map snd (view p))" "\<forall>x \<in> set (view p). wf_bref (snd x)"
proof -
  have bs: "sorted_wrt before (live_brefs (bl_base p))" "\<forall>b \<in> set (live_brefs (bl_base p)). wf_bref b"
    using assms(1) by (simp_all add: blockmap_ok_def ordered_live base_wf_live)
  show "sorted_wrt before (map snd (view p))"
    unfolding view_def by (rule merge_sorted) (use assms(2) bs(1) in \<open>simp_all add: children_ok_def\<close>)
  show "\<forall>x \<in> set (view p). wf_bref (snd x)"
    unfolding view_def by (rule merge_ball) (use assms(2) bs(2) in \<open>simp_all add: children_ok_def\<close>)
qed

text \<open>From a key between the visited and the remaining ranges the loop folds over the remaining ones.\<close>

lemma loop_from:
  assumes "blockmap_ok p" "children_ok p" "view p = ys @ zs" "\<forall>y \<in> set ys. rend (snd y) < unat k"
    and "\<forall>z \<in> set zs. unat k \<le> rbeg (snd z)" "length zs + 2 \<le> n"
  shows "\<exists>c. indkey_loop step n p k st =
    map_option (\<lambda>st. (st, p\<lparr>bl_cache := c\<rparr>))
      (fold_step step (map snd (filter (\<lambda>(c, b). case c of None \<Rightarrow> True | Some c \<Rightarrow> ch_flags c AND HAMMER2_CHAIN_DELETED = 0) zs)) st)"
  using assms
proof (induction zs arbitrary: p ys k n st)
  case Nil
  obtain m where m: "n = Suc m" "m \<noteq> 0" using Nil.prems(6) by (cases n) auto
  have "List.find (\<lambda>(c, b). unat k \<le> rend b) (view p) = None"
    using Nil.prems(3,4) by (auto simp: find_None_iff)
  moreover obtain c where "hammer2_combined_find p k HAMMER2_KEY_MAX =
    Some (case List.find (\<lambda>(c, b). unat k \<le> rend b) (view p) of
            None \<Rightarrow> (None, None, 0, p\<lparr>bl_cache := c\<rparr>)
          | Some (ch, b) \<Rightarrow> (ch, Some b, br_key b + bref_span b, p\<lparr>bl_cache := c\<rparr>))"
    by (rule combined_find_spec [OF Nil.prems(1,2)])
  ultimately show ?case unfolding m(1) using m(2) by (intro exI [of _ c]) simp
next
  case (Cons z zs)
  obtain ch b where z: "z = (ch, b)" by (cases z)
  obtain m where m: "n = Suc m" "m \<noteq> 0" "length zs + 2 \<le> m" using Cons.prems(6) by (cases n) auto
  obtain c where run: "hammer2_combined_find p k HAMMER2_KEY_MAX =
    Some (case List.find (\<lambda>(c, b). unat k \<le> rend b) (view p) of
            None \<Rightarrow> (None, None, 0, p\<lparr>bl_cache := c\<rparr>)
          | Some (ch, b) \<Rightarrow> (ch, Some b, br_key b + bref_span b, p\<lparr>bl_cache := c\<rparr>))"
    by (rule combined_find_spec [OF Cons.prems(1,2)])
  have kb: "unat k \<le> rend b" using Cons.prems(5) rbeg_le_rend [of b] by (simp add: z)
  have "List.find (\<lambda>(c, b). unat k \<le> rend b) (ys @ (ch, b) # zs) = Some (ch, b)"
    using Cons.prems(4) kb by (intro find_after) auto
  then have run: "hammer2_combined_find p k HAMMER2_KEY_MAX = Some (ch, Some b, br_key b + bref_span b, p\<lparr>bl_cache := c\<rparr>)"
    using run Cons.prems(3) by (simp add: z)
  note facts = view_facts [OF Cons.prems(1,2)]
  have wf: "wf_bref b" using facts(2) Cons.prems(3) by (simp add: z)
  have order: "\<forall>y \<in> set ys. before (snd y) b" "\<forall>x \<in> set zs. before b (snd x)"
    using facts(1) Cons.prems(3) by (simp_all add: z sorted_wrt_append)
  let ?e = "br_key b + bref_span b" and ?p = "p\<lparr>bl_cache := c\<rparr>"
  have max: "\<not> HAMMER2_KEY_MAX < w" for w :: h2_key using word_order.extremum [of w] by (simp only: not_less)
  have last: "zs = []" if "?e = 0"
  proof -
    have "rend b = 2 ^ 64 - 1" using that scan_end_unat(1) [OF wf] by simp
    then have "\<not> before b x" for x using unat_u64 [of "br_key x"] by (simp add: before_def rbeg_def)
    then show ?thesis using order(2) by (cases zs) auto
  qed
  have rest: "\<exists>c. indkey_loop step m ?p ?e st' =
    map_option (\<lambda>st. (st, p\<lparr>bl_cache := c\<rparr>))
      (fold_step step (map snd (filter (\<lambda>(c, b). case c of None \<Rightarrow> True | Some c \<Rightarrow> ch_flags c AND HAMMER2_CHAIN_DELETED = 0) zs)) st')"
    if "?e \<noteq> 0" for st'
  proof -
    have e: "unat ?e = Suc (rend b)" by (rule scan_end_unat(2) [OF wf that])
    have "blockmap_ok ?p" "children_ok ?p" "view ?p = (ys @ [z]) @ zs"
      using Cons.prems(1-3) by (simp_all add: blockmap_ok_def children_ok_def view_def)
    moreover have "\<forall>y \<in> set (ys @ [z]). rend (snd y) < unat ?e" "\<forall>z \<in> set zs. unat ?e \<le> rbeg (snd z)"
      unfolding e using order rbeg_le_rend [of b] by (auto simp: z before_def)
    ultimately have "\<exists>c'. indkey_loop step m ?p ?e st' =
      map_option (\<lambda>st. (st, ?p\<lparr>bl_cache := c'\<rparr>))
        (fold_step step (map snd (filter (\<lambda>(c, b). case c of None \<Rightarrow> True | Some c \<Rightarrow> ch_flags c AND HAMMER2_CHAIN_DELETED = 0) zs)) st')"
      by (intro Cons.IH [OF _ _ _ _ _ m(3)])
    then show ?thesis by simp
  qed
  show ?case
  proof (cases "case ch of None \<Rightarrow> False | Some c \<Rightarrow> ch_flags c AND HAMMER2_CHAIN_DELETED \<noteq> 0")
    case True
    then have del: "\<not> (case ch of None \<Rightarrow> True | Some c \<Rightarrow> ch_flags c AND HAMMER2_CHAIN_DELETED = 0)" by (simp split: option.splits)
    show ?thesis
    proof (cases "?e = 0")
      case True
      then show ?thesis unfolding m(1) z using m(2) run last del \<open>case ch of None \<Rightarrow> False | Some c \<Rightarrow> ch_flags c AND HAMMER2_CHAIN_DELETED \<noteq> 0\<close>
        by (intro exI [of _ c]) simp
    next
      case False
      then show ?thesis unfolding m(1) z using m(2) run rest [OF False, of st] del max \<open>case ch of None \<Rightarrow> False | Some c \<Rightarrow> ch_flags c AND HAMMER2_CHAIN_DELETED \<noteq> 0\<close>
        by simp
    qed
  next
    case False
    then have live: "(case ch of None \<Rightarrow> True | Some c \<Rightarrow> ch_flags c AND HAMMER2_CHAIN_DELETED = 0)" by (simp split: option.splits)
    show ?thesis
    proof (cases "step b st")
      case None
      then show ?thesis unfolding m(1) z using m(2) run live False by simp
    next
      case (Some st')
      show ?thesis
      proof (cases "?e = 0")
        case True
        then show ?thesis unfolding m(1) z using m(2) run last live False Some by (intro exI [of _ c]) simp
      next
        case e: False
        then show ?thesis unfolding m(1) z using m(2) run rest [OF e, of st'] live False Some by simp
      qed
    qed
  qed
qed

end
