(* ===== verification/H2_IndkeyProps.thy ===== *)
theory H2_IndkeyProps
  imports H2_Indkey
begin

text \<open>
  What the key range of a new indirect block is: the level above the smallest live range for the freemap
  and for files, and for a directory a half that holds at least half of the live entries.
\<close>

section \<open>The smallest range\<close>

text \<open>The order of the scan: smaller ranges first, then lower keys.\<close>

definition range_le :: "h2_key \<times> int \<Rightarrow> h2_key \<times> int \<Rightarrow> bool" where
  "range_le a b \<longleftrightarrow> snd a < snd b \<or> snd a = snd b \<and> fst a \<le> fst b"

definition range_of :: "blockref \<Rightarrow> h2_key \<times> int" where
  "range_of b = (br_key b, int (unat (br_keybits b)))"

lemma range_le_of:
  "range_le (range_of b) (range_of x) \<longleftrightarrow> br_keybits b < br_keybits x \<or> br_keybits b = br_keybits x \<and> br_key b \<le> br_key x"
  unfolding range_le_def range_of_def fst_conv snd_conv of_nat_less_iff of_nat_eq_iff
  by (simp only: word_less_nat_alt word_unat_eq_iff)

lemma fold_smallest:
  "\<exists>r. fold_step scan_smallest bs st = Some r \<and> (r = st \<or> r \<in> range_of ` set bs) \<and> range_le r st \<and>
     (\<forall>b \<in> set bs. range_le r (range_of b))"
proof (induction bs arbitrary: st)
  case (Cons b bs)
  obtain st' where st': "scan_smallest b st = Some st'" "st' = st \<or> st' = range_of b" "range_le st' st" "range_le st' (range_of b)"
  proof -
    obtain key kb where st: "st = (key, kb)" by (cases st)
    obtain n where n: "n = int (unat (br_keybits b))" by simp
    have "scan_smallest b st = Some (if n < kb then (br_key b, n) else if kb = n \<and> br_key b < key then (br_key b, kb) else (key, kb))"
      by (simp only: scan_smallest_def st n prod.case)
    then show thesis by (rule that) (unfold range_le_def range_of_def st n [symmetric], auto)
  qed
  obtain r where "fold_step scan_smallest bs st' = Some r" "r = st' \<or> r \<in> range_of ` set bs" "range_le r st'"
    "\<forall>b \<in> set bs. range_le r (range_of b)" using Cons.IH [of st'] by auto
  moreover have "range_le r x" if "range_le r st'" "range_le st' x" for x using that by (auto simp: range_le_def)
  ultimately show ?case using st' by auto
qed (simp add: range_le_def)

text \<open>The smallest live range, when there is one.\<close>

lemma fold_smallest_live:
  assumes "bs \<noteq> []" "\<forall>b \<in> set bs. wf_bref b"
  obtains b where "b \<in> set bs" "fold_step scan_smallest bs (k, 64) = Some (range_of b)" "\<forall>x \<in> set bs. range_le (range_of b) (range_of x)"
proof -
  obtain r where r: "fold_step scan_smallest bs (k, 64) = Some r" "r = (k, 64) \<or> r \<in> range_of ` set bs"
    "\<forall>b \<in> set bs. range_le r (range_of b)" using fold_smallest [of bs "(k, 64)"] by auto
  have "\<not> range_le (k, 64) (range_of (hd bs))"
  proof -
    have "unat (br_keybits (hd bs)) < 64" using assms hd_in_set [OF assms(1)] by (simp add: wf_bref_def)
    then have "\<not> 64 \<le> int (unat (br_keybits (hd bs)))" by linarith
    then show ?thesis unfolding range_le_def range_of_def fst_conv snd_conv by linarith
  qed
  then have "r \<in> range_of ` set bs" using r hd_in_set [OF assms(1)] by auto
  then show thesis using that r by auto
qed

lemma live_view_subset: "set (live_view p) \<subseteq> snd ` set (view p)"
  by (auto simp: live_view_def)

lemma indkey_scan:
  assumes "blockmap_ok p" "children_ok p" "length (view p) + 2 \<le> n"
  shows "\<exists>c. indkey_loop step n p 0 st = map_option (\<lambda>st. (st, p\<lparr>bl_cache := c\<rparr>)) (fold_step step (live_view p) st)"
  using loop_from [OF assms(1,2), of "[]" "view p" 0 n step st] assms(3) by (simp add: live_view_def)

lemma live_wf: "blockmap_ok p \<Longrightarrow> children_ok p \<Longrightarrow> \<forall>b \<in> set (live_view p). wf_bref b"
  using view_facts(2) live_view_subset by fastforce

section \<open>Directories\<close>

lemma shl1_nat: "n < 64 \<Longrightarrow> shl1 (int n) = Some (push_bit n 1)"
  by (simp add: shl1_def)

lemma and_not_low:
  fixes x :: u64
  assumes "n < 64"
  shows "x AND NOT (push_bit n 1 - 1) = 0 \<longleftrightarrow> drop_bit n x = 0"
proof -
  have "push_bit n 1 - 1 = (mask n :: u64)" by (simp add: mask_eq_exp_minus_1 push_bit_eq_mult)
  moreover have "x AND NOT (mask n) = 0 \<longleftrightarrow> drop_bit n x = 0"
  proof
    assume "x AND NOT (mask n) = 0"
    then have no: "\<not> (bit x m \<and> n \<le> m \<and> m < 64)" for m
      by (auto simp: bit_eq_iff bit_simps dest!: spec [of _ m])
    have "\<not> bit x (n + m)" for m using no [of "n + m"] bit_imp_le_length [of x "n + m"] by auto
    then show "drop_bit n x = 0" by (intro bit_eqI) (simp add: bit_simps)
  next
    assume z: "drop_bit n x = 0"
    have "bit x (n + m) = bit (drop_bit n x) m" for m by (simp add: bit_simps)
    then have "\<not> bit x (n + m)" for m by (simp add: z)
    then have no: "\<not> bit x m" if "n \<le> m" for m using that by (metis le_Suc_ex)
    show "x AND NOT (mask n) = 0" by (intro bit_eqI) (simp add: bit_simps, metis no not_le)
  qed
  ultimately show ?thesis by simp
qed

lemma and_shl: "n < 64 \<Longrightarrow> (push_bit n 1 AND (x :: u64) \<noteq> 0) = bit x n"
  using and_exp_eq_0_iff_not_bit [of x n] by (simp add: push_bit_eq_mult and.commute)

lemma xor_zero: "(x :: u64) XOR y = 0 \<longleftrightarrow> x = y"
  by (auto simp: bit_eq_iff bit_simps)

lemma drop_all: "64 \<le> n \<Longrightarrow> drop_bit n (x :: u64) = 0"
  by (auto simp: bit_eq_iff bit_simps dest: bit_imp_le_length)

lemma drop_mono:
  assumes "drop_bit n x = drop_bit n (y :: u64)" "n \<le> m"
  shows "drop_bit m x = drop_bit m y"
proof -
  have e: "drop_bit m z = drop_bit (m - n) (drop_bit n z)" for z :: u64 using assms(2) by simp
  show ?thesis unfolding e [of x] e [of y] assms(1) ..
qed

lemma drop_bit_at:
  assumes "drop_bit n x = drop_bit n (y :: u64)" "n \<le> m"
  shows "bit x m = bit y m"
proof -
  have "bit z m = bit (drop_bit n z) (m - n)" for z :: u64 using assms(2) by (simp add: bit_simps)
  then show ?thesis using assms(1) by simp
qed

lemma drop_split: "drop_bit (Suc k) x = drop_bit (Suc k) (y :: u64) \<Longrightarrow> drop_bit k x = drop_bit k y \<longleftrightarrow> bit x k = bit y k"
proof
  assume a: "drop_bit (Suc k) x = drop_bit (Suc k) y" "bit x k = bit y k"
  have "bit x (k + m) = bit y (k + m)" for m
    using a drop_bit_at [OF a(1), of "k + m"] by (cases m) auto
  then show "drop_bit k x = drop_bit k y" by (simp add: bit_eq_iff bit_simps)
qed (auto dest: drop_bit_at)

lemma dir_expand_spec:
  "n \<le> 64 \<Longrightarrow> \<exists>n'. dir_expand key b (int n) = Some (int n') \<and> n \<le> n' \<and> n' \<le> 64 \<and> drop_bit n' b = drop_bit n' key"
proof (induction "64 - n" arbitrary: n)
  case 0
  then show ?case by (intro exI [of _ 64]) (simp add: dir_expand.simps drop_all)
next
  case (Suc d)
  then have n: "n < 64" by simp
  have iff: "(key XOR b) AND NOT (push_bit n 1 - 1) \<noteq> 0 \<longleftrightarrow> drop_bit n b \<noteq> drop_bit n key"
    using and_not_low [OF n] by (auto simp: drop_bit_xor xor_zero)
  show ?case
  proof (cases "drop_bit n b = drop_bit n key")
    case True
    then show ?thesis using n iff by (intro exI [of _ n]) (subst dir_expand.simps, simp add: shl1_nat)
  next
    case False
    then have "dir_expand key b (int n) = dir_expand key b (int (Suc n))"
      using n iff by (subst dir_expand.simps) (simp add: shl1_nat add.commute)
    then show ?thesis using Suc.hyps(1) [of "Suc n"] Suc.hyps(2) n by force
  qed
qed

text \<open>The invariant of the counts: all keys agree with \<open>key\<close> above the range, and the counts tell how
many are in its lower and in its upper half.\<close>

definition halves :: "h2_key \<Rightarrow> blockref list \<Rightarrow> nat \<Rightarrow> int \<times> int \<Rightarrow> bool" where
  "halves key bs n cnt \<longleftrightarrow> n \<le> 64 \<and> (bs \<noteq> [] \<longrightarrow> 0 < n) \<and> (\<forall>b \<in> set bs. drop_bit n (br_key b) = drop_bit n key) \<and>
     fst cnt = int (length (filter (\<lambda>b. \<not> bit (br_key b) (n - 1)) bs)) \<and>
     snd cnt = int (length (filter (\<lambda>b. bit (br_key b) (n - 1)) bs))"

lemma halves_collapse:
  assumes "halves key bs n cnt" "n < m" "m \<le> 64"
  shows "halves key bs m (dir_collapse key (push_bit (m - 1) 1) cnt)"
proof -
  have same: "drop_bit n (br_key b) = drop_bit n key" if "b \<in> set bs" for b using assms(1) that by (simp add: halves_def)
  have bits: "bit (br_key b) (m - 1) = bit key (m - 1)" if "b \<in> set bs" for b
    using drop_bit_at [OF same [OF that], of "m - 1"] assms(2) by simp
  have "filter (\<lambda>b. bit (br_key b) (m - 1)) bs = (if bit key (m - 1) then bs else [])"
    "filter (\<lambda>b. \<not> bit (br_key b) (m - 1)) bs = (if bit key (m - 1) then [] else bs)"
    using bits by (auto simp: filter_empty_conv intro!: filter_True)
  moreover have "fst cnt + snd cnt = int (length bs)"
  proof -
    have "length (filter P bs) + length (filter (\<lambda>b. \<not> P b) bs) = length bs" for P by (rule sum_length_filter_compl)
    then show ?thesis using assms(1) by (simp add: halves_def add.commute flip: of_nat_add)
  qed
  moreover have "drop_bit m (br_key b) = drop_bit m key" if "b \<in> set bs" for b
    using drop_mono [OF same [OF that]] assms(2) by simp
  ultimately show ?thesis
    using assms(2,3) and_shl [of "m - 1" key] by (cases cnt) (simp add: halves_def dir_collapse_def add.commute)
qed

lemma scan_dir_halves:
  assumes "halves key bs n cnt" "unat (br_keybits b) < 64" "0 < n \<or> br_key b \<noteq> key"
  shows "\<exists>n' cnt'. scan_dir key b (int n, cnt) = Some (int n', cnt') \<and> n \<le> n' \<and> halves key (bs @ [b]) n' cnt'"
proof -
  let ?m = "max n (unat (br_keybits b))"
  have n: "n \<le> 64" using assms(1) by (simp add: halves_def)
  obtain n' where n': "dir_expand key (br_key b) (int ?m) = Some (int n')" "?m \<le> n'" "n' \<le> 64"
      "drop_bit n' (br_key b) = drop_bit n' key"
    using dir_expand_spec [of ?m key "br_key b"] n assms(2) by auto
  have pos: "0 < n'" using n'(2,4) assms(3) by (cases n') auto
  let ?cnt = "if n = n' then cnt else dir_collapse key (push_bit (n' - 1) 1) cnt"
  have h: "halves key bs n' ?cnt" using halves_collapse [OF assms(1)] assms(1) n'(2,3) by auto
  have sh: "shl1 (int n' - 1) = Some (push_bit (n' - 1) 1)" using shl1_nat [of "n' - 1"] pos n'(3) by (simp add: of_nat_diff)
  obtain lo hi where c: "?cnt = (lo, hi)" by (cases ?cnt)
  let ?cnt' = "if bit (br_key b) (n' - 1) then (lo, hi + 1) else (lo + 1, hi)"
  have start: "(if int n < int (unat (br_keybits b)) then (if 64 < unat (br_keybits b) then hpanic else Some (int (unat (br_keybits b))))
      else Some (int n)) = Some (int ?m)"
    using assms(2) unfolding of_nat_less_iff by (simp add: max_def)
  have "scan_dir key b (int n, cnt) = Some (int n', ?cnt')"
    using c and_shl [of "n' - 1" "br_key b"] pos n'(1,3) sh start
    by (cases cnt) (auto simp: scan_dir_def split: if_splits)
  moreover have "halves key (bs @ [b]) n' ?cnt'"
    using h c pos n'(4) by (simp add: halves_def)
  ultimately show ?thesis using n'(2) by auto
qed

lemma fold_dir_halves:
  assumes "halves key ys n cnt" "\<forall>b \<in> set bs. unat (br_keybits b) < 64" "0 < n \<or> (\<forall>b \<in> set bs. br_key b \<noteq> key)"
  shows "\<exists>n' cnt'. fold_step (scan_dir key) bs (int n, cnt) = Some (int n', cnt') \<and> n \<le> n' \<and> halves key (ys @ bs) n' cnt'"
  using assms
proof (induction bs arbitrary: ys n cnt)
  case (Cons b bs)
  obtain n1 cnt1 where s: "scan_dir key b (int n, cnt) = Some (int n1, cnt1)" "n \<le> n1" "halves key (ys @ [b]) n1 cnt1"
    using scan_dir_halves [OF Cons.prems(1), of b] Cons.prems(2,3) by auto
  have "0 < n1" using s(3) by (simp add: halves_def)
  then obtain n' cnt' where "fold_step (scan_dir key) bs (int n1, cnt1) = Some (int n', cnt')" "n1 \<le> n'"
      "halves key ((ys @ [b]) @ bs) n' cnt'"
    using Cons.IH [OF s(3)] Cons.prems(2) by auto
  then show ?case using s by auto
qed simp

lemma dir_grow_halves:
  assumes "halves key bs (Suc k) cnt" "ncount \<le> 2 ^ 63"
  shows "\<exists>k' lo hi. dir_grow key ncount (int k) cnt = Some (int k', lo, hi) \<and> k \<le> k' \<and> ncount \<le> 2 ^ k' \<and>
    halves key bs (Suc k') (lo, hi)"
  using assms(1)
proof (induction "64 - k" arbitrary: k cnt)
  case 0
  then show ?case by (simp add: halves_def)
next
  case (Suc d)
  have k: "k < 64" using Suc.prems by (simp add: halves_def)
  have "2 ^ k < (2 :: nat) ^ 64" using k by (intro power_strict_increasing) simp_all
  then have u: "unat (push_bit k 1 :: u64) = 2 ^ k" "unat (of_nat ncount :: u64) = ncount"
    using assms(2) unat_shl [OF k] by (simp_all only: unat_of_nat) (simp add: take_bit_nat_eq_self)
  then have lt: "(push_bit k 1 :: u64) < of_nat ncount \<longleftrightarrow> 2 ^ k < ncount" by (simp add: word_less_nat_alt)
  show ?case
  proof (cases "2 ^ k < ncount")
    case False
    then have "dir_grow key ncount (int k) cnt = Some (int k, fst cnt, snd cnt)"
      using k lt by (subst dir_grow.simps) (simp add: shl1_nat)
    then show ?thesis using Suc.prems False by (intro exI [of _ k] exI [of _ "fst cnt"] exI [of _ "snd cnt"]) simp
  next
    case True
    then have "(2 :: nat) ^ k < 2 ^ 63" using assms(2) by linarith
    then have k': "Suc k < 64" using power_less_imp_less_exp [of 2 k 63] by simp
    have "dir_grow key ncount (int k) cnt = dir_grow key ncount (int (Suc k)) (dir_collapse key (push_bit (Suc k) 1) cnt)"
      using k True lt shl1_nat [OF k'] by (subst dir_grow.simps) (simp add: shl1_nat add.commute)
    moreover have h: "halves key bs (Suc (Suc k)) (dir_collapse key (push_bit (Suc k) 1) cnt)"
      using halves_collapse [OF Suc.prems, of "Suc (Suc k)"] k' by simp
    moreover have "d = 64 - Suc k" using Suc.hyps(2) by simp
    ultimately obtain k' lo hi where "dir_grow key ncount (int k) cnt = Some (int k', lo, hi)" "Suc k \<le> k'" "ncount \<le> 2 ^ k'"
        "halves key bs (Suc k') (lo, hi)" using Suc.hyps(1) [OF _ h] by metis
    then show ?thesis by (intro exI [of _ k'] exI [of _ lo] exI [of _ hi]) simp
  qed
qed

section \<open>Claims\<close>

text \<open>C36: The combined search for the keys from \<open>k\<close> to \<open>e\<close> sees one list: the array and the in-memory children
merged in key order, a child standing for the array entry with its range.  When the first range of that list that ends
at or after \<open>k\<close> begins no later than \<open>e\<close>, it is returned, with the child when it is one, and \<open>*key_nextp\<close> is the key
after that range or after \<open>e\<close>, whichever comes first (0 is the key after the whole key space); otherwise nothing is
returned and \<open>*key_nextp\<close> is the key after \<open>e\<close>.\<close>

theorem combined_find_nearest:
  assumes "blockmap_ok p" "children_ok p"
  shows "\<exists>c. hammer2_combined_find p k e =
    Some (case List.find (\<lambda>(ch, b). unat k \<le> rend b) (merge_view (bl_children p) (live_brefs (bl_base p))) of
            None \<Rightarrow> (None, None, e + 1, p\<lparr>bl_cache := c\<rparr>)
          | Some (ch, b) \<Rightarrow>
              if br_key b \<le> e
              then (ch, Some b,
                    let r = br_key b + bref_span b in if r \<noteq> 0 \<and> (r \<le> e \<or> e + 1 = 0) then r else e + 1,
                    p\<lparr>bl_cache := c\<rparr>)
              else (None, None, e + 1, p\<lparr>bl_cache := c\<rparr>))"
proof -
  have "w < e + 1 \<or> e + 1 = 0 \<longleftrightarrow> w \<le> e \<or> e + 1 = 0" for w :: h2_key
    using nx_Suc [of e] by (auto simp: nx_def word_less_nat_alt word_le_nat_alt)
  then have kn: "upd_next (e + 1) w = (let r = w in if r \<noteq> 0 \<and> (r \<le> e \<or> e + 1 = 0) then r else e + 1)" for w
    unfolding upd_next_def Let_def by simp
  obtain c where c: "hammer2_combined_find p k e = Some (case combined_result p k e of (ch, b, kn) \<Rightarrow> (ch, b, kn, p\<lparr>bl_cache := c\<rparr>))"
    by (rule combined_find_bounded [OF assms])
  show ?thesis unfolding c combined_result_def view_def kn by (rule exI [of _ c]) (simp split: option.splits prod.splits)
qed

definition sample_parent :: blockmap where
  "sample_parent = sample_map\<lparr>bl_children :=
     [\<lparr>ch_bref = sample_bref BREF_DATA 16 4, ch_flags = 0\<rparr>, \<lparr>ch_bref = sample_bref BREF_DATA 32 4, ch_flags = 0x10\<rparr>,
      \<lparr>ch_bref = sample_bref BREF_DATA 112 4, ch_flags = 0\<rparr>]\<rparr>"

lemma sample_parent_ok: "blockmap_ok sample_parent" "children_ok sample_parent"
proof -
  show "blockmap_ok sample_parent" using sample_map_ok by (simp add: blockmap_ok_def sample_parent_def)
  show "children_ok sample_parent"
    by (simp add: children_ok_def sample_parent_def sample_live compatible_def same_range_def before_def rend_def rbeg_def wf_bref_def)
qed

lemma sample_parent_view:
  "view sample_parent =
     [(Some \<lparr>ch_bref = sample_bref BREF_DATA 16 4, ch_flags = 0\<rparr>, sample_bref BREF_DATA 16 4),
      (Some \<lparr>ch_bref = sample_bref BREF_DATA 32 4, ch_flags = 0x10\<rparr>, sample_bref BREF_DATA 32 4),
      (None, sample_bref BREF_DIRENT 64 5),
      (Some \<lparr>ch_bref = sample_bref BREF_DATA 112 4, ch_flags = 0\<rparr>, sample_bref BREF_DATA 112 4)]"
  by (simp add: view_def sample_parent_def sample_live)

lemma sample_parent_live:
  "live_view sample_parent = [sample_bref BREF_DATA 16 4, sample_bref BREF_DIRENT 64 5, sample_bref BREF_DATA 112 4]"
  by (simp add: live_view_def sample_parent_view)

theorem combined_find_nearest_witness:
  "(\<exists>c. hammer2_combined_find sample_parent 33 50 =
    Some (Some \<lparr>ch_bref = sample_bref BREF_DATA 32 4, ch_flags = 0x10\<rparr>, Some (sample_bref BREF_DATA 32 4), 48, sample_parent\<lparr>bl_cache := c\<rparr>)) \<and>
   (\<exists>c. hammer2_combined_find sample_parent 49 50 = Some (None, None, 51, sample_parent\<lparr>bl_cache := c\<rparr>))"
proof (rule conjI)
  note v = sample_parent_view [unfolded view_def]
  show "\<exists>c. hammer2_combined_find sample_parent 33 50 =
    Some (Some \<lparr>ch_bref = sample_bref BREF_DATA 32 4, ch_flags = 0x10\<rparr>, Some (sample_bref BREF_DATA 32 4), 48, sample_parent\<lparr>bl_cache := c\<rparr>)"
    using combined_find_nearest [OF sample_parent_ok, of 33 50] by (simp add: v rend_def rbeg_def Let_def bref_span_def)
  show "\<exists>c. hammer2_combined_find sample_parent 49 50 = Some (None, None, 51, sample_parent\<lparr>bl_cache := c\<rparr>)"
    using combined_find_nearest [OF sample_parent_ok, of 49 50] by (simp add: v rend_def rbeg_def Let_def)
qed

text \<open>C38: The key range of a new indirect block of a file is that of the smallest live range with the lowest
key, \<open>nradix\<close> bits larger; deleted children and the array entries they hide do not count, and the scan
never runs into its loop limit with fewer than 299999 ranges.  The clamp to 63 bits in the code never
applies: with a smallest range of more than 56 bits and a nominal block the result is above 63.\<close>

theorem indkey_file_smallest:
  assumes "blockmap_ok p" "children_ok p" "length (view p) + 2 \<le> 300000" "live_view p \<noteq> []"
    and "ncount = 32 \<and> nradix = 5 \<or> ncount = 128 \<and> nradix = 7 \<or> ncount = 512 \<and> nradix = 9"
  shows "\<exists>b \<in> set (live_view p). \<exists>p'.
    hammer2_chain_indkey_file p key ncount = Some (br_key b, int (unat (br_keybits b)) + nradix, p') \<and>
    (\<forall>x \<in> set (live_view p). br_keybits b < br_keybits x \<or> br_keybits b = br_keybits x \<and> br_key b \<le> br_key x)"
proof -
  obtain b where b: "b \<in> set (live_view p)" "fold_step scan_smallest (live_view p) (key, 64) = Some (range_of b)"
      "\<forall>x \<in> set (live_view p). range_le (range_of b) (range_of x)"
    using fold_smallest_live [OF assms(4) live_wf [OF assms(1,2)]] by blast
  obtain c where "indkey_loop scan_smallest 300000 p 0 (key, 64) = Some (range_of b, p\<lparr>bl_cache := c\<rparr>)"
    using indkey_scan [OF assms(1-3), of scan_smallest "(key, 64)"] b(2) by auto
  then have "hammer2_chain_indkey_file p key ncount =
      Some (br_key b, int (unat (br_keybits b)) + nradix, p\<lparr>bl_cache := c\<rparr>)"
    using assms(5) by (auto simp: hammer2_chain_indkey_file_def range_of_def ind_nradix_def Let_def simp del: indkey_loop.simps)
  moreover have "br_keybits b < br_keybits x \<or> br_keybits b = br_keybits x \<and> br_key b \<le> br_key x"
    if "x \<in> set (live_view p)" for x
    using b(3) that by (simp add: range_le_of)
  ultimately show ?thesis using b(1) by blast
qed

theorem indkey_file_smallest_witness:
  "\<exists>b \<in> set (live_view sample_parent). \<exists>p'.
    hammer2_chain_indkey_file sample_parent 99 128 = Some (br_key b, int (unat (br_keybits b)) + 7, p') \<and>
    (\<forall>x \<in> set (live_view sample_parent). br_keybits b < br_keybits x \<or> br_keybits b = br_keybits x \<and> br_key b \<le> br_key x)"
  by (rule indkey_file_smallest [OF sample_parent_ok])
    (simp_all add: sample_parent_view sample_parent_live)

text \<open>The key range of a new freemap node is the next level above the smallest live range with the lowest
key; the routine panics when that range is not one of the freemap levels 0 to 4.\<close>

theorem indkey_freemap_level:
  assumes "blockmap_ok p" "children_ok p" "length (view p) + 2 \<le> 300000" "live_view p \<noteq> []"
  shows "\<exists>b \<in> set (live_view p).
    (\<forall>x \<in> set (live_view p). br_keybits b < br_keybits x \<or> br_keybits b = br_keybits x \<and> br_key b \<le> br_key x) \<and>
    (if br_keybits b \<in> {22, 30, 38, 46, 54}
     then \<exists>p'. hammer2_chain_indkey_freemap p key = Some (br_key b, int (unat (br_keybits b)) + 8, p')
     else hammer2_chain_indkey_freemap p key = None)"
proof -
  obtain b where b: "b \<in> set (live_view p)" "fold_step scan_smallest (live_view p) (key, 64) = Some (range_of b)"
      "\<forall>x \<in> set (live_view p). range_le (range_of b) (range_of x)"
    using fold_smallest_live [OF assms(4) live_wf [OF assms(1,2)]] by blast
  obtain c where "indkey_loop scan_smallest 300000 p 0 (key, 64) = Some (range_of b, p\<lparr>bl_cache := c\<rparr>)"
    using indkey_scan [OF assms(1-3), of scan_smallest "(key, 64)"] b(2) by auto
  then have run: "hammer2_chain_indkey_freemap p key =
      map_option (\<lambda>n. (br_key b, n, p\<lparr>bl_cache := c\<rparr>)) (freemap_up (int (unat (br_keybits b))))"
    by (cases "freemap_up (int (unat (br_keybits b)))")
      (auto simp: hammer2_chain_indkey_freemap_def range_of_def simp del: indkey_loop.simps)
  have eq: "uint (br_keybits b) = n \<longleftrightarrow> br_keybits b = word_of_int n" if "n \<in> {22, 30, 38, 46, 54}" for n
    using that by (auto simp: word_uint_eq_iff)
  have "if br_keybits b \<in> {22, 30, 38, 46, 54}
     then \<exists>p'. hammer2_chain_indkey_freemap p key = Some (br_key b, int (unat (br_keybits b)) + 8, p')
     else hammer2_chain_indkey_freemap p key = None"
    unfolding run by (auto simp: freemap_up_def eq)
  moreover have "br_keybits b < br_keybits x \<or> br_keybits b = br_keybits x \<and> br_key b \<le> br_key x"
    if "x \<in> set (live_view p)" for x
    using b(3) that by (simp add: range_le_of)
  ultimately show ?thesis using b(1) by blast
qed

definition freemap_parent :: blockmap where
  "freemap_parent = sample_map\<lparr>bl_base := [sample_bref BREF_FREEMAP_LEAF 0 30, bref_zero], bl_live_zero := 1\<rparr>"

lemma freemap_parent_ok: "blockmap_ok freemap_parent" "children_ok freemap_parent"
  "live_view freemap_parent = [sample_bref BREF_FREEMAP_LEAF 0 30]" "length (view freemap_parent) = 1"
proof -
  have live: "live_brefs (bl_base freemap_parent) = [sample_bref BREF_FREEMAP_LEAF 0 30]"
    by (simp add: freemap_parent_def live_Cons bref_empty_def bref_zero_def)
  have "live_zero_ok (bl_base freemap_parent) 1"
    by (auto simp: live_zero_ok_def freemap_parent_def bref_empty_def bref_zero_def less_Suc_eq)
  moreover have "ordered (bl_base freemap_parent)" "base_wf (bl_base freemap_parent)"
    unfolding ordered_live base_wf_live live by (simp_all add: wf_bref_def)
  ultimately show "blockmap_ok freemap_parent"
    by (simp add: blockmap_ok_def) (simp add: freemap_parent_def sample_map_def)
  show "children_ok freemap_parent" by (simp add: children_ok_def freemap_parent_def sample_map_def)
  have "view freemap_parent = [(None, sample_bref BREF_FREEMAP_LEAF 0 30)]"
    unfolding view_def live by (simp add: freemap_parent_def sample_map_def)
  then show "live_view freemap_parent = [sample_bref BREF_FREEMAP_LEAF 0 30]" "length (view freemap_parent) = 1"
    by (simp_all add: live_view_def)
qed

theorem indkey_freemap_level_witness:
  "\<exists>p'. hammer2_chain_indkey_freemap freemap_parent 12345 = Some (0, 38, p')"
  using indkey_freemap_level [OF freemap_parent_ok(1,2), of 12345] by (simp add: freemap_parent_ok(3,4))

text \<open>C37: The key range of a new indirect block of a directory holds the start keys of at least half of the
live entries of the parent, is at least as large as the block has slots, and has at most 63 bits.\<close>

theorem indkey_dir_half:
  assumes "blockmap_ok p" "children_ok p" "length (view p) + 2 \<le> 300000" "live_view p \<noteq> []"
    and "n \<le> 64" "0 < n \<or> (\<forall>b \<in> set (live_view p). br_key b \<noteq> key)" "ncount \<le> 2 ^ 63"
  shows "\<exists>key' k p'. hammer2_chain_indkey_dir p key (int n) ncount = Some (key', int k, p') \<and>
    k \<le> 63 \<and> n \<le> k + 1 \<and> ncount \<le> 2 ^ k \<and>
    length (live_view p) \<le> 2 * length (filter (\<lambda>b. drop_bit k (br_key b) = drop_bit k key') (live_view p))"
proof -
  let ?L = "live_view p"
  have "halves key [] n (0, 0)" using assms(5) by (simp add: halves_def)
  then obtain m lo hi where fold: "fold_step (scan_dir key) ?L (int n, 0, 0) = Some (int m, lo, hi)" "n \<le> m" "halves key ?L m (lo, hi)"
    using fold_dir_halves [of key "[]" n "(0, 0)" ?L] live_wf [OF assms(1,2)] assms(6) by (auto simp: wf_bref_def)
  obtain j where j: "m = Suc j" using fold(3) assms(4) by (cases m) (auto simp: halves_def)
  obtain k lo' hi' where grow: "dir_grow key ncount (int j) (lo, hi) = Some (int k, lo', hi')" "j \<le> k" "ncount \<le> 2 ^ k"
      "halves key ?L (Suc k) (lo', hi')"
    using dir_grow_halves [OF fold(3) [unfolded j] assms(7)] by blast
  have k: "k < 64" using grow(4) by (simp add: halves_def)
  let ?key = "if lo' < hi' then key OR push_bit k 1 else key AND push_bit k (NOT 1)"
  obtain c where "indkey_loop (scan_dir key) 300000 p 0 (int n, 0, 0) = Some ((int m, lo, hi), p\<lparr>bl_cache := c\<rparr>)"
    using indkey_scan [OF assms(1-3), of "scan_dir key" "(int n, 0, 0)"] fold(1) by auto
  then have run: "hammer2_chain_indkey_dir p key (int n) ncount = Some (?key, int k, p\<lparr>bl_cache := c\<rparr>)"
    using grow(1) shl1_nat [OF k] by (simp add: hammer2_chain_indkey_dir_def j Let_def del: indkey_loop.simps)
  have "drop_bit k (br_key b) = drop_bit k ?key \<longleftrightarrow> bit (br_key b) k = (lo' < hi')" if "b \<in> set ?L" for b
  proof -
    have bits: "bit ?key i = (if i = k then lo' < hi' else bit key i \<and> (k < i \<or> lo' < hi'))" if "i < 64" for i
      using that k by (auto simp: bit_simps)
    have "drop_bit (Suc k) ?key = drop_bit (Suc k) key"
    proof (rule bit_eqI)
      fix i
      show "bit (drop_bit (Suc k) ?key) i = bit (drop_bit (Suc k) key) i"
        using bits [of "Suc k + i"] bit_imp_le_length [of ?key "Suc k + i"] bit_imp_le_length [of key "Suc k + i"]
        by (cases "Suc k + i < 64") (auto simp: bit_drop_bit_eq)
    qed
    then have "drop_bit (Suc k) (br_key b) = drop_bit (Suc k) ?key" using grow(4) that by (simp add: halves_def)
    then show ?thesis using drop_split [of k "br_key b" ?key] bits [OF k] by simp
  qed
  then have inside: "filter (\<lambda>b. drop_bit k (br_key b) = drop_bit k ?key) ?L = filter (\<lambda>b. bit (br_key b) k = (lo' < hi')) ?L"
    by (rule filter_cong [OF refl])
  have cnt: "lo' = int (length (filter (\<lambda>b. \<not> bit (br_key b) k) ?L))" "hi' = int (length (filter (\<lambda>b. bit (br_key b) k) ?L))"
    using grow(4) by (simp_all add: halves_def)
  moreover have "length (filter (\<lambda>b. bit (br_key b) k) ?L) + length (filter (\<lambda>b. \<not> bit (br_key b) k) ?L) = length ?L"
    by (rule sum_length_filter_compl)
  ultimately have "length ?L \<le> 2 * length (filter (\<lambda>b. bit (br_key b) k = (lo' < hi')) ?L)" by (cases "lo' < hi'") auto
  then have "length ?L \<le> 2 * length (filter (\<lambda>b. drop_bit k (br_key b) = drop_bit k ?key) ?L)" unfolding inside .
  then show ?thesis using run k grow(2,3) fold(2) j by (intro exI [of _ ?key] exI [of _ k]) auto
qed

theorem indkey_dir_half_witness:
  "\<exists>key' k p'. hammer2_chain_indkey_dir sample_parent 99 (int 0) 8 = Some (key', int k, p') \<and>
    k \<le> 63 \<and> 0 \<le> k + 1 \<and> 8 \<le> (2 :: nat) ^ k \<and>
    length (live_view sample_parent) \<le>
      2 * length (filter (\<lambda>b. drop_bit k (br_key b) = drop_bit k key') (live_view sample_parent))"
  by (rule indkey_dir_half [OF sample_parent_ok]) (simp_all add: sample_parent_view sample_parent_live)

end
