(* ===== verification/H2_Ccms.thy ===== *)
theory H2_Ccms
  imports H2_Prelude
begin

text \<open>
  The cache-state lock of \<open>sys/hammer2/hammer2_ccms.c\<close>: a shared and exclusive lock with recursion for the
  exclusive owner, upgrade and downgrade, and threads that sleep on it.

  The structural spinlock makes each pass of a sleep loop one atomic step: a pass takes the lock or sets
  \<open>blocked\<close> and sleeps.  The counters are 32-bit in C; they are bounded by the number of threads and the
  depth of recursion and are \<open>int\<close> here.  A thread is a number; \<open>curproc\<close> is the first argument.
\<close>

section \<open>The lock\<close>

type_synonym thread = nat

abbreviation (input) CCMS_STATE_INVALID :: u8 where "CCMS_STATE_INVALID \<equiv> 0"
abbreviation (input) CCMS_STATE_SHARED :: u8 where "CCMS_STATE_SHARED \<equiv> 2"
abbreviation (input) CCMS_STATE_EXCLUSIVE :: u8 where "CCMS_STATE_EXCLUSIVE \<equiv> 3"
abbreviation (input) EBUSY :: int where "EBUSY \<equiv> 16"

record ccms_cst =
  cs_state :: u8
  cs_type :: u8
  cs_upgrade :: int
  cs_count :: int
  cs_blocked :: bool
  cs_td :: "thread option"

definition ccms_cst_init :: ccms_cst where
  "ccms_cst_init = \<lparr>cs_state = 0, cs_type = 0, cs_upgrade = 0, cs_count = 0, cs_blocked = False, cs_td = None\<rparr>"

definition ccms_cst_uninit :: "ccms_cst \<Rightarrow> unit option" where
  "ccms_cst_uninit c = kkassert (cs_count c = 0)"

text \<open>The end of one pass: the lock is taken, or the thread sleeps.\<close>

datatype pass = Locked ccms_cst | Sleeping ccms_cst

text \<open>One pass of the loop for a new lock.\<close>

definition ccms_lock_pass :: "thread \<Rightarrow> u8 \<Rightarrow> ccms_cst \<Rightarrow> pass option" where
  "ccms_lock_pass cur state c =
     (if state = CCMS_STATE_SHARED then
        (if cs_count c < 0 \<or> cs_upgrade c \<noteq> 0 then Some (Sleeping (c\<lparr>cs_blocked := True\<rparr>))
         else do {
           let c = c\<lparr>cs_count := cs_count c + 1\<rparr>;
           kkassert (cs_td c = None);
           Some (Locked c)
         })
      else if state = CCMS_STATE_EXCLUSIVE then
        (if cs_count c \<noteq> 0 \<or> cs_upgrade c \<noteq> 0 then Some (Sleeping (c\<lparr>cs_blocked := True\<rparr>))
         else Some (Locked (c\<lparr>cs_count := - 1, cs_td := Some cur\<rparr>)))
      else hpanic)"

definition ccms_thread_lock_owned :: "thread \<Rightarrow> ccms_cst \<Rightarrow> bool" where
  "ccms_thread_lock_owned cur c \<longleftrightarrow> cs_count c < 0 \<and> cs_td c = Some cur"

definition ccms_thread_lock :: "thread \<Rightarrow> u8 \<Rightarrow> ccms_cst \<Rightarrow> pass option" where
  "ccms_thread_lock cur state c =
     (if cs_count c < 0 \<and> cs_td c = Some cur then Some (Locked (c\<lparr>cs_count := cs_count c - 1\<rparr>))
      else ccms_lock_pass cur state c)"

definition ccms_thread_lock_nonblock :: "thread \<Rightarrow> u8 \<Rightarrow> ccms_cst \<Rightarrow> (ccms_cst \<times> int) option" where
  "ccms_thread_lock_nonblock cur state c =
     (if cs_count c < 0 \<and> cs_td c = Some cur then Some (c\<lparr>cs_count := cs_count c - 1\<rparr>, 0)
      else if state = CCMS_STATE_SHARED then
        (if cs_count c < 0 \<or> cs_upgrade c \<noteq> 0 then Some (c, EBUSY)
         else do {
           let c = c\<lparr>cs_count := cs_count c + 1\<rparr>;
           kkassert (cs_td c = None);
           Some (c, 0)
         })
      else if state = CCMS_STATE_EXCLUSIVE then
        (if cs_count c \<noteq> 0 \<or> cs_upgrade c \<noteq> 0 then Some (c, EBUSY)
         else Some (c\<lparr>cs_count := - 1, cs_td := Some cur\<rparr>, 0))
      else hpanic)"

text \<open>One pass of the loop for an upgrade.\<close>

definition ccms_upgrade_pass :: "thread \<Rightarrow> ccms_cst \<Rightarrow> pass" where
  "ccms_upgrade_pass cur c =
     (if cs_count c \<noteq> 0 then Sleeping (c\<lparr>cs_blocked := True\<rparr>)
      else Locked (c\<lparr>cs_count := - 1, cs_td := Some cur\<rparr>))"

text \<open>The second component is the returned old state.\<close>

definition ccms_thread_lock_upgrade :: "thread \<Rightarrow> ccms_cst \<Rightarrow> (pass \<times> u8) option" where
  "ccms_thread_lock_upgrade cur c =
     (if cs_count c < 0 then do {
        kkassert (cs_td c = Some cur);
        Some (Locked c, CCMS_STATE_EXCLUSIVE)
      }
      else if 0 < cs_count c then
        (let c = c\<lparr>cs_upgrade := cs_upgrade c + 1, cs_count := cs_count c - 1\<rparr>
         in Some (ccms_upgrade_pass cur c, CCMS_STATE_SHARED))
      else hpanic)"

text \<open>The releases return whether they call \<open>wakeup\<close>.\<close>

definition ccms_wake :: "ccms_cst \<Rightarrow> ccms_cst \<times> bool" where
  "ccms_wake c = (if cs_blocked c then (c\<lparr>cs_blocked := False\<rparr>, True) else (c, False))"

definition ccms_thread_lock_downgrade :: "thread \<Rightarrow> u8 \<Rightarrow> ccms_cst \<Rightarrow> (ccms_cst \<times> bool) option" where
  "ccms_thread_lock_downgrade cur ostate c =
     (if ostate = CCMS_STATE_SHARED then do {
        kkassert (cs_td c = Some cur);
        kkassert (cs_count c = - 1);
        Some (ccms_wake (c\<lparr>cs_upgrade := cs_upgrade c - 1, cs_count := 1, cs_td := None\<rparr>))
      }
      else Some (c, False))"

definition ccms_thread_unlock :: "thread \<Rightarrow> ccms_cst \<Rightarrow> (ccms_cst \<times> bool) option" where
  "ccms_thread_unlock cur c =
     (if cs_count c < 0 then do {
        kkassert (cs_td c = Some cur);
        if cs_count c < - 1 then Some (c\<lparr>cs_count := cs_count c + 1\<rparr>, False)
        else do {
          kkassert (cs_count c = - 1);
          Some (ccms_wake (c\<lparr>cs_count := 0, cs_td := None\<rparr>))
        }
      }
      else if 0 < cs_count c then
        (let c = c\<lparr>cs_count := cs_count c - 1\<rparr>
         in Some (if cs_count c = 0 \<and> cs_blocked c then (c\<lparr>cs_blocked := False\<rparr>, True) else (c, False)))
      else hpanic)"

definition ccms_thread_lock_setown :: "thread \<Rightarrow> ccms_cst \<Rightarrow> ccms_cst option" where
  "ccms_thread_lock_setown cur c = do {
     kkassert (cs_count c < 0);
     Some (c\<lparr>cs_td := Some cur\<rparr>)
   }"

definition ccms_thread_unlock_upgraded :: "thread \<Rightarrow> u8 \<Rightarrow> ccms_cst \<Rightarrow> (ccms_cst \<times> bool) option" where
  "ccms_thread_unlock_upgraded cur ostate c =
     (if ostate = CCMS_STATE_SHARED then do {
        kkassert (cs_td c = Some cur);
        kkassert (cs_count c = - 1);
        Some (ccms_wake (c\<lparr>cs_upgrade := cs_upgrade c - 1, cs_count := 0, cs_td := None\<rparr>))
      }
      else ccms_thread_unlock cur c)"

definition ccms_thread_lock_temp_release :: "thread \<Rightarrow> ccms_cst \<Rightarrow> (ccms_cst \<times> bool \<times> u8) option" where
  "ccms_thread_lock_temp_release cur c =
     (if cs_count c < 0 then do { (c, w) \<leftarrow> ccms_thread_unlock cur c; Some (c, w, CCMS_STATE_EXCLUSIVE) }
      else if 0 < cs_count c then do { (c, w) \<leftarrow> ccms_thread_unlock cur c; Some (c, w, CCMS_STATE_SHARED) }
      else Some (c, False, CCMS_STATE_INVALID))"

definition ccms_thread_lock_temp_restore :: "thread \<Rightarrow> u8 \<Rightarrow> ccms_cst \<Rightarrow> pass option" where
  "ccms_thread_lock_temp_restore cur ostate c = ccms_thread_lock cur ostate c"

section \<open>Threads\<close>

text \<open>What a thread does with the lock: it waits for a lock or an upgrade (\<open>True\<close>: asleep since the last
\<open>wakeup\<close>), or holds it shared, or holds it exclusively \<open>n\<close> times, by an upgrade or not.\<close>

datatype tstate = Idle | WaitL u8 bool | WaitU bool | HoldS | HoldX nat bool

type_synonym lock_system = "ccms_cst \<times> (thread \<Rightarrow> tstate)"

fun awake :: "tstate \<Rightarrow> tstate" where
  "awake (WaitL s a) = WaitL s False"
| "awake (WaitU a) = WaitU False"
| "awake x = x"

definition wake_if :: "bool \<Rightarrow> (thread \<Rightarrow> tstate) \<Rightarrow> (thread \<Rightarrow> tstate)" where
  "wake_if w th = (if w then awake \<circ> th else th)"

fun locked_as :: "u8 \<Rightarrow> tstate \<Rightarrow> tstate" where
  "locked_as s (HoldX n u) = HoldX (Suc n) u"
| "locked_as s x = (if s = CCMS_STATE_SHARED then HoldS else HoldX 1 False)"

definition after_lock :: "thread \<Rightarrow> u8 \<Rightarrow> (thread \<Rightarrow> tstate) \<Rightarrow> pass \<Rightarrow> lock_system" where
  "after_lock t s th r = (case r of
     Locked c \<Rightarrow> (c, th(t := locked_as s (th t))) | Sleeping c \<Rightarrow> (c, th(t := WaitL s True)))"

definition after_upgrade :: "thread \<Rightarrow> (thread \<Rightarrow> tstate) \<Rightarrow> pass \<Rightarrow> lock_system" where
  "after_upgrade t th r = (case r of
     Locked c \<Rightarrow> (c, th(t := HoldX 1 True)) | Sleeping c \<Rightarrow> (c, th(t := WaitU True)))"

text \<open>The calls a thread may make in its state.\<close>

fun may_lock :: "tstate \<Rightarrow> bool" where
  "may_lock Idle = True"
| "may_lock (HoldX n u) = True"
| "may_lock x = False"

fun may_unlock :: "tstate \<Rightarrow> bool" where
  "may_unlock HoldS = True"
| "may_unlock (HoldX n u) = (1 < n \<or> \<not> u)"
| "may_unlock x = False"

fun unlocked :: "tstate \<Rightarrow> tstate" where
  "unlocked (HoldX n u) = (if 1 < n then HoldX (n - 1) u else Idle)"
| "unlocked x = Idle"

definition lock_state :: "u8 \<Rightarrow> bool" where
  "lock_state s \<longleftrightarrow> s = CCMS_STATE_SHARED \<or> s = CCMS_STATE_EXCLUSIVE"

inductive ccms_step :: "lock_system \<Rightarrow> lock_system \<Rightarrow> bool" where
  lock: "may_lock (th t) \<Longrightarrow> lock_state s \<Longrightarrow> ccms_thread_lock t s c = Some r \<Longrightarrow>
    ccms_step (c, th) (after_lock t s th r)"
| retry_lock: "th t = WaitL s a \<Longrightarrow> ccms_lock_pass t s c = Some r \<Longrightarrow> ccms_step (c, th) (after_lock t s th r)"
| nonblock: "may_lock (th t) \<Longrightarrow> lock_state s \<Longrightarrow> ccms_thread_lock_nonblock t s c = Some (c', e) \<Longrightarrow>
    ccms_step (c, th) (c', if e = 0 then th(t := locked_as s (th t)) else th)"
| upgrade: "th t = HoldS \<Longrightarrow> ccms_thread_lock_upgrade t c = Some (r, ostate) \<Longrightarrow> ccms_step (c, th) (after_upgrade t th r)"
| upgrade_excl: "th t = HoldX n u \<Longrightarrow> ccms_thread_lock_upgrade t c = Some (Locked c', ostate) \<Longrightarrow> ccms_step (c, th) (c', th)"
| retry_upgrade: "th t = WaitU a \<Longrightarrow> ccms_step (c, th) (after_upgrade t th (ccms_upgrade_pass t c))"
| downgrade: "th t = HoldX 1 True \<Longrightarrow> ccms_thread_lock_downgrade t CCMS_STATE_SHARED c = Some (c', w) \<Longrightarrow>
    ccms_step (c, th) (c', wake_if w (th(t := HoldS)))"
| unlock: "may_unlock (th t) \<Longrightarrow> ccms_thread_unlock t c = Some (c', w) \<Longrightarrow>
    ccms_step (c, th) (c', wake_if w (th(t := unlocked (th t))))"
| unlock_upgraded: "th t = HoldX 1 True \<Longrightarrow> ccms_thread_unlock_upgraded t CCMS_STATE_SHARED c = Some (c', w) \<Longrightarrow>
    ccms_step (c, th) (c', wake_if w (th(t := Idle)))"
| setown: "th t = HoldX n u \<Longrightarrow> th t' = Idle \<Longrightarrow> ccms_thread_lock_setown t' c = Some c' \<Longrightarrow>
    ccms_step (c, th) (c', th(t := Idle, t' := HoldX n u))"

definition ccms_start :: lock_system where
  "ccms_start = (ccms_cst_init, \<lambda>t. Idle)"

section \<open>The invariant\<close>

definition cnt :: "(tstate \<Rightarrow> bool) \<Rightarrow> (thread \<Rightarrow> tstate) \<Rightarrow> int" where
  "cnt P th = int (card {t. P (th t)})"

definition upgrading :: "tstate \<Rightarrow> bool" where
  "upgrading s \<longleftrightarrow> (\<exists>a. s = WaitU a) \<or> (\<exists>n. s = HoldX n True)"

definition excl :: "tstate \<Rightarrow> bool" where
  "excl s \<longleftrightarrow> (\<exists>n u. s = HoldX n u)"

text \<open>The condition a sleeping thread waits for does not hold.\<close>

fun still_blocked :: "ccms_cst \<Rightarrow> tstate \<Rightarrow> bool" where
  "still_blocked c (WaitL s True) =
     (cs_blocked c \<and> (if s = CCMS_STATE_SHARED then cs_count c < 0 else cs_count c \<noteq> 0) \<or> cs_blocked c \<and> cs_upgrade c \<noteq> 0)"
| "still_blocked c (WaitU True) = (cs_blocked c \<and> cs_count c \<noteq> 0)"
| "still_blocked c x = True"

fun wait_state_ok :: "tstate \<Rightarrow> bool" where
  "wait_state_ok (WaitL s a) = lock_state s"
| "wait_state_ok (HoldX n u) = (0 < n)"
| "wait_state_ok x = True"

definition ccms_ok :: "lock_system \<Rightarrow> bool" where
  "ccms_ok st = (case st of (c, th) \<Rightarrow>
     finite {t. th t \<noteq> Idle} \<and> (\<forall>t. wait_state_ok (th t)) \<and> cs_upgrade c = cnt upgrading th \<and>
     (case cs_td c of
        None \<Rightarrow> cs_count c = cnt (\<lambda>s. s = HoldS) th \<and> (\<forall>t. \<not> excl (th t))
      | Some t \<Rightarrow> (\<exists>n u. th t = HoldX n u \<and> cs_count c = - int n) \<and>
          (\<forall>t'. t' \<noteq> t \<longrightarrow> \<not> excl (th t') \<and> th t' \<noteq> HoldS)) \<and>
     (\<forall>t. still_blocked c (th t)))"

lemma cnt_upd:
  assumes "finite {t. th t \<noteq> Idle}" "\<not> P Idle"
  shows "cnt P (th(t := v)) = cnt P th + of_bool (P v) - of_bool (P (th t))"
proof -
  let ?S = "{x. P (th x)}"
  have fin: "finite ?S" by (rule finite_subset [OF _ assms(1)]) (use assms(2) in auto)
  have "{x. P ((th(t := v)) x)} = (if P v then insert t ?S else ?S - {t})" by auto
  then have "cnt P (th(t := v)) = int (card (if P v then insert t ?S else ?S - {t}))" by (simp add: cnt_def)
  then show ?thesis
    using fin card_gt_0_iff [of ?S] by (auto simp: cnt_def card_insert_if card_Diff_singleton_if of_nat_diff Suc_le_eq)
qed

lemma cnt_awake: "(\<And>s. P (awake s) = P s) \<Longrightarrow> cnt P (wake_if w th) = cnt P th"
  by (simp add: cnt_def wake_if_def)

lemma cnt_nonneg [simp]: "0 \<le> cnt P th"
  by (simp add: cnt_def)

lemma cnt_pos: "finite {t. th t \<noteq> Idle} \<Longrightarrow> \<not> P Idle \<Longrightarrow> P (th t) \<Longrightarrow> 1 \<le> cnt P th"
  using cnt_upd [of th P t Idle] cnt_nonneg [of P "th(t := Idle)"] by simp

lemma upgrading_simps [simp]:
  "\<not> upgrading Idle" "\<not> upgrading HoldS" "\<not> upgrading (WaitL s a)" "upgrading (WaitU a)" "upgrading (HoldX n u) = u"
  by (simp_all add: upgrading_def)

lemma excl_simps [simp]:
  "\<not> excl Idle" "\<not> excl HoldS" "\<not> excl (WaitL s a)" "\<not> excl (WaitU a)" "excl (HoldX n u)"
  by (simp_all add: excl_def)

lemma awake_simps [simp]:
  "upgrading (awake s) = upgrading s" "excl (awake s) = excl s" "awake s = HoldS \<longleftrightarrow> s = HoldS" "awake s = Idle \<longleftrightarrow> s = Idle"
  "awake s = HoldX n u \<longleftrightarrow> s = HoldX n u" "wait_state_ok (awake s) = wait_state_ok s" "still_blocked c (awake s)"
  by (cases s; simp)+

lemma finite_upd: "finite {t. th t \<noteq> Idle} \<Longrightarrow> finite {x. (th(t := v)) x \<noteq> Idle}"
  by (rule finite_subset [of _ "insert t {t. th t \<noteq> Idle}"]) auto

lemma ccms_okI:
  assumes "finite {t. th t \<noteq> Idle}" "\<And>t. wait_state_ok (th t)" "cs_upgrade c = cnt upgrading th"
    and "cs_td c = None \<Longrightarrow> cs_count c = cnt (\<lambda>s. s = HoldS) th \<and> (\<forall>t. \<not> excl (th t))"
    and "\<And>t. cs_td c = Some t \<Longrightarrow> \<exists>n u. th t = HoldX n u \<and> cs_count c = - int n"
    and "\<And>t t'. cs_td c = Some t \<Longrightarrow> t' \<noteq> t \<Longrightarrow> \<not> excl (th t') \<and> th t' \<noteq> HoldS"
    and "\<And>t. still_blocked c (th t)"
  shows "ccms_ok (c, th)"
  using assms by (cases "cs_td c") (simp_all add: ccms_ok_def)

text \<open>A release wakes all sleeping threads or finds none.\<close>

lemma ok_wake:
  assumes "finite {t. th t \<noteq> Idle}" "\<And>t. wait_state_ok (th t)" "cs_upgrade c = cnt upgrading th"
    and "cs_td c = None" "cs_count c = cnt (\<lambda>s. s = HoldS) th" "\<And>t. \<not> excl (th t)"
    and "\<And>t. \<not> cs_blocked c \<Longrightarrow> still_blocked c (th t)" and w: "ccms_wake c = (c', w)"
  shows "ccms_ok (c', wake_if w th)"
proof -
  have c: "cs_td c' = None" "cs_count c' = cs_count c" "cs_upgrade c' = cs_upgrade c"
    using w assms(4) by (auto simp: ccms_wake_def split: if_splits)
  have "{t. wake_if w th t \<noteq> Idle} = {t. th t \<noteq> Idle}" by (simp add: wake_if_def)
  moreover have "still_blocked c' (wake_if w th t)" for t
    using w assms(7) by (auto simp: ccms_wake_def wake_if_def split: if_splits)
  moreover have "wait_state_ok (wake_if w th t)" "\<not> excl (wake_if w th t)" for t
    using assms(2,6) by (simp_all add: wake_if_def)
  moreover have "cnt upgrading (wake_if w th) = cnt upgrading th" "cnt (\<lambda>s. s = HoldS) (wake_if w th) = cnt (\<lambda>s. s = HoldS) th"
    by (rule cnt_awake; simp)+
  ultimately show ?thesis using assms(1,3,5) c by (intro ccms_okI) simp_all
qed

lemma ccms_okD:
  assumes "ccms_ok (c, th)"
  shows "finite {t. th t \<noteq> Idle}" "wait_state_ok (th t)" "cs_upgrade c = cnt upgrading th" "still_blocked c (th t)"
  using assms by (simp_all add: ccms_ok_def)

lemma held_excl:
  assumes "ccms_ok (c, th)" "th t = HoldX n u"
  shows "cs_td c = Some t" "cs_count c = - int n" "0 < n" "\<And>t'. t' \<noteq> t \<Longrightarrow> \<not> excl (th t') \<and> th t' \<noteq> HoldS"
proof -
  have n: "0 < n" using ccms_okD(2) [OF assms(1), of t] assms(2) by simp
  have ex: "excl (th t)" using assms(2) by simp
  have td: "cs_td c = Some t"
  proof (cases "cs_td c")
    case None
    then show ?thesis using assms(1) ex by (simp add: ccms_ok_def)
  next
    case (Some x)
    then have "\<forall>t'. t' \<noteq> x \<longrightarrow> \<not> excl (th t') \<and> th t' \<noteq> HoldS" using assms(1) by (simp add: ccms_ok_def)
    then have "t = x" using ex by blast
    then show ?thesis using Some by simp
  qed
  then show "cs_td c = Some t" "cs_count c = - int n" "0 < n" "\<And>t'. t' \<noteq> t \<Longrightarrow> \<not> excl (th t') \<and> th t' \<noteq> HoldS"
    using assms n by (simp_all add: ccms_ok_def)
qed

lemma not_excl:
  assumes "ccms_ok (c, th)" "0 \<le> cs_count c"
  shows "cs_td c = None" "cs_count c = cnt (\<lambda>s. s = HoldS) th" "\<not> excl (th t)"
proof -
  have td: "cs_td c = None"
  proof (rule ccontr)
    assume "cs_td c \<noteq> None"
    then obtain t where "cs_td c = Some t" by auto
    then obtain n u where "th t = HoldX n u" "cs_count c = - int n" using assms(1) by (auto simp: ccms_ok_def)
    then show False using held_excl [OF assms(1)] assms(2) by fastforce
  qed
  then show "cs_td c = None" "cs_count c = cnt (\<lambda>s. s = HoldS) th" "\<not> excl (th t)"
    using assms(1) by (simp_all add: ccms_ok_def)
qed

lemma owned:
  assumes "ccms_ok (c, th)" "cs_count c < 0"
  obtains t n u where "cs_td c = Some t" "th t = HoldX n u"
proof -
  show thesis
  proof (cases "cs_td c")
    case None
    then have "cs_count c = cnt (\<lambda>s. s = HoldS) th" using assms(1) by (simp add: ccms_ok_def)
    then show thesis using assms(2) cnt_nonneg [of "\<lambda>s. s = HoldS" th] by linarith
  next
    case (Some t)
    then show thesis using assms(1) that by (auto simp: ccms_ok_def)
  qed
qed

lemma held_shared:
  assumes "ccms_ok (c, th)" "th t = HoldS"
  shows "0 < cs_count c"
proof -
  have "1 \<le> cnt (\<lambda>s. s = HoldS) th" using cnt_pos [OF ccms_okD(1) [OF assms(1)], of "\<lambda>s. s = HoldS" t] assms(2) by simp
  moreover have "0 \<le> cs_count c"
  proof (rule ccontr)
    assume "\<not> 0 \<le> cs_count c"
    then obtain t' n u where "th t' = HoldX n u" using owned [OF assms(1)] by (metis not_le)
    then have "t \<noteq> t'" "\<not> (t \<noteq> t' \<and> th t = HoldS)" using assms(2) held_excl(4) [OF assms(1)] by auto
    then show False using assms(2) by simp
  qed
  ultimately show ?thesis using not_excl(2) [OF assms(1)] by simp
qed

section \<open>Every step keeps the invariant\<close>

lemma ok_sleep:
  assumes "ccms_ok (c, th)" "th t = Idle \<or> (\<exists>s a. th t = WaitL s a)" "lock_state s"
    and "if s = CCMS_STATE_SHARED then cs_count c < 0 \<or> cs_upgrade c \<noteq> 0 else cs_count c \<noteq> 0 \<or> cs_upgrade c \<noteq> 0"
  shows "ccms_ok (c\<lparr>cs_blocked := True\<rparr>, th(t := WaitL s True))"
proof (rule ccms_okI)
  have t: "\<not> upgrading (th t)" "\<not> excl (th t)" "th t \<noteq> HoldS" using assms(2) by auto
  note ok = ccms_okD [OF assms(1)]
  show "finite {x. (th(t := WaitL s True)) x \<noteq> Idle}" by (rule finite_upd [OF ok(1)])
  show "wait_state_ok ((th(t := WaitL s True)) x)" for x using ok(2) assms(3) by simp
  show "cs_upgrade (c\<lparr>cs_blocked := True\<rparr>) = cnt upgrading (th(t := WaitL s True))"
    using ok(3) t by (simp add: cnt_upd [OF ok(1)])
  show "cs_count (c\<lparr>cs_blocked := True\<rparr>) = cnt (\<lambda>s. s = HoldS) (th(t := WaitL s True)) \<and> (\<forall>x. \<not> excl ((th(t := WaitL s True)) x))"
    if "cs_td (c\<lparr>cs_blocked := True\<rparr>) = None"
    using that assms(1) t by (simp add: ccms_ok_def cnt_upd [OF ok(1)])
  show "\<exists>n u. (th(t := WaitL s True)) x = HoldX n u \<and> cs_count (c\<lparr>cs_blocked := True\<rparr>) = - int n"
    if "cs_td (c\<lparr>cs_blocked := True\<rparr>) = Some x" for x
    using that assms(1) t by (auto simp: ccms_ok_def)
  show "\<not> excl ((th(t := WaitL s True)) y) \<and> (th(t := WaitL s True)) y \<noteq> HoldS"
    if "cs_td (c\<lparr>cs_blocked := True\<rparr>) = Some x" "y \<noteq> x" for x y
    using that assms(1) by (auto simp: ccms_ok_def)
  show "still_blocked (c\<lparr>cs_blocked := True\<rparr>) ((th(t := WaitL s True)) x)" for x
  proof (cases "x = t")
    case True
    then show ?thesis using assms(4) by (auto split: if_splits)
  next
    case False
    have "still_blocked (c\<lparr>cs_blocked := True\<rparr>) v" if "still_blocked c v" for v
      using that by (induction c v rule: still_blocked.induct) (auto split: if_splits)
    then show ?thesis using ok(4) False by simp
  qed
qed

definition asleep :: "tstate \<Rightarrow> bool" where
  "asleep v \<longleftrightarrow> (\<exists>s. v = WaitL s True) \<or> v = WaitU True"

lemma asleep_simps [simp]:
  "\<not> asleep Idle" "\<not> asleep HoldS" "\<not> asleep (HoldX n u)" "asleep (WaitL s a) = a" "asleep (WaitU a) = a"
  by (auto simp: asleep_def)

lemma still_blocked_asleep: "still_blocked c v \<Longrightarrow> asleep v \<Longrightarrow> cs_blocked c"
  by (auto simp: asleep_def split: if_splits)

lemma still_blocked_excl: "(asleep v \<Longrightarrow> cs_blocked c) \<Longrightarrow> cs_count c < 0 \<Longrightarrow> still_blocked c v"
  by (induction c v rule: still_blocked.induct) auto

text \<open>A state in which one thread holds the lock exclusively.\<close>

lemma ok_exclI:
  assumes "finite {t. th t \<noteq> Idle}" "\<And>x. wait_state_ok (th x)" "cs_upgrade c = cnt upgrading th"
    and "th t = HoldX n u" "cs_td c = Some t" "cs_count c = - int n" "\<And>x. x \<noteq> t \<Longrightarrow> \<not> excl (th x) \<and> th x \<noteq> HoldS"
    and "\<And>x. asleep (th x) \<Longrightarrow> cs_blocked c"
  shows "ccms_ok (c, th)"
proof (rule ccms_okI)
  have "0 < n" using assms(2) [of t] assms(4) by simp
  then show "still_blocked c (th x)" for x using assms(6,8) by (intro still_blocked_excl) auto
  show "\<not> excl (th y) \<and> th y \<noteq> HoldS" if "cs_td c = Some x" "y \<noteq> x" for x y using assms(5,7) that by simp
qed (use assms in auto)

text \<open>The change of one thread to a holder that excludes the others.\<close>

lemma ok_excl_upd:
  assumes "ccms_ok (c, th)" "\<And>x. x \<noteq> t \<Longrightarrow> \<not> excl (th x) \<and> th x \<noteq> HoldS" "0 < n"
    and "cs_upgrade c' = cs_upgrade c + of_bool u - of_bool (upgrading (th t))"
    and "cs_td c' = Some t" "cs_count c' = - int n" "cs_blocked c' = cs_blocked c"
  shows "ccms_ok (c', th(t := HoldX n u))"
proof (rule ok_exclI [where t = t and n = n and u = u])
  note ok = ccms_okD [OF assms(1)]
  show "finite {x. (th(t := HoldX n u)) x \<noteq> Idle}" by (rule finite_upd [OF ok(1)])
  show "wait_state_ok ((th(t := HoldX n u)) x)" for x using ok(2) assms(3) by simp
  show "cs_upgrade c' = cnt upgrading (th(t := HoldX n u))" using ok(3) assms(4) by (simp add: cnt_upd [OF ok(1)])
  show "cs_blocked c'" if "asleep ((th(t := HoldX n u)) x)" for x
    using that still_blocked_asleep [OF ok(4)] assms(7) by (auto split: if_splits)
qed (use assms in auto)

lemma no_holders:
  assumes "ccms_ok (c, th)" "cs_count c = 0"
  shows "th x \<noteq> HoldS" "\<not> excl (th x)" "cs_td c = None"
  using held_shared [OF assms(1), of x] not_excl [OF assms(1)] assms(2) by auto

text \<open>A new shared holder.\<close>

lemma ok_take_shared:
  assumes "ccms_ok (c, th)" "th t = Idle \<or> (\<exists>s a. th t = WaitL s a)" "0 \<le> cs_count c" "cs_upgrade c = 0"
  shows "ccms_ok (c\<lparr>cs_count := cs_count c + 1\<rparr>, th(t := HoldS))"
proof (rule ccms_okI)
  have t: "\<not> upgrading (th t)" "th t \<noteq> HoldS" using assms(2) by auto
  note ok = ccms_okD [OF assms(1)] and sh = not_excl [OF assms(1,3)]
  have count: "0 \<le> cs_count c" by (rule assms(3))
  show "finite {x. (th(t := HoldS)) x \<noteq> Idle}" by (rule finite_upd [OF ok(1)])
  show "wait_state_ok ((th(t := HoldS)) x)" for x using ok(2) by simp
  show "cs_upgrade (c\<lparr>cs_count := cs_count c + 1\<rparr>) = cnt upgrading (th(t := HoldS))"
    using ok(3) t by (simp add: cnt_upd [OF ok(1)])
  show "cs_count (c\<lparr>cs_count := cs_count c + 1\<rparr>) = cnt (\<lambda>s. s = HoldS) (th(t := HoldS)) \<and> (\<forall>x. \<not> excl ((th(t := HoldS)) x))"
    using sh t by (simp add: cnt_upd [OF ok(1)])
  show "still_blocked (c\<lparr>cs_count := cs_count c + 1\<rparr>) ((th(t := HoldS)) x)" for x
  proof -
    have "\<not> upgrading v" if "v = th x" for v
    proof
      assume "upgrading v"
      then have "1 \<le> cnt upgrading th" using cnt_pos [OF ok(1), of upgrading x] that by simp
      then show False using ok(3) assms(4) by simp
    qed
    then have "still_blocked (c\<lparr>cs_count := cs_count c + 1\<rparr>) v" if "still_blocked c v" "v = th x" for v
      using that count assms(4) by (cases "asleep v") (auto simp: asleep_def split: if_splits elim!: still_blocked.elims)
    then show ?thesis using ok(4) by simp
  qed
qed (use not_excl(1) [OF assms(1,3)] in simp_all)

lemma ok_pass_lock:
  assumes "ccms_ok (c, th)" "th t = Idle \<or> (\<exists>s a. th t = WaitL s a)" "lock_state s" "ccms_lock_pass t s c = Some r"
  shows "ccms_ok (case r of Locked c \<Rightarrow> (c, th(t := if s = CCMS_STATE_SHARED then HoldS else HoldX 1 False))
    | Sleeping c \<Rightarrow> (c, th(t := WaitL s True)))"
proof (cases "if s = CCMS_STATE_SHARED then cs_count c < 0 \<or> cs_upgrade c \<noteq> 0 else cs_count c \<noteq> 0 \<or> cs_upgrade c \<noteq> 0")
  case True
  then have "r = Sleeping (c\<lparr>cs_blocked := True\<rparr>)"
    using assms(3,4) by (auto simp: ccms_lock_pass_def lock_state_def split: if_splits)
  then show ?thesis using ok_sleep [OF assms(1-3) True] by simp
next
  case False
  show ?thesis
  proof (cases "s = CCMS_STATE_SHARED")
    case True
    then have "r = Locked (c\<lparr>cs_count := cs_count c + 1\<rparr>)"
      using False assms(4) by (auto simp: ccms_lock_pass_def kkassert_bind Let_def split: if_splits)
    then show ?thesis using True False ok_take_shared [OF assms(1,2)] by simp
  next
    case s: False
    then have c: "cs_count c = 0" "cs_upgrade c = 0" using False by simp_all
    then have "r = Locked (c\<lparr>cs_count := - 1, cs_td := Some t\<rparr>)"
      using s assms(3,4) by (simp add: ccms_lock_pass_def lock_state_def)
    moreover have "ccms_ok (c\<lparr>cs_count := - 1, cs_td := Some t\<rparr>, th(t := HoldX 1 False))"
      using no_holders [OF assms(1) c(1)] assms(2) by (intro ok_excl_upd [OF assms(1)]) auto
    ultimately show ?thesis using s by simp
  qed
qed

lemma ok_recursion:
  assumes "ccms_ok (c, th)" "th t = HoldX n u"
  shows "ccms_ok (c\<lparr>cs_count := cs_count c - 1\<rparr>, th(t := HoldX (Suc n) u))"
  using held_excl [OF assms] assms(2) by (intro ok_excl_upd [OF assms(1)]) auto

lemma not_owner:
  assumes "ccms_ok (c, th)" "\<not> excl (th t)"
  shows "\<not> (cs_count c < 0 \<and> cs_td c = Some t)"
  using owned [OF assms(1)] assms(2) by (metis excl_simps(5) option.inject)

lemma still_blocked_awake: "\<not> asleep v \<Longrightarrow> still_blocked c v"
  by (induction c v rule: still_blocked.induct) auto

lemma upgrade_nonneg: "ccms_ok (c, th) \<Longrightarrow> 0 \<le> cs_upgrade c"
  using ccms_okD(3) by simp

text \<open>The start of an upgrade and its first pass.\<close>

lemma ok_upgrade:
  assumes "ccms_ok (c, th)" "th t = HoldS" "ccms_thread_lock_upgrade t c = Some (r, ostate)"
  shows "ccms_ok (after_upgrade t th r)"
proof -
  note ok = ccms_okD [OF assms(1)] and pos = held_shared [OF assms(1,2)]
  have sh: "cs_td c = None" "cs_count c = cnt (\<lambda>s. s = HoldS) th" "\<And>x. \<not> excl (th x)"
    using not_excl [OF assms(1)] pos by simp_all
  have left: "cs_count c - 1 = cnt (\<lambda>s. s = HoldS) (th(t := WaitU True))"
    using sh(2) assms(2) by (simp add: cnt_upd [OF ok(1)])
  let ?c = "c\<lparr>cs_upgrade := cs_upgrade c + 1, cs_count := cs_count c - 1\<rparr>"
  have r: "r = ccms_upgrade_pass t ?c" using assms(3) pos by (simp add: ccms_thread_lock_upgrade_def Let_def)
  show ?thesis
  proof (cases "cs_count c = 1")
    case True
    have "th x \<noteq> HoldS" if "x \<noteq> t" for x
    proof
      assume "th x = HoldS"
      then have "1 \<le> cnt (\<lambda>s. s = HoldS) (th(t := WaitU True))"
        using that by (intro cnt_pos [OF finite_upd [OF ok(1)], of _ _ _ x]) simp_all
      then show False using left True by linarith
    qed
    then have "ccms_ok (?c\<lparr>cs_count := - 1, cs_td := Some t\<rparr>, th(t := HoldX 1 True))"
      using sh(3) assms(2) by (intro ok_excl_upd [OF assms(1)]) auto
    then show ?thesis using True by (simp add: r ccms_upgrade_pass_def after_upgrade_def)
  next
    case False
    have "ccms_ok (?c\<lparr>cs_blocked := True\<rparr>, th(t := WaitU True))"
    proof (rule ccms_okI)
      show "finite {x. (th(t := WaitU True)) x \<noteq> Idle}" by (rule finite_upd [OF ok(1)])
      show "wait_state_ok ((th(t := WaitU True)) x)" for x using ok(2) by simp
      show "cs_upgrade (?c\<lparr>cs_blocked := True\<rparr>) = cnt upgrading (th(t := WaitU True))"
        using ok(3) assms(2) by (simp add: cnt_upd [OF ok(1)])
      show "cs_count (?c\<lparr>cs_blocked := True\<rparr>) = cnt (\<lambda>s. s = HoldS) (th(t := WaitU True)) \<and>
          (\<forall>x. \<not> excl ((th(t := WaitU True)) x))"
        using left sh(3) by simp
      show "still_blocked (?c\<lparr>cs_blocked := True\<rparr>) ((th(t := WaitU True)) x)" for x
      proof -
        have "still_blocked (?c\<lparr>cs_blocked := True\<rparr>) v" for v
          using upgrade_nonneg [OF assms(1)] pos False by (cases "asleep v") (auto simp: asleep_def still_blocked_awake)
        then show ?thesis by simp
      qed
    qed (use sh(1) in simp_all)
    then show ?thesis using False by (simp add: r ccms_upgrade_pass_def after_upgrade_def)
  qed
qed

lemma ok_retry_upgrade:
  assumes "ccms_ok (c, th)" "th t = WaitU a"
  shows "ccms_ok (after_upgrade t th (ccms_upgrade_pass t c))"
proof (cases "cs_count c = 0")
  case True
  have "ccms_ok (c\<lparr>cs_count := - 1, cs_td := Some t\<rparr>, th(t := HoldX 1 True))"
    using no_holders [OF assms(1) True] assms(2) by (intro ok_excl_upd [OF assms(1)]) auto
  then show ?thesis using True by (simp add: ccms_upgrade_pass_def after_upgrade_def)
next
  case False
  note ok = ccms_okD [OF assms(1)]
  have "ccms_ok (c\<lparr>cs_blocked := True\<rparr>, th(t := WaitU True))"
  proof (rule ccms_okI)
    show "finite {x. (th(t := WaitU True)) x \<noteq> Idle}" by (rule finite_upd [OF ok(1)])
    show "wait_state_ok ((th(t := WaitU True)) x)" for x using ok(2) by simp
    show "cs_upgrade (c\<lparr>cs_blocked := True\<rparr>) = cnt upgrading (th(t := WaitU True))"
      using ok(3) assms(2) by (simp add: cnt_upd [OF ok(1)])
    show "cs_count (c\<lparr>cs_blocked := True\<rparr>) = cnt (\<lambda>s. s = HoldS) (th(t := WaitU True)) \<and> (\<forall>x. \<not> excl ((th(t := WaitU True)) x))"
      if "cs_td (c\<lparr>cs_blocked := True\<rparr>) = None"
      using that assms by (simp add: ccms_ok_def cnt_upd [OF ok(1)])
    show "\<exists>n u. (th(t := WaitU True)) x = HoldX n u \<and> cs_count (c\<lparr>cs_blocked := True\<rparr>) = - int n"
      if "cs_td (c\<lparr>cs_blocked := True\<rparr>) = Some x" for x
      using that assms by (auto simp: ccms_ok_def)
    show "\<not> excl ((th(t := WaitU True)) y) \<and> (th(t := WaitU True)) y \<noteq> HoldS"
      if "cs_td (c\<lparr>cs_blocked := True\<rparr>) = Some x" "y \<noteq> x" for x y
      using that assms(1) by (auto simp: ccms_ok_def)
    show "still_blocked (c\<lparr>cs_blocked := True\<rparr>) ((th(t := WaitU True)) x)" for x
    proof (cases "x = t")
      case True
      then show ?thesis using False by simp
    next
      case other: False
      have "still_blocked (c\<lparr>cs_blocked := True\<rparr>) v" if "still_blocked c v" for v
        using that by (induction c v rule: still_blocked.induct) (auto split: if_splits)
      then show ?thesis using ok(4) other by simp
    qed
  qed
  then show ?thesis using False by (simp add: ccms_upgrade_pass_def after_upgrade_def)
qed

text \<open>The exclusive holder lets go, to \<open>v\<close>.\<close>

lemma ok_release:
  assumes "ccms_ok (c, th)" "th t = HoldX 1 u" "v = Idle \<or> v = HoldS"
    and "cs_upgrade c' = cs_upgrade c - of_bool u" "cs_count c' = of_bool (v = HoldS)" "cs_td c' = None"
    and "cs_blocked c' = cs_blocked c" "ccms_wake c' = (c'', w)"
  shows "ccms_ok (c'', wake_if w (th(t := v)))"
proof (rule ok_wake [OF _ _ _ assms(6) _ _ _ assms(8)])
  note ok = ccms_okD [OF assms(1)] and ex = held_excl [OF assms(1,2)]
  have v: "\<not> upgrading v" "wait_state_ok v" "\<not> excl v" "\<not> asleep v" using assms(3) by auto
  have "\<not> 1 \<le> cnt (\<lambda>s. s = HoldS) th"
  proof -
    have "{x. th x = HoldS} = {}" using ex(4) assms(2) by (metis (mono_tags, lifting) empty_Collect_eq tstate.distinct(19))
    then show ?thesis by (simp add: cnt_def)
  qed
  then have none: "cnt (\<lambda>s. s = HoldS) th = 0" using cnt_nonneg [of "\<lambda>s. s = HoldS" th] by linarith
  show "finite {x. (th(t := v)) x \<noteq> Idle}" by (rule finite_upd [OF ok(1)])
  show "wait_state_ok ((th(t := v)) x)" for x using ok(2) v by simp
  show "cs_upgrade c' = cnt upgrading (th(t := v))" using ok(3) assms(2,4) v by (simp add: cnt_upd [OF ok(1)])
  show "cs_count c' = cnt (\<lambda>s. s = HoldS) (th(t := v))" using none assms(2,5) by (simp add: cnt_upd [OF ok(1)])
  show "\<not> excl ((th(t := v)) x)" for x using ex(4) v by simp
  show "still_blocked c' ((th(t := v)) x)" if "\<not> cs_blocked c'" for x
    using still_blocked_asleep [OF ok(4)] that assms(7) v by (intro still_blocked_awake) auto
qed

lemma ok_unlock:
  assumes "ccms_ok (c, th)" "may_unlock (th t)" "ccms_thread_unlock t c = Some (c', w)"
  shows "ccms_ok (c', wake_if w (th(t := unlocked (th t))))"
proof (cases "th t")
  case (HoldX n u)
  note ex = held_excl [OF assms(1) HoldX]
  show ?thesis
  proof (cases "1 < n")
    case True
    then have "c' = c\<lparr>cs_count := cs_count c + 1\<rparr>" "\<not> w" using assms(3) ex by (auto simp: ccms_thread_unlock_def)
    then show ?thesis
      using True ex HoldX by (auto simp: wake_if_def intro!: ok_excl_upd [OF assms(1)])
  next
    case False
    then have n: "n = 1" "\<not> u" using ex(3) assms(2) HoldX by auto
    then have "ccms_wake (c\<lparr>cs_count := 0, cs_td := None\<rparr>) = (c', w)" using assms(3) ex by (simp add: ccms_thread_unlock_def)
    then show ?thesis using ok_release [OF assms(1), of t u Idle "c\<lparr>cs_count := 0, cs_td := None\<rparr>" c' w] HoldX n by simp
  qed
next
  case HoldS
  note ok = ccms_okD [OF assms(1)] and pos = held_shared [OF assms(1) HoldS]
  have sh: "cs_td c = None" "cs_count c = cnt (\<lambda>s. s = HoldS) th" "\<And>x. \<not> excl (th x)"
    using not_excl [OF assms(1)] pos by simp_all
  let ?c = "c\<lparr>cs_count := cs_count c - 1\<rparr>"
  have left: "cs_count c - 1 = cnt (\<lambda>s. s = HoldS) (th(t := Idle))" "cs_upgrade c = cnt upgrading (th(t := Idle))"
    using sh(2) ok(3) HoldS by (simp_all add: cnt_upd [OF ok(1)])
  have run: "(if cs_count c = 1 \<and> cs_blocked c then (?c\<lparr>cs_blocked := False\<rparr>, True) else (?c, False)) = (c', w)"
    using assms(3) pos by (simp add: ccms_thread_unlock_def Let_def)
  show ?thesis
  proof (cases "cs_count c = 1")
    case True
    then have "ccms_wake ?c = (c', w)" using run by (cases "cs_blocked c") (auto simp: ccms_wake_def)
    moreover have "still_blocked ?c ((th(t := Idle)) x)" if "\<not> cs_blocked ?c" for x
      using still_blocked_asleep [OF ok(4)] that by (intro still_blocked_awake) auto
    moreover have "wait_state_ok ((th(t := Idle)) x)" "\<not> excl ((th(t := Idle)) x)" for x using ok(2) sh(3) by simp_all
    ultimately have "ccms_ok (c', wake_if w (th(t := Idle)))"
      using sh(1) left by (intro ok_wake [OF finite_upd [OF ok(1)]]) (simp_all del: fun_upd_apply)
    then show ?thesis using HoldS by simp
  next
    case False
    have "still_blocked ?c v" if "still_blocked c v" for v
      using that pos False by (induction c v rule: still_blocked.induct) (auto split: if_splits)
    then have "ccms_ok (?c, th(t := Idle))"
      using ok(2,4) sh left finite_upd [OF ok(1)] by (intro ccms_okI) simp_all
    then show ?thesis using False run HoldS by (auto simp: wake_if_def)
  qed
qed (use assms(2) in simp_all)

lemma ok_setown:
  assumes "ccms_ok (c, th)" "th t = HoldX n u" "th t' = Idle"
  shows "ccms_ok (c\<lparr>cs_td := Some t'\<rparr>, th(t := Idle, t' := HoldX n u))"
proof (rule ok_exclI [where t = t' and n = n and u = u])
  note ok = ccms_okD [OF assms(1)] and ex = held_excl [OF assms(1,2)]
  let ?th = "th(t := Idle)"
  have ne: "t \<noteq> t'" using assms(2,3) by auto
  show "finite {x. (?th(t' := HoldX n u)) x \<noteq> Idle}" by (intro finite_upd ok(1))
  show "wait_state_ok ((?th(t' := HoldX n u)) x)" for x using ok(2) ex(3) by simp
  show "cs_upgrade (c\<lparr>cs_td := Some t'\<rparr>) = cnt upgrading (?th(t' := HoldX n u))"
  proof -
    have "cnt upgrading (?th(t' := HoldX n u)) = cnt upgrading ?th + of_bool u"
      using cnt_upd [OF finite_upd [OF ok(1)], of upgrading t Idle t' "HoldX n u"] assms(3) ne by (simp del: fun_upd_apply add: fun_upd_other)
    moreover have "cnt upgrading ?th = cnt upgrading th - of_bool u" using cnt_upd [OF ok(1), of upgrading t Idle] assms(2) by simp
    ultimately show ?thesis using ok(3) by simp
  qed
  show "cs_count (c\<lparr>cs_td := Some t'\<rparr>) = - int n" using ex by simp
  show "cs_blocked (c\<lparr>cs_td := Some t'\<rparr>)" if "asleep ((?th(t' := HoldX n u)) x)" for x
    using that still_blocked_asleep [OF ok(4)] by (auto split: if_splits)
  show "\<not> excl ((?th(t' := HoldX n u)) x) \<and> (?th(t' := HoldX n u)) x \<noteq> HoldS" if "x \<noteq> t'" for x
    using that ex(4) by simp
qed simp_all

text \<open>A call that does not block is a call of the blocking function that took the lock, or failed.\<close>

lemma nonblock_cases:
  assumes "ccms_thread_lock_nonblock t s c = Some (c', e)"
  shows "e = 0 \<and> ccms_thread_lock t s c = Some (Locked c') \<or>
    e = EBUSY \<and> c' = c \<and> ccms_thread_lock t s c = Some (Sleeping (c\<lparr>cs_blocked := True\<rparr>))"
  using assms
  by (auto simp: ccms_thread_lock_nonblock_def ccms_thread_lock_def ccms_lock_pass_def Let_def kkassert_bind split: if_splits)

lemma ok_lock:
  assumes "ccms_ok (c, th)" "may_lock (th t)" "lock_state s" "ccms_thread_lock t s c = Some r"
  shows "ccms_ok (after_lock t s th r)"
proof (cases "th t")
  case Idle
  then have "ccms_lock_pass t s c = Some r"
    using not_owner [OF assms(1), of t] assms(4) by (auto simp: ccms_thread_lock_def split: if_splits)
  then show ?thesis using ok_pass_lock [OF assms(1) _ assms(3), of t r] Idle by (cases r) (simp_all add: after_lock_def)
next
  case (HoldX n u)
  then have "r = Locked (c\<lparr>cs_count := cs_count c - 1\<rparr>)"
    using held_excl [OF assms(1) HoldX] assms(4) by (simp add: ccms_thread_lock_def)
  then show ?thesis using ok_recursion [OF assms(1) HoldX] HoldX by (simp add: after_lock_def)
qed (use assms(2) in simp_all)

lemma step_ok:
  assumes "ccms_step st st'" "ccms_ok st"
  shows "ccms_ok st'"
  using assms
proof (induction rule: ccms_step.induct)
  case (lock th t s c r)
  then show ?case by (intro ok_lock) simp_all
next
  case (retry_lock th t s a c r)
  have "lock_state s" using ccms_okD(2) [OF retry_lock.prems, of t] retry_lock.hyps(1) by simp
  then show ?case using ok_pass_lock [OF retry_lock.prems _ _ retry_lock.hyps(2)] retry_lock.hyps(1)
    by (cases r) (simp_all add: after_lock_def)
next
  case (nonblock th t s c c' e)
  show ?case
  proof (cases "e = 0")
    case True
    then have "ccms_thread_lock t s c = Some (Locked c')" using nonblock_cases [OF nonblock.hyps(3)] by simp
    from ok_lock [OF nonblock.prems nonblock.hyps(1,2) this] show ?thesis using True by (simp add: after_lock_def)
  next
    case False
    then show ?thesis using nonblock_cases [OF nonblock.hyps(3)] nonblock.prems by simp
  qed
next
  case (upgrade th t c r ostate)
  then show ?case by (intro ok_upgrade)
next
  case (upgrade_excl th t n u c c' ostate)
  then have "c' = c" using held_excl [OF upgrade_excl.prems upgrade_excl.hyps(1)] by (simp add: ccms_thread_lock_upgrade_def)
  then show ?case using upgrade_excl.prems by simp
next
  case (retry_upgrade th t a c)
  then show ?case by (intro ok_retry_upgrade)
next
  case (downgrade th t c c' w)
  then show ?case using held_excl [OF downgrade.prems downgrade.hyps(1)]
    by (intro ok_release [where u = True and c = c]) (simp_all add: ccms_thread_lock_downgrade_def)
next
  case (unlock th t c c' w)
  then show ?case by (intro ok_unlock)
next
  case (unlock_upgraded th t c c' w)
  then show ?case using held_excl [OF unlock_upgraded.prems unlock_upgraded.hyps(1)]
    by (intro ok_release [where u = True and c = c]) (simp_all add: ccms_thread_unlock_upgraded_def)
next
  case (setown th t n u t' c c')
  then have "c' = c\<lparr>cs_td := Some t'\<rparr>" by (auto simp: ccms_thread_lock_setown_def kkassert_bind split: if_splits)
  then show ?case using ok_setown [OF setown.prems setown.hyps(1,2)] by simp
qed

lemma start_ok: "ccms_ok ccms_start"
  by (simp add: ccms_ok_def ccms_start_def ccms_cst_init_def cnt_def)

lemma reachable_ok: "ccms_step\<^sup>*\<^sup>* ccms_start st \<Longrightarrow> ccms_ok st"
  by (induction rule: rtranclp_induct) (auto intro: start_ok step_ok)

section \<open>Claims\<close>

text \<open>C17: However the threads interleave, an exclusive holder is alone: no other thread holds the lock shared
or exclusively, the owner field names the holder and the count is minus its depth of recursion; when no
thread holds it exclusively the owner field is empty and the count is the number of shared holders.\<close>

theorem ccms_mutual_exclusion:
  assumes "ccms_step\<^sup>*\<^sup>* ccms_start (c, th)"
  shows "(\<forall>t n u. th t = HoldX n u \<longrightarrow> cs_td c = Some t \<and> cs_count c = - int n \<and>
      (\<forall>t'. t' \<noteq> t \<longrightarrow> th t' \<noteq> HoldS \<and> (\<forall>m v. th t' \<noteq> HoldX m v))) \<and>
    ((\<forall>t n u. th t \<noteq> HoldX n u) \<longrightarrow> cs_td c = None \<and> cs_count c = int (card {t. th t = HoldS}))"
proof -
  note ok = reachable_ok [OF assms]
  have "cs_td c = Some t \<and> cs_count c = - int n \<and> (\<forall>t'. t' \<noteq> t \<longrightarrow> th t' \<noteq> HoldS \<and> (\<forall>m v. th t' \<noteq> HoldX m v))"
    if "th t = HoldX n u" for t n u
    using held_excl [OF ok that] by (auto simp: excl_def)
  moreover have "cs_td c = None \<and> cs_count c = int (card {t. th t = HoldS})" if "\<forall>t n u. th t \<noteq> HoldX n u"
  proof -
    have "0 \<le> cs_count c" using owned [OF ok] that by (metis not_le)
    then show ?thesis using not_excl [OF ok] by (simp add: cnt_def)
  qed
  ultimately show ?thesis by blast
qed

definition demo_cst :: ccms_cst where
  "demo_cst = ccms_cst_init\<lparr>cs_count := - 1, cs_upgrade := 1, cs_td := Some 1\<rparr>"

definition demo_th :: "thread \<Rightarrow> tstate" where
  "demo_th = (\<lambda>t. Idle)(1 := HoldX 1 True)"

lemma demo_run: "ccms_step\<^sup>*\<^sup>* ccms_start (demo_cst, demo_th)"
proof -
  let ?c = "ccms_cst_init\<lparr>cs_count := 1\<rparr>" and ?th = "(\<lambda>t. Idle)(1 := HoldS)"
  have "ccms_step (ccms_cst_init, \<lambda>t. Idle) (after_lock 1 CCMS_STATE_SHARED (\<lambda>t. Idle) (Locked ?c))"
    by (rule ccms_step.lock) (simp_all add: lock_state_def ccms_thread_lock_def ccms_lock_pass_def ccms_cst_init_def Let_def)
  then have s: "ccms_step (ccms_cst_init, \<lambda>t. Idle) (?c, ?th)" by (simp add: after_lock_def)
  have "ccms_step (?c, ?th) (after_upgrade 1 ?th (Locked demo_cst))"
    by (rule ccms_step.upgrade) (simp_all add: ccms_thread_lock_upgrade_def ccms_upgrade_pass_def ccms_cst_init_def demo_cst_def)
  then have u: "ccms_step (?c, ?th) (demo_cst, demo_th)" by (simp add: after_upgrade_def demo_th_def)
  show ?thesis unfolding ccms_start_def using s u by (meson rtranclp.rtrancl_into_rtrancl rtranclp.rtrancl_refl)
qed

theorem ccms_mutual_exclusion_witness:
  "cs_td demo_cst = Some 1 \<and> demo_th 2 \<noteq> HoldS"
proof -
  have "demo_th 1 = HoldX 1 True" by (simp add: demo_th_def)
  then have "cs_td demo_cst = Some 1" "\<forall>t'. t' \<noteq> 1 \<longrightarrow> demo_th t' \<noteq> HoldS"
    using ccms_mutual_exclusion [OF demo_run] by blast+
  then show ?thesis by simp
qed

text \<open>C20: No call that the protocol of the lock permits panics, in any state the threads can reach: no
assertion of the lock fails and none of its panics is taken.\<close>

theorem ccms_no_panic:
  assumes "ccms_step\<^sup>*\<^sup>* ccms_start (c, th)"
  shows "(may_lock (th t) \<and> lock_state s \<longrightarrow> ccms_thread_lock t s c \<noteq> None \<and> ccms_thread_lock_nonblock t s c \<noteq> None) \<and>
    (th t = WaitL s a \<longrightarrow> ccms_lock_pass t s c \<noteq> None) \<and>
    (th t = HoldS \<or> th t = HoldX n u \<longrightarrow>
       ccms_thread_lock_upgrade t c \<noteq> None \<and> ccms_thread_unlock t c \<noteq> None \<and> ccms_thread_lock_temp_release t c \<noteq> None) \<and>
    (th t = HoldX 1 True \<longrightarrow> ccms_thread_lock_downgrade t CCMS_STATE_SHARED c \<noteq> None \<and>
       ccms_thread_unlock_upgraded t CCMS_STATE_SHARED c \<noteq> None) \<and>
    (th t = HoldX n u \<longrightarrow> ccms_thread_lock_setown t' c \<noteq> None)"
proof -
  note ok = reachable_ok [OF assms]
  have pass: "ccms_lock_pass t s c \<noteq> None" if "lock_state s"
    using that not_excl(1) [OF ok] by (auto simp: ccms_lock_pass_def lock_state_def kkassert_bind Let_def)
  have "ccms_thread_lock t s c \<noteq> None" if "lock_state s" using pass [OF that] by (simp add: ccms_thread_lock_def)
  moreover have "ccms_thread_lock_nonblock t s c \<noteq> None" if "lock_state s"
    using that not_excl(1) [OF ok] by (auto simp: ccms_thread_lock_nonblock_def lock_state_def kkassert_bind Let_def)
  moreover have "lock_state s" if "th t = WaitL s a" using ccms_okD(2) [OF ok, of t] that by simp
  moreover have "ccms_thread_lock_upgrade t c \<noteq> None \<and> ccms_thread_unlock t c \<noteq> None" if "th t = HoldS"
    using held_shared [OF ok that] by (simp add: ccms_thread_lock_upgrade_def ccms_thread_unlock_def Let_def)
  moreover have "ccms_thread_lock_upgrade t c \<noteq> None \<and> ccms_thread_unlock t c \<noteq> None \<and> ccms_thread_lock_setown t' c \<noteq> None"
    if "th t = HoldX n u" for n u
    using held_excl [OF ok that]
    by (auto simp: ccms_thread_lock_upgrade_def ccms_thread_unlock_def ccms_thread_lock_setown_def kkassert_bind)
  moreover have "ccms_thread_lock_downgrade t CCMS_STATE_SHARED c \<noteq> None \<and> ccms_thread_unlock_upgraded t CCMS_STATE_SHARED c \<noteq> None"
    if "th t = HoldX 1 True"
    using held_excl [OF ok that] by (simp add: ccms_thread_lock_downgrade_def ccms_thread_unlock_upgraded_def)
  moreover have "ccms_thread_lock_temp_release t c \<noteq> None" if "ccms_thread_unlock t c \<noteq> None"
    using that by (auto simp: ccms_thread_lock_temp_release_def)
  ultimately show ?thesis using pass by blast
qed

theorem ccms_no_panic_witness:
  "ccms_thread_unlock_upgraded 1 CCMS_STATE_SHARED demo_cst \<noteq> None"
  using ccms_no_panic [OF demo_run, of 1 CCMS_STATE_SHARED False 1 True 2] by (simp add: demo_th_def)

text \<open>C18: No wakeup is lost: a thread that has slept since the last wakeup still has to wait, and the lock
remembers that it has to be woken.\<close>

theorem ccms_no_lost_wakeup:
  assumes "ccms_step\<^sup>*\<^sup>* ccms_start (c, th)"
  shows "(th t = WaitL CCMS_STATE_SHARED True \<longrightarrow> cs_blocked c \<and> (cs_count c < 0 \<or> cs_upgrade c \<noteq> 0)) \<and>
    (th t = WaitL CCMS_STATE_EXCLUSIVE True \<longrightarrow> cs_blocked c \<and> (cs_count c \<noteq> 0 \<or> cs_upgrade c \<noteq> 0)) \<and>
    (th t = WaitU True \<longrightarrow> cs_blocked c \<and> cs_count c \<noteq> 0)"
  using ccms_okD(4) [OF reachable_ok [OF assms], of t] by auto

lemma demo_wait: "ccms_step\<^sup>*\<^sup>* ccms_start (demo_cst\<lparr>cs_blocked := True\<rparr>, demo_th(2 := WaitL CCMS_STATE_EXCLUSIVE True))"
proof -
  have "ccms_step (demo_cst, demo_th) (after_lock 2 CCMS_STATE_EXCLUSIVE demo_th (Sleeping (demo_cst\<lparr>cs_blocked := True\<rparr>)))"
    by (rule ccms_step.lock)
      (simp_all add: lock_state_def ccms_thread_lock_def ccms_lock_pass_def demo_cst_def demo_th_def ccms_cst_init_def)
  then show ?thesis using demo_run by (simp add: after_lock_def)
qed

theorem ccms_no_lost_wakeup_witness:
  "cs_blocked (demo_cst\<lparr>cs_blocked := True\<rparr>) \<and> \<not> (cs_count demo_cst = 0 \<and> cs_upgrade demo_cst = 0)"
  using ccms_no_lost_wakeup [OF demo_wait, of 2] by simp

text \<open>C19: The lock makes progress: when threads wait and none holds it, a waiting thread that tries again takes
it, and one that waits for an upgrade comes first, since every other call sleeps while one waits.\<close>

theorem ccms_progress:
  assumes "ccms_step\<^sup>*\<^sup>* ccms_start (c, th)" "\<forall>t. th t \<noteq> HoldS \<and> (\<forall>n u. th t \<noteq> HoldX n u)" "th t \<noteq> Idle"
  shows "if \<exists>t a. th t = WaitU a
    then (\<forall>t a. th t = WaitU a \<longrightarrow> (\<exists>c'. ccms_upgrade_pass t c = Locked c')) \<and>
         (\<forall>t s. lock_state s \<longrightarrow> (\<exists>c'. ccms_thread_lock t s c = Some (Sleeping c')))
    else \<exists>s a c'. th t = WaitL s a \<and> ccms_lock_pass t s c = Some (Locked c')"
proof -
  note ok = reachable_ok [OF assms(1)]
  have nonneg: "0 \<le> cs_count c" using owned [OF ok] assms(2) by (metis not_le)
  have "cs_count c = cnt (\<lambda>s. s = HoldS) th" by (rule not_excl(2) [OF ok nonneg])
  then have count: "cs_count c = 0" using assms(2) by (simp add: cnt_def)
  note td = no_holders(3) [OF ok count]
  show ?thesis
  proof (cases "\<exists>t a. th t = WaitU a")
    case True
    then obtain x a where "th x = WaitU a" by auto
    then have "1 \<le> cnt upgrading th" using cnt_pos [OF ccms_okD(1) [OF ok], of upgrading x] by simp
    then have "cs_upgrade c \<noteq> 0" using ccms_okD(3) [OF ok] by simp
    then show ?thesis using True count
      by (auto simp: ccms_upgrade_pass_def ccms_thread_lock_def ccms_lock_pass_def lock_state_def)
  next
    case False
    then obtain s a where t: "th t = WaitL s a" using assms(2,3) by (cases "th t") auto
    have "cnt upgrading th = 0" using False assms(2) by (simp add: cnt_def upgrading_def)
    then have "cs_upgrade c = 0" using ccms_okD(3) [OF ok] by simp
    moreover have "lock_state s" using ccms_okD(2) [OF ok, of t] t by simp
    ultimately show ?thesis using False t count td
      by (auto simp: ccms_lock_pass_def lock_state_def kkassert_bind Let_def)
  qed
qed

theorem ccms_progress_witness:
  "\<exists>c th t s c'. ccms_step\<^sup>*\<^sup>* ccms_start (c, th) \<and> th t = WaitL s False \<and> ccms_lock_pass t s c = Some (Locked c')"
proof -
  let ?c = "demo_cst\<lparr>cs_blocked := True\<rparr>" and ?th = "demo_th(2 := WaitL CCMS_STATE_EXCLUSIVE True)"
  let ?c' = "ccms_cst_init" and ?th' = "(\<lambda>t :: thread. Idle)(2 := WaitL CCMS_STATE_EXCLUSIVE False)"
  have "ccms_step (?c, ?th) (?c', wake_if True (?th(1 := Idle)))"
    by (rule ccms_step.unlock_upgraded)
      (simp_all add: demo_th_def demo_cst_def ccms_cst_init_def ccms_thread_unlock_upgraded_def ccms_wake_def)
  moreover have "wake_if True (?th(1 := Idle)) = ?th'" by (auto simp: wake_if_def demo_th_def fun_eq_iff)
  ultimately have run: "ccms_step\<^sup>*\<^sup>* ccms_start (?c', ?th')" using demo_wait by simp
  have free: "\<forall>t. ?th' t \<noteq> HoldS \<and> (\<forall>n u. ?th' t \<noteq> HoldX n u)" and wait: "?th' 2 \<noteq> Idle" by simp_all
  have noup: "\<not> (\<exists>t a. ?th' t = WaitU a)" by simp
  have "\<exists>s a c'. ?th' 2 = WaitL s a \<and> ccms_lock_pass 2 s ?c' = Some (Locked c')"
    by (rule ccms_progress [OF run free wait, unfolded if_not_P [OF noup]])
  then obtain s a c' where w: "?th' 2 = WaitL s a" "ccms_lock_pass 2 s ?c' = Some (Locked c')" by blast
  then have "?th' 2 = WaitL s False" by simp
  then show ?thesis using run w(2) by blast
qed

end
