(* ===== verification/H2_Cluster.thy ===== *)
theory H2_Cluster
  imports H2_Blockmap
begin

text \<open>
  The quorum of \<open>sys/hammer2/hammer2_cluster.c\<close>: \<open>hammer2_cluster_check\<close> looks at the elements that the
  nodes of a cluster returned for a key and decides whether enough masters agree.

  A pointer to a chain of the cluster is the index of its item; different items have different chains.
  The debug output and the \<open>hammer2_debug\<close> panic are left out.
\<close>

section \<open>State\<close>

abbreviation (input) HAMMER2_TID_MAX :: h2_tid where "HAMMER2_TID_MAX \<equiv> - 1"
abbreviation (input) PFSTYPE_SLAVE :: u8 where "PFSTYPE_SLAVE \<equiv> 3"
abbreviation (input) PFSTYPE_SOFT_SLAVE :: u8 where "PFSTYPE_SOFT_SLAVE \<equiv> 4"
abbreviation (input) PFSTYPE_SOFT_MASTER :: u8 where "PFSTYPE_SOFT_MASTER \<equiv> 5"
abbreviation (input) PFSTYPE_MASTER :: u8 where "PFSTYPE_MASTER \<equiv> 6"
abbreviation (input) PFSTYPE_SUPROOT :: u8 where "PFSTYPE_SUPROOT \<equiv> 8"

abbreviation (input) CITEM_INVALID :: u32 where "CITEM_INVALID \<equiv> 1"
abbreviation (input) CITEM_FEMOD :: u32 where "CITEM_FEMOD \<equiv> 2"
abbreviation (input) CITEM_NULL :: u32 where "CITEM_NULL \<equiv> 4"
abbreviation (input) CHECK_NULL :: u32 where "CHECK_NULL \<equiv> 1"
abbreviation (input) CHAIN_PFSBOUNDARY :: u32 where "CHAIN_PFSBOUNDARY \<equiv> 0x00400000"

abbreviation (input) CLUSTER_WRHARD :: u32 where "CLUSTER_WRHARD \<equiv> 0x100"
abbreviation (input) CLUSTER_RDHARD :: u32 where "CLUSTER_RDHARD \<equiv> 0x200"
abbreviation (input) CLUSTER_NOHARD :: u32 where "CLUSTER_NOHARD \<equiv> 0x800"
abbreviation (input) CLUSTER_WRSOFT :: u32 where "CLUSTER_WRSOFT \<equiv> 0x1000"
abbreviation (input) CLUSTER_RDSOFT :: u32 where "CLUSTER_RDSOFT \<equiv> 0x2000"
abbreviation (input) CLUSTER_NOSOFT :: u32 where "CLUSTER_NOSOFT \<equiv> 0x8000"
abbreviation (input) CLUSTER_MSYNCED :: u32 where "CLUSTER_MSYNCED \<equiv> 0x10000"
abbreviation (input) CLUSTER_SSYNCED :: u32 where "CLUSTER_SSYNCED \<equiv> 0x20000"
abbreviation (input) CLUSTER_ZFLAGS :: u32 where "CLUSTER_ZFLAGS \<equiv> 0x33300"

abbreviation (input) H2_EIO :: int where "H2_EIO \<equiv> 0x1"
abbreviation (input) H2_ENOENT :: int where "H2_ENOENT \<equiv> 0x40"
abbreviation (input) H2_EINPROGRESS :: int where "H2_EINPROGRESS \<equiv> 0x800"
abbreviation (input) H2_EDEADLK :: int where "H2_EDEADLK \<equiv> 0x10000"
abbreviation (input) H2_ESRCH :: int where "H2_ESRCH \<equiv> 0x20000"

text \<open>The fields of a chain that the check reads, beside its reference and flags.\<close>

record cl_chain = chain +
  ch_error :: int
  ch_bytes :: u32

record cluster_item =
  ci_chain :: "cl_chain option"
  ci_error :: int
  ci_flags :: u32

record pfs =
  pfs_types :: "u8 list"
  pfs_nmasters :: u8

record cluster =
  cl_ddflag :: bool
  cl_pmp :: "pfs option"
  cl_flags :: u32
  cl_error :: int
  cl_focus_index :: nat
  cl_focus :: "nat option"
  cl_array :: "cluster_item list"

definition item_flags :: "nat \<Rightarrow> (u32 \<Rightarrow> u32) \<Rightarrow> cluster \<Rightarrow> cluster" where
  "item_flags i f cl = cl\<lparr>cl_array := (cl_array cl)[i := (cl_array cl ! i)\<lparr>ci_flags := f (ci_flags (cl_array cl ! i))\<rparr>]\<rparr>"

abbreviation (input) cl_chain_at :: "cluster \<Rightarrow> nat \<Rightarrow> cl_chain option" where
  "cl_chain_at cl i \<equiv> ci_chain (cl_array cl ! i)"

section \<open>Pass 1\<close>

text \<open>The state: the cluster, \<open>nflags\<close>, \<open>ttlmasters\<close>, \<open>ttlslaves\<close>.\<close>

definition check_pass1 :: "pfs \<Rightarrow> nat \<Rightarrow> cluster \<times> u32 \<times> int \<times> int \<Rightarrow> cluster \<times> u32 \<times> int \<times> int" where
  "check_pass1 pmp i st = (case st of (cl, nflags, ttlmasters, ttlslaves) \<Rightarrow>
     let cl = item_flags i (\<lambda>f. (f AND NOT CITEM_FEMOD) OR CITEM_INVALID) cl;
         ch = cl_chain_at cl i;
         error = ci_error (cl_array cl ! i);
         ty = pfs_types pmp ! i
     in if ch \<noteq> None \<and> error \<noteq> 0 then
          (if ty = PFSTYPE_SUPROOT \<or> ty = PFSTYPE_MASTER then (cl, nflags, ttlmasters + 1, ttlslaves)
           else if ty = PFSTYPE_SLAVE then (cl, nflags, ttlmasters, ttlslaves + 1)
           else (cl, nflags, ttlmasters, ttlslaves))
        else if ty = PFSTYPE_MASTER then (cl, nflags, ttlmasters + 1, ttlslaves)
        else if ty = PFSTYPE_SLAVE then (cl, nflags, ttlmasters, ttlslaves + 1)
        else if ty = PFSTYPE_SOFT_MASTER then (cl, nflags OR CLUSTER_WRSOFT OR CLUSTER_RDSOFT, ttlmasters, ttlslaves)
        else if ty = PFSTYPE_SOFT_SLAVE then (cl, nflags OR CLUSTER_RDSOFT, ttlmasters, ttlslaves)
        else if ty = PFSTYPE_SUPROOT then
          (cl\<lparr>cl_focus_index := i, cl_focus := (if ch = None then None else Some i), cl_error := error\<rparr>,
           nflags OR CLUSTER_WRHARD OR CLUSTER_RDHARD, ttlmasters + 1, ttlslaves)
        else (cl, nflags, ttlmasters, ttlslaves))"

section \<open>Pass 2\<close>

text \<open>The state of the loops: \<open>umasters\<close>, \<open>nmasters\<close>, \<open>nmasters_keymatch\<close>, \<open>quorum_tid\<close>.\<close>

record quorum =
  q_umasters :: int
  q_nmasters :: int
  q_keymatch :: int
  q_tid :: h2_tid

definition check_pass2_item ::
  "pfs \<Rightarrow> h2_key \<Rightarrow> u32 \<Rightarrow> h2_tid \<Rightarrow> nat \<Rightarrow> cluster \<times> quorum \<Rightarrow> cluster \<times> quorum" where
  "check_pass2_item pmp key flags last_tid i st = (case st of (cl, q) \<Rightarrow>
     if pfs_types pmp ! i \<noteq> PFSTYPE_MASTER \<and> pfs_types pmp ! i \<noteq> PFSTYPE_SUPROOT then (cl, q)
     else
       (let error = ci_error (cl_array cl ! i) in
        case cl_chain_at cl i of
          None \<Rightarrow>
            if ci_flags (cl_array cl ! i) AND CITEM_NULL = 0 then (cl, q\<lparr>q_umasters := q_umasters q + 1\<rparr>)
            else if flags AND CHECK_NULL \<noteq> 0 then
              (if cl_error cl = 0 then cl\<lparr>cl_error := error\<rparr> else cl,
               q\<lparr>q_nmasters := q_nmasters q + 1, q_keymatch := q_keymatch q + 1\<rparr>)
            else (cl, q)
        | Some ch \<Rightarrow>
            if flags AND CHECK_NULL \<noteq> 0 then (cl, q)
            else if key = - 1 \<or> br_key (ch_bref ch) = key then
              (let q = q\<lparr>q_keymatch := q_keymatch q + 1\<rparr>;
                   tid = br_modify_tid (ch_bref ch);
                   q = (if tid < last_tid \<and> q_tid q < tid then q\<lparr>q_nmasters := 0, q_tid := tid\<rparr> else q)
               in if q_tid q = tid then
                    (if ch_error ch = 0 then cl\<lparr>cl_focus := Some i, cl_focus_index := i\<rparr> else cl,
                     q\<lparr>q_nmasters := q_nmasters q + 1\<rparr>)
                  else (cl, q))
            else (cl, q)))"

definition check_pass2_scan :: "pfs \<Rightarrow> h2_key \<Rightarrow> u32 \<Rightarrow> h2_tid \<Rightarrow> cluster \<Rightarrow> cluster \<times> quorum" where
  "check_pass2_scan pmp key flags last_tid cl =
     fold (check_pass2_item pmp key flags last_tid) [0..<length (cl_array cl)]
       (cl, \<lparr>q_umasters = 0, q_nmasters = 0, q_keymatch = 0, q_tid = 0\<rparr>)"

lemma pass2_item_below: "last_tid \<noteq> 0 \<Longrightarrow> q_tid (snd st) < last_tid \<Longrightarrow>
   q_tid (snd (check_pass2_item pmp key flags last_tid i st)) < last_tid"
  by (cases st) (auto simp: check_pass2_item_def Let_def split: option.splits)

lemma pass2_scan_below:
  assumes "last_tid \<noteq> 0" "check_pass2_scan pmp key flags last_tid cl = (cl', q)"
  shows "q_tid q < last_tid"
proof -
  have "q_tid (snd (fold (check_pass2_item pmp key flags last_tid) xs st)) < last_tid" if "q_tid (snd st) < last_tid" for xs st
    using that by (induction xs arbitrary: st) (simp_all add: pass2_item_below [OF assms(1)])
  moreover have "0 < last_tid" using assms(1) word_gt_0 by blast
  ultimately have "q_tid (snd (check_pass2_scan pmp key flags last_tid cl)) < last_tid"
    unfolding check_pass2_scan_def by (metis quorum.select_convs(4) snd_conv)
  then show ?thesis using assms(2) by simp
qed

function check_pass2 :: "pfs \<Rightarrow> int \<Rightarrow> h2_key \<Rightarrow> u32 \<Rightarrow> h2_tid \<Rightarrow> cluster \<Rightarrow> quorum \<Rightarrow> cluster \<times> quorum" where
  "check_pass2 pmp nquorum key flags last_tid cl q =
     (if q_nmasters q < nquorum \<and> last_tid \<noteq> 0 then
        (case check_pass2_scan pmp key flags last_tid cl of (cl, q) \<Rightarrow>
           if nquorum \<le> q_nmasters q then (cl, q)
           else check_pass2 pmp nquorum key flags (q_tid q) cl q)
      else (cl, q))"
  by pat_completeness auto
termination
proof (relation "measure (\<lambda>(pmp, nquorum, key, flags, last_tid, cl, q). unat last_tid)")
  fix pmp nquorum key flags last_tid cl and q :: quorum and cl' q'
  assume "q_nmasters q < nquorum \<and> last_tid \<noteq> 0" "(cl', q') = check_pass2_scan pmp key flags last_tid cl"
  then have "q_tid q' < last_tid" by (intro pass2_scan_below [of last_tid pmp key flags cl cl']) simp_all
  then show "((pmp, nquorum, key, flags, q_tid q', cl', q'), (pmp, nquorum, key, flags, last_tid, cl, q))
      \<in> measure (\<lambda>(pmp, nquorum, key, flags, last_tid, cl, q). unat last_tid)"
    by (simp add: word_less_nat_alt)
qed simp

declare check_pass2.simps [simp del]

section \<open>Pass 3 and pass 4\<close>

text \<open>The state: the cluster, \<open>nflags\<close>, \<open>nslaves\<close>.\<close>

definition check_pass3 :: "pfs \<Rightarrow> h2_key \<Rightarrow> h2_tid \<Rightarrow> nat \<Rightarrow> cluster \<times> u32 \<times> int \<Rightarrow> cluster \<times> u32 \<times> int" where
  "check_pass3 pmp key tid i st = (case st of (cl, nflags, nslaves) \<Rightarrow>
     (case cl_chain_at cl i of
       None \<Rightarrow> st
     | Some ch \<Rightarrow>
         if br_key (ch_bref ch) \<noteq> key \<or> br_modify_tid (ch_bref ch) \<noteq> tid then st
         else
           (let cl = (if cl_error cl = 0 then cl\<lparr>cl_error := ci_error (cl_array cl ! i)\<rparr> else cl);
                ty = pfs_types pmp ! i;
                femod = item_flags i (\<lambda>f. (f OR CITEM_FEMOD) AND NOT CITEM_INVALID) cl;
                valid = item_flags i (\<lambda>f. f AND NOT CITEM_INVALID) cl
            in if ty = PFSTYPE_MASTER then (femod, nflags OR CLUSTER_WRHARD OR CLUSTER_RDHARD, nslaves)
               else if ty = PFSTYPE_SLAVE then (valid, nflags OR CLUSTER_RDHARD, nslaves + 1)
               else if ty = PFSTYPE_SOFT_MASTER then (femod, nflags, nslaves)
               else if ty = PFSTYPE_SOFT_SLAVE then (valid, nflags, nslaves)
               else if ty = PFSTYPE_SUPROOT then (femod, nflags OR CLUSTER_WRHARD OR CLUSTER_RDHARD, nslaves)
               else (cl, nflags, nslaves))))"

definition check_pass4 :: "nat \<Rightarrow> cl_chain \<Rightarrow> nat \<Rightarrow> cluster \<Rightarrow> cluster" where
  "check_pass4 focus fch i cl =
     (case cl_chain_at cl i of
        None \<Rightarrow> cl
      | Some ch \<Rightarrow>
          if i = focus \<or> ci_flags (cl_array cl ! i) AND CITEM_INVALID \<noteq> 0 then cl
          else
            (let ddflag = (br_type (ch_bref ch) = BREF_INODE) in
             if br_type (ch_bref ch) \<noteq> br_type (ch_bref fch) \<or> br_key (ch_bref ch) \<noteq> br_key (ch_bref fch) \<or>
                br_keybits (ch_bref ch) \<noteq> br_keybits (ch_bref fch) \<or>
                br_modify_tid (ch_bref ch) \<noteq> br_modify_tid (ch_bref fch) \<or>
                ch_bytes ch \<noteq> ch_bytes fch \<or> ddflag \<noteq> cl_ddflag cl
             then item_flags i (\<lambda>f. f OR CITEM_INVALID) cl else cl))"

definition check_validate :: "cluster \<Rightarrow> cluster" where
  "check_validate cl =
     (case cl_focus cl of
        None \<Rightarrow> cl\<lparr>cl_ddflag := False\<rparr>
      | Some f \<Rightarrow>
          (case cl_chain_at cl f of
             None \<Rightarrow> cl
           | Some fch \<Rightarrow>
               (let cl = cl\<lparr>cl_ddflag := (br_type (ch_bref fch) = BREF_INODE)\<rparr>
                in if ch_flags fch AND CHAIN_PFSBOUNDARY \<noteq> 0 then cl
                   else fold (check_pass4 f fch) [0..<length (cl_array cl)] cl)))"

section \<open>hammer2_cluster_check\<close>

definition cluster_nquorum :: "cluster \<Rightarrow> int" where
  "cluster_nquorum cl = (case cl_pmp cl of None \<Rightarrow> 0 | Some pmp \<Rightarrow> int (unat (pfs_nmasters pmp) div 2) + 1)"

text \<open>\<open>pmp\<close> may only be \<open>NULL\<close> for an empty cluster, which never reads it.\<close>

definition hammer2_cluster_check :: "cluster \<Rightarrow> h2_key \<Rightarrow> u32 \<Rightarrow> (int \<times> cluster) option" where
  "hammer2_cluster_check cl key flags = do {
     let cl = cl\<lparr>cl_error := 0, cl_focus := None\<rparr>;
     let n = length (cl_array cl);
     kkassert (cl_pmp cl \<noteq> None \<or> n = 0);
     let pmp = (case cl_pmp cl of None \<Rightarrow> \<lparr>pfs_types = [], pfs_nmasters = 0\<rparr> | Some pmp \<Rightarrow> pmp);
     let nquorum = cluster_nquorum cl;
     let (cl, nflags, ttlmasters, ttlslaves) = fold (check_pass1 pmp) [0..<n] (cl, 0, 0, 0);
     let (cl, q) = check_pass2 pmp nquorum key flags HAMMER2_TID_MAX cl
                     \<lparr>q_umasters = 0, q_nmasters = 0, q_keymatch = 0, q_tid = 0\<rparr>;
     if q_nmasters q < nquorum then
       Some (if nquorum \<le> q_nmasters q + q_umasters q then (H2_EINPROGRESS, cl)
             else if q_keymatch q < nquorum then (H2_ESRCH, cl)
             else (H2_EDEADLK, cl))
     else if flags AND CHECK_NULL \<noteq> 0 then
       (let cl = (if cl_error cl = 0 then cl\<lparr>cl_error := H2_ENOENT\<rparr> else cl) in Some (cl_error cl, cl))
     else if cl_focus cl = None then Some (H2_EIO, cl)
     else
       (let (cl, nflags, nslaves) = fold (check_pass3 pmp key (q_tid q)) [0..<n] (cl\<lparr>cl_error := 0\<rparr>, nflags, 0);
            cl = check_validate cl;
            nflags = (if ttlslaves = 0 then nflags OR CLUSTER_NOSOFT else nflags);
            nflags = (if ttlmasters = 0 then nflags OR CLUSTER_NOHARD else nflags);
            nflags = (if nslaves = ttlslaves then nflags OR CLUSTER_SSYNCED else nflags);
            nflags = (if q_nmasters q = ttlmasters then nflags OR CLUSTER_MSYNCED else nflags);
            cl = cl\<lparr>cl_flags := (cl_flags cl OR nflags) AND NOT (CLUSTER_ZFLAGS AND NOT nflags)\<rparr>
        in Some (cl_error cl, cl))
   }"

section \<open>The focus\<close>

definition cluster_focus_bref :: "cluster \<Rightarrow> blockref option" where
  "cluster_focus_bref cl =
     (case cl_focus cl of None \<Rightarrow> None | Some i \<Rightarrow> map_option ch_bref (cl_chain_at cl i))"

definition hammer2_cluster_type :: "cluster \<Rightarrow> u8 option" where
  "hammer2_cluster_type cl =
     (if cl_error cl = 0 then map_option br_type (cluster_focus_bref cl) else Some 0)"

definition hammer2_cluster_bref :: "cluster \<Rightarrow> blockref option" where
  "hammer2_cluster_bref cl =
     (if cl_error cl = 0 then map_option (br_data_off_update (\<lambda>_. 0)) (cluster_focus_bref cl) else Some bref_zero)"

end
