(* ===== verification/H2_ClusterProps.thy ===== *)
theory H2_ClusterProps
  imports H2_Cluster
begin

text \<open>
  What the quorum check decides: the highest transaction id for which enough masters hold the key, which
  elements it validates, and its answers when there is no quorum.
\<close>

section \<open>Votes\<close>

definition item_chains :: "cluster \<Rightarrow> cl_chain option list" where
  "item_chains cl = map ci_chain (cl_array cl)"

definition is_master :: "pfs \<Rightarrow> nat \<Rightarrow> bool" where
  "is_master pmp i \<longleftrightarrow> pfs_types pmp ! i = PFSTYPE_MASTER \<or> pfs_types pmp ! i = PFSTYPE_SUPROOT"

text \<open>Master \<open>i\<close> has an element for the key, with transaction id \<open>t\<close>.\<close>

definition has_tid :: "pfs \<Rightarrow> h2_key \<Rightarrow> cl_chain option list \<Rightarrow> nat \<Rightarrow> h2_tid \<Rightarrow> bool" where
  "has_tid pmp key cs i t \<longleftrightarrow> is_master pmp i \<and>
     (case cs ! i of None \<Rightarrow> False | Some ch \<Rightarrow> (key = - 1 \<or> br_key (ch_bref ch) = key) \<and> br_modify_tid (ch_bref ch) = t)"

definition has_key :: "pfs \<Rightarrow> h2_key \<Rightarrow> cl_chain option list \<Rightarrow> nat \<Rightarrow> bool" where
  "has_key pmp key cs i \<longleftrightarrow> (\<exists>t. has_tid pmp key cs i t)"

definition votes :: "pfs \<Rightarrow> h2_key \<Rightarrow> cl_chain option list \<Rightarrow> h2_tid \<Rightarrow> int" where
  "votes pmp key cs t = int (length (filter (\<lambda>i. has_tid pmp key cs i t) [0..<length cs]))"

definition key_votes :: "pfs \<Rightarrow> h2_key \<Rightarrow> cl_chain option list \<Rightarrow> int" where
  "key_votes pmp key cs = int (length (filter (has_key pmp key cs) [0..<length cs]))"

text \<open>Masters that have not answered.\<close>

definition unanswered :: "pfs \<Rightarrow> cluster \<Rightarrow> nat \<Rightarrow> bool" where
  "unanswered pmp cl i \<longleftrightarrow> is_master pmp i \<and> ci_chain (cl_array cl ! i) = None \<and> ci_flags (cl_array cl ! i) AND CITEM_NULL = 0"

definition pending :: "pfs \<Rightarrow> cluster \<Rightarrow> int" where
  "pending pmp cl = int (length (filter (unanswered pmp cl) [0..<length (cl_array cl)]))"

lemma item_chains_length [simp]: "length (item_chains cl) = length (cl_array cl)"
  by (simp add: item_chains_def)

lemma item_chains_nth: "i < length (cl_array cl) \<Longrightarrow> item_chains cl ! i = ci_chain (cl_array cl ! i)"
  by (simp add: item_chains_def)

lemma map_keep: "g x = g (xs ! i) \<Longrightarrow> map g (xs[i := x]) = map g xs"
  by (simp add: map_update) (metis list_update_beyond list_update_id map_update not_le nth_map)

lemma item_flags_simps [simp]:
  "item_chains (item_flags i f cl) = item_chains cl" "length (cl_array (item_flags i f cl)) = length (cl_array cl)"
  "map ci_error (cl_array (item_flags i f cl)) = map ci_error (cl_array cl)"
  "cl_error (item_flags i f cl) = cl_error cl" "cl_focus (item_flags i f cl) = cl_focus cl"
  "cl_pmp (item_flags i f cl) = cl_pmp cl"
  by (simp_all add: item_chains_def item_flags_def map_keep)

lemma item_chains_upd [simp]:
  "item_chains (cl\<lparr>cl_focus := x\<rparr>) = item_chains cl" "item_chains (cl\<lparr>cl_error := e\<rparr>) = item_chains cl"
  "item_chains (cl\<lparr>cl_focus_index := n\<rparr>) = item_chains cl" "item_chains (cl\<lparr>cl_ddflag := d\<rparr>) = item_chains cl" "item_chains (cl\<lparr>cl_flags := f\<rparr>) = item_chains cl"
  by (simp_all add: item_chains_def)

lemma item_flags_nth:
  "j < length (cl_array cl) \<Longrightarrow> ci_flags (cl_array (item_flags i f cl) ! j) =
     (if i = j then f (ci_flags (cl_array cl ! j)) else ci_flags (cl_array cl ! j))"
  by (simp add: item_flags_def nth_list_update)

section \<open>Pass 1\<close>

lemma pass1_item:
  assumes "check_pass1 pmp i (cl, st) = (cl', st')"
  shows "item_chains cl' = item_chains cl \<and> map ci_error (cl_array cl') = map ci_error (cl_array cl) \<and> cl_pmp cl' = cl_pmp cl \<and>
    map ci_flags (cl_array cl') = map ci_flags (cl_array (item_flags i (\<lambda>f. (f AND NOT CITEM_FEMOD) OR CITEM_INVALID) cl))"
  using assms by (cases st) (auto simp: check_pass1_def Let_def split: if_splits)

text \<open>Pass 1 marks all items invalid and keeps the rest of them.\<close>

lemma pass1_fold:
  assumes "fold (check_pass1 pmp) [0..<k] (cl, st) = (cl', st')" "k \<le> length (cl_array cl)"
  shows "item_chains cl' = item_chains cl \<and> map ci_error (cl_array cl') = map ci_error (cl_array cl) \<and> cl_pmp cl' = cl_pmp cl \<and>
    (\<forall>i < length (cl_array cl). (i < k \<longrightarrow> ci_flags (cl_array cl' ! i) AND CITEM_INVALID \<noteq> 0) \<and>
       (ci_flags (cl_array cl' ! i) AND CITEM_NULL = ci_flags (cl_array cl ! i) AND CITEM_NULL))"
  using assms
proof (induction k arbitrary: cl' st')
  case (Suc k)
  obtain c1 s1 where f: "fold (check_pass1 pmp) [0..<k] (cl, st) = (c1, s1)" by (cases "fold (check_pass1 pmp) [0..<k] (cl, st)")
  note IH = Suc.IH [OF f]
  have step: "check_pass1 pmp k (c1, s1) = (cl', st')" using Suc.prems(1) f by simp
  note one = pass1_item [OF step]
  have len: "length (cl_array c1) = length (cl_array cl)" "length (cl_array cl') = length (cl_array cl)"
    using IH one Suc.prems(2) by (metis item_chains_length Suc_leD)+
  have flags: "ci_flags (cl_array cl' ! i) =
      (if k = i then (ci_flags (cl_array c1 ! i) AND NOT CITEM_FEMOD) OR CITEM_INVALID else ci_flags (cl_array c1 ! i))"
    if "i < length (cl_array cl)" for i
  proof -
    have "ci_flags (cl_array cl' ! i) = map ci_flags (cl_array cl') ! i" using that len by simp
    also have "\<dots> = ci_flags (cl_array (item_flags k (\<lambda>f. (f AND NOT CITEM_FEMOD) OR CITEM_INVALID) c1) ! i)"
      using one that len by simp
    finally show ?thesis using that len by (simp add: item_flags_nth)
  qed
  have w: "((x AND NOT 2) OR 1) AND 1 \<noteq> 0" "((x AND - 3) OR 1) AND 4 = x AND 4" for x :: u32
    by (simp_all add: bit.conj_disj_distrib2 and.assoc)
  show ?case using IH one flags Suc.prems(2) by (auto simp: w less_Suc_eq)
qed simp

section \<open>Pass 2\<close>

text \<open>The elements that count in a pass: the masters with the key and a transaction id below \<open>last\<close>.\<close>

lemma has_tid_fun: "has_tid pmp key cs i t \<Longrightarrow> has_tid pmp key cs i u \<Longrightarrow> t = u"
  by (auto simp: has_tid_def split: option.splits)

lemma keeps_upd:
  "item_chains (if b then cl\<lparr>cl_focus := x, cl_focus_index := n\<rparr> else cl) = item_chains cl"
  "cl_array (if b then cl\<lparr>cl_focus := x, cl_focus_index := n\<rparr> else cl) = cl_array cl"
  "cl_pmp (if b then cl\<lparr>cl_focus := x, cl_focus_index := n\<rparr> else cl) = cl_pmp cl"
  by simp_all

text \<open>What the scan knows after the items \<open>xs\<close>.\<close>

definition scanned :: "pfs \<Rightarrow> h2_key \<Rightarrow> h2_tid \<Rightarrow> cluster \<Rightarrow> nat list \<Rightarrow> cluster \<times> quorum \<Rightarrow> bool" where
  "scanned pmp key last_tid cl xs st \<longleftrightarrow> (case st of (cl', q) \<Rightarrow>
     cl_array cl' = cl_array cl \<and> cl_pmp cl' = cl_pmp cl \<and> cl_flags cl' = cl_flags cl \<and>
     q_umasters q = int (length (filter (unanswered pmp cl) xs)) \<and>
     q_keymatch q = int (length (filter (has_key pmp key (item_chains cl)) xs)) \<and>
     q_nmasters q = int (length (filter (\<lambda>i. has_tid pmp key (item_chains cl) i (q_tid q)) xs)) \<and>
     q_tid q < last_tid \<and> (\<forall>i \<in> set xs. \<forall>t. has_tid pmp key (item_chains cl) i t \<and> t < last_tid \<longrightarrow> t \<le> q_tid q))"

lemma scan_item:
  assumes "scanned pmp key last_tid cl xs (c1, q1)" "i < length (cl_array cl)" "flags AND CHECK_NULL = 0"
  shows "scanned pmp key last_tid cl (xs @ [i]) (check_pass2_item pmp key flags last_tid i (c1, q1))"
proof -
  let ?cs = "item_chains cl"
  have arr: "cl_array c1 = cl_array cl" "item_chains c1 = ?cs" and below: "q_tid q1 < last_tid"
    and top: "\<And>j t. j \<in> set xs \<Longrightarrow> has_tid pmp key ?cs j t \<Longrightarrow> t < last_tid \<Longrightarrow> t \<le> q_tid q1"
    using assms(1) by (auto simp: scanned_def item_chains_def)
  have ch: "ci_chain (cl_array cl ! i) = ?cs ! i" using assms(2) by (simp add: item_chains_nth)
  show ?thesis
  proof (cases "has_key pmp key ?cs i")
    case False
    then have none: "\<not> has_tid pmp key ?cs i t" for t by (simp add: has_key_def)
    have "\<not> (is_master pmp i \<and> (\<exists>ch. ?cs ! i = Some ch \<and> (key = - 1 \<or> br_key (ch_bref ch) = key)))"
      using none [of "br_modify_tid (ch_bref (the (?cs ! i)))"] by (auto simp: has_tid_def)
    then have "check_pass2_item pmp key flags last_tid i (c1, q1) =
        (c1, if unanswered pmp cl i then q1\<lparr>q_umasters := q_umasters q1 + 1\<rparr> else q1)"
      using assms(3) arr(1) ch
      by (auto simp: check_pass2_item_def unanswered_def is_master_def Let_def split: option.splits)
    then show ?thesis using assms(1) False none by (auto simp: scanned_def)
  next
    case True
    then obtain t where t: "has_tid pmp key ?cs i t" by (auto simp: has_key_def)
    then obtain ch' where ch': "?cs ! i = Some ch'" "br_modify_tid (ch_bref ch') = t" "key = - 1 \<or> br_key (ch_bref ch') = key"
      and m: "is_master pmp i" by (auto simp: has_tid_def split: option.splits)
    have iff: "has_tid pmp key ?cs i u \<longleftrightarrow> u = t" for u using t has_tid_fun by metis
    have noun: "\<not> unanswered pmp cl i" using ch ch'(1) by (simp add: unanswered_def)
    let ?q = "q1\<lparr>q_keymatch := q_keymatch q1 + 1\<rparr>"
    let ?new = "t < last_tid \<and> q_tid q1 < t"
    let ?q' = "if ?new then ?q\<lparr>q_nmasters := 0, q_tid := t\<rparr> else ?q"
    have run: "check_pass2_item pmp key flags last_tid i (c1, q1) =
        (if q_tid ?q' = t then (if ch_error ch' = 0 then c1\<lparr>cl_focus := Some i, cl_focus_index := i\<rparr> else c1,
           ?q'\<lparr>q_nmasters := q_nmasters ?q' + 1\<rparr>) else (c1, ?q'))"
    proof -
      have F: "(pfs_types pmp ! i \<noteq> PFSTYPE_MASTER \<and> pfs_types pmp ! i \<noteq> PFSTYPE_SUPROOT) = False" using m by (auto simp: is_master_def)
      show ?thesis
        unfolding check_pass2_item_def prod.case F if_False using ch ch' arr(1) assms(3) by (simp add: Let_def)
    qed
    show ?thesis
    proof (cases ?new)
      case True
      then have fresh: "filter (\<lambda>j. has_tid pmp key ?cs j t) xs = []"
        using top by (auto simp: filter_empty_conv not_less [symmetric])
      have up: "u \<le> t" if "j \<in> set xs" "has_tid pmp key ?cs j u" "u < last_tid" for j u
        using top [OF that] True by (meson less_imp_le order_trans)
      show ?thesis using True assms(1) t iff noun \<open>has_key pmp key ?cs i\<close> fresh unfolding run
        by (auto simp: scanned_def intro: up)
    next
      case False
      then have "t < last_tid \<Longrightarrow> t \<le> q_tid q1" by auto
      then show ?thesis using False assms(1) t iff noun \<open>has_key pmp key ?cs i\<close> unfolding run
        by (auto simp: scanned_def)
    qed
  qed
qed

lemma quorum_scan_spec:
  assumes "last_tid \<noteq> 0" "flags AND CHECK_NULL = 0" "check_pass2_scan pmp key flags last_tid cl = (cl', q)"
  shows "scanned pmp key last_tid cl [0..<length (cl_array cl)] (cl', q)"
proof -
  have "scanned pmp key last_tid cl [0..<k] (fold (check_pass2_item pmp key flags last_tid) [0..<k]
      (cl, \<lparr>q_umasters = 0, q_nmasters = 0, q_keymatch = 0, q_tid = 0\<rparr>))" if "k \<le> length (cl_array cl)" for k
    using that
  proof (induction k)
    case 0
    then show ?case using assms(1) by (simp add: scanned_def word_gt_0)
  next
    case (Suc k)
    let ?st = "fold (check_pass2_item pmp key flags last_tid) [0..<k]
      (cl, \<lparr>q_umasters = 0, q_nmasters = 0, q_keymatch = 0, q_tid = 0\<rparr>)"
    have "scanned pmp key last_tid cl [0..<k] (fst ?st, snd ?st)" using Suc by simp
    from scan_item [OF this _ assms(2), of k] show ?case using Suc.prems by simp
  qed
  from this [OF le_refl] show ?thesis using assms(3) by (simp add: check_pass2_scan_def)
qed

text \<open>The loop over the passes finds the highest transaction id with a quorum, or ends with what the last pass
counted for transaction id 0.\<close>

lemma pass2_spec:
  assumes "check_pass2 pmp nq key flags last_tid cl q0 = (cl', q)" "last_tid \<noteq> 0" "q_nmasters q0 < nq" "0 < nq"
    and "flags AND CHECK_NULL = 0"
  shows "cl_array cl' = cl_array cl \<and> cl_pmp cl' = cl_pmp cl \<and> cl_flags cl' = cl_flags cl \<and>
    q_umasters q = pending pmp cl \<and> q_keymatch q = key_votes pmp key (item_chains cl) \<and>
    q_nmasters q = votes pmp key (item_chains cl) (q_tid q) \<and>
    (if \<exists>t < last_tid. nq \<le> votes pmp key (item_chains cl) t
     then q_tid q < last_tid \<and> nq \<le> q_nmasters q \<and> (\<forall>t < last_tid. nq \<le> votes pmp key (item_chains cl) t \<longrightarrow> t \<le> q_tid q)
     else q_tid q = 0)"
  using assms
proof (induction pmp nq key flags last_tid cl q0 arbitrary: cl' q rule: check_pass2.induct)
  case (1 pmp nq key flags last_tid cl q0)
  let ?cs = "item_chains cl"
  obtain c1 q1 where scan: "check_pass2_scan pmp key flags last_tid cl = (c1, q1)" by (cases "check_pass2_scan pmp key flags last_tid cl")
  note s = quorum_scan_spec [OF "1.prems"(2,5) scan]
  have arr: "cl_array c1 = cl_array cl" "cl_pmp c1 = cl_pmp cl" "cl_flags c1 = cl_flags cl" and below: "q_tid q1 < last_tid"
    and top: "\<And>j t. j < length (cl_array cl) \<Longrightarrow> has_tid pmp key ?cs j t \<Longrightarrow> t < last_tid \<Longrightarrow> t \<le> q_tid q1"
    using s by (auto simp: scanned_def)
  have cs: "item_chains c1 = ?cs" "pending pmp c1 = pending pmp cl" using arr by (simp_all add: item_chains_def pending_def unanswered_def [abs_def])
  have counts: "q_umasters q1 = pending pmp cl" "q_keymatch q1 = key_votes pmp key ?cs" "q_nmasters q1 = votes pmp key ?cs (q_tid q1)"
    using s by (simp_all add: scanned_def pending_def key_votes_def votes_def)
  have none: "votes pmp key ?cs t = 0" if "q_tid q1 < t" "t < last_tid" for t
    using top that by (auto simp: votes_def filter_empty_conv not_less [symmetric])
  have le: "t \<le> q_tid q1" if "t < last_tid" "nq \<le> votes pmp key ?cs t" for t
    using none [of t] that "1.prems"(4) by (cases "q_tid q1 < t") auto
  show ?case
  proof (cases "nq \<le> q_nmasters q1")
    case True
    then have "(cl', q) = (c1, q1)" using "1.prems" scan by (subst (asm) check_pass2.simps) simp
    then show ?thesis using True arr below counts le by auto
  next
    case False
    then have run: "check_pass2 pmp nq key flags (q_tid q1) c1 q1 = (cl', q)"
      using "1.prems" scan by (subst (asm) check_pass2.simps) simp
    have no: "t < q_tid q1" if "t < last_tid" "nq \<le> votes pmp key ?cs t" for t
      using le [OF that] False counts(3) that(2) by (cases "t = q_tid q1") auto
    show ?thesis
    proof (cases "q_tid q1 = 0")
      case True
      then have "(cl', q) = (c1, q1)" using run by (subst (asm) check_pass2.simps) simp
      then show ?thesis using True arr counts no by auto
    next
      case nz: False
      have "q_nmasters q0 < nq \<and> last_tid \<noteq> 0" "q_nmasters q1 < nq" using "1.prems" False by simp_all
      note IH = "1.IH" [OF this(1) scan [symmetric] False run nz this(2) "1.prems"(4,5)]
      have iff: "(\<exists>t < q_tid q1. nq \<le> votes pmp key ?cs t) \<longleftrightarrow> (\<exists>t < last_tid. nq \<le> votes pmp key ?cs t)"
        using no below by (meson less_trans)
      have "q_tid q < last_tid" if "q_tid q < q_tid q1" using that below by simp
      show ?thesis
      proof (cases "\<exists>t < last_tid. nq \<le> votes pmp key ?cs t")
        case True
        then show ?thesis using IH arr no below unfolding cs iff by auto
      next
        case none: False
        then show ?thesis using IH arr unfolding cs iff if_not_P [OF none] by simp
      qed
    qed
  qed
qed

section \<open>Pass 3 and pass 4\<close>

text \<open>The validated items: what passes 3 and 4 keep true when \<open>cs\<close> are the chains and \<open>errs\<close> the errors.\<close>

definition agree :: "h2_key \<Rightarrow> h2_tid \<Rightarrow> cl_chain option list \<Rightarrow> nat \<Rightarrow> bool" where
  "agree key t cs i \<longleftrightarrow> (\<exists>ch. cs ! i = Some ch \<and> br_key (ch_bref ch) = key \<and> br_modify_tid (ch_bref ch) = t)"

definition validated :: "h2_key \<Rightarrow> h2_tid \<Rightarrow> cl_chain option list \<Rightarrow> int list \<Rightarrow> cluster \<Rightarrow> bool" where
  "validated key t cs errs cl \<longleftrightarrow> item_chains cl = cs \<and> map ci_error (cl_array cl) = errs \<and>
     (\<forall>i < length cs. ci_flags (cl_array cl ! i) AND CITEM_INVALID = 0 \<longrightarrow> agree key t cs i)"

lemma validatedD:
  assumes "validated key t cs errs cl"
  shows "length (cl_array cl) = length cs" "i < length cs \<Longrightarrow> ci_chain (cl_array cl ! i) = cs ! i"
    "i < length cs \<Longrightarrow> ci_error (cl_array cl ! i) = errs ! i"
    "i < length cs \<Longrightarrow> ci_flags (cl_array cl ! i) AND CITEM_INVALID = 0 \<Longrightarrow> agree key t cs i"
proof -
  have *: "item_chains cl = cs" "map ci_error (cl_array cl) = errs"
    "\<forall>i < length cs. ci_flags (cl_array cl ! i) AND CITEM_INVALID = 0 \<longrightarrow> agree key t cs i"
    using assms unfolding validated_def by simp_all
  from *(1) show len: "length (cl_array cl) = length cs" by (metis item_chains_length)
  show "i < length cs \<Longrightarrow> ci_chain (cl_array cl ! i) = cs ! i" using *(1) len item_chains_nth by metis
  show "i < length cs \<Longrightarrow> ci_error (cl_array cl ! i) = errs ! i" using *(2) len nth_map by metis
  show "i < length cs \<Longrightarrow> ci_flags (cl_array cl ! i) AND CITEM_INVALID = 0 \<Longrightarrow> agree key t cs i" using *(3) by simp
qed

lemma validated_flags:
  assumes "validated key t cs errs cl" "agree key t cs i \<or> (\<forall>x. f x AND CITEM_INVALID = 0 \<longrightarrow> x AND CITEM_INVALID = 0)"
  shows "validated key t cs errs (item_flags i f cl)"
proof -
  note len = validatedD(1) [OF assms(1)] and ok = validatedD(4) [OF assms(1)]
  have cs: "item_chains cl = cs" and errs: "map ci_error (cl_array cl) = errs" using assms(1) unfolding validated_def by simp_all
  have fl: "agree key t cs j" if j: "j < length cs" "ci_flags (cl_array (item_flags i f cl) ! j) AND CITEM_INVALID = 0" for j
  proof (cases "j = i")
    case True
    then have "f (ci_flags (cl_array cl ! i)) AND CITEM_INVALID = 0" using j len by (simp add: item_flags_nth)
    then show ?thesis using assms(2) ok [of i] j(1) True by blast
  next
    case False
    then show ?thesis using j ok [of j] len by (simp add: item_flags_nth)
  qed
  show ?thesis unfolding validated_def using cs errs fl by simp
qed

lemma validated_upd [simp]:
  "validated key t cs errs (cl\<lparr>cl_error := e\<rparr>) = validated key t cs errs cl"
  "validated key t cs errs (cl\<lparr>cl_ddflag := d\<rparr>) = validated key t cs errs cl"
  "validated key t cs errs (cl\<lparr>cl_flags := f\<rparr>) = validated key t cs errs cl"
  by (simp_all add: validated_def)

lemma pass3_item:
  assumes "validated key t cs errs cl" "i < length cs"
    and "check_pass3 pmp key t i (cl, nflags, nslaves) = (cl', nflags', nslaves')"
  shows "validated key t cs errs cl' \<and> (cl_error cl' = 0 \<longrightarrow> cl_error cl = 0 \<and> (agree key t cs i \<longrightarrow> errs ! i = 0))"
proof -
  note i = validatedD(2,3) [OF assms(1,2)]
  show ?thesis
  proof (cases "agree key t cs i")
    case False
    then have "cl' = cl" using assms(3) i by (auto simp: check_pass3_def agree_def split: option.splits)
    then show ?thesis using assms(1) False by simp
  next
    case True
    let ?cl = "if cl_error cl = 0 then cl\<lparr>cl_error := ci_error (cl_array cl ! i)\<rparr> else cl"
    have v: "validated key t cs errs ?cl" using assms(1) by simp
    have "cl' = item_flags i (\<lambda>f. (f OR CITEM_FEMOD) AND NOT CITEM_INVALID) ?cl \<or>
        cl' = item_flags i (\<lambda>f. f AND NOT CITEM_INVALID) ?cl \<or> cl' = ?cl"
      using True assms(3) i by (auto simp: check_pass3_def agree_def Let_def split: if_splits)
    then have "validated key t cs errs cl' \<and> cl_error cl' = cl_error ?cl"
      using validated_flags [OF v disjI1 [OF True]] v by (elim disjE) (simp_all only: item_flags_simps simp_thms)
    then show ?thesis using i by auto
  qed
qed

lemma pass3_fold:
  assumes "validated key t cs errs cl" "k \<le> length cs"
    and "fold (check_pass3 pmp key t) [0..<k] (cl, nflags, nslaves) = (cl', nflags', nslaves')"
  shows "validated key t cs errs cl' \<and> (cl_error cl' = 0 \<longrightarrow> (\<forall>i < k. agree key t cs i \<longrightarrow> errs ! i = 0))"
  using assms(2,3)
proof (induction k arbitrary: cl' nflags' nslaves')
  case 0
  then show ?case using assms(1) by simp
next
  case (Suc k)
  obtain c1 f1 s1 where f: "fold (check_pass3 pmp key t) [0..<k] (cl, nflags, nslaves) = (c1, f1, s1)"
    by (cases "fold (check_pass3 pmp key t) [0..<k] (cl, nflags, nslaves)") auto
  have IH: "validated key t cs errs c1 \<and> (cl_error c1 = 0 \<longrightarrow> (\<forall>i < k. agree key t cs i \<longrightarrow> errs ! i = 0))"
    using Suc.IH [OF _ f] Suc.prems(1) by simp
  have "check_pass3 pmp key t k (c1, f1, s1) = (cl', nflags', nslaves')" using Suc.prems(2) f by simp
  from pass3_item [OF conjunct1 [OF IH] _ this] show ?case using IH Suc.prems(1) by (auto simp: less_Suc_eq)
qed

lemma pass4_item:
  "validated key t cs errs cl \<Longrightarrow> validated key t cs errs (check_pass4 f fch i cl) \<and> cl_error (check_pass4 f fch i cl) = cl_error cl"
proof -
  assume v: "validated key t cs errs cl"
  have "(x OR 1) AND 1 \<noteq> 0" for x :: u32 by (simp add: bit.conj_disj_distrib2)
  then have "validated key t cs errs (item_flags i (\<lambda>f. f OR CITEM_INVALID) cl)"
    by (intro validated_flags [OF v]) simp
  moreover have "check_pass4 f fch i cl = cl \<or> check_pass4 f fch i cl = item_flags i (\<lambda>f. f OR CITEM_INVALID) cl"
    by (auto simp: check_pass4_def Let_def split: option.splits)
  ultimately show ?thesis using v by auto
qed

lemma check_validate_ok:
  assumes "validated key t cs errs cl"
  shows "validated key t cs errs (check_validate cl) \<and> cl_error (check_validate cl) = cl_error cl"
proof -
  have "validated key t cs errs (fold (check_pass4 f fch) xs c) \<and> cl_error (fold (check_pass4 f fch) xs c) = cl_error c"
    if "validated key t cs errs c" for f fch xs c
    using that
  proof (induction xs arbitrary: c)
    case (Cons x xs)
    from pass4_item [OF Cons.prems, of f fch x] Cons.IH [of "check_pass4 f fch x c"] show ?case by simp
  qed simp
  then show ?thesis using assms by (auto simp: check_validate_def Let_def split: option.splits)
qed

section \<open>The whole check\<close>

text \<open>What the rest of the check does once a quorum was found.\<close>

definition check_found :: "pfs \<Rightarrow> h2_key \<Rightarrow> quorum \<Rightarrow> int \<Rightarrow> int \<Rightarrow> cluster \<times> u32 \<times> int \<Rightarrow> int \<times> cluster" where
  "check_found pmp key q ttlmasters ttlslaves st = (case st of (cl, nflags, nslaves) \<Rightarrow>
       (let cl = check_validate cl;
            nflags = (if ttlslaves = 0 then nflags OR CLUSTER_NOSOFT else nflags);
            nflags = (if ttlmasters = 0 then nflags OR CLUSTER_NOHARD else nflags);
            nflags = (if nslaves = ttlslaves then nflags OR CLUSTER_SSYNCED else nflags);
            nflags = (if q_nmasters q = ttlmasters then nflags OR CLUSTER_MSYNCED else nflags);
            cl = cl\<lparr>cl_flags := (cl_flags cl OR nflags) AND NOT (CLUSTER_ZFLAGS AND NOT nflags)\<rparr>
        in (cl_error cl, cl)))"

text \<open>After passes 1 and 2, with a state that carries their facts.\<close>

definition after2 :: "pfs \<Rightarrow> h2_key \<Rightarrow> int \<Rightarrow> cluster \<Rightarrow> cluster \<Rightarrow> quorum \<Rightarrow> bool" where
  "after2 pmp key nq cl c2 q \<longleftrightarrow> item_chains c2 = item_chains cl \<and> map ci_error (cl_array c2) = map ci_error (cl_array cl) \<and>
     (\<forall>i < length (cl_array cl). ci_flags (cl_array c2 ! i) AND CITEM_INVALID \<noteq> 0) \<and>
     q_umasters q = pending pmp cl \<and> q_keymatch q = key_votes pmp key (item_chains cl) \<and>
     q_nmasters q = votes pmp key (item_chains cl) (q_tid q) \<and>
     (if \<exists>t < HAMMER2_TID_MAX. nq \<le> votes pmp key (item_chains cl) t
      then q_tid q < HAMMER2_TID_MAX \<and> nq \<le> q_nmasters q \<and>
        (\<forall>t < HAMMER2_TID_MAX. nq \<le> votes pmp key (item_chains cl) t \<longrightarrow> t \<le> q_tid q)
      else q_tid q = 0 \<and> q_nmasters q < nq)"

lemma cluster_check_run:
  assumes "flags AND CHECK_NULL = 0" "cl_pmp cl = Some pmp"
  shows "\<exists>c2 q nflags m s. after2 pmp key (cluster_nquorum cl) cl c2 q \<and>
    (\<exists>c1. check_pass2 pmp (cluster_nquorum cl) key flags HAMMER2_TID_MAX c1
            \<lparr>q_umasters = 0, q_nmasters = 0, q_keymatch = 0, q_tid = 0\<rparr> = (c2, q) \<and> item_chains c1 = item_chains cl) \<and>
    hammer2_cluster_check cl key flags =
     Some (if q_nmasters q < cluster_nquorum cl
       then (if cluster_nquorum cl \<le> q_nmasters q + q_umasters q then (H2_EINPROGRESS, c2)
             else if q_keymatch q < cluster_nquorum cl then (H2_ESRCH, c2) else (H2_EDEADLK, c2))
       else if cl_focus c2 = None then (H2_EIO, c2)
       else check_found pmp key q m s
              (fold (check_pass3 pmp key (q_tid q)) [0..<length (cl_array cl)] (c2\<lparr>cl_error := 0\<rparr>, nflags, 0)))"
proof -
  let ?c0 = "cl\<lparr>cl_error := 0, cl_focus := None\<rparr>" and ?q0 = "\<lparr>q_umasters = 0, q_nmasters = 0, q_keymatch = 0, q_tid = 0\<rparr>"
  let ?nq = "cluster_nquorum cl" and ?n = "length (cl_array cl)"
  obtain c1 nflags m s where f1: "fold (check_pass1 pmp) [0..<?n] (?c0, 0, 0, 0) = (c1, nflags, m, s)"
    by (cases "fold (check_pass1 pmp) [0..<?n] (?c0, 0, 0, 0)") auto
  obtain c2 q where f2: "check_pass2 pmp ?nq key flags HAMMER2_TID_MAX c1 ?q0 = (c2, q)"
    by (cases "check_pass2 pmp ?nq key flags HAMMER2_TID_MAX c1 ?q0")
  have nq: "0 < ?nq" using assms(2) by (simp add: cluster_nquorum_def)
  have len0: "?n \<le> length (cl_array ?c0)" by simp
  have cs0: "item_chains ?c0 = item_chains cl" by (simp add: item_chains_def)
  note p1 = pass1_fold [OF f1 len0, unfolded cs0, simplified]
  have len1: "length (cl_array c1) = ?n" using p1 by (metis item_chains_length)
  have un: "unanswered pmp c1 i = unanswered pmp cl i" if "i < ?n" for i
    using p1 that len1 by (metis item_chains_nth unanswered_def)
  have pend: "pending pmp c1 = pending pmp cl" unfolding pending_def len1
    by (intro arg_cong [where f = "\<lambda>xs. int (length xs)"] filter_cong) (simp_all add: un)
  have "q_nmasters ?q0 < ?nq" "HAMMER2_TID_MAX \<noteq> 0" using nq by simp_all
  note p2 = pass2_spec [OF f2 this(2,1) nq assms(1)]
  have cs: "item_chains c1 = item_chains cl" using p1 by simp
  have low: "q_nmasters q < ?nq" if none: "\<not> (\<exists>t < HAMMER2_TID_MAX. ?nq \<le> votes pmp key (item_chains cl) t)"
  proof -
    have "q_tid q = 0" "q_nmasters q = votes pmp key (item_chains cl) (q_tid q)"
      using p2 none unfolding cs if_not_P [OF none] by simp_all
    moreover have "0 < HAMMER2_TID_MAX" by (simp add: word_gt_0)
    ultimately show ?thesis using none by (metis not_le)
  qed
  have cs2: "item_chains c2 = item_chains cl" using p2 cs unfolding item_chains_def by simp
  have a2: "after2 pmp key ?nq cl c2 q"
    unfolding after2_def using p1 p2 low pend cs2 unfolding cs
    by (cases "\<exists>t < HAMMER2_TID_MAX. ?nq \<le> votes pmp key (item_chains cl) t") simp_all
  have run: "hammer2_cluster_check cl key flags =
     Some (if q_nmasters q < ?nq
       then (if ?nq \<le> q_nmasters q + q_umasters q then (H2_EINPROGRESS, c2)
             else if q_keymatch q < ?nq then (H2_ESRCH, c2) else (H2_EDEADLK, c2))
       else if cl_focus c2 = None then (H2_EIO, c2)
       else check_found pmp key q m s
              (fold (check_pass3 pmp key (q_tid q)) [0..<?n] (c2\<lparr>cl_error := 0\<rparr>, nflags, 0)))"
  proof -
    have e: "cluster_nquorum ?c0 = ?nq" by (simp add: cluster_nquorum_def)
    show ?thesis
      unfolding hammer2_cluster_check_def Let_def e using assms f1 f2 by (simp add: check_found_def Let_def split: prod.split)
  qed
  from a2 f2 cs run show ?thesis by blast
qed

section \<open>The focus\<close>

text \<open>The scan leaves the focus on a master that counted, unless one of those had a chain error.\<close>

definition focused :: "pfs \<Rightarrow> h2_key \<Rightarrow> cl_chain option list \<Rightarrow> cluster \<times> quorum \<Rightarrow> bool" where
  "focused pmp key cs st \<longleftrightarrow> (case st of (cl, q) \<Rightarrow> item_chains cl = cs \<and> 0 \<le> q_nmasters q \<and>
     (0 < q_nmasters q \<longrightarrow> (\<forall>i < length cs. has_tid pmp key cs i (q_tid q) \<longrightarrow> ch_error (the (cs ! i)) = 0) \<longrightarrow>
        (\<exists>i < length cs. cl_focus cl = Some i \<and> has_tid pmp key cs i (q_tid q))))"

lemma focus_item:
  assumes "focused pmp key cs (cl, q)" "i < length cs" "flags AND CHECK_NULL = 0"
  shows "focused pmp key cs (check_pass2_item pmp key flags last_tid i (cl, q))"
proof -
  have cs: "item_chains cl = cs" using assms(1) by (simp add: focused_def)
  then have len: "length (cl_array cl) = length cs" by (metis item_chains_length)
  have ch: "ci_chain (cl_array cl ! i) = cs ! i" using cs assms(2) len item_chains_nth by metis
  show ?thesis
  proof (cases "is_master pmp i \<and> (\<exists>ch. cs ! i = Some ch \<and> (key = - 1 \<or> br_key (ch_bref ch) = key))")
    case False
    then have "\<exists>q'. check_pass2_item pmp key flags last_tid i (cl, q) = (cl, q') \<and> q_tid q' = q_tid q \<and> q_nmasters q' = q_nmasters q"
      using ch assms(3) by (auto simp: check_pass2_item_def is_master_def Let_def split: option.splits)
    then show ?thesis using assms(1) unfolding focused_def by auto
  next
    case True
    then obtain c where c: "cs ! i = Some c" and k: "key = - 1 \<or> br_key (ch_bref c) = key" and m: "is_master pmp i" by blast
    let ?t = "br_modify_tid (ch_bref c)"
    have ht: "has_tid pmp key cs i ?t" using c k m by (simp add: has_tid_def)
    let ?q = "q\<lparr>q_keymatch := q_keymatch q + 1\<rparr>"
    let ?q' = "if ?t < last_tid \<and> q_tid q < ?t then ?q\<lparr>q_nmasters := 0, q_tid := ?t\<rparr> else ?q"
    have F: "(pfs_types pmp ! i \<noteq> PFSTYPE_MASTER \<and> pfs_types pmp ! i \<noteq> PFSTYPE_SUPROOT) = False" using m by (auto simp: is_master_def)
    have run: "check_pass2_item pmp key flags last_tid i (cl, q) =
        (if q_tid ?q' = ?t then (if ch_error c = 0 then cl\<lparr>cl_focus := Some i, cl_focus_index := i\<rparr> else cl,
           ?q'\<lparr>q_nmasters := q_nmasters ?q' + 1\<rparr>) else (cl, ?q'))"
      unfolding check_pass2_item_def prod.case F if_False using ch c k assms(3) by (simp add: Let_def)
    show ?thesis
    proof (cases "q_tid ?q' = ?t")
      case True
      then show ?thesis using assms(1,2) ht c unfolding run if_P [OF True] by (auto simp: focused_def split: if_splits)
    next
      case False
      then have "?q' = ?q" by (auto split: if_splits)
      then show ?thesis using assms(1) unfolding run if_not_P [OF False] by (simp add: focused_def)
    qed
  qed
qed

lemma focus_scan:
  assumes "flags AND CHECK_NULL = 0" "item_chains cl = cs"
  shows "focused pmp key cs (check_pass2_scan pmp key flags last_tid cl)"
proof -
  have *: "focused pmp key cs (fold (check_pass2_item pmp key flags last_tid) xs st)"
    if "focused pmp key cs st" "set xs \<subseteq> {..<length cs}" for xs st
    using that
  proof (induction xs arbitrary: st)
    case (Cons x xs)
    then show ?case using focus_item [of pmp key cs "fst st" "snd st" x flags last_tid] assms(1) by simp
  qed simp
  have len: "length (cl_array cl) = length cs" using assms(2) by (metis item_chains_length)
  have "focused pmp key cs (cl, \<lparr>q_umasters = 0, q_nmasters = 0, q_keymatch = 0, q_tid = 0\<rparr>)"
    using assms(2) by (simp add: focused_def)
  from * [OF this, of "[0..<length (cl_array cl)]"] show ?thesis unfolding check_pass2_scan_def len by (simp add: atLeast0LessThan)
qed

lemma focus_pass2:
  assumes "flags AND CHECK_NULL = 0" "item_chains cl = cs" "q_nmasters q0 = 0"
  shows "focused pmp key cs (check_pass2 pmp nq key flags last_tid cl q0)"
proof -
  have "focused pmp key cs (cl, q0)" using assms(2,3) by (simp add: focused_def)
  then show ?thesis using assms(1,2)
  proof (induction pmp nq key flags last_tid cl q0 rule: check_pass2.induct)
    case (1 pmp nq key flags last_tid cl q0)
    obtain c1 q1 where s: "check_pass2_scan pmp key flags last_tid cl = (c1, q1)" by (cases "check_pass2_scan pmp key flags last_tid cl")
    have f: "focused pmp key cs (c1, q1)" using focus_scan [OF "1.prems"(2,3), of pmp key last_tid] s by simp
    then have "item_chains c1 = cs" by (simp add: focused_def)
    then show ?case using "1.IH" [OF _ s [symmetric] _ f "1.prems"(2)] "1.prems" s f
      by (subst check_pass2.simps) simp
  qed
qed

lemma pass3_focus [simp]: "cl_focus (fst (check_pass3 pmp key t i st)) = cl_focus (fst st)"
  by (cases st) (auto simp: check_pass3_def Let_def split: option.splits)

lemma fold_pass3_focus: "cl_focus (fst (fold (check_pass3 pmp key t) xs st)) = cl_focus (fst st)"
  by (induction xs arbitrary: st) simp_all

lemma pass4_focus [simp]: "cl_focus (check_pass4 f fch i cl) = cl_focus cl"
  by (auto simp: check_pass4_def Let_def split: option.splits)

lemma validate_focus [simp]: "cl_focus (check_validate cl) = cl_focus cl"
proof -
  have "cl_focus (fold (check_pass4 f fch) xs c) = cl_focus c" for f fch xs c
    by (induction xs arbitrary: c) simp_all
  then show ?thesis by (auto simp: check_validate_def Let_def split: option.splits)
qed

section \<open>What the answers mean\<close>

lemma check_zero:
  assumes "hammer2_cluster_check cl key flags = Some (0, cl')" "flags AND CHECK_NULL = 0" "cl_pmp cl = Some pmp"
  shows "\<exists>t f. cluster_nquorum cl \<le> votes pmp key (item_chains cl) t \<and> t < HAMMER2_TID_MAX \<and>
    (\<forall>u < HAMMER2_TID_MAX. cluster_nquorum cl \<le> votes pmp key (item_chains cl) u \<longrightarrow> u \<le> t) \<and>
    validated key t (item_chains cl) (map ci_error (cl_array cl)) cl' \<and>
    (\<forall>i < length (cl_array cl). agree key t (item_chains cl) i \<longrightarrow> ci_error (cl_array cl ! i) = 0) \<and>
    cl_focus cl' = Some f \<and>
    ((\<forall>i < length (cl_array cl). has_tid pmp key (item_chains cl) i t \<longrightarrow> ch_error (the (item_chains cl ! i)) = 0) \<longrightarrow>
       f < length (cl_array cl) \<and> has_tid pmp key (item_chains cl) f t)"
proof -
  let ?cs = "item_chains cl" and ?errs = "map ci_error (cl_array cl)" and ?nq = "cluster_nquorum cl"
  obtain c2 q nflags m s c1 where a: "after2 pmp key ?nq cl c2 q"
    and p2: "check_pass2 pmp ?nq key flags HAMMER2_TID_MAX c1 \<lparr>q_umasters = 0, q_nmasters = 0, q_keymatch = 0, q_tid = 0\<rparr> = (c2, q)"
      "item_chains c1 = ?cs"
    and run: "hammer2_cluster_check cl key flags =
     Some (if q_nmasters q < ?nq
       then (if ?nq \<le> q_nmasters q + q_umasters q then (H2_EINPROGRESS, c2)
             else if q_keymatch q < ?nq then (H2_ESRCH, c2) else (H2_EDEADLK, c2))
       else if cl_focus c2 = None then (H2_EIO, c2)
       else check_found pmp key q m s
              (fold (check_pass3 pmp key (q_tid q)) [0..<length (cl_array cl)] (c2\<lparr>cl_error := 0\<rparr>, nflags, 0)))"
    using cluster_check_run [OF assms(2,3)] by blast
  have enough: "\<not> q_nmasters q < ?nq" and foc: "cl_focus c2 \<noteq> None" using run assms(1) by (auto split: if_splits)
  obtain c3 f3 s3 where f3: "fold (check_pass3 pmp key (q_tid q)) [0..<length (cl_array cl)] (c2\<lparr>cl_error := 0\<rparr>, nflags, 0) = (c3, f3, s3)"
    by (cases "fold (check_pass3 pmp key (q_tid q)) [0..<length (cl_array cl)] (c2\<lparr>cl_error := 0\<rparr>, nflags, 0)") auto
  have found: "check_found pmp key q m s (c3, f3, s3) = (0, cl')" using run assms(1) enough foc f3 by simp
  then obtain x where cl': "cl' = (check_validate c3)\<lparr>cl_flags := x\<rparr>" and z: "cl_error (check_validate c3) = 0"
    by (auto simp: check_found_def Let_def)
  have v2: "validated key (q_tid q) ?cs ?errs (c2\<lparr>cl_error := 0\<rparr>)" using a by (simp add: validated_def after2_def)
  have le: "length (cl_array cl) \<le> length ?cs" by simp
  note p3 = pass3_fold [OF v2 le f3] and f3c = fold_pass3_focus [of pmp key "q_tid q" "[0..<length (cl_array cl)]" "(c2\<lparr>cl_error := 0\<rparr>, nflags, 0)"]
  then have v3: "validated key (q_tid q) ?cs ?errs c3" by simp
  have e: "agree key (q_tid q) ?cs i \<longrightarrow> ci_error (cl_array cl ! i) = 0" if "i < length (cl_array cl)" for i
    using p3 check_validate_ok [OF v3] z that by simp
  have fo: "focused pmp key ?cs (c2, q)" using focus_pass2 [OF assms(2) p2(2), of _ pmp key ?nq HAMMER2_TID_MAX] p2(1) by (metis quorum.select_convs(2))
  obtain f where f: "cl_focus c2 = Some f" using foc by blast
  have nq: "0 < ?nq" using assms(3) by (simp add: cluster_nquorum_def)
  then have "0 < q_nmasters q" using enough by simp
  then have ff: "(\<forall>i < length (cl_array cl). has_tid pmp key ?cs i (q_tid q) \<longrightarrow> ch_error (the (?cs ! i)) = 0) \<longrightarrow>
       f < length (cl_array cl) \<and> has_tid pmp key ?cs f (q_tid q)"
    using fo f by (auto simp: focused_def)
  have q: "(\<exists>t < HAMMER2_TID_MAX. ?nq \<le> votes pmp key ?cs t) \<and> q_tid q < HAMMER2_TID_MAX \<and>
        (\<forall>t < HAMMER2_TID_MAX. ?nq \<le> votes pmp key ?cs t \<longrightarrow> t \<le> q_tid q) \<and> ?nq \<le> votes pmp key ?cs (q_tid q)"
    using a enough unfolding after2_def by (cases "\<exists>t < HAMMER2_TID_MAX. ?nq \<le> votes pmp key ?cs t") auto
  have "validated key (q_tid q) ?cs ?errs cl'" using check_validate_ok [OF v3] cl' by simp
  moreover have "cl_focus cl' = Some f" using cl' f f3 f3c by simp
  ultimately show ?thesis using q e ff by (intro exI [of _ "q_tid q"] exI [of _ f]) blast
qed

text \<open>C11: A key check that succeeds rests on a quorum: more than half of the masters hold the key with the same
  transaction id, no higher transaction id below \<open>HAMMER2_TID_MAX\<close> has a quorum, every element that the check leaves
  valid holds the key with this transaction id, and none of the elements that agree on it reports an error.\<close>

theorem cluster_check_agreement:
  assumes "hammer2_cluster_check cl key flags = Some (0, cl')" "flags AND CHECK_NULL = 0" "cl_pmp cl = Some pmp"
  shows "\<exists>t. int (unat (pfs_nmasters pmp)) < 2 * votes pmp key (item_chains cl) t \<and> t < HAMMER2_TID_MAX \<and>
    (\<forall>u < HAMMER2_TID_MAX. int (unat (pfs_nmasters pmp)) < 2 * votes pmp key (item_chains cl) u \<longrightarrow> u \<le> t) \<and>
    (\<forall>i < length (cl_array cl). ci_flags (cl_array cl' ! i) AND CITEM_INVALID = 0 \<longrightarrow> agree key t (item_chains cl) i) \<and>
    (\<forall>i < length (cl_array cl). agree key t (item_chains cl) i \<longrightarrow> ci_error (cl_array cl ! i) = 0)"
proof -
  have nq: "cluster_nquorum cl \<le> v \<longleftrightarrow> int (unat (pfs_nmasters pmp)) < 2 * v" for v
    using assms(3) by (simp only: cluster_nquorum_def option.case) presburger
  obtain t where v: "validated key t (item_chains cl) (map ci_error (cl_array cl)) cl'"
    and t: "cluster_nquorum cl \<le> votes pmp key (item_chains cl) t" "t < HAMMER2_TID_MAX"
      "\<forall>u < HAMMER2_TID_MAX. cluster_nquorum cl \<le> votes pmp key (item_chains cl) u \<longrightarrow> u \<le> t"
      "\<forall>i < length (cl_array cl). agree key t (item_chains cl) i \<longrightarrow> ci_error (cl_array cl ! i) = 0"
    using check_zero [OF assms] by blast
  have "\<forall>i < length (cl_array cl). ci_flags (cl_array cl' ! i) AND CITEM_INVALID = 0 \<longrightarrow> agree key t (item_chains cl) i"
    using validatedD(4) [OF v] by simp
  then show ?thesis using t unfolding nq by blast
qed

text \<open>The focus of a check that succeeds.\<close>

lemma check_focus:
  assumes "hammer2_cluster_check cl key flags = Some (0, cl')" "flags AND CHECK_NULL = 0" "cl_pmp cl = Some pmp" "key \<noteq> - 1"
    and "\<And>i ch. i < length (cl_array cl) \<Longrightarrow> ci_chain (cl_array cl ! i) = Some ch \<Longrightarrow> ci_error (cl_array cl ! i) = 0 \<Longrightarrow> ch_error ch = 0"
  shows "\<exists>t f. cl_focus cl' = Some f \<and> f < length (cl_array cl) \<and> is_master pmp f \<and> agree key t (item_chains cl) f \<and>
    t < HAMMER2_TID_MAX \<and> cluster_nquorum cl \<le> votes pmp key (item_chains cl) t \<and>
    (\<forall>u < HAMMER2_TID_MAX. cluster_nquorum cl \<le> votes pmp key (item_chains cl) u \<longrightarrow> u \<le> t)"
proof -
  obtain t f where t: "cluster_nquorum cl \<le> votes pmp key (item_chains cl) t" "t < HAMMER2_TID_MAX"
      "\<forall>u < HAMMER2_TID_MAX. cluster_nquorum cl \<le> votes pmp key (item_chains cl) u \<longrightarrow> u \<le> t"
    and err: "\<forall>i < length (cl_array cl). agree key t (item_chains cl) i \<longrightarrow> ci_error (cl_array cl ! i) = 0"
    and f: "cl_focus cl' = Some f" "(\<forall>i < length (cl_array cl). has_tid pmp key (item_chains cl) i t \<longrightarrow> ch_error (the (item_chains cl ! i)) = 0) \<longrightarrow>
       f < length (cl_array cl) \<and> has_tid pmp key (item_chains cl) f t"
    using check_zero [OF assms(1,2,3)] by blast
  have ag: "agree key t (item_chains cl) i \<and> is_master pmp i" if "has_tid pmp key (item_chains cl) i t" for i
    using that assms(4) by (auto simp: has_tid_def agree_def split: option.splits)
  have "ch_error (the (item_chains cl ! i)) = 0" if i: "i < length (cl_array cl)" and h: "has_tid pmp key (item_chains cl) i t" for i
  proof -
    obtain ch where ch: "item_chains cl ! i = Some ch" using h by (auto simp: has_tid_def split: option.splits)
    have "ch_error ch = 0" using assms(5) [OF i, of ch] ch i err ag [OF h] by (simp add: item_chains_nth)
    then show ?thesis using ch by simp
  qed
  then have "f < length (cl_array cl)" "has_tid pmp key (item_chains cl) f t" using f(2) by blast+
  then show ?thesis using ag [of f] f(1) t by blast
qed

text \<open>C12: When every element whose chain has an error also reports one, a key check that succeeds leaves the focus on
  a master that holds the key with the highest transaction id that has a quorum.\<close>

theorem cluster_check_focus:
  assumes "hammer2_cluster_check cl key flags = Some (0, cl')" "flags AND CHECK_NULL = 0" "cl_pmp cl = Some pmp" "key \<noteq> - 1"
    and "\<And>i ch. i < length (cl_array cl) \<Longrightarrow> ci_chain (cl_array cl ! i) = Some ch \<Longrightarrow> ci_error (cl_array cl ! i) = 0 \<Longrightarrow> ch_error ch = 0"
  shows "\<exists>t f. cl_focus cl' = Some f \<and> f < length (cl_array cl) \<and> is_master pmp f \<and> agree key t (item_chains cl) f \<and>
    t < HAMMER2_TID_MAX \<and> cluster_nquorum cl \<le> votes pmp key (item_chains cl) t \<and>
    (\<forall>u < HAMMER2_TID_MAX. cluster_nquorum cl \<le> votes pmp key (item_chains cl) u \<longrightarrow> u \<le> t)"
  using check_focus [OF assms] .

text \<open>Without a quorum the check answers by what is still possible as far as it counts: when the masters that
  hold the key with transaction id 0, which is the only transaction id the last pass counts, and the masters that have
  not answered could make a quorum the answer is \<open>EINPROGRESS\<close>; otherwise it is \<open>ESRCH\<close> when too few masters hold the
  key at all and \<open>EDEADLK\<close> when they hold it with different transaction ids.\<close>

theorem cluster_check_decision:
  assumes "flags AND CHECK_NULL = 0" "cl_pmp cl = Some pmp"
    and "\<And>t. t < HAMMER2_TID_MAX \<Longrightarrow> votes pmp key (item_chains cl) t < cluster_nquorum cl"
  shows "map_option fst (hammer2_cluster_check cl key flags) =
    Some (if cluster_nquorum cl \<le> votes pmp key (item_chains cl) 0 + pending pmp cl then H2_EINPROGRESS
          else if key_votes pmp key (item_chains cl) < cluster_nquorum cl then H2_ESRCH else H2_EDEADLK)"
proof -
  obtain c2 q nflags m s where a: "after2 pmp key (cluster_nquorum cl) cl c2 q"
    and run: "hammer2_cluster_check cl key flags =
     Some (if q_nmasters q < cluster_nquorum cl
       then (if cluster_nquorum cl \<le> q_nmasters q + q_umasters q then (H2_EINPROGRESS, c2)
             else if q_keymatch q < cluster_nquorum cl then (H2_ESRCH, c2) else (H2_EDEADLK, c2))
       else if cl_focus c2 = None then (H2_EIO, c2)
       else check_found pmp key q m s
              (fold (check_pass3 pmp key (q_tid q)) [0..<length (cl_array cl)] (c2\<lparr>cl_error := 0\<rparr>, nflags, 0)))"
    using cluster_check_run [OF assms(1,2)] by blast
  have none: "\<not> (\<exists>t < HAMMER2_TID_MAX. cluster_nquorum cl \<le> votes pmp key (item_chains cl) t)" using assms(3) by (auto simp: not_le)
  have "q_tid q = 0" "q_nmasters q < cluster_nquorum cl" "q_nmasters q = votes pmp key (item_chains cl) (q_tid q)"
    "q_umasters q = pending pmp cl" "q_keymatch q = key_votes pmp key (item_chains cl)"
    using a unfolding after2_def if_not_P [OF none] by blast+
  then show ?thesis using run by simp
qed

section \<open>Examples\<close>

definition example_item :: "h2_tid \<Rightarrow> int \<Rightarrow> int \<Rightarrow> cluster_item" where
  "example_item t cherr err = \<lparr>ci_chain = Some \<lparr>ch_bref = bref_zero\<lparr>br_type := BREF_INODE, br_key := 9, br_modify_tid := t\<rparr>,
     ch_flags = 0, ch_error = cherr, ch_bytes = 1024\<rparr>, ci_error = err, ci_flags = 0\<rparr>"

definition example_cluster :: "cluster_item list \<Rightarrow> cluster" where
  "example_cluster items = \<lparr>cl_ddflag = False, cl_pmp = Some \<lparr>pfs_types = replicate (length items) PFSTYPE_MASTER,
     pfs_nmasters = of_nat (length items)\<rparr>, cl_flags = 0, cl_error = 0, cl_focus_index = 0, cl_focus = None, cl_array = items\<rparr>"

text \<open>Two masters agree on transaction id 5, the third one is ahead.\<close>

definition example_agree :: cluster where
  "example_agree = example_cluster [example_item 7 0 0, example_item 5 0 0, example_item 5 0 0]"

lemma example_agree_run: "map_option (\<lambda>(e, cl). (e, cl_focus cl, map ci_flags (cl_array cl)))
    (hammer2_cluster_check example_agree 9 0) = Some (0, Some 2, [1, 2, 2])"
  by code_simp

lemma example_agree_result: "\<exists>cl'. hammer2_cluster_check example_agree 9 0 = Some (0, cl')"
  using example_agree_run by (cases "hammer2_cluster_check example_agree 9 0") auto

theorem cluster_check_agreement_witness:
  "\<exists>t. 3 < 2 * votes \<lparr>pfs_types = replicate 3 PFSTYPE_MASTER, pfs_nmasters = 3\<rparr> 9 (item_chains example_agree) t"
proof -
  have pmp: "cl_pmp example_agree = Some \<lparr>pfs_types = replicate 3 PFSTYPE_MASTER, pfs_nmasters = 3\<rparr>" by code_simp
  have "(0 :: u32) AND CHECK_NULL = 0" by simp
  from example_agree_result obtain cl' where "hammer2_cluster_check example_agree 9 0 = Some (0, cl')" by blast
  from cluster_check_agreement [OF this \<open>(0 :: u32) AND CHECK_NULL = 0\<close> pmp] show ?thesis by auto
qed

theorem cluster_check_focus_witness:
  "\<exists>t f. f < 3 \<and> agree 9 t (item_chains example_agree) f"
proof -
  have pmp: "cl_pmp example_agree = Some \<lparr>pfs_types = replicate 3 PFSTYPE_MASTER, pfs_nmasters = 3\<rparr>" by code_simp
  have fl: "(0 :: u32) AND CHECK_NULL = 0" and key: "(9 :: h2_key) \<noteq> - 1" by simp_all
  have len: "length (cl_array example_agree) = 3" by code_simp
  have err: "ch_error ch = 0" if i: "i < length (cl_array example_agree)"
    and ch: "ci_chain (cl_array example_agree ! i) = Some ch" "ci_error (cl_array example_agree ! i) = 0" for i ch
  proof -
    have "i = 0 \<or> i = 1 \<or> i = 2" using i len by auto
    then show ?thesis using ch by (auto simp: example_agree_def example_cluster_def example_item_def)
  qed
  from example_agree_result obtain cl' where "hammer2_cluster_check example_agree 9 0 = Some (0, cl')" by blast
  from cluster_check_focus [OF this fl pmp key] err obtain t f where "f < length (cl_array example_agree)"
    "agree 9 t (item_chains example_agree) f" by blast
  then show ?thesis unfolding len by blast
qed

text \<open>Three masters: one answered with transaction id 5, one has not answered, one does not have the key. The answer of
the silent master could complete a quorum for 5, and the check says \<open>ESRCH\<close>.\<close>

definition example_pending :: cluster where
  "example_pending = example_cluster [example_item 5 0 0, \<lparr>ci_chain = None, ci_error = 0, ci_flags = 0\<rparr>,
     \<lparr>ci_chain = None, ci_error = 0, ci_flags = CITEM_NULL\<rparr>]"

theorem cluster_check_decision_witness:
  "map_option fst (hammer2_cluster_check example_pending 9 0) = Some H2_ESRCH"
proof -
  have pmp: "cl_pmp example_pending = Some \<lparr>pfs_types = replicate 3 PFSTYPE_MASTER, pfs_nmasters = 3\<rparr>" (is "_ = Some ?p") by code_simp
  have fl: "(0 :: u32) AND CHECK_NULL = 0" by simp
  have chains: "item_chains example_pending = [ci_chain (example_item 5 0 0), None, None]" by code_simp
  have nq: "cluster_nquorum example_pending = 2" by code_simp
  have has: "has_tid ?p 9 (item_chains example_pending) i t \<longleftrightarrow> i = 0 \<and> t = 5" if "i < 3" for i t
  proof -
    have "i = 0 \<or> i = 1 \<or> i = 2" using that by auto
    then show ?thesis unfolding chains
      by (auto simp: has_tid_def is_master_def example_item_def)
  qed
  have v: "votes ?p 9 (item_chains example_pending) t < cluster_nquorum example_pending" for t
    unfolding nq votes_def chains using has [unfolded chains] by (simp add: upt_rec)
  have "has_key ?p 9 (item_chains example_pending) i \<longleftrightarrow> i = 0" if "i < 3" for i using has [OF that] by (simp add: has_key_def)
  then have "key_votes ?p 9 (item_chains example_pending) < cluster_nquorum example_pending"
    unfolding nq key_votes_def chains by (simp add: upt_rec)
  moreover have "votes ?p 9 (item_chains example_pending) 0 + pending ?p example_pending < cluster_nquorum example_pending" by code_simp
  ultimately show ?thesis unfolding cluster_check_decision [OF fl pmp v] by simp
qed

text \<open>Two masters with transaction id 7 whose chains have errors and whose items report none: the check succeeds and
leaves the focus on the stale element of the third one.\<close>

lemma cluster_check_stale_focus:
  "map_option (\<lambda>(e, cl). (e, cl_focus cl, map ci_flags (cl_array cl)))
     (hammer2_cluster_check (example_cluster [example_item 5 0 0, example_item 7 1 0, example_item 7 1 0]) 9 0) =
   Some (0, Some 0, [1, 3, 3])"
  by code_simp

end
