(* ===== verification/H2_VolHdr.thy ===== *)
theory H2_VolHdr
  imports H2_Dirhash H2_Subr
begin

text \<open>
  The volume header: its layout and checksums (\<open>struct hammer2_volume_data\<close>), the reader that picks one
  of the four copies at mount time (\<open>hammer2_read_volume_header\<close> of \<open>hammer2_ondisk.c\<close>), and the writer
  of the flush, which stamps the checksums and puts the header into the next copy (\<open>hammer2_flush.c\<close>).

  A header is the 64 KB of bytes that the code casts to the struct, on a little-endian machine.  A device is
  its bytes, the blocks whose read fails, the disk label and the address of the buffer a read returns.
\<close>

section \<open>Layout\<close>

abbreviation (input) HAMMER2_VOLUME_BYTES :: nat where "HAMMER2_VOLUME_BYTES \<equiv> 65536"
abbreviation (input) HAMMER2_ZONE_BYTES64 :: int where "HAMMER2_ZONE_BYTES64 \<equiv> 2147483648"
abbreviation (input) HAMMER2_NUM_VOLHDRS :: nat where "HAMMER2_NUM_VOLHDRS \<equiv> 4"
abbreviation (input) HAMMER2_VOLUME_ID_HBO :: u64 where "HAMMER2_VOLUME_ID_HBO \<equiv> 0x48414d3205172011"
abbreviation (input) HAMMER2_VOLUME_ID_ABO :: u64 where "HAMMER2_VOLUME_ID_ABO \<equiv> 0x11201705324d4148"
abbreviation (input) HAMMER2_VOL_ICRC_SECT0 :: nat where "HAMMER2_VOL_ICRC_SECT0 \<equiv> 7"
abbreviation (input) HAMMER2_VOL_ICRC_SECT1 :: nat where "HAMMER2_VOL_ICRC_SECT1 \<equiv> 6"
abbreviation (input) DEV_BSIZE :: int where "DEV_BSIZE \<equiv> 512"
abbreviation (input) EINVAL_code :: int where "EINVAL_code \<equiv> 22"

type_synonym volume_data = "u8 list"

definition bytes_at :: "nat \<Rightarrow> nat \<Rightarrow> u8 list \<Rightarrow> u8 list" where
  "bytes_at off n vd = take n (drop off vd)"

text \<open>Little-endian words.\<close>

primrec le_word :: "u8 list \<Rightarrow> 'a::len word" where
  "le_word [] = 0"
| "le_word (b # bs) = ucast b OR push_bit 8 (le_word bs)"

definition le_bytes :: "nat \<Rightarrow> 'a::len word \<Rightarrow> u8 list" where
  "le_bytes n w = map (\<lambda>i. ucast (drop_bit (8 * i) w)) [0..<n]"

lemma length_le_bytes [simp]: "length (le_bytes n w) = n"
  by (simp add: le_bytes_def)

lemma bit_le_word: "bit (le_word bs :: 'a::len word) k \<longleftrightarrow> k < LENGTH('a) \<and> k < 8 * length bs \<and> bit (bs ! (k div 8)) (k mod 8)"
proof (induction bs arbitrary: k)
  case (Cons b bs)
  show ?case
  proof (cases "k < 8")
    case True
    then show ?thesis by (auto simp: bit_or_iff bit_push_bit_iff bit_ucast_iff dest: bit_imp_le_length)
  next
    case False
    then obtain j where j: "k = j + 8" by (metis add.commute le_Suc_ex not_le)
    have "\<not> bit b (j + 8)" using bit_imp_le_length [of b "j + 8"] by auto
    moreover have "(j + 8) div 8 = Suc (j div 8)" by simp
    ultimately show ?thesis using Cons.IH [of j] by (auto simp: j bit_or_iff bit_push_bit_iff bit_ucast_iff)
  qed
qed simp

lemma le_word_bytes: "LENGTH('a) \<le> 8 * n \<Longrightarrow> le_word (le_bytes n (w :: 'a::len word)) = w"
proof (rule bit_word_eqI)
  fix k assume "LENGTH('a) \<le> 8 * n" "k < LENGTH('a)"
  then have "k div 8 < n" by auto
  then show "bit (le_word (le_bytes n w) :: 'a word) k = bit w k"
    using \<open>k < LENGTH('a)\<close> \<open>LENGTH('a) \<le> 8 * n\<close> by (simp add: bit_le_word le_bytes_def bit_ucast_iff bit_drop_bit_eq)
qed

definition ld32 :: "nat \<Rightarrow> volume_data \<Rightarrow> u32" where
  "ld32 off vd = le_word (bytes_at off 4 vd)"

definition ld64 :: "nat \<Rightarrow> volume_data \<Rightarrow> u64" where
  "ld64 off vd = le_word (bytes_at off 8 vd)"

definition st_bytes :: "nat \<Rightarrow> u8 list \<Rightarrow> volume_data \<Rightarrow> volume_data" where
  "st_bytes off bs vd = take off vd @ bs @ drop (off + length bs) vd"

definition st32 :: "nat \<Rightarrow> u32 \<Rightarrow> volume_data \<Rightarrow> volume_data" where
  "st32 off w = st_bytes off (le_bytes 4 w)"

definition st64 :: "nat \<Rightarrow> u64 \<Rightarrow> volume_data \<Rightarrow> volume_data" where
  "st64 off w = st_bytes off (le_bytes 8 w)"

text \<open>The fields, by their offsets.\<close>

definition vd_magic :: "volume_data \<Rightarrow> u64" where "vd_magic = ld64 0"
definition vd_volu_size :: "volume_data \<Rightarrow> h2_off" where "vd_volu_size = ld64 0x28"
definition vd_version :: "volume_data \<Rightarrow> u32" where "vd_version = ld32 0x30"
definition vd_volu_id :: "volume_data \<Rightarrow> u8" where "vd_volu_id vd = vd ! 0x3B"
definition vd_nvolumes :: "volume_data \<Rightarrow> u8" where "vd_nvolumes vd = vd ! 0x3C"
definition vd_fsid :: "volume_data \<Rightarrow> u8 list" where "vd_fsid = bytes_at 0x40 16"
definition vd_fstype :: "volume_data \<Rightarrow> u8 list" where "vd_fstype = bytes_at 0x50 16"
definition vd_mirror_tid :: "volume_data \<Rightarrow> h2_tid" where "vd_mirror_tid = ld64 0x78"
definition vd_total_size :: "volume_data \<Rightarrow> h2_off" where "vd_total_size = ld64 0xC0"
definition vd_icrc_sects :: "volume_data \<Rightarrow> nat \<Rightarrow> u32" where "vd_icrc_sects vd i = ld32 (0x1E0 + 4 * i) vd"
definition vd_volu_loff :: "volume_data \<Rightarrow> nat \<Rightarrow> h2_off" where "vd_volu_loff vd i = ld64 (0xE00 + 8 * i) vd"
definition vd_icrc_volheader :: "volume_data \<Rightarrow> u32" where "vd_icrc_volheader = ld32 0xFFFC"

lemma length_st_bytes [simp]: "off + length bs \<le> length vd \<Longrightarrow> length (st_bytes off bs vd) = length vd"
  by (simp add: st_bytes_def)

lemma bytes_at_same: "off + length bs \<le> length vd \<Longrightarrow> bytes_at off (length bs) (st_bytes off bs vd) = bs"
  by (simp add: bytes_at_def st_bytes_def)

lemma bytes_at_before: "a + n \<le> off \<Longrightarrow> off \<le> length vd \<Longrightarrow> bytes_at a n (st_bytes off bs vd) = bytes_at a n vd"
  by (simp add: bytes_at_def st_bytes_def take_drop min_absorb1)

lemma bytes_at_after: "off + length bs \<le> a \<Longrightarrow> off + length bs \<le> length vd \<Longrightarrow> bytes_at a n (st_bytes off bs vd) = bytes_at a n vd"
  by (simp add: bytes_at_def st_bytes_def)

lemma ld32_st32 [simp]: "off + 4 \<le> length vd \<Longrightarrow> ld32 off (st32 off w vd) = w"
  using bytes_at_same [of off "le_bytes 4 w" vd] by (simp add: ld32_def st32_def le_word_bytes)

lemma ld64_st64 [simp]: "off + 8 \<le> length vd \<Longrightarrow> ld64 off (st64 off w vd) = w"
  using bytes_at_same [of off "le_bytes 8 w" vd] by (simp add: ld64_def st64_def le_word_bytes)

text \<open>A store leaves the bytes before and after it alone.\<close>

lemma bytes_at_st32:
  "off + 4 \<le> length vd \<Longrightarrow> a + n \<le> off \<or> off + 4 \<le> a \<Longrightarrow> bytes_at a n (st32 off w vd) = bytes_at a n vd"
  by (auto simp: st32_def bytes_at_before bytes_at_after)

lemma bytes_at_st64:
  "off + 8 \<le> length vd \<Longrightarrow> a + n \<le> off \<or> off + 8 \<le> a \<Longrightarrow> bytes_at a n (st64 off w vd) = bytes_at a n vd"
  by (auto simp: st64_def bytes_at_before bytes_at_after)

lemma length_st32 [simp]: "off + 4 \<le> length vd \<Longrightarrow> length (st32 off w vd) = length vd"
  by (simp add: st32_def)

lemma length_st64 [simp]: "off + 8 \<le> length vd \<Longrightarrow> length (st64 off w vd) = length vd"
  by (simp add: st64_def)

section \<open>The device\<close>

record vdev =
  dv_label :: "int + u32 \<times> u32"
  dv_media :: "nat \<Rightarrow> u8"
  dv_bad :: "nat set"
  dv_buf :: "nat \<Rightarrow> nat"

text \<open>\<open>VOP_IOCTL(devvp, DIOCGDINFO)\<close>: an errno, or the sectors and the sector size; the product is an \<open>off_t\<close>.\<close>

definition mediasize_of :: "u32 \<times> u32 \<Rightarrow> u64" where
  "mediasize_of l = ucast (fst l) * ucast (snd l)"

definition read_media :: "(nat \<Rightarrow> u8) \<Rightarrow> nat \<Rightarrow> nat \<Rightarrow> u8 list" where
  "read_media m off n = map m [off..<off + n]"

definition write_media :: "(nat \<Rightarrow> u8) \<Rightarrow> nat \<Rightarrow> u8 list \<Rightarrow> nat \<Rightarrow> u8" where
  "write_media m off bs a = (if off \<le> a \<and> a < off + length bs then bs ! (a - off) else m a)"

text \<open>\<open>bread\<close> of one header: \<open>None\<close> when the read fails.\<close>

definition bread_hdr :: "vdev \<Rightarrow> nat \<Rightarrow> volume_data option" where
  "bread_hdr d blkno = (if blkno \<in> dv_bad d then None else Some (read_media (dv_media d) (blkno * 512) HAMMER2_VOLUME_BYTES))"

lemma length_read_media [simp]: "length (read_media m off n) = n"
  by (simp add: read_media_def)

lemma read_write_same: "read_media (write_media m off bs) off (length bs) = bs"
  by (rule nth_equalityI) (simp_all add: read_media_def write_media_def)

lemma read_write_other: "off + length bs \<le> a \<or> a + n \<le> off \<Longrightarrow> read_media (write_media m off bs) a n = read_media m a n"
  by (auto simp: read_media_def write_media_def)

section \<open>hammer2_read_volume_header\<close>

definition volhdr_crc_sect0 :: "nat \<Rightarrow> volume_data \<Rightarrow> u32" where
  "volhdr_crc_sect0 addr vd = iscsi_crc32 addr (bytes_at 0 (512 - 4) vd)"

definition volhdr_crc_sect1 :: "nat \<Rightarrow> volume_data \<Rightarrow> u32" where
  "volhdr_crc_sect1 addr vd = iscsi_crc32 (addr + 512) (bytes_at 512 512 vd)"

definition volhdr_crc_vh :: "nat \<Rightarrow> volume_data \<Rightarrow> u32" where
  "volhdr_crc_vh addr vd = iscsi_crc32 addr (bytes_at 0 (65536 - 4) vd)"

definition read_header_step :: "vdev \<Rightarrow> nat \<Rightarrow> int \<times> volume_data \<Rightarrow> int \<times> volume_data" where
  "read_header_step d i st = (case st of (zone, voldata) \<Rightarrow>
     (case dv_label d of
        Inl error \<Rightarrow> st
      | Inr dl \<Rightarrow>
          (let mediasize = mediasize_of dl; blkoff = int i * HAMMER2_ZONE_BYTES64 in
           if sint mediasize \<le> blkoff then st
           else
             (let blkno = nat (blkoff div DEV_BSIZE); addr = dv_buf d blkno in
              case bread_hdr d blkno of
                None \<Rightarrow> st
              | Some vd \<Rightarrow>
                  if vd_magic vd \<noteq> HAMMER2_VOLUME_ID_HBO \<and> vd_magic vd \<noteq> HAMMER2_VOLUME_ID_ABO then st
                  else if vd_magic vd = HAMMER2_VOLUME_ID_ABO then st
                  else if vd_icrc_sects vd HAMMER2_VOL_ICRC_SECT0 \<noteq> volhdr_crc_sect0 addr vd then st
                  else if vd_icrc_sects vd HAMMER2_VOL_ICRC_SECT1 \<noteq> volhdr_crc_sect1 addr vd then st
                  else if vd_icrc_volheader vd \<noteq> volhdr_crc_vh addr vd then st
                  else if zone = - 1 \<or> vd_mirror_tid voldata < vd_mirror_tid vd then (int i, vd) else st))))"

text \<open>The zone, or a negative errno, and the header buffer.\<close>

definition hammer2_read_volume_header :: "vdev \<Rightarrow> volume_data \<Rightarrow> int \<times> volume_data" where
  "hammer2_read_volume_header d voldata =
     (case fold (read_header_step d) [0..<HAMMER2_NUM_VOLHDRS] (- 1, voldata) of
        (zone, voldata) \<Rightarrow> (if zone = - 1 then (- EINVAL_code, voldata) else (zone, voldata)))"

section \<open>The writer\<close>

text \<open>The fields of \<open>hammer2_dev_t\<close> that the writer uses; \<open>vh_addr\<close> is the address of \<open>voldata\<close>.\<close>

record volhdr =
  vh_voldata :: volume_data
  vh_volsync :: volume_data
  vh_volhdrno :: int
  vh_modified :: bool
  vh_volumesync :: bool
  vh_bref_mirror_tid :: h2_tid
  vh_addr :: nat

definition hammer2_voldata_modify :: "volhdr \<Rightarrow> volhdr" where
  "hammer2_voldata_modify h =
     (if \<not> vh_modified h then h\<lparr>vh_modified := True, vh_bref_mirror_tid := vd_mirror_tid (vh_voldata h) + 1\<rparr> else h)"

definition stamp_icrc :: "nat \<Rightarrow> volume_data \<Rightarrow> volume_data" where
  "stamp_icrc addr vd =
     (let vd = st32 (0x1E0 + 4 * HAMMER2_VOL_ICRC_SECT1) (volhdr_crc_sect1 addr vd) vd;
          vd = st32 (0x1E0 + 4 * HAMMER2_VOL_ICRC_SECT0) (volhdr_crc_sect0 addr vd) vd
      in st32 0xFFFC (volhdr_crc_vh addr vd) vd)"

text \<open>The volume case of \<open>hammer2_flush_core\<close>: the chain loses its modified flag before.  The transaction id of the
volume chain is the one that \<open>hammer2_voldata_modify\<close> set.  That \<open>hammer2_chain_modify\<close> (\<open>hammer2_chain.c\<close>) sets
it again when the flush updates the block table of the volume, after the freemap case may have advanced the id of the header, is
not modelled; a commit can then advance the id by two.\<close>

definition flush_volume :: "volhdr \<Rightarrow> volhdr" where
  "flush_volume h =
     (let vd = vh_voldata h;
          vd = (if vd_mirror_tid vd < vh_bref_mirror_tid h then st64 0x78 (vh_bref_mirror_tid h) vd else vd);
          vd = stamp_icrc (vh_addr h) vd
      in h\<lparr>vh_voldata := vd, vh_volsync := vd, vh_volumesync := True, vh_modified := False\<rparr>)"

text \<open>The copy that the next header goes to.\<close>

definition volhdr_next :: "int \<Rightarrow> volume_data \<Rightarrow> int" where
  "volhdr_next volhdrno volsync =
     (let j = volhdrno + 1;
          j = (if j < 0 then 0 else j);
          j = (if int HAMMER2_NUM_VOLHDRS \<le> j then 0 else j)
      in if uint (vd_volu_size volsync) < j * HAMMER2_ZONE_BYTES64 + HAMMER2_SEGSIZE then 0 else j)"

text \<open>The end of \<open>hammer2_xop_inode_flush\<close>: the results of the \<open>VOP_FSYNC\<close> of the devices, one after the other
in one variable, the cache flush of the root device, and the write of the header.  A write that fails, or that a
crash interrupts, leaves some bytes in the copy.\<close>

definition fsync_devices :: "errno list \<Rightarrow> errno" where
  "fsync_devices errs = fold (\<lambda>error _. error) errs E_OK"

definition volhdr_sync ::
  "u32 \<Rightarrow> errno list \<Rightarrow> errno \<Rightarrow> (errno \<times> volume_data) option \<Rightarrow> volhdr \<times> vdev \<Rightarrow> u32 \<times> volhdr \<times> vdev" where
  "volhdr_sync flush_error fsyncs cachesync failed st = (case st of (h, d) \<Rightarrow>
     (let fsync_error = fsync_devices fsyncs;
          (fsync_error, h, d) =
            (if fsync_error = E_OK \<and> flush_error = 0 \<and> vh_volumesync h then
               (let fsync_error = cachesync;
                    j = volhdr_next (vh_volhdrno h) (vh_volsync h);
                    blkno = nat (j * HAMMER2_ZONE_BYTES64 div DEV_BSIZE);
                    h = h\<lparr>vh_volumesync := False\<rparr>;
                    (vol_error, bytes) = (case failed of None \<Rightarrow> (E_OK, vh_volsync h) | Some (e, left) \<Rightarrow> (e, left));
                    d = d\<lparr>dv_media := write_media (dv_media d) (blkno * 512) bytes\<rparr>;
                    h = h\<lparr>vh_volhdrno := j\<rparr>
                in (if vol_error \<noteq> E_OK then vol_error else fsync_error, h, d))
             else (fsync_error, h, d));
          total_error = (if flush_error \<noteq> 0 then flush_error else 0);
          total_error = (if fsync_error \<noteq> E_OK then hammer2_errno_to_error fsync_error else total_error)
      in (total_error, h, d)))"

section \<open>The copies of a header\<close>

definition hdr_valid :: "volume_data \<Rightarrow> bool" where
  "hdr_valid vd \<longleftrightarrow> vd_magic vd = HAMMER2_VOLUME_ID_HBO \<and>
     vd_icrc_sects vd HAMMER2_VOL_ICRC_SECT0 = volhdr_crc_sect0 0 vd \<and>
     vd_icrc_sects vd HAMMER2_VOL_ICRC_SECT1 = volhdr_crc_sect1 0 vd \<and>
     vd_icrc_volheader vd = volhdr_crc_vh 0 vd"

definition hdr_copy :: "vdev \<Rightarrow> nat \<Rightarrow> volume_data" where
  "hdr_copy d i = read_media (dv_media d) (i * 2147483648) HAMMER2_VOLUME_BYTES"

text \<open>Copy \<open>i\<close> can be read: the device is large enough and the block is not bad.\<close>

definition copy_readable :: "vdev \<Rightarrow> nat \<Rightarrow> bool" where
  "copy_readable d i \<longleftrightarrow> (\<exists>dl. dv_label d = Inr dl \<and> int i * HAMMER2_ZONE_BYTES64 < sint (mediasize_of dl)) \<and>
     i * 4194304 \<notin> dv_bad d"

definition copy_valid :: "vdev \<Rightarrow> nat \<Rightarrow> bool" where
  "copy_valid d i \<longleftrightarrow> copy_readable d i \<and> hdr_valid (hdr_copy d i)"

lemma crc_addr:
  "volhdr_crc_sect0 addr vd = volhdr_crc_sect0 0 vd" "volhdr_crc_sect1 addr vd = volhdr_crc_sect1 0 vd"
  "volhdr_crc_vh addr vd = volhdr_crc_vh 0 vd"
  by (simp_all add: volhdr_crc_sect0_def volhdr_crc_sect1_def volhdr_crc_vh_def iscsi_crc32_reference)

lemma copy_block: "nat (int i * HAMMER2_ZONE_BYTES64 div DEV_BSIZE) = i * 4194304"
proof -
  have "int i * HAMMER2_ZONE_BYTES64 div DEV_BSIZE = int (i * 4194304)" by simp
  then show ?thesis by (simp only: nat_int)
qed

lemma read_header_step_eq:
  "read_header_step d i (zone, vd0) =
     (if copy_valid d i \<and> (zone = - 1 \<or> vd_mirror_tid vd0 < vd_mirror_tid (hdr_copy d i)) then (int i, hdr_copy d i) else (zone, vd0))"
proof (cases "copy_readable d i")
  case False
  then have no: "\<not> copy_valid d i" by (simp add: copy_valid_def)
  have "read_header_step d i (zone, vd0) = (zone, vd0)"
  proof (cases "dv_label d")
    case (Inr dl)
    then have "sint (mediasize_of dl) \<le> int i * HAMMER2_ZONE_BYTES64 \<or> bread_hdr d (i * 4194304) = None"
      using False by (auto simp: copy_readable_def bread_hdr_def)
    then show ?thesis unfolding read_header_step_def copy_block Let_def using Inr by auto
  qed (simp add: read_header_step_def)
  then show ?thesis using no by simp
next
  case True
  then obtain dl where dl: "dv_label d = Inr dl" "\<not> sint (mediasize_of dl) \<le> int i * HAMMER2_ZONE_BYTES64"
    and good: "i * 4194304 \<notin> dv_bad d" by (auto simp: copy_readable_def)
  have off: "i * 4194304 * 512 = i * 2147483648" by simp
  have b: "bread_hdr d (i * 4194304) = Some (hdr_copy d i)"
    unfolding bread_hdr_def hdr_copy_def off by (simp only: good if_False)
  have m: "HAMMER2_VOLUME_ID_HBO \<noteq> HAMMER2_VOLUME_ID_ABO" by simp
  let ?vd = "hdr_copy d i"
  have "read_header_step d i (zone, vd0) =
      (if vd_magic ?vd \<noteq> HAMMER2_VOLUME_ID_HBO \<and> vd_magic ?vd \<noteq> HAMMER2_VOLUME_ID_ABO then (zone, vd0)
       else if vd_magic ?vd = HAMMER2_VOLUME_ID_ABO then (zone, vd0)
       else if vd_icrc_sects ?vd HAMMER2_VOL_ICRC_SECT0 \<noteq> volhdr_crc_sect0 0 ?vd then (zone, vd0)
       else if vd_icrc_sects ?vd HAMMER2_VOL_ICRC_SECT1 \<noteq> volhdr_crc_sect1 0 ?vd then (zone, vd0)
       else if vd_icrc_volheader ?vd \<noteq> volhdr_crc_vh 0 ?vd then (zone, vd0)
       else if zone = - 1 \<or> vd_mirror_tid vd0 < vd_mirror_tid ?vd then (int i, ?vd) else (zone, vd0))"
    unfolding read_header_step_def copy_block Let_def crc_addr [of "dv_buf d (i * 4194304)"] prod.case dl(1) sum.case b option.case if_not_P [OF dl(2)] ..
  then show ?thesis using True m unfolding copy_valid_def hdr_valid_def
    by (cases "vd_magic ?vd = HAMMER2_VOLUME_ID_HBO") simp_all
qed

text \<open>Among the first \<open>n\<close> copies the reader keeps the first one with the highest transaction id.\<close>

definition best_copy :: "vdev \<Rightarrow> nat \<Rightarrow> nat \<Rightarrow> bool" where
  "best_copy d n z \<longleftrightarrow> z < n \<and> copy_valid d z \<and>
     (\<forall>i < n. copy_valid d i \<longrightarrow> vd_mirror_tid (hdr_copy d i) \<le> vd_mirror_tid (hdr_copy d z) \<and>
        (vd_mirror_tid (hdr_copy d i) = vd_mirror_tid (hdr_copy d z) \<longrightarrow> z \<le> i))"

lemma read_fold:
  "(\<exists>i < n. copy_valid d i) \<longrightarrow> (\<exists>z. best_copy d n z \<and> fold (read_header_step d) [0..<n] (- 1, vd0) = (int z, hdr_copy d z))"
  "(\<forall>i < n. \<not> copy_valid d i) \<longrightarrow> fold (read_header_step d) [0..<n] (- 1, vd0) = (- 1, vd0)"
proof (induction n)
  case (Suc n)
  case 1
  show ?case
  proof (cases "\<exists>i < n. copy_valid d i")
    case True
    then obtain z where z: "best_copy d n z" "fold (read_header_step d) [0..<n] (- 1, vd0) = (int z, hdr_copy d z)" using Suc.IH by blast
    let ?new = "copy_valid d n \<and> vd_mirror_tid (hdr_copy d z) < vd_mirror_tid (hdr_copy d n)"
    have run: "fold (read_header_step d) [0..<Suc n] (- 1, vd0) = (if ?new then (int n, hdr_copy d n) else (int z, hdr_copy d z))"
      using z(2) by (simp add: read_header_step_eq)
    have "best_copy d (Suc n) (if ?new then n else z)"
      using z(1) unfolding best_copy_def by (auto simp: less_Suc_eq dest: le_less_trans)
    then show ?thesis using run by (auto split: if_splits)
  next
    case False
    then have f: "fold (read_header_step d) [0..<n] (- 1, vd0) = (- 1, vd0)" using Suc.IH by blast
    show ?thesis
    proof
      assume "\<exists>i < Suc n. copy_valid d i"
      then have v: "copy_valid d n" using False by (auto simp: less_Suc_eq)
      then have "best_copy d (Suc n) n" using False by (auto simp: best_copy_def less_Suc_eq)
      then show "\<exists>z. best_copy d (Suc n) z \<and> fold (read_header_step d) [0..<Suc n] (- 1, vd0) = (int z, hdr_copy d z)"
        using f v by (auto simp: read_header_step_eq)
    qed
  qed
next
  case (Suc n)
  case 2
  then show ?case using Suc.IH by (auto simp: read_header_step_eq)
qed simp_all

lemma best_copy_unique: "best_copy d n z \<Longrightarrow> best_copy d n y \<Longrightarrow> z = y"
  unfolding best_copy_def by (meson order_antisym)

lemma read_best: "best_copy d HAMMER2_NUM_VOLHDRS z \<Longrightarrow> hammer2_read_volume_header d vd0 = (int z, hdr_copy d z)"
proof -
  assume z: "best_copy d HAMMER2_NUM_VOLHDRS z"
  then have "\<exists>i < HAMMER2_NUM_VOLHDRS. copy_valid d i" by (auto simp: best_copy_def)
  then obtain y where "best_copy d HAMMER2_NUM_VOLHDRS y" "fold (read_header_step d) [0..<HAMMER2_NUM_VOLHDRS] (- 1, vd0) = (int y, hdr_copy d y)"
    using read_fold by blast
  then show ?thesis using best_copy_unique [OF z] unfolding hammer2_read_volume_header_def by simp
qed

end
