(* ===== verification/H2_VolHdrProps.thy ===== *)
theory H2_VolHdrProps
  imports H2_VolHdr
begin

text \<open>
  The commit of the volume header: what the flush stamps and writes is what a later mount reads, and a crash
  in the middle of the write leaves the header that was committed before, unless the new one was written whole.
  An edit of the header (\<open>edit_ok\<close>) may advance its transaction id once, as the freemap case of the flush does; the id of
  the volume chain is set by \<open>hammer2_voldata_modify\<close> only, so a commit here advances the id by one.
\<close>

section \<open>Stamping\<close>

definition stamped_apart :: "nat \<Rightarrow> nat \<Rightarrow> bool" where
  "stamped_apart a n \<longleftrightarrow> (a + n \<le> 0x1F8 \<or> 0x200 \<le> a) \<and> a + n \<le> 0xFFFC"

text \<open>The checksums do not cover themselves, so the stamped header is valid and the rest of it is unchanged.\<close>

lemma bytes_at_stamp:
  assumes "length vd = HAMMER2_VOLUME_BYTES" "stamped_apart a n"
  shows "bytes_at a n (stamp_icrc addr vd) = bytes_at a n vd"
  using assms by (auto simp: stamp_icrc_def Let_def stamped_apart_def bytes_at_st32)

lemma length_stamp [simp]: "length vd = HAMMER2_VOLUME_BYTES \<Longrightarrow> length (stamp_icrc addr vd) = HAMMER2_VOLUME_BYTES"
  by (simp add: stamp_icrc_def Let_def)

lemma field_stamp:
  assumes "length vd = HAMMER2_VOLUME_BYTES"
  shows "vd_magic (stamp_icrc addr vd) = vd_magic vd" "vd_volu_size (stamp_icrc addr vd) = vd_volu_size vd"
    "vd_mirror_tid (stamp_icrc addr vd) = vd_mirror_tid vd"
  using bytes_at_stamp [OF assms] by (simp_all add: vd_magic_def vd_volu_size_def vd_mirror_tid_def ld64_def stamped_apart_def)

lemma stamp_valid:
  assumes "length vd = HAMMER2_VOLUME_BYTES" "vd_magic vd = HAMMER2_VOLUME_ID_HBO"
  shows "hdr_valid (stamp_icrc addr vd)"
proof -
  let ?v1 = "st32 0x1F8 (volhdr_crc_sect1 addr vd) vd"
  let ?v2 = "st32 0x1FC (volhdr_crc_sect0 addr ?v1) ?v1"
  let ?v3 = "st32 0xFFFC (volhdr_crc_vh addr ?v2) ?v2"
  have st: "stamp_icrc addr vd = ?v3" by (simp add: stamp_icrc_def Let_def)
  have l: "length ?v1 = HAMMER2_VOLUME_BYTES" "length ?v2 = HAMMER2_VOLUME_BYTES" using assms(1) by simp_all
  have s1: "bytes_at 512 512 ?v3 = bytes_at 512 512 vd" using assms(1) l by (simp add: bytes_at_st32)
  have s0: "bytes_at 0 508 ?v3 = bytes_at 0 508 ?v1" using l by (simp add: bytes_at_st32)
  have vh: "bytes_at 0 65532 ?v3 = bytes_at 0 65532 ?v2" using l by (simp add: bytes_at_st32)
  have i1: "ld32 0x1F8 ?v3 = ld32 0x1F8 ?v1" using l by (simp add: ld32_def bytes_at_st32)
  have i0: "ld32 0x1FC ?v3 = ld32 0x1FC ?v2" using l by (simp add: ld32_def bytes_at_st32)
  have "vd_icrc_sects ?v3 HAMMER2_VOL_ICRC_SECT1 = volhdr_crc_sect1 0 ?v3"
    using i1 s1 assms(1) by (simp add: vd_icrc_sects_def volhdr_crc_sect1_def iscsi_crc32_reference)
  moreover have "vd_icrc_sects ?v3 HAMMER2_VOL_ICRC_SECT0 = volhdr_crc_sect0 0 ?v3"
    using i0 s0 l by (simp add: vd_icrc_sects_def volhdr_crc_sect0_def iscsi_crc32_reference)
  moreover have "vd_icrc_volheader ?v3 = volhdr_crc_vh 0 ?v3"
    using vh l by (simp add: vd_icrc_volheader_def volhdr_crc_vh_def iscsi_crc32_reference)
  moreover have "vd_magic ?v3 = HAMMER2_VOLUME_ID_HBO" using field_stamp(1) [OF assms(1), of addr] assms(2) st by simp
  ultimately show ?thesis unfolding hdr_valid_def st by blast
qed

lemma field_st_tid:
  assumes "length vd = HAMMER2_VOLUME_BYTES"
  shows "vd_magic (st64 0x78 t vd) = vd_magic vd" "vd_volu_size (st64 0x78 t vd) = vd_volu_size vd"
    "vd_mirror_tid (st64 0x78 t vd) = t" "length (st64 0x78 t vd) = HAMMER2_VOLUME_BYTES"
  using assms by (simp_all add: vd_magic_def vd_volu_size_def vd_mirror_tid_def ld64_def [of 0] ld64_def [of "0x28"] bytes_at_st64)

section \<open>The next copy\<close>

lemma volhdr_next_cases:
  assumes "z < HAMMER2_NUM_VOLHDRS"
  shows "\<exists>z'. volhdr_next (int z) vd = int z' \<and> z' < HAMMER2_NUM_VOLHDRS \<and>
    (z' = 0 \<or> int z' * HAMMER2_ZONE_BYTES64 + HAMMER2_SEGSIZE \<le> uint (vd_volu_size vd)) \<and>
    (HAMMER2_ZONE_BYTES64 + HAMMER2_SEGSIZE \<le> uint (vd_volu_size vd) \<longrightarrow> z' \<noteq> z)"
proof -
  let ?j = "if z + 1 < HAMMER2_NUM_VOLHDRS then z + 1 else 0"
  let ?z = "if uint (vd_volu_size vd) < int ?j * HAMMER2_ZONE_BYTES64 + HAMMER2_SEGSIZE then 0 else ?j"
  have "volhdr_next (int z) vd = int ?z" using assms by (simp add: volhdr_next_def Let_def)
  moreover have "?z \<noteq> z" if "HAMMER2_ZONE_BYTES64 + HAMMER2_SEGSIZE \<le> uint (vd_volu_size vd)"
    using that assms by (cases "z = 0") auto
  ultimately show ?thesis by (intro exI [of _ ?z]) auto
qed

lemma copy_write_same: "length bs = HAMMER2_VOLUME_BYTES \<Longrightarrow>
    hdr_copy (d\<lparr>dv_media := write_media (dv_media d) (z * 2147483648) bs\<rparr>) z = bs"
  using read_write_same [of "dv_media d" "z * 2147483648" bs] by (simp add: hdr_copy_def)

lemma copy_write_other:
  assumes "length bs = HAMMER2_VOLUME_BYTES" "i \<noteq> z"
  shows "hdr_copy (d\<lparr>dv_media := write_media (dv_media d) (z * 2147483648) bs\<rparr>) i = hdr_copy d i"
proof -
  have "z * 2147483648 + 65536 \<le> i * 2147483648 \<or> i * 2147483648 + 65536 \<le> z * 2147483648"
    using assms(2) by (cases "i < z") auto
  then show ?thesis using read_write_other [of "z * 2147483648" bs "i * 2147483648" HAMMER2_VOLUME_BYTES "dv_media d"] assms(1)
    unfolding hdr_copy_def by simp
qed

lemma copy_readable_write [simp]: "copy_readable (d\<lparr>dv_media := m\<rparr>) i = copy_readable d i"
  by (simp add: copy_readable_def)

section \<open>Commits\<close>

lemma word_less_Suc: "w \<noteq> - 1 \<Longrightarrow> w < w + 1" for w :: "'a::len word"
proof -
  assume "w \<noteq> - 1"
  then have "1 + w \<noteq> 0" by (metis add.commute eq_neg_iff_add_eq_0)
  then show ?thesis by (simp add: word_less_nat_alt unatSuc add.commute)
qed

text \<open>What other parts of the file system do to the header in memory between two flushes: they change any field but
the signature and the size, and may take one more transaction id.\<close>

definition edit_ok :: "(volume_data \<Rightarrow> volume_data) \<Rightarrow> bool" where
  "edit_ok f \<longleftrightarrow> (\<forall>vd. length vd = HAMMER2_VOLUME_BYTES \<longrightarrow> length (f vd) = HAMMER2_VOLUME_BYTES \<and> vd_magic (f vd) = vd_magic vd \<and>
     vd_volu_size (f vd) = vd_volu_size vd \<and> (vd_mirror_tid (f vd) = vd_mirror_tid vd \<or> vd_mirror_tid (f vd) = vd_mirror_tid vd + 1))"

lemma tid_room: "unat (t :: h2_tid) + 1 < 2 ^ 64 \<Longrightarrow> t \<noteq> - 1"
  by (auto simp: unsigned_minus_1_eq_mask mask_eq_exp_minus_1)

definition prepare :: "(volume_data \<Rightarrow> volume_data) \<Rightarrow> volhdr \<Rightarrow> volhdr" where
  "prepare f h = (let h = hammer2_voldata_modify h in flush_volume (h\<lparr>vh_voldata := f (vh_voldata h)\<rparr>))"

definition commit :: "(volume_data \<Rightarrow> volume_data) \<Rightarrow> (errno \<times> volume_data) option \<Rightarrow> volhdr \<times> vdev \<Rightarrow> u32 \<times> volhdr \<times> vdev" where
  "commit f failed st = volhdr_sync 0 [] E_OK failed (prepare f (fst st), snd st)"

definition commits :: "(volume_data \<Rightarrow> volume_data) list \<Rightarrow> volhdr \<times> vdev \<Rightarrow> volhdr \<times> vdev" where
  "commits fs st = fold (\<lambda>f st. snd (commit f None st)) fs st"

text \<open>The state between two flushes: the header of the last commit, with the transaction id in memory, is the one that
a mount would pick, and every copy that the writer can choose is readable.\<close>

definition committed :: "volhdr \<times> vdev \<Rightarrow> bool" where
  "committed st \<longleftrightarrow> (case st of (h, d) \<Rightarrow> \<not> vh_modified h \<and> length (vh_voldata h) = HAMMER2_VOLUME_BYTES \<and>
     vd_magic (vh_voldata h) = HAMMER2_VOLUME_ID_HBO \<and> copy_readable d 0 \<and>
     (\<forall>i < HAMMER2_NUM_VOLHDRS. int i * HAMMER2_ZONE_BYTES64 + HAMMER2_SEGSIZE \<le> uint (vd_volu_size (vh_voldata h)) \<longrightarrow> copy_readable d i) \<and>
     (\<exists>z. vh_volhdrno h = int z \<and> best_copy d HAMMER2_NUM_VOLHDRS z \<and>
        vd_mirror_tid (hdr_copy d z) = vd_mirror_tid (vh_voldata h)))"

lemma prepare_facts:
  assumes "committed (h, d)" "edit_ok f" "vd_mirror_tid (vh_voldata h) \<noteq> - 1"
  shows "length (vh_volsync (prepare f h)) = HAMMER2_VOLUME_BYTES" "hdr_valid (vh_volsync (prepare f h))"
    "vd_magic (vh_volsync (prepare f h)) = HAMMER2_VOLUME_ID_HBO"
    "vd_volu_size (vh_volsync (prepare f h)) = vd_volu_size (vh_voldata h)"
    "vd_mirror_tid (vh_volsync (prepare f h)) = vd_mirror_tid (vh_voldata h) + 1"
    "vh_voldata (prepare f h) = vh_volsync (prepare f h)" "vh_volumesync (prepare f h)" "\<not> vh_modified (prepare f h)"
    "vh_volhdrno (prepare f h) = vh_volhdrno h"
    "stamped_apart a n \<Longrightarrow> a + n \<le> 0x78 \<or> 0x80 \<le> a \<Longrightarrow> bytes_at a n (vh_volsync (prepare f h)) = bytes_at a n (f (vh_voldata h))"
proof -
  let ?t = "vd_mirror_tid (vh_voldata h)" and ?e = "f (vh_voldata h)"
  let ?v = "if vd_mirror_tid ?e < ?t + 1 then st64 0x78 (?t + 1) ?e else ?e"
  have old: "length (vh_voldata h) = HAMMER2_VOLUME_BYTES" "vd_magic (vh_voldata h) = HAMMER2_VOLUME_ID_HBO" "\<not> vh_modified h"
    using assms(1) by (simp_all add: committed_def)
  then have e: "length ?e = HAMMER2_VOLUME_BYTES" "vd_magic ?e = HAMMER2_VOLUME_ID_HBO" "vd_volu_size ?e = vd_volu_size (vh_voldata h)"
      "vd_mirror_tid ?e = ?t \<or> vd_mirror_tid ?e = ?t + 1"
    using assms(2) by (simp_all add: edit_ok_def)
  have less: "?t < ?t + 1" by (rule word_less_Suc [OF assms(3)])
  have v: "length ?v = HAMMER2_VOLUME_BYTES" "vd_magic ?v = HAMMER2_VOLUME_ID_HBO" "vd_volu_size ?v = vd_volu_size (vh_voldata h)"
      "vd_mirror_tid ?v = ?t + 1"
    using e field_st_tid [OF e(1)] less by auto
  have p: "prepare f h = h\<lparr>vh_modified := False, vh_bref_mirror_tid := ?t + 1, vh_voldata := stamp_icrc (vh_addr h) ?v,
      vh_volsync := stamp_icrc (vh_addr h) ?v, vh_volumesync := True\<rparr>"
    using old(3) by (simp add: prepare_def hammer2_voldata_modify_def flush_volume_def Let_def)
  show "length (vh_volsync (prepare f h)) = HAMMER2_VOLUME_BYTES" "hdr_valid (vh_volsync (prepare f h))"
    "vd_magic (vh_volsync (prepare f h)) = HAMMER2_VOLUME_ID_HBO"
    "vd_volu_size (vh_volsync (prepare f h)) = vd_volu_size (vh_voldata h)"
    "vd_mirror_tid (vh_volsync (prepare f h)) = vd_mirror_tid (vh_voldata h) + 1"
    "vh_voldata (prepare f h) = vh_volsync (prepare f h)" "vh_volumesync (prepare f h)" "\<not> vh_modified (prepare f h)"
    "vh_volhdrno (prepare f h) = vh_volhdrno h"
    using stamp_valid [OF v(1,2)] field_stamp [OF v(1)] v unfolding p by simp_all
  show "bytes_at a n (vh_volsync (prepare f h)) = bytes_at a n ?e" if "stamped_apart a n" "a + n \<le> 0x78 \<or> 0x80 \<le> a"
    using bytes_at_stamp [OF v(1) that(1)] that(2) e(1) unfolding p by (auto simp: bytes_at_st64)
qed

text \<open>One flush of the header, finished or not.\<close>

lemma commit_run:
  assumes "committed (h, d)" "edit_ok f" "vd_mirror_tid (vh_voldata h) \<noteq> - 1"
    and "failed = None \<or> (\<exists>e left. failed = Some (e, left) \<and> e \<noteq> E_OK)"
  shows "\<exists>z z' err. vh_volhdrno h = int z \<and> best_copy d HAMMER2_NUM_VOLHDRS z \<and> z' < HAMMER2_NUM_VOLHDRS \<and> copy_readable d z' \<and>
    (HAMMER2_ZONE_BYTES64 + HAMMER2_SEGSIZE \<le> uint (vd_volu_size (vh_voldata h)) \<longrightarrow> z' \<noteq> z) \<and>
    commit f failed (h, d) = (err, (prepare f h)\<lparr>vh_volumesync := False, vh_volhdrno := int z'\<rparr>,
       d\<lparr>dv_media := write_media (dv_media d) (z' * 2147483648) (case failed of None \<Rightarrow> vh_volsync (prepare f h) | Some (e, left) \<Rightarrow> left)\<rparr>) \<and>
    (failed = None \<longrightarrow> err = 0)"
proof -
  note p = prepare_facts [OF assms(1,2,3)]
  obtain z where z: "vh_volhdrno h = int z" "best_copy d HAMMER2_NUM_VOLHDRS z" using assms(1) by (auto simp: committed_def)
  then have "z < HAMMER2_NUM_VOLHDRS" by (simp add: best_copy_def)
  then obtain z' where z': "volhdr_next (int z) (vh_volsync (prepare f h)) = int z'" "z' < HAMMER2_NUM_VOLHDRS"
    "z' = 0 \<or> int z' * HAMMER2_ZONE_BYTES64 + HAMMER2_SEGSIZE \<le> uint (vd_volu_size (vh_volsync (prepare f h)))"
    "HAMMER2_ZONE_BYTES64 + HAMMER2_SEGSIZE \<le> uint (vd_volu_size (vh_volsync (prepare f h))) \<longrightarrow> z' \<noteq> z"
    using volhdr_next_cases by blast
  have r: "copy_readable d z'" using z'(2,3) assms(1) unfolding p(4) by (auto simp: committed_def)
  have off: "nat (4194304 * int z') * 512 = z' * 2147483648" by simp
  have "\<exists>err. commit f failed (h, d) = (err, (prepare f h)\<lparr>vh_volumesync := False, vh_volhdrno := int z'\<rparr>,
       d\<lparr>dv_media := write_media (dv_media d) (z' * 2147483648) (case failed of None \<Rightarrow> vh_volsync (prepare f h) | Some (e, left) \<Rightarrow> left)\<rparr>) \<and>
     (failed = None \<longrightarrow> err = 0)"
    using assms(4) p(7) p(9) z(1) z'(1)
    by (auto simp: commit_def volhdr_sync_def fsync_devices_def Let_def off split: option.splits)
  then show ?thesis using z z'(2,4) r unfolding p(4) by blast
qed

lemma commit_done:
  assumes "committed (h, d)" "edit_ok f" "vd_mirror_tid (vh_voldata h) \<noteq> - 1" "commit f None (h, d) = (err, h', d')"
  shows "committed (h', d') \<and> err = 0 \<and> hdr_valid (vh_voldata h') \<and>
    (\<forall>a n. stamped_apart a n \<and> (a + n \<le> 0x78 \<or> 0x80 \<le> a) \<longrightarrow> bytes_at a n (vh_voldata h') = bytes_at a n (f (vh_voldata h))) \<and>
    vd_mirror_tid (vh_voldata h') = vd_mirror_tid (vh_voldata h) + 1 \<and> vd_volu_size (vh_voldata h') = vd_volu_size (vh_voldata h) \<and>
    hammer2_read_volume_header d' vd0 = (vh_volhdrno h', vh_voldata h')"
proof -
  note p = prepare_facts [OF assms(1,2,3)]
  obtain z z' where z: "vh_volhdrno h = int z" "best_copy d HAMMER2_NUM_VOLHDRS z" "z' < HAMMER2_NUM_VOLHDRS" "copy_readable d z'"
    and run: "err = 0" "h' = (prepare f h)\<lparr>vh_volumesync := False, vh_volhdrno := int z'\<rparr>"
      "d' = d\<lparr>dv_media := write_media (dv_media d) (z' * 2147483648) (vh_volsync (prepare f h))\<rparr>"
    using commit_run [OF assms(1,2,3), of None] assms(4) by fastforce
  have new: "hdr_copy d' z' = vh_volsync (prepare f h)" unfolding run(3) by (rule copy_write_same [OF p(1)])
  have other: "hdr_copy d' i = hdr_copy d i" if "i \<noteq> z'" for i unfolding run(3) by (rule copy_write_other [OF p(1) that])
  have tid: "vd_mirror_tid (hdr_copy d z) = vd_mirror_tid (vh_voldata h)"
    using assms(1) z(1) by (simp add: committed_def)
  have readable: "copy_readable d' i = copy_readable d i" for i unfolding run(3) by simp
  have valid: "copy_valid d' z'" using z(4) p(2) new readable by (simp add: copy_valid_def)
  have "vd_mirror_tid (hdr_copy d' i) < vd_mirror_tid (hdr_copy d' z')" if i: "i < HAMMER2_NUM_VOLHDRS" "copy_valid d' i" "i \<noteq> z'" for i
  proof -
    have "copy_valid d i" using i other readable by (simp add: copy_valid_def)
    then have "vd_mirror_tid (hdr_copy d i) \<le> vd_mirror_tid (vh_voldata h)" using z(2) i(1) tid by (simp add: best_copy_def)
    also have "\<dots> < vd_mirror_tid (hdr_copy d' z')" unfolding new p(5) by (rule word_less_Suc [OF assms(3)])
    finally show ?thesis using other [OF i(3)] by simp
  qed
  then have best: "best_copy d' HAMMER2_NUM_VOLHDRS z'" using valid z(3) unfolding best_copy_def by (metis less_imp_le less_irrefl order_refl)
  have "committed (h', d')"
    using best new p assms(1) readable unfolding committed_def prod.case run(2) by simp
  moreover have "vh_voldata h' = vh_volsync (prepare f h)" using run(2) p(6) by simp
  ultimately show ?thesis using run p best new read_best [OF best, of vd0] by simp
qed

lemma commits_done:
  assumes "committed st" "\<And>f. f \<in> set fs \<Longrightarrow> edit_ok f" "unat (vd_mirror_tid (vh_voldata (fst st))) + length fs < 2 ^ 64"
  shows "committed (commits fs st) \<and> unat (vd_mirror_tid (vh_voldata (fst (commits fs st)))) = unat (vd_mirror_tid (vh_voldata (fst st))) + length fs \<and>
    vd_volu_size (vh_voldata (fst (commits fs st))) = vd_volu_size (vh_voldata (fst st))"
  using assms
proof (induction fs arbitrary: st)
  case (Cons f fs)
  obtain h d where st: "st = (h, d)" by (cases st)
  obtain err h' d' where run: "commit f None (h, d) = (err, h', d')" by (metis prod.collapse)
  have small: "unat (vd_mirror_tid (vh_voldata h)) + 1 < 2 ^ 64" using Cons.prems(3) st by simp
  then have t: "vd_mirror_tid (vh_voldata h) \<noteq> - 1" by (rule tid_room)
  have ok: "committed (h, d)" "edit_ok f" using Cons.prems(1,2) st by simp_all
  note one = commit_done [OF ok t run, of "[]"]
  then have tid: "unat (vd_mirror_tid (vh_voldata h')) = unat (vd_mirror_tid (vh_voldata h)) + 1"
    using word_Suc [OF t] by metis
  have "commits (f # fs) st = commits fs (h', d')" using run st by (simp add: commits_def)
  then show ?case using Cons.IH [of "(h', d')"] Cons.prems(2,3) one tid st by simp
qed (simp add: commits_def)

text \<open>C23: The reader of the volume header ignores the copies that cannot be read or whose signature or checksums are wrong
and picks, of the others, the first one with the highest transaction id; it fails exactly when there is none.\<close>

theorem read_volume_header_best:
  "if \<exists>i < HAMMER2_NUM_VOLHDRS. copy_valid d i
   then \<exists>z. best_copy d HAMMER2_NUM_VOLHDRS z \<and> hammer2_read_volume_header d vd0 = (int z, hdr_copy d z)
   else hammer2_read_volume_header d vd0 = (- EINVAL_code, vd0)"
proof (cases "\<exists>i < HAMMER2_NUM_VOLHDRS. copy_valid d i")
  case True
  then obtain z where "best_copy d HAMMER2_NUM_VOLHDRS z" using read_fold(1) [of HAMMER2_NUM_VOLHDRS d vd0] by blast
  then show ?thesis using True read_best [of d z vd0] by auto
next
  case False
  then have "fold (read_header_step d) [0..<HAMMER2_NUM_VOLHDRS] (- 1, vd0) = (- 1, vd0)" using read_fold(2) by blast
  then show ?thesis using False by (simp add: hammer2_read_volume_header_def)
qed

text \<open>C22: What the flush commits is what the next mount reads: after any number of flushes of the volume header, one more
that ends without an error leaves a header that the mount picks, with the next transaction id (in this model of the
commit, see the head of the theory) and with every field that
the flush does not stamp as it was in memory.\<close>

theorem volhdr_commit_reads:
  assumes "committed st" "\<And>g. g \<in> set (f # fs) \<Longrightarrow> edit_ok g" "unat (vd_mirror_tid (vh_voldata (fst st))) + length fs + 1 < 2 ^ 64"
    and "commits fs st = (h, d)" "commit f None (h, d) = (err, h', d')"
  shows "err = 0 \<and> (\<exists>vd. hammer2_read_volume_header d' vd0 = (vh_volhdrno h', vd) \<and> hdr_valid vd \<and>
    vd_mirror_tid vd = vd_mirror_tid (vh_voldata (fst st)) + of_nat (length fs + 1) \<and>
    (\<forall>a n. stamped_apart a n \<and> (a + n \<le> 0x78 \<or> 0x80 \<le> a) \<longrightarrow> bytes_at a n vd = bytes_at a n (f (vh_voldata h))))"
proof -
  note before = commits_done [OF assms(1), of fs, unfolded assms(4)]
  have "committed (h, d)" and tid: "unat (vd_mirror_tid (vh_voldata h)) = unat (vd_mirror_tid (vh_voldata (fst st))) + length fs"
    using before assms(2,3) by simp_all
  then have "vd_mirror_tid (vh_voldata h) \<noteq> - 1" using assms(3) by (intro tid_room) simp
  have "edit_ok f" using assms(2) by simp
  note fin = commit_done [OF \<open>committed (h, d)\<close> this \<open>vd_mirror_tid (vh_voldata h) \<noteq> - 1\<close> assms(5), of vd0]
  have "vd_mirror_tid (vh_voldata h) = of_nat (unat (vd_mirror_tid (vh_voldata (fst st))) + length fs)"
    unfolding tid [symmetric] by simp
  then have "vd_mirror_tid (vh_voldata h') = vd_mirror_tid (vh_voldata (fst st)) + of_nat (length fs + 1)"
    using fin by (simp add: add_ac)
  then show ?thesis using fin by blast
qed

text \<open>The write of the header ends with an error, or a crash interrupts it.\<close>

lemma commit_left:
  assumes "committed (h, d)" "edit_ok f" "vd_mirror_tid (vh_voldata h) \<noteq> - 1" "e \<noteq> E_OK"
    and "length left = HAMMER2_VOLUME_BYTES" "commit f (Some (e, left)) (h, d) = (err, h', d')"
  shows "\<exists>z z'. vh_volhdrno h = int z \<and> best_copy d HAMMER2_NUM_VOLHDRS z \<and> vh_volhdrno h' = int z' \<and>
    (HAMMER2_ZONE_BYTES64 + HAMMER2_SEGSIZE \<le> uint (vd_volu_size (vh_voldata h)) \<longrightarrow> z' \<noteq> z) \<and>
    (uint (vd_volu_size (vh_voldata h)) < HAMMER2_ZONE_BYTES64 + HAMMER2_SEGSIZE \<longrightarrow> z' = 0) \<and>
    hdr_copy d' z' = left \<and> (\<forall>i. i \<noteq> z' \<longrightarrow> hdr_copy d' i = hdr_copy d i) \<and> (\<forall>i. copy_readable d' i = copy_readable d i)"
    "vh_voldata h' = vh_volsync (prepare f h)"
proof -
  have "Some (e, left) = None \<or> (\<exists>e' left'. Some (e, left) = Some (e', left') \<and> e' \<noteq> E_OK)" using assms(4) by simp
  from commit_run [OF assms(1,2,3) this] assms(6)
  obtain z z' where z: "vh_volhdrno h = int z" "best_copy d HAMMER2_NUM_VOLHDRS z" "z' < HAMMER2_NUM_VOLHDRS"
      "HAMMER2_ZONE_BYTES64 + HAMMER2_SEGSIZE \<le> uint (vd_volu_size (vh_voldata h)) \<longrightarrow> z' \<noteq> z"
    and h': "h' = (prepare f h)\<lparr>vh_volumesync := False, vh_volhdrno := int z'\<rparr>"
    and d': "d' = d\<lparr>dv_media := write_media (dv_media d) (z' * 2147483648) left\<rparr>" by auto
  note p = prepare_facts(4,6,7,9) [OF assms(1,2,3)]
  show "vh_voldata h' = vh_volsync (prepare f h)" using h' p(2) by simp
  have new: "hdr_copy d' z' = left" unfolding d' by (rule copy_write_same [OF assms(5)])
  have other: "hdr_copy d' i = hdr_copy d i" if "i \<noteq> z'" for i unfolding d' by (rule copy_write_other [OF assms(5) that])
  have readable: "copy_readable d' i = copy_readable d i" for i unfolding d' by simp
  have no: "vh_volhdrno h' = int z'" using h' by simp
  have small: "z' = 0" if "uint (vd_volu_size (vh_voldata h)) < HAMMER2_ZONE_BYTES64 + HAMMER2_SEGSIZE"
  proof -
    have v: "volhdr_next (int z) (vh_volsync (prepare f h)) = int z'"
      using no assms(6) z(1) p(3,4) assms(4) by (auto simp: commit_def volhdr_sync_def fsync_devices_def Let_def)
    then have "int z' = 0 \<or> \<not> uint (vd_volu_size (vh_volsync (prepare f h))) < int z' * HAMMER2_ZONE_BYTES64 + HAMMER2_SEGSIZE"
      unfolding volhdr_next_def Let_def by (auto split: if_splits)
    then show ?thesis using that unfolding p(1) by (cases "z' = 0") auto
  qed
  show "\<exists>z z'. vh_volhdrno h = int z \<and> best_copy d HAMMER2_NUM_VOLHDRS z \<and> vh_volhdrno h' = int z' \<and>
    (HAMMER2_ZONE_BYTES64 + HAMMER2_SEGSIZE \<le> uint (vd_volu_size (vh_voldata h)) \<longrightarrow> z' \<noteq> z) \<and>
    (uint (vd_volu_size (vh_voldata h)) < HAMMER2_ZONE_BYTES64 + HAMMER2_SEGSIZE \<longrightarrow> z' = 0) \<and>
    hdr_copy d' z' = left \<and> (\<forall>i. i \<noteq> z' \<longrightarrow> hdr_copy d' i = hdr_copy d i) \<and> (\<forall>i. copy_readable d' i = copy_readable d i)"
    using z(1,2,4) no small new other readable by blast
qed

text \<open>A write that is complete although its end is not reported.\<close>

lemma commit_whole:
  assumes "commit f (Some (e, vh_volsync (prepare f h))) (h, d) = (err, h', d')"
  shows "\<exists>err'. commit f None (h, d) = (err', h', d')"
  using assms by (auto simp: commit_def volhdr_sync_def Let_def split: if_splits)

text \<open>The reader finds the same header when no copy got better and the best one is as before.\<close>

lemma best_copy_keeps:
  assumes "best_copy d n z" "hdr_copy d' z = hdr_copy d z" "copy_valid d' z" "\<And>i. copy_valid d' i \<Longrightarrow> copy_valid d i \<and> hdr_copy d' i = hdr_copy d i"
  shows "best_copy d' n z"
  using assms unfolding best_copy_def by auto

text \<open>C21: A crash in the middle of writing the volume header does not lose the file system on a volume with room for two
copies (a smaller one has no such promise, C24).  After any number of flushes the write of the next header is cut off or
fails and leaves bytes in its copy.  When they pass the checks of the reader, they are the whole new header or what
the copy had before (other bytes that pass would be a collision of the checksums).  The next mount then reads the
new header if it was written whole, and else exactly the header that it would have read before the write, the one of the
flush before.\<close>

theorem volhdr_crash_safe:
  assumes "committed st" "\<And>g. g \<in> set (f # fs) \<Longrightarrow> edit_ok g" "unat (vd_mirror_tid (vh_voldata (fst st))) + length fs + 1 < 2 ^ 64"
    and "HAMMER2_ZONE_BYTES64 + HAMMER2_SEGSIZE \<le> uint (vd_volu_size (vh_voldata (fst st)))" "commits fs st = (h, d)"
    and "e \<noteq> E_OK" "length left = HAMMER2_VOLUME_BYTES" "commit f (Some (e, left)) (h, d) = (err, h', d')"
    and "hdr_valid left \<Longrightarrow> left = vh_voldata h' \<or> left = hdr_copy d (nat (vh_volhdrno h'))"
  shows "\<exists>vd. hammer2_read_volume_header d vd0 = (vh_volhdrno h, vd) \<and> hdr_valid vd \<and> vd_mirror_tid vd = vd_mirror_tid (vh_voldata h) \<and>
    hdr_valid (vh_voldata h') \<and> vd_mirror_tid (vh_voldata h') = vd_mirror_tid (vh_voldata h) + 1 \<and>
    hammer2_read_volume_header d' vd0 = (if left = vh_voldata h' then (vh_volhdrno h', vh_voldata h') else (vh_volhdrno h, vd))"
proof -
  note before = commits_done [OF assms(1), of fs, unfolded assms(5)]
  have ok: "committed (h, d)" "vd_volu_size (vh_voldata h) = vd_volu_size (vh_voldata (fst st))"
    "unat (vd_mirror_tid (vh_voldata h)) = unat (vd_mirror_tid (vh_voldata (fst st))) + length fs"
    using before assms(2,3) by simp_all
  then have room: "vd_mirror_tid (vh_voldata h) \<noteq> - 1" using assms(3) by (intro tid_room) simp
  have ed: "edit_ok f" using assms(2) by simp
  note left = commit_left [OF ok(1) ed room assms(6,7,8)]
  note p = prepare_facts(2,5) [OF ok(1) ed room, folded left(2)]
  from left(1) obtain z z' where z: "vh_volhdrno h = int z" "best_copy d HAMMER2_NUM_VOLHDRS z" "vh_volhdrno h' = int z'" "z' \<noteq> z"
    and new: "hdr_copy d' z' = left" "\<And>i. i \<noteq> z' \<Longrightarrow> hdr_copy d' i = hdr_copy d i" "\<And>i. copy_readable d' i = copy_readable d i"
    using assms(4) unfolding ok(2) by blast
  have old: "vd_mirror_tid (hdr_copy d z) = vd_mirror_tid (vh_voldata h)" "copy_valid d z"
    using ok(1) z(1,2) by (simp_all add: committed_def best_copy_def)
  have "hammer2_read_volume_header d' vd0 = (if left = vh_voldata h' then (vh_volhdrno h', vh_voldata h') else (vh_volhdrno h, hdr_copy d z))"
  proof (cases "left = vh_voldata h'")
    case True
    then obtain err' where "commit f None (h, d) = (err', h', d')" using commit_whole assms(8) left(2) by metis
    then show ?thesis using commit_done [OF ok(1) ed room, of err' h' d' vd0] True by simp
  next
    case False
    have zz: "hdr_copy d' z = hdr_copy d z" using new(2) z(4) by metis
    have "best_copy d' HAMMER2_NUM_VOLHDRS z"
    proof (rule best_copy_keeps [OF z(2) zz])
      show "copy_valid d' z" using old(2) zz new(3) by (simp add: copy_valid_def)
      show "copy_valid d i \<and> hdr_copy d' i = hdr_copy d i" if i: "copy_valid d' i" for i
      proof -
        have "hdr_copy d' i = hdr_copy d i"
          using new(1,2) assms(9) False z(3) i by (cases "i = z'") (auto simp: copy_valid_def)
        then show ?thesis using i new(3) by (simp add: copy_valid_def)
      qed
    qed
    then show ?thesis using read_best zz z(1) False by simp
  qed
  then show ?thesis using read_best [OF z(2)] z(1) old p by (auto simp: copy_valid_def)
qed

text \<open>C24: On a volume with room for one copy the header is overwritten in place: when that write is interrupted and no other
copy is valid, the mount finds no volume header.\<close>

theorem volhdr_single_copy_lost:
  assumes "committed (h, d)" "edit_ok f" "vd_mirror_tid (vh_voldata h) \<noteq> - 1" "\<And>i. i \<noteq> 0 \<Longrightarrow> \<not> copy_valid d i"
    and "uint (vd_volu_size (vh_voldata h)) < HAMMER2_ZONE_BYTES64 + HAMMER2_SEGSIZE"
    and "e \<noteq> E_OK" "length left = HAMMER2_VOLUME_BYTES" "\<not> hdr_valid left" "commit f (Some (e, left)) (h, d) = (err, h', d')"
  shows "hammer2_read_volume_header d' vd0 = (- EINVAL_code, vd0)"
proof -
  obtain z' where "z' = 0" "hdr_copy d' z' = left" "\<And>i. i \<noteq> z' \<Longrightarrow> hdr_copy d' i = hdr_copy d i" "\<And>i. copy_readable d' i = copy_readable d i"
    using commit_left(1) [OF assms(1,2,3,6,7,9)] assms(5) by blast
  then have "\<not> copy_valid d' i" for i using assms(4) [of i] assms(8) by (cases "i = 0") (auto simp: copy_valid_def)
  then have "fold (read_header_step d') [0..<HAMMER2_NUM_VOLHDRS] (- 1, vd0) = (- 1, vd0)" using read_fold(2) by blast
  then show ?thesis by (simp add: hammer2_read_volume_header_def)
qed

section \<open>Examples\<close>

definition example_header :: "h2_off \<Rightarrow> volume_data" where
  "example_header vsize = stamp_icrc 0 (st64 0x28 vsize (st64 0 HAMMER2_VOLUME_ID_HBO (replicate HAMMER2_VOLUME_BYTES 0)))"

text \<open>An 8 GB disk with a header in its first copy.\<close>

definition disk_of :: "volume_data \<Rightarrow> vdev" where
  "disk_of hdr = \<lparr>dv_label = Inr (16777216, 512), dv_media = write_media (\<lambda>_. 0) 0 hdr, dv_bad = {}, dv_buf = (\<lambda>_. 0)\<rparr>"

definition example_state :: "h2_off \<Rightarrow> volhdr \<times> vdev" where
  "example_state vsize = (\<lparr>vh_voldata = example_header vsize, vh_volsync = example_header vsize, vh_volhdrno = 0, vh_modified = False,
     vh_volumesync = False, vh_bref_mirror_tid = 0, vh_addr = 0\<rparr>, disk_of (example_header vsize))"

lemma example_header_facts:
  "length (example_header vsize) = HAMMER2_VOLUME_BYTES" "vd_magic (example_header vsize) = HAMMER2_VOLUME_ID_HBO"
  "vd_volu_size (example_header vsize) = vsize" "vd_mirror_tid (example_header vsize) = 0" "hdr_valid (example_header vsize)"
proof -
  let ?z = "replicate HAMMER2_VOLUME_BYTES (0 :: u8)"
  let ?m = "st64 0 HAMMER2_VOLUME_ID_HBO ?z" and ?v = "st64 0x28 vsize (st64 0 HAMMER2_VOLUME_ID_HBO ?z)"
  have l: "length ?z = HAMMER2_VOLUME_BYTES" "length ?m = HAMMER2_VOLUME_BYTES" "length ?v = HAMMER2_VOLUME_BYTES" by simp_all
  have "bytes_at 0x78 8 ?v = replicate 8 0" using l by (simp add: bytes_at_st64) (simp add: bytes_at_def)
  moreover have "le_word (replicate 8 0) = (0 :: u64)" by code_simp
  ultimately have "vd_mirror_tid ?v = 0" by (simp add: vd_mirror_tid_def ld64_def)
  moreover have m: "vd_magic ?v = HAMMER2_VOLUME_ID_HBO"
  proof -
    have "bytes_at 0 8 ?v = bytes_at 0 8 ?m" using l by (simp add: bytes_at_st64)
    then have "ld64 0 ?v = ld64 0 ?m" by (simp add: ld64_def)
    also have "\<dots> = HAMMER2_VOLUME_ID_HBO" using l(1) by (intro ld64_st64) simp
    finally show ?thesis by (simp add: vd_magic_def)
  qed
  moreover have "vd_volu_size ?v = vsize" using l unfolding vd_volu_size_def by (intro ld64_st64) simp
  ultimately show "length (example_header vsize) = HAMMER2_VOLUME_BYTES" "vd_magic (example_header vsize) = HAMMER2_VOLUME_ID_HBO"
    "vd_volu_size (example_header vsize) = vsize" "vd_mirror_tid (example_header vsize) = 0" "hdr_valid (example_header vsize)"
    unfolding example_header_def using field_stamp [OF l(3), of 0] length_stamp [OF l(3)] stamp_valid [OF l(3) m] by simp_all
qed

lemma zeros_invalid: "\<not> hdr_valid (read_media (\<lambda>_. 0) off HAMMER2_VOLUME_BYTES)"
proof -
  have "bytes_at 0 8 (read_media (\<lambda>_. 0) off HAMMER2_VOLUME_BYTES) = replicate 8 0"
    by (simp add: bytes_at_def read_media_def map_replicate_const)
  moreover have "le_word (replicate 8 0) = (0 :: u64)" by code_simp
  ultimately show ?thesis by (simp add: hdr_valid_def vd_magic_def ld64_def)
qed

lemma disk_copies:
  assumes "length hdr = HAMMER2_VOLUME_BYTES" "hdr_valid hdr"
  shows "copy_valid (disk_of hdr) i \<longleftrightarrow> i = 0" "hdr_copy (disk_of hdr) 0 = hdr" "best_copy (disk_of hdr) HAMMER2_NUM_VOLHDRS 0"
    "i < HAMMER2_NUM_VOLHDRS \<Longrightarrow> copy_readable (disk_of hdr) i"
proof -
  show first: "hdr_copy (disk_of hdr) 0 = hdr"
    using read_write_same [of "\<lambda>_. 0" 0 hdr] unfolding hdr_copy_def disk_of_def assms(1) by simp
  have "hdr_copy (disk_of hdr) i = read_media (\<lambda>_. 0) (i * 2147483648) HAMMER2_VOLUME_BYTES" if "i \<noteq> 0" for i
    using read_write_other [of 0 hdr "i * 2147483648" HAMMER2_VOLUME_BYTES "\<lambda>_. 0"] that
    unfolding hdr_copy_def disk_of_def assms(1) by simp
  then have others: "\<not> copy_valid (disk_of hdr) i" if "i \<noteq> 0" for i using that zeros_invalid by (simp add: copy_valid_def)
  have "sint (mediasize_of (16777216, 512)) = 8589934592" by (simp add: mediasize_of_def)
  then show readable: "copy_readable (disk_of hdr) i" if "i < HAMMER2_NUM_VOLHDRS" for i
    using that by (simp add: copy_readable_def disk_of_def)
  show valid: "copy_valid (disk_of hdr) i \<longleftrightarrow> i = 0" for i
    using first others [of i] readable [of 0] assms(2) by (auto simp: copy_valid_def)
  show "best_copy (disk_of hdr) HAMMER2_NUM_VOLHDRS 0" using valid by (simp add: best_copy_def)
qed

lemma example_committed: "committed (example_state vsize)"
proof -
  note facts = example_header_facts [of vsize]
  note disk = disk_copies [OF facts(1,5)]
  show ?thesis unfolding committed_def example_state_def prod.case
    using facts disk(2,3) disk(4) by (simp add: example_state_def)
qed

lemma edit_ok_id: "edit_ok (\<lambda>vd. vd)"
  by (simp add: edit_ok_def)

lemma example_tid: "vd_mirror_tid (vh_voldata (fst (example_state vsize))) = 0" "vd_volu_size (vh_voldata (fst (example_state vsize))) = vsize"
  by (simp_all add: example_state_def example_header_facts)

lemma zeros_invalid': "\<not> hdr_valid (replicate HAMMER2_VOLUME_BYTES 0)"
proof -
  have "read_media (\<lambda>_. 0) 0 HAMMER2_VOLUME_BYTES = replicate HAMMER2_VOLUME_BYTES 0"
    by (simp add: read_media_def map_replicate_const)
  then show ?thesis using zeros_invalid [of 0] by metis
qed

theorem volhdr_commit_reads_witness:
  "\<exists>err h d vd. commit (\<lambda>vd. vd) None (example_state 0x200000000) = (err, h, d) \<and>
     hammer2_read_volume_header d [] = (vh_volhdrno h, vd) \<and> vd_mirror_tid vd = 1"
proof -
  obtain h d where st: "commits [] (example_state 0x200000000) = (h, d)" by (cases "example_state 0x200000000") (simp add: commits_def)
  obtain err h' d' where run: "commit (\<lambda>vd. vd) None (h, d) = (err, h', d')" by (metis prod.collapse)
  have ok: "g \<in> set [\<lambda>vd. vd] \<Longrightarrow> edit_ok g" for g using edit_ok_id by simp
  have room: "unat (vd_mirror_tid (vh_voldata (fst (example_state 0x200000000)))) + length [] + 1 < 2 ^ 64" by (simp add: example_tid)
  have "(h, d) = example_state 0x200000000" using st by (simp add: commits_def)
  then show ?thesis using volhdr_commit_reads [OF example_committed ok room st run, of "[]"] run by (auto simp: example_tid)
qed

text \<open>The copy is left empty: the mount finds the header that was there.\<close>

theorem volhdr_crash_safe_witness:
  "\<exists>err h d. commit (\<lambda>vd. vd) (Some (EIO, replicate HAMMER2_VOLUME_BYTES 0)) (example_state 0x200000000) = (err, h, d) \<and>
     hammer2_read_volume_header d [] = (0, example_header 0x200000000)"
proof -
  obtain h d where st: "commits [] (example_state 0x200000000) = (h, d)" by (cases "example_state 0x200000000") (simp add: commits_def)
  obtain err h' d' where run: "commit (\<lambda>vd. vd) (Some (EIO, replicate HAMMER2_VOLUME_BYTES 0)) (h, d) = (err, h', d')" by (metis prod.collapse)
  have ok: "g \<in> set [\<lambda>vd. vd] \<Longrightarrow> edit_ok g" for g using edit_ok_id by simp
  have room: "unat (vd_mirror_tid (vh_voldata (fst (example_state 0x200000000)))) + length [] + 1 < 2 ^ 64" by (simp add: example_tid)
  have large: "HAMMER2_ZONE_BYTES64 + HAMMER2_SEGSIZE \<le> uint (vd_volu_size (vh_voldata (fst (example_state 0x200000000))))"
    by (simp add: example_tid)
  have st': "(h, d) = example_state 0x200000000" using st by (simp add: commits_def)
  then have hd: "vh_volhdrno h = 0" "d = disk_of (example_header 0x200000000)" by (auto simp: example_state_def)
  note disk = disk_copies [OF example_header_facts(1,5), of "0x200000000"]
  have rd: "hammer2_read_volume_header d [] = (0, example_header 0x200000000)"
    using read_best [OF disk(3), of "[]"] disk(2) hd(2) by simp
  show ?thesis
    using volhdr_crash_safe [OF example_committed ok room large st _ _ run, of "[]"] run st' hd(1) rd zeros_invalid' by auto
qed

theorem volhdr_single_copy_lost_witness:
  "\<exists>err h d. commit (\<lambda>vd. vd) (Some (EIO, replicate HAMMER2_VOLUME_BYTES 0)) (example_state 0x40000000) = (err, h, d) \<and>
     hammer2_read_volume_header d [] = (- EINVAL_code, [])"
proof -
  obtain h d where st: "example_state 0x40000000 = (h, d)" by (cases "example_state 0x40000000")
  obtain err h' d' where run: "commit (\<lambda>vd. vd) (Some (EIO, replicate HAMMER2_VOLUME_BYTES 0)) (h, d) = (err, h', d')" by (metis prod.collapse)
  have "committed (h, d)" unfolding st [symmetric] by (rule example_committed)
  moreover have "vd_mirror_tid (vh_voldata h) \<noteq> - 1" "uint (vd_volu_size (vh_voldata h)) < HAMMER2_ZONE_BYTES64 + HAMMER2_SEGSIZE"
    using example_tid [of "0x40000000"] st by simp_all
  moreover have "\<not> copy_valid d i" if "i \<noteq> 0" for i using disk_copies(1) [OF example_header_facts(1,5)] st that by (auto simp: example_state_def)
  ultimately show ?thesis using volhdr_single_copy_lost [OF _ edit_ok_id _ _ _ _ _ zeros_invalid' run, of "[]"] run st by auto
qed

end
