(* ===== verification/H2_Volume.thy ===== *)
theory H2_Volume
  imports H2_VolHdr
begin

text \<open>
  The volumes of a file system (\<open>hammer2_ondisk.c\<close>): \<open>hammer2_init_volumes\<close> reads the header of each
  device and checks that the volumes fit together, \<open>hammer2_get_volume\<close> finds the volume of an offset.

  The list of devices is the list of their models; every device has a vnode (the code asserts it).  The result
  of a function that returns an error number is that number; \<open>None\<close> is a \<open>NULL\<close> dereference or a failed
  assertion.  Messages are left out, so are paths.
\<close>

abbreviation (input) HAMMER2_MAX_VOLUMES :: nat where "HAMMER2_MAX_VOLUMES \<equiv> 64"
abbreviation (input) HAMMER2_ROOT_VOLUME :: nat where "HAMMER2_ROOT_VOLUME \<equiv> 0"
abbreviation (input) HAMMER2_VOLUME_ALIGNMASK64 :: u64 where "HAMMER2_VOLUME_ALIGNMASK64 \<equiv> 8388607"
abbreviation (input) HAMMER2_VOL_VERSION_MULTI_VOLUMES :: "'a::numeral" where "HAMMER2_VOL_VERSION_MULTI_VOLUMES \<equiv> 2"
abbreviation (input) HAMMER2_VOL_VERSION_MIN :: int where "HAMMER2_VOL_VERSION_MIN \<equiv> 1"
abbreviation (input) HAMMER2_VOL_VERSION_WIP :: int where "HAMMER2_VOL_VERSION_WIP \<equiv> 3"
abbreviation (input) ENXIO_code :: int where "ENXIO_code \<equiv> 6"
abbreviation (input) HAMMER2_UUID_STRING :: string where "HAMMER2_UUID_STRING \<equiv> ''5cbb9ad1-862d-11dc-a94d-01301bb8a9f5''"

record volume =
  v_dev :: "vdev option"
  v_offset :: h2_off
  v_size :: h2_off
  v_id :: int

text \<open>A loop over \<open>xs\<close> that returns the first error.\<close>

primrec first_error :: "('a \<Rightarrow> int option) \<Rightarrow> 'a list \<Rightarrow> int option" where
  "first_error f [] = Some 0"
| "first_error f (x # xs) = do { e \<leftarrow> f x; if e \<noteq> 0 then Some e else first_error f xs }"

section \<open>uuid_snprintf\<close>

definition hex_digit :: "nat \<Rightarrow> char" where
  "hex_digit n = ''0123456789abcdef'' ! n"

text \<open>\<open>%0<n>x\<close> of a value with at most \<open>n\<close> digits.\<close>

primrec hex_fixed :: "nat \<Rightarrow> nat \<Rightarrow> string" where
  "hex_fixed 0 x = []"
| "hex_fixed (Suc n) x = hex_fixed n (x div 16) @ [hex_digit (x mod 16)]"

definition le16_at :: "nat \<Rightarrow> u8 list \<Rightarrow> u16" where
  "le16_at off b = le_word (bytes_at off 2 b)"

definition be16_at :: "nat \<Rightarrow> u8 list \<Rightarrow> u16" where
  "be16_at off b = le_word (rev (bytes_at off 2 b))"

definition uuid_snprintf :: "u8 list \<Rightarrow> string" where
  "uuid_snprintf b = hex_fixed 8 (unat (ld32 0 b)) @ ''-'' @ hex_fixed 4 (unat (le16_at 4 b)) @ ''-'' @
     hex_fixed 4 (unat (le16_at 6 b)) @ ''-'' @ hex_fixed 4 (unat (be16_at 8 b)) @ ''-'' @
     hex_fixed 4 (unat (be16_at 10 b)) @ hex_fixed 4 (unat (be16_at 12 b)) @ hex_fixed 4 (unat (be16_at 14 b))"

section \<open>Verification of the volumes\<close>

definition verify_common_vol :: "volume \<Rightarrow> int option" where
  "verify_common_vol vol =
     (if v_id vol = - 1 then Some 0
      else case v_dev vol of
        None \<Rightarrow> None
      | Some dev \<Rightarrow>
          if v_offset vol = - 1 then Some EINVAL_code
          else if v_size vol = - 1 then Some EINVAL_code
          else (case dv_label dev of
            Inl error \<Rightarrow> Some error
          | Inr dl \<Rightarrow>
              if mediasize_of dl < v_size vol then Some EINVAL_code
              else if v_size vol = 0 then Some EINVAL_code
              else Some 0))"

definition hammer2_verify_volumes_common :: "volume list \<Rightarrow> volume_data \<Rightarrow> int option" where
  "hammer2_verify_volumes_common volumes rootvoldata =
     (if unat (vd_volu_id rootvoldata) \<noteq> HAMMER2_ROOT_VOLUME then Some EINVAL_code
      else if uuid_snprintf (vd_fstype rootvoldata) \<noteq> HAMMER2_UUID_STRING then Some EINVAL_code
      else first_error verify_common_vol volumes)"

definition hammer2_verify_volumes_1 :: "volume list \<Rightarrow> volume_data \<Rightarrow> int option" where
  "hammer2_verify_volumes_1 volumes rootvoldata =
     (let nvolumes = length (filter (\<lambda>vol. v_id vol \<noteq> - 1) volumes) in
      if nvolumes \<noteq> 1 then Some EINVAL_code
      else if vd_nvolumes rootvoldata \<noteq> 0 then Some EINVAL_code
      else if vd_total_size rootvoldata \<noteq> 0 then Some EINVAL_code
      else if \<exists>i \<in> set [0..<HAMMER2_MAX_VOLUMES]. vd_volu_loff rootvoldata i \<noteq> 0 then Some EINVAL_code
      else
        (let vol = volumes ! HAMMER2_ROOT_VOLUME in
         case v_dev vol of
           None \<Rightarrow> None
         | Some dev \<Rightarrow>
             if v_id vol \<noteq> 0 then Some EINVAL_code
             else if v_offset vol \<noteq> 0 then Some EINVAL_code
             else if v_size vol AND HAMMER2_VOLUME_ALIGNMASK64 \<noteq> 0 then Some EINVAL_code
             else Some 0))"

definition verify_2_vol :: "volume list \<Rightarrow> volume_data \<Rightarrow> nat \<Rightarrow> int option" where
  "verify_2_vol volumes rootvoldata i =
     (let vol = volumes ! i; prev = volumes ! (i - 1) in
      if v_id vol = - 1 then Some 0
      else case v_dev vol of
        None \<Rightarrow> None
      | Some dev \<Rightarrow>
          if v_offset vol AND HAMMER2_FREEMAP_LEVEL1_MASK \<noteq> 0 then Some EINVAL_code
          else if i \<noteq> 0 \<and> v_id vol \<le> v_id prev then Some EINVAL_code
          else if i \<noteq> 0 \<and> v_offset vol \<noteq> v_offset prev + v_size prev then Some EINVAL_code
          else if i = 0 \<and> v_offset vol \<noteq> 0 then Some EINVAL_code
          else if int i \<noteq> int (unat (vd_nvolumes rootvoldata)) - 1 then
            (if v_size vol < HAMMER2_FREEMAP_LEVEL1_SIZE then Some EINVAL_code
             else if v_size vol AND HAMMER2_FREEMAP_LEVEL1_MASK \<noteq> 0 then Some EINVAL_code
             else Some 0)
          else if v_size vol AND HAMMER2_VOLUME_ALIGNMASK64 \<noteq> 0 then Some EINVAL_code
          else Some 0)"

definition hammer2_verify_volumes_2 :: "volume list \<Rightarrow> volume_data \<Rightarrow> int option" where
  "hammer2_verify_volumes_2 volumes rootvoldata =
     (let inited = filter (\<lambda>vol. v_id vol \<noteq> - 1) volumes;
          nvolumes = length inited;
          total_size = sum_list (map v_size inited)
      in if unat (vd_nvolumes rootvoldata) \<noteq> nvolumes then Some EINVAL_code
         else if vd_total_size rootvoldata \<noteq> total_size then Some EINVAL_code
         else if \<exists>i \<in> set [0..<nvolumes]. vd_volu_loff rootvoldata i = - 1 then Some EINVAL_code
         else if \<exists>i \<in> set [nvolumes..<HAMMER2_MAX_VOLUMES]. vd_volu_loff rootvoldata i \<noteq> - 1 then Some EINVAL_code
         else first_error (verify_2_vol volumes rootvoldata) [0..<HAMMER2_MAX_VOLUMES])"

definition hammer2_verify_volumes :: "volume list \<Rightarrow> volume_data \<Rightarrow> int option" where
  "hammer2_verify_volumes volumes rootvoldata = do {
     error \<leftarrow> hammer2_verify_volumes_common volumes rootvoldata;
     if error \<noteq> 0 then Some error
     else if HAMMER2_VOL_VERSION_MULTI_VOLUMES \<le> vd_version rootvoldata
       then hammer2_verify_volumes_2 volumes rootvoldata
       else hammer2_verify_volumes_1 volumes rootvoldata
   }"

section \<open>hammer2_init_volumes\<close>

text \<open>The local variables of the loop over the devices and its outputs.\<close>

record volinit =
  vi_volumes :: "volume list"
  vi_rootvoldata :: volume_data
  vi_rootvolzone :: "int option"
  vi_rootvoldevvp :: "vdev option"
  vi_voldata :: volume_data
  vi_v :: int
  vi_nvolumes :: int
  vi_fsid :: "u8 list"
  vi_fstype :: "u8 list"

definition voldata_zero :: volume_data where
  "voldata_zero = replicate HAMMER2_VOLUME_BYTES 0"

definition volinit_start :: volinit where
  "volinit_start = \<lparr>vi_volumes = replicate HAMMER2_MAX_VOLUMES \<lparr>v_dev = None, v_offset = - 1, v_size = - 1, v_id = - 1\<rparr>,
     vi_rootvoldata = voldata_zero, vi_rootvolzone = None, vi_rootvoldevvp = None, vi_voldata = voldata_zero,
     vi_v = - 1, vi_nvolumes = 0, vi_fsid = replicate 16 0, vi_fstype = replicate 16 0\<rparr>"

text \<open>All headers must agree: the first one sets the values, the others are compared.\<close>

definition volinit_agree :: "volume_data \<Rightarrow> volinit \<Rightarrow> int \<times> volinit" where
  "volinit_agree vd s =
     (if vi_v s = - 1 then
        (0, s\<lparr>vi_v := sint (vd_version vd), vi_nvolumes := int (unat (vd_nvolumes vd)), vi_fsid := vd_fsid vd, vi_fstype := vd_fstype vd\<rparr>)
      else if vi_v s \<noteq> sint (vd_version vd) then (ENXIO_code, s)
      else if vi_nvolumes s \<noteq> int (unat (vd_nvolumes vd)) then (ENXIO_code, s)
      else if vi_fsid s \<noteq> vd_fsid vd then (ENXIO_code, s)
      else if vi_fstype s \<noteq> vd_fstype vd then (ENXIO_code, s)
      else (0, s))"

definition volinit_device :: "vdev \<Rightarrow> volinit \<Rightarrow> (int \<times> volinit) option" where
  "volinit_device e s =
     (let (zone, vd) = hammer2_read_volume_header e (vi_voldata s);
          s = s\<lparr>vi_voldata := vd\<rparr>;
          id = unat (vd_volu_id vd)
      in if zone < 0 then Some (- zone, s)
         else if HAMMER2_MAX_VOLUMES \<le> id then Some (EINVAL_code, s)
         else if v_id (vi_volumes s ! id) \<noteq> - 1 then Some (EINVAL_code, s)
         else
           (let (error, s) = volinit_agree vd s in
            if error \<noteq> 0 then Some (error, s)
            else if vi_v s < HAMMER2_VOL_VERSION_MIN \<or> HAMMER2_VOL_VERSION_WIP < vi_v s then Some (EINVAL_code, s)
            else
              (let vol = \<lparr>v_dev = Some e, v_offset = vd_volu_loff vd id, v_size = vd_volu_size vd, v_id = int id\<rparr>;
                   s = s\<lparr>vi_volumes := (vi_volumes s)[id := vol]\<rparr>
               in if id = HAMMER2_ROOT_VOLUME then do {
                      let s = s\<lparr>vi_rootvoldata := vd, vi_rootvolzone := Some zone\<rparr>;
                      kkassert (vi_rootvoldevvp s = None);
                      Some (0, s\<lparr>vi_rootvoldevvp := Some e\<rparr>)
                    }
                  else Some (0, s))))"

fun volinit_loop :: "vdev list \<Rightarrow> volinit \<Rightarrow> (int \<times> volinit) option" where
  "volinit_loop [] s = Some (0, s)"
| "volinit_loop (e # devvpl) s = do {
     (error, s) \<leftarrow> volinit_device e s;
     if error \<noteq> 0 then Some (error, s) else volinit_loop devvpl s
   }"

definition hammer2_init_volumes :: "vdev list \<Rightarrow> (int \<times> volinit) option" where
  "hammer2_init_volumes devvpl = do {
     (error, s) \<leftarrow> volinit_loop devvpl volinit_start;
     if error \<noteq> 0 then Some (error, s)
     else if vd_version (vi_rootvoldata s) = 0 then Some (EINVAL_code, s)
     else do {
       error \<leftarrow> hammer2_verify_volumes (vi_volumes s) (vi_rootvoldata s);
       Some (error, s)
     }
   }"

text \<open>What the mount keeps of the headers: the number of volumes and the size (\<open>hammer2_vfsops.c\<close>).\<close>

definition mount_geometry :: "volume_data \<Rightarrow> (nat \<times> h2_off) option" where
  "mount_geometry voldata = do {
     let (nvolumes, total_size) =
       (if HAMMER2_VOL_VERSION_MULTI_VOLUMES \<le> vd_version voldata
        then (unat (vd_nvolumes voldata), vd_total_size voldata) else (1, vd_volu_size voldata));
     kkassert (0 < nvolumes);
     Some (nvolumes, total_size)
   }"

section \<open>hammer2_get_volume\<close>

definition hammer2_get_volume :: "volume list \<Rightarrow> nat \<Rightarrow> h2_off \<Rightarrow> nat option" where
  "hammer2_get_volume volumes nvolumes off =
     (let off = off AND NOT HAMMER2_OFF_MASK_RADIX in
      case find (\<lambda>i. v_offset (volumes ! i) \<le> off \<and> off < v_offset (volumes ! i) + v_size (volumes ! i)) [0..<nvolumes] of
        None \<Rightarrow> hpanic
      | Some i \<Rightarrow> do { kkassert (v_dev (volumes ! i) \<noteq> None); Some i })"

end
