(* ===== verification/H2_VolumeProps.thy ===== *)
theory H2_VolumeProps
  imports H2_Volume H2_VolHdrProps
begin

text \<open>
  What a successful \<open>hammer2_init_volumes\<close> guarantees: the volumes cover the file system's address space from 0
  to its size without a gap or an overlap, and \<open>hammer2_get_volume\<close> finds the one that holds an offset.
\<close>

section \<open>The initialisation\<close>

lemma first_error_0: "first_error f xs = Some 0 \<Longrightarrow> x \<in> set xs \<Longrightarrow> f x = Some 0"
  by (induction xs) (auto simp: bind_Some_iff split: if_splits)

lemma read_label:
  assumes "hammer2_read_volume_header d vd0 = (zone, vd)" "0 \<le> zone"
  shows "\<exists>dl. dv_label d = Inr dl"
proof -
  have "\<exists>i < HAMMER2_NUM_VOLHDRS. copy_valid d i"
  proof (rule ccontr)
    assume "\<not> (\<exists>i < HAMMER2_NUM_VOLHDRS. copy_valid d i)"
    then have "hammer2_read_volume_header d vd0 = (- EINVAL_code, vd0)"
      using read_fold(2) [of HAMMER2_NUM_VOLHDRS d vd0] by (simp add: hammer2_read_volume_header_def)
    then show False using assms by simp
  qed
  then show ?thesis by (auto simp: copy_valid_def copy_readable_def)
qed

text \<open>Each slot is empty or holds the volume with its number and one of the devices; the root header is that of slot 0.\<close>

definition vol_empty :: "volume \<Rightarrow> bool" where
  "vol_empty v \<longleftrightarrow> v = \<lparr>v_dev = None, v_offset = - 1, v_size = - 1, v_id = - 1\<rparr>"

definition vol_set :: "vdev set \<Rightarrow> nat \<Rightarrow> volume \<Rightarrow> bool" where
  "vol_set devs i v \<longleftrightarrow> v_id v = int i \<and> (\<exists>d \<in> devs. v_dev v = Some d \<and> (\<exists>dl. dv_label d = Inr dl))"

definition init_ok :: "vdev set \<Rightarrow> volinit \<Rightarrow> bool" where
  "init_ok devs s \<longleftrightarrow> length (vi_volumes s) = HAMMER2_MAX_VOLUMES \<and>
     (\<forall>i < HAMMER2_MAX_VOLUMES. vol_empty (vi_volumes s ! i) \<or> vol_set devs i (vi_volumes s ! i)) \<and>
     (if vol_empty (vi_volumes s ! 0) then vi_rootvoldata s = voldata_zero \<and> vi_rootvoldevvp s = None
      else v_size (vi_volumes s ! 0) = vd_volu_size (vi_rootvoldata s))"

lemma empty_id: "vol_empty v \<Longrightarrow> v_id v = - 1"
  by (simp add: vol_empty_def)

lemma set_id: "vol_set devs i v \<Longrightarrow> v_id v \<noteq> - 1 \<and> \<not> vol_empty v"
  by (auto simp: vol_set_def vol_empty_def)

lemma agree_keeps: "volinit_agree vd s = (e, s') \<Longrightarrow> vi_volumes s' = vi_volumes s \<and> vi_rootvoldata s' = vi_rootvoldata s \<and>
    vi_rootvoldevvp s' = vi_rootvoldevvp s"
  by (auto simp: volinit_agree_def split: if_splits)

lemma init_start: "init_ok devs volinit_start"
  by (simp add: init_ok_def volinit_start_def vol_empty_def)

lemma init_put:
  assumes "init_ok devs s" "i < HAMMER2_MAX_VOLUMES" "v_id (vi_volumes s ! i) = - 1"
    and "v_id v = int i" "v_dev v = Some d" "d \<in> devs" "dv_label d = Inr dl"
    and "vi_volumes s' = (vi_volumes s)[i := v]"
    and "if i = 0 then vi_rootvoldata s' = vd \<and> v_size v = vd_volu_size vd
      else vi_rootvoldata s' = vi_rootvoldata s \<and> vi_rootvoldevvp s' = vi_rootvoldevvp s"
  shows "init_ok devs s'"
proof -
  have len: "length (vi_volumes s) = HAMMER2_MAX_VOLUMES" using assms(1) by (simp add: init_ok_def)
  have v: "vol_set devs i v" using assms(4,5,6,7) by (auto simp: vol_set_def)
  have slots: "\<forall>j < HAMMER2_MAX_VOLUMES. vol_empty (vi_volumes s' ! j) \<or> vol_set devs j (vi_volumes s' ! j)"
    using assms(1,2) v len unfolding assms(8) by (auto simp: init_ok_def nth_list_update)
  show ?thesis
  proof (cases "i = 0")
    case True
    then have "vi_volumes s' ! 0 = v" using len unfolding assms(8) by simp
    then show ?thesis using slots assms(8,9) True len set_id [OF v] by (simp add: init_ok_def)
  next
    case False
    then have "vi_volumes s' ! 0 = vi_volumes s ! 0" unfolding assms(8) by simp
    then show ?thesis using slots assms(1,8,9) False len by (simp add: init_ok_def)
  qed
qed

lemma init_device:
  assumes "volinit_device e s = Some (0, s')" "init_ok devs s" "e \<in> devs"
  shows "init_ok devs s'"
proof -
  obtain zone vd where r: "hammer2_read_volume_header e (vi_voldata s) = (zone, vd)"
    by (cases "hammer2_read_volume_header e (vi_voldata s)")
  let ?i = "unat (vd_volu_id vd)" and ?s = "s\<lparr>vi_voldata := vd\<rparr>"
  obtain err s1 where a: "volinit_agree vd ?s = (err, s1)" by (cases "volinit_agree vd ?s")
  note keep = agree_keeps [OF a]
  let ?v = "\<lparr>v_dev = Some e, v_offset = vd_volu_loff vd ?i, v_size = vd_volu_size vd, v_id = int ?i\<rparr>"
  let ?s2 = "s1\<lparr>vi_volumes := (vi_volumes s1)[?i := ?v]\<rparr>"
  have z: "0 \<le> zone" and i: "?i < HAMMER2_MAX_VOLUMES" "v_id (vi_volumes s ! ?i) = - 1" and err: "err = 0"
    and run: "s' = (if ?i = 0 then ?s2\<lparr>vi_rootvoldata := vd, vi_rootvolzone := Some zone, vi_rootvoldevvp := Some e\<rparr> else ?s2)"
    using assms(1) unfolding volinit_device_def Let_def r prod.case a
    by (auto simp: kkassert_bind split: if_splits)
  obtain dl where dl: "dv_label e = Inr dl" using read_label [OF r z] by blast
  show ?thesis
    by (rule init_put [OF assms(2) i, of ?v e dl s' vd])
       (use assms(3) dl keep run in \<open>auto simp: unat_eq_0\<close>)
qed

lemma init_loop:
  "volinit_loop ds s = Some (0, s') \<Longrightarrow> init_ok devs s \<Longrightarrow> set ds \<subseteq> devs \<Longrightarrow> init_ok devs s'"
proof (induction ds s rule: volinit_loop.induct)
  case (2 e ds s)
  then obtain err s1 where d: "volinit_device e s = Some (err, s1)" by (auto simp: bind_Some_iff)
  then have "err = 0" "volinit_loop ds s1 = Some (0, s')" using "2.prems"(1) by (auto split: if_splits)
  moreover have "init_ok devs s1" using init_device [of e s s1 devs] d "2.prems"(2,3) \<open>err = 0\<close> by simp
  ultimately show ?case using "2.IH" [OF d refl] "2.prems"(3) by simp
qed simp

section \<open>The layout\<close>

text \<open>The first \<open>n\<close> volumes follow one another without a gap, each on its device, and start on 1 GB boundaries.\<close>

definition laid_out :: "vdev set \<Rightarrow> volume list \<Rightarrow> nat \<Rightarrow> bool" where
  "laid_out devs vols n \<longleftrightarrow> (\<forall>i < n. (\<exists>d \<in> devs. v_dev (vols ! i) = Some d \<and> (\<exists>dl. dv_label d = Inr dl \<and> v_size (vols ! i) \<le> mediasize_of dl)) \<and>
     v_size (vols ! i) \<noteq> 0 \<and> v_offset (vols ! i) AND HAMMER2_FREEMAP_LEVEL1_MASK = 0 \<and>
     unat (v_offset (vols ! i)) = (\<Sum>j < i. unat (v_size (vols ! j))))"

lemma common_vol:
  assumes "verify_common_vol v = Some 0" "vol_set devs i v"
  shows "(\<exists>d \<in> devs. v_dev v = Some d \<and> (\<exists>dl. dv_label d = Inr dl \<and> v_size v \<le> mediasize_of dl)) \<and> v_size v \<noteq> 0"
proof -
  obtain d dl where d: "d \<in> devs" "v_dev v = Some d" "dv_label d = Inr dl" using assms(2) by (auto simp: vol_set_def)
  then have "v_size v \<le> mediasize_of dl" "v_size v \<noteq> 0"
    using assms(1) set_id [OF assms(2)] by (simp_all add: verify_common_vol_def not_less split: if_splits)
  then show ?thesis using d by blast
qed

lemma minus_two_unaligned: "(- 1 + - 1 :: h2_off) AND HAMMER2_FREEMAP_LEVEL1_MASK \<noteq> 0"
  by simp

lemma verify_2_next:
  assumes "verify_2_vol vols rv i = Some 0" "v_id (vols ! i) \<noteq> - 1" "v_dev (vols ! i) = Some d"
  shows "v_offset (vols ! i) AND HAMMER2_FREEMAP_LEVEL1_MASK = 0"
    "i \<noteq> 0 \<Longrightarrow> v_offset (vols ! i) = v_offset (vols ! (i - 1)) + v_size (vols ! (i - 1))"
    "i = 0 \<Longrightarrow> v_offset (vols ! i) = 0"
proof -
  let ?v = "vols ! i" and ?p = "vols ! (i - 1)"
  have "verify_2_vol vols rv i =
      (if v_offset ?v AND HAMMER2_FREEMAP_LEVEL1_MASK \<noteq> 0 then Some EINVAL_code
       else if i \<noteq> 0 \<and> v_id ?v \<le> v_id ?p then Some EINVAL_code
       else if i \<noteq> 0 \<and> v_offset ?v \<noteq> v_offset ?p + v_size ?p then Some EINVAL_code
       else if i = 0 \<and> v_offset ?v \<noteq> 0 then Some EINVAL_code
       else if int i \<noteq> int (unat (vd_nvolumes rv)) - 1 then
         (if v_size ?v < HAMMER2_FREEMAP_LEVEL1_SIZE then Some EINVAL_code
          else if v_size ?v AND HAMMER2_FREEMAP_LEVEL1_MASK \<noteq> 0 then Some EINVAL_code else Some 0)
       else if v_size ?v AND HAMMER2_VOLUME_ALIGNMASK64 \<noteq> 0 then Some EINVAL_code else Some 0)"
    unfolding verify_2_vol_def Let_def assms(3) option.case if_not_P [OF assms(2)] ..
  then have "\<not> (v_offset ?v AND HAMMER2_FREEMAP_LEVEL1_MASK \<noteq> 0) \<and> \<not> (i \<noteq> 0 \<and> v_offset ?v \<noteq> v_offset ?p + v_size ?p) \<and>
      \<not> (i = 0 \<and> v_offset ?v \<noteq> 0)"
    using assms(1) by (metis option.inject zero_neq_numeral)
  then show "v_offset ?v AND HAMMER2_FREEMAP_LEVEL1_MASK = 0" "i \<noteq> 0 \<Longrightarrow> v_offset ?v = v_offset ?p + v_size ?p"
    "i = 0 \<Longrightarrow> v_offset ?v = 0" by blast+
qed

text \<open>In the version with several volumes the slots in use are the first ones.\<close>

lemma slots_prefix:
  assumes "\<forall>i < HAMMER2_MAX_VOLUMES. vol_empty (vols ! i) \<or> vol_set devs i (vols ! i)"
    and "\<forall>i < HAMMER2_MAX_VOLUMES. verify_2_vol vols rv i = Some 0" "i < HAMMER2_MAX_VOLUMES" "\<not> vol_empty (vols ! i)" "j \<le> i"
  shows "\<not> vol_empty (vols ! j)"
  using assms(3-5)
proof (induction i)
  case (Suc i)
  then have s: "vol_set devs (Suc i) (vols ! Suc i)" using assms(1) by blast
  then obtain d where "v_dev (vols ! Suc i) = Some d" "v_id (vols ! Suc i) \<noteq> - 1" using set_id [OF s] by (auto simp: vol_set_def)
  then have v: "v_offset (vols ! Suc i) AND HAMMER2_FREEMAP_LEVEL1_MASK = 0"
    "v_offset (vols ! Suc i) = v_offset (vols ! i) + v_size (vols ! i)"
    using verify_2_next [of vols rv "Suc i"] assms(2) Suc.prems(1) by simp_all
  have "\<not> vol_empty (vols ! i)"
  proof
    assume "vol_empty (vols ! i)"
    then have "v_offset (vols ! Suc i) = - 1 + - 1" using v(2) by (simp add: vol_empty_def)
    then show False using v(1) minus_two_unaligned by metis
  qed
  then show ?case using Suc by (cases "j = Suc i") auto
qed simp

lemma filter_prefix:
  assumes "length xs = k" "n \<le> k" "\<And>i. i < k \<Longrightarrow> P (xs ! i) \<longleftrightarrow> i < n"
  shows "filter P xs = take n xs"
proof -
  have "filter P xs = filter P (take n xs) @ filter P (drop n xs)" by (metis append_take_drop_id filter_append)
  moreover have "filter P (take n xs) = take n xs" using assms by (auto simp: filter_id_conv in_set_conv_nth)
  moreover have "filter P (drop n xs) = []" using assms by (auto simp: filter_empty_conv in_set_conv_nth)
  ultimately show ?thesis by simp
qed

lemma prefix_exists:
  assumes "\<And>i j. i < k \<Longrightarrow> \<not> P i \<Longrightarrow> j \<le> i \<Longrightarrow> \<not> P j"
  shows "\<exists>n \<le> (k :: nat). \<forall>i < k. \<not> P i \<longleftrightarrow> i < n"
  using assms
proof (induction k)
  case (Suc k)
  then obtain n where n: "n \<le> k" "\<forall>i < k. \<not> P i \<longleftrightarrow> i < n" by (metis less_Suc_eq)
  show ?case
  proof (cases "P k")
    case True
    then show ?thesis using n by (intro exI [of _ n]) (auto simp: less_Suc_eq)
  next
    case False
    then have "\<forall>j < Suc k. \<not> P j" using Suc.prems [of k] by auto
    then show ?thesis by (intro exI [of _ "Suc k"]) auto
  qed
qed simp

lemma unat_sum_list_nth:
  assumes "(\<Sum>j < n. unat (f (xs ! j))) < 2 ^ 64" "n \<le> length xs"
  shows "unat (sum_list (map f (take n xs)) :: u64) = (\<Sum>j < n. unat (f (xs ! j)))"
  using assms
proof (induction n)
  case (Suc n)
  then have "take (Suc n) xs = take n xs @ [xs ! n]" by (simp add: take_Suc_conv_app_nth)
  then show ?case using Suc by (simp add: unat_add_lem [THEN iffD1])
qed simp

text \<open>Devices of less than \<open>2^57\<close> bytes, so that no sum of 64 sizes wraps around.\<close>

definition small_devices :: "vdev set \<Rightarrow> bool" where
  "small_devices devs \<longleftrightarrow> (\<forall>d \<in> devs. \<forall>dl. dv_label d = Inr dl \<longrightarrow> unat (mediasize_of dl) < 2 ^ 57)"

abbreviation (input) vol_sum :: "volume list \<Rightarrow> nat \<Rightarrow> nat" where
  "vol_sum vols n \<equiv> (\<Sum>j < n. unat (v_size (vols ! j)))"

lemma vol_sum_bound:
  assumes "\<And>j. j < n \<Longrightarrow> unat (v_size (vols ! j)) < 2 ^ 57" "n \<le> HAMMER2_MAX_VOLUMES"
  shows "vol_sum vols n < 2 ^ 64"
proof -
  have "vol_sum vols n \<le> (\<Sum>j < n. 2 ^ 57)" by (rule sum_mono) (use assms(1) in \<open>auto intro: less_imp_le\<close>)
  also have "\<dots> = n * 2 ^ 57" by simp
  also have "\<dots> \<le> HAMMER2_MAX_VOLUMES * 2 ^ 57" using assms(2) by (intro mult_le_mono1)
  also have "\<dots> < 2 ^ 64" by simp
  finally show ?thesis .
qed

lemma small_size:
  assumes "small_devices devs" "\<exists>d \<in> devs. v_dev v = Some d \<and> (\<exists>dl. dv_label d = Inr dl \<and> v_size v \<le> mediasize_of dl)"
  shows "unat (v_size v) < 2 ^ 57"
  using assms unfolding small_devices_def word_le_nat_alt by (meson le_less_trans)

lemma layout_2:
  assumes "init_ok devs s" "small_devices devs" "\<not> vol_empty (vi_volumes s ! 0)"
    and "\<And>i. i < HAMMER2_MAX_VOLUMES \<Longrightarrow> verify_common_vol (vi_volumes s ! i) = Some 0"
    and "hammer2_verify_volumes_2 (vi_volumes s) rv = Some 0"
  shows "\<exists>n. unat (vd_nvolumes rv) = n \<and> 0 < n \<and> n \<le> HAMMER2_MAX_VOLUMES \<and> laid_out devs (vi_volumes s) n \<and>
    unat (vd_total_size rv) = vol_sum (vi_volumes s) n \<and> vol_sum (vi_volumes s) n < 2 ^ 64"
proof -
  let ?vols = "vi_volumes s"
  have len: "length ?vols = HAMMER2_MAX_VOLUMES"
    and slot: "\<forall>i < HAMMER2_MAX_VOLUMES. vol_empty (?vols ! i) \<or> vol_set devs i (?vols ! i)" using assms(1) by (simp_all add: init_ok_def)
  let ?in = "filter (\<lambda>vol. v_id vol \<noteq> - 1) ?vols"
  have v2: "\<forall>i < HAMMER2_MAX_VOLUMES. verify_2_vol ?vols rv i = Some 0" and head: "unat (vd_nvolumes rv) = length ?in"
      "vd_total_size rv = sum_list (map v_size ?in)"
    using assms(5) first_error_0 [of "verify_2_vol ?vols rv" "[0..<HAMMER2_MAX_VOLUMES]"]
    unfolding hammer2_verify_volumes_2_def Let_def by (auto split: if_splits)
  obtain n where n: "n \<le> HAMMER2_MAX_VOLUMES" "\<forall>i < HAMMER2_MAX_VOLUMES. \<not> vol_empty (?vols ! i) \<longleftrightarrow> i < n"
    using prefix_exists [of HAMMER2_MAX_VOLUMES "\<lambda>i. vol_empty (?vols ! i)"] slots_prefix [OF slot v2] by blast
  have ids: "v_id (?vols ! i) \<noteq> - 1 \<longleftrightarrow> i < n" if "i < HAMMER2_MAX_VOLUMES" for i
    using that n(2) slot set_id empty_id by metis
  have filt: "?in = take n ?vols" by (rule filter_prefix [OF len n(1)]) (rule ids)
  have used: "vol_set devs i (?vols ! i)" if "i < n" for i
    using slot n that less_le_trans [OF that n(1)] by blast
  have dev: "(\<exists>d \<in> devs. v_dev (?vols ! i) = Some d \<and> (\<exists>dl. dv_label d = Inr dl \<and> v_size (?vols ! i) \<le> mediasize_of dl)) \<and>
      v_size (?vols ! i) \<noteq> 0" if "i < n" for i
    using common_vol [OF assms(4) used [OF that]] that n(1) by simp
  have sums: "vol_sum ?vols k < 2 ^ 64" if "k \<le> n" for k
  proof (rule vol_sum_bound)
    show "unat (v_size (?vols ! j)) < 2 ^ 57" if "j < k" for j
      using small_size [OF assms(2) conjunct1 [OF dev]] that \<open>k \<le> n\<close> by simp
  qed (use that n(1) in simp)
  have next_vol: "v_offset (?vols ! i) AND HAMMER2_FREEMAP_LEVEL1_MASK = 0"
      "i \<noteq> 0 \<Longrightarrow> v_offset (?vols ! i) = v_offset (?vols ! (i - 1)) + v_size (?vols ! (i - 1))" "i = 0 \<Longrightarrow> v_offset (?vols ! i) = 0"
    if i: "i < n" for i
  proof -
    obtain d where "v_dev (?vols ! i) = Some d" using used [OF i] by (auto simp: vol_set_def)
    moreover have "verify_2_vol ?vols rv i = Some 0" "v_id (?vols ! i) \<noteq> - 1" using v2 i n(1) set_id [OF used [OF i]] by simp_all
    ultimately show "v_offset (?vols ! i) AND HAMMER2_FREEMAP_LEVEL1_MASK = 0"
      "i \<noteq> 0 \<Longrightarrow> v_offset (?vols ! i) = v_offset (?vols ! (i - 1)) + v_size (?vols ! (i - 1))" "i = 0 \<Longrightarrow> v_offset (?vols ! i) = 0"
      using verify_2_next by blast+
  qed
  have off: "i < n \<Longrightarrow> unat (v_offset (?vols ! i)) = vol_sum ?vols i" for i
  proof (induction i)
    case (Suc i)
    then have "v_offset (?vols ! Suc i) = v_offset (?vols ! i) + v_size (?vols ! i)" using next_vol(2) [of "Suc i"] by simp
    moreover have "unat (v_offset (?vols ! i)) + unat (v_size (?vols ! i)) < 2 ^ 64" using Suc sums [of "Suc i"] by simp
    ultimately show ?case using Suc by (simp add: unat_add_lem [THEN iffD1])
  qed (use next_vol(3) in simp)
  have "laid_out devs ?vols n" using dev off next_vol(1) by (simp add: laid_out_def)
  moreover have "unat (vd_total_size rv) = vol_sum ?vols n"
    unfolding head(2) filt by (rule unat_sum_list_nth) (use sums [of n] n(1) len in auto)
  moreover have "0 < n" using n assms(3) by (metis not_gr_zero zero_less_numeral)
  ultimately show ?thesis using head(1) filt len n(1) sums [of n] by (intro exI [of _ n]) simp
qed

lemma layout_1:
  assumes "init_ok devs s" "small_devices devs" "\<not> vol_empty (vi_volumes s ! 0)"
    and "verify_common_vol (vi_volumes s ! 0) = Some 0" "hammer2_verify_volumes_1 (vi_volumes s) rv = Some 0"
  shows "laid_out devs (vi_volumes s) 1 \<and> vol_sum (vi_volumes s) 1 < 2 ^ 64"
proof -
  let ?v = "vi_volumes s ! 0"
  have "(0 :: nat) < HAMMER2_MAX_VOLUMES" by simp
  then have set: "vol_set devs 0 ?v" using assms(1,3) unfolding init_ok_def by blast
  note dev = common_vol [OF assms(4) set]
  obtain d where "v_dev ?v = Some d" using set by (auto simp: vol_set_def)
  then have "v_offset ?v = 0" using assms(5) unfolding hammer2_verify_volumes_1_def Let_def by (auto split: if_splits)
  moreover have "unat (v_size ?v) < 2 ^ 57" using small_size [OF assms(2)] dev by blast
  ultimately show ?thesis using dev by (simp add: laid_out_def)
qed

section \<open>The lookup\<close>

lemma find_upt: "find P [0..<n] = Some i \<longleftrightarrow> i < n \<and> P i \<and> (\<forall>j < i. \<not> P j)"
  by (auto simp: find_Some_iff)

lemma laid_range:
  assumes "laid_out devs vols n" "vol_sum vols n < 2 ^ 64" "i < n"
  shows "v_offset (vols ! i) \<le> off \<and> off < v_offset (vols ! i) + v_size (vols ! i) \<longleftrightarrow>
    vol_sum vols i \<le> unat off \<and> unat off < vol_sum vols (Suc i)"
proof -
  have o: "unat (v_offset (vols ! i)) = vol_sum vols i" using assms(1,3) by (simp add: laid_out_def)
  have "vol_sum vols (Suc i) \<le> vol_sum vols n" by (rule sum_mono2) (use assms(3) in auto)
  then have "unat (v_offset (vols ! i)) + unat (v_size (vols ! i)) < 2 ^ 64" using assms(2) o by simp
  then have "unat (v_offset (vols ! i) + v_size (vols ! i)) = vol_sum vols (Suc i)" using o by (simp add: unat_add_lem [THEN iffD1])
  then show ?thesis using o by (simp add: word_le_nat_alt word_less_nat_alt)
qed

lemma sum_split_at:
  fixes f :: "nat \<Rightarrow> nat"
  assumes "x < (\<Sum>j < n. f j)"
  shows "\<exists>i < n. (\<Sum>j < i. f j) \<le> x \<and> x < (\<Sum>j < Suc i. f j)"
  using assms by (induction n) (auto simp: less_Suc_eq not_less [symmetric])

lemma get_volume_laid:
  assumes "laid_out devs vols n" "vol_sum vols n < 2 ^ 64"
  shows "if unat (off AND NOT HAMMER2_OFF_MASK_RADIX) < vol_sum vols n
    then \<exists>i < n. hammer2_get_volume vols n off = Some i \<and>
      vol_sum vols i \<le> unat (off AND NOT HAMMER2_OFF_MASK_RADIX) \<and> unat (off AND NOT HAMMER2_OFF_MASK_RADIX) < vol_sum vols (Suc i)
    else hammer2_get_volume vols n off = None"
proof -
  let ?o = "off AND NOT HAMMER2_OFF_MASK_RADIX :: h2_off"
  let ?P = "\<lambda>i. v_offset (vols ! i) \<le> ?o \<and> ?o < v_offset (vols ! i) + v_size (vols ! i)"
  have iff: "?P i \<longleftrightarrow> vol_sum vols i \<le> unat ?o \<and> unat ?o < vol_sum vols (Suc i)" if "i < n" for i
    using laid_range [OF assms that] .
  show ?thesis
  proof (cases "unat ?o < vol_sum vols n")
    case True
    then obtain i where i: "i < n" "vol_sum vols i \<le> unat ?o" "unat ?o < vol_sum vols (Suc i)" using sum_split_at by blast
    have "\<not> ?P j" if "j < i" for j
    proof -
      have "vol_sum vols (Suc j) \<le> vol_sum vols i" by (rule sum_mono2) (use that in auto)
      then show ?thesis using iff [of j] that i by simp
    qed
    then have "find ?P [0..<n] = Some i" unfolding find_upt using i iff by blast
    moreover have "v_dev (vols ! i) \<noteq> None" using assms(1) i(1) by (auto simp: laid_out_def)
    ultimately have "hammer2_get_volume vols n off = Some i" by (simp add: hammer2_get_volume_def Let_def kkassert_bind)
    then show ?thesis using True i by auto
  next
    case False
    have "\<not> ?P i" if "i < n" for i
    proof -
      have "vol_sum vols (Suc i) \<le> vol_sum vols n" by (rule sum_mono2) (use that in auto)
      then show ?thesis using iff [OF that] False by simp
    qed
    then have "find ?P [0..<n] = None" by (auto simp: find_None_iff)
    then show ?thesis using False by (simp add: hammer2_get_volume_def Let_def)
  qed
qed

lemma get_found:
  assumes "laid_out devs vols n" "vol_sum vols n < 2 ^ 64"
  shows "if unat (off AND NOT HAMMER2_OFF_MASK_RADIX) < vol_sum vols n
    then \<exists>i d dl. hammer2_get_volume vols n off = Some i \<and> i < n \<and> v_offset (vols ! i) \<le> off AND NOT HAMMER2_OFF_MASK_RADIX \<and>
         unat ((off AND NOT HAMMER2_OFF_MASK_RADIX) - v_offset (vols ! i)) < unat (v_size (vols ! i)) \<and>
         (\<forall>j < n. v_offset (vols ! j) \<le> off AND NOT HAMMER2_OFF_MASK_RADIX \<and>
            off AND NOT HAMMER2_OFF_MASK_RADIX < v_offset (vols ! j) + v_size (vols ! j) \<longrightarrow> j = i) \<and>
         v_dev (vols ! i) = Some d \<and> d \<in> devs \<and> dv_label d = Inr dl \<and> v_size (vols ! i) \<le> mediasize_of dl \<and>
         v_offset (vols ! i) AND HAMMER2_FREEMAP_LEVEL1_MASK = 0
    else hammer2_get_volume vols n off = None"
proof (cases "unat (off AND NOT HAMMER2_OFF_MASK_RADIX) < vol_sum vols n")
  case True
  define x where "x = off AND NOT HAMMER2_OFF_MASK_RADIX"
  obtain i where i: "i < n" "hammer2_get_volume vols n off = Some i" "vol_sum vols i \<le> unat x" "unat x < vol_sum vols (Suc i)"
    using get_volume_laid [OF assms, of off] True unfolding x_def by auto
  obtain d dl where d: "v_dev (vols ! i) = Some d" "d \<in> devs" "dv_label d = Inr dl" "v_size (vols ! i) \<le> mediasize_of dl"
      "v_offset (vols ! i) AND HAMMER2_FREEMAP_LEVEL1_MASK = 0" "unat (v_offset (vols ! i)) = vol_sum vols i"
    using assms(1) i(1) unfolding laid_out_def by blast
  have le: "v_offset (vols ! i) \<le> x" using d(6) i(3) by (simp add: word_le_nat_alt)
  then have dist: "unat (x - v_offset (vols ! i)) < unat (v_size (vols ! i))" using d(6) i(3,4) by (simp add: unat_sub)
  have uniq: "j = i" if "j < n" "v_offset (vols ! j) \<le> x" "x < v_offset (vols ! j) + v_size (vols ! j)" for j
  proof (rule ccontr)
    assume "j \<noteq> i"
    have j: "vol_sum vols j \<le> unat x" "unat x < vol_sum vols (Suc j)" using iffD1 [OF laid_range [OF assms that(1), of x] conjI [OF that(2,3)]] by blast+
    have mono: "vol_sum vols (Suc a) \<le> vol_sum vols b" if "a < b" for a b by (rule sum_mono2) (use that in auto)
    show False using mono [of i j] mono [of j i] i(3,4) j \<open>j \<noteq> i\<close> by (cases "i < j") auto
  qed
  have "hammer2_get_volume vols n off = Some i \<and> i < n \<and> v_offset (vols ! i) \<le> x \<and>
         unat (x - v_offset (vols ! i)) < unat (v_size (vols ! i)) \<and>
         (\<forall>j < n. v_offset (vols ! j) \<le> x \<and> x < v_offset (vols ! j) + v_size (vols ! j) \<longrightarrow> j = i) \<and>
         v_dev (vols ! i) = Some d \<and> d \<in> devs \<and> dv_label d = Inr dl \<and> v_size (vols ! i) \<le> mediasize_of dl \<and>
         v_offset (vols ! i) AND HAMMER2_FREEMAP_LEVEL1_MASK = 0"
    using i(1,2) d(1-5) le dist uniq by blast
  then show ?thesis unfolding if_P [OF True] x_def by blast
next
  case False
  then show ?thesis using get_volume_laid [OF assms, of off] by simp
qed

section \<open>The claims\<close>

lemma init_volumes_parts:
  assumes "hammer2_init_volumes ds = Some (0, s)"
  shows "init_ok (set ds) s \<and> \<not> vol_empty (vi_volumes s ! 0) \<and>
    (\<forall>i < HAMMER2_MAX_VOLUMES. verify_common_vol (vi_volumes s ! i) = Some 0) \<and>
    (if HAMMER2_VOL_VERSION_MULTI_VOLUMES \<le> vd_version (vi_rootvoldata s)
     then hammer2_verify_volumes_2 (vi_volumes s) (vi_rootvoldata s) = Some 0
     else hammer2_verify_volumes_1 (vi_volumes s) (vi_rootvoldata s) = Some 0)"
proof -
  obtain err s1 where l: "volinit_loop ds volinit_start = Some (err, s1)" using assms by (auto simp: hammer2_init_volumes_def bind_Some_iff)
  then have "err = 0" and s: "s1 = s" and v: "vd_version (vi_rootvoldata s) \<noteq> 0"
    and ver: "hammer2_verify_volumes (vi_volumes s) (vi_rootvoldata s) = Some 0"
    using assms by (auto simp: hammer2_init_volumes_def bind_Some_iff split: if_splits)
  then have ok: "init_ok (set ds) s" using init_loop [OF l [unfolded \<open>err = 0\<close>] init_start subset_refl] by simp
  have zero: "vd_version voldata_zero = 0"
  proof -
    have "bytes_at 0x30 4 voldata_zero = replicate 4 0" by (simp add: bytes_at_def voldata_zero_def)
    moreover have "le_word (replicate 4 0) = (0 :: u32)" by code_simp
    ultimately show ?thesis by (simp add: vd_version_def ld32_def)
  qed
  have "\<not> vol_empty (vi_volumes s ! 0)" using ok v zero by (auto simp: init_ok_def)
  moreover obtain "hammer2_verify_volumes_common (vi_volumes s) (vi_rootvoldata s) = Some 0"
    "if HAMMER2_VOL_VERSION_MULTI_VOLUMES \<le> vd_version (vi_rootvoldata s)
     then hammer2_verify_volumes_2 (vi_volumes s) (vi_rootvoldata s) = Some 0
     else hammer2_verify_volumes_1 (vi_volumes s) (vi_rootvoldata s) = Some 0"
    using ver by (auto simp: hammer2_verify_volumes_def bind_Some_iff split: if_splits)
  moreover have "verify_common_vol (vi_volumes s ! i) = Some 0" if "i < HAMMER2_MAX_VOLUMES" for i
  proof -
    have "vi_volumes s ! i \<in> set (vi_volumes s)" using that ok by (simp add: init_ok_def)
    then show ?thesis using calculation(2) first_error_0 by (auto simp: hammer2_verify_volumes_common_def split: if_splits)
  qed
  ultimately show ?thesis using ok by blast
qed

text \<open>C25: When a mount accepts the volumes, they cover the address space of the file system: with the number of volumes
and the size that the mount takes from the root header, every offset below the size is in exactly one volume, which
\<open>hammer2_get_volume\<close> finds without a panic; the volume is on one of the devices, large enough for it, and starts at a
multiple of 1 GB. \<open>hammer2_get_volume\<close> panics for every other offset.\<close>

theorem mount_volumes_cover:
  assumes "hammer2_init_volumes ds = Some (0, s)" "small_devices (set ds)"
  shows "\<exists>n total. mount_geometry (vi_rootvoldata s) = Some (n, total) \<and> n \<le> HAMMER2_MAX_VOLUMES \<and>
    (\<forall>off. let o' = off AND NOT HAMMER2_OFF_MASK_RADIX in
       if o' < total
       then \<exists>i d dl. hammer2_get_volume (vi_volumes s) n off = Some i \<and> i < n \<and> v_offset (vi_volumes s ! i) \<le> o' \<and>
         unat (o' - v_offset (vi_volumes s ! i)) < unat (v_size (vi_volumes s ! i)) \<and>
         (\<forall>j < n. v_offset (vi_volumes s ! j) \<le> o' \<and> o' < v_offset (vi_volumes s ! j) + v_size (vi_volumes s ! j) \<longrightarrow> j = i) \<and>
         v_dev (vi_volumes s ! i) = Some d \<and> d \<in> set ds \<and> dv_label d = Inr dl \<and> v_size (vi_volumes s ! i) \<le> mediasize_of dl \<and>
         v_offset (vi_volumes s ! i) AND HAMMER2_FREEMAP_LEVEL1_MASK = 0
       else hammer2_get_volume (vi_volumes s) n off = None)"
proof -
  let ?vols = "vi_volumes s" and ?rv = "vi_rootvoldata s"
  note p = init_volumes_parts [OF assms(1)]
  have ok: "init_ok (set ds) s" "\<not> vol_empty (?vols ! 0)" using p by blast+
  have "\<exists>n total. mount_geometry ?rv = Some (n, total) \<and> n \<le> HAMMER2_MAX_VOLUMES \<and> laid_out (set ds) ?vols n \<and>
      unat total = vol_sum ?vols n \<and> vol_sum ?vols n < 2 ^ 64"
  proof (cases "HAMMER2_VOL_VERSION_MULTI_VOLUMES \<le> vd_version ?rv")
    case True
    then have "hammer2_verify_volumes_2 ?vols ?rv = Some 0" using p by simp
    from layout_2 [OF ok(1) assms(2) ok(2) _ this] p show ?thesis using True by (auto simp: mount_geometry_def kkassert_bind)
  next
    case False
    then have "hammer2_verify_volumes_1 ?vols ?rv = Some 0" using p by simp
    from layout_1 [OF ok(1) assms(2) ok(2) _ this] p
    have "laid_out (set ds) ?vols 1" "vol_sum ?vols 1 < 2 ^ 64" by (metis zero_less_numeral)+
    then show ?thesis using False ok by (auto simp: mount_geometry_def kkassert_bind init_ok_def)
  qed
  then obtain n total where g: "mount_geometry ?rv = Some (n, total)" "n \<le> HAMMER2_MAX_VOLUMES" "laid_out (set ds) ?vols n"
      "unat total = vol_sum ?vols n" "vol_sum ?vols n < 2 ^ 64" by blast
  have "let o' = off AND NOT HAMMER2_OFF_MASK_RADIX in
       if o' < total
       then \<exists>i d dl. hammer2_get_volume ?vols n off = Some i \<and> i < n \<and> v_offset (?vols ! i) \<le> o' \<and>
         unat (o' - v_offset (?vols ! i)) < unat (v_size (?vols ! i)) \<and>
         (\<forall>j < n. v_offset (?vols ! j) \<le> o' \<and> o' < v_offset (?vols ! j) + v_size (?vols ! j) \<longrightarrow> j = i) \<and>
         v_dev (?vols ! i) = Some d \<and> d \<in> set ds \<and> dv_label d = Inr dl \<and> v_size (?vols ! i) \<le> mediasize_of dl \<and>
         v_offset (?vols ! i) AND HAMMER2_FREEMAP_LEVEL1_MASK = 0
       else hammer2_get_volume ?vols n off = None" for off
  proof -
    have less: "off AND NOT HAMMER2_OFF_MASK_RADIX < total \<longleftrightarrow> unat (off AND NOT HAMMER2_OFF_MASK_RADIX) < vol_sum ?vols n"
      unfolding g(4) [symmetric] by (rule word_less_nat_alt)
    show ?thesis unfolding Let_def less by (rule get_found [OF g(3,5)])
  qed
  then show ?thesis using g(1,2) by blast
qed

section \<open>Example: one volume of 8 GB, version 1\<close>

definition example_uuid :: "u8 list" where
  "example_uuid = [0xd1, 0x9a, 0xbb, 0x5c, 0x2d, 0x86, 0xdc, 0x11, 0xa9, 0x4d, 0x01, 0x30, 0x1b, 0xb8, 0xa9, 0xf5]"

definition example_body :: volume_data where
  "example_body = st_bytes 0x50 example_uuid (st32 0x30 1 (st64 0x28 0x200000000 (st64 0 HAMMER2_VOLUME_ID_HBO (replicate HAMMER2_VOLUME_BYTES 0))))"

definition example_volume :: volume_data where
  "example_volume = stamp_icrc 0 example_body"

lemma length_example_body: "length example_body = HAMMER2_VOLUME_BYTES"
  by (simp add: example_body_def example_uuid_def)

lemma body_zero: "8 \<le> a \<Longrightarrow> a + n \<le> 0x28 \<or> 0x34 \<le> a \<and> a + n \<le> 0x50 \<or> 0x60 \<le> a \<and> a + n \<le> HAMMER2_VOLUME_BYTES \<Longrightarrow>
    bytes_at a n example_body = replicate n 0"
  unfolding example_body_def
  by (auto simp: bytes_at_after bytes_at_before bytes_at_st32 bytes_at_st64 example_uuid_def) (auto simp: bytes_at_def)

lemma le_word_zeros [simp]: "le_word (replicate n 0) = 0"
  by (induction n) simp_all

lemma nth_bytes_at: "i < length vd \<Longrightarrow> vd ! i = hd (bytes_at i 1 vd)"
  by (simp add: bytes_at_def hd_drop_conv_nth take_Suc)

lemma example_volume_fields:
  "vd_magic example_volume = HAMMER2_VOLUME_ID_HBO" "vd_volu_size example_volume = 0x200000000" "vd_version example_volume = 1"
  "vd_volu_id example_volume = 0" "vd_nvolumes example_volume = 0" "vd_fstype example_volume = example_uuid"
  "vd_total_size example_volume = 0" "i < HAMMER2_MAX_VOLUMES \<Longrightarrow> vd_volu_loff example_volume i = 0"
  "hdr_valid example_volume" "length example_volume = HAMMER2_VOLUME_BYTES"
proof -
  let ?z = "replicate HAMMER2_VOLUME_BYTES (0 :: u8)"
  let ?m = "st64 0 HAMMER2_VOLUME_ID_HBO ?z"
  let ?s = "st64 0x28 0x200000000 ?m"
  let ?w = "st32 0x30 1 ?s"
  have l: "length ?z = HAMMER2_VOLUME_BYTES" "length ?m = HAMMER2_VOLUME_BYTES" "length ?s = HAMMER2_VOLUME_BYTES"
    "length ?w = HAMMER2_VOLUME_BYTES" "length example_uuid = 16" by (simp_all add: example_uuid_def)
  have body: "bytes_at a n example_volume = bytes_at a n example_body" if "stamped_apart a n" for a n
    unfolding example_volume_def by (rule bytes_at_stamp [OF length_example_body that])
  have low: "bytes_at a n example_body = bytes_at a n ?w" if "a + n \<le> 0x50" for a n
    unfolding example_body_def using that l by (intro bytes_at_before) simp_all
  show magic: "vd_magic example_volume = HAMMER2_VOLUME_ID_HBO"
  proof -
    have "bytes_at 0 8 example_volume = bytes_at 0 8 ?m" using l by (simp add: body low stamped_apart_def bytes_at_st32 bytes_at_st64)
    then have "ld64 0 example_volume = ld64 0 ?m" by (simp add: ld64_def)
    also have "\<dots> = HAMMER2_VOLUME_ID_HBO" using l(1) by (intro ld64_st64) simp
    finally show ?thesis by (simp add: vd_magic_def)
  qed
  have "bytes_at 0x28 8 example_volume = bytes_at 0x28 8 ?s" using l by (simp add: body low stamped_apart_def bytes_at_st32)
  then have "vd_volu_size example_volume = ld64 0x28 ?s" by (simp add: vd_volu_size_def ld64_def)
  also have "\<dots> = 0x200000000" using l(2) by (intro ld64_st64) simp
  finally show "vd_volu_size example_volume = 0x200000000" .
  have "bytes_at 0x30 4 example_volume = bytes_at 0x30 4 ?w" by (simp add: body low stamped_apart_def)
  then have "vd_version example_volume = ld32 0x30 ?w" by (simp add: vd_version_def ld32_def)
  also have "\<dots> = 1" using l(3) by (intro ld32_st32) simp
  finally show "vd_version example_volume = 1" .
  have "bytes_at 0x50 (length example_uuid) example_body = example_uuid"
    unfolding example_body_def using l by (intro bytes_at_same) simp
  then show "vd_fstype example_volume = example_uuid" using l(5) by (simp add: vd_fstype_def body stamped_apart_def)
  show len: "length example_volume = HAMMER2_VOLUME_BYTES" unfolding example_volume_def by (rule length_stamp [OF length_example_body])
  have zero: "bytes_at a n example_volume = replicate n 0"
    if "stamped_apart a n" "8 \<le> a" "a + n \<le> 0x28 \<or> 0x34 \<le> a \<and> a + n \<le> 0x50 \<or> 0x60 \<le> a \<and> a + n \<le> HAMMER2_VOLUME_BYTES" for a n
    using body [OF that(1)] body_zero [OF that(2,3)] by simp
  show "vd_volu_id example_volume = 0" "vd_nvolumes example_volume = 0"
    using len by (simp_all add: vd_volu_id_def vd_nvolumes_def nth_bytes_at zero stamped_apart_def)
  show "vd_total_size example_volume = 0" by (simp add: vd_total_size_def ld64_def zero stamped_apart_def)
  show "vd_volu_loff example_volume i = 0" if "i < HAMMER2_MAX_VOLUMES"
    using that by (simp add: vd_volu_loff_def ld64_def zero stamped_apart_def)
  have "vd_magic example_body = HAMMER2_VOLUME_ID_HBO" using magic field_stamp(1) [OF length_example_body, of 0] by (simp add: example_volume_def)
  then show "hdr_valid example_volume" unfolding example_volume_def by (rule stamp_valid [OF length_example_body])
qed

lemma hex_fixed_4: "hex_fixed 4 x = [hex_digit (x div 4096 mod 16), hex_digit (x div 256 mod 16), hex_digit (x div 16 mod 16), hex_digit (x mod 16)]"
proof -
  have "hex_fixed (Suc (Suc (Suc (Suc 0)))) x =
      [hex_digit (x div 4096 mod 16), hex_digit (x div 256 mod 16), hex_digit (x div 16 mod 16), hex_digit (x mod 16)]"
    by (simp add: div_mult2_eq [symmetric])
  moreover have "Suc (Suc (Suc (Suc 0))) = 4" by simp
  ultimately show ?thesis by metis
qed

lemma hex_fixed_8: "hex_fixed 8 x = hex_fixed 4 (x div 65536) @ hex_fixed 4 x"
proof -
  have "hex_fixed (Suc (Suc (Suc (Suc n)))) x = hex_fixed n (x div 65536) @ hex_fixed 4 x" for n
    by (simp add: hex_fixed_4 div_mult2_eq [symmetric])
  moreover have "Suc (Suc (Suc (Suc 4))) = 8" by simp
  ultimately show ?thesis by metis
qed

lemma example_uuid_string: "uuid_snprintf example_uuid = HAMMER2_UUID_STRING"
proof -
  have "ld32 0 example_uuid = 0x5cbb9ad1" "le16_at 4 example_uuid = 0x862d" "le16_at 6 example_uuid = 0x11dc"
    "be16_at 8 example_uuid = 0xa94d" "be16_at 10 example_uuid = 0x0130" "be16_at 12 example_uuid = 0x1bb8" "be16_at 14 example_uuid = 0xa9f5"
    by code_simp+
  then show ?thesis by (simp add: uuid_snprintf_def hex_fixed_8 hex_fixed_4 hex_digit_def)
qed

lemma example_init: "\<exists>s. hammer2_init_volumes [disk_of example_volume] = Some (0, s) \<and> vi_rootvoldata s = example_volume"
proof -
  note f = example_volume_fields
  have r: "hammer2_read_volume_header (disk_of example_volume) vd0 = (0, example_volume)" for vd0
    using read_best [OF disk_copies(3) [OF f(10,9)], of vd0] disk_copies(2) [OF f(10,9)] by simp
  let ?v = "\<lparr>v_dev = Some (disk_of example_volume), v_offset = 0, v_size = 0x200000000, v_id = 0\<rparr>"
  let ?e = "\<lparr>v_dev = None, v_offset = - 1, v_size = - 1, v_id = - 1\<rparr>"
  let ?vols = "?v # replicate 63 ?e"
  have vols: "(replicate HAMMER2_MAX_VOLUMES ?e)[0 := ?v] = ?vols"
    using replicate_Suc [of 63 ?e] by simp
  let ?s = "volinit_start\<lparr>vi_volumes := ?vols, vi_rootvoldata := example_volume, vi_rootvolzone := Some 0,
      vi_rootvoldevvp := Some (disk_of example_volume), vi_voldata := example_volume, vi_v := 1, vi_nvolumes := 0,
      vi_fsid := vd_fsid example_volume, vi_fstype := example_uuid\<rparr>"
  have st: "vi_volumes volinit_start = replicate HAMMER2_MAX_VOLUMES ?e" "vi_v volinit_start = - 1" "vi_rootvoldevvp volinit_start = None"
    by (simp_all add: volinit_start_def)
  have agree: "volinit_agree example_volume (volinit_start\<lparr>vi_voldata := example_volume\<rparr>) =
      (0, volinit_start\<lparr>vi_voldata := example_volume, vi_v := 1, vi_nvolumes := 0, vi_fsid := vd_fsid example_volume, vi_fstype := example_uuid\<rparr>)"
    unfolding volinit_agree_def using f(3,5,6) st(2) by simp
  have id: "unat (vd_volu_id example_volume) = 0" "\<not> v_id (vi_volumes (volinit_start\<lparr>vi_voldata := example_volume\<rparr>) ! 0) \<noteq> - 1"
    using f(4) st(1) by simp_all
  have dev: "volinit_device (disk_of example_volume) volinit_start = Some (0, ?s)"
    unfolding volinit_device_def r prod.case Let_def id(1) agree if_not_P [OF id(2)]
    using f(2) f(8) [of 0] st vols by (simp add: kkassert_bind)
  have l: "volinit_loop [disk_of example_volume] volinit_start = Some (0, ?s)"
    by (simp only: volinit_loop.simps dev Option.bind.bind_lunit prod.case) simp
  note uuid = example_uuid_string
  have one: "verify_common_vol ?v = Some 0" by (simp add: verify_common_vol_def disk_of_def mediasize_of_def)
  have "first_error verify_common_vol (replicate k ?e) = Some 0" for k by (induction k) (simp_all add: verify_common_vol_def)
  then have common: "hammer2_verify_volumes_common ?vols example_volume = Some 0"
    using f uuid one by (simp add: hammer2_verify_volumes_common_def)
  have "hammer2_verify_volumes_1 ?vols example_volume = Some 0"
    using f by (simp add: hammer2_verify_volumes_1_def Let_def)
  then have "hammer2_verify_volumes ?vols example_volume = Some 0"
    using f(3) common by (simp add: hammer2_verify_volumes_def word_le_nat_alt)
  then have "hammer2_init_volumes [disk_of example_volume] = Some (0, ?s)"
    unfolding hammer2_init_volumes_def l using f(3) by simp
  then show ?thesis by (intro exI [of _ ?s]) simp
qed

theorem mount_volumes_cover_witness:
  "\<exists>s. hammer2_init_volumes [disk_of example_volume] = Some (0, s) \<and> hammer2_get_volume (vi_volumes s) 1 0x1FFFFF000 = Some 0"
proof -
  obtain s where s: "hammer2_init_volumes [disk_of example_volume] = Some (0, s)" "vi_rootvoldata s = example_volume"
    using example_init by blast
  have "small_devices (set [disk_of example_volume])" by (simp add: small_devices_def disk_of_def mediasize_of_def)
  from mount_volumes_cover [OF s(1) this]
  obtain n total where g: "mount_geometry (vi_rootvoldata s) = Some (n, total)"
    and all: "\<And>off. off AND NOT HAMMER2_OFF_MASK_RADIX < total \<Longrightarrow> \<exists>i < n. hammer2_get_volume (vi_volumes s) n off = Some i"
    unfolding Let_def by (metis (no_types, lifting))
  have "n = 1" "total = 0x200000000" using g example_volume_fields(2,3) unfolding s(2) by (simp_all add: mount_geometry_def word_le_nat_alt)
  then show ?thesis using all [of "0x1FFFFF000"] s(1) by auto
qed

end
