(* ===== verification/H2_Io.thy ===== *)
theory H2_Io
  imports H2_Volume
begin

text \<open>
  Device I/O (\<open>hammer2_io.c\<close>): a hash table of reference-counted 64 KB buffers, the DIOs.

  A DIO is known by its \<open>pbase\<close>, so a pointer to one is this offset.  \<open>refs\<close> holds the count and the flags in
  one word as in the code.  The buffer cache below is a parameter of the state: the blocks of each volume as
  \<open>bread\<close> gets them, its errors, the data of the buffers that \<open>getblk\<close> returns, and the buffers that are held; to get
  a buffer that is already held would sleep for ever and is \<open>None\<close>, like a panic.  \<open>getblk\<close> does not read: the bytes of
  its buffer are arbitrary (\<open>io_getblk\<close>, by the number of releases so far, the volume and the block).  An operation is atomic here, as the locks make it for other threads, with one
  exception: the lookup and the cleanup of the table run without the lock of a DIO, so the release is in two parts.
  I/O statistics and messages are left out.
\<close>

abbreviation (input) HAMMER2_IOHASH_SIZE :: nat where "HAMMER2_IOHASH_SIZE \<equiv> 1024"
abbreviation (input) HAMMER2_IOHASH_MASK :: nat where "HAMMER2_IOHASH_MASK \<equiv> 1023"
abbreviation (input) DIO_GOOD :: u64 where "DIO_GOOD \<equiv> 0x4000000000000000"
abbreviation (input) DIO_DIRTY :: u64 where "DIO_DIRTY \<equiv> 0x1000000000000000"
abbreviation (input) DIO_FLUSH :: u64 where "DIO_FLUSH \<equiv> 0x0800000000000000"
abbreviation (input) DIO_MASK :: u64 where "DIO_MASK \<equiv> 0x00FFFFFFFFFFFFFF"
abbreviation (input) HAMMER2_DEDUP_FRAG :: nat where "HAMMER2_DEDUP_FRAG \<equiv> 1024"
abbreviation (input) HAMMER2_DEDUP_FRAGRADIX :: nat where "HAMMER2_DEDUP_FRAGRADIX \<equiv> 10"

section \<open>State\<close>

record buf =
  b_lblkno :: int
  b_data :: "u8 list"

record dio =
  d_vol :: nat
  d_bp :: "buf option"
  d_dbase :: h2_off
  d_pbase :: h2_off
  d_refs :: u64
  d_psize :: nat
  d_act :: int
  d_btype :: u8
  d_ticks :: int
  d_error :: int
  d_dedup_valid :: u64
  d_dedup_alloc :: u64

datatype disposal = Bawrite | Bdwrite | Bqrelse | Brelse

record iodev =
  io_hash :: "nat \<Rightarrow> dio list"
  io_free_count :: int
  io_iterator :: nat
  io_allocated :: int
  io_limit :: int
  io_volumes :: "volume list"
  io_nvolumes :: nat
  io_blocks :: "nat \<Rightarrow> int \<Rightarrow> u8 list"
  io_rderr :: "nat \<Rightarrow> int \<Rightarrow> int"
  io_getblk :: "nat \<Rightarrow> nat \<Rightarrow> int \<Rightarrow> u8 list"
  io_held :: "(nat \<times> int) set"
  io_log :: "(disposal \<times> nat \<times> int) list"

datatype dop = DOP_READ | DOP_NEW | DOP_NEWNZ | DOP_READQ

definition dio_refs :: "dio \<Rightarrow> u64" where
  "dio_refs d = d_refs d AND DIO_MASK"

definition dio_flag :: "u64 \<Rightarrow> dio \<Rightarrow> bool" where
  "dio_flag f d \<longleftrightarrow> d_refs d AND f \<noteq> 0"

section \<open>The hash table\<close>

text \<open>\<open>hv = (int)pbase + (int)(pbase >> 16)\<close>, masked.\<close>

definition hammer2_io_hashv :: "h2_off \<Rightarrow> nat" where
  "hammer2_io_hashv pbase =
     nat (sint ((ucast pbase :: u32) + ucast (drop_bit 16 pbase)) AND int HAMMER2_IOHASH_MASK)"

primrec dio_find :: "h2_off \<Rightarrow> dio list \<Rightarrow> dio option" where
  "dio_find pbase [] = None"
| "dio_find pbase (d # ds) = (if d_pbase d = pbase then Some d else dio_find pbase ds)"

text \<open>Writing through a pointer to the DIO.\<close>

primrec dio_upd :: "h2_off \<Rightarrow> (dio \<Rightarrow> dio) \<Rightarrow> dio list \<Rightarrow> dio list" where
  "dio_upd pbase f [] = []"
| "dio_upd pbase f (d # ds) = (if d_pbase d = pbase then f d # ds else d # dio_upd pbase f ds)"

definition dio_at :: "iodev \<Rightarrow> h2_off \<Rightarrow> dio option" where
  "dio_at h pbase = dio_find pbase (io_hash h (hammer2_io_hashv pbase))"

definition dio_set :: "h2_off \<Rightarrow> (dio \<Rightarrow> dio) \<Rightarrow> iodev \<Rightarrow> iodev" where
  "dio_set pbase f h = h\<lparr>io_hash := (io_hash h)(hammer2_io_hashv pbase := dio_upd pbase f (io_hash h (hammer2_io_hashv pbase)))\<rparr>"

text \<open>The reference that a lookup takes; a free DIO leaves the free count.\<close>

definition dio_ref :: "h2_off \<Rightarrow> dio \<Rightarrow> iodev \<Rightarrow> iodev" where
  "dio_ref pbase d h =
     (let h' = dio_set pbase (\<lambda>d. d\<lparr>d_refs := d_refs d + 1\<rparr>) h
      in if dio_refs d = 0 then h'\<lparr>io_free_count := io_free_count h' - 1\<rparr> else h')"

definition hammer2_io_hash_lookup :: "h2_off \<Rightarrow> iodev \<Rightarrow> bool \<times> iodev" where
  "hammer2_io_hash_lookup pbase h =
     (case dio_at h pbase of None \<Rightarrow> (False, h) | Some d \<Rightarrow> (True, dio_ref pbase d h))"

text \<open>Whether there was a DIO already.\<close>

definition hammer2_io_hash_enter :: "dio \<Rightarrow> iodev \<Rightarrow> bool \<times> iodev" where
  "hammer2_io_hash_enter dio h =
     (case dio_at h (d_pbase dio) of
        Some d \<Rightarrow> (True, dio_ref (d_pbase dio) d h)
      | None \<Rightarrow> (False, h\<lparr>io_hash := (io_hash h)(hammer2_io_hashv (d_pbase dio) :=
                             io_hash h (hammer2_io_hashv (d_pbase dio)) @ [dio])\<rparr>))"

section \<open>hammer2_io_alloc\<close>

definition off_size :: "h2_off \<Rightarrow> int" where
  "off_size data_off =
     (if data_off AND HAMMER2_OFF_MASK_RADIX \<noteq> 0 then 2 ^ unat (data_off AND HAMMER2_OFF_MASK_RADIX) else 0)"

text \<open>The result is the \<open>pbase\<close> of the DIO, or \<open>None\<close> when there is none and it is not to be created.\<close>

definition hammer2_io_alloc :: "int \<Rightarrow> h2_off \<Rightarrow> u8 \<Rightarrow> bool \<Rightarrow> iodev \<Rightarrow> (h2_off option \<times> iodev) option" where
  "hammer2_io_alloc now data_off btype createit h = do {
     let psize = (HAMMER2_PBUFSIZE :: nat);
     let pmask = NOT (HAMMER2_PBUFMASK :: h2_off);
     let lsize = off_size data_off;
     let lbase = data_off AND NOT HAMMER2_OFF_MASK_RADIX;
     let pbase = lbase AND pmask;
     if pbase = 0 \<or> (lbase + word_of_int lsize - 1) AND pmask \<noteq> pbase then hpanic
     else do {
       let (found, h) = hammer2_io_hash_lookup pbase h;
       if \<not> found \<and> \<not> createit then Some (None, h)
       else do {
         h \<leftarrow>
           (if found then Some h
            else do {
              i \<leftarrow> hammer2_get_volume (io_volumes h) (io_nvolumes h) pbase;
              let dbase = v_offset (io_volumes h ! i);
              kkassert (dbase AND HAMMER2_FREEMAP_LEVEL1_MASK = 0);
              let dio = \<lparr>d_vol = i, d_bp = None, d_dbase = dbase, d_pbase = pbase, d_refs = 1, d_psize = psize, d_act = 5,
                         d_btype = btype, d_ticks = 0, d_error = 0, d_dedup_valid = 0, d_dedup_alloc = 0\<rparr>;
              let (old, h) = hammer2_io_hash_enter dio h;
              Some (if old then h else h\<lparr>io_allocated := io_allocated h + 1\<rparr>)
            });
         let h = dio_set pbase (\<lambda>d. d\<lparr>d_ticks := now, d_act := (if d_act d < 10 then d_act d + 1 else d_act d)\<rparr>) h;
         dio \<leftarrow> dio_at h pbase;
         kkassert (dio_refs dio \<noteq> 0);
         Some (Some pbase, h)
       }
     }
   }"

section \<open>Buffers\<close>

definition buf_take :: "nat \<Rightarrow> int \<Rightarrow> iodev \<Rightarrow> iodev option" where
  "buf_take vol lblkno h = do {
     kkassert ((vol, lblkno) \<notin> io_held h);
     Some (h\<lparr>io_held := insert (vol, lblkno) (io_held h)\<rparr>)
   }"

text \<open>A release; a write makes the data of the buffer the content of the block.\<close>

definition buf_release :: "disposal \<Rightarrow> nat \<Rightarrow> buf \<Rightarrow> iodev \<Rightarrow> iodev" where
  "buf_release how vol bp h =
     (let h = h\<lparr>io_held := io_held h - {(vol, b_lblkno bp)}, io_log := io_log h @ [(how, vol, b_lblkno bp)]\<rparr>
      in if how = Bawrite \<or> how = Bdwrite
         then h\<lparr>io_blocks := (io_blocks h)(vol := (io_blocks h vol)(b_lblkno bp := b_data bp))\<rparr> else h)"

text \<open>\<open>bread\<close>; after an error the buffer is released.\<close>

definition hammer2_bread :: "h2_off \<Rightarrow> int \<Rightarrow> iodev \<Rightarrow> (int \<times> iodev) option" where
  "hammer2_bread p lblkno h = do {
     dio \<leftarrow> dio_at h p;
     h \<leftarrow> buf_take (d_vol dio) lblkno h;
     let bp = \<lparr>b_lblkno = lblkno, b_data = io_blocks h (d_vol dio) lblkno\<rparr>;
     let error = io_rderr h (d_vol dio) lblkno;
     if error \<noteq> 0 then Some (error, dio_set p (\<lambda>d. d\<lparr>d_bp := None\<rparr>) (buf_release Brelse (d_vol dio) bp h))
     else Some (0, dio_set p (\<lambda>d. d\<lparr>d_bp := Some bp\<rparr>) h)
   }"

text \<open>\<open>hammer2_io_data\<close>: the offset of \<open>lbase\<close> in the data of the buffer.\<close>

definition hammer2_io_data :: "dio \<Rightarrow> h2_off \<Rightarrow> nat option" where
  "hammer2_io_data dio lbase = do {
     bp \<leftarrow> d_bp dio;
     let lbase = lbase - d_dbase dio;
     let b_offset = b_lblkno bp * DEV_BSIZE;
     let off = sint (ucast ((lbase AND NOT HAMMER2_OFF_MASK_RADIX) - word_of_int b_offset) :: u32);
     kkassert (0 \<le> off \<and> off < int (length (b_data bp)));
     Some (nat off)
   }"

definition bzero_at :: "nat \<Rightarrow> nat \<Rightarrow> buf \<Rightarrow> buf" where
  "bzero_at off n bp = bp\<lparr>b_data := take off (b_data bp) @ replicate n 0 @ drop (off + n) (b_data bp)\<rparr>"

section \<open>hammer2_io_getblk\<close>

text \<open>\<open>DOP_NEW\<close> and \<open>DOP_NEWNZ\<close> of a buffer that is there.\<close>

definition getblk_new :: "dop \<Rightarrow> h2_off \<Rightarrow> h2_off \<Rightarrow> int \<Rightarrow> iodev \<Rightarrow> iodev option" where
  "getblk_new opr p lbase lsize h = (case opr of
     DOP_NEW \<Rightarrow> do {
       dio \<leftarrow> dio_at h p;
       off \<leftarrow> hammer2_io_data dio lbase;
       let h = dio_set p (\<lambda>d. d\<lparr>d_bp := map_option (bzero_at off (nat lsize)) (d_bp d)\<rparr>) h;
       Some (dio_set p (\<lambda>d. d\<lparr>d_refs := d_refs d OR DIO_DIRTY\<rparr>) h)
     }
   | DOP_NEWNZ \<Rightarrow> Some (dio_set p (\<lambda>d. d\<lparr>d_refs := d_refs d OR DIO_DIRTY\<rparr>) h)
   | _ \<Rightarrow> Some h)"

text \<open>A whole block needs no read when it is new; \<open>getblk\<close> returns it with whatever content, not that of the device.\<close>

definition getblk_whole :: "dop \<Rightarrow> h2_off \<Rightarrow> int \<Rightarrow> iodev \<Rightarrow> (int \<times> iodev) option" where
  "getblk_whole opr p lblkno h = (if opr = DOP_NEW \<or> opr = DOP_NEWNZ then do {
       dio \<leftarrow> dio_at h p;
       h \<leftarrow> buf_take (d_vol dio) lblkno h;
       let data = io_getblk h (length (io_log h)) (d_vol dio) lblkno;
       let data = (if opr = DOP_NEW then replicate (d_psize dio) 0 else data);
       let h = dio_set p (\<lambda>d. d\<lparr>d_bp := Some \<lparr>b_lblkno = lblkno, b_data = data\<rparr>\<rparr>) h;
       Some (0, dio_set p (\<lambda>d. d\<lparr>d_refs := d_refs d OR DIO_DIRTY\<rparr>) h)
     } else hammer2_bread p lblkno h)"

definition hammer2_io_getblk :: "int \<Rightarrow> u8 \<Rightarrow> h2_off \<Rightarrow> int \<Rightarrow> dop \<Rightarrow> iodev \<Rightarrow> (h2_off option \<times> iodev) option" where
  "hammer2_io_getblk now btype lbase lsize opr h = do {
     kkassert (2 ^ unat (lbase AND HAMMER2_OFF_MASK_RADIX) = lsize);
     (r, h) \<leftarrow> hammer2_io_alloc now lbase btype (opr \<noteq> DOP_READQ) h;
     (case r of
        None \<Rightarrow> do { kkassert (opr = DOP_READQ); Some (None, h) }
      | Some p \<Rightarrow> do {
          let opr = (if opr = DOP_READQ then DOP_READ else opr);
          dio \<leftarrow> dio_at h p;
          if dio_flag DIO_GOOD dio then do {
            h \<leftarrow> getblk_new opr p lbase lsize h;
            Some (Some p, h)
          } else do {
            kkassert (d_bp dio = None);
            let lblkno = (uint (d_pbase dio) - uint (d_dbase dio)) div DEV_BSIZE;
            (error, h) \<leftarrow>
              (if d_pbase dio = lbase AND NOT HAMMER2_OFF_MASK_RADIX \<and> int (d_psize dio) = lsize
               then getblk_whole opr p lblkno h
               else do {
                 (error, h) \<leftarrow> hammer2_bread p lblkno h;
                 dio \<leftarrow> dio_at h p;
                 if d_bp dio \<noteq> None then do {
                   kkassert (error = 0);
                   h \<leftarrow> getblk_new opr p lbase lsize h;
                   Some (error, h)
                 } else Some (error, h)
               });
            let h = dio_set p (\<lambda>d. d\<lparr>d_error := error\<rparr>) h;
            let h = (if error = 0 then dio_set p (\<lambda>d. d\<lparr>d_refs := d_refs d OR DIO_GOOD\<rparr>) h else h);
            Some (Some p, h)
          }
        })
   }"

text \<open>The callers get the error of the DIO and the DIO.\<close>

definition getblk_error :: "int \<Rightarrow> u8 \<Rightarrow> h2_off \<Rightarrow> int \<Rightarrow> dop \<Rightarrow> iodev \<Rightarrow> (int \<times> h2_off \<times> iodev) option" where
  "getblk_error now btype lbase lsize opr h = do {
     (r, h) \<leftarrow> hammer2_io_getblk now btype lbase lsize opr h;
     p \<leftarrow> r;
     dio \<leftarrow> dio_at h p;
     Some (d_error dio, p, h)
   }"

definition hammer2_io_new :: "int \<Rightarrow> u8 \<Rightarrow> h2_off \<Rightarrow> int \<Rightarrow> iodev \<Rightarrow> (int \<times> h2_off \<times> iodev) option" where
  "hammer2_io_new now btype lbase lsize h = getblk_error now btype lbase lsize DOP_NEW h"

definition hammer2_io_newnz :: "int \<Rightarrow> u8 \<Rightarrow> h2_off \<Rightarrow> int \<Rightarrow> iodev \<Rightarrow> (int \<times> h2_off \<times> iodev) option" where
  "hammer2_io_newnz now btype lbase lsize h = getblk_error now btype lbase lsize DOP_NEWNZ h"

definition hammer2_io_bread :: "int \<Rightarrow> u8 \<Rightarrow> h2_off \<Rightarrow> int \<Rightarrow> iodev \<Rightarrow> (int \<times> h2_off \<times> iodev) option" where
  "hammer2_io_bread now btype lbase lsize h = getblk_error now btype lbase lsize DOP_READ h"

definition hammer2_io_getquick :: "int \<Rightarrow> h2_off \<Rightarrow> int \<Rightarrow> iodev \<Rightarrow> (h2_off option \<times> iodev) option" where
  "hammer2_io_getquick now lbase lsize h = hammer2_io_getblk now 0 lbase lsize DOP_READQ h"

section \<open>Cleaning the table\<close>

text \<open>One bucket: the DIOs that stay and those that go.  The activity of a free DIO decays with the time since its
last use; \<open>now\<close> and \<open>hz\<close> are the clock.\<close>

definition dio_decay :: "int \<Rightarrow> int \<Rightarrow> dio \<Rightarrow> dio" where
  "dio_decay now hz d =
     (if 0 < d_act d then (let act = d_act d - (now - d_ticks d) sdiv hz - 1 in d\<lparr>d_act := (if act < 0 then 0 else act)\<rparr>) else d)"

fun cleanup_bucket :: "int \<Rightarrow> int \<Rightarrow> dio list \<Rightarrow> (dio list \<times> dio list) option" where
  "cleanup_bucket now hz [] = Some ([], [])"
| "cleanup_bucket now hz (d # ds) =
     (if dio_refs d \<noteq> 0 then do { (keep, clean) \<leftarrow> cleanup_bucket now hz ds; Some (d # keep, clean) }
      else do {
        let d = dio_decay now hz d;
        if d_act d \<noteq> 0 then do { (keep, clean) \<leftarrow> cleanup_bucket now hz ds; Some (d # keep, clean) }
        else do {
          kkassert (d_bp d = None);
          (keep, clean) \<leftarrow> cleanup_bucket now hz ds;
          Some (keep, d # clean)
        }
      })"

fun cleanup_loop :: "int \<Rightarrow> int \<Rightarrow> nat \<Rightarrow> nat \<Rightarrow> int \<Rightarrow> dio list \<Rightarrow> iodev \<Rightarrow> (dio list \<times> iodev) option" where
  "cleanup_loop now hz maxscan i count cleanlist h =
     (if count \<le> 0 then Some (cleanlist, h)
      else case maxscan of
        0 \<Rightarrow> Some (cleanlist, h)
      | Suc maxscan' \<Rightarrow> do {
          let b = i AND HAMMER2_IOHASH_MASK;
          (keep, clean) \<leftarrow> cleanup_bucket now hz (io_hash h b);
          let n = int (length clean);
          let h = h\<lparr>io_hash := (io_hash h)(b := keep), io_allocated := io_allocated h - n, io_free_count := io_free_count h - n\<rparr>;
          cleanup_loop now hz maxscan' (io_iterator h) (count - n) (cleanlist @ clean) (h\<lparr>io_iterator := io_iterator h + 1\<rparr>)
        })"

declare cleanup_loop.simps [simp del]

definition hammer2_io_hash_cleanup :: "int \<Rightarrow> int \<Rightarrow> int \<Rightarrow> iodev \<Rightarrow> iodev option" where
  "hammer2_io_hash_cleanup now hz dio_limit h = do {
     let count = io_free_count h - dio_limit + 32;
     if count \<le> 0 then Some h
     else do {
       let i = io_iterator h;
       (clean, h) \<leftarrow> cleanup_loop now hz HAMMER2_IOHASH_SIZE i count [] (h\<lparr>io_iterator := io_iterator h + 1\<rparr>);
       kkassert (\<forall>d \<in> set clean. d_bp d = None \<and> dio_refs d = 0);
       Some h
     }
   }"

text \<open>At unmount.\<close>

primrec cleanup_all_bucket :: "dio list \<Rightarrow> iodev \<Rightarrow> iodev option" where
  "cleanup_all_bucket [] h = Some h"
| "cleanup_all_bucket (d # ds) h = do {
     kkassert (d_bp d = None \<and> dio_refs d = 0);
     cleanup_all_bucket ds (h\<lparr>io_allocated := io_allocated h - 1, io_free_count := io_free_count h - 1\<rparr>)
   }"

primrec cleanup_all_from :: "nat list \<Rightarrow> iodev \<Rightarrow> iodev option" where
  "cleanup_all_from [] h = Some h"
| "cleanup_all_from (b # bs) h = do {
     h \<leftarrow> cleanup_all_bucket (io_hash h b) h;
     cleanup_all_from bs (h\<lparr>io_hash := (io_hash h)(b := [])\<rparr>)
   }"

definition hammer2_io_hash_cleanup_all :: "iodev \<Rightarrow> iodev option" where
  "hammer2_io_hash_cleanup_all h = cleanup_all_from [0..<HAMMER2_IOHASH_SIZE] h"

section \<open>hammer2_io_putblk\<close>

text \<open>The drop of the reference: the old \<open>refs\<close> when it was the last one.\<close>

definition putblk_drop :: "h2_off \<Rightarrow> iodev \<Rightarrow> (u64 option \<times> iodev) option" where
  "putblk_drop p h = do {
     dio \<leftarrow> dio_at h p;
     let orefs = d_refs dio;
     if dio_refs dio = 0 then Some (None, h)
     else if dio_refs dio = 1
       then Some (Some orefs, dio_set p (\<lambda>d. d\<lparr>d_refs := (d_refs d - 1) AND NOT (DIO_GOOD OR DIO_DIRTY)\<rparr>) h)
     else Some (None, dio_set p (\<lambda>d. d\<lparr>d_refs := d_refs d - 1\<rparr>) h)
   }"

text \<open>The disposal of the buffer after the last drop.\<close>

definition putblk_dispose :: "h2_off \<Rightarrow> u64 \<Rightarrow> iodev \<Rightarrow> iodev option" where
  "putblk_dispose p orefs h = do {
     dio \<leftarrow> dio_at h p;
     let h = dio_set p (\<lambda>d. d\<lparr>d_bp := None\<rparr>) h;
     let h = (case d_bp dio of
                None \<Rightarrow> h
              | Some bp \<Rightarrow>
                  if orefs AND DIO_GOOD \<noteq> 0 then
                    (if orefs AND DIO_DIRTY \<noteq> 0
                     then buf_release (if dio_flag DIO_FLUSH dio then Bawrite else Bdwrite) (d_vol dio) bp h
                     else buf_release Bqrelse (d_vol dio) bp h)
                  else buf_release Brelse (d_vol dio) bp h);
     let h = h\<lparr>io_free_count := io_free_count h + 1\<rparr>;
     kkassert (\<not> dio_flag DIO_GOOD dio);
     Some h
   }"

definition putblk_limit :: "int \<Rightarrow> int \<Rightarrow> iodev \<Rightarrow> iodev option" where
  "putblk_limit now hz h =
     (let dio_limit = io_limit h;
          dio_limit = (if dio_limit < 256 then 256 else dio_limit);
          dio_limit = (if 1024 * 1024 < dio_limit then 1024 * 1024 else dio_limit)
      in if dio_limit < io_free_count h then hammer2_io_hash_cleanup now hz dio_limit h else Some h)"

definition hammer2_io_putblk :: "int \<Rightarrow> int \<Rightarrow> h2_off \<Rightarrow> iodev \<Rightarrow> iodev option" where
  "hammer2_io_putblk now hz p h = do {
     (orefs, h) \<leftarrow> putblk_drop p h;
     (case orefs of
        None \<Rightarrow> Some h
      | Some orefs \<Rightarrow> do {
          h \<leftarrow> putblk_dispose p orefs h;
          putblk_limit now hz h
        })
   }"

section \<open>The other operations\<close>

definition dio_setflags :: "u64 \<Rightarrow> h2_off \<Rightarrow> iodev \<Rightarrow> iodev option" where
  "dio_setflags f p h = do { _ \<leftarrow> dio_at h p; Some (dio_set p (\<lambda>d. d\<lparr>d_refs := d_refs d OR f\<rparr>) h) }"

definition hammer2_io_setdirty :: "h2_off \<Rightarrow> iodev \<Rightarrow> iodev option" where
  "hammer2_io_setdirty = dio_setflags DIO_DIRTY"

definition hammer2_io_bawrite :: "int \<Rightarrow> int \<Rightarrow> h2_off \<Rightarrow> iodev \<Rightarrow> iodev option" where
  "hammer2_io_bawrite now hz p h = do { h \<leftarrow> dio_setflags (DIO_DIRTY OR DIO_FLUSH) p h; hammer2_io_putblk now hz p h }"

definition hammer2_io_bdwrite :: "int \<Rightarrow> int \<Rightarrow> h2_off \<Rightarrow> iodev \<Rightarrow> iodev option" where
  "hammer2_io_bdwrite now hz p h = do { h \<leftarrow> dio_setflags DIO_DIRTY p h; hammer2_io_putblk now hz p h }"

definition hammer2_io_bwrite :: "int \<Rightarrow> int \<Rightarrow> h2_off \<Rightarrow> iodev \<Rightarrow> iodev option" where
  "hammer2_io_bwrite now hz p h = do { h \<leftarrow> dio_setflags (DIO_DIRTY OR DIO_FLUSH) p h; hammer2_io_putblk now hz p h }"

text \<open>The KB of a DIO that an extent covers.\<close>

definition hammer2_dedup_mask :: "dio \<Rightarrow> h2_off \<Rightarrow> nat \<Rightarrow> u64" where
  "hammer2_dedup_mask dio data_off bytes =
     (let bbeg = nat (sint (ucast ((data_off AND NOT HAMMER2_OFF_MASK_RADIX) - d_pbase dio) :: u32)) div 2 ^ HAMMER2_DEDUP_FRAGRADIX;
          bits = (bytes + (HAMMER2_DEDUP_FRAG - 1)) div 2 ^ HAMMER2_DEDUP_FRAGRADIX;
          mask = (if bbeg + bits = 64 then - 1 else push_bit (bbeg + bits) 1 - 1)
      in mask AND NOT (push_bit bbeg 1 - 1))"

definition hammer2_io_dedup_set :: "int \<Rightarrow> int \<Rightarrow> blockref \<Rightarrow> iodev \<Rightarrow> iodev option" where
  "hammer2_io_dedup_set now hz bref h = do {
     (r, h) \<leftarrow> hammer2_io_alloc now (br_data_off bref) (br_type bref) True h;
     p \<leftarrow> r;
     dio \<leftarrow> dio_at h p;
     let lsize = off_size (br_data_off bref);
     let mask = hammer2_dedup_mask dio (br_data_off bref) (nat lsize);
     let h = dio_set p (\<lambda>d. d\<lparr>d_dedup_valid := d_dedup_valid d AND NOT mask, d_dedup_alloc := d_dedup_alloc d OR mask\<rparr>) h;
     hammer2_io_putblk now hz p h
   }"

definition hammer2_io_dedup_delete :: "int \<Rightarrow> int \<Rightarrow> u8 \<Rightarrow> h2_off \<Rightarrow> nat \<Rightarrow> iodev \<Rightarrow> iodev option" where
  "hammer2_io_dedup_delete now hz btype data_off bytes h =
     (if data_off AND NOT HAMMER2_OFF_MASK_RADIX = 0 then Some h
      else if btype \<noteq> BREF_DATA then Some h
      else do {
        (r, h) \<leftarrow> hammer2_io_alloc now data_off btype False h;
        (case r of
           None \<Rightarrow> Some h
         | Some p \<Rightarrow> do {
             dio \<leftarrow> dio_at h p;
             if data_off < d_pbase dio \<or>
                d_pbase dio + word_of_nat (d_psize dio) < (data_off AND NOT HAMMER2_OFF_MASK_RADIX) + word_of_nat bytes then hpanic
             else do {
               let mask = hammer2_dedup_mask dio data_off bytes;
               let h = dio_set p (\<lambda>d. d\<lparr>d_dedup_alloc := d_dedup_alloc d AND NOT mask, d_dedup_valid := d_dedup_valid d AND NOT mask\<rparr>) h;
               hammer2_io_putblk now hz p h
             }
           })
      })"

definition hammer2_io_dedup_assert :: "int \<Rightarrow> int \<Rightarrow> h2_off \<Rightarrow> nat \<Rightarrow> iodev \<Rightarrow> iodev option" where
  "hammer2_io_dedup_assert now hz data_off bytes h = do {
     (r, h) \<leftarrow> hammer2_io_alloc now data_off BREF_DATA False h;
     (case r of
        None \<Rightarrow> Some h
      | Some p \<Rightarrow> do {
          dio \<leftarrow> dio_at h p;
          kkassert (d_dedup_alloc dio AND hammer2_dedup_mask dio data_off bytes = 0);
          hammer2_io_putblk now hz p h
        })
   }"

end
