(* ===== verification/H2_IoProps.thy ===== *)
theory H2_IoProps
  imports H2_Io H2_VolHdrProps
begin

text \<open>
  The DIO table as a map from \<open>pbase\<close> to DIO, and what its operations keep of the invariant: reference counts,
  the free count, and which buffers are held.
\<close>

section \<open>The table as a map\<close>

lemma hashv_less: "hammer2_io_hashv p < HAMMER2_IOHASH_SIZE"
proof -
  have "x AND int HAMMER2_IOHASH_MASK = x mod 1024" for x :: int
    using int_and_mask [of x 10] by (simp add: mask_eq_exp_minus_1)
  then show ?thesis by (simp add: hammer2_io_hashv_def nat_less_iff)
qed

definition table_ok :: "iodev \<Rightarrow> bool" where
  "table_ok h \<longleftrightarrow> (\<forall>b. distinct (map d_pbase (io_hash h b)) \<and> (\<forall>d \<in> set (io_hash h b). hammer2_io_hashv (d_pbase d) = b))"

lemma dio_find_Some: "dio_find p ds = Some d \<Longrightarrow> d \<in> set ds \<and> d_pbase d = p"
  by (induction ds) (auto split: if_splits)

lemma dio_find_iff: "distinct (map d_pbase ds) \<Longrightarrow> dio_find p ds = Some d \<longleftrightarrow> d \<in> set ds \<and> d_pbase d = p"
  by (induction ds) (auto split: if_splits)

lemma dio_find_None: "dio_find p ds = None \<longleftrightarrow> p \<notin> d_pbase ` set ds"
  by (induction ds) (auto split: if_splits)

lemma dio_at_pbase: "dio_at h p = Some d \<Longrightarrow> d_pbase d = p"
  unfolding dio_at_def by (rule dio_find_Some [THEN conjunct2])

lemma dio_at_iff: "table_ok h \<Longrightarrow> dio_at h p = Some d \<longleftrightarrow> (\<exists>b. d \<in> set (io_hash h b)) \<and> d_pbase d = p"
  unfolding dio_at_def table_ok_def by (subst dio_find_iff) auto

text \<open>A function that leaves the place of a DIO alone.\<close>

definition keeps_place :: "(dio \<Rightarrow> dio) \<Rightarrow> bool" where
  "keeps_place f \<longleftrightarrow> (\<forall>d. d_pbase (f d) = d_pbase d)"

lemma dio_upd_pbase: "keeps_place f \<Longrightarrow> map d_pbase (dio_upd p f ds) = map d_pbase ds"
  by (induction ds) (auto simp: keeps_place_def)

lemma dio_find_upd: "keeps_place f \<Longrightarrow> dio_find q (dio_upd p f ds) = (if q = p then map_option f (dio_find p ds) else dio_find q ds)"
  by (induction ds) (auto simp: keeps_place_def)

lemma dio_at_set [simp]: "keeps_place f \<Longrightarrow> dio_at (dio_set p f h) q = (if q = p then map_option f (dio_at h p) else dio_at h q)"
  by (auto simp: dio_at_def dio_set_def dio_find_upd)

lemma upd_same_pbase: "keeps_place f \<Longrightarrow> d_pbase ` set (dio_upd p f ds) = d_pbase ` set ds"
  using dio_upd_pbase [of f p ds] by (metis list.set_map)

lemma table_set [simp]: "keeps_place f \<Longrightarrow> table_ok h \<Longrightarrow> table_ok (dio_set p f h)"
proof -
  assume f: "keeps_place f" and ok: "table_ok h"
  have "hammer2_io_hashv (d_pbase d) = hammer2_io_hashv p" if "d \<in> set (dio_upd p f (io_hash h (hammer2_io_hashv p)))" for d
  proof -
    have "d_pbase d \<in> d_pbase ` set (io_hash h (hammer2_io_hashv p))" using that upd_same_pbase [OF f, of p] by blast
    then show ?thesis using ok by (auto simp: table_ok_def)
  qed
  then show ?thesis using ok dio_upd_pbase [OF f] by (auto simp: table_ok_def dio_set_def)
qed

lemma keeps_place_simps [simp]:
  "keeps_place (\<lambda>d. d\<lparr>d_refs := a d\<rparr>)" "keeps_place (\<lambda>d. d\<lparr>d_bp := b d\<rparr>)" "keeps_place (\<lambda>d. d\<lparr>d_error := e\<rparr>)"
  "keeps_place (\<lambda>d. d\<lparr>d_ticks := t, d_act := c d\<rparr>)" "keeps_place (\<lambda>d. d\<lparr>d_dedup_valid := v d, d_dedup_alloc := w d\<rparr>)"
  "keeps_place (\<lambda>d. d\<lparr>d_dedup_alloc := w d, d_dedup_valid := v d\<rparr>)"
  by (simp_all add: keeps_place_def)

text \<open>The table does not depend on the rest of the state, and \<open>dio_set\<close> leaves the rest alone.\<close>

lemma dio_at_cong [simp]:
  "dio_at (h\<lparr>io_free_count := c\<rparr>) p = dio_at h p" "dio_at (h\<lparr>io_held := s\<rparr>) p = dio_at h p"
  "dio_at (h\<lparr>io_log := l\<rparr>) p = dio_at h p" "dio_at (h\<lparr>io_blocks := bs\<rparr>) p = dio_at h p"
  "dio_at (h\<lparr>io_allocated := a\<rparr>) p = dio_at h p" "dio_at (h\<lparr>io_iterator := i\<rparr>) p = dio_at h p"
  by (simp_all add: dio_at_def)

lemma table_cong [simp]:
  "table_ok (h\<lparr>io_free_count := c\<rparr>) = table_ok h" "table_ok (h\<lparr>io_held := s\<rparr>) = table_ok h"
  "table_ok (h\<lparr>io_log := l\<rparr>) = table_ok h" "table_ok (h\<lparr>io_blocks := bs\<rparr>) = table_ok h"
  "table_ok (h\<lparr>io_allocated := a\<rparr>) = table_ok h" "table_ok (h\<lparr>io_iterator := i\<rparr>) = table_ok h"
  by (simp_all add: table_ok_def)

lemma dio_set_fields [simp]:
  "io_free_count (dio_set p f h) = io_free_count h" "io_held (dio_set p f h) = io_held h" "io_blocks (dio_set p f h) = io_blocks h"
  "io_rderr (dio_set p f h) = io_rderr h" "io_volumes (dio_set p f h) = io_volumes h" "io_nvolumes (dio_set p f h) = io_nvolumes h"
  "io_log (dio_set p f h) = io_log h" "io_limit (dio_set p f h) = io_limit h" "io_getblk (dio_set p f h) = io_getblk h"
  by (simp_all add: dio_set_def)

lemma enter_new:
  assumes "table_ok h" "dio_at h (d_pbase d) = None"
  defines "h' \<equiv> h\<lparr>io_hash := (io_hash h)(hammer2_io_hashv (d_pbase d) := io_hash h (hammer2_io_hashv (d_pbase d)) @ [d])\<rparr>"
  shows "table_ok h'" "dio_at h' q = (if q = d_pbase d then Some d else dio_at h q)"
proof -
  have new: "d_pbase d \<notin> d_pbase ` set (io_hash h (hammer2_io_hashv (d_pbase d)))"
    using assms(2) by (simp add: dio_at_def dio_find_None)
  show ok: "table_ok h'" using assms(1) new by (auto simp: table_ok_def h'_def)
  have find_append: "dio_find q (ds @ [d]) = (case dio_find q ds of None \<Rightarrow> if q = d_pbase d then Some d else None | Some x \<Rightarrow> Some x)" for ds q
    by (induction ds) auto
  show "dio_at h' q = (if q = d_pbase d then Some d else dio_at h q)"
    using assms(2) by (auto simp: dio_at_def h'_def find_append split: option.splits)
qed

lemma finite_dom_dio: "table_ok h \<Longrightarrow> finite (dom (dio_at h))"
proof -
  assume ok: "table_ok h"
  have "dom (dio_at h) \<subseteq> (\<Union>b < HAMMER2_IOHASH_SIZE. d_pbase ` set (io_hash h b))"
    using hashv_less by (force simp: dio_at_def dest: dio_find_Some)
  then show ?thesis by (rule finite_subset) simp
qed

section \<open>The word of references and flags\<close>

lemma dio_refs_eq: "unat (dio_refs d) = unat (d_refs d) mod 2 ^ 56"
proof -
  have "DIO_MASK = mask 56" by (simp add: mask_eq_exp_minus_1)
  then show ?thesis by (simp only: dio_refs_def unat_and_mask)
qed

text \<open>Words with the same upper part have the same flags.\<close>

lemma same_flags:
  assumes "unat v div 2 ^ 56 = unat w div 2 ^ 56" "f AND DIO_MASK = 0"
  shows "v AND f = w AND (f :: u64)"
proof -
  have "DIO_MASK = mask 56" by (simp add: mask_eq_exp_minus_1)
  then show ?thesis using assms(2) by (intro same_high [OF assms(1)]) (simp only:)
qed

lemma refs_up:
  assumes "unat w mod 2 ^ 56 + 1 < 2 ^ 56"
  shows "unat (w + 1 :: u64) mod 2 ^ 56 = unat w mod 2 ^ 56 + 1" "unat (w + 1) div 2 ^ 56 = unat w div 2 ^ 56"
  using low_up [OF assms] by simp_all

lemma refs_down:
  assumes "unat w mod 2 ^ 56 \<noteq> 0"
  shows "unat (w - 1 :: u64) mod 2 ^ 56 = unat w mod 2 ^ 56 - 1" "unat (w - 1) div 2 ^ 56 = unat w div 2 ^ 56"
  using low_down [OF assms] by simp_all

lemma and_swap: "(x AND n) AND m = (x AND m) AND n" for x n m :: u64
  by (simp add: ac_simps)

text \<open>The last drop clears the flags \<open>GOOD\<close> and \<open>DIRTY\<close>.\<close>

lemma refs_last:
  assumes "unat w mod 2 ^ 56 = 1"
  shows "((w - 1) AND NOT (DIO_GOOD OR DIO_DIRTY)) AND DIO_MASK = 0" "((w - 1) AND NOT (DIO_GOOD OR DIO_DIRTY)) AND DIO_GOOD = 0"
    "((w - 1) AND NOT (DIO_GOOD OR DIO_DIRTY)) AND DIO_DIRTY = 0" "((w - 1) AND NOT (DIO_GOOD OR DIO_DIRTY)) AND DIO_FLUSH = w AND DIO_FLUSH"
proof -
  have m: "DIO_MASK = mask 56" by (simp add: mask_eq_exp_minus_1)
  have "unat ((w - 1) AND DIO_MASK) = 0" unfolding m unat_and_mask using refs_down(1) [of w] assms by simp
  then have "(w - 1) AND DIO_MASK = 0" by (simp only: unat_eq_0)
  then show "((w - 1) AND NOT (DIO_GOOD OR DIO_DIRTY)) AND DIO_MASK = 0"
    using and_swap [of "w - 1" "NOT (DIO_GOOD OR DIO_DIRTY)" DIO_MASK] by (simp only: and_zero_eq zero_and_eq)
  have "(w - 1) AND DIO_FLUSH = w AND DIO_FLUSH" using refs_down(2) [of w] assms by (intro same_flags) simp_all
  moreover have "NOT (DIO_GOOD OR DIO_DIRTY) AND DIO_FLUSH = DIO_FLUSH" by simp
  then have "(x AND NOT (DIO_GOOD OR DIO_DIRTY)) AND DIO_FLUSH = x AND DIO_FLUSH" for x :: u64 by (simp only: and.assoc)
  ultimately show "((w - 1) AND NOT (DIO_GOOD OR DIO_DIRTY)) AND DIO_FLUSH = w AND DIO_FLUSH" by simp
  have "NOT (DIO_GOOD OR DIO_DIRTY) AND DIO_GOOD = 0" "NOT (DIO_GOOD OR DIO_DIRTY) AND DIO_DIRTY = 0" by simp_all
  then show "((w - 1) AND NOT (DIO_GOOD OR DIO_DIRTY)) AND DIO_GOOD = 0" "((w - 1) AND NOT (DIO_GOOD OR DIO_DIRTY)) AND DIO_DIRTY = 0"
    by (simp_all only: and.assoc and_zero_eq)
qed

lemma flag_or:
  "(w OR DIO_DIRTY) AND DIO_MASK = w AND DIO_MASK" "(w OR DIO_DIRTY) AND DIO_GOOD = w AND DIO_GOOD"
  "(w OR DIO_GOOD) AND DIO_MASK = w AND DIO_MASK" "(w OR DIO_GOOD) AND DIO_GOOD \<noteq> 0"
  "(w OR (DIO_DIRTY OR DIO_FLUSH)) AND DIO_MASK = w AND DIO_MASK" "(w OR (DIO_DIRTY OR DIO_FLUSH)) AND DIO_GOOD = w AND DIO_GOOD"
  "(w OR DIO_DIRTY) AND DIO_DIRTY \<noteq> 0" "(w OR DIO_GOOD) AND DIO_DIRTY = w AND DIO_DIRTY"
  for w :: u64
  by (simp_all add: bit.conj_disj_distrib2)

section \<open>The invariant\<close>

definition lblk :: "h2_off \<Rightarrow> h2_off \<Rightarrow> int" where
  "lblk p db = (uint p - uint db) div DEV_BSIZE"

definition place_ok :: "iodev \<Rightarrow> h2_off \<Rightarrow> nat \<Rightarrow> h2_off \<Rightarrow> bool" where
  "place_ok h p i db \<longleftrightarrow> hammer2_get_volume (io_volumes h) (io_nvolumes h) p = Some i \<and> db = v_offset (io_volumes h ! i) \<and>
     db \<le> p \<and> db AND HAMMER2_FREEMAP_LEVEL1_MASK = 0 \<and> p AND HAMMER2_PBUFMASK = 0"

definition dio_ok :: "iodev \<Rightarrow> h2_off \<Rightarrow> dio \<Rightarrow> bool" where
  "dio_ok h p d \<longleftrightarrow> d_psize d = HAMMER2_PBUFSIZE \<and> place_ok h p (d_vol d) (d_dbase d) \<and>
     (dio_flag DIO_GOOD d \<longleftrightarrow> d_bp d \<noteq> None) \<and> (dio_refs d = 0 \<longrightarrow> d_bp d = None) \<and>
     (d_bp d \<noteq> None \<longrightarrow> d_error d = 0) \<and>
     (\<forall>bp. d_bp d = Some bp \<longrightarrow> b_lblkno bp = lblk p (d_dbase d) \<and> length (b_data bp) = HAMMER2_PBUFSIZE \<and>
       (\<not> dio_flag DIO_DIRTY d \<longrightarrow> b_data bp = io_blocks h (d_vol d) (b_lblkno bp)))"

definition same_media :: "iodev \<Rightarrow> iodev \<Rightarrow> bool" where
  "same_media h h' \<longleftrightarrow> io_volumes h' = io_volumes h \<and> io_nvolumes h' = io_nvolumes h \<and> io_rderr h' = io_rderr h \<and> io_limit h' = io_limit h \<and>
     io_getblk h' = io_getblk h"

lemma place_ok_cong: "same_media h h' \<Longrightarrow> place_ok h' p i db = place_ok h p i db"
  by (simp add: place_ok_def same_media_def)

definition frees :: "iodev \<Rightarrow> h2_off set" where
  "frees h = {p. \<exists>d. dio_at h p = Some d \<and> dio_refs d = 0}"

definition held_by :: "iodev \<Rightarrow> (nat \<times> int) set" where
  "held_by h = {(d_vol d, lblk p (d_dbase d)) | p d. dio_at h p = Some d \<and> d_bp d \<noteq> None}"

definition io_ok :: "iodev \<Rightarrow> bool" where
  "io_ok h \<longleftrightarrow> table_ok h \<and> (\<forall>p d. dio_at h p = Some d \<longrightarrow> dio_ok h p d) \<and> io_free_count h = int (card (frees h)) \<and>
     io_held h = held_by h \<and> (\<forall>v l. length (io_blocks h v l) = HAMMER2_PBUFSIZE) \<and>
     (\<forall>n v l. length (io_getblk h n v l) = HAMMER2_PBUFSIZE)"

text \<open>Two DIOs on one volume have different blocks.\<close>

lemma and_mask_dvd: "(x :: u64) AND mask n = 0 \<Longrightarrow> 2 ^ n dvd unat x"
  by (metis dvd_eq_mod_eq_0 unat_0 unat_and_mask)

lemma place_inj:
  assumes "place_ok h p i db" "place_ok h q i db'" "lblk p db = lblk q db'"
  shows "p = q"
proof -
  have m: "HAMMER2_FREEMAP_LEVEL1_MASK = (mask 30 :: u64)" "HAMMER2_PBUFMASK = (mask 16 :: u64)" by (simp_all add: mask_eq_exp_minus_1)
  have db: "db' = db" using assms by (simp add: place_ok_def)
  have "db AND mask 30 = 0" "p AND mask 16 = 0" "q AND mask 16 = 0" using assms(1,2) unfolding place_ok_def m by blast+
  note d = this [THEN and_mask_dvd]
  have t: "512 dvd (2 :: nat) ^ 30" "512 dvd (2 :: nat) ^ 16" by simp_all
  have "512 dvd unat db" "512 dvd unat p" "512 dvd unat q"
    using dvd_trans [OF t(1) d(1)] dvd_trans [OF t(2) d(2)] dvd_trans [OF t(2) d(3)] .
  then have "512 dvd int (unat db)" "512 dvd int (unat p)" "512 dvd int (unat q)"
    by presburger+
  then have "512 dvd uint db" "512 dvd uint p" "512 dvd uint q" by (simp_all only: uint_nat)
  then have "512 dvd uint p - uint db" "512 dvd uint q - uint db" using dvd_diff by blast+
  moreover have "(uint p - uint db) div 512 = (uint q - uint db) div 512" using assms(3) db by (simp add: lblk_def)
  ultimately have "uint p - uint db = uint q - uint db" by (metis dvd_div_mult_self)
  then show ?thesis by (simp add: word_uint_eq_iff)
qed

definition is_free :: "dio option \<Rightarrow> bool" where
  "is_free x \<longleftrightarrow> (\<exists>d. x = Some d \<and> dio_refs d = 0)"

definition buf_of :: "h2_off \<Rightarrow> dio option \<Rightarrow> (nat \<times> int) set" where
  "buf_of p x = (case x of None \<Rightarrow> {} | Some d \<Rightarrow> if d_bp d = None then {} else {(d_vol d, lblk p (d_dbase d))})"

lemma frees_eq: "frees h = {p. is_free (dio_at h p)}"
  by (simp add: frees_def is_free_def)

lemma held_by_eq: "held_by h = (\<Union>p. buf_of p (dio_at h p))"
proof (rule set_eqI, rule iffI)
  fix x assume "x \<in> held_by h"
  then obtain p d where "x = (d_vol d, lblk p (d_dbase d))" "dio_at h p = Some d" "d_bp d \<noteq> None" unfolding held_by_def by blast
  then have "x \<in> buf_of p (dio_at h p)" by (simp add: buf_of_def)
  then show "x \<in> (\<Union>p. buf_of p (dio_at h p))" by blast
next
  fix x assume "x \<in> (\<Union>p. buf_of p (dio_at h p))"
  then obtain p where "x \<in> buf_of p (dio_at h p)" by blast
  then show "x \<in> held_by h" by (cases "dio_at h p") (auto simp: buf_of_def held_by_def split: if_splits)
qed

lemma io_okD:
  assumes "io_ok h"
  shows "table_ok h" "dio_at h p = Some d \<Longrightarrow> dio_ok h p d" "io_free_count h = int (card (frees h))" "io_held h = held_by h"
    "length (io_blocks h v l) = HAMMER2_PBUFSIZE" "length (io_getblk h n v l) = HAMMER2_PBUFSIZE"
  using assms by (simp_all add: io_ok_def)

lemma finite_frees: "table_ok h \<Longrightarrow> finite (frees h)"
  by (rule finite_subset [OF _ finite_dom_dio]) (auto simp: frees_def)

lemma buf_of_disjoint:
  assumes "io_ok h" "q \<noteq> p" "place_ok h p i db"
  shows "(i, lblk p db) \<notin> buf_of q (dio_at h q)"
proof
  assume "(i, lblk p db) \<in> buf_of q (dio_at h q)"
  then obtain d where d: "dio_at h q = Some d" "d_vol d = i" "lblk q (d_dbase d) = lblk p db"
    by (auto simp: buf_of_def split: option.splits if_splits)
  then have "place_ok h q i (d_dbase d)" using io_okD(2) [OF assms(1)] by (auto simp: dio_ok_def)
  then show False using place_inj [OF assms(3)] d(3) assms(2) by metis
qed

lemma other_buf:
  assumes "io_ok h" "dio_at h q = Some d" "d_bp d = Some bp" "q \<noteq> p"
  shows "(d_vol d, b_lblkno bp) \<notin> buf_of p (dio_at h p)"
proof -
  have "place_ok h q (d_vol d) (d_dbase d)" "b_lblkno bp = lblk q (d_dbase d)"
    using io_okD(2) [OF assms(1,2)] assms(3) by (auto simp: dio_ok_def)
  then show ?thesis using buf_of_disjoint [OF assms(1), of p q] assms(4) by auto
qed

text \<open>A step that changes the entry of one \<open>pbase\<close> and adjusts the free count and the held buffers keeps the invariant.\<close>

lemma io_ok_step:
  assumes "io_ok h" "table_ok h'" "\<And>q. dio_at h' q = (if q = p then Some d' else dio_at h q)" "dio_ok h' p d'"
    and "same_media h h'" "\<And>v l. length (io_blocks h' v l) = HAMMER2_PBUFSIZE"
    and "io_free_count h' = io_free_count h + (if dio_refs d' = 0 then 1 else 0) - (if is_free (dio_at h p) then 1 else 0)"
    and "io_held h' = (io_held h - buf_of p (dio_at h p)) \<union> buf_of p (Some d')"
    and "\<And>v l. (v, l) \<notin> buf_of p (dio_at h p) \<Longrightarrow> io_blocks h' v l = io_blocks h v l"
  shows "io_ok h'"
proof -
  have dio: "dio_ok h' q d" if at: "dio_at h' q = Some d" for q d
  proof (cases "q = p")
    case False
    then have q: "dio_at h q = Some d" using at assms(3) by simp
    from io_okD(2) [OF assms(1) q] have ok: "dio_ok h q d" .
    have "io_blocks h' (d_vol d) (b_lblkno bp) = io_blocks h (d_vol d) (b_lblkno bp)" if bp: "d_bp d = Some bp" for bp
      using assms(9) other_buf [OF assms(1) q bp False] by blast
    then show ?thesis using ok place_ok_cong [OF assms(5)] unfolding dio_ok_def by (cases "d_bp d") simp_all
  qed (use at assms(3,4) in simp)
  have fr: "frees h' = (if dio_refs d' = 0 then insert p (frees h) else frees h - {p})"
    using assms(3) by (auto simp: frees_eq is_free_def)
  have fin: "finite (frees h)" using finite_frees io_okD(1) [OF assms(1)] by blast
  have mem: "p \<in> frees h \<longleftrightarrow> is_free (dio_at h p)" by (simp add: frees_eq)
  have "io_free_count h' = int (card (frees h'))"
  proof (cases "p \<in> frees h")
    case True
    then have "0 < card (frees h)" using fin by (auto simp: card_gt_0_iff)
    then show ?thesis using True fin mem assms(7) io_okD(3) [OF assms(1)] by (auto simp: fr insert_absorb card_Diff_singleton)
  next
    case False
    then show ?thesis using fin mem assms(7) io_okD(3) [OF assms(1)] by (auto simp: fr)
  qed
  moreover have "io_held h' = held_by h'"
  proof -
    have "buf_of q (dio_at h q) \<inter> buf_of p (dio_at h p) = {}" if q: "q \<noteq> p" for q
    proof (cases "dio_at h p")
      case (Some d)
      then have "place_ok h p (d_vol d) (d_dbase d)" using io_okD(2) [OF assms(1) Some] by (simp add: dio_ok_def)
      then show ?thesis using buf_of_disjoint [OF assms(1) q] Some by (auto simp: buf_of_def [of p])
    qed (simp add: buf_of_def)
    then have old: "held_by h - buf_of p (dio_at h p) = (\<Union>q \<in> - {p}. buf_of q (dio_at h q))"
      by (auto simp: held_by_eq)
    have "held_by h' = (\<Union>q \<in> - {p}. buf_of q (dio_at h q)) \<union> buf_of p (Some d')"
      using assms(3) by (auto simp: held_by_eq split: if_splits)
    then show ?thesis using old assms(8) io_okD(4) [OF assms(1)] by simp
  qed
  moreover have "io_getblk h' = io_getblk h" using assms(5) by (simp add: same_media_def)
  ultimately show ?thesis using assms(2,6) dio io_okD(6) [OF assms(1)] by (simp add: io_ok_def)
qed

section \<open>Lookup and allocation\<close>

lemma dio_ok_cong: "same_media h h' \<Longrightarrow> io_blocks h' = io_blocks h \<Longrightarrow> dio_ok h' p d = dio_ok h p d"
  by (simp add: dio_ok_def place_ok_def same_media_def)

lemma same_media_simps [simp]:
  "same_media h h" "same_media h (dio_set p f h') = same_media h h'" "same_media h (h'\<lparr>io_free_count := c\<rparr>) = same_media h h'"
  "same_media h (h'\<lparr>io_held := s\<rparr>) = same_media h h'" "same_media h (h'\<lparr>io_log := l\<rparr>) = same_media h h'"
  "same_media h (h'\<lparr>io_blocks := bs\<rparr>) = same_media h h'" "same_media h (h'\<lparr>io_allocated := a\<rparr>) = same_media h h'"
  "same_media h (h'\<lparr>io_iterator := i\<rparr>) = same_media h h'" "same_media h (h'\<lparr>io_hash := ha\<rparr>) = same_media h h'"
  by (simp_all add: same_media_def)

lemma dio_ref_fields [simp]:
  "io_held (dio_ref p d h) = io_held h" "io_blocks (dio_ref p d h) = io_blocks h" "io_volumes (dio_ref p d h) = io_volumes h"
  "io_nvolumes (dio_ref p d h) = io_nvolumes h" "io_rderr (dio_ref p d h) = io_rderr h" "io_limit (dio_ref p d h) = io_limit h"
  "io_getblk (dio_ref p d h) = io_getblk h" "io_log (dio_ref p d h) = io_log h"
  "io_free_count (dio_ref p d h) = io_free_count h - (if dio_refs d = 0 then 1 else 0)"
  "dio_at (dio_ref p d h) q = (if q = p then map_option (\<lambda>d. d\<lparr>d_refs := d_refs d + 1\<rparr>) (dio_at h p) else dio_at h q)"
  "table_ok h \<Longrightarrow> table_ok (dio_ref p d h)"
  by (simp_all add: dio_ref_def Let_def)

text \<open>One more reference.\<close>

lemma dio_ok_ref:
  assumes "dio_ok h p d" "unat (dio_refs d) + 1 < 2 ^ 56"
  shows "dio_ok h p (d\<lparr>d_refs := d_refs d + 1\<rparr>)" "unat (dio_refs (d\<lparr>d_refs := d_refs d + 1\<rparr>)) = unat (dio_refs d) + 1"
    "(d_refs d + 1) AND DIO_GOOD = d_refs d AND DIO_GOOD" "(d_refs d + 1) AND DIO_DIRTY = d_refs d AND DIO_DIRTY"
proof -
  note up = refs_up [OF assms(2) [unfolded dio_refs_eq]]
  show r: "unat (dio_refs (d\<lparr>d_refs := d_refs d + 1\<rparr>)) = unat (dio_refs d) + 1" using up(1) by (simp add: dio_refs_eq)
  show g: "(d_refs d + 1) AND DIO_GOOD = d_refs d AND DIO_GOOD" using up(2) by (rule same_flags) simp
  show y: "(d_refs d + 1) AND DIO_DIRTY = d_refs d AND DIO_DIRTY" using up(2) by (rule same_flags) simp
  have "dio_refs (d\<lparr>d_refs := d_refs d + 1\<rparr>) \<noteq> 0" using r by auto
  then show "dio_ok h p (d\<lparr>d_refs := d_refs d + 1\<rparr>)" using assms(1) g y by (simp add: dio_ok_def dio_flag_def)
qed

lemma buf_of_held: "io_ok h \<Longrightarrow> dio_at h p = Some d \<Longrightarrow> buf_of p (Some d) \<subseteq> io_held h"
  using io_okD(4) [of h] UN_upper [of p UNIV "\<lambda>p. buf_of p (dio_at h p)"] by (simp add: held_by_eq)

lemma io_ok_ref:
  assumes "io_ok h" "dio_at h p = Some d" "unat (dio_refs d) + 1 < 2 ^ 56"
  shows "io_ok (dio_ref p d h)"
proof (rule io_ok_step [OF assms(1), where p = p and d' = "d\<lparr>d_refs := d_refs d + 1\<rparr>"])
  note r = dio_ok_ref [OF io_okD(2) [OF assms(1,2)] assms(3)]
  have n: "dio_refs (d\<lparr>d_refs := d_refs d + 1\<rparr>) \<noteq> 0" using r(2) by auto
  show media: "same_media h (dio_ref p d h)" by (simp add: same_media_def)
  show "dio_ok (dio_ref p d h) p (d\<lparr>d_refs := d_refs d + 1\<rparr>)" using r(1) dio_ok_cong [OF media] by simp
  show "io_free_count (dio_ref p d h) = io_free_count h + (if dio_refs (d\<lparr>d_refs := d_refs d + 1\<rparr>) = 0 then 1 else 0) -
      (if is_free (dio_at h p) then 1 else 0)"
    using n assms(2) by (simp add: is_free_def)
  show "io_held (dio_ref p d h) = io_held h - buf_of p (dio_at h p) \<union> buf_of p (Some (d\<lparr>d_refs := d_refs d + 1\<rparr>))"
    using assms(2) buf_of_held [OF assms(1,2)] by (auto simp: buf_of_def)
qed (use assms io_okD(1,5) [OF assms(1)] in simp_all)

text \<open>An extent inside one buffer of a known volume.\<close>

definition pbase_of :: "h2_off \<Rightarrow> h2_off" where
  "pbase_of off = (off AND NOT HAMMER2_OFF_MASK_RADIX) AND NOT HAMMER2_PBUFMASK"

lemma pbase_of_eq: "(off AND - 64) AND - 65536 = pbase_of off"
  by (simp add: pbase_of_def)

definition extent_ok :: "iodev \<Rightarrow> h2_off \<Rightarrow> bool" where
  "extent_ok h off \<longleftrightarrow> pbase_of off \<noteq> 0 \<and>
     ((off AND NOT HAMMER2_OFF_MASK_RADIX) + word_of_int (off_size off) - 1) AND NOT HAMMER2_PBUFMASK = pbase_of off \<and>
     (case hammer2_get_volume (io_volumes h) (io_nvolumes h) (pbase_of off) of
        None \<Rightarrow> False | Some i \<Rightarrow> place_ok h (pbase_of off) i (v_offset (io_volumes h ! i)))"

definition room :: "iodev \<Rightarrow> h2_off \<Rightarrow> bool" where
  "room h p \<longleftrightarrow> (\<forall>d. dio_at h p = Some d \<longrightarrow> unat (dio_refs d) + 1 < 2 ^ 56)"

text \<open>A write through the pointer that keeps the references and the place of the buffer.\<close>

lemma io_ok_set:
  assumes "io_ok h" "dio_at h p = Some d" "keeps_place f" "dio_ok h p (f d)"
    and "dio_refs (f d) = 0 \<longleftrightarrow> dio_refs d = 0" "buf_of p (Some (f d)) = buf_of p (Some d)"
  shows "io_ok (dio_set p f h)"
proof (rule io_ok_step [OF assms(1), where p = p and d' = "f d"])
  show "dio_ok (dio_set p f h) p (f d)" using assms(4) dio_ok_cong [of h "dio_set p f h"] by simp
  show "io_held (dio_set p f h) = io_held h - buf_of p (dio_at h p) \<union> buf_of p (Some (f d))"
    using assms(2,6) buf_of_held [OF assms(1,2)] by auto
qed (use assms io_okD(1,5) [OF assms(1)] in \<open>simp_all add: is_free_def\<close>)

definition touched :: "int \<Rightarrow> dio \<Rightarrow> dio" where
  "touched now d = d\<lparr>d_ticks := now, d_act := (if d_act d < 10 then d_act d + 1 else d_act d)\<rparr>"

lemma keeps_place_touched [simp]: "keeps_place (touched now)"
  by (simp add: keeps_place_def touched_def)

lemma touched_fields [simp]:
  "dio_ok h p (touched now d) = dio_ok h p d" "dio_refs (touched now d) = dio_refs d" "buf_of p (Some (touched now d)) = buf_of p (Some d)"
  "d_bp (touched now d) = d_bp d" "dio_flag f (touched now d) = dio_flag f d" "d_refs (touched now d) = d_refs d"
  "d_vol (touched now d) = d_vol d" "d_dbase (touched now d) = d_dbase d" "d_pbase (touched now d) = d_pbase d"
  "d_psize (touched now d) = d_psize d" "d_dedup_alloc (touched now d) = d_dedup_alloc d" "d_dedup_valid (touched now d) = d_dedup_valid d"
  by (simp_all add: dio_ok_def touched_def dio_refs_def dio_flag_def buf_of_def)

definition fresh_dio :: "iodev \<Rightarrow> u8 \<Rightarrow> h2_off \<Rightarrow> nat \<Rightarrow> dio" where
  "fresh_dio h btype p i = \<lparr>d_vol = i, d_bp = None, d_dbase = v_offset (io_volumes h ! i), d_pbase = p, d_refs = 1,
     d_psize = HAMMER2_PBUFSIZE, d_act = 5, d_btype = btype, d_ticks = 0, d_error = 0, d_dedup_valid = 0, d_dedup_alloc = 0\<rparr>"

lemma fresh_dio_fields [simp]:
  "dio_refs (fresh_dio h btype p i) = 1" "d_bp (fresh_dio h btype p i) = None" "d_pbase (fresh_dio h btype p i) = p"
  "d_refs (fresh_dio h btype p i) = 1" "d_dedup_alloc (fresh_dio h btype p i) = 0" "d_dedup_valid (fresh_dio h btype p i) = 0"
  "d_vol (fresh_dio h btype p i) = i" "d_dbase (fresh_dio h btype p i) = v_offset (io_volumes h ! i)" "d_psize (fresh_dio h btype p i) = HAMMER2_PBUFSIZE"
  by (simp_all add: fresh_dio_def dio_refs_def)

lemma fresh_dio_ok: "place_ok h p i (v_offset (io_volumes h ! i)) \<Longrightarrow> dio_ok h p (fresh_dio h btype p i)"
  by (simp add: dio_ok_def dio_flag_def)

lemma io_ok_enter:
  assumes "io_ok h" "dio_at h p = None" "place_ok h p i (v_offset (io_volumes h ! i))"
  shows "\<exists>h'. hammer2_io_hash_enter (fresh_dio h btype p i) h = (False, h') \<and> io_ok h' \<and> same_media h h' \<and> io_blocks h' = io_blocks h \<and>
    io_log h' = io_log h \<and> (\<forall>q. dio_at h' q = (if q = p then Some (fresh_dio h btype p i) else dio_at h q))"
proof -
  define d where "d = fresh_dio h btype p i"
  define h' where "h' = h\<lparr>io_hash := (io_hash h)(hammer2_io_hashv (d_pbase d) := io_hash h (hammer2_io_hashv (d_pbase d)) @ [d])\<rparr>"
  have p: "d_pbase d = p" by (simp add: d_def)
  note new = enter_new [of h d, OF io_okD(1) [OF assms(1)], unfolded p, OF assms(2)]
  have "io_ok h'"
  proof (rule io_ok_step [OF assms(1), where p = p and d' = d])
    show "table_ok h'" "\<And>q. dio_at h' q = (if q = p then Some d else dio_at h q)" unfolding h'_def p by (fact new)+
    show "dio_ok h' p d" unfolding d_def using fresh_dio_ok [OF assms(3)] dio_ok_cong [of h h'] by (simp add: h'_def)
  qed (use assms(2) io_okD(5) [OF assms(1)] in \<open>simp_all add: h'_def is_free_def d_def buf_of_def\<close>)
  moreover have "hammer2_io_hash_enter d h = (False, h')" by (simp add: hammer2_io_hash_enter_def p assms(2) h'_def)
  moreover have "same_media h h'" "io_blocks h' = io_blocks h" "io_log h' = io_log h" by (simp_all add: same_media_def h'_def)
  moreover have "\<forall>q. dio_at h' q = (if q = p then Some d else dio_at h q)" unfolding h'_def p using new(2) by blast
  ultimately show ?thesis unfolding d_def by blast
qed

text \<open>The DIO that \<open>hammer2_io_alloc\<close> returns.\<close>

definition alloc_dio :: "int \<Rightarrow> u8 \<Rightarrow> iodev \<Rightarrow> h2_off \<Rightarrow> dio" where
  "alloc_dio now btype h p = touched now (case dio_at h p of
     None \<Rightarrow> fresh_dio h btype p (the (hammer2_get_volume (io_volumes h) (io_nvolumes h) p))
   | Some d \<Rightarrow> d\<lparr>d_refs := d_refs d + 1\<rparr>)"

lemma touch_set: "dio_set p (\<lambda>d. d\<lparr>d_ticks := now, d_act := (if d_act d < 10 then d_act d + 1 else d_act d)\<rparr>) = dio_set p (touched now)"
  by (simp add: touched_def [abs_def])

lemma io_ok_touched: "io_ok h \<Longrightarrow> dio_at h p = Some d \<Longrightarrow> io_ok (dio_set p (touched now) h)"
  by (rule io_ok_set) (auto dest: io_okD(2))

definition allocated :: "int \<Rightarrow> u8 \<Rightarrow> h2_off \<Rightarrow> iodev \<Rightarrow> iodev \<Rightarrow> bool" where
  "allocated now btype p h h' \<longleftrightarrow> io_ok h' \<and> same_media h h' \<and> io_blocks h' = io_blocks h \<and> io_log h' = io_log h \<and>
     (\<forall>q. dio_at h' q = (if q = p then Some (alloc_dio now btype h p) else dio_at h q))"

lemma allocatedI:
  assumes "io_ok h'" "same_media h h'" "io_blocks h' = io_blocks h" "io_log h' = io_log h"
    and "\<And>q. dio_at h' q = (if q = p then Some d' else dio_at h q)" "touched now d' = alloc_dio now btype h p"
  shows "allocated now btype p h (dio_set p (touched now) h')"
  using assms io_ok_touched [OF assms(1), of p d'] by (simp add: allocated_def same_media_def)

lemma alloc_refs:
  assumes "io_ok h" "room h p"
  shows "unat (dio_refs (alloc_dio now btype h p)) = (case dio_at h p of None \<Rightarrow> 1 | Some d \<Rightarrow> unat (dio_refs d) + 1)"
proof (cases "dio_at h p")
  case (Some d)
  then show ?thesis using dio_ok_ref(2) [OF io_okD(2) [OF assms(1) Some]] assms(2) by (simp add: alloc_dio_def room_def)
qed (simp add: alloc_dio_def)

lemma alloc_refs_pos:
  assumes "io_ok h" "room h p"
  shows "dio_refs (alloc_dio now btype h p) \<noteq> 0"
  using alloc_refs [OF assms, of now btype] by (auto split: option.splits)

lemma alloc_old:
  assumes "io_ok h" "extent_ok h off" "room h (pbase_of off)" "dio_at h (pbase_of off) = Some d"
  shows "\<exists>h'. hammer2_io_alloc now off btype create h = Some (Some (pbase_of off), h') \<and> allocated now btype (pbase_of off) h h'"
proof -
  define h1 where "h1 = dio_ref (pbase_of off) d h"
  have r: "unat (dio_refs d) + 1 < 2 ^ 56" using assms(3,4) by (simp add: room_def)
  have lk: "hammer2_io_hash_lookup (pbase_of off) h = (True, h1)" using assms(4) by (simp add: hammer2_io_hash_lookup_def h1_def)
  have al: "allocated now btype (pbase_of off) h (dio_set (pbase_of off) (touched now) h1)"
  proof (rule allocatedI)
    show "io_ok h1" unfolding h1_def by (rule io_ok_ref [OF assms(1,4) r])
    show "\<And>q. dio_at h1 q = (if q = pbase_of off then Some (d\<lparr>d_refs := d_refs d + 1\<rparr>) else dio_at h q)" using assms(4) by (simp add: h1_def)
  qed (simp_all add: h1_def same_media_def alloc_dio_def assms(4))
  have "dio_at h1 (pbase_of off) = Some (d\<lparr>d_refs := d_refs d + 1\<rparr>)"
    "touched now (d\<lparr>d_refs := d_refs d + 1\<rparr>) = alloc_dio now btype h (pbase_of off)"
    using assms(4) by (simp_all add: h1_def alloc_dio_def)
  then have "hammer2_io_alloc now off btype create h = Some (Some (pbase_of off), dio_set (pbase_of off) (touched now) h1)"
    using assms(2) lk alloc_refs_pos [OF assms(1,3), of now btype]
    by (simp add: hammer2_io_alloc_def Let_def extent_ok_def touch_set pbase_of_eq)
  then show ?thesis using al by blast
qed

lemma alloc_new:
  assumes "io_ok h" "extent_ok h off" "dio_at h (pbase_of off) = None"
  shows "hammer2_io_alloc now off btype False h = Some (None, h)"
    "\<exists>h'. hammer2_io_alloc now off btype True h = Some (Some (pbase_of off), h') \<and> allocated now btype (pbase_of off) h h'"
proof -
  let ?p = "pbase_of off"
  have lk: "hammer2_io_hash_lookup ?p h = (False, h)" using assms(3) by (simp add: hammer2_io_hash_lookup_def)
  then show "hammer2_io_alloc now off btype False h = Some (None, h)"
    using assms(2) by (simp add: hammer2_io_alloc_def Let_def extent_ok_def pbase_of_eq)
  obtain i where i: "hammer2_get_volume (io_volumes h) (io_nvolumes h) ?p = Some i" "place_ok h ?p i (v_offset (io_volumes h ! i))"
    using assms(2) by (auto simp: extent_ok_def split: option.splits)
  from io_ok_enter [OF assms(1,3) i(2), of btype]
  obtain h1 where h1: "hammer2_io_hash_enter (fresh_dio h btype ?p i) h = (False, h1)" "io_ok h1" "same_media h h1" "io_blocks h1 = io_blocks h" "io_log h1 = io_log h"
      "\<And>q. dio_at h1 q = (if q = ?p then Some (fresh_dio h btype ?p i) else dio_at h q)" by blast
  let ?h2 = "h1\<lparr>io_allocated := io_allocated h1 + 1\<rparr>"
  have ok2: "io_ok ?h2" using h1(2) by (simp add: io_ok_def frees_def held_by_def dio_ok_cong [of h1 ?h2])
  have al: "allocated now btype ?p h (dio_set ?p (touched now) ?h2)"
    by (rule allocatedI [OF ok2, where d' = "fresh_dio h btype ?p i"])
      (use h1(3-6) in \<open>simp_all add: same_media_def alloc_dio_def assms(3) i(1)\<close>)
  have "dio_at h1 ?p = Some (fresh_dio h btype ?p i)" "touched now (fresh_dio h btype ?p i) = alloc_dio now btype h ?p"
    using h1(6) [of ?p] i(1) assms(3) by (simp_all add: alloc_dio_def)
  moreover have "room h ?p" using assms(3) by (simp add: room_def)
  ultimately have "hammer2_io_alloc now off btype True h = Some (Some ?p, dio_set ?p (touched now) ?h2)"
    using assms(2) lk i h1(1) alloc_refs_pos [OF assms(1), of ?p now btype]
    by (simp add: hammer2_io_alloc_def Let_def extent_ok_def touch_set place_ok_def fresh_dio_def pbase_of_eq)
  then show "\<exists>h'. hammer2_io_alloc now off btype True h = Some (Some ?p, h') \<and> allocated now btype ?p h h'" using al by blast
qed

section \<open>What a client sees\<close>

text \<open>The content of a buffer: the cached one when there is one, else the block.\<close>

definition disk_block :: "iodev \<Rightarrow> h2_off \<Rightarrow> u8 list" where
  "disk_block h p = (case hammer2_get_volume (io_volumes h) (io_nvolumes h) p of
     None \<Rightarrow> [] | Some i \<Rightarrow> io_blocks h i (lblk p (v_offset (io_volumes h ! i))))"

definition io_content :: "iodev \<Rightarrow> h2_off \<Rightarrow> u8 list" where
  "io_content h p = (case dio_at h p of
     None \<Rightarrow> disk_block h p
   | Some d \<Rightarrow> (case d_bp d of None \<Rightarrow> disk_block h p | Some bp \<Rightarrow> b_data bp))"

lemma disk_block_cong: "same_media h h' \<Longrightarrow> io_blocks h' = io_blocks h \<Longrightarrow> disk_block h' p = disk_block h p"
  by (simp add: disk_block_def same_media_def cong: option.case_cong)

lemma disk_block_at:
  assumes "io_ok h" "dio_at h p = Some d"
  shows "disk_block h p = io_blocks h (d_vol d) (lblk p (d_dbase d))"
  using io_okD(2) [OF assms] by (simp add: dio_ok_def place_ok_def disk_block_def)

lemma allocated_content:
  assumes "allocated now btype p h h'"
  shows "io_content h' q = io_content h q"
proof -
  have a: "dio_at h' q = (if q = p then Some (alloc_dio now btype h p) else dio_at h q)" and d: "disk_block h' q = disk_block h q"
    using assms by (auto simp: allocated_def intro: disk_block_cong)
  show ?thesis
  proof (cases "q = p")
    case True
    then show ?thesis using a d by (cases "dio_at h p") (simp_all add: io_content_def alloc_dio_def cong: option.case_cong)
  qed (use a d in \<open>simp add: io_content_def cong: option.case_cong\<close>)
qed

text \<open>What an operation on one buffer promises: the other DIOs stay, and so does what a client sees of them.\<close>

definition only_at :: "h2_off \<Rightarrow> iodev \<Rightarrow> iodev \<Rightarrow> bool" where
  "only_at p h h' \<longleftrightarrow> io_ok h' \<and> same_media h h' \<and> (\<forall>q. q \<noteq> p \<longrightarrow> dio_at h' q = dio_at h q \<and> disk_block h' q = disk_block h q)"

lemma only_at_refl: "io_ok h \<Longrightarrow> only_at p h h"
  by (simp add: only_at_def)

lemma only_at_trans: "only_at p h h' \<Longrightarrow> only_at p h' h'' \<Longrightarrow> only_at p h h''"
  by (auto simp: only_at_def same_media_def)

lemma only_at_content: "only_at p h h' \<Longrightarrow> q \<noteq> p \<Longrightarrow> io_content h' q = io_content h q"
  by (simp add: only_at_def io_content_def cong: option.case_cong)

lemma allocated_only_at: "allocated now btype p h h' \<Longrightarrow> only_at p h h'"
  by (auto simp: allocated_def only_at_def intro: disk_block_cong)

lemma only_at_set:
  assumes "io_ok h" "dio_at h p = Some d" "keeps_place f" "dio_ok h p (f d)"
    and "dio_refs (f d) = 0 \<longleftrightarrow> dio_refs d = 0" "buf_of p (Some (f d)) = buf_of p (Some d)"
  shows "only_at p h (dio_set p f h)" "dio_at (dio_set p f h) p = Some (f d)"
  using io_ok_set [OF assms] assms(2,3) by (simp_all add: only_at_def disk_block_def cong: option.case_cong)

section \<open>hammer2_io_getblk\<close>

lemma take_held:
  assumes "io_ok h" "dio_at h p = Some d" "d_bp d = None"
  shows "(d_vol d, lblk p (d_dbase d)) \<notin> io_held h"
proof
  assume "(d_vol d, lblk p (d_dbase d)) \<in> io_held h"
  then obtain q where q: "(d_vol d, lblk p (d_dbase d)) \<in> buf_of q (dio_at h q)" using io_okD(4) [OF assms(1)] by (auto simp: held_by_eq)
  have "place_ok h p (d_vol d) (d_dbase d)" using io_okD(2) [OF assms(1,2)] by (simp add: dio_ok_def)
  then have "q = p" using buf_of_disjoint [OF assms(1)] q by blast
  then show False using q assms(2,3) by (simp add: buf_of_def)
qed

text \<open>The buffer of a DIO is filled.\<close>

lemma only_at_fill:
  assumes "io_ok h" "dio_at h p = Some d" "d_bp d = None" "dio_refs d \<noteq> 0"
    and "table_ok h'" "\<And>q. dio_at h' q = (if q = p then Some d' else dio_at h q)" "dio_ok h p d'" "d_bp d' \<noteq> None"
    and "same_media h h'" "io_blocks h' = io_blocks h" "io_free_count h' = io_free_count h" "io_held h' = insert (d_vol d, lblk p (d_dbase d)) (io_held h)"
  shows "only_at p h h'"
proof -
  have pl: "place_ok h p (d_vol d) (d_dbase d)" "place_ok h p (d_vol d') (d_dbase d')"
    using io_okD(2) [OF assms(1,2)] assms(7) by (simp_all add: dio_ok_def)
  then have same: "d_vol d' = d_vol d" "d_dbase d' = d_dbase d" by (auto simp: place_ok_def)
  have r: "dio_refs d' \<noteq> 0" using assms(7,8) by (auto simp: dio_ok_def)
  have "io_ok h'"
  proof (rule io_ok_step [OF assms(1), where p = p and d' = d'])
    show "dio_ok h' p d'" using assms(7) dio_ok_cong [OF assms(9,10)] by simp
    show "io_free_count h' = io_free_count h + (if dio_refs d' = 0 then 1 else 0) - (if is_free (dio_at h p) then 1 else 0)"
      using r assms(2,4,11) by (simp add: is_free_def)
    show "io_held h' = io_held h - buf_of p (dio_at h p) \<union> buf_of p (Some d')"
      using assms(2,3,8,12) same by (auto simp: buf_of_def)
  qed (use assms io_okD(5) [OF assms(1)] in simp_all)
  then show ?thesis using assms(6,9) disk_block_cong [OF assms(9,10)] by (simp add: only_at_def)
qed

text \<open>Where an extent is in its buffer.\<close>

definition ext_off :: "h2_off \<Rightarrow> nat" where
  "ext_off off = unat ((off AND NOT HAMMER2_OFF_MASK_RADIX) AND HAMMER2_PBUFMASK)"

lemma ext_off_less: "ext_off off < HAMMER2_PBUFSIZE"
proof -
  have "HAMMER2_PBUFMASK = (mask 16 :: u64)" by (simp add: mask_eq_exp_minus_1)
  then have "ext_off off = unat (off AND NOT HAMMER2_OFF_MASK_RADIX) mod 2 ^ 16" by (simp only: ext_off_def unat_and_mask)
  then show ?thesis by simp
qed

lemma sub_and_mask:
  assumes "db AND mask n = (0 :: u64)" "n \<le> 64"
  shows "(x - db) AND mask n = x AND mask n"
proof -
  have "take_bit n (uint db) = 0" using assms(1) by (simp add: word_uint_eq_iff unsigned_take_bit_eq flip: take_bit_eq_mask)
  then have "take_bit n (uint x - uint db) = take_bit n (uint x)" using take_bit_diff [of n "uint x" "uint db"] by simp
  moreover have "uint (x - db) = take_bit 64 (uint x - uint db)" by (simp add: uint_word_ariths take_bit_eq_mod)
  ultimately have "take_bit n (uint (x - db)) = take_bit n (uint x)" using assms(2) by (simp add: take_bit_take_bit min_absorb1)
  then show ?thesis by (simp add: word_uint_eq_iff unsigned_take_bit_eq flip: take_bit_eq_mask)
qed

lemma io_data_off:
  assumes "place_ok h (pbase_of off) i (d_dbase d)" "d_bp d = Some bp" "b_lblkno bp = lblk (pbase_of off) (d_dbase d)" "length (b_data bp) = HAMMER2_PBUFSIZE"
  shows "hammer2_io_data d off = Some (ext_off off)"
proof -
  let ?p = "pbase_of off" and ?db = "d_dbase d"
  have m: "HAMMER2_FREEMAP_LEVEL1_MASK = (mask 30 :: u64)" "HAMMER2_PBUFMASK = (mask 16 :: u64)" "HAMMER2_OFF_MASK_RADIX = (mask 6 :: u64)"
    by (simp_all add: mask_eq_exp_minus_1)
  have le: "?db \<le> ?p" and db: "?db AND mask 30 = 0" and p16: "?p AND mask 16 = 0" using assms(1) unfolding place_ok_def m by blast+
  have "512 dvd unat ?db" "512 dvd unat ?p"
    using dvd_trans [OF _ and_mask_dvd [OF db], of 512] dvd_trans [OF _ and_mask_dvd [OF p16], of 512] by simp_all
  then have "512 dvd int (unat ?db)" "512 dvd int (unat ?p)" by presburger+
  then have "512 dvd uint ?p - uint ?db" by (simp_all only: uint_nat dvd_diff)
  then have lb: "lblk ?p ?db * 512 = uint ?p - uint ?db" by (simp add: lblk_def)
  have low: "?db AND mask 6 = 0"
  proof -
    have "mask 6 = (mask 30 :: u64) AND mask 6" by (simp add: mask_eq_exp_minus_1)
    then have "?db AND mask 6 = (?db AND mask 30) AND mask 6" by (simp only: and.assoc)
    then show ?thesis using db by simp
  qed
  have "(off - ?db) AND NOT (mask 6) = (off AND NOT (mask 6)) - ?db"
    unfolding and_not_mask_eq [of "off - ?db"] and_not_mask_eq [of off] sub_and_mask [OF low, of off, simplified] by simp
  then have "((off - ?db) AND NOT (mask 6)) - word_of_int (lblk ?p ?db * 512) = (off AND NOT (mask 6)) - ?p"
    unfolding lb by (simp add: wi_hom_sub [symmetric])
  moreover have "(off AND NOT (mask 6)) - ?p = (off AND NOT (mask 6)) AND mask 16"
    unfolding pbase_of_def m and_not_mask_eq [of "off AND NOT (mask 6)"] by simp
  ultimately have w: "((off - ?db) AND NOT HAMMER2_OFF_MASK_RADIX) - word_of_int (b_lblkno bp * DEV_BSIZE) = (off AND NOT HAMMER2_OFF_MASK_RADIX) AND HAMMER2_PBUFMASK"
    unfolding m assms(3) by simp
  have "sint (ucast w :: u32) = int (unat w)" if "unat w < 2 ^ 16" for w :: u64
  proof -
    have "unat (ucast w :: u32) = unat w" using that by (simp add: unsigned_ucast_eq take_bit_nat_eq_self)
    then show ?thesis using that sint_eq_unat [of "ucast w"] by simp
  qed
  moreover have "unat ((off AND NOT HAMMER2_OFF_MASK_RADIX) AND HAMMER2_PBUFMASK) < 2 ^ 16" using ext_off_less [of off] by (simp add: ext_off_def)
  ultimately have "sint (ucast ((off AND NOT HAMMER2_OFF_MASK_RADIX) AND HAMMER2_PBUFMASK) :: u32) = int (ext_off off)" unfolding ext_off_def by blast
  then show ?thesis unfolding hammer2_io_data_def using ext_off_less [of off] w assms(2,4) by (simp add: Let_def)
qed

lemma ext_fits:
  assumes "extent_ok h off"
  shows "ext_off off + 2 ^ unat (off AND HAMMER2_OFF_MASK_RADIX) \<le> HAMMER2_PBUFSIZE"
proof (cases "off AND HAMMER2_OFF_MASK_RADIX = 0")
  case True
  then show ?thesis using ext_off_less [of off] by simp
next
  case False
  define r where "r = unat (off AND HAMMER2_OFF_MASK_RADIX)"
  have m: "HAMMER2_PBUFMASK = (mask 16 :: u64)" "HAMMER2_OFF_MASK_RADIX = (mask 6 :: u64)" by (simp_all add: mask_eq_exp_minus_1)
  define l where "l = off AND NOT HAMMER2_OFF_MASK_RADIX"
  define y where "y = l + 2 ^ r - 1"
  have r: "r < 64" unfolding r_def m unat_and_mask by simp
  have "word_of_int (off_size off) = (2 :: u64) ^ r" using False by (simp add: off_size_def r_def)
  then have "y AND NOT (mask 16) = l AND NOT (mask 16)"
    using assms unfolding extent_ok_def pbase_of_def y_def l_def m by simp
  then have "(l AND mask 16) + 2 ^ r = (y AND mask 16) + 1"
    unfolding and_not_mask_eq y_def by (simp add: algebra_simps)
  then have "unat ((l AND mask 16) + 2 ^ r) = unat ((y AND mask 16) + 1)" by simp
  moreover have le: "(2 :: nat) ^ r \<le> 2 ^ 63" using r by (intro power_increasing) simp_all
  moreover have "unat ((2 :: u64) ^ r) = 2 ^ r"
  proof -
    have "unat (word_of_nat (2 ^ r) :: u64) = take_bit 64 (2 ^ r)" by (simp only: unsigned_of_nat) simp
    also have "\<dots> = 2 ^ r" using le by (intro take_bit_nat_eq_self) simp
    finally show ?thesis by simp
  qed
  moreover have "unat (l AND mask 16) < 2 ^ 16" "unat (y AND mask 16) < 2 ^ 16" by (simp_all only: unat_and_mask) simp_all
  ultimately have "unat (l AND mask 16) + 2 ^ r = unat (y AND mask 16) + 1" by (simp add: unat_word_ariths)
  moreover have e: "ext_off off = unat (l AND mask 16)" unfolding ext_off_def l_def m by (rule refl)
  ultimately show ?thesis using \<open>unat (y AND mask 16) < 2 ^ 16\<close> unfolding r_def [symmetric] e by simp
qed

text \<open>What \<open>DOP_NEW\<close> does to the content.\<close>

definition new_data :: "dop \<Rightarrow> h2_off \<Rightarrow> u8 list \<Rightarrow> u8 list" where
  "new_data opr off xs = (if opr = DOP_NEW
     then take (ext_off off) xs @ replicate (2 ^ unat (off AND HAMMER2_OFF_MASK_RADIX)) 0 @
          drop (ext_off off + 2 ^ unat (off AND HAMMER2_OFF_MASK_RADIX)) xs
     else xs)"

lemma length_new_data: "extent_ok h off \<Longrightarrow> length xs = HAMMER2_PBUFSIZE \<Longrightarrow> length (new_data opr off xs) = HAMMER2_PBUFSIZE"
  using ext_fits [of h off] by (simp add: new_data_def)

definition put_data :: "dop \<Rightarrow> h2_off \<Rightarrow> dio \<Rightarrow> dio" where
  "put_data opr off d = (if opr = DOP_NEW \<or> opr = DOP_NEWNZ
     then d\<lparr>d_bp := map_option (\<lambda>bp. bp\<lparr>b_data := new_data opr off (b_data bp)\<rparr>) (d_bp d), d_refs := d_refs d OR DIO_DIRTY\<rparr> else d)"

lemma put_data_fields [simp]:
  "d_vol (put_data opr off d) = d_vol d" "d_dbase (put_data opr off d) = d_dbase d" "d_pbase (put_data opr off d) = d_pbase d"
  "d_psize (put_data opr off d) = d_psize d" "d_error (put_data opr off d) = d_error d" "dio_refs (put_data opr off d) = dio_refs d"
  "dio_flag DIO_GOOD (put_data opr off d) = dio_flag DIO_GOOD d"
  "d_bp (put_data opr off d) = map_option (\<lambda>bp. bp\<lparr>b_data := new_data opr off (b_data bp)\<rparr>) (d_bp d)"
  "keeps_place (put_data opr off)"
  "buf_of p (Some (put_data opr off d)) = buf_of p (Some d)"
  by (auto simp: put_data_def dio_refs_def dio_flag_def flag_or new_data_def keeps_place_def buf_of_def option.map_ident cong: option.case_cong)

lemma put_data_dirty: "opr = DOP_NEW \<or> opr = DOP_NEWNZ \<Longrightarrow> dio_flag DIO_DIRTY (put_data opr off d)"
  by (simp add: put_data_def dio_flag_def flag_or)

lemma put_data_other: "\<not> (opr = DOP_NEW \<or> opr = DOP_NEWNZ) \<Longrightarrow> put_data opr off d = d"
  by (simp add: put_data_def)

lemma put_data_ok:
  assumes "dio_ok h (pbase_of off) d" "extent_ok h off"
  shows "dio_ok h (pbase_of off) (put_data opr off d)"
proof (cases "opr = DOP_NEW \<or> opr = DOP_NEWNZ")
  case True
  then show ?thesis using assms(1) put_data_dirty [OF True] length_new_data [OF assms(2)] by (auto simp: dio_ok_def)
qed (use assms in \<open>simp add: put_data_other\<close>)

lemma dio_set_dio_set: "keeps_place g \<Longrightarrow> dio_set p f (dio_set p g h) = dio_set p (f \<circ> g) h"
proof -
  assume g: "keeps_place g"
  have "dio_upd p f (dio_upd p g ds) = dio_upd p (f \<circ> g) ds" for ds using g by (induction ds) (simp_all add: keeps_place_def)
  then show ?thesis by (simp add: dio_set_def)
qed

lemma dio_upd_cong: "dio_find p ds = Some d \<Longrightarrow> f d = g d \<Longrightarrow> dio_upd p f ds = dio_upd p g ds"
  by (induction ds) (auto split: if_splits)

lemma dio_set_cong: "dio_at h p = Some d \<Longrightarrow> f d = g d \<Longrightarrow> dio_set p f h = dio_set p g h"
  unfolding dio_set_def dio_at_def using dio_upd_cong by metis

lemma getblk_new_eq:
  assumes "dio_at h (pbase_of off) = Some d" "d_bp d = Some bp" "hammer2_io_data d off = Some (ext_off off)"
  shows "getblk_new opr (pbase_of off) off (2 ^ unat (off AND HAMMER2_OFF_MASK_RADIX)) h = Some (dio_set (pbase_of off) (put_data opr off) h)"
proof (cases opr)
  case DOP_NEW
  show ?thesis using assms
    by (simp add: getblk_new_def DOP_NEW dio_set_dio_set, intro dio_set_cong)
       (simp_all add: put_data_def bzero_at_def [abs_def] new_data_def nat_power_eq)
next
  case DOP_NEWNZ
  show ?thesis using assms
    by (simp add: getblk_new_def DOP_NEWNZ, intro dio_set_cong) (simp_all add: put_data_def new_data_def option.map_ident)
next
  case DOP_READ
  then have "put_data opr off = (\<lambda>d. d)" by (simp add: put_data_def [abs_def])
  moreover have "dio_upd p (\<lambda>d. d) ds = ds" for p ds by (induction ds) auto
  ultimately show ?thesis using DOP_READ by (simp add: getblk_new_def dio_set_def)
next
  case DOP_READQ
  then have "put_data opr off = (\<lambda>d. d)" by (simp add: put_data_def [abs_def])
  moreover have "dio_upd p (\<lambda>d. d) ds = ds" for p ds by (induction ds) auto
  ultimately show ?thesis using DOP_READQ by (simp add: getblk_new_def dio_set_def)
qed

text \<open>The extent is a whole buffer.\<close>

definition whole_ext :: "h2_off \<Rightarrow> bool" where
  "whole_ext off \<longleftrightarrow> pbase_of off = off AND NOT HAMMER2_OFF_MASK_RADIX \<and> off_size off = int HAMMER2_PBUFSIZE"

text \<open>The bytes that a DIO without a buffer gets before the operation: of the device, except for \<open>DOP_NEWNZ\<close> of a whole
buffer, which gets those of \<open>getblk\<close>.\<close>

definition fill_data :: "iodev \<Rightarrow> dop \<Rightarrow> h2_off \<Rightarrow> dio \<Rightarrow> u8 list" where
  "fill_data h opr off d = (if opr = DOP_NEWNZ \<and> whole_ext off
     then io_getblk h (length (io_log h)) (d_vol d) (lblk (pbase_of off) (d_dbase d)) else disk_block h (pbase_of off))"

text \<open>The DIO that a read or a whole new block leaves.\<close>

definition filled :: "iodev \<Rightarrow> dop \<Rightarrow> h2_off \<Rightarrow> dio \<Rightarrow> dio" where
  "filled h opr off d = put_data opr off (d\<lparr>d_bp := Some \<lparr>b_lblkno = lblk (pbase_of off) (d_dbase d), b_data = fill_data h opr off d\<rparr>,
     d_refs := d_refs d OR DIO_GOOD, d_error := 0\<rparr>)"

lemma filled_ok:
  assumes "io_ok h" "dio_at h (pbase_of off) = Some d" "extent_ok h off" "dio_refs d \<noteq> 0"
  shows "dio_ok h (pbase_of off) (filled h opr off d)" "d_bp (filled h opr off d) \<noteq> None" "dio_refs (filled h opr off d) = dio_refs d"
    "d_error (filled h opr off d) = 0"
proof -
  let ?d = "\<lambda>xs. d\<lparr>d_bp := Some \<lparr>b_lblkno = lblk (pbase_of off) (d_dbase d), b_data = xs\<rparr>, d_refs := d_refs d OR DIO_GOOD, d_error := 0\<rparr>"
  have old: "dio_ok h (pbase_of off) (?d (disk_block h (pbase_of off)))"
    using io_okD(2) [OF assms(1,2)] io_okD(5) [OF assms(1)] disk_block_at [OF assms(1,2)] assms(4)
    by (simp add: dio_ok_def dio_flag_def dio_refs_def flag_or)
  have new: "dio_ok h (pbase_of off) (put_data DOP_NEWNZ off (?d xs))" if "length xs = HAMMER2_PBUFSIZE" for xs
    using io_okD(2) [OF assms(1,2)] put_data_dirty [of DOP_NEWNZ off "?d xs"] assms(4) that
    by (simp add: dio_ok_def) (simp add: dio_flag_def dio_refs_def flag_or new_data_def)
  show "dio_ok h (pbase_of off) (filled h opr off d)"
  proof (cases "opr = DOP_NEWNZ \<and> whole_ext off")
    case True
    then show ?thesis using new io_okD(6) [OF assms(1)] by (simp add: filled_def fill_data_def)
  next
    case False
    then have "fill_data h opr off d = disk_block h (pbase_of off)" by (auto simp: fill_data_def)
    then show ?thesis unfolding filled_def using put_data_ok [OF old assms(3)] by simp
  qed
  show "dio_refs (filled h opr off d) = dio_refs d" by (simp only: filled_def put_data_fields) (simp add: dio_refs_def flag_or)
qed (simp_all add: filled_def dio_refs_def flag_or)

lemma only_at_filled:
  assumes "io_ok h" "dio_at h (pbase_of off) = Some d" "d_bp d = None" "dio_refs d \<noteq> 0" "extent_ok h off"
    and "f d = filled h opr off d" "keeps_place f"
  defines "h' \<equiv> dio_set (pbase_of off) f (h\<lparr>io_held := insert (d_vol d, lblk (pbase_of off) (d_dbase d)) (io_held h)\<rparr>)"
  shows "only_at (pbase_of off) h h'" "dio_at h' (pbase_of off) = Some (filled h opr off d)" "io_content h' (pbase_of off) = new_data opr off (fill_data h opr off d)"
proof -
  note fi = filled_ok [OF assms(1,2,5,4), of opr]
  have at: "dio_at h' q = (if q = pbase_of off then Some (filled h opr off d) else dio_at h q)" for q
    using assms(2,6,7) by (simp add: h'_def)
  show "only_at (pbase_of off) h h'"
  proof (rule only_at_fill [OF assms(1-4), where d' = "filled h opr off d"])
    show "table_ok h'" using io_okD(1) [OF assms(1)] assms(7) by (simp add: h'_def)
    show "dio_at h' q = (if q = pbase_of off then Some (filled h opr off d) else dio_at h q)" for q by (rule at)
  qed (use fi in \<open>simp_all add: h'_def\<close>)
  show "dio_at h' (pbase_of off) = Some (filled h opr off d)" using at by simp
  then show "io_content h' (pbase_of off) = new_data opr off (fill_data h opr off d)"
    by (simp add: io_content_def filled_def)
qed

text \<open>\<open>hammer2_bread\<close> as one write to the DIO.\<close>

lemma bread_eq:
  assumes "io_ok h" "dio_at h p = Some d" "d_bp d = None"
  shows "hammer2_bread p (lblk p (d_dbase d)) h =
    (let l = lblk p (d_dbase d); e = io_rderr h (d_vol d) l
     in if e = 0 then Some (0, dio_set p (\<lambda>x. x\<lparr>d_bp := Some \<lparr>b_lblkno = l, b_data = disk_block h p\<rparr>\<rparr>)
          (h\<lparr>io_held := insert (d_vol d, l) (io_held h)\<rparr>))
        else Some (e, dio_set p (\<lambda>x. x\<lparr>d_bp := None\<rparr>) (h\<lparr>io_log := io_log h @ [(Brelse, d_vol d, l)]\<rparr>)))"
  using assms take_held [OF assms] disk_block_at [OF assms(1,2)]
  by (simp add: hammer2_bread_def buf_take_def buf_release_def Let_def insert_Diff_if)

lemma io_ok_error:
  fixes e :: int and l :: "(disposal \<times> nat \<times> int) list"
  assumes "io_ok h" "dio_at h p = Some d" "d_bp d = None"
  defines "h' \<equiv> dio_set p (\<lambda>x. x\<lparr>d_error := e\<rparr>) (dio_set p (\<lambda>x. x\<lparr>d_bp := None\<rparr>) (h\<lparr>io_log := l\<rparr>))"
  shows "only_at p h h'" "dio_at h' p = Some (d\<lparr>d_error := e\<rparr>)" "io_content h' p = io_content h p"
proof -
  have log: "io_ok (h\<lparr>io_log := l\<rparr>)" using assms(1) by (simp add: io_ok_def frees_def held_by_def dio_ok_cong [of h "h\<lparr>io_log := l\<rparr>"])
  have "h' = dio_set p (\<lambda>x. x\<lparr>d_bp := None, d_error := e\<rparr>) (h\<lparr>io_log := l\<rparr>)" unfolding h'_def by (simp add: dio_set_dio_set comp_def)
  moreover have "dio_set p (\<lambda>x. x\<lparr>d_bp := None, d_error := e\<rparr>) (h\<lparr>io_log := l\<rparr>) = dio_set p (\<lambda>x. x\<lparr>d_error := e\<rparr>) (h\<lparr>io_log := l\<rparr>)"
    by (rule dio_set_cong [of _ _ d]) (use assms(2,3) in simp_all)
  ultimately have h': "h' = dio_set p (\<lambda>x. x\<lparr>d_error := e\<rparr>) (h\<lparr>io_log := l\<rparr>)" by simp
  have "only_at p (h\<lparr>io_log := l\<rparr>) h'" unfolding h'
    by (rule only_at_set [OF log, of p d])
      (use assms(2,3) io_okD(2) [OF assms(1,2)] dio_ok_cong [of h "h\<lparr>io_log := l\<rparr>"] in
        \<open>simp_all add: dio_ok_def dio_refs_def dio_flag_def buf_of_def place_ok_cong [of h "h\<lparr>io_log := l\<rparr>"]\<close>)
  then show "only_at p h h'" using disk_block_cong [of h "h\<lparr>io_log := l\<rparr>"] by (simp add: only_at_def same_media_def)
  show "dio_at h' p = Some (d\<lparr>d_error := e\<rparr>)" using assms(2) by (simp add: h')
  then show "io_content h' p = io_content h p" using assms(2,3) disk_block_cong [of h h'] by (simp add: io_content_def h')
qed

text \<open>The part of \<open>hammer2_io_getblk\<close> after the allocation.\<close>

definition read_fails :: "iodev \<Rightarrow> dop \<Rightarrow> h2_off \<Rightarrow> dio \<Rightarrow> bool" where
  "read_fails h opr off d \<longleftrightarrow> d_bp d = None \<and> io_rderr h (d_vol d) (lblk (pbase_of off) (d_dbase d)) \<noteq> 0 \<and>
     \<not> ((opr = DOP_NEW \<or> opr = DOP_NEWNZ) \<and> whole_ext off)"

text \<open>The bytes before the operation: those of the buffer when there is one.\<close>

definition base_data :: "iodev \<Rightarrow> dop \<Rightarrow> h2_off \<Rightarrow> dio \<Rightarrow> u8 list" where
  "base_data h opr off d = (if d_bp d = None then fill_data h opr off d else io_content h (pbase_of off))"

definition getblk_ok :: "iodev \<Rightarrow> dop \<Rightarrow> h2_off \<Rightarrow> dio \<Rightarrow> iodev \<Rightarrow> bool" where
  "getblk_ok h opr off d h' \<longleftrightarrow> only_at (pbase_of off) h h' \<and>
     (\<exists>d'. dio_at h' (pbase_of off) = Some d' \<and> dio_refs d' = dio_refs d \<and> (d_error d' \<noteq> 0 \<longleftrightarrow> read_fails h opr off d) \<and>
        (d_bp d' = None \<longleftrightarrow> read_fails h opr off d)) \<and>
     io_content h' (pbase_of off) = (if read_fails h opr off d then io_content h (pbase_of off) else new_data opr off (base_data h opr off d))"

lemma getblk_cached:
  assumes "io_ok h" "dio_at h (pbase_of off) = Some d" "d_bp d = Some bp" "extent_ok h off" "dio_refs d \<noteq> 0"
  shows "\<exists>h'. getblk_new opr (pbase_of off) off (2 ^ unat (off AND HAMMER2_OFF_MASK_RADIX)) h = Some h' \<and> getblk_ok h opr off d h'"
proof -
  have ok: "dio_ok h (pbase_of off) d" by (rule io_okD(2) [OF assms(1,2)])
  let ?h' = "dio_set (pbase_of off) (put_data opr off) h"
  have "hammer2_io_data d off = Some (ext_off off)"
    using ok assms(3) by (intro io_data_off [where bp = bp and i = "d_vol d"]) (auto simp: dio_ok_def)
  then have "getblk_new opr (pbase_of off) off (2 ^ unat (off AND HAMMER2_OFF_MASK_RADIX)) h = Some ?h'"
    by (rule getblk_new_eq [OF assms(2,3)])
  moreover have "only_at (pbase_of off) h ?h'"
    by (rule only_at_set [OF assms(1,2)]) (simp_all add: put_data_ok [OF ok assms(4)])
  moreover have at: "dio_at ?h' (pbase_of off) = Some (put_data opr off d)" using assms(2) by simp
  moreover have "d_error d = 0" using ok assms(3) by (simp add: dio_ok_def)
  moreover have "\<not> read_fails h opr off d" using assms(3) by (simp add: read_fails_def)
  moreover have "io_content ?h' (pbase_of off) = new_data opr off (io_content h (pbase_of off))"
    using at assms(2,3) by (simp add: io_content_def)
  ultimately show ?thesis using assms(2,3) by (simp add: getblk_ok_def base_data_def)
qed

lemma off_size_16: "off_size off = int HAMMER2_PBUFSIZE \<Longrightarrow> unat (off AND HAMMER2_OFF_MASK_RADIX) = 16"
proof -
  assume "off_size off = int HAMMER2_PBUFSIZE"
  then have "(2 :: int) ^ unat (off AND HAMMER2_OFF_MASK_RADIX) = 2 ^ 16" by (simp add: off_size_def split: if_splits)
  then show ?thesis by (simp only: power_inject_exp one_less_numeral_iff num.simps semiring_norm)
qed

lemma filled_getblk_ok:
  assumes "io_ok h" "dio_at h (pbase_of off) = Some d" "d_bp d = None" "dio_refs d \<noteq> 0" "extent_ok h off"
    and "f d = filled h opr off d" "keeps_place f" "\<not> read_fails h opr off d"
  shows "getblk_ok h opr off d (dio_set (pbase_of off) f (h\<lparr>io_held := insert (d_vol d, lblk (pbase_of off) (d_dbase d)) (io_held h)\<rparr>))"
  using only_at_filled [OF assms(1-7)] filled_ok [OF assms(1,2,5,4), of opr] assms(3,8) unfolding getblk_ok_def base_data_def by simp

text \<open>The last part of \<open>hammer2_io_getblk\<close>: the error is noted and the buffer becomes good.\<close>

definition getblk_finish :: "h2_off \<Rightarrow> int \<Rightarrow> iodev \<Rightarrow> iodev" where
  "getblk_finish p error h =
     (let h = dio_set p (\<lambda>d. d\<lparr>d_error := error\<rparr>) h
      in if error = 0 then dio_set p (\<lambda>d. d\<lparr>d_refs := d_refs d OR DIO_GOOD\<rparr>) h else h)"

lemma getblk_finish_0: "getblk_finish p 0 h = dio_set p (\<lambda>d. d\<lparr>d_error := 0, d_refs := d_refs d OR DIO_GOOD\<rparr>) h"
  by (simp add: getblk_finish_def Let_def dio_set_dio_set comp_def)

lemma keeps_place_comp: "keeps_place f \<Longrightarrow> keeps_place g \<Longrightarrow> keeps_place (f \<circ> g)"
  by (simp add: keeps_place_def)

lemma keeps_place_finish [simp]: "keeps_place (\<lambda>d. d\<lparr>d_error := e, d_refs := a d\<rparr>)"
  by (simp add: keeps_place_def)

lemma getblk_whole_ok:
  assumes "io_ok h" "dio_at h (pbase_of off) = Some d" "d_bp d = None" "dio_refs d \<noteq> 0" "extent_ok h off"
    and "opr = DOP_NEW \<or> opr = DOP_NEWNZ" "whole_ext off"
  shows "\<exists>e h'. getblk_whole opr (pbase_of off) (lblk (pbase_of off) (d_dbase d)) h = Some (e, h') \<and> getblk_ok h opr off d (getblk_finish (pbase_of off) e h')"
proof -
  let ?p = "pbase_of off" and ?l = "lblk (pbase_of off) (d_dbase d)"
  let ?data = "if opr = DOP_NEW then replicate (d_psize d) 0 else io_getblk h (length (io_log h)) (d_vol d) ?l"
  let ?f = "\<lambda>x. x\<lparr>d_bp := Some \<lparr>b_lblkno = ?l, b_data = ?data\<rparr>\<rparr>" and ?g = "\<lambda>x. x\<lparr>d_refs := d_refs x OR DIO_DIRTY\<rparr>"
    and ?k = "\<lambda>x. x\<lparr>d_error := 0, d_refs := d_refs x OR DIO_GOOD\<rparr>"
  let ?h = "h\<lparr>io_held := insert (d_vol d, ?l) (io_held h)\<rparr>"
  have w: "getblk_whole opr ?p ?l h = Some (0, dio_set ?p ?g (dio_set ?p ?f ?h))"
    using assms(2,6) take_held [OF assms(1-3)] by (simp add: getblk_whole_def buf_take_def Let_def)
  have len: "length (disk_block h ?p) = HAMMER2_PBUFSIZE" using io_okD(5) [OF assms(1)] disk_block_at [OF assms(1,2)] by simp
  have sz: "off_size off = int HAMMER2_PBUFSIZE" using assms(7) by (simp add: whole_ext_def)
  have "ext_off off = 0" using ext_fits [OF assms(5)] off_size_16 [OF sz] by simp
  then have nd: "new_data DOP_NEW off (disk_block h ?p) = replicate HAMMER2_PBUFSIZE 0"
    using len off_size_16 [OF sz] by (simp add: new_data_def)
  have ps: "d_psize d = HAMMER2_PBUFSIZE" using io_okD(2) [OF assms(1,2)] by (simp add: dio_ok_def)
  have a: "(?k \<circ> (?g \<circ> ?f)) d = filled h opr off d"
    using assms(6,7) nd ps
    by (auto simp: filled_def fill_data_def put_data_def new_data_def or.assoc or.commute or.left_commute)
  have k: "keeps_place (?k \<circ> (?g \<circ> ?f))" by (intro keeps_place_comp) simp_all
  have f: "getblk_finish ?p 0 (dio_set ?p ?g (dio_set ?p ?f ?h)) = dio_set ?p (?k \<circ> (?g \<circ> ?f)) ?h"
    by (simp only: getblk_finish_0 dio_set_dio_set keeps_place_comp keeps_place_simps)
  have n: "\<not> read_fails h opr off d" using assms(6,7) by (simp add: read_fails_def)
  have "getblk_ok h opr off d (getblk_finish ?p 0 (dio_set ?p ?g (dio_set ?p ?f ?h)))"
    unfolding f by (rule filled_getblk_ok [OF assms(1-5) a k n])
  then show ?thesis using w by blast
qed

lemma getblk_read_ok:
  assumes "io_ok h" "dio_at h (pbase_of off) = Some d" "d_bp d = None" "dio_refs d \<noteq> 0" "extent_ok h off"
    and "io_rderr h (d_vol d) (lblk (pbase_of off) (d_dbase d)) = 0" "\<not> (opr = DOP_NEWNZ \<and> whole_ext off)"
  defines "h1 \<equiv> dio_set (pbase_of off) (\<lambda>x. x\<lparr>d_bp := Some \<lparr>b_lblkno = lblk (pbase_of off) (d_dbase d), b_data = disk_block h (pbase_of off)\<rparr>\<rparr>)
    (h\<lparr>io_held := insert (d_vol d, lblk (pbase_of off) (d_dbase d)) (io_held h)\<rparr>)"
  shows "hammer2_bread (pbase_of off) (lblk (pbase_of off) (d_dbase d)) h = Some (0, h1)"
    "\<exists>d1 bp. dio_at h1 (pbase_of off) = Some d1 \<and> d_bp d1 = Some bp"
    "\<exists>h2. getblk_new opr (pbase_of off) off (2 ^ unat (off AND HAMMER2_OFF_MASK_RADIX)) h1 = Some h2 \<and> getblk_ok h opr off d (getblk_finish (pbase_of off) 0 h2)"
proof -
  let ?p = "pbase_of off" and ?l = "lblk (pbase_of off) (d_dbase d)"
  let ?f = "\<lambda>x. x\<lparr>d_bp := Some \<lparr>b_lblkno = ?l, b_data = disk_block h ?p\<rparr>\<rparr>" and ?k = "\<lambda>x. x\<lparr>d_error := 0, d_refs := d_refs x OR DIO_GOOD\<rparr>"
  let ?h = "h\<lparr>io_held := insert (d_vol d, ?l) (io_held h)\<rparr>"
  show "hammer2_bread ?p ?l h = Some (0, h1)" unfolding bread_eq [OF assms(1-3)] using assms(6) by (simp add: Let_def h1_def)
  have at: "dio_at h1 ?p = Some (?f d)" using assms(2) by (simp add: h1_def)
  then show "\<exists>d1 bp. dio_at h1 ?p = Some d1 \<and> d_bp d1 = Some bp" by simp
  have len: "length (disk_block h ?p) = HAMMER2_PBUFSIZE" using io_okD(5) [OF assms(1)] disk_block_at [OF assms(1,2)] by simp
  have "place_ok h ?p (d_vol d) (d_dbase (?f d))" using io_okD(2) [OF assms(1,2)] by (simp add: dio_ok_def)
  then have "hammer2_io_data (?f d) off = Some (ext_off off)"
    by (rule io_data_off [where bp = "\<lparr>b_lblkno = ?l, b_data = disk_block h ?p\<rparr>"]) (use len in simp_all)
  then have n: "getblk_new opr ?p off (2 ^ unat (off AND HAMMER2_OFF_MASK_RADIX)) h1 = Some (dio_set ?p (put_data opr off) h1)"
    by (intro getblk_new_eq [OF at]) simp_all
  have "fill_data h opr off d = disk_block h ?p" using assms(7) by (auto simp: fill_data_def)
  then have a: "(?k \<circ> (put_data opr off \<circ> ?f)) d = filled h opr off d"
    by (auto simp: filled_def put_data_def or.assoc or.commute or.left_commute)
  have k: "keeps_place (?k \<circ> (put_data opr off \<circ> ?f))" by (intro keeps_place_comp) simp_all
  have f: "getblk_finish ?p 0 (dio_set ?p (put_data opr off) h1) = dio_set ?p (?k \<circ> (put_data opr off \<circ> ?f)) ?h"
    by (simp only: getblk_finish_0 h1_def dio_set_dio_set keeps_place_comp keeps_place_simps put_data_fields)
  have n': "\<not> read_fails h opr off d" using assms(6) by (simp add: read_fails_def)
  have "getblk_ok h opr off d (getblk_finish ?p 0 (dio_set ?p (put_data opr off) h1))"
    unfolding f by (rule filled_getblk_ok [OF assms(1-5) a k n'])
  then show "\<exists>h2. getblk_new opr ?p off (2 ^ unat (off AND HAMMER2_OFF_MASK_RADIX)) h1 = Some h2 \<and> getblk_ok h opr off d (getblk_finish ?p 0 h2)"
    using n by blast
qed

lemma getblk_error_ok:
  assumes "io_ok h" "dio_at h (pbase_of off) = Some d" "d_bp d = None" "dio_refs d \<noteq> 0" "read_fails h opr off d"
  shows "\<exists>e h'. e \<noteq> 0 \<and> hammer2_bread (pbase_of off) (lblk (pbase_of off) (d_dbase d)) h = Some (e, h') \<and>
    (\<exists>d1. dio_at h' (pbase_of off) = Some d1 \<and> d_bp d1 = None) \<and> getblk_ok h opr off d (getblk_finish (pbase_of off) e h')"
proof -
  let ?p = "pbase_of off" and ?l = "lblk (pbase_of off) (d_dbase d)"
  define e where "e = io_rderr h (d_vol d) ?l"
  let ?h' = "dio_set ?p (\<lambda>x. x\<lparr>d_bp := None\<rparr>) (h\<lparr>io_log := io_log h @ [(Brelse, d_vol d, ?l)]\<rparr>)"
  have e: "e \<noteq> 0" using assms(5) by (simp add: read_fails_def e_def)
  then have "hammer2_bread ?p ?l h = Some (e, ?h')" unfolding bread_eq [OF assms(1-3)] by (simp add: Let_def e_def)
  moreover have "\<exists>d1. dio_at ?h' ?p = Some d1 \<and> d_bp d1 = None" using assms(2) by simp
  moreover have "getblk_ok h opr off d (getblk_finish ?p e ?h')"
  proof -
    define h2 where "h2 = getblk_finish ?p e ?h'"
    have h2: "h2 = dio_set ?p (\<lambda>x. x\<lparr>d_error := e\<rparr>) ?h'" using e by (simp add: h2_def getblk_finish_def)
    note r = io_ok_error [OF assms(1-3), of e "io_log h @ [(Brelse, d_vol d, ?l)]", folded h2]
    show ?thesis using e r assms(3,5) unfolding h2_def [symmetric] by (simp add: getblk_ok_def dio_refs_def)
  qed
  ultimately show ?thesis using e by blast
qed

lemma lsize_16: "int HAMMER2_PBUFSIZE = 2 ^ unat (off AND HAMMER2_OFF_MASK_RADIX) \<Longrightarrow> off_size off = int HAMMER2_PBUFSIZE"
  by (auto simp: off_size_def split: if_splits)

text \<open>How \<open>hammer2_io_getblk\<close> fills a DIO without a buffer.\<close>

definition getblk_fill :: "bool \<Rightarrow> dop \<Rightarrow> h2_off \<Rightarrow> h2_off \<Rightarrow> int \<Rightarrow> int \<Rightarrow> iodev \<Rightarrow> (int \<times> iodev) option" where
  "getblk_fill whole opr p off n l h =
     (if whole then getblk_whole opr p l h
      else do {
        (error, h) \<leftarrow> hammer2_bread p l h;
        dio \<leftarrow> dio_at h p;
        if d_bp dio \<noteq> None then do { kkassert (error = 0); h \<leftarrow> getblk_new opr p off n h; Some (error, h) } else Some (error, h)
      })"

lemma getblk_unfold:
  assumes "hammer2_io_alloc now off btype (opr \<noteq> DOP_READQ) h = Some (Some p, h1)" "dio_at h1 p = Some d" "d_pbase d = p"
    and "2 ^ unat (off AND HAMMER2_OFF_MASK_RADIX) = n"
  defines "o' \<equiv> if opr = DOP_READQ then DOP_READ else opr"
  shows "hammer2_io_getblk now btype off n opr h =
    (if dio_flag DIO_GOOD d then do { h' \<leftarrow> getblk_new o' p off n h1; Some (Some p, h') }
     else do {
       kkassert (d_bp d = None);
       (e, h') \<leftarrow> getblk_fill (p = off AND NOT HAMMER2_OFF_MASK_RADIX \<and> int (d_psize d) = n) o' p off n (lblk p (d_dbase d)) h1;
       Some (Some p, getblk_finish p e h')
     })"
  using assms(1-4) by (simp only: hammer2_io_getblk_def Let_def o'_def [symmetric] getblk_fill_def getblk_finish_def lblk_def
    kkassert_simps Option.bind.simps option.case prod.case simp_thms)

lemma getblk_fill_ok:
  assumes "io_ok h" "dio_at h (pbase_of off) = Some d" "d_bp d = None" "dio_refs d \<noteq> 0" "extent_ok h off" "opr \<noteq> DOP_READQ"
  defines "n \<equiv> 2 ^ unat (off AND HAMMER2_OFF_MASK_RADIX)"
  shows "\<exists>e h'. getblk_fill (pbase_of off = off AND NOT HAMMER2_OFF_MASK_RADIX \<and> int (d_psize d) = n) opr (pbase_of off) off n
      (lblk (pbase_of off) (d_dbase d)) h = Some (e, h') \<and> getblk_ok h opr off d (getblk_finish (pbase_of off) e h')"
proof -
  let ?p = "pbase_of off" and ?l = "lblk (pbase_of off) (d_dbase d)"
  define W where "W = (pbase_of off = off AND NOT HAMMER2_OFF_MASK_RADIX \<and> int (d_psize d) = n)"
  have ps: "d_psize d = HAMMER2_PBUFSIZE" using io_okD(2) [OF assms(1,2)] by (simp add: dio_ok_def)
  have W: "W \<longleftrightarrow> whole_ext off" using ps lsize_16 [of off] off_size_16 [of off] by (auto simp: W_def n_def whole_ext_def)
  show ?thesis unfolding W_def [symmetric]
  proof (cases "W \<and> (opr = DOP_NEW \<or> opr = DOP_NEWNZ)")
    case True
    then show "\<exists>e h'. getblk_fill W opr ?p off n ?l h = Some (e, h') \<and> getblk_ok h opr off d (getblk_finish ?p e h')"
      using getblk_whole_ok [OF assms(1-5), of opr] W by (auto simp: getblk_fill_def)
  next
    case False
    then have wb: "W \<Longrightarrow> getblk_whole opr ?p ?l h = hammer2_bread ?p ?l h" by (auto simp: getblk_whole_def)
    show "\<exists>e h'. getblk_fill W opr ?p off n ?l h = Some (e, h') \<and> getblk_ok h opr off d (getblk_finish ?p e h')"
    proof (cases "io_rderr h (d_vol d) ?l = 0")
      case True
      have nz: "\<not> (opr = DOP_NEWNZ \<and> whole_ext off)" using False W by blast
      note r = getblk_read_ok(1,2) [OF assms(1-5) True nz]
      obtain h2 where h2: "getblk_new opr ?p off n (dio_set ?p (\<lambda>x. x\<lparr>d_bp := Some \<lparr>b_lblkno = ?l, b_data = disk_block h ?p\<rparr>\<rparr>)
          (h\<lparr>io_held := insert (d_vol d, ?l) (io_held h)\<rparr>)) = Some h2" "getblk_ok h opr off d (getblk_finish ?p 0 h2)"
        using getblk_read_ok(3) [OF assms(1-5) True nz] unfolding n_def by blast
      have "opr = DOP_READ" if W using that False assms(6) by (cases opr) auto
      then have "h2 = dio_set ?p (\<lambda>x. x\<lparr>d_bp := Some \<lparr>b_lblkno = ?l, b_data = disk_block h ?p\<rparr>\<rparr>)
          (h\<lparr>io_held := insert (d_vol d, ?l) (io_held h)\<rparr>)" if W using that h2(1) by (simp add: getblk_new_def)
      then have "getblk_fill W opr ?p off n ?l h = Some (0, h2)" using r(1,2) h2(1) wb by (auto simp: getblk_fill_def)
      then show ?thesis using h2(2) by blast
    next
      case err: False
      then have "read_fails h opr off d" using False W assms(3) by (auto simp: read_fails_def)
      from getblk_error_ok [OF assms(1-4) this] show ?thesis using wb by (auto simp: getblk_fill_def)
    qed
  qed
qed

text \<open>The whole of \<open>hammer2_io_getblk\<close>.\<close>

lemma alloc_ok:
  assumes "io_ok h" "extent_ok h off" "room h (pbase_of off)" "create \<or> dio_at h (pbase_of off) \<noteq> None"
  shows "\<exists>h'. hammer2_io_alloc now off btype create h = Some (Some (pbase_of off), h') \<and> allocated now btype (pbase_of off) h h'"
proof (cases "dio_at h (pbase_of off)")
  case None
  then show ?thesis using alloc_new(2) [OF assms(1,2) None] assms(4) by simp
next
  case (Some d)
  show ?thesis by (rule alloc_old [OF assms(1-3) Some])
qed

lemma getblk_all:
  assumes "io_ok h" "extent_ok h off" "room h (pbase_of off)" "opr \<noteq> DOP_READQ \<or> dio_at h (pbase_of off) \<noteq> None"
  defines "o' \<equiv> if opr = DOP_READQ then DOP_READ else opr" and "n \<equiv> 2 ^ unat (off AND HAMMER2_OFF_MASK_RADIX)"
  shows "\<exists>h1 h'. allocated now btype (pbase_of off) h h1 \<and> hammer2_io_getblk now btype off n opr h = Some (Some (pbase_of off), h') \<and>
    getblk_ok h1 o' off (alloc_dio now btype h (pbase_of off)) h'"
proof -
  let ?p = "pbase_of off" and ?d = "alloc_dio now btype h (pbase_of off)"
  obtain h1 where a: "hammer2_io_alloc now off btype (opr \<noteq> DOP_READQ) h = Some (Some ?p, h1)" "allocated now btype ?p h h1"
    using alloc_ok [OF assms(1-3), of "opr \<noteq> DOP_READQ"] assms(4) by blast
  have ok: "io_ok h1" and at: "dio_at h1 ?p = Some ?d" and m: "same_media h h1" using a(2) by (simp_all add: allocated_def)
  have r: "dio_refs ?d \<noteq> 0" by (rule alloc_refs_pos [OF assms(1,3)])
  have "place_ok h1 = place_ok h" by (intro ext place_ok_cong m)
  then have ext: "extent_ok h1 off" using assms(2) m by (simp add: extent_ok_def same_media_def cong: option.case_cong)
  note u = getblk_unfold [OF a(1) at dio_at_pbase [OF at] n_def [symmetric, THEN meta_eq_to_obj_eq], folded o'_def]
  have "\<exists>h'. hammer2_io_getblk now btype off n opr h = Some (Some ?p, h') \<and> getblk_ok h1 o' off ?d h'"
  proof (cases "d_bp ?d")
    case (Some bp)
    then have "dio_flag DIO_GOOD ?d" using io_okD(2) [OF ok at] by (simp add: dio_ok_def)
    then show ?thesis using getblk_cached [OF ok at Some ext r, of o', folded n_def] unfolding u by auto
  next
    case None
    then have g: "\<not> dio_flag DIO_GOOD ?d" using io_okD(2) [OF ok at] by (simp add: dio_ok_def)
    have "o' \<noteq> DOP_READQ" by (simp add: o'_def)
    from getblk_fill_ok [OF ok at None r ext this, folded n_def] obtain e h'
      where f: "getblk_fill (?p = off AND NOT HAMMER2_OFF_MASK_RADIX \<and> int (d_psize ?d) = n) o' ?p off n (lblk ?p (d_dbase ?d)) h1 = Some (e, h')"
        "getblk_ok h1 o' off ?d (getblk_finish ?p e h')" by blast
    then have "hammer2_io_getblk now btype off n opr h = Some (Some ?p, getblk_finish ?p e h')" unfolding u using g None by simp
    then show ?thesis using f(2) by blast
  qed
  then show ?thesis using a(2) by blast
qed

end
