(* ===== verification/H2_IoRun.thy ===== *)
theory H2_IoRun
  imports H2_IoProps
begin

text \<open>
  The release of a DIO and the cleaning of the table: what they keep of the invariant and of the content.
\<close>

section \<open>Cleaning\<close>

definition with_act :: "dio \<Rightarrow> dio \<Rightarrow> bool" where
  "with_act d d' \<longleftrightarrow> (\<exists>a. d' = d\<lparr>d_act := a\<rparr>)"

lemma with_act_refl: "with_act d d"
  unfolding with_act_def by (rule exI [of _ "d_act d"]) simp

lemma with_act_decay: "with_act d (dio_decay now hz d)"
  using with_act_refl [of d] by (auto simp: dio_decay_def with_act_def Let_def)

lemma with_act_fields:
  assumes "with_act d d'"
  shows "d_pbase d' = d_pbase d" "d_refs d' = d_refs d" "d_bp d' = d_bp d" "dio_refs d' = dio_refs d" "d_vol d' = d_vol d" "d_dbase d' = d_dbase d"
    "d_dedup_alloc d' = d_dedup_alloc d" "d_dedup_valid d' = d_dedup_valid d" "d_error d' = d_error d" "dio_ok h p d' = dio_ok h p d"
  using assms by (auto simp: with_act_def dio_refs_def dio_ok_def dio_flag_def)

text \<open>The DIOs that stay and those that go, as the code splits a bucket.\<close>

definition splits :: "dio list \<Rightarrow> dio list \<Rightarrow> dio list \<Rightarrow> bool" where
  "splits ds keep clean \<longleftrightarrow> distinct (map d_pbase (keep @ clean)) \<and>
     (\<forall>p. dio_find p ds = None \<longrightarrow> dio_find p keep = None \<and> dio_find p clean = None) \<and>
     (\<forall>p d. dio_find p ds = Some d \<longrightarrow> (\<exists>d'. with_act d d' \<and>
        (dio_find p keep = Some d' \<and> dio_find p clean = None \<or>
         dio_find p keep = None \<and> dio_find p clean = Some d' \<and> dio_refs d = 0 \<and> d_bp d = None)))"

lemma splits_Nil: "splits [] [] []"
  by (simp add: splits_def)

lemma splits_keep:
  assumes "splits ds keep clean" "d_pbase d \<notin> d_pbase ` set ds" "with_act d d'"
  shows "splits (d # ds) (d' # keep) clean"
proof -
  have "dio_find (d_pbase d) ds = None" using assms(2) by (simp add: dio_find_None)
  then have "dio_find (d_pbase d) keep = None" "dio_find (d_pbase d) clean = None" using assms(1) by (simp_all add: splits_def)
  then show ?thesis using assms(1,3) with_act_fields(1) [OF assms(3)] by (auto simp: splits_def dio_find_None)
qed

lemma splits_clean:
  assumes "splits ds keep clean" "d_pbase d \<notin> d_pbase ` set ds" "with_act d d'" "dio_refs d = 0" "d_bp d = None"
  shows "splits (d # ds) keep (d' # clean)"
proof -
  have "dio_find (d_pbase d) ds = None" using assms(2) by (simp add: dio_find_None)
  then have "dio_find (d_pbase d) keep = None" "dio_find (d_pbase d) clean = None" using assms(1) by (simp_all add: splits_def)
  then show ?thesis using assms(1,3,4,5) with_act_fields(1) [OF assms(3)] by (auto simp: splits_def dio_find_None)
qed

lemma cleanup_bucket_splits:
  assumes "distinct (map d_pbase ds)" "\<And>d. d \<in> set ds \<Longrightarrow> dio_refs d = 0 \<Longrightarrow> d_bp d = None"
  shows "\<exists>keep clean. cleanup_bucket now hz ds = Some (keep, clean) \<and> splits ds keep clean"
  using assms
proof (induction ds)
  case (Cons d ds)
  then obtain keep clean where IH: "cleanup_bucket now hz ds = Some (keep, clean)" "splits ds keep clean" by auto
  have new: "d_pbase d \<notin> d_pbase ` set ds" using Cons.prems(1) by simp
  show ?case
  proof (cases "dio_refs d = 0")
    case True
    let ?d = "dio_decay now hz d"
    have bp: "d_bp d = None" using Cons.prems(2) [of d] True by simp
    then have bp': "d_bp ?d = None" using with_act_fields(3) [OF with_act_decay] by simp
    show ?thesis
    proof (cases "d_act ?d = 0")
      case True': True
      then show ?thesis using splits_clean [OF IH(2) new with_act_decay True bp] IH(1) True bp' by (auto simp: Let_def)
    next
      case False
      then show ?thesis using splits_keep [OF IH(2) new with_act_decay] IH(1) True by (auto simp: Let_def)
    qed
  next
    case False
    then show ?thesis using splits_keep [OF IH(2) new with_act_refl] IH(1) by auto
  qed
qed (simp add: splits_Nil)

text \<open>What a cleaning may do: drop free DIOs and change the activity.\<close>

definition shrinks :: "iodev \<Rightarrow> iodev \<Rightarrow> bool" where
  "shrinks h h' \<longleftrightarrow> io_ok h' \<and> same_media h h' \<and> io_blocks h' = io_blocks h \<and>
     (\<forall>q. case dio_at h q of
        None \<Rightarrow> dio_at h' q = None
      | Some d \<Rightarrow> (case dio_at h' q of None \<Rightarrow> dio_refs d = 0 | Some d' \<Rightarrow> with_act d d'))"

lemma shrinks_refl: "io_ok h \<Longrightarrow> shrinks h h"
  by (simp add: shrinks_def with_act_refl split: option.splits)

lemma with_act_trans: "with_act d d' \<Longrightarrow> with_act d' d'' \<Longrightarrow> with_act d d''"
  by (auto simp: with_act_def)

lemma shrinks_at:
  assumes "shrinks h h'"
  shows "dio_at h q = None \<Longrightarrow> dio_at h' q = None"
    "dio_at h q = Some d \<Longrightarrow> dio_at h' q = None \<Longrightarrow> dio_refs d = 0"
    "dio_at h q = Some d \<Longrightarrow> dio_at h' q = Some d' \<Longrightarrow> with_act d d'"
proof -
  have a: "case dio_at h q of None \<Rightarrow> dio_at h' q = None
      | Some d \<Rightarrow> (case dio_at h' q of None \<Rightarrow> dio_refs d = 0 | Some d' \<Rightarrow> with_act d d')"
    using assms by (simp add: shrinks_def)
  show "dio_at h q = None \<Longrightarrow> dio_at h' q = None" using a by simp
  show "dio_at h q = Some d \<Longrightarrow> dio_at h' q = None \<Longrightarrow> dio_refs d = 0" using a by simp
  show "dio_at h q = Some d \<Longrightarrow> dio_at h' q = Some d' \<Longrightarrow> with_act d d'" using a by simp
qed

lemma shrinksI:
  assumes "io_ok h'" "same_media h h'" "io_blocks h' = io_blocks h"
    and "\<And>q. dio_at h q = None \<Longrightarrow> dio_at h' q = None"
    and "\<And>q d. dio_at h q = Some d \<Longrightarrow> dio_at h' q = None \<Longrightarrow> dio_refs d = 0"
    and "\<And>q d d'. dio_at h q = Some d \<Longrightarrow> dio_at h' q = Some d' \<Longrightarrow> with_act d d'"
  shows "shrinks h h'"
  using assms by (auto simp: shrinks_def split: option.splits)

lemma shrinks_trans: "shrinks h h' \<Longrightarrow> shrinks h' h'' \<Longrightarrow> shrinks h h''"
proof (rule shrinksI)
  assume a: "shrinks h h'" "shrinks h' h''"
  show "io_ok h''" "same_media h h''" "io_blocks h'' = io_blocks h" using a by (auto simp: shrinks_def same_media_def)
  fix q d d'
  show "dio_at h'' q = None" if "dio_at h q = None" using shrinks_at(1) [OF a(1) that] shrinks_at(1) [OF a(2)] by simp
  show "dio_refs d = 0" if "dio_at h q = Some d" "dio_at h'' q = None"
    using shrinks_at(2,3) [OF a(1) that(1)] shrinks_at(2) [OF a(2) _ that(2)] by (cases "dio_at h' q") (auto simp: with_act_fields(4))
  show "with_act d d'" if "dio_at h q = Some d" "dio_at h'' q = Some d'"
    using shrinks_at(3) [OF a(1) that(1)] shrinks_at(1,3) [OF a(2), of q] that(2) by (cases "dio_at h' q") (auto intro: with_act_trans)
qed

lemma shrinks_content:
  assumes "io_ok h" "shrinks h h'"
  shows "io_content h' q = io_content h q"
proof -
  have blk: "disk_block h' q = disk_block h q" using assms(2) by (intro disk_block_cong) (simp_all add: shrinks_def)
  show ?thesis
  proof (cases "dio_at h q")
    case None
    then show ?thesis using shrinks_at(1) [OF assms(2) None] blk by (simp add: io_content_def)
  next
    case (Some d)
    have "dio_refs d = 0 \<Longrightarrow> d_bp d = None" using io_okD(2) [OF assms(1) Some] by (simp add: dio_ok_def)
    then show ?thesis using Some shrinks_at(2,3) [OF assms(2) Some] blk
      by (cases "dio_at h' q") (auto simp: io_content_def with_act_fields(3) split: option.splits)
  qed
qed

text \<open>One bucket of the table.\<close>

lemma splits_at:
  assumes "splits ds keep clean" "dio_find q ds = Some d"
  obtains d' where "with_act d d'" "dio_find q keep = Some d'" "dio_find q clean = None"
    | d' where "with_act d d'" "dio_find q keep = None" "dio_find q clean = Some d'" "dio_refs d = 0" "d_bp d = None"
  using assms unfolding splits_def by metis

lemma splits_None: "splits ds keep clean \<Longrightarrow> dio_find q ds = None \<Longrightarrow> dio_find q keep = None \<and> dio_find q clean = None"
  by (simp add: splits_def)

lemma splits_pbase:
  assumes "splits ds keep clean"
  shows "d_pbase ` set keep \<subseteq> d_pbase ` set ds" "d_pbase ` set clean \<subseteq> d_pbase ` set ds"
  using splits_None [OF assms] by (fastforce simp: dio_find_None)+

definition cleaned :: "iodev \<Rightarrow> nat \<Rightarrow> dio list \<Rightarrow> dio list \<Rightarrow> iodev" where
  "cleaned h b keep clean = h\<lparr>io_hash := (io_hash h)(b := keep), io_allocated := io_allocated h - int (length clean),
     io_free_count := io_free_count h - int (length clean)\<rparr>"

lemma bucket_at: "dio_at (cleaned h b keep clean) q = (if hammer2_io_hashv q = b then dio_find q keep else dio_at h q)"
  by (simp add: dio_at_def cleaned_def)

lemma bucket_hash:
  assumes "io_ok h" "splits (io_hash h b) keep clean" "q \<in> d_pbase ` set clean"
  shows "hammer2_io_hashv q = b"
  using splits_pbase(2) [OF assms(2)] io_okD(1) [OF assms(1)] assms(3) by (auto simp: table_ok_def)

lemma bucket_frees:
  assumes ok: "io_ok h" and sp: "splits (io_hash h b) keep clean"
  shows "frees (cleaned h b keep clean) = frees h - d_pbase ` set clean" "d_pbase ` set clean \<subseteq> frees h"
proof -
  let ?h1 = "cleaned h b keep clean"
  have "q \<in> frees ?h1 \<longleftrightarrow> q \<in> frees h \<and> q \<notin> d_pbase ` set clean" for q
  proof (cases "hammer2_io_hashv q = b")
    case True
    then have at: "dio_at h q = dio_find q (io_hash h b)" by (simp add: dio_at_def)
    show ?thesis
    proof (cases "dio_find q (io_hash h b)")
      case None
      then show ?thesis using at True splits_None [OF sp None] by (simp add: frees_def bucket_at)
    next
      case (Some d)
      from splits_at [OF sp Some] show ?thesis
      proof cases
        case (1 d')
        then have "q \<notin> d_pbase ` set clean" by (simp add: dio_find_None)
        then show ?thesis using 1 at True Some by (simp add: frees_def bucket_at with_act_fields(4) [OF 1(1)])
      next
        case (2 d')
        then have "q \<in> d_pbase ` set clean" using dio_find_None [of q clean] by auto
        then show ?thesis using 2 True by (simp add: frees_def bucket_at)
      qed
    qed
  qed (use bucket_hash [OF ok sp] in \<open>auto simp: frees_def bucket_at\<close>)
  then show "frees ?h1 = frees h - d_pbase ` set clean" by blast
  show "d_pbase ` set clean \<subseteq> frees h"
  proof
    fix q assume q: "q \<in> d_pbase ` set clean"
    then have b: "hammer2_io_hashv q = b" by (rule bucket_hash [OF ok sp])
    obtain d where d: "dio_find q (io_hash h b) = Some d"
      using q splits_pbase(2) [OF sp] by (cases "dio_find q (io_hash h b)") (auto simp: dio_find_None)
    from splits_at [OF sp d] show "q \<in> frees h"
      using q b d by cases (auto simp: frees_def dio_at_def dio_find_None)
  qed
qed

lemma bucket_shrinks:
  assumes ok: "io_ok h" and sp: "splits (io_hash h b) keep clean"
  shows "shrinks h (cleaned h b keep clean)" "\<And>d. d \<in> set clean \<Longrightarrow> d_bp d = None \<and> dio_refs d = 0"
proof -
  define h1 where "h1 = cleaned h b keep clean"
  note bucket_at = bucket_at [of h b keep clean, folded h1_def] and bucket_frees = bucket_frees [OF ok sp, folded h1_def]
  note h1 = h1_def [unfolded cleaned_def]
  have dist: "distinct (map d_pbase keep)" "distinct (map d_pbase clean)" using sp by (simp_all add: splits_def)
  have tab: "table_ok h1"
  proof -
    have "hammer2_io_hashv (d_pbase d) = b" if "d \<in> set keep" for d
      using that splits_pbase(1) [OF sp] io_okD(1) [OF ok] by (fastforce simp: table_ok_def)
    then show ?thesis using io_okD(1) [OF ok] dist(1) by (auto simp: table_ok_def h1)
  qed
  have media: "same_media h h1" "io_blocks h1 = io_blocks h" by (simp_all add: h1 same_media_def)
  have at: "dio_at h1 q = None \<and> dio_refs d = 0 \<and> d_bp d = None \<or> (\<exists>d'. dio_at h1 q = Some d' \<and> with_act d d')" if d: "dio_at h q = Some d" for q d
  proof (cases "hammer2_io_hashv q = b")
    case True
    then have "dio_find q (io_hash h b) = Some d" using d by (simp add: dio_at_def)
    from splits_at [OF sp this] show ?thesis using True by cases (auto simp: bucket_at)
  qed (use d with_act_refl in \<open>auto simp: bucket_at\<close>)
  have at_None: "dio_at h1 q = None" if "dio_at h q = None" for q
    using that splits_None [OF sp, of q] by (cases "hammer2_io_hashv q = b") (simp_all add: bucket_at, simp add: dio_at_def)
  have dio: "dio_ok h1 q d'" if new: "dio_at h1 q = Some d'" for q d'
  proof -
    obtain d where d: "dio_at h q = Some d" using new at_None by (cases "dio_at h q") auto
    then have "with_act d d'" using at [OF d] new by auto
    then show ?thesis using io_okD(2) [OF ok d] with_act_fields(10) dio_ok_cong [OF media] by simp
  qed
  have held: "held_by h1 = held_by h"
  proof -
    have "buf_of q (dio_at h1 q) = buf_of q (dio_at h q)" for q
      using at [of q] at_None [of q] by (cases "dio_at h q") (auto simp: buf_of_def with_act_fields)
    then show ?thesis by (simp add: held_by_eq)
  qed
  have "card (d_pbase ` set clean) = length clean" using distinct_card [OF dist(2)] by simp
  moreover have "card (frees h1) = card (frees h) - card (d_pbase ` set clean)"
    unfolding bucket_frees(1) by (rule card_Diff_subset [OF _ bucket_frees(2)]) simp
  moreover have "card (d_pbase ` set clean) \<le> card (frees h)"
    by (rule card_mono [OF finite_frees [OF io_okD(1) [OF ok]] bucket_frees(2)])
  ultimately have "io_free_count h1 = int (card (frees h1))" using io_okD(3) [OF ok] by (simp add: h1)
  then have "io_ok h1" using tab dio held io_okD(4-6) [OF ok] by (simp add: io_ok_def) (simp add: h1)
  then have "shrinks h h1"
  proof (rule shrinksI [OF _ media])
    fix q d d'
    show "dio_at h q = None \<Longrightarrow> dio_at h1 q = None" by (rule at_None)
    show "dio_refs d = 0" if "dio_at h q = Some d" "dio_at h1 q = None" using at [OF that(1)] that(2) by simp
    show "with_act d d'" if "dio_at h q = Some d" "dio_at h1 q = Some d'" using at [OF that(1)] that(2) by simp
  qed
  then show "shrinks h (cleaned h b keep clean)" by (simp only: h1_def)
  fix d assume d: "d \<in> set clean"
  then have find: "dio_find (d_pbase d) clean = Some d" using dio_find_iff [OF dist(2)] by simp
  have "d_pbase d \<in> d_pbase ` set (io_hash h b)" using d splits_pbase(2) [OF sp] by blast
  then obtain e where e: "dio_find (d_pbase d) (io_hash h b) = Some e" by (cases "dio_find (d_pbase d) (io_hash h b)") (auto simp: dio_find_None)
  from splits_at [OF sp e] show "d_bp d = None \<and> dio_refs d = 0"
  proof cases
    case (2 d')
    then show ?thesis using find with_act_fields(3,4) [OF 2(1)] by simp
  qed (use find in simp)
qed

lemma shrinks_iterator:
  assumes "shrinks h h'"
  shows "shrinks h (h'\<lparr>io_iterator := i\<rparr>)"
proof -
  let ?h = "h'\<lparr>io_iterator := i\<rparr>"
  have "io_ok h'" using assms by (simp add: shrinks_def)
  then have "io_ok ?h" by (simp add: io_ok_def frees_def held_by_def dio_ok_cong [of h' ?h])
  then show ?thesis using assms by (simp add: shrinks_def cong: option.case_cong)
qed

lemma cleanup_loop_shrinks:
  assumes "io_ok h" "\<forall>d \<in> set cs. d_bp d = None \<and> dio_refs d = 0"
  shows "\<exists>cs' h'. cleanup_loop now hz maxscan i count cs h = Some (cs', h') \<and> shrinks h h' \<and> (\<forall>d \<in> set cs'. d_bp d = None \<and> dio_refs d = 0)"
  using assms
proof (induction maxscan arbitrary: i count cs h)
  case 0
  then show ?case by (simp add: cleanup_loop.simps shrinks_refl)
next
  case (Suc maxscan)
  show ?case
  proof (cases "count \<le> 0")
    case True
    then show ?thesis using Suc.prems by (simp add: cleanup_loop.simps shrinks_refl)
  next
    case False
    define b where "b = i AND HAMMER2_IOHASH_MASK"
    have "distinct (map d_pbase (io_hash h b))" using io_okD(1) [OF Suc.prems(1)] by (simp add: table_ok_def)
    moreover have "d_bp d = None" if "d \<in> set (io_hash h b)" "dio_refs d = 0" for d
    proof -
      have "dio_at h (d_pbase d) = Some d" using dio_at_iff [OF io_okD(1) [OF Suc.prems(1)]] that(1) by blast
      from io_okD(2) [OF Suc.prems(1) this] show ?thesis using that(2) by (simp add: dio_ok_def)
    qed
    ultimately obtain keep clean where c: "cleanup_bucket now hz (io_hash h b) = Some (keep, clean)" and sp: "splits (io_hash h b) keep clean"
      using cleanup_bucket_splits by meson
    let ?h1 = "(cleaned h b keep clean)\<lparr>io_iterator := io_iterator (cleaned h b keep clean) + 1\<rparr>"
    note sh = bucket_shrinks [OF Suc.prems(1) sp]
    have sh1: "shrinks h ?h1" using shrinks_iterator [OF sh(1)] .
    then have "io_ok ?h1" by (simp add: shrinks_def)
    moreover have "\<forall>d \<in> set (cs @ clean). d_bp d = None \<and> dio_refs d = 0" using Suc.prems(2) sh(2) by auto
    ultimately obtain cs' h' where r: "cleanup_loop now hz maxscan (io_iterator (cleaned h b keep clean)) (count - int (length clean)) (cs @ clean) ?h1 = Some (cs', h')"
      "shrinks ?h1 h'" "\<forall>d \<in> set cs'. d_bp d = None \<and> dio_refs d = 0" using Suc.IH by blast
    have "cleanup_loop now hz (Suc maxscan) i count cs h = Some (cs', h')"
      using False c r(1) unfolding b_def [symmetric] cleanup_loop.simps [of now hz "Suc maxscan"] by (simp add: Let_def cleaned_def b_def [symmetric])
    then show ?thesis using shrinks_trans [OF sh1 r(2)] r(3) by blast
  qed
qed

lemma hash_cleanup_shrinks:
  assumes "io_ok h"
  shows "\<exists>h'. hammer2_io_hash_cleanup now hz limit h = Some h' \<and> shrinks h h'"
proof (cases "io_free_count h - limit + 32 \<le> 0")
  case True
  then show ?thesis using assms by (simp add: hammer2_io_hash_cleanup_def shrinks_refl)
next
  case False
  let ?h = "h\<lparr>io_iterator := io_iterator h + 1\<rparr>"
  have sh: "shrinks h ?h" by (rule shrinks_iterator [OF shrinks_refl [OF assms]])
  then have "io_ok ?h" by (simp add: shrinks_def)
  from cleanup_loop_shrinks [OF this, of "[]" now hz HAMMER2_IOHASH_SIZE "io_iterator h" "io_free_count h - limit + 32"]
  obtain cs' h' where r: "cleanup_loop now hz HAMMER2_IOHASH_SIZE (io_iterator h) (io_free_count h - limit + 32) [] ?h = Some (cs', h')"
    "shrinks ?h h'" "\<forall>d \<in> set cs'. d_bp d = None \<and> dio_refs d = 0" by auto
  then have "hammer2_io_hash_cleanup now hz limit h = Some h'" using False by (simp add: hammer2_io_hash_cleanup_def)
  then show ?thesis using shrinks_trans [OF sh r(2)] by blast
qed

lemma putblk_limit_shrinks:
  assumes "io_ok h"
  shows "\<exists>h'. putblk_limit now hz h = Some h' \<and> shrinks h h'"
  using hash_cleanup_shrinks [OF assms] shrinks_refl [OF assms] by (auto simp: putblk_limit_def Let_def)

section \<open>hammer2_io_putblk\<close>

text \<open>The number of references, 0 when there is no DIO.\<close>

definition refs_at :: "iodev \<Rightarrow> h2_off \<Rightarrow> nat" where
  "refs_at h p = (case dio_at h p of None \<Rightarrow> 0 | Some d \<Rightarrow> unat (dio_refs d))"

lemma shrinks_refs:
  assumes "shrinks h h'"
  shows "refs_at h' q = refs_at h q"
proof (cases "dio_at h q")
  case None
  then show ?thesis using shrinks_at(1) [OF assms None] by (simp add: refs_at_def)
next
  case (Some d)
  show ?thesis
  proof (cases "dio_at h' q")
    case None
    then show ?thesis using Some shrinks_at(2) [OF assms Some None] by (simp add: refs_at_def)
  next
    case new: (Some d')
    then show ?thesis using Some with_act_fields(4) [OF shrinks_at(3) [OF assms Some new]] by (simp add: refs_at_def)
  qed
qed

definition valid_block :: "iodev \<Rightarrow> h2_off \<Rightarrow> bool" where
  "valid_block h q \<longleftrightarrow> (case hammer2_get_volume (io_volumes h) (io_nvolumes h) q of
     None \<Rightarrow> False | Some i \<Rightarrow> place_ok h q i (v_offset (io_volumes h ! i)))"

lemma valid_block_cong: "same_media h h' \<Longrightarrow> valid_block h' q = valid_block h q"
proof -
  assume m: "same_media h h'"
  have "place_ok h' = place_ok h" by (intro ext place_ok_cong m)
  then show ?thesis using m by (simp add: valid_block_def same_media_def cong: option.case_cong)
qed

lemma putblk_more:
  assumes "io_ok h" "dio_at h p = Some d" "1 < unat (dio_refs d)"
  shows "\<exists>h'. hammer2_io_putblk now hz p h = Some h' \<and> only_at p h h' \<and> refs_at h' p = refs_at h p - 1 \<and> io_content h' p = io_content h p \<and>
    (\<exists>d'. dio_at h' p = Some d' \<and> d_bp d' = d_bp d)"
proof -
  let ?f = "\<lambda>d. d\<lparr>d_refs := d_refs d - 1\<rparr>"
  have nz: "dio_refs d \<noteq> 0" "dio_refs d \<noteq> 1" using assms(3) by (auto simp del: unat_gt_0)
  have "unat (d_refs d) mod 2 ^ 56 \<noteq> 0" using assms(3) by (simp add: dio_refs_eq)
  note dn = refs_down [OF this]
  have r: "unat (dio_refs (?f d)) = unat (dio_refs d) - 1" using dn(1) by (simp add: dio_refs_eq)
  have g: "(d_refs d - 1) AND DIO_GOOD = d_refs d AND DIO_GOOD" "(d_refs d - 1) AND DIO_DIRTY = d_refs d AND DIO_DIRTY"
    using dn(2) by (intro same_flags; simp)+
  have r0: "dio_refs (?f d) \<noteq> 0" using r assms(3) by auto
  have ok: "dio_ok h p (?f d)" using io_okD(2) [OF assms(1,2)] g r0 by (simp add: dio_ok_def dio_flag_def)
  have "hammer2_io_putblk now hz p h = Some (dio_set p ?f h)"
    using assms(2) nz by (simp add: hammer2_io_putblk_def putblk_drop_def Let_def)
  moreover have "only_at p h (dio_set p ?f h)"
    by (rule only_at_set [OF assms(1,2)]) (use ok r0 nz in \<open>simp_all add: buf_of_def\<close>)
  moreover have "refs_at (dio_set p ?f h) p = refs_at h p - 1" using assms(2) r by (simp add: refs_at_def)
  moreover have "disk_block (dio_set p ?f h) p = disk_block h p" by (rule disk_block_cong) simp_all
  then have "io_content (dio_set p ?f h) p = io_content h p" using assms(2) by (simp add: io_content_def cong: option.case_cong)
  moreover have "\<exists>d'. dio_at (dio_set p ?f h) p = Some d' \<and> d_bp d' = d_bp d" using assms(2) by simp
  ultimately show ?thesis by blast
qed

text \<open>The state after the last drop and the disposal of the buffer.\<close>

definition last_state :: "h2_off \<Rightarrow> dio \<Rightarrow> iodev \<Rightarrow> iodev" where
  "last_state p d h =
     (let h = dio_set p (\<lambda>x. x\<lparr>d_refs := (d_refs x - 1) AND NOT (DIO_GOOD OR DIO_DIRTY), d_bp := None\<rparr>) h;
          h = (case d_bp d of None \<Rightarrow> h
               | Some bp \<Rightarrow> buf_release (if dio_flag DIO_DIRTY d then if dio_flag DIO_FLUSH d then Bawrite else Bdwrite else Bqrelse) (d_vol d) bp h)
      in h\<lparr>io_free_count := io_free_count h + 1\<rparr>)"

lemma keeps_place_drop [simp]: "keeps_place (\<lambda>x. x\<lparr>d_refs := a x, d_bp := b\<rparr>)"
  by (simp add: keeps_place_def)

lemma drop_dispose:
  assumes "io_ok h" "dio_at h p = Some d" "unat (dio_refs d) = 1"
  shows "hammer2_io_putblk now hz p h = putblk_limit now hz (last_state p d h)"
proof -
  let ?w = "(d_refs d - 1) AND NOT (DIO_GOOD OR DIO_DIRTY)"
  have one: "dio_refs d = 1" using assms(3) by (simp add: word_unat_eq_iff)
  have "unat (d_refs d) mod 2 ^ 56 = 1" using assms(3) by (simp add: dio_refs_eq)
  note w = refs_last [OF this]
  let ?h1 = "dio_set p (\<lambda>d. d\<lparr>d_refs := (d_refs d - 1) AND NOT (DIO_GOOD OR DIO_DIRTY)\<rparr>) h"
  have dr: "putblk_drop p h = Some (Some (d_refs d), ?h1)" using assms(2) one by (simp add: putblk_drop_def Let_def)
  have good: "d_refs d AND DIO_GOOD \<noteq> 0" if "d_bp d \<noteq> None" using io_okD(2) [OF assms(1,2)] that by (simp add: dio_ok_def dio_flag_def)
  have fl: "dio_flag DIO_FLUSH (d\<lparr>d_refs := ?w\<rparr>) = dio_flag DIO_FLUSH d" "\<not> dio_flag DIO_GOOD (d\<lparr>d_refs := ?w\<rparr>)"
    using w(2,4) by (simp_all only: dio_flag_def dio.simps) simp_all
  have "putblk_dispose p (d_refs d) ?h1 = Some (last_state p d h)"
  proof (cases "d_bp d")
    case None
    then show ?thesis using assms(2) fl by (simp add: putblk_dispose_def last_state_def Let_def dio_set_dio_set comp_def)
  next
    case (Some bp)
    then have "d_refs d AND DIO_GOOD \<noteq> 0" using good by simp
    then show ?thesis using Some assms(2) fl
      by (simp add: putblk_dispose_def last_state_def Let_def dio_set_dio_set comp_def) (simp add: dio_flag_def)
  qed
  then show ?thesis using dr by (simp add: hammer2_io_putblk_def)
qed

lemma last_state_fields:
  defines "g \<equiv> \<lambda>x. x\<lparr>d_refs := (d_refs x - 1) AND NOT (DIO_GOOD OR DIO_DIRTY), d_bp := None\<rparr>"
  shows "dio_at (last_state p d h) q = (if q = p then map_option g (dio_at h p) else dio_at h q)"
    "table_ok h \<Longrightarrow> table_ok (last_state p d h)" "same_media h (last_state p d h)"
    "io_free_count (last_state p d h) = io_free_count h + 1"
    "d_bp d = None \<Longrightarrow> io_held (last_state p d h) = io_held h" "d_bp d = None \<Longrightarrow> io_blocks (last_state p d h) = io_blocks h"
    "d_bp d = Some bp \<Longrightarrow> io_held (last_state p d h) = io_held h - {(d_vol d, b_lblkno bp)}"
    "d_bp d = Some bp \<Longrightarrow> io_blocks (last_state p d h) = (if dio_flag DIO_DIRTY d
       then (io_blocks h)(d_vol d := (io_blocks h (d_vol d))(b_lblkno bp := b_data bp)) else io_blocks h)"
  by (cases "d_bp d"; simp add: last_state_def buf_release_def Let_def g_def)+

lemma dio_ok_last:
  assumes "dio_ok h p d" "unat (dio_refs d) = 1" "same_media h h'"
  defines "d' \<equiv> d\<lparr>d_refs := (d_refs d - 1) AND NOT (DIO_GOOD OR DIO_DIRTY), d_bp := None\<rparr>"
  shows "dio_ok h' p d'" "dio_refs d' = 0"
proof -
  have "unat (d_refs d) mod 2 ^ 56 = 1" using assms(2) by (simp add: dio_refs_eq)
  note w = refs_last [OF this]
  show "dio_refs d' = 0" using w(1) by (simp add: d'_def dio_refs_def)
  have "\<not> dio_flag DIO_GOOD d'" using w(2) by (simp add: d'_def dio_flag_def)
  then show "dio_ok h' p d'" using assms(1) place_ok_cong [OF assms(3)] by (simp add: dio_ok_def) (simp add: d'_def)
qed

text \<open>Two valid offsets with the same block are the same.\<close>

lemma valid_block_inj:
  assumes "valid_block h q" "place_ok h p i db" "hammer2_get_volume (io_volumes h) (io_nvolumes h) q = Some i"
    and "lblk q (v_offset (io_volumes h ! i)) = lblk p db"
  shows "q = p"
proof -
  have "place_ok h q i (v_offset (io_volumes h ! i))" using assms(1,3) by (simp add: valid_block_def)
  then show ?thesis using assms(2,4) place_inj by blast
qed

lemma last_state_ok:
  assumes "io_ok h" "dio_at h p = Some d" "unat (dio_refs d) = 1"
  shows "io_ok (last_state p d h)" "refs_at (last_state p d h) p = 0"
    "q \<noteq> p \<Longrightarrow> dio_at (last_state p d h) q = dio_at h q" "valid_block h q \<Longrightarrow> io_content (last_state p d h) q = io_content h q"
proof -
  let ?h = "last_state p d h" and ?g = "\<lambda>x. x\<lparr>d_refs := (d_refs x - 1) AND NOT (DIO_GOOD OR DIO_DIRTY), d_bp := None\<rparr>"
  note f = last_state_fields [where p = p and d = d and h = h]
  have dok: "dio_ok h p d" by (rule io_okD(2) [OF assms(1,2)])
  note l = dio_ok_last [OF dok assms(3) f(3)]
  have at: "dio_at ?h q = (if q = p then Some (?g d) else dio_at h q)" for q using f(1) assms(2) by simp
  have lb: "d_bp d = Some bp \<Longrightarrow> b_lblkno bp = lblk p (d_dbase d) \<and> length (b_data bp) = HAMMER2_PBUFSIZE" for bp using dok by (simp add: dio_ok_def)
  have pl: "place_ok h p (d_vol d) (d_dbase d)" using dok by (simp add: dio_ok_def)
  have buf: "buf_of p (dio_at h p) = (case d_bp d of None \<Rightarrow> {} | Some bp \<Rightarrow> {(d_vol d, b_lblkno bp)})"
    using assms(2) lb by (simp add: buf_of_def split: option.splits)
  show "io_ok ?h"
  proof (rule io_ok_step [OF assms(1), where p = p and d' = "?g d"])
    show "dio_at ?h q = (if q = p then Some (?g d) else dio_at h q)" for q by (rule at)
    show "dio_ok ?h p (?g d)" by (rule l(1))
    have "\<not> is_free (dio_at h p)" using assms(2,3) by (auto simp: is_free_def)
    then show "io_free_count ?h = io_free_count h + (if dio_refs (?g d) = 0 then 1 else 0) - (if is_free (dio_at h p) then 1 else 0)"
      using l(2) f(4) by simp
    show "io_held ?h = io_held h - buf_of p (dio_at h p) \<union> buf_of p (Some (?g d))"
      using f(5,7) unfolding buf by (cases "d_bp d") (simp_all add: buf_of_def)
    show "length (io_blocks ?h v k) = HAMMER2_PBUFSIZE" for v k
      using f(6,8) lb io_okD(5) [OF assms(1)] by (cases "d_bp d") auto
    show "io_blocks ?h v k = io_blocks h v k" if "(v, k) \<notin> buf_of p (dio_at h p)" for v k
      using f(6,8) that unfolding buf by (cases "d_bp d") auto
  qed (use f io_okD(1) [OF assms(1)] in simp_all)
  show "refs_at ?h p = 0" using at l(2) by (simp add: refs_at_def)
  show "q \<noteq> p \<Longrightarrow> dio_at ?h q = dio_at h q" using at by simp
  show "io_content ?h q = io_content h q" if v: "valid_block h q"
  proof (cases "q = p")
    case True
    have "disk_block ?h p = io_blocks ?h (d_vol d) (lblk p (d_dbase d))"
      using pl f(3) by (simp add: disk_block_def place_ok_def same_media_def)
    moreover have "\<not> dio_flag DIO_DIRTY d \<Longrightarrow> d_bp d = Some bp \<Longrightarrow> b_data bp = io_blocks h (d_vol d) (b_lblkno bp)" for bp
      using dok by (simp add: dio_ok_def)
    ultimately show ?thesis using True at assms(2) f(6,8) lb disk_block_at [OF assms(1,2)]
      by (cases "d_bp d") (auto simp: io_content_def)
  next
    case False
    have "disk_block ?h q = disk_block h q"
    proof (cases "hammer2_get_volume (io_volumes h) (io_nvolumes h) q")
      case (Some i)
      have "io_blocks ?h i (lblk q (v_offset (io_volumes h ! i))) = io_blocks h i (lblk q (v_offset (io_volumes h ! i)))"
        using f(6,8) lb valid_block_inj [OF v pl] Some False by (cases "d_bp d") auto
      then show ?thesis using Some f(3) by (simp add: disk_block_def same_media_def)
    qed (use f(3) in \<open>simp add: disk_block_def same_media_def\<close>)
    then show ?thesis using False at by (simp add: io_content_def cong: option.case_cong)
  qed
qed

end
