(* ===== verification/H2_IoCache.thy ===== *)
theory H2_IoCache
  imports H2_IoRun
begin

text \<open>
  Runs of the clients of the device cache and what they see: the cache is transparent.  The abstract state is a map
  from \<open>pbase\<close> to the 64 KB there, each byte with a value or undefined, and the number of handles.  A byte is undefined
  after \<open>DOP_NEWNZ\<close> of a whole buffer that nobody holds, for which the code takes a buffer without reading, until a
  client writes it.  The device has no read errors in the runs.
\<close>

section \<open>Operations of clients\<close>

definition write_data :: "h2_off \<Rightarrow> u8 list \<Rightarrow> u8 list \<Rightarrow> u8 list" where
  "write_data off xs ys = take (ext_off off) ys @ xs @ drop (ext_off off + length xs) ys"

text \<open>A client copies bytes to the address that \<open>hammer2_io_data\<close> gives and marks the DIO dirty.\<close>

definition client_write :: "h2_off \<Rightarrow> u8 list \<Rightarrow> iodev \<Rightarrow> iodev option" where
  "client_write off xs h = do {
     let p = pbase_of off;
     d \<leftarrow> dio_at h p;
     pos \<leftarrow> hammer2_io_data d off;
     hammer2_io_setdirty p (dio_set p (\<lambda>d. d\<lparr>d_bp := map_option (\<lambda>bp. bp\<lparr>b_data :=
       take pos (b_data bp) @ xs @ drop (pos + length xs) (b_data bp)\<rparr>) (d_bp d)\<rparr>) h)
   }"

datatype io_op =
    Getblk u8 dop h2_off
  | Write h2_off "u8 list"
  | Putblk h2_off
  | Baw h2_off
  | Bdw h2_off
  | DedupSet blockref
  | DedupDelete u8 h2_off nat
  | Cleanup int

definition io_step :: "int \<Rightarrow> int \<times> io_op \<Rightarrow> iodev \<Rightarrow> iodev option" where
  "io_step hz = (\<lambda>(now, opn) h. case opn of
     Getblk btype opr off \<Rightarrow>
       map_option snd (hammer2_io_getblk now btype off (2 ^ unat (off AND HAMMER2_OFF_MASK_RADIX)) opr h)
   | Write off xs \<Rightarrow> client_write off xs h
   | Putblk p \<Rightarrow> hammer2_io_putblk now hz p h
   | Baw p \<Rightarrow> hammer2_io_bawrite now hz p h
   | Bdw p \<Rightarrow> hammer2_io_bdwrite now hz p h
   | DedupSet bref \<Rightarrow> hammer2_io_dedup_set now hz bref h
   | DedupDelete btype off bytes \<Rightarrow> hammer2_io_dedup_delete now hz btype off bytes h
   | Cleanup limit \<Rightarrow> hammer2_io_hash_cleanup now hz limit h)"

primrec io_run :: "int \<Rightarrow> (int \<times> io_op) list \<Rightarrow> iodev \<Rightarrow> iodev option" where
  "io_run hz [] h = Some h"
| "io_run hz (x # xs) h = do { h \<leftarrow> io_step hz x h; io_run hz xs h }"

section \<open>The abstract cache\<close>

type_synonym cache = "(h2_off \<Rightarrow> u8 option list) \<times> (h2_off \<Rightarrow> nat)"

definition put_bytes :: "h2_off \<Rightarrow> u8 list \<Rightarrow> u8 option list \<Rightarrow> u8 option list" where
  "put_bytes off xs cs = take (ext_off off) cs @ map Some xs @ drop (ext_off off + length xs) cs"

definition get_bytes :: "dop \<Rightarrow> h2_off \<Rightarrow> nat \<Rightarrow> u8 option list \<Rightarrow> u8 option list" where
  "get_bytes opr off n cs =
     (if opr = DOP_NEW then put_bytes off (replicate (2 ^ unat (off AND HAMMER2_OFF_MASK_RADIX)) 0) cs
      else if opr = DOP_NEWNZ \<and> whole_ext off \<and> n = 0 then replicate HAMMER2_PBUFSIZE None
      else cs)"

text \<open>Bytes that have the values that are defined.\<close>

definition agrees :: "u8 list \<Rightarrow> u8 option list \<Rightarrow> bool" where
  "agrees = list_all2 (\<lambda>b v. v = None \<or> v = Some b)"

lemma agrees_all: "agrees xs (map Some ys) \<longleftrightarrow> xs = ys"
  by (auto simp: agrees_def list_all2_conv_all_nth intro: nth_equalityI)

lemma agrees_undef: "length xs = n \<Longrightarrow> agrees xs (replicate n None)"
  by (auto simp: agrees_def list_all2_conv_all_nth)

lemma agrees_put: "agrees xs cs \<Longrightarrow> agrees (take (ext_off off) xs @ ys @ drop (ext_off off + length ys) xs) (put_bytes off ys cs)"
  unfolding put_bytes_def using agrees_all [of ys ys] by (auto simp: agrees_def intro!: list_all2_appendI list_all2_takeI list_all2_dropI)

lemma agrees_new: "agrees xs cs \<Longrightarrow> agrees (new_data DOP_NEW off xs) (put_bytes off (replicate (2 ^ unat (off AND HAMMER2_OFF_MASK_RADIX)) 0) cs)"
  using agrees_put [of xs cs off "replicate (2 ^ unat (off AND HAMMER2_OFF_MASK_RADIX)) 0"] by (simp add: new_data_def)

lemma agrees_write: "agrees xs cs \<Longrightarrow> agrees (write_data off ys xs) (put_bytes off ys cs)"
  by (simp add: write_data_def agrees_put)

fun spec_step :: "io_op \<Rightarrow> cache \<Rightarrow> cache" where
  "spec_step (Getblk btype opr off) (c, r) =
     (c(pbase_of off := get_bytes opr off (r (pbase_of off)) (c (pbase_of off))), r(pbase_of off := r (pbase_of off) + 1))"
| "spec_step (Write off xs) (c, r) = (c(pbase_of off := put_bytes off xs (c (pbase_of off))), r)"
| "spec_step (Putblk p) (c, r) = (c, r(p := r p - 1))"
| "spec_step (Baw p) (c, r) = (c, r(p := r p - 1))"
| "spec_step (Bdw p) (c, r) = (c, r(p := r p - 1))"
| "spec_step (DedupSet bref) (c, r) = (c, r)"
| "spec_step (DedupDelete btype off bytes) (c, r) = (c, r)"
| "spec_step (Cleanup limit) (c, r) = (c, r)"

text \<open>What a client has to keep to, in terms of the media and the handles.\<close>

definition in_buffer :: "h2_off \<Rightarrow> nat \<Rightarrow> bool" where
  "in_buffer off bytes \<longleftrightarrow> ext_off off + bytes \<le> HAMMER2_PBUFSIZE"

fun step_ok :: "iodev \<Rightarrow> io_op \<Rightarrow> (h2_off \<Rightarrow> nat) \<Rightarrow> bool" where
  "step_ok h (Getblk btype opr off) r \<longleftrightarrow> extent_ok h off \<and> opr \<noteq> DOP_READQ \<and> r (pbase_of off) + 1 < 2 ^ 56"
| "step_ok h (Write off xs) r \<longleftrightarrow> extent_ok h off \<and> 0 < r (pbase_of off) \<and> in_buffer off (length xs)"
| "step_ok h (Putblk p) r \<longleftrightarrow> 0 < r p"
| "step_ok h (Baw p) r \<longleftrightarrow> 0 < r p"
| "step_ok h (Bdw p) r \<longleftrightarrow> 0 < r p"
| "step_ok h (DedupSet bref) r \<longleftrightarrow> extent_ok h (br_data_off bref) \<and> r (pbase_of (br_data_off bref)) + 1 < 2 ^ 56"
| "step_ok h (DedupDelete btype off bytes) r \<longleftrightarrow> extent_ok h off \<and> r (pbase_of off) + 1 < 2 ^ 56 \<and> in_buffer off bytes \<and>
     pbase_of off \<noteq> 0xFFFFFFFFFFFF0000"
| "step_ok h (Cleanup limit) r \<longleftrightarrow> True"

fun run_ok :: "iodev \<Rightarrow> (int \<times> io_op) list \<Rightarrow> cache \<Rightarrow> bool" where
  "run_ok h [] cr \<longleftrightarrow> True"
| "run_ok h (x # xs) cr \<longleftrightarrow> step_ok h (snd x) (snd cr) \<and> run_ok h xs (spec_step (snd x) cr)"

definition spec_run :: "(int \<times> io_op) list \<Rightarrow> cache \<Rightarrow> cache" where
  "spec_run xs cr = fold (\<lambda>x. spec_step (snd x)) xs cr"

text \<open>The simulation.\<close>

definition good_held :: "iodev \<Rightarrow> bool" where
  "good_held h \<longleftrightarrow> (\<forall>p d. dio_at h p = Some d \<longrightarrow> dio_refs d \<noteq> 0 \<longrightarrow> d_bp d \<noteq> None)"

definition simulates :: "iodev \<Rightarrow> cache \<Rightarrow> bool" where
  "simulates h cr \<longleftrightarrow> io_ok h \<and> good_held h \<and> (\<forall>p. refs_at h p = snd cr p) \<and> 
     (\<forall>p. valid_block h p \<longrightarrow> agrees (io_content h p) (fst cr p))"

section \<open>Each operation\<close>

lemma extent_ok_cong:
  assumes "same_media h h'"
  shows "extent_ok h' off = extent_ok h off"
proof -
  have "place_ok h' = place_ok h" by (intro ext place_ok_cong assms)
  then show ?thesis using assms by (simp add: extent_ok_def same_media_def cong: option.case_cong)
qed

lemma step_ok_cong: "same_media h h' \<Longrightarrow> step_ok h' x r = step_ok h x r"
  by (cases x) (simp_all add: extent_ok_cong)

lemma run_ok_cong: "same_media h h' \<Longrightarrow> run_ok h' xs cr = run_ok h xs cr"
  by (induction xs arbitrary: cr) (simp_all add: step_ok_cong)

lemma room_refs: "room h p \<longleftrightarrow> refs_at h p + 1 < 2 ^ 56"
  by (auto simp: room_def refs_at_def split: option.splits)

lemma refs_at_Some: "0 < refs_at h p \<Longrightarrow> \<exists>d. dio_at h p = Some d \<and> dio_refs d \<noteq> 0"
  by (cases "dio_at h p") (auto simp: refs_at_def)

lemma shrinks_simulates:
  assumes "simulates h cr" "shrinks h h'"
  shows "simulates h' cr" "same_media h h'"
proof -
  show m: "same_media h h'" using assms(2) by (simp add: shrinks_def)
  have ok: "io_ok h" "io_ok h'" using assms by (simp_all add: simulates_def shrinks_def)
  have "good_held h'" unfolding good_held_def
  proof (intro allI impI)
    fix q d' assume d': "dio_at h' q = Some d'" "dio_refs d' \<noteq> 0"
    then obtain d where d: "dio_at h q = Some d" using shrinks_at(1) [OF assms(2), of q] by (cases "dio_at h q") auto
    note w = with_act_fields(3,4) [OF shrinks_at(3) [OF assms(2) d d'(1)]]
    then show "d_bp d' \<noteq> None" using assms(1) d d'(2) by (simp add: simulates_def good_held_def)
  qed
  then show "simulates h' cr"
    using assms(1) ok shrinks_refs [OF assms(2)] shrinks_content [OF ok(1) assms(2)] valid_block_cong [OF m] by (simp add: simulates_def)
qed

text \<open>An operation on one buffer.\<close>

lemma only_at_simulates:
  assumes "simulates h (c, r)" "only_at p h h'" "dio_at h' p = Some d'" "d_bp d' \<noteq> None \<or> dio_refs d' = 0"
    and "valid_block h p \<Longrightarrow> agrees (io_content h' p) c'" "refs_at h' p = n"
  shows "simulates h' (c(p := c'), r(p := n))"
proof -
  have o: "io_ok h'" "same_media h h'" "\<And>q. q \<noteq> p \<Longrightarrow> dio_at h' q = dio_at h q" using assms(2) by (simp_all add: only_at_def)
  have "good_held h'" unfolding good_held_def
  proof (intro allI impI)
    fix q d assume d: "dio_at h' q = Some d" "dio_refs d \<noteq> 0"
    show "d_bp d \<noteq> None"
    proof (cases "q = p")
      case False
      then show ?thesis using d assms(1) o(3) by (simp add: simulates_def good_held_def)
    qed (use d assms(3,4) in auto)
  qed
  moreover have "refs_at h' q = (r(p := n)) q" for q using assms(1,6) o(3) by (simp add: refs_at_def simulates_def)
  moreover have "agrees (io_content h' q) ((c(p := c')) q)" if "valid_block h' q" for q
    using that assms(1,5) only_at_content [OF assms(2), of q] valid_block_cong [OF o(2)] by (auto simp: simulates_def)
  ultimately show ?thesis using o(1) by (simp add: simulates_def)
qed

text \<open>A handle that is taken for a moment need not have a buffer.\<close>

definition simulates_at :: "h2_off \<Rightarrow> iodev \<Rightarrow> cache \<Rightarrow> bool" where
  "simulates_at p h cr \<longleftrightarrow> io_ok h \<and> (\<forall>p. refs_at h p = snd cr p) \<and> (\<forall>p. valid_block h p \<longrightarrow> agrees (io_content h p) (fst cr p)) \<and>
     (\<forall>q d. dio_at h q = Some d \<longrightarrow> dio_refs d \<noteq> 0 \<longrightarrow> d_bp d \<noteq> None \<or> q = p \<and> unat (dio_refs d) = 1)"

lemma simulates_simulates_at: "simulates h cr \<Longrightarrow> simulates_at p h cr"
  unfolding simulates_def simulates_at_def good_held_def by blast

lemma last_simulates:
  assumes "simulates_at p h (c, r)" "dio_at h p = Some d" "unat (dio_refs d) = 1"
  shows "simulates (last_state p d h) (c, r(p := 0))"
proof -
  have s: "io_ok h" "\<And>q. refs_at h q = r q" "\<And>q. valid_block h q \<Longrightarrow> agrees (io_content h q) (c q)"
    "\<And>q d. dio_at h q = Some d \<Longrightarrow> dio_refs d \<noteq> 0 \<Longrightarrow> d_bp d \<noteq> None \<or> q = p \<and> unat (dio_refs d) = 1"
    using assms(1) unfolding simulates_at_def fst_conv snd_conv by blast+
  note l = last_state_ok [OF s(1) assms(2,3)]
  have m: "same_media h (last_state p d h)" by (rule last_state_fields(3))
  have "good_held (last_state p d h)" unfolding good_held_def
  proof (intro allI impI)
    fix q d' assume d': "dio_at (last_state p d h) q = Some d'" "dio_refs d' \<noteq> 0"
    have "q \<noteq> p" using l(2) d' by (auto simp: refs_at_def unat_eq_0)
    then show "d_bp d' \<noteq> None" using l(3) d' s(4) [of q d'] by auto
  qed
  moreover have "refs_at (last_state p d h) q = (r(p := 0)) q" for q using l(2,3) s(2) by (simp add: refs_at_def)
  moreover have "agrees (io_content (last_state p d h) q) (c q)" if "valid_block (last_state p d h) q" for q
    using that l(4) s(3) valid_block_cong [OF m] by simp
  ultimately show ?thesis using l(1) by (simp add: simulates_def)
qed

lemma putblk_simulates:
  assumes "simulates_at p h (c, r)" "0 < r p"
  shows "\<exists>h'. hammer2_io_putblk now hz p h = Some h' \<and> same_media h h' \<and> simulates h' (c, r(p := r p - 1))"
proof -
  have s: "io_ok h" "\<And>q. refs_at h q = r q" "\<And>q. valid_block h q \<Longrightarrow> agrees (io_content h q) (c q)"
    "\<And>q d. dio_at h q = Some d \<Longrightarrow> dio_refs d \<noteq> 0 \<Longrightarrow> d_bp d \<noteq> None \<or> q = p \<and> unat (dio_refs d) = 1"
    using assms(1) unfolding simulates_at_def fst_conv snd_conv by blast+
  obtain d where d: "dio_at h p = Some d" "dio_refs d \<noteq> 0" using refs_at_Some [of h p] s(2) assms(2) by auto
  show ?thesis
  proof (cases "unat (dio_refs d) = 1")
    case False
    moreover have "unat (dio_refs d) \<noteq> 0" using d(2) by (simp add: unat_eq_0)
    ultimately have "1 < unat (dio_refs d)" by linarith
    from putblk_more [OF s(1) d(1) this, of now hz] obtain h' d'
      where h': "hammer2_io_putblk now hz p h = Some h'" "only_at p h h'" "refs_at h' p = refs_at h p - 1" "io_content h' p = io_content h p"
        "dio_at h' p = Some d'" "d_bp d' = d_bp d" by blast
    have bp: "d_bp d \<noteq> None" using s(4) [OF d] False by blast
    have sim: "simulates h (c, r)"
      using s d False unfolding simulates_def good_held_def by (metis fst_conv snd_conv option.inject)
    have "simulates h' (c(p := c p), r(p := r p - 1))"
      using h' bp s(2,3) by (intro only_at_simulates [OF sim h'(2) h'(5)]) auto
    then show ?thesis using h'(1,2) by (auto simp: only_at_def)
  next
    case True
    have r1: "r p = 1" using s(2) [of p] d(1) True by (simp add: refs_at_def)
    note l = last_simulates [OF assms(1) d(1) True]
    then have "io_ok (last_state p d h)" by (simp add: simulates_def)
    then obtain h' where h': "putblk_limit now hz (last_state p d h) = Some h'" "shrinks (last_state p d h) h'"
      using putblk_limit_shrinks by blast
    have "hammer2_io_putblk now hz p h = Some h'" using drop_dispose [OF s(1) d(1) True] h'(1) by simp
    moreover have "same_media h h'" using shrinks_simulates(2) [OF l h'(2)] last_state_fields(3) [of h p d] by (simp add: same_media_def)
    ultimately show ?thesis using shrinks_simulates(1) [OF l h'(2)] r1 by auto
  qed
qed

lemma simulatesD:
  assumes "simulates h (c, r)"
  shows "io_ok h" "good_held h" "refs_at h p = r p" "valid_block h p \<Longrightarrow> agrees (io_content h p) (c p)"
  using assms by (simp_all add: simulates_def)

lemma allocated_refs: "io_ok h \<Longrightarrow> room h p \<Longrightarrow> unat (dio_refs (alloc_dio now btype h p)) = refs_at h p + 1"
  using alloc_refs [of h p now btype] by (simp add: refs_at_def split: option.splits)

lemma base_agrees:
  assumes "io_ok h" "dio_at h (pbase_of off) = Some d" "content = new_data opr off (base_data h opr off d)"
    and "n = 0 \<Longrightarrow> d_bp d = None" "0 < n \<Longrightarrow> d_bp d \<noteq> None" "agrees (io_content h (pbase_of off)) cs"
  shows "agrees content (get_bytes opr off n cs)"
proof -
  have same: "base_data h opr off d = io_content h (pbase_of off)" if "\<not> (opr = DOP_NEWNZ \<and> whole_ext off \<and> n = 0)"
    using that assms(2,5) by (auto simp: base_data_def fill_data_def io_content_def)
  consider (new) "opr = DOP_NEW" | (undef) "opr = DOP_NEWNZ \<and> whole_ext off \<and> n = 0" | (old) "opr \<noteq> DOP_NEW" "\<not> (opr = DOP_NEWNZ \<and> whole_ext off \<and> n = 0)"
    by blast
  then show ?thesis
  proof cases
    case new
    then have "content = new_data DOP_NEW off (io_content h (pbase_of off))" using assms(3) same by simp
    then show ?thesis using new agrees_new [OF assms(6)] by (simp add: get_bytes_def)
  next
    case undef
    then have "length content = HAMMER2_PBUFSIZE"
      using assms(3,4) io_okD(6) [OF assms(1)] by (simp add: new_data_def base_data_def fill_data_def)
    then show ?thesis using undef agrees_undef [of content HAMMER2_PBUFSIZE] by (simp add: get_bytes_def)
  next
    case old
    then have "content = io_content h (pbase_of off)" using assms(3) same by (simp add: new_data_def)
    then show ?thesis using old assms(6) by (auto simp: get_bytes_def)
  qed
qed

lemma getblk_simulates:
  assumes "simulates h (c, r)" "extent_ok h off" "r (pbase_of off) + 1 < 2 ^ 56" "opr \<noteq> DOP_READQ" "\<And>v l. io_rderr h v l = 0"
  shows "\<exists>h'. hammer2_io_getblk now btype off (2 ^ unat (off AND HAMMER2_OFF_MASK_RADIX)) opr h = Some (Some (pbase_of off), h') \<and>
    same_media h h' \<and> simulates h' (spec_step (Getblk btype opr off) (c, r))"
proof -
  let ?p = "pbase_of off" and ?d = "alloc_dio now btype h (pbase_of off)"
  note s = simulatesD [OF assms(1)]
  have room: "room h ?p" using assms(3) s(3) by (simp add: room_refs)
  from getblk_all [OF s(1) assms(2) room disjI1 [OF assms(4)], of now btype] assms(4) obtain h1 h'
    where g: "allocated now btype ?p h h1" "hammer2_io_getblk now btype off (2 ^ unat (off AND HAMMER2_OFF_MASK_RADIX)) opr h = Some (Some ?p, h')"
      "getblk_ok h1 opr off ?d h'" by auto
  have "io_rderr h1 = io_rderr h" using g(1) by (simp add: allocated_def same_media_def)
  then have nf: "\<not> read_fails h1 opr off ?d" using assms(5) by (simp add: read_fails_def)
  then obtain d' where d': "dio_at h' ?p = Some d'" "dio_refs d' = dio_refs ?d" "d_bp d' \<noteq> None"
    and o: "only_at ?p h1 h'" and content: "io_content h' ?p = new_data opr off (base_data h1 opr off ?d)"
    using g(3) by (auto simp: getblk_ok_def)
  have oo: "only_at ?p h h'" by (rule only_at_trans [OF allocated_only_at [OF g(1)] o])
  have bp: "d_bp ?d = None" if "r ?p = 0"
  proof (cases "dio_at h ?p")
    case (Some e)
    then have "dio_refs e = 0" using that s(3) [of ?p] by (simp add: refs_at_def unat_eq_0)
    then show ?thesis using io_okD(2) [OF s(1) Some] Some by (simp add: dio_ok_def alloc_dio_def)
  qed (simp add: alloc_dio_def)
  have bp': "d_bp ?d \<noteq> None" if r: "0 < r ?p"
  proof -
    obtain e where "dio_at h ?p = Some e" "dio_refs e \<noteq> 0" using refs_at_Some [of h ?p] s(3) r by auto
    then show ?thesis using s(2) by (simp add: good_held_def alloc_dio_def)
  qed
  have ok1: "io_ok h1" and at1: "dio_at h1 ?p = Some ?d" using g(1) by (simp_all add: allocated_def)
  have "simulates h' (c(?p := get_bytes opr off (r ?p) (c ?p)), r(?p := r ?p + 1))"
  proof (rule only_at_simulates [OF assms(1) oo d'(1)])
    show "agrees (io_content h' ?p) (get_bytes opr off (r ?p) (c ?p))" if "valid_block h ?p"
      by (rule base_agrees [OF ok1 at1 content]) (use bp bp' allocated_content [OF g(1)] s(4) [OF that] in simp_all)
    show "refs_at h' ?p = r ?p + 1" using d' allocated_refs [OF s(1) room] s(3) [of ?p] by (simp add: refs_at_def)
  qed (use d' in simp)
  then show ?thesis using g(2) oo by (auto simp: only_at_def)
qed

text \<open>Marking a DIO dirty.\<close>

lemma setflags_simulates:
  assumes "simulates h (c, r)" "0 < r p" "f = DIO_DIRTY \<or> f = DIO_DIRTY OR DIO_FLUSH"
  shows "\<exists>h'. dio_setflags f p h = Some h' \<and> same_media h h' \<and> simulates h' (c, r)"
proof -
  note s = simulatesD [OF assms(1)]
  obtain d where d: "dio_at h p = Some d" "dio_refs d \<noteq> 0" using refs_at_Some [of h p] s(3) assms(2) by auto
  let ?f = "\<lambda>d. d\<lparr>d_refs := d_refs d OR f\<rparr>"
  have fl: "(d_refs d OR f) AND DIO_MASK = d_refs d AND DIO_MASK" "(d_refs d OR f) AND DIO_GOOD = d_refs d AND DIO_GOOD" "(d_refs d OR f) AND DIO_DIRTY \<noteq> 0"
    using assms(3) flag_or by (auto simp: bit.conj_disj_distrib2)
  have ok: "dio_ok h p (?f d)" using io_okD(2) [OF s(1) d(1)] fl by (simp add: dio_ok_def dio_flag_def dio_refs_def)
  have refs: "dio_refs (?f d) = dio_refs d" using fl by (simp add: dio_refs_def)
  have o: "only_at p h (dio_set p ?f h)" by (rule only_at_set [OF s(1) d(1)]) (use ok refs in \<open>simp_all add: buf_of_def\<close>)
  have bp: "d_bp d \<noteq> None" using s(2) d by (simp add: good_held_def)
  have "disk_block (dio_set p ?f h) p = disk_block h p" by (rule disk_block_cong) simp_all
  then have "simulates (dio_set p ?f h) (c(p := c p), r(p := r p))"
    by (intro only_at_simulates [OF assms(1) o, of "?f d"])
      (use d bp refs s(3) [of p] s(4) [of p] in \<open>auto simp: io_content_def refs_at_def\<close>)
  then show ?thesis using d(1) by (auto simp: dio_setflags_def)
qed

lemma write_simulates:
  assumes "simulates h (c, r)" "extent_ok h off" "0 < r (pbase_of off)" "in_buffer off (length xs)"
  shows "\<exists>h'. client_write off xs h = Some h' \<and> same_media h h' \<and> simulates h' (spec_step (Write off xs) (c, r))"
proof -
  let ?p = "pbase_of off"
  note s = simulatesD [OF assms(1)]
  obtain d where d: "dio_at h ?p = Some d" "dio_refs d \<noteq> 0" using refs_at_Some [of h ?p] s(3) assms(3) by auto
  then obtain bp where bp: "d_bp d = Some bp" using s(2) by (auto simp: good_held_def)
  have dok: "dio_ok h ?p d" by (rule io_okD(2) [OF s(1) d(1)])
  have len: "length (b_data bp) = HAMMER2_PBUFSIZE" using dok bp by (simp add: dio_ok_def)
  have pos: "hammer2_io_data d off = Some (ext_off off)"
    using dok bp by (intro io_data_off [where bp = bp and i = "d_vol d"]) (auto simp: dio_ok_def)
  let ?f = "\<lambda>d. d\<lparr>d_bp := map_option (\<lambda>bp. bp\<lparr>b_data := write_data off xs (b_data bp)\<rparr>) (d_bp d), d_refs := d_refs d OR DIO_DIRTY\<rparr>"
  have k: "keeps_place ?f" by (simp add: keeps_place_def)
  have w: "client_write off xs h = Some (dio_set ?p ?f h)"
    using d(1) pos by (simp add: client_write_def hammer2_io_setdirty_def dio_setflags_def write_data_def dio_set_dio_set comp_def)
  have lw: "length (write_data off xs (b_data bp)) = HAMMER2_PBUFSIZE" using len assms(4) by (simp add: write_data_def in_buffer_def)
  have ok: "dio_ok h ?p (?f d)" using dok bp lw flag_or by (simp add: dio_ok_def dio_flag_def dio_refs_def)
  have refs: "dio_refs (?f d) = dio_refs d" using flag_or by (simp add: dio_refs_def)
  have o: "only_at ?p h (dio_set ?p ?f h)" by (rule only_at_set [OF s(1) d(1) k]) (use ok refs bp in \<open>simp_all add: buf_of_def\<close>)
  have "simulates (dio_set ?p ?f h) (c(?p := put_bytes off xs (c ?p)), r(?p := r ?p))"
    by (intro only_at_simulates [OF assms(1) o, of "?f d"])
      (use d bp refs k s(3) [of ?p] s(4) [of ?p] in \<open>auto simp: io_content_def refs_at_def agrees_write\<close>)
  then show ?thesis using w by (auto)
qed

text \<open>\<open>hammer2_io_bawrite\<close> and its like: mark, then release.\<close>

lemma bwrite_simulates:
  assumes "simulates h (c, r)" "0 < r p"
  shows "\<exists>h'. hammer2_io_bawrite now hz p h = Some h' \<and> same_media h h' \<and> simulates h' (c, r(p := r p - 1))"
    "\<exists>h'. hammer2_io_bdwrite now hz p h = Some h' \<and> same_media h h' \<and> simulates h' (c, r(p := r p - 1))"
proof -
  have "\<exists>h'. do { h \<leftarrow> dio_setflags f p h; hammer2_io_putblk now hz p h } = Some h' \<and> same_media h h' \<and> simulates h' (c, r(p := r p - 1))"
    if f: "f = DIO_DIRTY \<or> f = DIO_DIRTY OR DIO_FLUSH" for f
  proof -
    obtain h1 where h1: "dio_setflags f p h = Some h1" "same_media h h1" "simulates h1 (c, r)" using setflags_simulates [OF assms f] by blast
    from putblk_simulates [OF simulates_simulates_at [OF h1(3)] assms(2), of now hz] show ?thesis
      using h1(1,2) by (auto simp: same_media_def)
  qed
  from this [of "DIO_DIRTY OR DIO_FLUSH"] this [of DIO_DIRTY]
  show "\<exists>h'. hammer2_io_bawrite now hz p h = Some h' \<and> same_media h h' \<and> simulates h' (c, r(p := r p - 1))"
    "\<exists>h'. hammer2_io_bdwrite now hz p h = Some h' \<and> same_media h h' \<and> simulates h' (c, r(p := r p - 1))"
    unfolding hammer2_io_bawrite_def hammer2_io_bdwrite_def by blast+
qed

text \<open>An allocation, a change of the deduplication masks, and the release.\<close>

lemma dedup_simulates:
  assumes "simulates h (c, r)" "extent_ok h off" "r (pbase_of off) + 1 < 2 ^ 56" "create \<or> dio_at h (pbase_of off) \<noteq> None"
  shows "\<exists>h1 d. hammer2_io_alloc now off btype create h = Some (Some (pbase_of off), h1) \<and> dio_at h1 (pbase_of off) = Some d \<and>
    d_pbase d = pbase_of off \<and> d_psize d = HAMMER2_PBUFSIZE \<and>
    (\<forall>v a. \<exists>h'. hammer2_io_putblk now hz (pbase_of off) (dio_set (pbase_of off) (\<lambda>d. d\<lparr>d_dedup_valid := v, d_dedup_alloc := a\<rparr>) h1) = Some h' \<and>
       same_media h h' \<and> simulates h' (c, r))"
proof -
  let ?p = "pbase_of off" and ?d = "alloc_dio now btype h (pbase_of off)"
  note s = simulatesD [OF assms(1)]
  have room: "room h ?p" using assms(3) s(3) by (simp add: room_refs)
  obtain h1 where a: "hammer2_io_alloc now off btype create h = Some (Some ?p, h1)" "allocated now btype ?p h h1"
    using alloc_ok [OF s(1) assms(2) room assms(4)] by blast
  have at: "dio_at h1 q = (if q = ?p then Some ?d else dio_at h q)" for q using a(2) by (simp add: allocated_def)
  have ok1: "io_ok h1" and m: "same_media h h1" using a(2) by (simp_all add: allocated_def)
  have atp: "dio_at h1 ?p = Some ?d" using at by simp
  have dok: "dio_ok h1 ?p ?d" by (rule io_okD(2) [OF ok1 atp])
  have refs: "unat (dio_refs ?d) = r ?p + 1" using allocated_refs [OF s(1) room] s(3) by simp
  have "\<exists>h'. hammer2_io_putblk now hz ?p (dio_set ?p (\<lambda>d. d\<lparr>d_dedup_valid := v, d_dedup_alloc := a\<rparr>) h1) = Some h' \<and> same_media h h' \<and> simulates h' (c, r)" for v a
  proof -
    let ?f = "\<lambda>d. d\<lparr>d_dedup_valid := v, d_dedup_alloc := a\<rparr>"
    let ?h2 = "dio_set ?p ?f h1"
    have fd: "dio_ok h1 ?p (?f ?d)" "dio_refs (?f ?d) = dio_refs ?d" using dok by (simp_all add: dio_ok_def dio_flag_def dio_refs_def)
    have o: "only_at ?p h1 ?h2" by (rule only_at_set [OF ok1 atp]) (use fd in \<open>simp_all add: buf_of_def\<close>)
    have at2: "dio_at ?h2 q = (if q = ?p then Some (?f ?d) else dio_at h q)" for q using at by simp
    have "disk_block ?h2 ?p = disk_block h1 ?p" by (rule disk_block_cong) simp_all
    then have "io_content ?h2 ?p = io_content h1 ?p" using atp by (simp add: io_content_def cong: option.case_cong)
    then have content: "io_content ?h2 q = io_content h q" for q
      using only_at_content [OF o, of q] allocated_content [OF a(2)] by (cases "q = ?p") simp_all
    have "simulates_at ?p ?h2 (c, r(?p := r ?p + 1))" unfolding simulates_at_def
    proof (intro conjI allI impI)
      show "io_ok ?h2" using o by (simp add: only_at_def)
      show "refs_at ?h2 q = snd (c, r(?p := r ?p + 1)) q" for q using at2 fd(2) refs s(3) [of q] by (simp add: refs_at_def)
      have "valid_block ?h2 q = valid_block h q" for q using m by (intro valid_block_cong) simp
      then show "agrees (io_content ?h2 q) (fst (c, r(?p := r ?p + 1)) q)" if "valid_block ?h2 q" for q using content s(4) that by simp
      fix q d assume d: "dio_at ?h2 q = Some d" "dio_refs d \<noteq> 0"
      show "d_bp d \<noteq> None \<or> q = ?p \<and> unat (dio_refs d) = 1"
      proof (cases "q = ?p")
        case True
        then have "d = ?f ?d" using d(1) at2 by simp
        moreover have "d_bp ?d \<noteq> None" if rp: "0 < r ?p"
        proof -
          obtain e where e: "dio_at h ?p = Some e" "dio_refs e \<noteq> 0" using refs_at_Some [of h ?p] s(3) rp by auto
          then show ?thesis using s(2) by (simp add: alloc_dio_def good_held_def)
        qed
        ultimately show ?thesis using True fd(2) refs by auto
      next
        case False
        then show ?thesis using d at2 s(2) by (simp add: good_held_def)
      qed
    qed
    from putblk_simulates [OF this, of now hz] show ?thesis using m by (auto simp: same_media_def)
  qed
  then show ?thesis using a(1) atp dok dio_at_pbase [OF atp] by (auto simp: dio_ok_def)
qed

lemma unat_lbase:
  "unat (off AND NOT HAMMER2_OFF_MASK_RADIX) = unat (pbase_of off) + ext_off off" "unat (pbase_of off) mod 2 ^ 16 = 0"
proof -
  have m: "HAMMER2_PBUFMASK = (mask 16 :: u64)" by (simp add: mask_eq_exp_minus_1)
  let ?l = "off AND NOT HAMMER2_OFF_MASK_RADIX"
  have p: "unat (pbase_of off) = unat ?l - unat ?l mod 2 ^ 16" unfolding pbase_of_def m by (rule unat_and_not_mask)
  moreover have "ext_off off = unat ?l mod 2 ^ 16" unfolding ext_off_def m by (rule unat_and_mask)
  moreover have "x mod 2 ^ 16 \<le> x" "(x - x mod 2 ^ 16) mod 2 ^ 16 = 0" for x :: nat by (simp_all add: minus_mod_eq_mult_div)
  ultimately show "unat ?l = unat (pbase_of off) + ext_off off" "unat (pbase_of off) mod 2 ^ 16 = 0" by (simp_all only: le_add_diff_inverse2)
qed

lemma delete_in_range:
  assumes "in_buffer off bytes" "pbase_of off \<noteq> 0xFFFFFFFFFFFF0000"
  shows "\<not> off < pbase_of off" "\<not> pbase_of off + word_of_nat HAMMER2_PBUFSIZE < (off AND NOT HAMMER2_OFF_MASK_RADIX) + word_of_nat bytes"
proof -
  let ?l = "off AND NOT HAMMER2_OFF_MASK_RADIX"
  have m: "HAMMER2_OFF_MASK_RADIX = (mask 6 :: u64)" by (simp add: mask_eq_exp_minus_1)
  have "unat ?l \<le> unat off" unfolding m unat_and_not_mask by simp
  then show "\<not> off < pbase_of off" using unat_lbase(1) [of off] by (simp add: word_less_nat_alt)
  have "unat (pbase_of off) \<noteq> 0xFFFFFFFFFFFF0000" using assms(2) by (simp add: word_unat_eq_iff)
  moreover have "unat (pbase_of off) < 2 ^ 64" using unsigned_less [of "pbase_of off"] by simp
  moreover obtain k where "unat (pbase_of off) = 65536 * k" using unat_lbase(2) [of off] by auto
  ultimately have lt: "unat (pbase_of off) + 65536 < 2 ^ 64" by simp
  have b: "ext_off off + bytes \<le> 65536" using assms(1) by (simp add: in_buffer_def)
  have "unat (pbase_of off + word_of_nat HAMMER2_PBUFSIZE) = unat (pbase_of off) + 65536" using lt by (simp add: unat_word_ariths)
  moreover have "unat (?l + word_of_nat bytes) = unat ?l + bytes"
  proof -
    have "unat (word_of_nat bytes :: u64) = bytes" using b by (simp add: unat_of_nat)
    moreover have "unat ?l + bytes < 2 ^ 64" using unat_lbase(1) [of off] b lt by linarith
    ultimately show ?thesis by (simp add: unat_word_ariths)
  qed
  ultimately show "\<not> pbase_of off + word_of_nat HAMMER2_PBUFSIZE < ?l + word_of_nat bytes"
    using unat_lbase(1) [of off] b by (simp add: word_less_nat_alt)
qed

lemma dedup_set_simulates:
  assumes "simulates h (c, r)" "step_ok h (DedupSet bref) r"
  shows "\<exists>h'. hammer2_io_dedup_set now hz bref h = Some h' \<and> same_media h h' \<and> simulates h' (c, r)"
proof -
  let ?off = "br_data_off bref"
  from dedup_simulates [OF assms(1), of ?off True now "br_type bref" hz] assms(2) obtain h1 d
    where a: "hammer2_io_alloc now ?off (br_type bref) True h = Some (Some (pbase_of ?off), h1)" "dio_at h1 (pbase_of ?off) = Some d"
    and put: "\<And>v a. \<exists>h'. hammer2_io_putblk now hz (pbase_of ?off) (dio_set (pbase_of ?off) (\<lambda>d. d\<lparr>d_dedup_valid := v, d_dedup_alloc := a\<rparr>) h1) = Some h' \<and>
       same_media h h' \<and> simulates h' (c, r)" by auto
  define mask where "mask = hammer2_dedup_mask d ?off (nat (off_size ?off))"
  have "dio_set (pbase_of ?off) (\<lambda>d. d\<lparr>d_dedup_valid := d_dedup_valid d AND NOT mask, d_dedup_alloc := d_dedup_alloc d OR mask\<rparr>) h1 =
      dio_set (pbase_of ?off) (\<lambda>x. x\<lparr>d_dedup_valid := d_dedup_valid d AND NOT mask, d_dedup_alloc := d_dedup_alloc d OR mask\<rparr>) h1"
    by (rule dio_set_cong [OF a(2)]) simp
  then show ?thesis using put a by (simp add: hammer2_io_dedup_set_def Let_def mask_def [symmetric])
qed

lemma dedup_delete_simulates:
  assumes "simulates h (c, r)" "step_ok h (DedupDelete btype off bytes) r"
  shows "\<exists>h'. hammer2_io_dedup_delete now hz btype off bytes h = Some h' \<and> same_media h h' \<and> simulates h' (c, r)"
proof (cases "off AND NOT HAMMER2_OFF_MASK_RADIX = 0 \<or> btype \<noteq> BREF_DATA")
  case True
  then show ?thesis using assms(1) by (auto simp: hammer2_io_dedup_delete_def)
next
  case c: False
  show ?thesis
  proof (cases "dio_at h (pbase_of off)")
    case None
    then show ?thesis using alloc_new(1) [OF simulatesD(1) [OF assms(1)] _ None, of now btype] assms c by (simp add: hammer2_io_dedup_delete_def)
  next
    case (Some d0)
    from dedup_simulates [OF assms(1), of off False now btype hz] assms(2) Some obtain h1 d
      where a: "hammer2_io_alloc now off btype False h = Some (Some (pbase_of off), h1)" "dio_at h1 (pbase_of off) = Some d" "d_pbase d = pbase_of off" "d_psize d = HAMMER2_PBUFSIZE"
      and put: "\<And>v a. \<exists>h'. hammer2_io_putblk now hz (pbase_of off) (dio_set (pbase_of off) (\<lambda>d. d\<lparr>d_dedup_valid := v, d_dedup_alloc := a\<rparr>) h1) = Some h' \<and>
         same_media h h' \<and> simulates h' (c, r)" by auto
    define mask where "mask = hammer2_dedup_mask d off bytes"
    have "dio_set (pbase_of off) (\<lambda>d. d\<lparr>d_dedup_alloc := d_dedup_alloc d AND NOT mask, d_dedup_valid := d_dedup_valid d AND NOT mask\<rparr>) h1 =
        dio_set (pbase_of off) (\<lambda>x. x\<lparr>d_dedup_valid := d_dedup_valid d AND NOT mask, d_dedup_alloc := d_dedup_alloc d AND NOT mask\<rparr>) h1"
      by (rule dio_set_cong [OF a(2)]) simp
    moreover have "\<not> (off < d_pbase d \<or> d_pbase d + word_of_nat (d_psize d) < (off AND NOT HAMMER2_OFF_MASK_RADIX) + word_of_nat bytes)"
      unfolding a(3,4) using delete_in_range [of off bytes] assms(2) by simp
    ultimately show ?thesis using put [where v = "d_dedup_valid d AND NOT mask" and a = "d_dedup_alloc d AND NOT mask"] a c
      by (simp only: hammer2_io_dedup_delete_def Let_def mask_def [symmetric] if_False Option.bind.simps option.case prod.case de_Morgan_disj simp_thms)
  qed
qed

section \<open>Runs\<close>

lemma io_step_simulates:
  assumes "simulates h cr" "step_ok h (snd x) (snd cr)" "\<And>v l. io_rderr h v l = 0"
  shows "\<exists>h'. io_step hz x h = Some h' \<and> same_media h h' \<and> simulates h' (spec_step (snd x) cr)"
proof -
  obtain now opn where x: "x = (now, opn)" by (cases x)
  obtain c r where cr: "cr = (c, r)" by (cases cr)
  note a = assms [unfolded x cr snd_conv]
  note step = io_step_def prod.case io_op.case
  show ?thesis unfolding x cr
  proof (cases opn)
    case (Getblk btype opr off)
    from getblk_simulates [OF a(1) _ _ _ a(3), of off opr now btype] a(2)
    show "\<exists>h'. io_step hz (now, opn) h = Some h' \<and> same_media h h' \<and> simulates h' (spec_step (snd (now, opn)) (c, r))" by (auto simp: Getblk step)
  next
    case (Write off xs)
    from write_simulates [OF a(1), of off xs] a(2)
    show "\<exists>h'. io_step hz (now, opn) h = Some h' \<and> same_media h h' \<and> simulates h' (spec_step (snd (now, opn)) (c, r))" by (auto simp: Write step)
  next
    case (Putblk p)
    from putblk_simulates [OF simulates_simulates_at [OF a(1)], of p now hz] a(2)
    show "\<exists>h'. io_step hz (now, opn) h = Some h' \<and> same_media h h' \<and> simulates h' (spec_step (snd (now, opn)) (c, r))" by (auto simp: Putblk step)
  next
    case (Baw p)
    from bwrite_simulates(1) [OF a(1), of p now hz] a(2)
    show "\<exists>h'. io_step hz (now, opn) h = Some h' \<and> same_media h h' \<and> simulates h' (spec_step (snd (now, opn)) (c, r))" by (auto simp: Baw step)
  next
    case (Bdw p)
    from bwrite_simulates(2) [OF a(1), of p now hz] a(2)
    show "\<exists>h'. io_step hz (now, opn) h = Some h' \<and> same_media h h' \<and> simulates h' (spec_step (snd (now, opn)) (c, r))" by (auto simp: Bdw step)
  next
    case (DedupSet bref)
    from dedup_set_simulates [OF a(1), of bref now hz] a(2)
    show "\<exists>h'. io_step hz (now, opn) h = Some h' \<and> same_media h h' \<and> simulates h' (spec_step (snd (now, opn)) (c, r))" by (auto simp: DedupSet step)
  next
    case (DedupDelete btype off bytes)
    from dedup_delete_simulates [OF a(1), of btype off bytes now hz] a(2)
    show "\<exists>h'. io_step hz (now, opn) h = Some h' \<and> same_media h h' \<and> simulates h' (spec_step (snd (now, opn)) (c, r))" by (auto simp: DedupDelete step)
  next
    case (Cleanup limit)
    from hash_cleanup_shrinks [OF simulatesD(1) [OF a(1)], of now hz limit]
    show "\<exists>h'. io_step hz (now, opn) h = Some h' \<and> same_media h h' \<and> simulates h' (spec_step (snd (now, opn)) (c, r))"
      using shrinks_simulates [OF a(1)] by (auto simp: Cleanup step)
  qed
qed

lemma io_run_simulates:
  assumes "simulates h cr" "run_ok h xs cr" "\<And>v l. io_rderr h v l = 0"
  shows "\<exists>h'. io_run hz xs h = Some h' \<and> same_media h h' \<and> simulates h' (spec_run xs cr)"
  using assms
proof (induction xs arbitrary: h cr)
  case Nil
  then show ?case by (simp add: spec_run_def)
next
  case (Cons x xs)
  then obtain h1 where h1: "io_step hz x h = Some h1" "same_media h h1" "simulates h1 (spec_step (snd x) cr)"
    using io_step_simulates [OF Cons.prems(1) _ Cons.prems(3), of x hz] by auto
  have "run_ok h1 xs (spec_step (snd x) cr)" using Cons.prems(2) run_ok_cong [OF h1(2)] by simp
  moreover have "io_rderr h1 v l = 0" for v l using h1(2) Cons.prems(3) by (simp add: same_media_def)
  ultimately obtain h' where "io_run hz xs h1 = Some h'" "same_media h1 h'" "simulates h' (spec_run xs (spec_step (snd x) cr))"
    using Cons.IH [OF h1(3)] by blast
  then show ?case using h1(1,2) by (auto simp: spec_run_def same_media_def)
qed

text \<open>A table as after the mount.\<close>

definition io_fresh :: "iodev \<Rightarrow> bool" where
  "io_fresh h \<longleftrightarrow> io_hash h = (\<lambda>_. []) \<and> io_free_count h = 0 \<and> io_held h = {} \<and> (\<forall>v l. length (io_blocks h v l) = HAMMER2_PBUFSIZE) \<and>
     (\<forall>n v l. length (io_getblk h n v l) = HAMMER2_PBUFSIZE)"

lemma io_fresh_simulates:
  assumes "io_fresh h"
  shows "simulates h (map Some \<circ> disk_block h, \<lambda>_. 0)"
proof -
  have at: "dio_at h p = None" for p using assms by (simp add: io_fresh_def dio_at_def)
  then show ?thesis using assms
    by (simp add: simulates_def io_ok_def good_held_def refs_at_def io_content_def frees_def held_by_def table_ok_def io_fresh_def agrees_all)
qed

lemma free_content:
  assumes "io_ok h" "refs_at h p = 0"
  shows "disk_block h p = io_content h p"
proof (cases "dio_at h p")
  case (Some d)
  then have "dio_refs d = 0" using assms(2) by (simp add: refs_at_def unat_eq_0)
  then show ?thesis using io_okD(2) [OF assms(1) Some] Some by (simp add: io_content_def dio_ok_def)
qed (simp add: io_content_def)

text \<open>C28: The device cache is transparent.  From a fresh table on a device without read errors, every run of
clients that stay inside the buffers of the media and release what they hold passes all assertions, the reference
counts are the numbers of handles, and every byte that the abstract memory defines is what a client sees of its
buffer, and what is on the device when the buffer has no handles: nothing written is lost by a release or by the
cleaning of the table.  All bytes are defined at the start; those of a whole buffer become undefined when it is taken
with \<open>DOP_NEWNZ\<close> while nobody holds it, whatever the device has, and are defined again as they are written.\<close>

theorem io_cache_transparent:
  assumes "io_fresh h" "\<forall>v l. io_rderr h v l = 0" "run_ok h xs (map Some \<circ> disk_block h, \<lambda>_. 0)"
    and "spec_run xs (map Some \<circ> disk_block h, \<lambda>_. 0) = (c, r)"
  shows "\<exists>h'. io_run hz xs h = Some h' \<and> io_ok h' \<and> (\<forall>p. refs_at h' p = r p) \<and>
    (\<forall>p. valid_block h p \<longrightarrow> agrees (io_content h' p) (c p) \<and> (r p = 0 \<longrightarrow> agrees (disk_block h' p) (c p)))"
proof -
  obtain h' where h': "io_run hz xs h = Some h'" "same_media h h'" "simulates h' (c, r)"
    using io_run_simulates [OF io_fresh_simulates [OF assms(1)] assms(3), where hz = hz] assms(2) unfolding assms(4) by blast
  note s = simulatesD [OF h'(3)]
  have "agrees (disk_block h' p) (c p)" if "valid_block h p" "r p = 0" for p
    using free_content [OF s(1), of p] s(3,4) [of p] that valid_block_cong [OF h'(2)] by simp
  then show ?thesis using h' s valid_block_cong [OF h'(2)] by blast
qed

definition example_io :: iodev where
  "example_io = \<lparr>io_hash = \<lambda>_. [], io_free_count = 0, io_iterator = 0, io_allocated = 0, io_limit = 256,
     io_volumes = [\<lparr>v_dev = Some (disk_of (replicate HAMMER2_PBUFSIZE 0)), v_offset = 0, v_size = 0x40000000, v_id = 0\<rparr>], io_nvolumes = 1,
     io_blocks = \<lambda>_ _. replicate HAMMER2_PBUFSIZE 7, io_rderr = \<lambda>_ _. 0, io_getblk = \<lambda>_ _ _. replicate HAMMER2_PBUFSIZE 5, io_held = {}, io_log = []\<rparr>"

lemma example_io_volume: "hammer2_get_volume (io_volumes example_io) (io_nvolumes example_io) 0x1000000 = Some 0"
  by (simp add: hammer2_get_volume_def example_io_def)

lemma example_extent: "extent_ok example_io 0x100000A" "pbase_of 0x100000A = 0x1000000" "ext_off 0x100000A = 0"
proof -
  show p: "pbase_of 0x100000A = 0x1000000" by (simp add: pbase_of_def)
  show "ext_off 0x100000A = 0" by (simp add: ext_off_def)
  have "place_ok example_io 0x1000000 0 (v_offset (io_volumes example_io ! 0))"
    using example_io_volume by (simp add: place_ok_def) (simp add: example_io_def)
  then show "extent_ok example_io 0x100000A" using example_io_volume by (simp add: extent_ok_def p off_size_def)
qed

text \<open>A new extent of 1 KB is taken, written and released: its block has the bytes, zeros, and then the old bytes.\<close>

theorem io_cache_transparent_witness:
  "\<exists>h'. io_run 100 [(0, Getblk 3 DOP_NEW 0x100000A), (0, Write 0x100000A [1, 2, 3]), (0, Bdw 0x1000000)] example_io = Some h' \<and>
     disk_block h' 0x1000000 = [1, 2, 3] @ replicate 1021 0 @ replicate 64512 7"
proof -
  let ?xs = "[(0, Getblk 3 DOP_NEW 0x100000A), (0, Write 0x100000A [1, 2, 3]), (0, Bdw 0x1000000)]"
  have fresh: "io_fresh example_io" and noerr: "\<forall>v l. io_rderr example_io v l = 0" by (simp_all add: io_fresh_def example_io_def)
  have ok: "run_ok example_io ?xs (map Some \<circ> disk_block example_io, \<lambda>_. 0)" using example_extent by (simp add: in_buffer_def)
  have blk: "disk_block example_io 0x1000000 = replicate HAMMER2_PBUFSIZE 7" using example_io_volume by (simp add: disk_block_def) (simp add: example_io_def)
  obtain c r where cr: "spec_run ?xs (map Some \<circ> disk_block example_io, \<lambda>_. 0) = (c, r)"
    by (cases "spec_run ?xs (map Some \<circ> disk_block example_io, \<lambda>_. 0)")
  then have "r 0x1000000 = 0" "c 0x1000000 = put_bytes 0x100000A [1, 2, 3] (get_bytes DOP_NEW 0x100000A 0 (map Some (disk_block example_io 0x1000000)))"
    using example_extent(2) by (auto simp: spec_run_def)
  then have "r 0x1000000 = 0" "c 0x1000000 = map Some [1, 2, 3] @ replicate 1021 (Some 0) @ replicate 64512 (Some 7)"
    using example_extent(3) blk by (simp_all add: put_bytes_def get_bytes_def)
  then have c: "r 0x1000000 = 0" "c 0x1000000 = map Some ([1, 2, 3] @ replicate 1021 0 @ replicate 64512 7)" by simp_all
  have "valid_block example_io 0x1000000" using example_io_volume example_extent by (simp add: valid_block_def extent_ok_def)
  moreover obtain h' where h': "io_run 100 ?xs example_io = Some h'"
      "\<forall>p. valid_block example_io p \<longrightarrow> agrees (io_content h' p) (c p) \<and> (r p = 0 \<longrightarrow> agrees (disk_block h' p) (c p))"
    using io_cache_transparent [OF fresh noerr ok cr, of 100] by blast
  ultimately have "agrees (disk_block h' 0x1000000) (c 0x1000000)" using c(1) by blast
  then show ?thesis using h'(1) unfolding c(2) agrees_all by blast
qed

section \<open>Errors\<close>

lemma putblk_ok:
  assumes "io_ok h" "dio_at h p = Some d" "dio_refs d \<noteq> 0"
  shows "\<exists>h'. hammer2_io_putblk now hz p h = Some h' \<and> io_ok h' \<and> refs_at h' p = refs_at h p - 1"
proof (cases "unat (dio_refs d) = 1")
  case True
  note l = last_state_ok(1,2) [OF assms(1,2) True]
  obtain h' where h': "putblk_limit now hz (last_state p d h) = Some h'" "shrinks (last_state p d h) h'"
    using putblk_limit_shrinks [OF l(1)] by blast
  then have "io_ok h'" "refs_at h' p = 0" using l(2) shrinks_refs [OF h'(2)] by (simp_all add: shrinks_def)
  then show ?thesis using drop_dispose [OF assms(1,2) True] h'(1) assms(2) True by (simp add: refs_at_def [of h])
next
  case False
  moreover have "unat (dio_refs d) \<noteq> 0" using assms(3) by (simp add: unat_eq_0)
  ultimately have "1 < unat (dio_refs d)" by linarith
  from putblk_more [OF assms(1,2) this, of now hz] show ?thesis by (auto simp: only_at_def)
qed

text \<open>C29: The error that \<open>hammer2_io_bread\<close> and its like (all but the cached read, \<open>DOP_READQ\<close>) return is exact: it is there when no buffer was cached, the
device fails the block, and the operation is not a new whole block.  Then the handle has no buffer, no client sees
other bytes, and the release of the handle still works.  Else the handle has its buffer, with the bytes of the extent
zero after \<open>DOP_NEW\<close> and no other byte changed, with one exception: \<open>DOP_NEWNZ\<close> of a whole block without a cached buffer has the arbitrary bytes of \<open>getblk\<close> in place of
those of the device.\<close>

theorem io_getblk_error_exact:
  assumes "io_ok h" "extent_ok h off" "room h (pbase_of off)" "opr \<noteq> DOP_READQ"
  shows "\<exists>h' d. hammer2_io_getblk now btype off (2 ^ unat (off AND HAMMER2_OFF_MASK_RADIX)) opr h = Some (Some (pbase_of off), h') \<and>
    io_ok h' \<and> dio_at h' (pbase_of off) = Some d \<and> refs_at h' (pbase_of off) = refs_at h (pbase_of off) + 1 \<and>
    (d_error d \<noteq> 0 \<longleftrightarrow> d_bp d = None) \<and>
    (d_error d \<noteq> 0 \<longleftrightarrow> read_fails h opr off (alloc_dio now btype h (pbase_of off))) \<and>
    io_content h' (pbase_of off) =
      (if d_error d \<noteq> 0 then io_content h (pbase_of off)
       else if d_bp (alloc_dio now btype h (pbase_of off)) = None \<and> opr = DOP_NEWNZ \<and> whole_ext off
         then io_getblk h (length (io_log h)) (d_vol d) (lblk (pbase_of off) (d_dbase d))
       else new_data opr off (io_content h (pbase_of off))) \<and>
    (\<forall>q. q \<noteq> pbase_of off \<longrightarrow> dio_at h' q = dio_at h q \<and> io_content h' q = io_content h q) \<and>
    (\<exists>h2. hammer2_io_putblk now' hz (pbase_of off) h' = Some h2 \<and> io_ok h2 \<and> refs_at h2 (pbase_of off) = refs_at h (pbase_of off))"
proof -
  let ?p = "pbase_of off" and ?d = "alloc_dio now btype h (pbase_of off)"
  from getblk_all [OF assms(1-3) disjI1 [OF assms(4)], of now btype] assms(4) obtain h1 h'
    where g: "allocated now btype ?p h h1" "hammer2_io_getblk now btype off (2 ^ unat (off AND HAMMER2_OFF_MASK_RADIX)) opr h = Some (Some ?p, h')"
      "getblk_ok h1 opr off ?d h'" by auto
  have f: "read_fails h1 opr off ?d = read_fails h opr off ?d" using g(1) by (simp add: allocated_def same_media_def read_fails_def)
  from g(3) [unfolded getblk_ok_def f] obtain d where d: "dio_at h' ?p = Some d" "dio_refs d = dio_refs ?d"
    "d_error d \<noteq> 0 \<longleftrightarrow> read_fails h opr off ?d" "d_bp d = None \<longleftrightarrow> read_fails h opr off ?d" by (elim conjE exE)
  have refs: "refs_at h' ?p = refs_at h ?p + 1" using d allocated_refs [OF assms(1,3)] by (simp add: refs_at_def [of h'])
  have o: "only_at ?p h h'" using only_at_trans [OF allocated_only_at [OF g(1)]] g(3) by (simp add: getblk_ok_def)
  have ok1: "io_ok h1" and at1: "dio_at h1 ?p = Some ?d" and m: "io_getblk h1 = io_getblk h" "io_log h1 = io_log h"
    using g(1) by (simp_all add: allocated_def same_media_def)
  have oh: "same_media h1 h'" "io_ok h'" using g(3) by (simp_all add: getblk_ok_def only_at_def)
  have "place_ok h1 ?p (d_vol ?d) (d_dbase ?d)" "place_ok h' ?p (d_vol d) (d_dbase d)"
    using io_okD(2) [OF ok1 at1] io_okD(2) [OF oh(2) d(1)] by (simp_all add: dio_ok_def)
  then have pl: "d_vol d = d_vol ?d" "d_dbase d = d_dbase ?d" unfolding place_ok_cong [OF oh(1)] by (auto simp: place_ok_def)
  have "d_bp ?d \<noteq> None \<or> disk_block h1 ?p = io_content h ?p"
    using at1 allocated_content [OF g(1), of ?p] by (cases "d_bp ?d") (simp_all add: io_content_def [of h1])
  then have content: "io_content h' ?p = (if d_error d \<noteq> 0 then io_content h ?p
       else if d_bp ?d = None \<and> opr = DOP_NEWNZ \<and> whole_ext off then io_getblk h (length (io_log h)) (d_vol d) (lblk ?p (d_dbase d))
       else new_data opr off (io_content h ?p))"
    using g(3) d(3) allocated_content [OF g(1)] m pl unfolding getblk_ok_def f base_data_def fill_data_def new_data_def by auto
  have "dio_refs d \<noteq> 0" using refs d(1) by (auto simp: refs_at_def)
  from putblk_ok [OF oh(2) d(1) this, of now' hz]
  have put: "\<exists>h2. hammer2_io_putblk now' hz ?p h' = Some h2 \<and> io_ok h2 \<and> refs_at h2 ?p = refs_at h ?p" using refs by simp
  have "io_ok h'" "\<forall>q. q \<noteq> ?p \<longrightarrow> dio_at h' q = dio_at h q \<and> io_content h' q = io_content h q"
    using o only_at_content [OF o] by (simp_all add: only_at_def)
  moreover have "d_error d \<noteq> 0 \<longleftrightarrow> d_bp d = None" using d(3,4) by simp
  ultimately show ?thesis using g(2) d(1,3) refs content put by - (rule exI [of _ h'], rule exI [of _ d], intro conjI)
qed

theorem io_getblk_error_exact_witness:
  "\<exists>h' d. hammer2_io_getblk 5 3 0x100000A 1024 DOP_NEW (example_io\<lparr>io_rderr := \<lambda>_ _. 5\<rparr>) = Some (Some 0x1000000, h') \<and>
     dio_at h' 0x1000000 = Some d \<and> d_error d \<noteq> 0 \<and> d_bp d = None \<and> refs_at h' 0x1000000 = 1"
proof -
  let ?h = "example_io\<lparr>io_rderr := \<lambda>_ _. 5\<rparr>"
  have fresh: "io_fresh ?h" by (simp add: io_fresh_def example_io_def)
  have ok: "io_ok ?h" by (rule simulatesD(1) [OF io_fresh_simulates [OF fresh]])
  have at: "dio_at ?h p = None" for p by (simp add: dio_at_def example_io_def)
  have ext: "extent_ok ?h 0x100000A" using example_extent(1) by (simp add: extent_ok_def place_ok_def cong: option.case_cong)
  have room: "room ?h (pbase_of 0x100000A)" by (simp add: room_def at)
  have "d_bp (alloc_dio 5 3 ?h 0x1000000) = None" using at by (simp add: alloc_dio_def)
  then have "read_fails ?h DOP_NEW 0x100000A (alloc_dio 5 3 ?h 0x1000000)" by (simp add: read_fails_def whole_ext_def off_size_def)
  moreover have opn: "DOP_NEW \<noteq> DOP_READQ" by simp
  moreover obtain h' d where "hammer2_io_getblk 5 3 0x100000A (2 ^ unat ((0x100000A :: h2_off) AND HAMMER2_OFF_MASK_RADIX)) DOP_NEW ?h = Some (Some 0x1000000, h')"
      "dio_at h' 0x1000000 = Some d" "refs_at h' 0x1000000 = refs_at ?h 0x1000000 + 1" "d_error d \<noteq> 0 \<longleftrightarrow> d_bp d = None"
      "d_error d \<noteq> 0 \<longleftrightarrow> read_fails ?h DOP_NEW 0x100000A (alloc_dio 5 3 ?h 0x1000000)"
    using io_getblk_error_exact [OF ok ext room opn, of 5 3 0 0, unfolded example_extent(2)] by (elim exE conjE) (rule that; assumption)
  moreover have "refs_at ?h 0x1000000 = 0" using at by (simp add: refs_at_def)
  ultimately show ?thesis by auto
qed

text \<open>The cleaning of the table takes no lock of a DIO.\<close>

lemma cleanup_bucket_held:
  "d \<in> set ds \<Longrightarrow> dio_refs d = 0 \<Longrightarrow> d_act (dio_decay now hz d) = 0 \<Longrightarrow> d_bp d \<noteq> None \<Longrightarrow> cleanup_bucket now hz ds = None"
proof (induction ds)
  case (Cons e ds)
  show ?case
  proof (cases "e = d")
    case True
    then show ?thesis using Cons.prems with_act_fields(3) [OF with_act_decay [of d now hz]] by (auto simp: Let_def)
  next
    case False
    then have "cleanup_bucket now hz ds = None" using Cons by auto
    then show ?thesis by (auto simp: Let_def bind_eq_None_conv)
  qed
qed simp

text \<open>C30: The release of a DIO races with the cleaning of the table.  After the last reference is dropped, and
before the buffer is detached, another thread that holds only the lock of the table may clean: when the DIO has
not been used for long and its bucket is next, the assertion \<open>dio->bp == NULL\<close> of the cleaning fails, in a state
that satisfies the invariant of the table before the drop.\<close>

theorem io_putblk_cleanup_race:
  assumes "io_ok h" "dio_at h p = Some d" "refs_at h p = 1" "d_bp d \<noteq> None" "d_act (dio_decay now hz d) = 0"
    and "io_iterator h AND HAMMER2_IOHASH_MASK = hammer2_io_hashv p" "limit < io_free_count h + 32"
  shows "(\<exists>h'. hammer2_io_hash_cleanup now hz limit h = Some h' \<and> io_ok h') \<and>
    (\<exists>h1. putblk_drop p h = Some (Some (d_refs d), h1) \<and> hammer2_io_hash_cleanup now hz limit h1 = None)"
proof (intro conjI exI)
  from hash_cleanup_shrinks [OF assms(1), of now hz limit] show "hammer2_io_hash_cleanup now hz limit h = Some (the (hammer2_io_hash_cleanup now hz limit h))"
    by auto
  from hash_cleanup_shrinks [OF assms(1), of now hz limit] show "io_ok (the (hammer2_io_hash_cleanup now hz limit h))"
    by (auto simp: shrinks_def)
  let ?f = "\<lambda>d. d\<lparr>d_refs := (d_refs d - 1) AND NOT (DIO_GOOD OR DIO_DIRTY)\<rparr>"
  let ?h1 = "dio_set p ?f h" and ?b = "hammer2_io_hashv p"
  have r: "unat (dio_refs d) = 1" using assms(2,3) by (simp add: refs_at_def)
  then have "dio_refs d = 1" by (simp add: word_unat_eq_iff)
  then show "putblk_drop p h = Some (Some (d_refs d), ?h1)" using assms(2) by (simp add: putblk_drop_def Let_def)
  have "unat (d_refs d) mod 2 ^ 56 = 1" using r by (simp add: dio_refs_eq)
  then have "dio_refs (?f d) = 0" using refs_last(1) by (simp add: dio_refs_def)
  moreover have "dio_at ?h1 p = Some (?f d)" using assms(2) by simp
  then have "?f d \<in> set (io_hash ?h1 ?b)" unfolding dio_at_def by (rule dio_find_Some [THEN conjunct1])
  moreover have "d_act (dio_decay now hz (?f d)) = 0" using assms(5) by (simp add: dio_decay_def Let_def split: if_splits)
  ultimately have none: "cleanup_bucket now hz (io_hash ?h1 ?b) = None" using assms(4) by (intro cleanup_bucket_held [where d = "?f d"]) simp_all
  have it: "io_iterator ?h1 = io_iterator h" by (simp add: dio_set_def)
  have "cleanup_loop now hz (Suc n) (io_iterator h) count [] (?h1\<lparr>io_iterator := i\<rparr>) = None" if "0 < count" for n count i
    using that none unfolding cleanup_loop.simps [of now hz "Suc n"] by (simp add: assms(6))
  from this [of _ 1023] show "hammer2_io_hash_cleanup now hz limit ?h1 = None" using assms(7) it by (simp add: hammer2_io_hash_cleanup_def Let_def)
qed

definition example_dio :: dio where
  "example_dio = \<lparr>d_vol = 0, d_bp = Some \<lparr>b_lblkno = 32768, b_data = replicate HAMMER2_PBUFSIZE 7\<rparr>, d_dbase = 0, d_pbase = 0x1000000,
     d_refs = 0x4000000000000001, d_psize = HAMMER2_PBUFSIZE, d_act = 6, d_btype = 3, d_ticks = 0, d_error = 0, d_dedup_valid = 0, d_dedup_alloc = 0\<rparr>"

definition example_held :: iodev where
  "example_held = example_io\<lparr>io_hash := (\<lambda>_. [])(256 := [example_dio]), io_held := {(0, 32768)}, io_iterator := 256\<rparr>"

lemma example_hashv: "hammer2_io_hashv 0x1000000 = 256"
  by (simp add: hammer2_io_hashv_def)

lemma example_held_ok: "io_ok example_held" "dio_at example_held p = (if p = 0x1000000 then Some example_dio else None)"
proof -
  have pb: "d_pbase example_dio = 0x1000000" by (simp add: example_dio_def)
  show at: "dio_at example_held p = (if p = 0x1000000 then Some example_dio else None)" for p
    using pb by (auto simp: dio_at_def example_held_def example_hashv)
  have m: "same_media example_io example_held" by (simp add: same_media_def example_held_def)
  have "place_ok example_io 0x1000000 0 0"
    using example_io_volume by (simp add: place_ok_def) (simp add: example_io_def)
  then have pl: "place_ok example_held 0x1000000 0 0" using place_ok_cong [OF m] by simp
  have blocks: "io_blocks example_held = (\<lambda>_ _. replicate HAMMER2_PBUFSIZE 7)" by (simp add: example_held_def example_io_def)
  have refs: "dio_refs example_dio = 1" by (simp add: dio_refs_def example_dio_def)
  have "table_ok example_held" using pb by (simp add: table_ok_def example_held_def example_hashv)
  moreover have "dio_ok example_held 0x1000000 example_dio"
    using pl blocks refs by (simp add: dio_ok_def) (simp add: example_dio_def dio_flag_def lblk_def)
  moreover have "frees example_held = {}" using refs by (simp add: frees_def at)
  moreover have "held_by example_held = {(0, 32768)}" by (simp add: held_by_def at) (simp add: example_dio_def lblk_def)
  ultimately show "io_ok example_held" using blocks by (simp add: io_ok_def at) (simp add: example_held_def example_io_def)
qed

theorem io_putblk_cleanup_race_witness:
  "\<exists>h1. putblk_drop 0x1000000 example_held = Some (Some 0x4000000000000001, h1) \<and> hammer2_io_hash_cleanup 1000 100 10 h1 = None"
proof -
  have at: "dio_at example_held 0x1000000 = Some example_dio" by (simp add: example_held_ok(2))
  have refs: "refs_at example_held 0x1000000 = 1" by (simp add: refs_at_def at) (simp add: dio_refs_def example_dio_def)
  have "d_bp example_dio \<noteq> None" "d_act (dio_decay 1000 100 example_dio) = 0" "d_refs example_dio = 0x4000000000000001"
    by (simp_all add: example_dio_def dio_decay_def Let_def)
  moreover have "io_iterator example_held AND HAMMER2_IOHASH_MASK = hammer2_io_hashv 0x1000000" "(10 :: int) < io_free_count example_held + 32"
    by (simp_all add: example_hashv) (simp_all add: example_held_def example_io_def)
  ultimately show ?thesis
    using io_putblk_cleanup_race [OF example_held_ok(1) at refs, of 1000 100 10] by simp
qed

section \<open>Unmount\<close>

lemma cleanup_all_bucket_None: "cleanup_all_bucket ds h \<noteq> None \<longleftrightarrow> (\<forall>d \<in> set ds. d_bp d = None \<and> dio_refs d = 0)"
  by (induction ds arbitrary: h) (auto simp: kkassert_bind)

lemma cleanup_all_bucket_hash: "cleanup_all_bucket ds h = Some h' \<Longrightarrow> io_hash h' = io_hash h \<and> io_blocks h' = io_blocks h \<and>
  io_free_count h' = io_free_count h - int (length ds)"
  by (induction ds arbitrary: h) (auto simp: kkassert_bind split: if_splits)

lemma cleanup_all_from_None:
  "distinct bs \<Longrightarrow> cleanup_all_from bs h \<noteq> None \<longleftrightarrow> (\<forall>b \<in> set bs. \<forall>d \<in> set (io_hash h b). d_bp d = None \<and> dio_refs d = 0)"
proof (induction bs arbitrary: h)
  case (Cons b bs)
  show ?case
  proof (cases "cleanup_all_bucket (io_hash h b) h")
    case None
    then show ?thesis using cleanup_all_bucket_None [of "io_hash h b" h] by auto
  next
    case (Some h1)
    note k = cleanup_all_bucket_hash [OF Some]
    let ?h2 = "h1\<lparr>io_hash := (io_hash h1)(b := [])\<rparr>"
    have "cleanup_all_from bs ?h2 \<noteq> None \<longleftrightarrow> (\<forall>b' \<in> set bs. \<forall>d \<in> set (io_hash ?h2 b'). d_bp d = None \<and> dio_refs d = 0)"
      using Cons by simp
    moreover have "io_hash ?h2 b' = io_hash h b'" if "b' \<in> set bs" for b' using k that Cons.prems by auto
    moreover have "\<forall>d \<in> set (io_hash h b). d_bp d = None \<and> dio_refs d = 0" using cleanup_all_bucket_None [of "io_hash h b" h] Some by auto
    ultimately show ?thesis using Some by simp
  qed
qed simp

text \<open>The cleaning at unmount passes its assertions exactly when no handle is left.\<close>

theorem io_cleanup_all_iff:
  assumes "io_ok h"
  shows "hammer2_io_hash_cleanup_all h \<noteq> None \<longleftrightarrow> (\<forall>p. refs_at h p = 0)"
proof -
  have in_table: "dio_at h p = Some d \<longleftrightarrow> (\<exists>b < HAMMER2_IOHASH_SIZE. d \<in> set (io_hash h b)) \<and> d_pbase d = p" for p d
  proof -
    have "b < HAMMER2_IOHASH_SIZE" if "d \<in> set (io_hash h b)" for b
      using that hashv_less [of "d_pbase d"] io_okD(1) [OF assms] by (auto simp: table_ok_def)
    then show ?thesis using dio_at_iff [OF io_okD(1) [OF assms]] by blast
  qed
  have "(\<forall>b \<in> set [0..<HAMMER2_IOHASH_SIZE]. \<forall>d \<in> set (io_hash h b). d_bp d = None \<and> dio_refs d = 0) \<longleftrightarrow>
      (\<forall>p d. dio_at h p = Some d \<longrightarrow> d_bp d = None \<and> dio_refs d = 0)"
    unfolding in_table by (simp add: Ball_def) blast
  also have "\<dots> \<longleftrightarrow> (\<forall>p d. dio_at h p = Some d \<longrightarrow> dio_refs d = 0)" using io_okD(2) [OF assms] by (auto simp: dio_ok_def)
  also have "\<dots> \<longleftrightarrow> (\<forall>p. refs_at h p = 0)" by (auto simp: refs_at_def unat_eq_0 split: option.splits)
  finally show ?thesis using cleanup_all_from_None [of "[0..<HAMMER2_IOHASH_SIZE]" h] by (simp add: hammer2_io_hash_cleanup_all_def)
qed

theorem io_cleanup_all_iff_witness: "hammer2_io_hash_cleanup_all example_io \<noteq> None \<and> hammer2_io_hash_cleanup_all example_held = None"
proof -
  have fresh: "io_fresh example_io" by (simp add: io_fresh_def example_io_def)
  have "refs_at example_io p = 0" for p by (simp add: refs_at_def dio_at_def example_io_def)
  then have "hammer2_io_hash_cleanup_all example_io \<noteq> None"
    using io_cleanup_all_iff [OF simulatesD(1) [OF io_fresh_simulates [OF fresh]]] by simp
  moreover have "refs_at example_held 0x1000000 \<noteq> 0" by (simp add: refs_at_def example_held_ok(2)) (simp add: dio_refs_def example_dio_def)
  then have "hammer2_io_hash_cleanup_all example_held = None" using io_cleanup_all_iff [OF example_held_ok(1)] by (metis (full_types))
  ultimately show ?thesis ..
qed

end
