(* ===== verification/H2_Trans.thy ===== *)
theory H2_Trans
  imports H2_Subr
begin

text \<open>
  Transactions (\<open>hammer2_flush.c\<close>): every modifying operation runs in one, and a flush excludes other flushes.

  The functions hold \<open>trans_lock\<close>, so one pass of their loop is one step; a pass of \<open>hammer2_trans_init\<close> that
  has to wait sleeps on the condition variable and starts over.  The compare-and-set under the lock always
  succeeds.  \<open>hammer2_trans_setflags\<close> takes no lock, its atomic operation is a step of its own.
\<close>

abbreviation (input) TRANS_ISFLUSH :: u32 where "TRANS_ISFLUSH \<equiv> 0x80000000"
abbreviation (input) TRANS_BUFCACHE :: u32 where "TRANS_BUFCACHE \<equiv> 0x40000000"
abbreviation (input) TRANS_WAITING :: u32 where "TRANS_WAITING \<equiv> 0x08000000"
abbreviation (input) TRANS_MASK :: u32 where "TRANS_MASK \<equiv> 0x00FFFFFF"

section \<open>The functions\<close>

record trans =
  tr_flags :: u32
  tr_modify_tid :: h2_tid
  tr_inode_tid :: h2_tid

datatype init_pass = Started trans | Waits trans

definition trans_init_pass :: "u32 \<Rightarrow> trans \<Rightarrow> init_pass" where
  "trans_init_pass flags tr =
     (let oflags = tr_flags tr in
      if flags AND TRANS_ISFLUSH \<noteq> 0 then
        (if oflags AND TRANS_ISFLUSH \<noteq> 0 then Waits (tr\<lparr>tr_flags := oflags OR TRANS_WAITING\<rparr>)
         else Started (tr\<lparr>tr_flags := (oflags OR flags) + 1\<rparr>))
      else if flags AND TRANS_BUFCACHE \<noteq> 0 then Started (tr\<lparr>tr_flags := (oflags OR flags) + 1\<rparr>)
      else Started (tr\<lparr>tr_flags := (oflags OR flags) + 1\<rparr>))"

definition hammer2_trans_sub :: "trans \<Rightarrow> h2_tid \<times> trans" where
  "hammer2_trans_sub tr = (tr_modify_tid tr, tr\<lparr>tr_modify_tid := tr_modify_tid tr + 1\<rparr>)"

definition hammer2_trans_setflags :: "u32 \<Rightarrow> trans \<Rightarrow> trans" where
  "hammer2_trans_setflags flags tr = tr\<lparr>tr_flags := tr_flags tr OR flags\<rparr>"

text \<open>Whether the waiters are woken, here and in \<open>hammer2_trans_done\<close>.\<close>

definition hammer2_trans_clearflags :: "u32 \<Rightarrow> trans \<Rightarrow> trans \<times> bool" where
  "hammer2_trans_clearflags flags tr =
     (let oflags = tr_flags tr; nflags = oflags AND NOT flags
      in (tr\<lparr>tr_flags := nflags\<rparr>, (oflags XOR nflags) AND TRANS_WAITING \<noteq> 0))"

definition hammer2_trans_done :: "u32 \<Rightarrow> trans \<Rightarrow> (trans \<times> bool) option" where
  "hammer2_trans_done flags tr = do {
     let oflags = tr_flags tr;
     kkassert (oflags AND TRANS_MASK \<noteq> 0);
     let nflags = (oflags - 1) AND NOT flags;
     let nflags = (if flags AND TRANS_ISFLUSH \<noteq> 0 then nflags AND NOT TRANS_WAITING else nflags);
     let nflags = (if oflags AND (TRANS_ISFLUSH OR TRANS_MASK) = TRANS_ISFLUSH OR 2 then nflags AND NOT TRANS_WAITING else nflags);
     Some (tr\<lparr>tr_flags := nflags\<rparr>, (oflags XOR nflags) AND TRANS_WAITING \<noteq> 0)
   }"

definition hammer2_trans_newinum :: "trans \<Rightarrow> h2_tid \<times> trans" where
  "hammer2_trans_newinum tr = (tr_inode_tid tr, tr\<lparr>tr_inode_tid := tr_inode_tid tr + 1\<rparr>)"

section \<open>Transactions of many threads\<close>

text \<open>A transaction has not begun, sleeps in \<open>hammer2_trans_init\<close> (and was woken or not), or runs.\<close>

datatype tx = NoTx | TxWait u32 bool | Tx u32

type_synonym tx_system = "trans \<times> (nat \<Rightarrow> tx)"

fun woken :: "tx \<Rightarrow> tx" where
  "woken (TxWait f a) = TxWait f True"
| "woken v = v"

definition wake_tx :: "bool \<Rightarrow> (nat \<Rightarrow> tx) \<Rightarrow> nat \<Rightarrow> tx" where
  "wake_tx w th = (if w then woken \<circ> th else th)"

definition after_init :: "nat \<Rightarrow> u32 \<Rightarrow> (nat \<Rightarrow> tx) \<Rightarrow> init_pass \<Rightarrow> tx_system" where
  "after_init t f th r = (case r of Started tr \<Rightarrow> (tr, th(t := Tx f)) | Waits tr \<Rightarrow> (tr, th(t := TxWait f False)))"

definition running :: "(nat \<Rightarrow> tx) \<Rightarrow> nat set" where
  "running th = {t. \<exists>f. th t = Tx f}"

definition flushing :: "(nat \<Rightarrow> tx) \<Rightarrow> nat set" where
  "flushing th = {t. \<exists>f. th t = Tx f \<and> f AND TRANS_ISFLUSH \<noteq> 0}"

text \<open>The flags with which the callers begin and end transactions, and those they set and clear in between.\<close>

definition init_flags :: "u32 \<Rightarrow> bool" where
  "init_flags f \<longleftrightarrow> f = 0 \<or> f = TRANS_ISFLUSH \<or> f = TRANS_BUFCACHE"

definition done_flags :: "u32 \<Rightarrow> u32 \<Rightarrow> bool" where
  "done_flags x f \<longleftrightarrow> f AND TRANS_ISFLUSH = x AND TRANS_ISFLUSH \<and> f AND (TRANS_MASK OR TRANS_WAITING) = 0"

text \<open>The count has 24 bits: a new transaction begins while fewer than that run.\<close>

inductive tx_step :: "tx_system \<Rightarrow> tx_system \<Rightarrow> bool" where
  init: "th t = NoTx \<Longrightarrow> init_flags f \<Longrightarrow> card (running th) + 1 < 2 ^ 24 \<Longrightarrow> tx_step (tr, th) (after_init t f th (trans_init_pass f tr))"
| retry: "th t = TxWait f a \<Longrightarrow> card (running th) + 1 < 2 ^ 24 \<Longrightarrow> tx_step (tr, th) (after_init t f th (trans_init_pass f tr))"
| finish: "th t = Tx x \<Longrightarrow> done_flags x f \<Longrightarrow> hammer2_trans_done f tr = Some (tr', w) \<Longrightarrow> tx_step (tr, th) (tr', wake_tx w (th(t := NoTx)))"
| setflags: "f AND (TRANS_MASK OR TRANS_WAITING OR TRANS_ISFLUSH) = 0 \<Longrightarrow> tx_step (tr, th) (hammer2_trans_setflags f tr, th)"
| clearflags: "f AND (TRANS_MASK OR TRANS_ISFLUSH) = 0 \<Longrightarrow> hammer2_trans_clearflags f tr = (tr', w) \<Longrightarrow> tx_step (tr, th) (tr', wake_tx w th)"
| sub: "tx_step (tr, th) (snd (hammer2_trans_sub tr), th)"
| newinum: "tx_step (tr, th) (snd (hammer2_trans_newinum tr), th)"

text \<open>A mount begins with \<open>HAMMER2_TRANS_*\<close> clear.\<close>

definition tx_start :: "h2_tid \<Rightarrow> h2_tid \<Rightarrow> tx_system" where
  "tx_start m i = (\<lparr>tr_flags = 0, tr_modify_tid = m, tr_inode_tid = i\<rparr>, \<lambda>_. NoTx)"

section \<open>The invariant\<close>

definition tx_ok :: "tx_system \<Rightarrow> bool" where
  "tx_ok = (\<lambda>(tr, th). finite {t. th t \<noteq> NoTx} \<and> unat (tr_flags tr) mod 2 ^ 24 = card (running th) \<and>
     card (flushing th) = (if tr_flags tr AND TRANS_ISFLUSH \<noteq> 0 then 1 else 0) \<and>
     (\<forall>t f a. th t = TxWait f a \<longrightarrow> f = TRANS_ISFLUSH \<and>
        (\<not> a \<longrightarrow> tr_flags tr AND TRANS_WAITING \<noteq> 0 \<and> tr_flags tr AND TRANS_ISFLUSH \<noteq> 0)))"

lemma tx_okD:
  assumes "tx_ok (tr, th)"
  shows "finite {t. th t \<noteq> NoTx}" "unat (tr_flags tr) mod 2 ^ 24 = card (running th)"
    "card (flushing th) = (if tr_flags tr AND TRANS_ISFLUSH \<noteq> 0 then 1 else 0)"
    "th t = TxWait f a \<Longrightarrow> f = TRANS_ISFLUSH"
    "th t = TxWait f False \<Longrightarrow> tr_flags tr AND TRANS_WAITING \<noteq> 0 \<and> tr_flags tr AND TRANS_ISFLUSH \<noteq> 0"
  using assms unfolding tx_ok_def by blast+

lemma finite_running: "finite {t. th t \<noteq> NoTx} \<Longrightarrow> finite (running th)" "finite {t. th t \<noteq> NoTx} \<Longrightarrow> finite (flushing th)"
  by (auto simp: running_def flushing_def elim!: finite_subset [rotated])

lemma running_upd [simp]:
  "running (th(t := Tx f)) = insert t (running th)" "running (th(t := NoTx)) = running th - {t}"
  "running (th(t := TxWait f a)) = running th - {t}"
  by (auto simp: running_def)

lemma flushing_upd [simp]:
  "flushing (th(t := Tx f)) = (if f AND TRANS_ISFLUSH \<noteq> 0 then insert t (flushing th) else flushing th - {t})"
  "flushing (th(t := NoTx)) = flushing th - {t}" "flushing (th(t := TxWait f a)) = flushing th - {t}"
  by (auto simp: flushing_def)

lemma wake_tx_simps [simp]:
  "running (wake_tx w th) = running th" "flushing (wake_tx w th) = flushing th"
  "wake_tx w th t = NoTx \<longleftrightarrow> th t = NoTx" "wake_tx w th t = TxWait f False \<longleftrightarrow> \<not> w \<and> th t = TxWait f False"
proof -
  have eq: "(woken v = Tx f) = (v = Tx f)" "(woken v = NoTx) = (v = NoTx)" "woken v \<noteq> TxWait g False" for v f g by (cases v; simp)+
  show "running (wake_tx w th) = running th" "flushing (wake_tx w th) = flushing th"
    "wake_tx w th t = NoTx \<longleftrightarrow> th t = NoTx" "wake_tx w th t = TxWait f False \<longleftrightarrow> \<not> w \<and> th t = TxWait f False"
    by (simp_all add: wake_tx_def running_def flushing_def eq)
qed

lemma wake_tx_wait: "wake_tx w th t = TxWait f a \<Longrightarrow> \<exists>b. th t = TxWait f b"
  by (cases "th t") (auto simp: wake_tx_def split: if_splits)

text \<open>A word that counts in its low 24 bits.\<close>

lemma trans_mask: "TRANS_MASK = mask 24"
  by (simp add: mask_eq_exp_minus_1)

lemma count_up:
  assumes "unat w mod 2 ^ 24 + 1 < 2 ^ 24"
  shows "unat (w + 1 :: u32) mod 2 ^ 24 = unat w mod 2 ^ 24 + 1" "f AND TRANS_MASK = 0 \<Longrightarrow> (w + 1) AND f = w AND f"
  using low_up [OF assms] same_high [of "w + 1" 24 w f] unfolding trans_mask by simp_all

lemma count_down:
  assumes "unat w mod 2 ^ 24 \<noteq> 0"
  shows "unat (w - 1 :: u32) mod 2 ^ 24 = unat w mod 2 ^ 24 - 1" "f AND TRANS_MASK = 0 \<Longrightarrow> (w - 1) AND f = w AND f"
  using low_down [OF assms] same_high [of "w - 1" 24 w f] unfolding trans_mask by simp_all

lemma low_and:
  assumes "f AND TRANS_MASK = 0"
  shows "unat (w OR f :: u32) mod 2 ^ 24 = unat w mod 2 ^ 24" "unat (w AND NOT f) mod 2 ^ 24 = unat w mod 2 ^ 24"
proof -
  have "(w OR f) AND mask 24 = w AND mask 24" using assms unfolding trans_mask by (simp add: bit.conj_disj_distrib2)
  then show "unat (w OR f) mod 2 ^ 24 = unat w mod 2 ^ 24" unfolding unat_and_mask [symmetric] by simp
  have "\<not> bit f k" if "k < 24" for k
  proof -
    have "\<not> bit (f AND mask 24) k" using assms unfolding trans_mask by simp
    then show ?thesis using that by (simp add: bit_and_iff bit_mask_iff)
  qed
  then have "(w AND NOT f) AND mask 24 = w AND mask 24" by (intro bit_word_eqI) (auto simp: bit_simps)
  then show "unat (w AND NOT f) mod 2 ^ 24 = unat w mod 2 ^ 24" unfolding unat_and_mask [symmetric] by simp
qed

lemma tx_okI:
  assumes "finite {t. th t \<noteq> NoTx}" "unat (tr_flags tr) mod 2 ^ 24 = card (running th)"
    and "card (flushing th) = (if tr_flags tr AND TRANS_ISFLUSH \<noteq> 0 then 1 else 0)"
    and "\<And>t f a. th t = TxWait f a \<Longrightarrow> f = TRANS_ISFLUSH"
    and "\<And>t f. th t = TxWait f False \<Longrightarrow> tr_flags tr AND TRANS_WAITING \<noteq> 0 \<and> tr_flags tr AND TRANS_ISFLUSH \<noteq> 0"
  shows "tx_ok (tr, th)"
  using assms unfolding tx_ok_def by auto

text \<open>The two flags of the protocol as bits.\<close>

lemma flag_bits: "w AND TRANS_ISFLUSH = 0 \<longleftrightarrow> \<not> bit w 31" "w AND TRANS_WAITING = 0 \<longleftrightarrow> \<not> bit w 27" for w :: u32
  using and_exp_eq_0 [of w 31] and_exp_eq_0 [of w 27] by simp_all

lemma count_bits:
  "unat w mod 2 ^ 24 + 1 < 2 ^ 24 \<Longrightarrow> bit (w + 1) 31 = bit w 31 \<and> bit (w + 1) 27 = bit w 27"
  "unat w mod 2 ^ 24 \<noteq> 0 \<Longrightarrow> bit (w - 1) 31 = bit w 31 \<and> bit (w - 1) 27 = bit w 27" for w :: u32
proof -
  have eq: "v AND TRANS_ISFLUSH = w AND TRANS_ISFLUSH \<Longrightarrow> v AND TRANS_WAITING = w AND TRANS_WAITING \<Longrightarrow> bit v 31 = bit w 31 \<and> bit v 27 = bit w 27" for v
    using flag_bits [of v] flag_bits [of w] by simp
  show "unat w mod 2 ^ 24 + 1 < 2 ^ 24 \<Longrightarrow> bit (w + 1) 31 = bit w 31 \<and> bit (w + 1) 27 = bit w 27"
    by (rule eq) (rule count_up(2); simp)+
  show "unat w mod 2 ^ 24 \<noteq> 0 \<Longrightarrow> bit (w - 1) 31 = bit w 31 \<and> bit (w - 1) 27 = bit w 27"
    by (rule eq) (rule count_down(2); simp)+
qed

lemma bit_ops:
  "bit (v OR w) k \<longleftrightarrow> bit v k \<or> bit w k" "bit (v AND NOT w) 31 \<longleftrightarrow> bit v 31 \<and> \<not> bit w 31" "bit (v AND NOT w) 27 \<longleftrightarrow> bit v 27 \<and> \<not> bit w 27"
  "bit (v XOR w) k \<longleftrightarrow> bit v k \<noteq> bit w k" for v w :: u32
  by (auto simp: bit_simps)

lemma flag_consts:
  "bit TRANS_ISFLUSH 31" "\<not> bit TRANS_ISFLUSH 27" "\<not> bit TRANS_WAITING 31" "bit TRANS_WAITING 27" "\<not> bit TRANS_BUFCACHE 31" "\<not> bit TRANS_BUFCACHE 27"
  by (simp_all flip: flag_bits)

lemma and_part: "f AND c = 0 \<Longrightarrow> c AND a = a \<Longrightarrow> f AND a = 0" for f c a :: u32
  by (metis and.assoc zero_and_eq)

section \<open>Every step keeps the invariant\<close>

definition starts :: "trans \<Rightarrow> u32 \<Rightarrow> trans" where
  "starts tr f = tr\<lparr>tr_flags := (tr_flags tr OR f) + 1\<rparr>"

lemma trans_init_pass_eq:
  "trans_init_pass f tr = (if f AND TRANS_ISFLUSH \<noteq> 0 \<and> tr_flags tr AND TRANS_ISFLUSH \<noteq> 0
     then Waits (tr\<lparr>tr_flags := tr_flags tr OR TRANS_WAITING\<rparr>) else Started (starts tr f))"
  by (simp add: trans_init_pass_def starts_def Let_def)

lemma init_flags_simps:
  assumes "init_flags f"
  shows "f AND TRANS_MASK = 0" "\<not> bit f 27" "f AND TRANS_ISFLUSH \<noteq> 0 \<longleftrightarrow> f = TRANS_ISFLUSH"
  using assms flag_consts by (auto simp: init_flags_def)

lemma ok_started:
  assumes "tx_ok (tr, th)" "\<And>x. th t \<noteq> Tx x" "init_flags f" "card (running th) + 1 < 2 ^ 24"
    and "\<not> (f AND TRANS_ISFLUSH \<noteq> 0 \<and> tr_flags tr AND TRANS_ISFLUSH \<noteq> 0)"
  shows "tx_ok (starts tr f, th(t := Tx f))"
proof -
  note i = tx_okD [OF assms(1)] and f = init_flags_simps [OF assms(3)]
  have t: "t \<notin> running th" "t \<notin> flushing th" using assms(2) by (auto simp: running_def flushing_def)
  have c: "unat (tr_flags tr OR f) mod 2 ^ 24 = card (running th)" using low_and(1) [OF f(1)] i(2) by simp
  note up = count_up(1) [of "tr_flags tr OR f", unfolded c, OF assms(4)] count_bits(1) [of "tr_flags tr OR f", unfolded c, OF assms(4)]
  have b: "bit (tr_flags (starts tr f)) 31 \<longleftrightarrow> bit (tr_flags tr) 31 \<or> bit f 31" "bit (tr_flags (starts tr f)) 27 \<longleftrightarrow> bit (tr_flags tr) 27"
    using up(2) f(2) by (simp_all add: starts_def bit_ops)
  have fin: "finite {x. th x \<noteq> NoTx}" using i(1) .
  show ?thesis
  proof (rule tx_okI)
    have "{x. (th(t := Tx f)) x \<noteq> NoTx} \<subseteq> insert t {x. th x \<noteq> NoTx}" by auto
    then show "finite {x. (th(t := Tx f)) x \<noteq> NoTx}" using fin by (rule finite_subset [OF _ finite.insertI])
    show "unat (tr_flags (starts tr f)) mod 2 ^ 24 = card (running (th(t := Tx f)))"
      using up(1) t(1) finite_running(1) [OF fin] by (simp add: starts_def)
    show "card (flushing (th(t := Tx f))) = (if tr_flags (starts tr f) AND TRANS_ISFLUSH \<noteq> 0 then 1 else 0)"
      using i(3) assms(5) t(2) b(1) finite_running(2) [OF fin] unfolding flushing_upd flag_bits by (auto simp: card_0_eq)
    show "g = TRANS_ISFLUSH" if "(th(t := Tx f)) x = TxWait g a" for x g a using that i(4) by (simp split: if_splits)
    show "tr_flags (starts tr f) AND TRANS_WAITING \<noteq> 0 \<and> tr_flags (starts tr f) AND TRANS_ISFLUSH \<noteq> 0"
      if "(th(t := Tx f)) x = TxWait g False" for x g using that i(5) b unfolding flag_bits by (auto split: if_splits)
  qed
qed

lemma ok_waits:
  assumes "tx_ok (tr, th)" "\<And>x. th t \<noteq> Tx x" "init_flags f" "f AND TRANS_ISFLUSH \<noteq> 0" "tr_flags tr AND TRANS_ISFLUSH \<noteq> 0"
  shows "tx_ok (tr\<lparr>tr_flags := tr_flags tr OR TRANS_WAITING\<rparr>, th(t := TxWait f False))"
proof -
  note i = tx_okD [OF assms(1)] and f = init_flags_simps [OF assms(3)]
  have t: "running th - {t} = running th" "flushing th - {t} = flushing th" using assms(2) by (auto simp: running_def flushing_def)
  have fl: "f = TRANS_ISFLUSH" using assms(4) f(3) by blast
  show ?thesis
  proof (rule tx_okI)
    have "{x. (th(t := TxWait f False)) x \<noteq> NoTx} \<subseteq> insert t {x. th x \<noteq> NoTx}" by auto
    then show "finite {x. (th(t := TxWait f False)) x \<noteq> NoTx}" using i(1) by (rule finite_subset [OF _ finite.insertI])
    show "unat (tr_flags (tr\<lparr>tr_flags := tr_flags tr OR TRANS_WAITING\<rparr>)) mod 2 ^ 24 = card (running (th(t := TxWait f False)))"
      using low_and(1) [of TRANS_WAITING "tr_flags tr"] i(2) t(1) by simp
    show "card (flushing (th(t := TxWait f False))) = (if tr_flags (tr\<lparr>tr_flags := tr_flags tr OR TRANS_WAITING\<rparr>) AND TRANS_ISFLUSH \<noteq> 0 then 1 else 0)"
      using i(3) t(2) flag_consts unfolding flushing_upd flag_bits by (simp add: bit_ops)
    show "g = TRANS_ISFLUSH" if "(th(t := TxWait f False)) x = TxWait g a" for x g a using that i(4) fl by (simp split: if_splits)
    show "tr_flags (tr\<lparr>tr_flags := tr_flags tr OR TRANS_WAITING\<rparr>) AND TRANS_WAITING \<noteq> 0 \<and>
        tr_flags (tr\<lparr>tr_flags := tr_flags tr OR TRANS_WAITING\<rparr>) AND TRANS_ISFLUSH \<noteq> 0"
      if "(th(t := TxWait f False)) x = TxWait g False" for x g
      using assms(5) flag_consts unfolding flag_bits by (simp add: bit_ops)
  qed
qed

lemma ok_init:
  assumes "tx_ok (tr, th)" "\<And>x. th t \<noteq> Tx x" "init_flags f" "card (running th) + 1 < 2 ^ 24"
  shows "tx_ok (after_init t f th (trans_init_pass f tr))"
  using ok_started [OF assms] ok_waits [OF assms(1-3)] by (auto simp: trans_init_pass_eq after_init_def)

text \<open>A wakeup when the waiting flag falls.\<close>

lemma tx_ok_wake:
  assumes "tx_ok (tr, th)" "finite {t. th' t \<noteq> NoTx}" "unat (tr_flags tr') mod 2 ^ 24 = card (running th')"
    and "card (flushing th') = (if tr_flags tr' AND TRANS_ISFLUSH \<noteq> 0 then 1 else 0)"
    and "\<And>t f a. th' t = TxWait f a \<Longrightarrow> th t = TxWait f a"
    and "w \<longleftrightarrow> (tr_flags tr XOR tr_flags tr') AND TRANS_WAITING \<noteq> 0"
    and "tr_flags tr AND TRANS_ISFLUSH \<noteq> 0 \<Longrightarrow> tr_flags tr' AND TRANS_ISFLUSH \<noteq> 0 \<or> tr_flags tr' AND TRANS_WAITING = 0"
  shows "tx_ok (tr', wake_tx w th')"
proof (rule tx_okI)
  show "finite {t. wake_tx w th' t \<noteq> NoTx}" using assms(2) by simp
  show "unat (tr_flags tr') mod 2 ^ 24 = card (running (wake_tx w th'))" using assms(3) by simp
  show "card (flushing (wake_tx w th')) = (if tr_flags tr' AND TRANS_ISFLUSH \<noteq> 0 then 1 else 0)" using assms(4) by simp
  show "f = TRANS_ISFLUSH" if "wake_tx w th' t = TxWait f a" for t f a
    using wake_tx_wait [OF that] assms(5) tx_okD(4) [OF assms(1)] by blast
  show "tr_flags tr' AND TRANS_WAITING \<noteq> 0 \<and> tr_flags tr' AND TRANS_ISFLUSH \<noteq> 0" if v: "wake_tx w th' t = TxWait f False" for t f
  proof -
    have "\<not> w" "th t = TxWait f False" using v assms(5) by auto
    then show ?thesis using tx_okD(5) [OF assms(1)] assms(6,7) unfolding flag_bits by (auto simp: bit_ops)
  qed
qed

lemma ok_clear:
  assumes "tx_ok (tr, th)" "f AND (TRANS_MASK OR TRANS_ISFLUSH) = 0" "hammer2_trans_clearflags f tr = (tr', w)"
  shows "tx_ok (tr', wake_tx w th)"
proof (rule tx_ok_wake [OF assms(1)])
  have f: "f AND TRANS_MASK = 0" "f AND TRANS_ISFLUSH = 0" by (rule and_part [OF assms(2)]; simp)+
  have n: "tr_flags tr' = tr_flags tr AND NOT f" "w \<longleftrightarrow> (tr_flags tr XOR tr_flags tr') AND TRANS_WAITING \<noteq> 0"
    using assms(3) by (auto simp: hammer2_trans_clearflags_def Let_def)
  show "w \<longleftrightarrow> (tr_flags tr XOR tr_flags tr') AND TRANS_WAITING \<noteq> 0" by (rule n(2))
  have b: "bit (tr_flags tr') 31 = bit (tr_flags tr) 31" using f(2) n(1) unfolding flag_bits by (simp add: bit_ops)
  show "unat (tr_flags tr') mod 2 ^ 24 = card (running th)" using low_and(2) [OF f(1)] n(1) tx_okD(2) [OF assms(1)] by simp
  show "card (flushing th) = (if tr_flags tr' AND TRANS_ISFLUSH \<noteq> 0 then 1 else 0)" using tx_okD(3) [OF assms(1)] b unfolding flag_bits by simp
  show "tr_flags tr' AND TRANS_ISFLUSH \<noteq> 0 \<or> tr_flags tr' AND TRANS_WAITING = 0" if "tr_flags tr AND TRANS_ISFLUSH \<noteq> 0"
    using that b unfolding flag_bits by simp
qed (use tx_okD(1) [OF assms(1)] in auto)

lemma done_flags:
  assumes "done_flags x f"
  shows "f AND TRANS_MASK = 0" "\<not> bit f 27" "bit f 31 \<longleftrightarrow> x AND TRANS_ISFLUSH \<noteq> 0"
proof -
  have z: "f AND (TRANS_MASK OR TRANS_WAITING) = 0" and x: "f AND TRANS_ISFLUSH = x AND TRANS_ISFLUSH" using assms by (simp_all add: done_flags_def)
  show "f AND TRANS_MASK = 0" by (rule and_part [OF z]) simp
  have "f AND TRANS_WAITING = 0" by (rule and_part [OF z]) simp
  then show "\<not> bit f 27" unfolding flag_bits .
  show "bit f 31 \<longleftrightarrow> x AND TRANS_ISFLUSH \<noteq> 0" using x flag_bits(1) [of f] by simp
qed

text \<open>The word after \<open>hammer2_trans_done\<close>.\<close>

lemma done_word:
  assumes "unat (tr_flags tr) mod 2 ^ 24 \<noteq> 0" "done_flags x f"
  shows "\<exists>tr' w. hammer2_trans_done f tr = Some (tr', w) \<and> unat (tr_flags tr') mod 2 ^ 24 = unat (tr_flags tr) mod 2 ^ 24 - 1 \<and>
    (bit (tr_flags tr') 31 \<longleftrightarrow> bit (tr_flags tr) 31 \<and> x AND TRANS_ISFLUSH = 0) \<and>
    (x AND TRANS_ISFLUSH \<noteq> 0 \<longrightarrow> \<not> bit (tr_flags tr') 27) \<and>
    (w \<longleftrightarrow> (tr_flags tr XOR tr_flags tr') AND TRANS_WAITING \<noteq> 0)"
proof -
  note f = done_flags [OF assms(2)]
  define o' where "o' = tr_flags tr"
  define n where "n = (o' - 1) AND NOT f"
  define n1 where "n1 = (if f AND TRANS_ISFLUSH \<noteq> 0 then n AND NOT TRANS_WAITING else n)"
  define n2 where "n2 = (if o' AND (TRANS_ISFLUSH OR TRANS_MASK) = TRANS_ISFLUSH OR 2 then n1 AND NOT TRANS_WAITING else n1)"
  have nz: "o' AND TRANS_MASK \<noteq> 0"
  proof
    assume "o' AND TRANS_MASK = 0"
    then have "unat (o' AND mask 24) = 0" unfolding trans_mask by simp
    then show False using assms(1) unfolding unat_and_mask o'_def by simp
  qed
  have run: "hammer2_trans_done f tr = Some (tr\<lparr>tr_flags := n2\<rparr>, (o' XOR n2) AND TRANS_WAITING \<noteq> 0)"
    using nz unfolding hammer2_trans_done_def Let_def o'_def [symmetric] n_def [symmetric] n1_def [symmetric] n2_def [symmetric] by simp
  note dn = count_down(1) [OF assms(1)] count_bits(2) [OF assms(1)]
  have keep: "unat (v AND NOT TRANS_WAITING) mod 2 ^ 24 = unat v mod 2 ^ 24" "bit (v AND NOT TRANS_WAITING) 31 = bit v 31" "\<not> bit (v AND NOT TRANS_WAITING) 27" for v :: u32
    using low_and(2) [of TRANS_WAITING v] flag_consts unfolding bit_ops by simp_all
  have c: "unat n mod 2 ^ 24 = unat o' mod 2 ^ 24 - 1" using low_and(2) [OF f(1)] dn(1) by (simp add: n_def o'_def)
  have b: "bit n 31 \<longleftrightarrow> bit o' 31 \<and> x AND TRANS_ISFLUSH = 0" using dn(2) f(3) unfolding n_def o'_def bit_ops by simp
  have "unat n2 mod 2 ^ 24 = unat o' mod 2 ^ 24 - 1" "bit n2 31 \<longleftrightarrow> bit o' 31 \<and> x AND TRANS_ISFLUSH = 0"
    using c b keep by (simp_all add: n2_def n1_def)
  moreover have "\<not> bit n2 27" if "x AND TRANS_ISFLUSH \<noteq> 0"
  proof -
    have "f AND TRANS_ISFLUSH \<noteq> 0" using that assms(2) by (simp add: done_flags_def)
    then show ?thesis using keep by (simp add: n2_def n1_def)
  qed
  ultimately show ?thesis unfolding run using o'_def by (intro exI conjI) (rule refl, simp_all)
qed

lemma ok_done:
  assumes "tx_ok (tr, th)" "th t = Tx x" "done_flags x f"
  shows "\<exists>tr' w. hammer2_trans_done f tr = Some (tr', w) \<and> tx_ok (tr', wake_tx w (th(t := NoTx)))"
proof -
  note i = tx_okD [OF assms(1)]
  have t: "t \<in> running th" using assms(2) by (auto simp: running_def)
  have fl: "t \<in> flushing th \<longleftrightarrow> x AND TRANS_ISFLUSH \<noteq> 0" using assms(2) by (auto simp: flushing_def)
  have fin: "finite (running th)" "finite (flushing th)" using finite_running i(1) by blast+
  have "card (running th) \<noteq> 0" using t fin(1) by auto
  then obtain tr' w where r: "hammer2_trans_done f tr = Some (tr', w)" "unat (tr_flags tr') mod 2 ^ 24 = card (running th) - 1"
    "bit (tr_flags tr') 31 \<longleftrightarrow> bit (tr_flags tr) 31 \<and> x AND TRANS_ISFLUSH = 0" "x AND TRANS_ISFLUSH \<noteq> 0 \<longrightarrow> \<not> bit (tr_flags tr') 27"
    "w \<longleftrightarrow> (tr_flags tr XOR tr_flags tr') AND TRANS_WAITING \<noteq> 0" using done_word [OF _ assms(3), of tr] unfolding i(2) by blast
  have "tx_ok (tr', wake_tx w (th(t := NoTx)))"
  proof (rule tx_ok_wake [OF assms(1)])
    have "{y. (th(t := NoTx)) y \<noteq> NoTx} \<subseteq> {y. th y \<noteq> NoTx}" by auto
    then show "finite {y. (th(t := NoTx)) y \<noteq> NoTx}" using i(1) by (rule finite_subset)
    show "unat (tr_flags tr') mod 2 ^ 24 = card (running (th(t := NoTx)))" using r(2) t fin(1) by simp
    show "card (flushing (th(t := NoTx))) = (if tr_flags tr' AND TRANS_ISFLUSH \<noteq> 0 then 1 else 0)"
    proof (cases "x AND TRANS_ISFLUSH = 0")
      case True
      then have "flushing th - {t} = flushing th" using fl by blast
      then show ?thesis using i(3) r(3) True unfolding flag_bits by simp
    next
      case False
      then have "t \<in> flushing th" using fl by blast
      moreover from this have "card (flushing th) = 1" using i(3) fin(2) by (auto split: if_splits)
      ultimately have "card (flushing th - {t}) = 0" using fin(2) by simp
      then show ?thesis using r(3) False flag_bits(1) [of "tr_flags tr'"] by simp
    qed
    show "th y = TxWait g a" if "(th(t := NoTx)) y = TxWait g a" for y g a using that by (simp split: if_splits)
    show "tr_flags tr' AND TRANS_ISFLUSH \<noteq> 0 \<or> tr_flags tr' AND TRANS_WAITING = 0" if "tr_flags tr AND TRANS_ISFLUSH \<noteq> 0"
      using that r(3,4) flag_bits by blast
  qed (rule r(5))
  then show ?thesis using r(1) by blast
qed

lemma ok_flags:
  assumes "tx_ok (tr, th)" "tr_flags tr' = tr_flags tr"
  shows "tx_ok (tr', th)"
  using assms(1) unfolding tx_ok_def prod.case assms(2) .

lemma ok_setflags:
  assumes "tx_ok (tr, th)" "f AND (TRANS_MASK OR TRANS_WAITING OR TRANS_ISFLUSH) = 0"
  shows "tx_ok (hammer2_trans_setflags f tr, th)"
proof -
  have f: "f AND TRANS_MASK = 0" "f AND TRANS_ISFLUSH = 0" "f AND TRANS_WAITING = 0" by (rule and_part [OF assms(2)]; simp)+
  have b: "bit (tr_flags (hammer2_trans_setflags f tr)) 31 = bit (tr_flags tr) 31" "bit (tr_flags (hammer2_trans_setflags f tr)) 27 = bit (tr_flags tr) 27"
    using f(2,3) unfolding flag_bits by (simp_all add: hammer2_trans_setflags_def bit_ops)
  have c: "unat (tr_flags (hammer2_trans_setflags f tr)) mod 2 ^ 24 = unat (tr_flags tr) mod 2 ^ 24"
    using low_and(1) [OF f(1)] by (simp add: hammer2_trans_setflags_def)
  show ?thesis using assms(1) b c unfolding tx_ok_def prod.case flag_bits by simp
qed

lemma step_tx_ok: "tx_step s s' \<Longrightarrow> tx_ok s \<Longrightarrow> tx_ok s'"
proof (induction rule: tx_step.induct)
  case (init th t f tr)
  then show ?case by (intro ok_init) auto
next
  case (retry th t f a tr)
  then have "f = TRANS_ISFLUSH" using tx_okD(4) by blast
  then show ?case using retry by (intro ok_init) (auto simp: init_flags_def)
next
  case (finish th t x f tr tr' w)
  then show ?case using ok_done [of tr th t x f] by auto
next
  case (setflags f tr th)
  then show ?case by (intro ok_setflags)
next
  case (clearflags f tr tr' w th)
  then show ?case by (intro ok_clear)
next
  case (sub tr th)
  then show ?case by (rule ok_flags) (simp add: hammer2_trans_sub_def)
next
  case (newinum tr th)
  then show ?case by (rule ok_flags) (simp add: hammer2_trans_newinum_def)
qed

lemma start_tx_ok: "tx_ok (tx_start m i)"
  by (simp add: tx_ok_def tx_start_def running_def flushing_def)

lemma reachable_tx_ok: "tx_step\<^sup>*\<^sup>* (tx_start m i) s \<Longrightarrow> tx_ok s"
  by (induction rule: rtranclp_induct) (auto intro: start_tx_ok step_tx_ok)

section \<open>The claims\<close>

text \<open>C26: In every reachable state at most one flush transaction runs, the flag shows whether one does, the count is the
number of running transactions, and no end of a running transaction fails its assertion.\<close>

theorem trans_flush_exclusive:
  assumes "tx_step\<^sup>*\<^sup>* (tx_start m i) (tr, th)"
  shows "(\<forall>t t'. t \<in> flushing th \<longrightarrow> t' \<in> flushing th \<longrightarrow> t = t') \<and> (tr_flags tr AND TRANS_ISFLUSH \<noteq> 0 \<longleftrightarrow> flushing th \<noteq> {}) \<and>
    unat (tr_flags tr AND TRANS_MASK) = card (running th) \<and>
    (\<forall>t x f. th t = Tx x \<longrightarrow> done_flags x f \<longrightarrow> hammer2_trans_done f tr \<noteq> None)"
proof -
  have ok: "tx_ok (tr, th)" by (rule reachable_tx_ok [OF assms])
  note d = tx_okD [OF ok]
  have fin: "finite (flushing th)" using finite_running(2) d(1) by blast
  have "card (flushing th) \<le> 1" using d(3) by simp
  then have "\<forall>t t'. t \<in> flushing th \<longrightarrow> t' \<in> flushing th \<longrightarrow> t = t'" using fin by (auto simp: card_le_Suc0_iff_eq)
  moreover have "tr_flags tr AND TRANS_ISFLUSH \<noteq> 0 \<longleftrightarrow> flushing th \<noteq> {}" using d(3) fin by (auto split: if_splits)
  moreover have "unat (tr_flags tr AND TRANS_MASK) = card (running th)" using d(2) unfolding trans_mask unat_and_mask .
  moreover have "hammer2_trans_done f tr \<noteq> None" if "th t = Tx x" "done_flags x f" for t x f using ok_done [OF ok that] by auto
  ultimately show ?thesis by blast
qed

definition demo_trans :: trans where
  "demo_trans = \<lparr>tr_flags = 0x88000002, tr_modify_tid = 5, tr_inode_tid = 7\<rparr>"

definition demo_tx :: "nat \<Rightarrow> tx" where
  "demo_tx = (\<lambda>_. NoTx)(0 := Tx 0, 1 := Tx TRANS_ISFLUSH, 2 := TxWait TRANS_ISFLUSH False)"

lemma demo_steps: "tx_step\<^sup>*\<^sup>* (tx_start 5 7) (demo_trans, demo_tx)"
proof -
  let ?tr = "\<lambda>f. \<lparr>tr_flags = f, tr_modify_tid = 5, tr_inode_tid = 7\<rparr>"
  let ?a = "(\<lambda>_. NoTx)(0 := Tx 0)" and ?b = "(\<lambda>_. NoTx)(0 := Tx 0, 1 := Tx TRANS_ISFLUSH)"
  have n: "running (\<lambda>_. NoTx) = {}" by (simp add: running_def)
  have r: "running ?a = {0}" "running ?b = {1, 0}" unfolding running_upd n by simp_all
  have "tx_step (tx_start 5 7) (?tr 1, ?a)"
    using tx_step.init [of "\<lambda>_. NoTx" 0 0 "?tr 0"] n by (simp add: tx_start_def init_flags_def trans_init_pass_def after_init_def)
  moreover have "tx_step (?tr 1, ?a) (?tr 0x80000002, ?b)"
    using tx_step.init [of ?a 1 TRANS_ISFLUSH "?tr 1"] r(1) n by (simp add: init_flags_def trans_init_pass_def after_init_def Let_def)
  moreover have "tx_step (?tr 0x80000002, ?b) (demo_trans, demo_tx)"
    using tx_step.init [of ?b 2 TRANS_ISFLUSH "?tr 0x80000002"] r(2) n
    by (simp add: init_flags_def trans_init_pass_def after_init_def Let_def demo_trans_def demo_tx_def)
  ultimately show ?thesis by (meson rtranclp.rtrancl_into_rtrancl rtranclp.rtrancl_refl)
qed

theorem trans_flush_exclusive_witness: "flushing demo_tx \<noteq> {} \<and> card (running demo_tx) = 2 \<and> hammer2_trans_done 0x80000000 demo_trans \<noteq> None"
proof -
  note c = trans_flush_exclusive [OF demo_steps]
  have "demo_tx 1 = Tx TRANS_ISFLUSH" "done_flags TRANS_ISFLUSH 0x80000000" by (simp_all add: demo_tx_def done_flags_def)
  moreover have "tr_flags demo_trans AND TRANS_ISFLUSH \<noteq> 0" "unat (tr_flags demo_trans AND TRANS_MASK) = 2" by (simp_all add: demo_trans_def)
  ultimately show ?thesis using c by metis
qed

text \<open>C27: A flush that sleeps and was not woken since sleeps for a reason: another flush runs, and the flag that wakes it
at the end of that flush is set.  When no flush runs every waiter is awake and the first that tries again begins.\<close>

theorem trans_waiters_progress:
  assumes "tx_step\<^sup>*\<^sup>* (tx_start m i) (tr, th)" "th t = TxWait f a"
  shows "(\<not> a \<longrightarrow> flushing th \<noteq> {} \<and> tr_flags tr AND TRANS_WAITING \<noteq> 0) \<and>
    (flushing th = {} \<longrightarrow> a \<and> (\<exists>tr'. trans_init_pass f tr = Started tr' \<and> after_init t f th (trans_init_pass f tr) = (tr', th(t := Tx f)))) \<and>
    (\<forall>t' x g tr' w. t' \<in> flushing th \<longrightarrow> th t' = Tx x \<longrightarrow> done_flags x g \<longrightarrow> hammer2_trans_done g tr = Some (tr', w) \<longrightarrow>
       wake_tx w (th(t' := NoTx)) t = TxWait f True)"
proof (intro conjI allI impI)
  have ok: "tx_ok (tr, th)" by (rule reachable_tx_ok [OF assms(1)])
  note d = tx_okD [OF ok]
  have fin: "finite (flushing th)" using finite_running(2) d(1) by blast
  show f1: "flushing th \<noteq> {}" if "\<not> a" using d(3) d(5) [where t = t and f = f] that assms(2) by auto
  show "tr_flags tr AND TRANS_WAITING \<noteq> 0" if "\<not> a" using d(5) [where t = t and f = f] that assms(2) by auto
  show a if "flushing th = {}" using f1 that by blast
  show "\<exists>tr'. trans_init_pass f tr = Started tr' \<and> after_init t f th (trans_init_pass f tr) = (tr', th(t := Tx f))" if "flushing th = {}"
    using d(3) that by (simp add: trans_init_pass_eq after_init_def split: if_splits)
  fix t' x g tr' w
  assume t': "t' \<in> flushing th" "th t' = Tx x" "done_flags x g" "hammer2_trans_done g tr = Some (tr', w)"
  have ok': "tx_ok (tr', wake_tx w (th(t' := NoTx)))" using ok_done [OF ok t'(2,3)] t'(4) by auto
  have "card (flushing th) = 1" using d(3) t'(1) fin by (auto split: if_splits)
  then have "flushing th = {t'}" using t'(1) by (auto simp: card_1_singleton_iff)
  then have none: "flushing (wake_tx w (th(t' := NoTx))) = {}" by simp
  have tt: "t \<noteq> t'" using assms(2) t'(2) by auto
  then obtain b where b: "wake_tx w (th(t' := NoTx)) t = TxWait f b" using assms(2) by (cases w) (simp_all add: wake_tx_def)
  have b
  proof (rule ccontr)
    assume "\<not> b"
    then have "wake_tx w (th(t' := NoTx)) t = TxWait f False" using b by simp
    then have "tr_flags tr' AND TRANS_ISFLUSH \<noteq> 0" using tx_okD(5) [OF ok'] by blast
    then show False using tx_okD(3) [OF ok', unfolded none] by simp
  qed
  then show "wake_tx w (th(t' := NoTx)) t = TxWait f True" using b by simp
qed

theorem trans_waiters_progress_witness:
  "tr_flags demo_trans AND TRANS_WAITING \<noteq> 0 \<and> (case hammer2_trans_done 0x80000000 demo_trans of
     None \<Rightarrow> False | Some (tr', w) \<Rightarrow> wake_tx w (demo_tx(1 := NoTx)) 2 = TxWait TRANS_ISFLUSH True)"
proof -
  have w: "demo_tx 2 = TxWait TRANS_ISFLUSH False" by (simp add: demo_tx_def)
  note c = trans_waiters_progress [OF demo_steps w]
  have "1 \<in> flushing demo_tx" "demo_tx 1 = Tx TRANS_ISFLUSH" "done_flags TRANS_ISFLUSH 0x80000000" by (simp_all add: demo_tx_def done_flags_def flushing_def)
  moreover obtain tr' b where run: "hammer2_trans_done 0x80000000 demo_trans = Some (tr', b)"
    by (simp add: hammer2_trans_done_def demo_trans_def Let_def)
  ultimately have "wake_tx b (demo_tx(1 := NoTx)) 2 = TxWait TRANS_ISFLUSH True" using c by blast
  then show ?thesis using run by (simp add: demo_trans_def)
qed

end
