(* ===== verification/H2_Xop.thy ===== *)
theory H2_Xop
  imports H2_ClusterProps H2_Trans "HOL-Library.Multiset"
begin

text \<open>
  Cluster operations (xops) of \<open>hammer2_admin.c\<close>: the front end starts an operation on the nodes of a cluster,
  each node feeds its results into a ring buffer of its own, and the front end collects the results on which
  a quorum agrees (\<open>hammer2_cluster_check\<close>) in the order of their keys.

  A pointer to a chain is the value of the chain.  \<open>x_refs\<close> has the references with held data that an xop owns.
  The array of a ring buffer that is not allocated is empty, an access outside of an array is \<open>None\<close>.  The
  read and write indices are C \<open>int\<close>s that start at 0; 2^31 results are \<open>None\<close> too.  The inodes and names of
  an xop, which are only stored and released, are left out.
\<close>

abbreviation (input) XOPFIFO :: nat where "XOPFIFO \<equiv> 16"
abbreviation (input) MAXCLUSTER :: nat where "MAXCLUSTER \<equiv> 8"
abbreviation (input) XOPMASK_VOP :: u64 where "XOPMASK_VOP \<equiv> 0x80000000"
abbreviation (input) XOPMASK_FIFOW :: u64 where "XOPMASK_FIFOW \<equiv> 0x40000000"
abbreviation (input) XOPMASK_WAIT :: u64 where "XOPMASK_WAIT \<equiv> 0x20000000"
abbreviation (input) XOPMASK_FEED :: u64 where "XOPMASK_FEED \<equiv> 0x100000000"
abbreviation (input) XOPMASK_ALLDONE :: u64 where "XOPMASK_ALLDONE \<equiv> 0x800000FF"
abbreviation (input) COLLECT_NOWAIT :: u32 where "COLLECT_NOWAIT \<equiv> 1"
abbreviation (input) COLLECT_WAITALL :: u32 where "COLLECT_WAITALL \<equiv> 2"
abbreviation (input) H2_ABORTED :: int where "H2_ABORTED \<equiv> 0x1000"

section \<open>State\<close>

record xop_fifo =
  ff_array :: "cl_chain option list"
  ff_errors :: "int list"
  ff_ri :: nat
  ff_wi :: nat

record xop =
  x_mtid :: h2_tid
  x_run_mask :: u64
  x_chk_mask :: u64
  x_fifo_size :: nat
  x_collect_key :: h2_key
  x_collect :: "xop_fifo list"
  x_cluster :: cluster
  x_refs :: "cl_chain multiset"

abbreviation (input) x_item :: "xop \<Rightarrow> nat \<Rightarrow> cluster_item" where
  "x_item x i \<equiv> cl_array (x_cluster x) ! i"

abbreviation (input) x_nchains :: "xop \<Rightarrow> nat" where
  "x_nchains x \<equiv> length (cl_array (x_cluster x))"

definition set_item :: "nat \<Rightarrow> cluster_item \<Rightarrow> xop \<Rightarrow> xop" where
  "set_item i it x = x\<lparr>x_cluster := (x_cluster x)\<lparr>cl_array := (cl_array (x_cluster x))[i := it]\<rparr>\<rparr>"

definition set_fifo :: "nat \<Rightarrow> xop_fifo \<Rightarrow> xop \<Rightarrow> xop" where
  "set_fifo i fifo x = x\<lparr>x_collect := (x_collect x)[i := fifo]\<rparr>"

text \<open>\<open>hammer2_chain_ref_hold\<close> and \<open>hammer2_chain_drop_unhold\<close> of a chain that can be \<open>NULL\<close>.\<close>

definition hold_chain :: "cl_chain option \<Rightarrow> xop \<Rightarrow> xop" where
  "hold_chain c x = (case c of None \<Rightarrow> x | Some ch \<Rightarrow> x\<lparr>x_refs := add_mset ch (x_refs x)\<rparr>)"

definition drop_chain :: "cl_chain option \<Rightarrow> xop \<Rightarrow> xop option" where
  "drop_chain c x = (case c of None \<Rightarrow> Some x
     | Some ch \<Rightarrow> if ch \<in># x_refs x then Some (x\<lparr>x_refs := x_refs x - {#ch#}\<rparr>) else None)"

section \<open>Allocation and start\<close>

definition fifo_zero :: xop_fifo where
  "fifo_zero = \<lparr>ff_array = [], ff_errors = [], ff_ri = 0, ff_wi = 0\<rparr>"

definition realloc :: "nat \<Rightarrow> nat \<Rightarrow> 'a \<Rightarrow> 'a list \<Rightarrow> 'a list option" where
  "realloc new_nmemb old_nmemb zero a =
     (if a = [] then Some (replicate new_nmemb zero)
      else if old_nmemb \<le> length a then Some (take old_nmemb a @ replicate (new_nmemb - old_nmemb) zero)
      else None)"

definition hammer2_xop_fifo_alloc :: "nat \<Rightarrow> nat \<Rightarrow> xop_fifo \<Rightarrow> xop_fifo option" where
  "hammer2_xop_fifo_alloc new_nmemb old_nmemb fifo = do {
     kkassert (old_nmemb < new_nmemb);
     kkassert (if old_nmemb = 0 then ff_array fifo = [] \<and> ff_errors fifo = [] else ff_array fifo \<noteq> [] \<and> ff_errors fifo \<noteq> []);
     kkassert (new_nmemb AND (new_nmemb - 1) = 0);
     kkassert (XOPFIFO \<le> new_nmemb);
     array \<leftarrow> realloc new_nmemb old_nmemb None (ff_array fifo);
     errors \<leftarrow> realloc new_nmemb old_nmemb 0 (ff_errors fifo);
     Some (fifo\<lparr>ff_array := array, ff_errors := errors\<rparr>)
   }"

definition cluster_zero :: "pfs \<Rightarrow> nat \<Rightarrow> cluster" where
  "cluster_zero pmp nchains = \<lparr>cl_ddflag = False, cl_pmp = Some pmp, cl_flags = 0, cl_error = 0, cl_focus_index = 0,
     cl_focus = None, cl_array = replicate nchains \<lparr>ci_chain = None, ci_error = 0, ci_flags = 0\<rparr>\<rparr>"

definition hammer2_xop_alloc :: "pfs \<Rightarrow> nat \<Rightarrow> bool \<Rightarrow> trans \<Rightarrow> (xop \<times> trans) option" where
  "hammer2_xop_alloc pmp nchains modifying tr = do {
     let (mtid, tr) = (if modifying then hammer2_trans_sub tr else (0, tr));
     kkassert (nchains \<le> MAXCLUSTER);
     fifo \<leftarrow> hammer2_xop_fifo_alloc XOPFIFO 0 fifo_zero;
     Some (\<lparr>x_mtid = mtid, x_run_mask = XOPMASK_VOP, x_chk_mask = 0, x_fifo_size = XOPFIFO, x_collect_key = 0,
            x_collect = replicate nchains fifo @ replicate (MAXCLUSTER - nchains) fifo_zero,
            x_cluster = cluster_zero pmp nchains, x_refs = {#}\<rparr>, tr)
   }"

text \<open>The nodes an xop goes to: those with a chain of the inode; of a modifying operation that is not a
flush or a synchronisation only the masters, when the cluster has more than one node.\<close>

definition xop_takes :: "pfs \<Rightarrow> cl_chain option list \<Rightarrow> bool \<Rightarrow> bool \<Rightarrow> int \<Rightarrow> nat \<Rightarrow> bool" where
  "xop_takes pmp node_chains modifying everywhere notidx i \<longleftrightarrow> int i \<noteq> notidx \<and> node_chains ! i \<noteq> None \<and>
     \<not> (2 \<le> length node_chains \<and> modifying \<and> \<not> everywhere \<and>
        pfs_types pmp ! i \<noteq> PFSTYPE_MASTER \<and> pfs_types pmp ! i \<noteq> PFSTYPE_SUPROOT)"

text \<open>The xop and the nodes on whose queue it was put.\<close>

definition hammer2_xop_start_except ::
  "pfs \<Rightarrow> cl_chain option list \<Rightarrow> bool \<Rightarrow> bool \<Rightarrow> int \<Rightarrow> xop \<Rightarrow> (xop \<times> nat list) option" where
  "hammer2_xop_start_except pmp node_chains modifying everywhere notidx x = do {
     kkassert (length node_chains \<le> MAXCLUSTER);
     Some (fold (\<lambda>i (x, started).
       if xop_takes pmp node_chains modifying everywhere notidx i
       then (x\<lparr>x_run_mask := x_run_mask x OR push_bit i 1, x_chk_mask := x_chk_mask x OR push_bit i 1\<rparr>, started @ [i])
       else (x, started)) [0..<length node_chains] (x, []))
   }"

section \<open>Feeding\<close>

definition hammer2_xop_active :: "xop \<Rightarrow> bool" where
  "hammer2_xop_active x \<longleftrightarrow> x_run_mask x AND XOPMASK_VOP \<noteq> 0"

text \<open>The loop that makes room; the flag is whether the front end is still there.\<close>

lemma fifo_alloc_keeps:
  assumes "hammer2_xop_fifo_alloc n k fifo = Some fifo'"
  shows "ff_ri fifo' = ff_ri fifo" "ff_wi fifo' = ff_wi fifo" "k < n"
  using assms by (auto simp: hammer2_xop_fifo_alloc_def bind_Some_iff)

lemma nth_update_field: "g y = g (xs ! i) \<Longrightarrow> g (xs[i := y] ! i) = g (xs ! i)"
  by (metis list_update_beyond not_le nth_list_update_eq)

function feed_grow :: "nat \<Rightarrow> xop \<Rightarrow> (bool \<times> xop) option" where
  "feed_grow clindex x =
     (let fifo = x_collect x ! clindex; old_fifo_size = x_fifo_size x in
      if int (ff_ri fifo) = int (ff_wi fifo) - int old_fifo_size then
        (if x_run_mask x AND XOPMASK_VOP = 0 then Some (False, x)
         else if 2 ^ 31 \<le> 2 * int old_fifo_size then None
         else (case hammer2_xop_fifo_alloc (2 * old_fifo_size) old_fifo_size fifo of
                 None \<Rightarrow> None
               | Some fifo \<Rightarrow> feed_grow clindex (set_fifo clindex fifo (x\<lparr>x_fifo_size := 2 * old_fifo_size\<rparr>))))
      else Some (True, x))"
  by pat_completeness auto
termination
proof (relation "measure (\<lambda>(i, x). if ff_ri (x_collect x ! i) + x_fifo_size x = ff_wi (x_collect x ! i) then 1 else 0)")
  fix i :: nat and x :: xop and fifo k fifo'
  assume f: "fifo = x_collect x ! i" "k = x_fifo_size x" "int (ff_ri fifo) = int (ff_wi fifo) - int k"
    and a: "hammer2_xop_fifo_alloc (2 * k) k fifo = Some fifo'"
  let ?x = "set_fifo i fifo' (x\<lparr>x_fifo_size := 2 * k\<rparr>)"
  have "ff_ri (x_collect ?x ! i) = ff_ri (x_collect x ! i)" "ff_wi (x_collect ?x ! i) = ff_wi (x_collect x ! i)"
    using fifo_alloc_keeps(1,2) [OF a, unfolded f(1)] by (simp_all add: set_fifo_def nth_update_field)
  moreover have "ff_ri (x_collect x ! i) + k = ff_wi (x_collect x ! i)" using f(3) unfolding f(1) by linarith
  moreover have "x_fifo_size ?x = 2 * k" "0 < k" using fifo_alloc_keeps(3) [OF a] by (simp_all add: set_fifo_def)
  ultimately show "((i, ?x), (i, x)) \<in> measure (\<lambda>(i, x). if ff_ri (x_collect x ! i) + x_fifo_size x = ff_wi (x_collect x ! i) then 1 else 0)"
    unfolding f(2) in_measure prod.case by simp
qed simp

declare feed_grow.simps [simp del]

text \<open>The error, whether the collector is woken, and the xop.\<close>

definition hammer2_xop_feed :: "cl_chain option \<Rightarrow> nat \<Rightarrow> int \<Rightarrow> xop \<Rightarrow> (int \<times> bool \<times> xop) option" where
  "hammer2_xop_feed ch clindex error x =
     (if \<not> hammer2_xop_active x then Some (H2_ABORTED, False, x)
      else do {
        kkassert (clindex < length (x_collect x));
        (room, x) \<leftarrow> feed_grow clindex x;
        if \<not> room then Some (H2_ABORTED, False, x)
        else do {
          let x = hold_chain ch x;
          let error = (case ch of None \<Rightarrow> error | Some c \<Rightarrow> if error = 0 then ch_error c else error);
          let fifo = x_collect x ! clindex;
          let j = ff_wi fifo AND (x_fifo_size x - 1);
          kkassert (j < length (ff_errors fifo) \<and> j < length (ff_array fifo) \<and> int (ff_wi fifo) + 1 < 2 ^ 31);
          let x = set_fifo clindex (fifo\<lparr>ff_errors := (ff_errors fifo)[j := error], ff_array := (ff_array fifo)[j := ch],
                                         ff_wi := ff_wi fifo + 1\<rparr>) x;
          let rmask = x_run_mask x;
          let x = x\<lparr>x_run_mask := rmask + XOPMASK_FEED\<rparr>;
          if rmask AND XOPMASK_WAIT \<noteq> 0 then Some (0, True, x\<lparr>x_run_mask := x_run_mask x AND NOT XOPMASK_WAIT\<rparr>)
          else Some (0, False, x)
        }
      })"

section \<open>Collecting\<close>

text \<open>The next result of a node becomes its item.\<close>

definition next_result :: "nat \<Rightarrow> xop \<Rightarrow> xop option" where
  "next_result i x =
     (let fifo = x_collect x ! i; j = ff_ri fifo AND (x_fifo_size x - 1); it = x_item x i in
      if i < length (x_collect x) \<and> ff_ri fifo < ff_wi fifo \<and> j < length (ff_array fifo) \<and> j < length (ff_errors fifo) then
        Some (set_item i (it\<lparr>ci_chain := ff_array fifo ! j, ci_error := ff_errors fifo ! j,
                             ci_flags := (if ff_array fifo ! j = None then ci_flags it OR CITEM_NULL else ci_flags it)\<rparr>)
               (set_fifo i (fifo\<lparr>ff_ri := ff_ri fifo + 1\<rparr>) x))
      else None)"

lemma drop_chain_keeps:
  "drop_chain c x = Some x' \<Longrightarrow> \<exists>r. x' = x\<lparr>x_refs := r\<rparr>"
  by (cases x) (auto simp: drop_chain_def split: option.splits if_splits)

text \<open>One element of the cluster; the state is the xop, \<open>lokey\<close> and \<open>keynull\<close>.\<close>

function collect_item :: "nat \<Rightarrow> xop \<times> h2_key \<times> u32 \<Rightarrow> (xop \<times> h2_key \<times> u32) option" where
  "collect_item i (x, lokey, keynull) =
     (let c = ci_chain (x_item x i);
          adv = (case c of None \<Rightarrow> True | Some ch \<Rightarrow> br_key (ch_bref ch) < x_collect_key x) in
      if \<not> adv then
        (let key = br_key (ch_bref (the c))
         in Some (x, if key < lokey then key else lokey, keynull AND NOT CHECK_NULL))
      else
        (case drop_chain c x of
           None \<Rightarrow> None
         | Some x \<Rightarrow>
             if ff_ri (x_collect x ! i) \<noteq> ff_wi (x_collect x ! i) then
               (case next_result i x of None \<Rightarrow> None | Some x \<Rightarrow> collect_item i (x, lokey, keynull))
             else Some (set_item i ((x_item x i)\<lparr>ci_chain := None\<rparr>) x, lokey, keynull)))"
  by pat_completeness auto
termination
proof (relation "measure (\<lambda>(i, x, l, k). ff_wi (x_collect x ! i) - ff_ri (x_collect x ! i))")
  fix i l k and x x1 x2 :: xop and c
  assume d: "drop_chain c x = Some x1" and n: "next_result i x1 = Some x2"
  obtain r where "x1 = x\<lparr>x_refs := r\<rparr>" using drop_chain_keeps [OF d] by blast
  then show "((i, x2, l, k), (i, x, l, k)) \<in> measure (\<lambda>(i, x, l, k). ff_wi (x_collect x ! i) - ff_ri (x_collect x ! i))"
    using n by (auto simp: next_result_def Let_def set_item_def set_fifo_def split: if_splits)
qed simp

declare collect_item.simps [simp del]

fun collect_items :: "nat list \<Rightarrow> xop \<times> h2_key \<times> u32 \<Rightarrow> (xop \<times> h2_key \<times> u32) option" where
  "collect_items [] st = Some st"
| "collect_items (i # ns) st = (case collect_item i st of None \<Rightarrow> None | Some st \<Rightarrow> collect_items ns st)"

definition collect_check :: "u32 \<Rightarrow> u64 \<Rightarrow> h2_key \<Rightarrow> u32 \<Rightarrow> xop \<Rightarrow> (int \<times> xop) option" where
  "collect_check flags rmask lokey keynull x =
     (if flags AND COLLECT_WAITALL \<noteq> 0 \<and> rmask AND XOPMASK_ALLDONE \<noteq> XOPMASK_VOP then Some (H2_EINPROGRESS, x)
      else map_option (\<lambda>(error, cl). (error, x\<lparr>x_cluster := cl\<rparr>)) (hammer2_cluster_check (x_cluster x) lokey keynull))"

text \<open>The advance does not change the key of the collection, and the keys it finds are not below.\<close>

lemma collect_item_key:
  "collect_item i st = Some st' \<Longrightarrow> x_collect_key (fst st) \<le> fst (snd st) \<Longrightarrow>
   x_collect_key (fst st') = x_collect_key (fst st) \<and> x_collect_key (fst st') \<le> fst (snd st')"
proof (induction i st arbitrary: st' rule: collect_item.induct)
  case (1 i x lokey keynull)
  let ?c = "ci_chain (x_item x i)" and ?adv = "case ci_chain (x_item x i) of None \<Rightarrow> True | Some ch \<Rightarrow> br_key (ch_bref ch) < x_collect_key x"
  show ?case
  proof (cases ?adv)
    case False
    then have "x_collect_key x \<le> br_key (ch_bref (the ?c))" by (auto split: option.splits)
    then show ?thesis using "1.prems" False by (subst (asm) collect_item.simps) (auto simp: Let_def)
  next
    case True
    then obtain x1 where d: "drop_chain ?c x = Some x1" using "1.prems"(1) by (subst (asm) collect_item.simps) (auto simp: Let_def split: option.splits)
    obtain r where r: "x1 = x\<lparr>x_refs := r\<rparr>" using drop_chain_keeps [OF d] by blast
    show ?thesis
    proof (cases "ff_ri (x_collect x1 ! i) \<noteq> ff_wi (x_collect x1 ! i)")
      case False
      then show ?thesis using "1.prems" True d r by (subst (asm) collect_item.simps) (auto simp: Let_def set_item_def)
    next
      case ne: True
      then obtain x2 where n: "next_result i x1 = Some x2" and rec: "collect_item i (x2, lokey, keynull) = Some st'"
        using "1.prems"(1) True d by (subst (asm) (2) collect_item.simps) (auto simp: Let_def split: option.splits)
      have k: "x_collect_key x = x_collect_key x2" using n r by (auto simp: next_result_def Let_def set_item_def set_fifo_def split: if_splits)
      show ?thesis using "1.IH" [OF refl refl _ d ne n rec] True "1.prems"(2) unfolding fst_conv snd_conv k by blast
    qed
  qed
qed

lemma collect_items_key:
  "collect_items ns st = Some st' \<Longrightarrow> x_collect_key (fst st) \<le> fst (snd st) \<Longrightarrow>
   x_collect_key (fst st') = x_collect_key (fst st) \<and> x_collect_key (fst st') \<le> fst (snd st')"
proof (induction ns arbitrary: st)
  case (Cons i ns)
  then obtain st1 where s: "collect_item i st = Some st1" "collect_items ns st1 = Some st'" by (auto split: option.splits)
  have k: "x_collect_key (fst st) = x_collect_key (fst st1)" "x_collect_key (fst st1) \<le> fst (snd st1)"
    using collect_item_key [OF s(1) Cons.prems(2)] by metis+
  show ?case using Cons.IH [OF s(2) k(2)] unfolding k(1) .
qed simp

lemma word_gap:
  assumes "k \<le> l" "l \<noteq> - 1"
  shows "unat (- 1 - (l + 1) :: 'a::len word) < unat (- 1 - k)"
proof -
  have u: "unat (- 1 - w) = unat (- 1 :: 'a word) - unat w" for w :: "'a word" by (simp add: unat_sub)
  have "unat (l + 1) = unat l + 1" by (rule word_Suc [OF assms(2)])
  moreover have "unat k \<le> unat l" "unat l < unat (- 1 :: 'a word)" using assms by (simp_all add: word_le_nat_alt word_order.not_eq_extremum word_less_nat_alt)
  ultimately show ?thesis unfolding u by linarith
qed

text \<open>The collector returns an error, or sleeps until a node feeds a result and then starts over.\<close>

datatype collect_result = Collected int xop | Sleeps xop

function hammer2_xop_collect :: "u32 \<Rightarrow> xop \<Rightarrow> collect_result option" where
  "hammer2_xop_collect flags x =
     (case collect_items [0..<x_nchains x] (x, - 1, CHECK_NULL) of
        None \<Rightarrow> None
      | Some (x1, lokey, keynull) \<Rightarrow>
          (case collect_check flags (x_run_mask x) lokey keynull x1 of
             None \<Rightarrow> None
           | Some (error, x2) \<Rightarrow>
               if error = H2_EINPROGRESS then
                 Some (if flags AND COLLECT_NOWAIT \<noteq> 0 then Collected error x2
                       else Sleeps (x2\<lparr>x_run_mask := x_run_mask x OR XOPMASK_WAIT\<rparr>))
               else if (error = H2_ESRCH \<or> error = H2_EDEADLK) \<and> lokey \<noteq> - 1 then
                 hammer2_xop_collect flags (x2\<lparr>x_collect_key := lokey + 1\<rparr>)
               else
                 Some (Collected (if error = H2_ESRCH then H2_ENOENT else error)
                        (x2\<lparr>x_collect_key := (if lokey = - 1 then lokey else lokey + 1)\<rparr>))))"
  by pat_completeness auto
termination
proof (relation "measure (\<lambda>(flags, x). unat (- 1 - x_collect_key x))")
  fix flags x p x1 p' lokey keynull p'' error x2
  assume s: "collect_items [0..<x_nchains x] (x, - 1, CHECK_NULL) = Some p" "(x1, p') = p" "(lokey, keynull) = p'"
    and l: "(error = H2_ESRCH \<or> error = H2_EDEADLK) \<and> lokey \<noteq> - 1"
  have "x_collect_key x \<le> lokey" using collect_items_key [OF s(1)] s(2,3) [symmetric] by auto
  then have "unat (- 1 - (lokey + 1)) < unat (- 1 - x_collect_key x)" using l by (intro word_gap) simp_all
  then show "((flags, x2\<lparr>x_collect_key := lokey + 1\<rparr>), flags, x) \<in> measure (\<lambda>(flags, x). unat (- 1 - x_collect_key x))"
    by simp
qed simp

declare hammer2_xop_collect.simps [simp del]

section \<open>Retiring\<close>

text \<open>The results that nobody collected.\<close>

function clean_fifo :: "nat \<Rightarrow> xop \<Rightarrow> xop option" where
  "clean_fifo i x =
     (let fifo = x_collect x ! i; j = ff_ri fifo AND (x_fifo_size x - 1) in
      if ff_ri fifo \<noteq> ff_wi fifo then
        (if i < length (x_collect x) \<and> ff_ri fifo < ff_wi fifo \<and> j < length (ff_array fifo) then
           (case drop_chain (ff_array fifo ! j) x of
              None \<Rightarrow> None
            | Some x \<Rightarrow> clean_fifo i (set_fifo i (fifo\<lparr>ff_ri := ff_ri fifo + 1\<rparr>) x))
         else None)
      else Some x)"
  by pat_completeness auto
termination
proof (relation "measure (\<lambda>(i, x). ff_wi (x_collect x ! i) - ff_ri (x_collect x ! i))")
  fix i and x x1 :: xop and fifo j
  assume f: "fifo = x_collect x ! i" "i < length (x_collect x) \<and> ff_ri fifo < ff_wi fifo \<and> j < length (ff_array fifo)"
    and d: "drop_chain (ff_array fifo ! j) x = Some x1"
  obtain r where "x1 = x\<lparr>x_refs := r\<rparr>" using drop_chain_keeps [OF d] by blast
  then show "((i, set_fifo i (fifo\<lparr>ff_ri := ff_ri fifo + 1\<rparr>) x1), i, x) \<in> measure (\<lambda>(i, x). ff_wi (x_collect x ! i) - ff_ri (x_collect x ! i))"
    using f by (auto simp: set_fifo_def)
qed simp

declare clean_fifo.simps [simp del]

fun clean_fifos :: "nat list \<Rightarrow> u64 \<Rightarrow> xop \<Rightarrow> xop option" where
  "clean_fifos [] rmask x = Some x"
| "clean_fifos (i # ns) rmask x =
     (if rmask = 0 then Some x
      else (case clean_fifo i x of
              None \<Rightarrow> None
            | Some x \<Rightarrow> clean_fifos ns (rmask AND ucast (NOT (push_bit i 1 :: u32))) x))"

fun clean_cluster :: "nat list \<Rightarrow> xop \<Rightarrow> xop option" where
  "clean_cluster [] x = Some x"
| "clean_cluster (i # ns) x =
     (let c = ci_chain (x_item x i) in
      case drop_chain c (set_item i ((x_item x i)\<lparr>ci_flags := 0, ci_chain := None\<rparr>) x) of
        None \<Rightarrow> None
      | Some x \<Rightarrow> clean_cluster ns x)"

text \<open>The xop lives on, and whether a sleeper is woken; or it is freed, with the items that are cached in the
inode and the references that the xop still has.\<close>

datatype retire_result = Retired xop bool | Freed "cluster_item list" "cl_chain multiset"

definition hammer2_xop_retire :: "u64 \<Rightarrow> xop \<Rightarrow> retire_result option" where
  "hammer2_xop_retire rmask x = do {
     kkassert (x_run_mask x AND rmask \<noteq> 0);
     let nmask = x_run_mask x;
     let x = x\<lparr>x_run_mask := nmask + (- rmask + XOPMASK_FEED)\<rparr>;
     if nmask AND XOPMASK_ALLDONE \<noteq> rmask then
       Some (Retired x ((rmask = XOPMASK_VOP \<and> nmask AND XOPMASK_FIFOW \<noteq> 0) \<or>
         ((nmask - rmask) AND XOPMASK_ALLDONE = XOPMASK_VOP \<and> (nmask - rmask) AND XOPMASK_WAIT \<noteq> 0)))
     else do {
       let ccache = cl_array (x_cluster x);
       x \<leftarrow> clean_cluster [0..<x_nchains x] x;
       x \<leftarrow> clean_fifos [0..<MAXCLUSTER] (x_chk_mask x) x;
       kkassert (\<forall>fifo \<in> set (take (x_nchains x) (x_collect x)). (ff_array fifo = [] \<or> 0 < x_fifo_size x) \<and> (ff_errors fifo = [] \<or> 0 < x_fifo_size x));
       Some (Freed ccache (x_refs x))
     }
   }"

end
