(* ===== verification/H2_XopProps.thy ===== *)
theory H2_XopProps
  imports H2_Xop
begin

text \<open>
  Lemmas of the cluster operations: what the quorum check keeps of the items, the ring buffer as a queue, the
  advance of the collector.
\<close>

section \<open>The quorum check keeps the items\<close>

definition keeps_items :: "cluster \<Rightarrow> cluster \<Rightarrow> bool" where
  "keeps_items cl cl' \<longleftrightarrow> item_chains cl' = item_chains cl \<and> map ci_error (cl_array cl') = map ci_error (cl_array cl) \<and>
     map (\<lambda>it. ci_flags it AND CITEM_NULL) (cl_array cl') = map (\<lambda>it. ci_flags it AND CITEM_NULL) (cl_array cl) \<and> cl_pmp cl' = cl_pmp cl"

lemma keeps_refl [simp]: "keeps_items cl cl"
  by (simp add: keeps_items_def)

lemma keeps_trans: "keeps_items a b \<Longrightarrow> keeps_items b c \<Longrightarrow> keeps_items a c"
  by (simp add: keeps_items_def)

lemma keeps_fields [simp]:
  "keeps_items cl (c\<lparr>cl_focus := x\<rparr>) = keeps_items cl c" "keeps_items cl (c\<lparr>cl_error := e\<rparr>) = keeps_items cl c"
  "keeps_items cl (c\<lparr>cl_focus_index := n\<rparr>) = keeps_items cl c" "keeps_items cl (c\<lparr>cl_ddflag := d\<rparr>) = keeps_items cl c"
  "keeps_items cl (c\<lparr>cl_flags := f\<rparr>) = keeps_items cl c"
  by (simp_all add: keeps_items_def item_chains_def)

lemma keeps_flags: "(\<And>x. f x AND CITEM_NULL = x AND CITEM_NULL) \<Longrightarrow> keeps_items cl (item_flags i f cl)"
  using map_keep [of "\<lambda>it. ci_flags it AND CITEM_NULL" "(cl_array cl ! i)\<lparr>ci_flags := f (ci_flags (cl_array cl ! i))\<rparr>" "cl_array cl" i]
  unfolding keeps_items_def item_flags_simps by (simp add: item_flags_def)

lemma null_flag:
  "((x AND NOT CITEM_FEMOD) OR CITEM_INVALID) AND CITEM_NULL = x AND CITEM_NULL"
  "((x OR CITEM_FEMOD) AND NOT CITEM_INVALID) AND CITEM_NULL = x AND CITEM_NULL"
  "(x AND NOT CITEM_INVALID) AND CITEM_NULL = x AND CITEM_NULL"
  "(x OR CITEM_INVALID) AND CITEM_NULL = x AND CITEM_NULL" for x :: u32
  by (simp_all add: bit.conj_disj_distrib2 and.assoc)

lemma keeps_fold:
  assumes "\<And>i st. keeps_items (fst st) (fst (f i st))"
  shows "keeps_items (fst st) (fst (fold f xs st))"
proof (induction xs arbitrary: st)
  case (Cons x xs)
  show ?case using keeps_trans [OF assms Cons.IH] by simp
qed simp

lemma keeps_pass1: "keeps_items (fst st) (fst (check_pass1 pmp i st))"
  using keeps_flags [OF null_flag(1), of "fst st" i] by (cases st) (simp add: check_pass1_def Let_def)

lemma keeps_pass2_item: "keeps_items (fst st) (fst (check_pass2_item pmp key flags last_tid i st))"
  by (cases st) (auto simp: check_pass2_item_def Let_def split: option.splits)

lemma keeps_pass2_scan: "keeps_items cl (fst (check_pass2_scan pmp key flags last_tid cl))"
  unfolding check_pass2_scan_def by (rule keeps_fold [where st = "(cl, q)" for q, unfolded fst_conv]) (rule keeps_pass2_item)

lemma keeps_pass2: "keeps_items cl (fst (check_pass2 pmp nq key flags last_tid cl q))"
proof (induction pmp nq key flags last_tid cl q rule: check_pass2.induct)
  case (1 pmp nq key flags last_tid cl q)
  obtain c1 q1 where s: "check_pass2_scan pmp key flags last_tid cl = (c1, q1)" by (cases "check_pass2_scan pmp key flags last_tid cl")
  have k: "keeps_items cl c1" using keeps_pass2_scan [of cl pmp key flags last_tid] s by simp
  show ?case using "1.IH" [OF _ s [symmetric]] k s by (subst check_pass2.simps) (auto intro: keeps_trans)
qed

lemma keeps_pass3: "keeps_items (fst st) (fst (check_pass3 pmp key t i st))"
proof -
  obtain cl f s where st: "st = (cl, f, s)" by (cases st) auto
  have "keeps_items cl (item_flags i (\<lambda>f. (f OR CITEM_FEMOD) AND NOT CITEM_INVALID) c)" "keeps_items cl (item_flags i (\<lambda>f. f AND NOT CITEM_INVALID) c)"
    if "keeps_items cl c" for c using that keeps_trans keeps_flags null_flag by meson+
  then show ?thesis unfolding st by (auto simp: check_pass3_def Let_def split: option.splits)
qed

lemma keeps_validate: "keeps_items cl (check_validate cl)"
proof -
  have "keeps_items c (check_pass4 f fch i c)" for f fch i c
    using keeps_flags [OF null_flag(4)] by (auto simp: check_pass4_def Let_def split: option.splits)
  then have "keeps_items c (fold (check_pass4 f fch) xs c)" for f fch xs c
  proof (induction xs arbitrary: c)
    case (Cons x xs)
    show ?case using keeps_trans [OF Cons.prems Cons.IH [OF Cons.prems]] by simp
  qed simp
  then have "keeps_items cl (fold (check_pass4 f fch) xs (cl\<lparr>cl_ddflag := d\<rparr>))" for f fch xs d
    by (rule keeps_trans [rotated]) simp
  then show ?thesis by (auto simp: check_validate_def Let_def split: option.splits)
qed

lemma check_keeps:
  assumes "hammer2_cluster_check cl key flags = Some (e, cl')"
  shows "keeps_items cl cl'"
proof -
  let ?c0 = "cl\<lparr>cl_error := 0, cl_focus := None\<rparr>" and ?q0 = "\<lparr>q_umasters = 0, q_nmasters = 0, q_keymatch = 0, q_tid = 0\<rparr>"
  let ?pmp = "case cl_pmp ?c0 of None \<Rightarrow> \<lparr>pfs_types = [], pfs_nmasters = 0\<rparr> | Some pmp \<Rightarrow> pmp" and ?n = "length (cl_array ?c0)"
  obtain c1 nf m s where f1: "fold (check_pass1 ?pmp) [0..<?n] (?c0, 0, 0, 0) = (c1, nf, m, s)"
    by (cases "fold (check_pass1 ?pmp) [0..<?n] (?c0, 0, 0, 0)") auto
  obtain c2 q where f2: "check_pass2 ?pmp (cluster_nquorum ?c0) key flags HAMMER2_TID_MAX c1 ?q0 = (c2, q)"
    by (cases "check_pass2 ?pmp (cluster_nquorum ?c0) key flags HAMMER2_TID_MAX c1 ?q0")
  obtain c3 f3 s3 where f3: "fold (check_pass3 ?pmp key (q_tid q)) [0..<?n] (c2\<lparr>cl_error := 0\<rparr>, nf, 0) = (c3, f3, s3)"
    by (cases "fold (check_pass3 ?pmp key (q_tid q)) [0..<?n] (c2\<lparr>cl_error := 0\<rparr>, nf, 0)") auto
  have k1: "keeps_items cl c1" using keeps_fold [where f = "check_pass1 ?pmp" and st = "(?c0, 0, 0, 0)" and xs = "[0..<?n]", OF keeps_pass1] unfolding f1
    by (auto intro: keeps_trans [rotated])
  have k2: "keeps_items cl c2" using keeps_pass2 [of c1 ?pmp "cluster_nquorum ?c0" key flags HAMMER2_TID_MAX ?q0] k1 unfolding f2
    by (auto intro: keeps_trans)
  have "keeps_items (c2\<lparr>cl_error := 0\<rparr>) c3" using keeps_fold [where f = "check_pass3 ?pmp key (q_tid q)" and st = "(c2\<lparr>cl_error := 0\<rparr>, nf, 0)" and xs = "[0..<?n]", OF keeps_pass3] unfolding f3
    by simp
  moreover have "keeps_items cl (c2\<lparr>cl_error := 0\<rparr>)" using k2 by simp
  ultimately have k3: "keeps_items cl (check_validate c3)" using keeps_validate keeps_trans by blast
  have k2': "keeps_items cl (if b then c2\<lparr>cl_error := d\<rparr> else c2)" for b d using k2 by simp
  show ?thesis
    using assms unfolding hammer2_cluster_check_def Let_def kkassert_bind f1 f2 f3 prod.case
    using k2 k2' k3 by (auto split: if_splits)
qed

section \<open>The ring buffer\<close>

definition pow2 :: "nat \<Rightarrow> bool" where
  "pow2 sz \<longleftrightarrow> (\<exists>k. sz = 2 ^ k) \<and> XOPFIFO \<le> sz"

definition fifo_ok :: "nat \<Rightarrow> xop_fifo \<Rightarrow> bool" where
  "fifo_ok sz f \<longleftrightarrow> length (ff_array f) = sz \<and> length (ff_errors f) = sz \<and> ff_ri f \<le> ff_wi f \<and> ff_wi f \<le> ff_ri f + sz"

definition entry :: "nat \<Rightarrow> xop_fifo \<Rightarrow> nat \<Rightarrow> cl_chain option \<times> int" where
  "entry sz f j = (ff_array f ! (j mod sz), ff_errors f ! (j mod sz))"

definition entries :: "nat \<Rightarrow> xop_fifo \<Rightarrow> (cl_chain option \<times> int) list" where
  "entries sz f = map (entry sz f) [ff_ri f..<ff_wi f]"

lemma pow2_and: "pow2 sz \<Longrightarrow> j AND (sz - 1) = j mod sz"
  using nat_and_mask [of j] by (auto simp: pow2_def mask_eq_exp_minus_1)

lemma pow2_double:
  assumes "pow2 sz"
  shows "pow2 (2 * sz)" "2 * sz AND (2 * sz - 1) = 0" "0 < sz" "XOPFIFO \<le> 2 * sz"
proof -
  obtain k where k: "sz = 2 ^ k" using assms by (auto simp: pow2_def)
  show p: "pow2 (2 * sz)" using assms k by (auto simp: pow2_def intro: exI [of _ "Suc k"])
  show "2 * sz AND (2 * sz - 1) = 0" using pow2_and [OF p, of "2 * sz"] by simp
  show "0 < sz" "XOPFIFO \<le> 2 * sz" using assms by (auto simp: pow2_def)
qed

text \<open>A window of at most \<open>sz\<close> indices uses every slot at most once.\<close>

lemma window_mod:
  assumes "(a :: nat) \<le> i" "i < j" "j < a + sz"
  shows "i mod sz \<noteq> j mod sz"
proof
  assume "i mod sz = j mod sz"
  then have "sz dvd j - i" using assms(2) by (metis mod_eq_dvd_iff_nat less_imp_le)
  then show False using assms by (auto dest: dvd_imp_le)
qed

definition push :: "nat \<Rightarrow> cl_chain option \<Rightarrow> int \<Rightarrow> xop_fifo \<Rightarrow> xop_fifo" where
  "push sz c e f = f\<lparr>ff_errors := (ff_errors f)[ff_wi f mod sz := e], ff_array := (ff_array f)[ff_wi f mod sz := c], ff_wi := ff_wi f + 1\<rparr>"

lemma push_entries:
  assumes "fifo_ok sz f" "ff_wi f < ff_ri f + sz"
  shows "fifo_ok sz (push sz c e f)" "entries sz (push sz c e f) = entries sz f @ [(c, e)]"
proof -
  have l: "ff_wi f mod sz < length (ff_array f)" "ff_wi f mod sz < length (ff_errors f)" using assms by (auto simp: fifo_ok_def)
  show "fifo_ok sz (push sz c e f)" using assms by (auto simp: fifo_ok_def push_def)
  have "entry sz (push sz c e f) j = entry sz f j" if "ff_ri f \<le> j" "j < ff_wi f" for j
    using window_mod [OF that assms(2)] by (simp add: entry_def push_def nth_list_update)
  moreover have "entry sz (push sz c e f) (ff_wi f) = (c, e)" using l by (simp add: entry_def push_def)
  moreover have "[ff_ri f..<ff_wi f + 1] = [ff_ri f..<ff_wi f] @ [ff_wi f]" using assms(1) by (simp add: fifo_ok_def)
  moreover have "ff_ri (push sz c e f) = ff_ri f" "ff_wi (push sz c e f) = ff_wi f + 1" by (simp_all add: push_def)
  ultimately show "entries sz (push sz c e f) = entries sz f @ [(c, e)]" unfolding entries_def by simp
qed

lemma pop_entries:
  assumes "fifo_ok sz f" "ff_ri f \<noteq> ff_wi f"
  shows "fifo_ok sz (f\<lparr>ff_ri := ff_ri f + 1\<rparr>)" "entries sz f = entry sz f (ff_ri f) # entries sz (f\<lparr>ff_ri := ff_ri f + 1\<rparr>)"
proof -
  have lt: "ff_ri f < ff_wi f" using assms by (auto simp: fifo_ok_def)
  show "fifo_ok sz (f\<lparr>ff_ri := ff_ri f + 1\<rparr>)" using assms lt by (auto simp: fifo_ok_def)
  have "entry sz (f\<lparr>ff_ri := ff_ri f + 1\<rparr>) = entry sz f" by (simp add: entry_def [abs_def])
  then show "entries sz f = entry sz f (ff_ri f) # entries sz (f\<lparr>ff_ri := ff_ri f + 1\<rparr>)"
    using lt unfolding entries_def by (simp add: upt_conv_Cons)
qed

lemma entries_Nil: "fifo_ok sz f \<Longrightarrow> entries sz f = [] \<longleftrightarrow> ff_ri f = ff_wi f"
  by (auto simp: entries_def fifo_ok_def)

text \<open>The buffer grows: a result whose index has the new bit set is read as \<open>NULL\<close> from then on.\<close>

definition grown :: "nat \<Rightarrow> nat \<Rightarrow> xop_fifo \<Rightarrow> xop_fifo" where
  "grown n k f = f\<lparr>ff_array := ff_array f @ replicate (n - k) None, ff_errors := ff_errors f @ replicate (n - k) 0\<rparr>"

lemma fifo_alloc_grown:
  assumes "pow2 sz" "length (ff_array f) = sz" "length (ff_errors f) = sz"
  shows "hammer2_xop_fifo_alloc (2 * sz) sz f = Some (grown (2 * sz) sz f)"
  using pow2_double [OF assms(1)] assms(2,3) by (auto simp: hammer2_xop_fifo_alloc_def realloc_def grown_def kkassert_bind)

lemma grown_entry:
  assumes "fifo_ok sz f" "0 < sz"
  shows "entry (2 * sz) (grown (2 * sz) sz f) j = (if j mod (2 * sz) < sz then entry sz f j else (None, 0))"
proof -
  have "j mod (2 * sz) < 2 * sz" using assms(2) by simp
  moreover have "j mod (2 * sz) mod sz = j mod sz" by (rule mod_mod_cancel) simp
  ultimately show ?thesis using assms(1) by (auto simp: entry_def grown_def fifo_ok_def nth_append)
qed

lemma grown_entries:
  assumes "fifo_ok sz f" "0 < sz"
  shows "fifo_ok (2 * sz) (grown (2 * sz) sz f)"
    "entries (2 * sz) (grown (2 * sz) sz f) =
      map (\<lambda>j. if j mod (2 * sz) < sz then entry sz f j else (None, 0)) [ff_ri f..<ff_wi f]"
  using assms grown_entry [OF assms] by (auto simp: fifo_ok_def entries_def grown_def)

text \<open>Nothing is lost when the reader is at the start of a double turn, as at the beginning.\<close>

lemma grown_keeps:
  assumes "fifo_ok sz f" "0 < sz" "ff_ri f mod (2 * sz) = 0"
  shows "entries (2 * sz) (grown (2 * sz) sz f) = entries sz f"
proof -
  have "j mod (2 * sz) < sz" if "ff_ri f \<le> j" "j < ff_wi f" "ff_wi f < ff_ri f + sz \<or> j < ff_ri f + sz" for j
  proof -
    have "j < ff_ri f + sz" using that assms(1) by (auto simp: fifo_ok_def)
    then have "j mod (2 * sz) = (j - ff_ri f) mod (2 * sz)"
      using assms(3) that(1) by (metis le_add_diff_inverse mod_add_left_eq add_0)
    also have "\<dots> = j - ff_ri f" using \<open>j < ff_ri f + sz\<close> that(1) assms(2) by (intro mod_less) linarith
    finally show ?thesis using \<open>j < ff_ri f + sz\<close> that(1) by linarith
  qed
  moreover have "j < ff_ri f + sz" if "j < ff_wi f" for j using that assms(1) by (auto simp: fifo_ok_def)
  ultimately show ?thesis unfolding grown_entries(2) [OF assms(1,2)] unfolding entries_def by (intro map_cong) auto
qed

section \<open>What an xop owns\<close>

text \<open>The chains of a node that are still to be collected: its item and the results in its buffer.\<close>

definition node_stream :: "nat \<Rightarrow> cluster_item \<Rightarrow> xop_fifo \<Rightarrow> cl_chain list" where
  "node_stream sz it f = (case ci_chain it of None \<Rightarrow> [] | Some c \<Rightarrow> [c]) @ List.map_filter fst (entries sz f)"

definition stream :: "xop \<Rightarrow> nat \<Rightarrow> cl_chain list" where
  "stream x i = node_stream (x_fifo_size x) (x_item x i) (x_collect x ! i)"

definition owned :: "xop \<Rightarrow> cl_chain multiset" where
  "owned x = (\<Sum>i<x_nchains x. mset (stream x i))"

lemma owned_upd:
  fixes n :: nat
  assumes "i < n" "\<And>j. j < n \<Longrightarrow> j \<noteq> i \<Longrightarrow> g j = f j"
  shows "(\<Sum>j<n. g j) + f i = (\<Sum>j<n. f j) + (g i :: 'a::comm_monoid_add)"
proof -
  have "(\<Sum>j\<in>{..<n} - {i}. g j) = (\<Sum>j\<in>{..<n} - {i}. f j)" using assms(2) by (intro sum.cong) auto
  moreover have "(\<Sum>j<n. h j) = h i + (\<Sum>j\<in>{..<n} - {i}. h j)" for h :: "nat \<Rightarrow> 'a" using assms(1) by (intro sum.remove) simp_all
  ultimately show ?thesis by (simp add: ac_simps)
qed

definition xop_ok :: "xop \<Rightarrow> bool" where
  "xop_ok x \<longleftrightarrow> pow2 (x_fifo_size x) \<and> length (x_collect x) = MAXCLUSTER \<and> x_nchains x \<le> MAXCLUSTER \<and> cl_pmp (x_cluster x) \<noteq> None \<and>
     (\<forall>i < x_nchains x. fifo_ok (x_fifo_size x) (x_collect x ! i)) \<and>
     (\<forall>i < MAXCLUSTER. ff_ri (x_collect x ! i) \<noteq> ff_wi (x_collect x ! i) \<longrightarrow> i < x_nchains x \<and> bit (x_chk_mask x) i) \<and>
     x_refs x = owned x"

lemma xop_okD:
  assumes "xop_ok x"
  shows "pow2 (x_fifo_size x)" "length (x_collect x) = MAXCLUSTER" "x_nchains x \<le> MAXCLUSTER" "cl_pmp (x_cluster x) \<noteq> None"
    "i < x_nchains x \<Longrightarrow> fifo_ok (x_fifo_size x) (x_collect x ! i)"
    "i < MAXCLUSTER \<Longrightarrow> ff_ri (x_collect x ! i) \<noteq> ff_wi (x_collect x ! i) \<Longrightarrow> i < x_nchains x \<and> bit (x_chk_mask x) i"
    "x_refs x = owned x"
  using assms unfolding xop_ok_def by blast+

lemma set_simps [simp]:
  "x_cluster (set_fifo i f x) = x_cluster x" "x_refs (set_fifo i f x) = x_refs x" "x_fifo_size (set_fifo i f x) = x_fifo_size x"
  "x_collect_key (set_fifo i f x) = x_collect_key x" "x_run_mask (set_fifo i f x) = x_run_mask x" "x_chk_mask (set_fifo i f x) = x_chk_mask x"
  "x_collect (set_fifo i f x) = (x_collect x)[i := f]"
  "x_collect (set_item i it x) = x_collect x" "x_refs (set_item i it x) = x_refs x" "x_fifo_size (set_item i it x) = x_fifo_size x"
  "x_collect_key (set_item i it x) = x_collect_key x" "x_run_mask (set_item i it x) = x_run_mask x" "x_chk_mask (set_item i it x) = x_chk_mask x"
  "cl_array (x_cluster (set_item i it x)) = (cl_array (x_cluster x))[i := it]" "cl_pmp (x_cluster (set_item i it x)) = cl_pmp (x_cluster x)"
  by (simp_all add: set_fifo_def set_item_def)

lemma hold_simps [simp]:
  "x_cluster (hold_chain c x) = x_cluster x" "x_collect (hold_chain c x) = x_collect x" "x_fifo_size (hold_chain c x) = x_fifo_size x"
  "x_collect_key (hold_chain c x) = x_collect_key x" "x_run_mask (hold_chain c x) = x_run_mask x" "x_chk_mask (hold_chain c x) = x_chk_mask x"
  "x_refs (hold_chain c x) = mset (case c of None \<Rightarrow> [] | Some ch \<Rightarrow> [ch]) + x_refs x"
  by (auto simp: hold_chain_def split: option.splits)

section \<open>Feeding\<close>

definition fed_error :: "cl_chain option \<Rightarrow> int \<Rightarrow> int" where
  "fed_error c e = (case c of None \<Rightarrow> e | Some ch \<Rightarrow> if e = 0 then ch_error ch else e)"

lemma run_mask_feed:
  "(m + XOPMASK_FEED) AND XOPMASK_ALLDONE = m AND XOPMASK_ALLDONE" "((m + XOPMASK_FEED) AND NOT XOPMASK_WAIT) AND XOPMASK_ALLDONE = m AND XOPMASK_ALLDONE"
  for m :: u64
proof -
  have "take_bit 32 (m + XOPMASK_FEED) = take_bit 32 m"
  proof (rule iffD2 [OF word_unat_eq_iff])
    have "unat (m + XOPMASK_FEED) mod 2 ^ 32 = (unat m + 2 ^ 32) mod 2 ^ 64 mod 2 ^ 32" by (simp add: unat_word_ariths)
    also have "\<dots> = unat m mod 2 ^ 32" by (subst mod_mod_cancel) simp_all
    finally show "unat (take_bit 32 (m + XOPMASK_FEED)) = unat (take_bit 32 m)" by (simp only: unsigned_take_bit_eq take_bit_nat_def)
  qed
  then have low: "bit (m + XOPMASK_FEED) k = bit m k" if "k < 32" for k using that by (metis bit_take_bit_iff)
  have c: "bit XOPMASK_ALLDONE k \<Longrightarrow> k < 32" for k
  proof -
    have "XOPMASK_ALLDONE = take_bit 32 XOPMASK_ALLDONE" by simp
    then show "bit XOPMASK_ALLDONE k \<Longrightarrow> k < 32" by (metis bit_take_bit_iff)
  qed
  show f: "(m + XOPMASK_FEED) AND XOPMASK_ALLDONE = m AND XOPMASK_ALLDONE" by (rule bit_word_eqI) (use low c in \<open>auto simp: bit_and_iff\<close>)
  have "NOT XOPMASK_WAIT AND XOPMASK_ALLDONE = XOPMASK_ALLDONE" by simp
  then show "((m + XOPMASK_FEED) AND NOT XOPMASK_WAIT) AND XOPMASK_ALLDONE = m AND XOPMASK_ALLDONE" unfolding and.assoc using f by (simp only:)
qed

text \<open>The xop after a result was put into a buffer with room.\<close>

definition fed :: "cl_chain option \<Rightarrow> nat \<Rightarrow> int \<Rightarrow> xop \<Rightarrow> xop" where
  "fed c i e x = set_fifo i (push (x_fifo_size x) c (fed_error c e) (x_collect x ! i)) (hold_chain c x)"

lemma feed_run:
  assumes "hammer2_xop_active x" "i < length (x_collect x)" "feed_grow i x = Some (True, y)" "length (x_collect y) = length (x_collect x)"
    and "pow2 (x_fifo_size y)" "fifo_ok (x_fifo_size y) (x_collect y ! i)" "ff_wi (x_collect y ! i) + 1 < 2 ^ 31"
  shows "\<exists>w m. hammer2_xop_feed c i e x = Some (0, w, (fed c i e y)\<lparr>x_run_mask := m\<rparr>) \<and> m AND XOPMASK_ALLDONE = x_run_mask y AND XOPMASK_ALLDONE"
proof -
  let ?f = "x_collect y ! i" and ?m = "x_run_mask y + XOPMASK_FEED"
  have "0 < x_fifo_size y" by (rule pow2_double(3) [OF assms(5)])
  then have l: "ff_wi ?f mod x_fifo_size y < length (ff_errors ?f) \<and> ff_wi ?f mod x_fifo_size y < length (ff_array ?f) \<and> ff_wi ?f + 1 < 2 ^ 31"
    using assms(6,7) by (simp add: fifo_ok_def)
  have "hammer2_xop_feed c i e x = (if x_run_mask y AND XOPMASK_WAIT \<noteq> 0
      then Some (0, True, (fed c i e y)\<lparr>x_run_mask := ?m AND NOT XOPMASK_WAIT\<rparr>) else Some (0, False, (fed c i e y)\<lparr>x_run_mask := ?m\<rparr>))"
    unfolding hammer2_xop_feed_def Let_def pow2_and [OF assms(5)] kkassert_bind assms(3) hold_simps fed_def push_def fed_error_def
    using assms(1,2) l by (simp add: set_fifo_def pow2_and [OF assms(5), simplified])
  then show ?thesis using run_mask_feed [of "x_run_mask y"] by (auto split: if_splits)
qed

lemma grow_room:
  "ff_ri (x_collect x ! i) + x_fifo_size x \<noteq> ff_wi (x_collect x ! i) \<Longrightarrow> feed_grow i x = Some (True, x)"
  by (subst feed_grow.simps) (auto simp: Let_def)

definition grown_at :: "nat \<Rightarrow> xop \<Rightarrow> xop" where
  "grown_at i x = set_fifo i (grown (2 * x_fifo_size x) (x_fifo_size x) (x_collect x ! i)) (x\<lparr>x_fifo_size := 2 * x_fifo_size x\<rparr>)"

lemma grow_full:
  assumes "hammer2_xop_active x" "i < length (x_collect x)" "pow2 (x_fifo_size x)" "fifo_ok (x_fifo_size x) (x_collect x ! i)"
    and "ff_ri (x_collect x ! i) + x_fifo_size x = ff_wi (x_collect x ! i)" "x_fifo_size x < 2 ^ 30"
  shows "feed_grow i x = Some (True, grown_at i x)"
proof -
  let ?f = "x_collect x ! i" and ?k = "x_fifo_size x"
  have a: "hammer2_xop_fifo_alloc (2 * ?k) ?k ?f = Some (grown (2 * ?k) ?k ?f)"
    using fifo_alloc_grown [OF assms(3)] assms(4) by (simp add: fifo_ok_def)
  have c: "int (ff_ri ?f) = int (ff_wi ?f) - int ?k" "\<not> 2 ^ 31 \<le> 2 * ?k" "x_run_mask x AND XOPMASK_VOP \<noteq> 0"
    using assms by (simp_all add: hammer2_xop_active_def)
  have "feed_grow i x = feed_grow i (grown_at i x)"
    by (subst feed_grow.simps) (use c a in \<open>simp add: Let_def grown_at_def\<close>)
  moreover have "ff_ri (x_collect (grown_at i x) ! i) + x_fifo_size (grown_at i x) \<noteq> ff_wi (x_collect (grown_at i x) ! i)"
    using assms(2,5) pow2_double(3) [OF assms(3)] by (simp add: grown_at_def grown_def)
  ultimately show ?thesis using grow_room by metis
qed

lemma fed_stream:
  assumes "i < x_nchains x" "x_nchains x \<le> length (x_collect x)" "fifo_ok (x_fifo_size x) (x_collect x ! i)"
    and "ff_wi (x_collect x ! i) < ff_ri (x_collect x ! i) + x_fifo_size x"
  shows "stream (fed c i e x) j = (if j = i then stream x i @ (case c of None \<Rightarrow> [] | Some ch \<Rightarrow> [ch]) else stream x j)"
    "fifo_ok (x_fifo_size x) (x_collect (fed c i e x) ! i)"
    "entries (x_fifo_size x) (x_collect (fed c i e x) ! i) = entries (x_fifo_size x) (x_collect x ! i) @ [(c, fed_error c e)]"
proof -
  have i: "i < length (x_collect x)" using assms by linarith
  note p = push_entries [OF assms(3,4), of c "fed_error c e"]
  show "fifo_ok (x_fifo_size x) (x_collect (fed c i e x) ! i)" using p(1) i by (simp add: fed_def)
  show e: "entries (x_fifo_size x) (x_collect (fed c i e x) ! i) = entries (x_fifo_size x) (x_collect x ! i) @ [(c, fed_error c e)]"
    using p(2) i by (simp add: fed_def)
  have "x_fifo_size (fed c i e x) = x_fifo_size x" "x_item (fed c i e x) j = x_item x j" "j \<noteq> i \<longrightarrow> x_collect (fed c i e x) ! j = x_collect x ! j"
    by (simp_all add: fed_def)
  then show "stream (fed c i e x) j = (if j = i then stream x i @ (case c of None \<Rightarrow> [] | Some ch \<Rightarrow> [ch]) else stream x j)"
    using e by (auto simp: stream_def node_stream_def List.map_filter_def split: option.splits)
qed

text \<open>A result finds room when the buffer is not full, or when it can grow without a loss: the xop has one node and
the reader is at the start of a double turn.\<close>

definition feed_room :: "xop \<Rightarrow> nat \<Rightarrow> bool" where
  "feed_room x i \<longleftrightarrow> ff_wi (x_collect x ! i) < 2 ^ 30 \<and>
     (ff_wi (x_collect x ! i) < ff_ri (x_collect x ! i) + x_fifo_size x \<or>
      x_nchains x = 1 \<and> ff_ri (x_collect x ! i) mod (2 * x_fifo_size x) = 0)"

lemma grown_at_ok:
  assumes "xop_ok x" "x_nchains x = 1" "ff_ri (x_collect x ! 0) mod (2 * x_fifo_size x) = 0"
  shows "xop_ok (grown_at 0 x)" "stream (grown_at 0 x) 0 = stream x 0"
proof -
  note d = xop_okD [OF assms(1)]
  have f: "fifo_ok (x_fifo_size x) (x_collect x ! 0)" using d(5) [of 0] assms(2) by simp
  note p = pow2_double [OF d(1)]
  have e: "entries (2 * x_fifo_size x) (grown (2 * x_fifo_size x) (x_fifo_size x) (x_collect x ! 0)) = entries (x_fifo_size x) (x_collect x ! 0)"
    by (rule grown_keeps [OF f p(3) assms(3)])
  show s: "stream (grown_at 0 x) 0 = stream x 0" using e d(2) by (simp add: stream_def node_stream_def grown_at_def)
  have fok: "fifo_ok (2 * x_fifo_size x) (grown (2 * x_fifo_size x) (x_fifo_size x) (x_collect x ! 0))" by (rule grown_entries(1) [OF f p(3)])
  have own: "owned (grown_at 0 x) = owned x" using s assms(2) by (simp add: owned_def grown_at_def)
  have idx: "ff_ri (x_collect (grown_at 0 x) ! i) = ff_ri (x_collect x ! i) \<and> ff_wi (x_collect (grown_at 0 x) ! i) = ff_wi (x_collect x ! i)"
    if "i < MAXCLUSTER" for i using that d(2) by (auto simp: grown_at_def grown_def nth_list_update)
  show "xop_ok (grown_at 0 x)" unfolding xop_ok_def own
    using d p(1) fok idx assms(2) by (simp add: grown_at_def)
qed

lemma feed_ok_room:
  assumes "xop_ok x" "i < x_nchains x" "bit (x_chk_mask x) i" "ff_wi (x_collect x ! i) < ff_ri (x_collect x ! i) + x_fifo_size x"
  shows "xop_ok ((fed c i e x)\<lparr>x_run_mask := m\<rparr>)"
proof -
  note d = xop_okD [OF assms(1)]
  let ?y = "(fed c i e x)\<lparr>x_run_mask := m\<rparr>"
  have le: "x_nchains x \<le> length (x_collect x)" using d(2,3) by simp
  note f = fed_stream [OF assms(2) le d(5) [OF assms(2)] assms(4), of c e]
  have st: "stream ?y j = stream (fed c i e x) j" for j by (simp add: stream_def)
  have n: "x_nchains ?y = x_nchains x" by (simp add: fed_def)
  have "owned ?y + mset (stream x i) = owned x + mset (stream ?y i)"
    unfolding owned_def n by (rule owned_upd [OF assms(2)]) (simp add: st f(1))
  then have own: "owned ?y = mset (case c of None \<Rightarrow> [] | Some ch \<Rightarrow> [ch]) + owned x" unfolding st f(1) by (simp add: ac_simps)
  have "x_refs ?y = mset (case c of None \<Rightarrow> [] | Some ch \<Rightarrow> [ch]) + x_refs x" by (simp add: fed_def)
  then have refs: "x_refs ?y = owned ?y" unfolding own d(7) .
  have "fifo_ok (x_fifo_size x) (x_collect ?y ! j)" if "j < x_nchains x" for j
    using f(2) d(5) [OF that] by (cases "j = i") (simp_all add: fed_def)
  moreover have "j < x_nchains x \<and> bit (x_chk_mask x) j" if "j < MAXCLUSTER" "ff_ri (x_collect ?y ! j) \<noteq> ff_wi (x_collect ?y ! j)" for j
    using that d(6) [OF that(1)] assms(2,3) by (cases "j = i") (simp_all add: fed_def)
  ultimately show ?thesis using d(1-4) refs by (simp add: xop_ok_def fed_def)
qed

lemma feed_ok:
  assumes "xop_ok x" "i < x_nchains x" "bit (x_chk_mask x) i" "feed_room x i" "hammer2_xop_active x"
  shows "\<exists>w x'. hammer2_xop_feed c i e x = Some (0, w, x') \<and> xop_ok x' \<and> x_cluster x' = x_cluster x \<and> x_chk_mask x' = x_chk_mask x \<and>
    x_collect_key x' = x_collect_key x \<and> x_run_mask x' AND XOPMASK_ALLDONE = x_run_mask x AND XOPMASK_ALLDONE \<and>
    (\<forall>j < x_nchains x. stream x' j = (if j = i then stream x i @ (case c of None \<Rightarrow> [] | Some ch \<Rightarrow> [ch]) else stream x j))"
proof -
  note d = xop_okD [OF assms(1)]
  have i: "i < length (x_collect x)" using assms(2) d(2,3) by simp
  have main: ?thesis if g: "feed_grow i x = Some (True, y)" and y: "xop_ok y" "x_cluster y = x_cluster x" "x_chk_mask y = x_chk_mask x"
      "x_collect_key y = x_collect_key x" "x_run_mask y = x_run_mask x" "ff_wi (x_collect y ! i) = ff_wi (x_collect x ! i)"
      "ff_wi (x_collect y ! i) < ff_ri (x_collect y ! i) + x_fifo_size y" "\<forall>j < x_nchains x. stream y j = stream x j" for y
  proof -
    note dy = xop_okD [OF y(1)]
    have iy: "i < x_nchains y" "x_nchains y \<le> length (x_collect y)" using assms(2) y(2) dy(2,3) by simp_all
    have len: "length (x_collect y) = length (x_collect x)" "ff_wi (x_collect y ! i) + 1 < 2 ^ 31"
      using d(2) dy(2) y(6) assms(4) by (simp_all add: feed_room_def)
    obtain w m where r: "hammer2_xop_feed c i e x = Some (0, w, (fed c i e y)\<lparr>x_run_mask := m\<rparr>)" "m AND XOPMASK_ALLDONE = x_run_mask y AND XOPMASK_ALLDONE"
      using feed_run [OF assms(5) i g len(1) dy(1) dy(5) [OF iy(1)] len(2)] by blast
    have "xop_ok ((fed c i e y)\<lparr>x_run_mask := m\<rparr>)" using feed_ok_room [OF y(1) iy(1) _ y(7)] assms(3) y(3) by simp
    moreover have "stream ((fed c i e y)\<lparr>x_run_mask := m\<rparr>) j = (if j = i then stream x i @ (case c of None \<Rightarrow> [] | Some ch \<Rightarrow> [ch]) else stream x j)"
      if "j < x_nchains x" for j
      using fed_stream(1) [OF iy dy(5) [OF iy(1)] y(7), of c e j] y(8) that assms(2) by (simp add: stream_def)
    ultimately show ?thesis using r y by (intro exI conjI) (rule r(1), simp_all add: fed_def)
  qed
  show ?thesis
  proof (cases "ff_wi (x_collect x ! i) < ff_ri (x_collect x ! i) + x_fifo_size x")
    case True
    then show ?thesis using main [OF grow_room] assms(1) by simp
  next
    case False
    then have n: "x_nchains x = 1" "ff_ri (x_collect x ! i) mod (2 * x_fifo_size x) = 0" "i = 0" using assms(2,4) by (auto simp: feed_room_def)
    have full: "ff_ri (x_collect x ! i) + x_fifo_size x = ff_wi (x_collect x ! i)" using False d(5) [OF assms(2)] by (simp add: fifo_ok_def)
    then have "x_fifo_size x < 2 ^ 30" using assms(4) by (simp add: feed_room_def)
    then have g: "feed_grow i x = Some (True, grown_at i x)" by (rule grow_full [OF assms(5) i d(1) d(5) [OF assms(2)] full])
    show ?thesis
      by (rule main [OF g]) (use grown_at_ok [OF assms(1) n(1)] n full i pow2_double(3) [OF d(1)] in \<open>simp_all add: grown_at_def grown_def\<close>)
  qed
qed

section \<open>The advance of the collector\<close>

definition below :: "h2_key \<Rightarrow> cl_chain \<Rightarrow> bool" where
  "below k c \<longleftrightarrow> br_key (ch_bref c) < k"

text \<open>From an item and buffer to the next that is not below the key.\<close>

definition node_step :: "h2_key \<Rightarrow> nat \<Rightarrow> cluster_item \<Rightarrow> xop_fifo \<Rightarrow> cluster_item \<Rightarrow> xop_fifo \<Rightarrow> bool" where
  "node_step k sz it f it' f' \<longleftrightarrow> fifo_ok sz f' \<and> node_stream sz it' f' = dropWhile (below k) (node_stream sz it f) \<and>
     (ci_chain it' = None \<longrightarrow> entries sz f' = []) \<and> (\<forall>c. ci_chain it' = Some c \<longrightarrow> \<not> below k c) \<and>
     (\<exists>p. entries sz f = p @ entries sz f' \<and> (ci_error it' = ci_error it \<or> ci_error it' \<in> snd ` set p) \<and>
        (ci_flags it' AND CITEM_NULL \<noteq> 0 \<longleftrightarrow> ci_flags it AND CITEM_NULL \<noteq> 0 \<or> None \<in> fst ` set p))"

lemma node_step_pop:
  assumes "ci_chain it = None \<or> (\<exists>c. ci_chain it = Some c \<and> below k c)" "entries sz f = (c, e) # entries sz g"
    and "node_step k sz (it\<lparr>ci_chain := c, ci_error := e, ci_flags := (if c = None then ci_flags it OR CITEM_NULL else ci_flags it)\<rparr>) g it' f'"
  shows "node_step k sz it f it' f'"
proof -
  let ?n = "it\<lparr>ci_chain := c, ci_error := e, ci_flags := (if c = None then ci_flags it OR CITEM_NULL else ci_flags it)\<rparr>"
  have "dropWhile (below k) (node_stream sz it f) = dropWhile (below k) (node_stream sz ?n g)"
    using assms(1) unfolding node_stream_def assms(2) by (auto simp: List.map_filter_def split: option.splits)
  moreover have "(w OR CITEM_NULL) AND CITEM_NULL \<noteq> 0" for w :: u32 by (simp add: bit.conj_disj_distrib2)
  moreover obtain p where p: "entries sz g = p @ entries sz f'" "ci_error it' = ci_error ?n \<or> ci_error it' \<in> snd ` set p"
    "ci_flags it' AND CITEM_NULL \<noteq> 0 \<longleftrightarrow> ci_flags ?n AND CITEM_NULL \<noteq> 0 \<or> None \<in> fst ` set p"
    using assms(3) by (auto simp: node_step_def)
  ultimately show ?thesis using assms(2,3) unfolding node_step_def by (intro conjI exI [of _ "(c, e) # p"]) (auto split: if_splits)
qed

definition upd :: "nat \<Rightarrow> cluster_item \<Rightarrow> xop_fifo \<Rightarrow> cl_chain multiset \<Rightarrow> xop \<Rightarrow> xop" where
  "upd i it f r x = (set_item i it (set_fifo i f x))\<lparr>x_refs := r\<rparr>"

lemma upd_simps [simp]:
  "x_collect (upd i it f r x) = (x_collect x)[i := f]" "x_refs (upd i it f r x) = r" "x_fifo_size (upd i it f r x) = x_fifo_size x"
  "x_collect_key (upd i it f r x) = x_collect_key x" "x_run_mask (upd i it f r x) = x_run_mask x" "x_chk_mask (upd i it f r x) = x_chk_mask x"
  "cl_array (x_cluster (upd i it f r x)) = (cl_array (x_cluster x))[i := it]" "cl_pmp (x_cluster (upd i it f r x)) = cl_pmp (x_cluster x)"
  "upd i it' f' r' (upd i it f r x) = upd i it' f' r' x" "upd i (x_item x i) (x_collect x ! i) (x_refs x) x = x"
  by (simp_all add: upd_def set_item_def set_fifo_def)

lemma stream_upd:
  "i < x_nchains x \<Longrightarrow> x_nchains x \<le> length (x_collect x) \<Longrightarrow>
   stream (upd i it f r x) j = (if j = i then node_stream (x_fifo_size x) it f else stream x j)"
  by (simp add: stream_def)

text \<open>An update of one node that gives back what it takes out.\<close>

lemma upd_ok:
  assumes "xop_ok x" "i < x_nchains x" "fifo_ok (x_fifo_size x) f" "ff_ri f \<noteq> ff_wi f \<longrightarrow> ff_ri (x_collect x ! i) \<noteq> ff_wi (x_collect x ! i)"
    and "r + mset (stream x i) = x_refs x + mset (node_stream (x_fifo_size x) it f)"
  shows "xop_ok (upd i it f r x)"
proof -
  note d = xop_okD [OF assms(1)]
  have le: "x_nchains x \<le> length (x_collect x)" using d(2,3) by simp
  have n: "x_nchains (upd i it f r x) = x_nchains x" by simp
  have "owned (upd i it f r x) + mset (stream x i) = owned x + mset (stream (upd i it f r x) i)"
    unfolding owned_def n by (rule owned_upd [OF assms(2)]) (simp add: stream_upd [OF assms(2) le])
  then have "r = owned (upd i it f r x)" using assms(5) d(7) stream_upd [OF assms(2) le, of it f r i]
    by (metis add_right_cancel)
  moreover have "fifo_ok (x_fifo_size x) (x_collect (upd i it f r x) ! j)" if "j < x_nchains x" for j
    using d(5) [OF that] assms(3) le that by (cases "j = i") simp_all
  moreover have "j < x_nchains x \<and> bit (x_chk_mask x) j"
    if "j < MAXCLUSTER" "ff_ri (x_collect (upd i it f r x) ! j) \<noteq> ff_wi (x_collect (upd i it f r x) ! j)" for j
    using that d(6) [OF that(1)] d(6) [of i] assms(2,4) d(2,3) by (cases "j = i") simp_all
  ultimately show ?thesis using d(1-4) by (simp add: xop_ok_def)
qed

lemma owned_item:
  assumes "i < x_nchains x"
  shows "mset (stream x i) \<subseteq># owned x"
  unfolding owned_def using assms by (simp add: sum.remove [of "{..<x_nchains x}" i])

lemma drop_owned:
  assumes "xop_ok x" "i < x_nchains x"
  shows "\<exists>r. drop_chain (ci_chain (x_item x i)) x = Some (x\<lparr>x_refs := r\<rparr>) \<and>
    x_refs x = r + mset (case ci_chain (x_item x i) of None \<Rightarrow> [] | Some c \<Rightarrow> [c])"
proof (cases "ci_chain (x_item x i)")
  case (Some c)
  have "c \<in># mset (stream x i)" using Some by (simp add: stream_def node_stream_def)
  then have "c \<in># x_refs x" using owned_item [OF assms(2)] xop_okD(7) [OF assms(1)] mset_subset_eqD by metis
  then show ?thesis using Some by (auto simp: drop_chain_def)
qed (simp add: drop_chain_def)

lemma collect_item_spec:
  assumes "xop_ok x" "i < x_nchains x"
  shows "\<exists>it f r. collect_item i (x, lokey, keynull) =
      Some (upd i it f r x, case ci_chain it of None \<Rightarrow> (lokey, keynull)
        | Some c \<Rightarrow> (if br_key (ch_bref c) < lokey then br_key (ch_bref c) else lokey, keynull AND NOT CHECK_NULL)) \<and>
    xop_ok (upd i it f r x) \<and> node_step (x_collect_key x) (x_fifo_size x) (x_item x i) (x_collect x ! i) it f"
  using assms
proof (induction i "(x, lokey, keynull)" arbitrary: x rule: collect_item.induct)
  case (1 i x)
  let ?it = "x_item x i" and ?f = "x_collect x ! i" and ?k = "x_collect_key x" and ?sz = "x_fifo_size x"
  let ?adv = "case ci_chain ?it of None \<Rightarrow> True | Some ch \<Rightarrow> br_key (ch_bref ch) < ?k"
  note d = xop_okD [OF "1.prems"(1)]
  have le: "i < length (x_collect x)" using "1.prems"(2) d(2,3) by simp
  note fok = d(5) [OF "1.prems"(2)]
  show ?case
  proof (cases ?adv)
    case False
    then obtain c where c: "ci_chain ?it = Some c" "\<not> below ?k c" by (auto simp: below_def split: option.splits)
    have run: "collect_item i (x, lokey, keynull) = Some (upd i ?it ?f (x_refs x) x,
        if br_key (ch_bref c) < lokey then br_key (ch_bref c) else lokey, keynull AND NOT CHECK_NULL)"
      using c by (subst collect_item.simps) (simp add: Let_def below_def)
    have "node_step ?k ?sz ?it ?f ?it ?f" using c fok by (simp add: node_step_def node_stream_def)
    then show ?thesis using run c(1) "1.prems"(1) by (intro exI [of _ ?it] exI [of _ ?f] exI [of _ "x_refs x"]) simp
  next
    case adv: True
    obtain r where r: "drop_chain (ci_chain ?it) x = Some (x\<lparr>x_refs := r\<rparr>)"
      "x_refs x = r + mset (case ci_chain ?it of None \<Rightarrow> [] | Some c \<Rightarrow> [c])" using drop_owned [OF "1.prems"] by blast
    have gone: "ci_chain ?it = None \<or> (\<exists>c. ci_chain ?it = Some c \<and> below ?k c)" using adv by (auto simp: below_def split: option.splits)
    let ?x1 = "x\<lparr>x_refs := r\<rparr>"
    show ?thesis
    proof (cases "ff_ri ?f = ff_wi ?f")
      case True
      let ?n = "?it\<lparr>ci_chain := None\<rparr>"
      have run: "collect_item i (x, lokey, keynull) = Some (upd i ?n ?f r x, lokey, keynull)"
        using adv r(1) True by (subst collect_item.simps) (simp add: Let_def upd_def set_item_def set_fifo_def)
      have e: "entries ?sz ?f = []" using True fok by (simp add: entries_Nil)
      have "node_step ?k ?sz ?it ?f ?n ?f" using gone fok e by (auto simp: node_step_def node_stream_def List.map_filter_def)
      moreover have "xop_ok (upd i ?n ?f r x)"
        by (rule upd_ok [OF "1.prems" fok]) (use r(2) e in \<open>simp_all add: stream_def node_stream_def List.map_filter_def\<close>)
      ultimately show ?thesis using run by (intro exI [of _ ?n] exI [of _ ?f] exI [of _ r]) simp
    next
      case False
      obtain c e where ce: "entry ?sz ?f (ff_ri ?f) = (c, e)" by fastforce
      let ?n = "?it\<lparr>ci_chain := c, ci_error := e, ci_flags := (if c = None then ci_flags ?it OR CITEM_NULL else ci_flags ?it)\<rparr>"
      let ?g = "?f\<lparr>ff_ri := ff_ri ?f + 1\<rparr>"
      note p = pop_entries [OF fok False, unfolded ce]
      have sl: "ff_ri ?f mod ?sz < length (ff_array ?f)" "ff_ri ?f mod ?sz < length (ff_errors ?f)" "ff_ri ?f < ff_wi ?f"
        using fok False pow2_double(3) [OF d(1)] by (simp_all add: fifo_ok_def)
      have n: "next_result i ?x1 = Some (upd i ?n ?g r x)"
        using le sl ce pow2_and [OF d(1)] by (simp add: next_result_def Let_def entry_def upd_def set_item_def set_fifo_def)
      have run: "collect_item i (x, lokey, keynull) = collect_item i (upd i ?n ?g r x, lokey, keynull)"
        by (subst collect_item.simps) (use adv r(1) False n in \<open>simp add: Let_def\<close>)
      have ok: "xop_ok (upd i ?n ?g r x)"
        by (rule upd_ok [OF "1.prems" p(1)]) (use r(2) p(2) False in \<open>simp_all add: stream_def node_stream_def List.map_filter_def split: option.splits\<close>)
      have lt: "i < x_nchains (upd i ?n ?g r x)" using "1.prems"(2) by simp
      have ne: "ff_ri (x_collect ?x1 ! i) \<noteq> ff_wi (x_collect ?x1 ! i)" using False by simp
      obtain it f r' where IH: "collect_item i (upd i ?n ?g r x, lokey, keynull) =
          Some (upd i it f r' x, case ci_chain it of None \<Rightarrow> (lokey, keynull)
            | Some c \<Rightarrow> (if br_key (ch_bref c) < lokey then br_key (ch_bref c) else lokey, keynull AND NOT CHECK_NULL))"
        "xop_ok (upd i it f r' x)" "node_step ?k ?sz ?n ?g it f"
        using "1.hyps" [OF refl refl _ r(1) ne n ok lt] adv "1.prems"(2) le by auto
      have "node_step ?k ?sz ?it ?f it f" by (rule node_step_pop [OF gone p(2) IH(3)])
      then show ?thesis using IH run by auto
    qed
  qed
qed

text \<open>The scan of the first \<open>n\<close> items.\<close>

definition lowest :: "(nat \<Rightarrow> cl_chain option) \<Rightarrow> nat \<Rightarrow> h2_key \<Rightarrow> bool" where
  "lowest cs n k \<longleftrightarrow> (\<forall>i < n. \<forall>c. cs i = Some c \<longrightarrow> k \<le> br_key (ch_bref c)) \<and> (k = - 1 \<or> (\<exists>i < n. \<exists>c. cs i = Some c \<and> br_key (ch_bref c) = k))"

definition same_xop :: "xop \<Rightarrow> xop \<Rightarrow> bool" where
  "same_xop x x' \<longleftrightarrow> x_nchains x' = x_nchains x \<and> cl_pmp (x_cluster x') = cl_pmp (x_cluster x) \<and> x_fifo_size x' = x_fifo_size x \<and>
     x_run_mask x' = x_run_mask x \<and> x_chk_mask x' = x_chk_mask x"

lemma same_xop_trans: "same_xop x y \<Longrightarrow> same_xop y z \<Longrightarrow> same_xop x z"
  by (simp add: same_xop_def)

definition scan_done :: "xop \<Rightarrow> nat \<Rightarrow> xop \<Rightarrow> h2_key \<Rightarrow> u32 \<Rightarrow> bool" where
  "scan_done x n x' lokey keynull \<longleftrightarrow> xop_ok x' \<and> same_xop x x' \<and> x_collect_key x' = x_collect_key x \<and>
     (\<forall>i < n. node_step (x_collect_key x) (x_fifo_size x) (x_item x i) (x_collect x ! i) (x_item x' i) (x_collect x' ! i)) \<and>
     (\<forall>i \<ge> n. x_item x' i = x_item x i \<and> x_collect x' ! i = x_collect x ! i) \<and>
     lowest (\<lambda>i. ci_chain (x_item x' i)) n lokey \<and> keynull = (if \<exists>i < n. ci_chain (x_item x' i) \<noteq> None then 0 else CHECK_NULL)"

lemma collect_items_append:
  "collect_items (a @ b) st = (case collect_items a st of None \<Rightarrow> None | Some st' \<Rightarrow> collect_items b st')"
  by (induction a arbitrary: st) (auto split: option.splits)

lemma collect_items_spec:
  assumes "xop_ok x" "n \<le> x_nchains x"
  shows "\<exists>x' lokey keynull. collect_items [0..<n] (x, - 1, CHECK_NULL) = Some (x', lokey, keynull) \<and> scan_done x n x' lokey keynull"
  using assms(2)
proof (induction n)
  case 0
  then show ?case using assms(1) by (simp add: scan_done_def same_xop_def lowest_def)
next
  case (Suc n)
  then obtain y l k where y: "collect_items [0..<n] (x, - 1, CHECK_NULL) = Some (y, l, k)" "scan_done x n y l k" by auto
  have ok: "xop_ok y" and s: "same_xop x y" "x_collect_key y = x_collect_key x" and at: "x_item y n = x_item x n" "x_collect y ! n = x_collect x ! n"
    using y(2) by (auto simp: scan_done_def)
  have n: "n < x_nchains y" using s(1) Suc.prems by (simp add: same_xop_def)
  have nc: "n < length (x_collect y)" using n xop_okD(2,3) [OF ok] by simp
  obtain it f r where c: "collect_item n (y, l, k) = Some (upd n it f r y, case ci_chain it of None \<Rightarrow> (l, k)
        | Some c \<Rightarrow> (if br_key (ch_bref c) < l then br_key (ch_bref c) else l, k AND NOT CHECK_NULL))"
    "xop_ok (upd n it f r y)" "node_step (x_collect_key y) (x_fifo_size y) (x_item y n) (x_collect y ! n) it f"
    using collect_item_spec [OF ok n] by blast
  let ?x = "upd n it f r y"
  have items: "x_item ?x i = (if i = n then it else x_item y i)" "x_collect ?x ! i = (if i = n then f else x_collect y ! i)" for i
    using n nc by auto
  have k: "k = (if \<exists>i < n. ci_chain (x_item y i) \<noteq> None then 0 else CHECK_NULL)" and low: "lowest (\<lambda>i. ci_chain (x_item y i)) n l"
    using y(2) by (simp_all add: scan_done_def)
  have same: "same_xop x ?x" "x_collect_key ?x = x_collect_key x" using s by (simp_all add: same_xop_def)
  have steps: "\<forall>i < Suc n. node_step (x_collect_key x) (x_fifo_size x) (x_item x i) (x_collect x ! i) (x_item ?x i) (x_collect ?x ! i)"
    "\<forall>i \<ge> Suc n. x_item ?x i = x_item x i \<and> x_collect ?x ! i = x_collect x ! i"
    using y(2) c(3) s at unfolding items by (auto simp: scan_done_def same_xop_def less_Suc_eq)
  have ex: "(\<exists>i < Suc n. ci_chain (x_item ?x i) \<noteq> None) \<longleftrightarrow> (\<exists>i < n. ci_chain (x_item y i) \<noteq> None) \<or> ci_chain it \<noteq> None"
    unfolding items by (auto simp: less_Suc_eq)
  show ?case
  proof (cases "ci_chain it")
    case None
    have "lowest (\<lambda>i. ci_chain (x_item ?x i)) (Suc n) l" using low None unfolding lowest_def items by (auto simp: less_Suc_eq)
    then show ?thesis using y(1) c(1,2) same steps ex k None by (auto simp: collect_items_append scan_done_def)
  next
    case (Some a)
    let ?l = "if br_key (ch_bref a) < l then br_key (ch_bref a) else l"
    have "lowest (\<lambda>i. ci_chain (x_item ?x i)) (Suc n) ?l" using low Some unfolding lowest_def items by (fastforce simp: less_Suc_eq)
    moreover have "k AND NOT CHECK_NULL = 0" using k by simp
    ultimately show ?thesis using y(1) c(1,2) same steps ex Some by (auto simp: collect_items_append scan_done_def)
  qed
qed

text \<open>What the check adds: it changes neither the streams nor what is known of the nodes.\<close>

lemma keeps_node:
  assumes "keeps_items cl cl'" "i < length (cl_array cl)"
  shows "ci_chain (cl_array cl' ! i) = ci_chain (cl_array cl ! i)" "ci_error (cl_array cl' ! i) = ci_error (cl_array cl ! i)"
    "ci_flags (cl_array cl' ! i) AND CITEM_NULL = ci_flags (cl_array cl ! i) AND CITEM_NULL" "length (cl_array cl') = length (cl_array cl)"
proof -
  have k: "item_chains cl' = item_chains cl" "map ci_error (cl_array cl') = map ci_error (cl_array cl)"
    "map (\<lambda>it. ci_flags it AND CITEM_NULL) (cl_array cl') = map (\<lambda>it. ci_flags it AND CITEM_NULL) (cl_array cl)"
    using assms(1) by (simp_all add: keeps_items_def)
  show l: "length (cl_array cl') = length (cl_array cl)" using k(2) by (metis length_map)
  show "ci_chain (cl_array cl' ! i) = ci_chain (cl_array cl ! i)" using k(1) l assms(2) by (metis item_chains_nth)
  show "ci_error (cl_array cl' ! i) = ci_error (cl_array cl ! i)" using k(2) l assms(2) by (metis nth_map)
  show "ci_flags (cl_array cl' ! i) AND CITEM_NULL = ci_flags (cl_array cl ! i) AND CITEM_NULL"
    using arg_cong [OF k(3), of "\<lambda>xs. xs ! i"] l assms(2) by simp
qed

lemma check_stream:
  assumes "keeps_items (x_cluster x) cl" "i < x_nchains x"
  shows "stream (x\<lparr>x_cluster := cl\<rparr>) i = stream x i"
  using keeps_node(1) [OF assms] by (simp add: stream_def node_stream_def)

lemma check_ok:
  assumes "xop_ok x" "keeps_items (x_cluster x) cl"
  shows "xop_ok (x\<lparr>x_cluster := cl\<rparr>)" "same_xop x (x\<lparr>x_cluster := cl\<rparr>)"
proof -
  have l: "length (cl_array cl) = x_nchains x" and p: "cl_pmp cl = cl_pmp (x_cluster x)"
    using assms(2) unfolding keeps_items_def by (metis length_map)+
  have "owned (x\<lparr>x_cluster := cl\<rparr>) = owned x" unfolding owned_def using check_stream [OF assms(2)] l by simp
  then show "xop_ok (x\<lparr>x_cluster := cl\<rparr>)" using assms(1) l p by (simp add: xop_ok_def)
  show "same_xop x (x\<lparr>x_cluster := cl\<rparr>)" using l p by (simp add: same_xop_def)
qed

end
