(* ===== verification/H2_XopCollect.thy ===== *)
theory H2_XopCollect
  imports H2_XopProps
begin

text \<open>
  The collector: when all masters have finished, repeated collections return the keys on which a quorum of masters
  agrees, in ascending order.
\<close>

section \<open>Nodes that have finished\<close>

definition node_done :: "bool \<Rightarrow> nat \<Rightarrow> cluster_item \<Rightarrow> xop_fifo \<Rightarrow> bool" where
  "node_done master sz it f \<longleftrightarrow> ci_error it = 0 \<and> (\<forall>e \<in> set (entries sz f). snd e = 0) \<and>
     sorted_wrt (<) (map (br_key \<circ> ch_bref) (node_stream sz it f)) \<and>
     (\<forall>c \<in> set (node_stream sz it f). br_key (ch_bref c) \<noteq> - 1 \<and> br_modify_tid (ch_bref c) < HAMMER2_TID_MAX \<and> ch_error c = 0) \<and>
     (master \<longrightarrow> ci_flags it AND CITEM_NULL \<noteq> 0 \<or> None \<in> fst ` set (entries sz f))"

text \<open>All results of the masters are there, in the order of their keys and without errors, and the end was fed.\<close>

definition finished :: "pfs \<Rightarrow> xop \<Rightarrow> bool" where
  "finished pmp x \<longleftrightarrow> xop_ok x \<and> cl_pmp (x_cluster x) = Some pmp \<and>
     (\<forall>i < x_nchains x. node_done (is_master pmp i) (x_fifo_size x) (x_item x i) (x_collect x ! i))"

lemma sorted_dropWhile:
  "sorted_wrt (<) (map (br_key \<circ> ch_bref) xs) \<Longrightarrow> dropWhile (below k) xs = filter (\<lambda>c. \<not> below k c) xs"
proof (induction xs)
  case (Cons a xs)
  then have "\<not> below k a \<Longrightarrow> filter (\<lambda>c. \<not> below k c) xs = xs" by (auto simp: below_def filter_id_conv)
  then show ?case using Cons by simp
qed simp

lemma node_step_done:
  assumes "node_step k sz it f it' f'" "node_done m sz it f"
  shows "node_done m sz it' f'" "m \<and> ci_chain it' = None \<Longrightarrow> ci_flags it' AND CITEM_NULL \<noteq> 0"
    "node_stream sz it' f' = filter (\<lambda>c. \<not> below k c) (node_stream sz it f)"
proof -
  note s = assms(1) [unfolded node_step_def] and d = assms(2) [unfolded node_done_def]
  show st: "node_stream sz it' f' = filter (\<lambda>c. \<not> below k c) (node_stream sz it f)" using s d sorted_dropWhile by metis
  obtain p where p: "entries sz f = p @ entries sz f'" "ci_error it' = ci_error it \<or> ci_error it' \<in> snd ` set p"
    "ci_flags it' AND CITEM_NULL \<noteq> 0 \<longleftrightarrow> ci_flags it AND CITEM_NULL \<noteq> 0 \<or> None \<in> fst ` set p" using s by blast
  have "ci_error it' = 0" using p(1,2) d by (auto simp: image_iff)
  moreover have "sorted_wrt (<) (map (br_key \<circ> ch_bref) (node_stream sz it' f'))"
    using d unfolding st by (simp add: sorted_wrt_map sorted_wrt_filter)
  moreover have fl: "m \<longrightarrow> ci_flags it' AND CITEM_NULL \<noteq> 0 \<or> None \<in> fst ` set (entries sz f')"
    unfolding p(3) using d p(1) by auto
  ultimately show "node_done m sz it' f'" using d p(1) st by (simp add: node_done_def)
  show "m \<and> ci_chain it' = None \<Longrightarrow> ci_flags it' AND CITEM_NULL \<noteq> 0" using fl s by auto
qed

section \<open>The answers of the check for finished nodes\<close>

lemma pass3_error:
  "\<forall>it \<in> set (cl_array (fst st)). ci_error it = 0 \<Longrightarrow> cl_error (fst st) = 0 \<Longrightarrow> set xs \<subseteq> {..<length (cl_array (fst st))} \<Longrightarrow>
   cl_error (fst (fold (check_pass3 pmp key t) xs st)) = 0"
proof (induction xs arbitrary: st)
  case (Cons i xs)
  obtain cl f s where st: "st = (cl, f, s)" by (cases st) auto
  let ?st = "check_pass3 pmp key t i st"
  have k: "keeps_items (fst st) (fst ?st)" by (rule keeps_pass3)
  have i: "i < length (cl_array cl)" using Cons.prems(3) st by simp
  have "map ci_error (cl_array (fst ?st)) = map ci_error (cl_array (fst st))" using k by (simp add: keeps_items_def)
  then have "\<forall>it \<in> set (cl_array (fst ?st)). ci_error it = 0" using Cons.prems(1)
    by (metis (no_types, lifting) image_eqI image_iff list.set_map)
  moreover have "cl_error (fst ?st) = 0" using Cons.prems i unfolding st
    by (auto simp: check_pass3_def Let_def split: option.splits)
  moreover have "length (cl_array (fst ?st)) = length (cl_array (fst st))" using k by (metis keeps_items_def length_map)
  ultimately show ?case using Cons.IH [of ?st] Cons.prems(3) by simp
qed simp

lemma validate_error: "cl_error (check_validate cl) = cl_error cl"
proof -
  have "cl_error (check_pass4 f fch i c) = cl_error c" for f fch i c by (auto simp: check_pass4_def Let_def split: option.splits)
  then have "cl_error (fold (check_pass4 f fch) xs c) = cl_error c" for f fch xs c by (induction xs arbitrary: c) simp_all
  then show ?thesis by (auto simp: check_validate_def Let_def split: option.splits)
qed

lemma check_answer:
  assumes "cl_pmp cl = Some pmp" "\<forall>it \<in> set (cl_array cl). ci_error it = 0 \<and> (\<forall>c. ci_chain it = Some c \<longrightarrow> ch_error c = 0)"
    and "pending pmp cl = 0"
  shows "if \<exists>t < HAMMER2_TID_MAX. cluster_nquorum cl \<le> votes pmp key (item_chains cl) t
    then \<exists>cl'. hammer2_cluster_check cl key 0 = Some (0, cl')
    else \<exists>e cl'. hammer2_cluster_check cl key 0 = Some (e, cl') \<and> (e = H2_ESRCH \<or> e = H2_EDEADLK)"
proof -
  let ?nq = "cluster_nquorum cl" and ?n = "length (cl_array cl)"
  have fl: "(0 :: u32) AND CHECK_NULL = 0" by simp
  obtain c2 q nflags m s c1 where a: "after2 pmp key ?nq cl c2 q"
    and p2: "check_pass2 pmp ?nq key 0 HAMMER2_TID_MAX c1 \<lparr>q_umasters = 0, q_nmasters = 0, q_keymatch = 0, q_tid = 0\<rparr> = (c2, q)"
      "item_chains c1 = item_chains cl"
    and run: "hammer2_cluster_check cl key 0 =
     Some (if q_nmasters q < ?nq
       then (if ?nq \<le> q_nmasters q + q_umasters q then (H2_EINPROGRESS, c2)
             else if q_keymatch q < ?nq then (H2_ESRCH, c2) else (H2_EDEADLK, c2))
       else if cl_focus c2 = None then (H2_EIO, c2)
       else check_found pmp key q m s (fold (check_pass3 pmp key (q_tid q)) [0..<?n] (c2\<lparr>cl_error := 0\<rparr>, nflags, 0)))"
    using cluster_check_run [OF fl assms(1)] by blast
  have cs: "item_chains c2 = item_chains cl" "map ci_error (cl_array c2) = map ci_error (cl_array cl)" "q_umasters q = 0"
    using a assms(3) by (simp_all add: after2_def)
  show ?thesis
  proof (cases "\<exists>t < HAMMER2_TID_MAX. ?nq \<le> votes pmp key (item_chains cl) t")
    case False
    then have "q_nmasters q < ?nq" using a unfolding after2_def if_not_P [OF False] by blast
    then show ?thesis using run cs(3) False by (simp split: if_splits)
  next
    case True
    then have enough: "?nq \<le> q_nmasters q" using a unfolding after2_def if_P [OF True] by blast
    have pos: "0 < ?nq" using assms(1) by (simp add: cluster_nquorum_def)
    have "focused pmp key (item_chains cl) (c2, q)" using focus_pass2 [OF fl p2(2)] p2(1) by (metis quorum.select_convs(2))
    moreover have "ch_error (the (item_chains cl ! i)) = 0" if "i < length (item_chains cl)" "has_tid pmp key (item_chains cl) i (q_tid q)" for i
      using that assms(2) by (auto simp: has_tid_def item_chains_nth split: option.splits)
    ultimately have foc: "cl_focus c2 \<noteq> None" using enough pos unfolding focused_def by fastforce
    let ?p3 = "fold (check_pass3 pmp key (q_tid q)) [0..<?n] (c2\<lparr>cl_error := 0\<rparr>, nflags, 0)"
    have len: "length (cl_array c2) = ?n" using cs(2) by (metis length_map)
    have "\<forall>it \<in> set (cl_array c2). ci_error it = 0" using cs(2) assms(2) by (metis (no_types, lifting) image_eqI image_iff list.set_map)
    then have "cl_error (fst ?p3) = 0" using len by (intro pass3_error) (auto simp: atLeast0LessThan)
    then have "fst (check_found pmp key q m s ?p3) = 0"
      by (cases ?p3) (simp add: check_found_def Let_def validate_error)
    then obtain cl' where "check_found pmp key q m s ?p3 = (0, cl')" by (metis prod.collapse)
    then have "hammer2_cluster_check cl key 0 = Some (0, cl')" using run enough foc by simp
    then show ?thesis unfolding if_P [OF True] by blast
  qed
qed

text \<open>The end of the scan.\<close>

lemma null_scan:
  assumes "\<forall>i < length (cl_array cl). ci_chain (cl_array cl ! i) = None \<and> ci_error (cl_array cl ! i) = 0 \<and>
      (is_master pmp i \<longrightarrow> ci_flags (cl_array cl ! i) AND CITEM_NULL \<noteq> 0)"
    and "set xs \<subseteq> {..<length (cl_array cl)}" "cl_error cl = 0" "q_umasters q = 0" "q_nmasters q = q_keymatch q" "q_tid q = 0"
  shows "\<exists>q'. fold (check_pass2_item pmp key CHECK_NULL last_tid) xs (cl, q) = (cl, q') \<and>
    q_umasters q' = 0 \<and> q_nmasters q' = q_keymatch q' \<and> q_tid q' = 0"
  using assms(2,4-6)
proof (induction xs arbitrary: q)
  case (Cons i xs)
  have i: "i < length (cl_array cl)" using Cons.prems(1) by simp
  have "\<exists>q1. check_pass2_item pmp key CHECK_NULL last_tid i (cl, q) = (cl, q1) \<and> q_umasters q1 = 0 \<and> q_nmasters q1 = q_keymatch q1 \<and> q_tid q1 = 0"
  proof (cases "is_master pmp i")
    case True
    then show ?thesis using assms(1,3) i Cons.prems(2-4) by (auto simp: check_pass2_item_def is_master_def Let_def)
  next
    case False
    then show ?thesis using Cons.prems(2-4) by (auto simp: check_pass2_item_def is_master_def)
  qed
  then show ?case using Cons.IH Cons.prems(1) by auto
qed simp

lemma pass1_error:
  assumes "\<forall>it \<in> set (cl_array (fst st)). ci_error it = 0" "cl_error (fst st) = 0" "set xs \<subseteq> {..<length (cl_array (fst st))}"
  shows "cl_error (fst (fold (check_pass1 pmp) xs st)) = 0"
  using assms
proof (induction xs arbitrary: st)
  case (Cons i xs)
  let ?st = "check_pass1 pmp i st"
  have k: "keeps_items (fst st) (fst ?st)" by (rule keeps_pass1)
  have "map ci_error (cl_array (fst ?st)) = map ci_error (cl_array (fst st))" using k by (simp add: keeps_items_def)
  then have "\<forall>it \<in> set (cl_array (fst ?st)). ci_error it = 0" using Cons.prems(1)
    by (metis (no_types, lifting) image_eqI image_iff list.set_map)
  moreover have "cl_error (fst ?st) = 0"
  proof -
    obtain cl f s w where st: "st = (cl, f, s, w)" by (cases st) auto
    have "ci_error (cl_array (item_flags i (\<lambda>f. (f AND NOT CITEM_FEMOD) OR CITEM_INVALID) cl) ! i) = 0"
      using Cons.prems(1,3) unfolding st by (simp add: item_flags_def)
    then show ?thesis using Cons.prems(2) unfolding st check_pass1_def Let_def by (simp add: item_flags_def)
  qed
  moreover have "length (cl_array (fst ?st)) = length (cl_array (fst st))" using k by (metis keeps_items_def length_map)
  ultimately show ?case using Cons.IH [of ?st] Cons.prems(3) by simp
qed simp

lemma check_eof:
  assumes "cl_pmp cl = Some pmp" "\<forall>i < length (cl_array cl). ci_chain (cl_array cl ! i) = None \<and> ci_error (cl_array cl ! i) = 0 \<and>
      (is_master pmp i \<longrightarrow> ci_flags (cl_array cl ! i) AND CITEM_NULL \<noteq> 0)"
  shows "\<exists>e cl'. hammer2_cluster_check cl key CHECK_NULL = Some (e, cl') \<and> (e = H2_ESRCH \<or> e = H2_ENOENT)"
proof -
  let ?c0 = "cl\<lparr>cl_error := 0, cl_focus := None\<rparr>" and ?q0 = "\<lparr>q_umasters = 0, q_nmasters = 0, q_keymatch = 0, q_tid = 0\<rparr>"
  let ?n = "length (cl_array cl)" and ?nq = "cluster_nquorum cl"
  obtain c1 nf m s where f1: "fold (check_pass1 pmp) [0..<?n] (?c0, 0, 0, 0) = (c1, nf, m, s)"
    by (cases "fold (check_pass1 pmp) [0..<?n] (?c0, 0, 0, 0)") auto
  have k: "keeps_items cl c1" using keeps_fold [where f = "check_pass1 pmp" and st = "(?c0, 0, 0, 0)" and xs = "[0..<?n]", OF keeps_pass1] unfolding f1
    by (auto intro: keeps_trans [rotated])
  have e1: "cl_error c1 = 0" using pass1_error [of "(?c0, 0, 0, 0)" "[0..<?n]" pmp] assms(2) unfolding f1
    by (simp add: atLeast0LessThan all_set_conv_all_nth)
  have items: "\<forall>i < length (cl_array c1). ci_chain (cl_array c1 ! i) = None \<and> ci_error (cl_array c1 ! i) = 0 \<and>
      (is_master pmp i \<longrightarrow> ci_flags (cl_array c1 ! i) AND CITEM_NULL \<noteq> 0)"
    using assms(2) keeps_node [OF k] by (metis keeps_items_def length_map k)
  obtain q where q: "check_pass2_scan pmp key CHECK_NULL HAMMER2_TID_MAX c1 = (c1, q)" "q_umasters q = 0" "q_nmasters q = q_keymatch q" "q_tid q = 0"
    using null_scan [OF items _ e1, of "[0..<length (cl_array c1)]" ?q0 key HAMMER2_TID_MAX] by (auto simp: check_pass2_scan_def atLeast0LessThan)
  have pos: "0 < ?nq" using assms(1) by (simp add: cluster_nquorum_def)
  have stop: "check_pass2 pmp nq key CHECK_NULL 0 c q' = (c, q')" for nq c q' by (subst check_pass2.simps) simp
  have p2: "check_pass2 pmp ?nq key CHECK_NULL HAMMER2_TID_MAX c1 ?q0 = (c1, q)"
    using pos q stop by (subst check_pass2.simps) simp
  have nq: "cluster_nquorum ?c0 = ?nq" by (simp add: cluster_nquorum_def)
  have "hammer2_cluster_check cl key CHECK_NULL = Some (if q_nmasters q < ?nq then (H2_ESRCH, c1) else (H2_ENOENT, c1\<lparr>cl_error := H2_ENOENT\<rparr>))"
    unfolding hammer2_cluster_check_def Let_def nq using assms(1) f1 p2 q(2,3) e1 by simp
  then show ?thesis by (simp split: if_splits)
qed

section \<open>The quorum over the streams\<close>

definition stream_votes :: "pfs \<Rightarrow> xop \<Rightarrow> h2_key \<Rightarrow> h2_tid \<Rightarrow> int" where
  "stream_votes pmp x k t = int (length (filter (\<lambda>i. is_master pmp i \<and>
     (\<exists>c \<in> set (stream x i). br_key (ch_bref c) = k \<and> br_modify_tid (ch_bref c) = t)) [0..<x_nchains x]))"

text \<open>More than half of the masters hold the key with one transaction id.\<close>

definition quorum_key :: "pfs \<Rightarrow> xop \<Rightarrow> h2_key \<Rightarrow> bool" where
  "quorum_key pmp x k \<longleftrightarrow> (\<exists>t < HAMMER2_TID_MAX. int (unat (pfs_nmasters pmp)) < 2 * stream_votes pmp x k t)"

lemma nquorum_less: "cl_pmp cl = Some pmp \<Longrightarrow> cluster_nquorum cl \<le> v \<longleftrightarrow> int (unat (pfs_nmasters pmp)) < 2 * v"
  by (simp only: cluster_nquorum_def option.case) presburger

lemma finishedD:
  assumes "finished pmp x"
  shows "xop_ok x" "cl_pmp (x_cluster x) = Some pmp" "i < x_nchains x \<Longrightarrow> node_done (is_master pmp i) (x_fifo_size x) (x_item x i) (x_collect x ! i)"
  using assms by (simp_all add: finished_def)

lemma stream_done:
  assumes "finished pmp x" "i < x_nchains x"
  shows "sorted_wrt (<) (map (br_key \<circ> ch_bref) (stream x i))"
    "c \<in> set (stream x i) \<Longrightarrow> br_key (ch_bref c) \<noteq> - 1 \<and> br_modify_tid (ch_bref c) < HAMMER2_TID_MAX \<and> ch_error c = 0"
  using finishedD(3) [OF assms] by (auto simp: node_done_def stream_def)

lemma quorum_key_bound: "finished pmp x \<Longrightarrow> quorum_key pmp x k \<Longrightarrow> k \<noteq> - 1"
proof
  assume f: "finished pmp x" and q: "quorum_key pmp x k" and "k = - 1"
  then have "stream_votes pmp x k t = 0" for t using stream_done(2) [OF f] by (auto simp: stream_votes_def filter_empty_conv)
  then show False using q by (simp add: quorum_key_def)
qed

lemma quorum_key_filter:
  assumes "x_nchains x' = x_nchains x" "\<And>i. i < x_nchains x \<Longrightarrow> stream x' i = filter (\<lambda>c. \<not> below l c) (stream x i)" "l \<le> k"
  shows "quorum_key pmp x' k = quorum_key pmp x k"
proof -
  have "stream_votes pmp x' k t = stream_votes pmp x k t" for t
    unfolding stream_votes_def assms(1) by (intro arg_cong [where f = "\<lambda>xs. int (length xs)"] filter_cong) (use assms(2,3) in \<open>auto simp: below_def\<close>)
  then show ?thesis by (simp add: quorum_key_def)
qed

text \<open>The items after the scan.\<close>

lemma scan_finished:
  assumes "finished pmp x" "scan_done x (x_nchains x) x' l k"
  shows "finished pmp x'" "i < x_nchains x \<Longrightarrow> stream x' i = filter (\<lambda>c. \<not> below (x_collect_key x) c) (stream x i)"
    "i < x_nchains x \<Longrightarrow> ci_chain (x_item x' i) = None \<Longrightarrow> stream x' i = [] \<and> (is_master pmp i \<longrightarrow> ci_flags (x_item x' i) AND CITEM_NULL \<noteq> 0)"
    "i < x_nchains x \<Longrightarrow> ci_chain (x_item x' i) = Some c \<Longrightarrow> \<exists>cs. stream x' i = c # cs"
proof -
  have s: "same_xop x x'" "xop_ok x'" and step: "\<And>i. i < x_nchains x \<Longrightarrow>
      node_step (x_collect_key x) (x_fifo_size x) (x_item x i) (x_collect x ! i) (x_item x' i) (x_collect x' ! i)"
    using assms(2) by (simp_all add: scan_done_def)
  have sz: "x_fifo_size x' = x_fifo_size x" "x_nchains x' = x_nchains x" "cl_pmp (x_cluster x') = Some pmp"
    using s(1) finishedD(2) [OF assms(1)] by (simp_all add: same_xop_def)
  show "finished pmp x'" unfolding finished_def sz using s(2) node_step_done(1) [OF step finishedD(3) [OF assms(1)]] by simp
  show "stream x' i = filter (\<lambda>c. \<not> below (x_collect_key x) c) (stream x i)" if "i < x_nchains x"
    using node_step_done(3) [OF step finishedD(3) [OF assms(1)]] that by (simp add: stream_def sz)
  show "stream x' i = [] \<and> (is_master pmp i \<longrightarrow> ci_flags (x_item x' i) AND CITEM_NULL \<noteq> 0)" if "i < x_nchains x" "ci_chain (x_item x' i) = None"
  proof -
    have "entries (x_fifo_size x) (x_collect x' ! i) = []" using step [OF that(1)] that(2) by (simp add: node_step_def)
    then show ?thesis using that node_step_done(2) [OF step finishedD(3) [OF assms(1)]]
      by (simp add: stream_def node_stream_def sz List.map_filter_def)
  qed
  show "\<exists>cs. stream x' i = c # cs" if "i < x_nchains x" "ci_chain (x_item x' i) = Some c"
    using that by (simp add: stream_def node_stream_def)
qed

lemma lowest_votes:
  assumes "finished pmp x" "scan_done x (x_nchains x) x' l k" "l \<noteq> - 1"
  shows "votes pmp l (item_chains (x_cluster x')) t = stream_votes pmp x' l t"
proof -
  have n: "x_nchains x' = x_nchains x" and low: "lowest (\<lambda>i. ci_chain (x_item x' i)) (x_nchains x) l"
    using assms(2) by (simp_all add: scan_done_def same_xop_def)
  note fin = scan_finished [OF assms(1,2)]
  have "has_tid pmp l (item_chains (x_cluster x')) i t \<longleftrightarrow> is_master pmp i \<and>
      (\<exists>c \<in> set (stream x' i). br_key (ch_bref c) = l \<and> br_modify_tid (ch_bref c) = t)" if i: "i < x_nchains x" for i
  proof (cases "ci_chain (x_item x' i)")
    case None
    then show ?thesis using fin(3) [OF i] i n by (simp add: has_tid_def item_chains_nth)
  next
    case (Some h)
    then obtain cs where st: "stream x' i = h # cs" using fin(4) [OF i] by blast
    have ge: "l \<le> br_key (ch_bref h)" using low Some i by (simp add: lowest_def)
    have "sorted_wrt (<) (map (br_key \<circ> ch_bref) (h # cs))" using stream_done(1) [OF fin(1), of i] i n st by simp
    then have "\<forall>c \<in> set cs. br_key (ch_bref h) < br_key (ch_bref c)" by simp
    then have "c = h" if "c \<in> set (stream x' i)" "br_key (ch_bref c) = l" for c using that st ge by auto
    then show ?thesis using Some st i n assms(3) by (auto simp: has_tid_def item_chains_nth)
  qed
  then show ?thesis unfolding votes_def stream_votes_def n
    by (intro arg_cong [where f = "\<lambda>xs. int (length xs)"] filter_cong) (simp_all add: n)
qed

section \<open>One collection\<close>

definition collected :: "pfs \<Rightarrow> xop \<Rightarrow> int \<Rightarrow> xop \<Rightarrow> bool" where
  "collected pmp x e x' \<longleftrightarrow> finished pmp x' \<and> same_xop x x' \<and>
     (if \<exists>k \<ge> x_collect_key x. quorum_key pmp x k
      then e = 0 \<and> (\<exists>k f c. x_collect_key x \<le> k \<and> quorum_key pmp x k \<and> (\<forall>j. x_collect_key x \<le> j \<and> j < k \<longrightarrow> \<not> quorum_key pmp x j) \<and>
        x_collect_key x' = k + 1 \<and> cl_focus (x_cluster x') = Some f \<and> f < x_nchains x \<and> is_master pmp f \<and>
        ci_chain (x_item x' f) = Some c \<and> c \<in> set (stream x f) \<and> br_key (ch_bref c) = k \<and>
        (\<forall>i < x_nchains x. stream x' i = filter (\<lambda>c. \<not> below k c) (stream x i)))
      else e = H2_ENOENT)"

text \<open>Keys without a quorum are skipped.\<close>

lemma collected_skip:
  assumes "same_xop x y" "x_collect_key x \<le> l" "l \<noteq> - 1" "x_collect_key y = l + 1"
    and "\<And>i. i < x_nchains x \<Longrightarrow> stream y i = filter (\<lambda>c. \<not> below (x_collect_key x) c) (stream x i)"
    and "\<forall>j. x_collect_key x \<le> j \<and> j \<le> l \<longrightarrow> \<not> quorum_key pmp x j" "collected pmp y e x'"
  shows "collected pmp x e x'"
proof -
  have n: "x_nchains y = x_nchains x" using assms(1) by (simp add: same_xop_def)
  have succ: "l + 1 \<le> k \<longleftrightarrow> l < k" for k unfolding word_le_nat_alt word_less_nat_alt word_Suc [OF assms(3)] by linarith
  have q: "quorum_key pmp y k = quorum_key pmp x k" if "x_collect_key x \<le> k" for k by (rule quorum_key_filter [OF n assms(5) that])
  have ge: "x_collect_key x \<le> k" if "l + 1 \<le> k" for k using that assms(2) succ by force
  have ex: "(\<exists>k \<ge> x_collect_key x. quorum_key pmp x k) \<longleftrightarrow> (\<exists>k \<ge> x_collect_key y. quorum_key pmp y k)"
    unfolding assms(4) using q ge assms(6) succ by (metis linorder_not_le)
  have st: "filter (\<lambda>c. \<not> below k c) (stream y i) = filter (\<lambda>c. \<not> below k c) (stream x i)" if "x_collect_key x \<le> k" "i < x_nchains x" for k i
    unfolding assms(5) [OF that(2)] filter_filter using that(1) by (intro filter_cong) (auto simp: below_def)
  have fin: "finished pmp x'" "same_xop x x'" using assms(1,7) same_xop_trans by (auto simp: collected_def)
  show ?thesis
  proof (cases "\<exists>k \<ge> x_collect_key x. quorum_key pmp x k")
    case False
    have "e = H2_ENOENT" using assms(7) unfolding collected_def ex [symmetric] if_not_P [OF False] by simp
    then show ?thesis using fin unfolding collected_def if_not_P [OF False] by simp
  next
    case True
    then have ex': "\<exists>k \<ge> l + 1. quorum_key pmp y k" using ex assms(4) by simp
    obtain k f c where e: "e = 0" and k: "l + 1 \<le> k" "quorum_key pmp y k" "\<forall>j. l + 1 \<le> j \<and> j < k \<longrightarrow> \<not> quorum_key pmp y j"
      "x_collect_key x' = k + 1" "cl_focus (x_cluster x') = Some f" "f < x_nchains x" "is_master pmp f"
      "ci_chain (x_item x' f) = Some c" "c \<in> set (stream y f)" "br_key (ch_bref c) = k"
      "\<forall>i < x_nchains x. stream x' i = filter (\<lambda>c. \<not> below k c) (stream y i)"
      using assms(7) unfolding collected_def n assms(4) if_P [OF ex'] by blast
    have low: "\<not> quorum_key pmp x j" if "x_collect_key x \<le> j" "j < k" for j
      using assms(6) k(3) q [OF that(1)] that succ by (metis linorder_not_le)
    have mem: "c \<in> set (stream x f)" using k(9) assms(5) [OF k(6)] by simp
    have str: "\<forall>i < x_nchains x. stream x' i = filter (\<lambda>c. \<not> below k c) (stream x i)" using k(11) st [OF ge [OF k(1)]] by simp
    have "quorum_key pmp x k" using k(2) q [OF ge [OF k(1)]] by simp
    then show ?thesis unfolding collected_def if_P [OF True] using e k(4-8,10) ge [OF k(1)] fin low mem str
      by (intro conjI exI [of _ k] exI [of _ f] exI [of _ c]) simp_all
  qed
qed

text \<open>After the scan and the check.\<close>

lemma after_check:
  assumes "finished pmp x" "scan_done x (x_nchains x) x1 l kn" "hammer2_cluster_check (x_cluster x1) l' fl = Some (e, cl)"
  shows "finished pmp (x1\<lparr>x_cluster := cl, x_collect_key := j\<rparr>)" "same_xop x (x1\<lparr>x_cluster := cl, x_collect_key := j\<rparr>)"
    "i < x_nchains x \<Longrightarrow> stream (x1\<lparr>x_cluster := cl, x_collect_key := j\<rparr>) i = stream x1 i"
proof -
  let ?y = "x1\<lparr>x_cluster := cl, x_collect_key := j\<rparr>"
  note fin = scan_finished(1) [OF assms(1,2)]
  have n: "x_nchains x1 = x_nchains x" and same: "same_xop x x1" using assms(2) by (simp_all add: scan_done_def same_xop_def)
  have k: "keeps_items (x_cluster x1) cl" by (rule check_keeps [OF assms(3)])
  have l: "length (cl_array cl) = x_nchains x" "cl_pmp cl = Some pmp"
    using k n finishedD(2) [OF fin] unfolding keeps_items_def by (metis length_map)+
  note c = check_ok [OF finishedD(1) [OF fin] k]
  show "i < x_nchains x \<Longrightarrow> stream ?y i = stream x1 i" using check_stream [OF k, of i] n by (simp add: stream_def)
  show "same_xop x ?y" using same c(2) by (simp add: same_xop_def)
  have "xop_ok ?y" using c(1) by (simp add: xop_ok_def owned_def stream_def)
  moreover have "node_done (is_master pmp i) (x_fifo_size x1) (cl_array cl ! i) (x_collect x1 ! i)" if "i < x_nchains x1" for i
  proof -
    have "node_done (is_master pmp i) (x_fifo_size x1) (x_item x1 i) (x_collect x1 ! i)" by (rule finishedD(3) [OF fin that])
    moreover have "node_stream (x_fifo_size x1) (cl_array cl ! i) (x_collect x1 ! i) = node_stream (x_fifo_size x1) (x_item x1 i) (x_collect x1 ! i)"
      using keeps_node(1) [OF k that] by (simp add: node_stream_def)
    ultimately show ?thesis using keeps_node(2,3) [OF k that] by (simp add: node_done_def)
  qed
  ultimately show "finished pmp ?y" using l n by (simp add: finished_def)
qed

lemma scan_quorum:
  assumes "finished pmp x" "scan_done x (x_nchains x) x1 l kn" "x_collect_key x \<le> j"
  shows "quorum_key pmp x1 j = quorum_key pmp x j"
proof (rule quorum_key_filter [OF _ scan_finished(2) [OF assms(1,2)] assms(3)])
  show "x_nchains x1 = x_nchains x" using assms(2) by (simp add: scan_done_def same_xop_def)
qed

text \<open>\<open>lokey\<close> is the least key that is left, and no smaller key has a quorum.\<close>

lemma scan_least:
  assumes "finished pmp x" "scan_done x (x_nchains x) x1 l kn" "i < x_nchains x" "c \<in> set (stream x1 i)"
  shows "l \<le> br_key (ch_bref c)" "l \<noteq> - 1"
proof -
  note fin = scan_finished [OF assms(1,2)]
  have n: "x_nchains x1 = x_nchains x" using assms(2) by (simp add: scan_done_def same_xop_def)
  obtain h where h: "ci_chain (x_item x1 i) = Some h" using fin(3) [OF assms(3)] assms(4) by (cases "ci_chain (x_item x1 i)") auto
  obtain cs where st: "stream x1 i = h # cs" using fin(4) [OF assms(3) h] by blast
  have "sorted_wrt (<) (map (br_key \<circ> ch_bref) (h # cs))" using stream_done(1) [OF fin(1), of i] assms(3) n st by simp
  then have "br_key (ch_bref h) \<le> br_key (ch_bref c)" using assms(4) st by auto
  moreover have "l \<le> br_key (ch_bref h)" using assms(2,3) h by (simp add: scan_done_def lowest_def)
  ultimately show le: "l \<le> br_key (ch_bref c)" by simp
  have "br_key (ch_bref c) \<noteq> - 1" using stream_done(2) [OF fin(1)] assms(3,4) n by simp
  then show "l \<noteq> - 1" using le by (metis word_order.extremum_unique)
qed

lemma scan_none:
  assumes "finished pmp x" "scan_done x (x_nchains x) x1 l kn" "x_collect_key x \<le> j" "j < l"
  shows "\<not> quorum_key pmp x j"
proof -
  have n: "x_nchains x1 = x_nchains x" using assms(2) by (simp add: scan_done_def same_xop_def)
  have "stream_votes pmp x1 j t = 0" for t
    using scan_least(1) [OF assms(1,2)] assms(4) n by (fastforce simp: stream_votes_def filter_empty_conv)
  then have "\<not> quorum_key pmp x1 j" by (simp add: quorum_key_def)
  then show ?thesis using scan_quorum [OF assms(1-3)] by blast
qed

text \<open>The check of a scan that is not at the end.\<close>

lemma scan_check:
  assumes "finished pmp x" "scan_done x (x_nchains x) x1 l 0" "x_collect_key x \<le> l" "l \<noteq> - 1"
  shows "if quorum_key pmp x l then \<exists>cl. hammer2_cluster_check (x_cluster x1) l 0 = Some (0, cl)
    else \<exists>e cl. hammer2_cluster_check (x_cluster x1) l 0 = Some (e, cl) \<and> (e = H2_ESRCH \<or> e = H2_EDEADLK)"
proof -
  note fin = scan_finished [OF assms(1,2)]
  have n: "x_nchains x1 = x_nchains x" using assms(2) by (simp add: scan_done_def same_xop_def)
  have pmp: "cl_pmp (x_cluster x1) = Some pmp" by (rule finishedD(2) [OF fin(1)])
  have "ci_error (x_item x1 i) = 0" if "i < x_nchains x" for i using finishedD(3) [OF fin(1)] that n by (simp add: node_done_def)
  moreover have "ch_error c = 0" if "i < x_nchains x" "ci_chain (x_item x1 i) = Some c" for i c
    using stream_done(2) [OF fin(1), of i c] fin(4) [OF that] that(1) n by auto
  ultimately have items: "\<forall>it \<in> set (cl_array (x_cluster x1)). ci_error it = 0 \<and> (\<forall>c. ci_chain it = Some c \<longrightarrow> ch_error c = 0)"
    using n by (auto simp: all_set_conv_all_nth)
  have "pending pmp (x_cluster x1) = 0" using fin(3) n by (auto simp: pending_def unanswered_def filter_empty_conv)
  note ans = check_answer [OF pmp items this, of l]
  have "(\<exists>t < HAMMER2_TID_MAX. cluster_nquorum (x_cluster x1) \<le> votes pmp l (item_chains (x_cluster x1)) t) \<longleftrightarrow> quorum_key pmp x l"
    using lowest_votes [OF assms(1,2,4)] nquorum_less [OF pmp] scan_quorum [OF assms(1,2,3)] by (simp add: quorum_key_def)
  then show ?thesis using ans by simp
qed

lemma scan_eof:
  assumes "finished pmp x" "scan_done x (x_nchains x) x1 l kn" "\<forall>i < x_nchains x. ci_chain (x_item x1 i) = None"
  shows "\<exists>e cl. hammer2_cluster_check (x_cluster x1) l CHECK_NULL = Some (e, cl) \<and> (e = H2_ESRCH \<or> e = H2_ENOENT)"
    "x_collect_key x \<le> j \<Longrightarrow> \<not> quorum_key pmp x j" "kn = CHECK_NULL" "l = - 1"
proof -
  note fin = scan_finished [OF assms(1,2)]
  have n: "x_nchains x1 = x_nchains x" using assms(2) by (simp add: scan_done_def same_xop_def)
  show "kn = CHECK_NULL" "l = - 1" using assms(2,3) by (auto simp: scan_done_def lowest_def)
  have "ci_error (x_item x1 i) = 0" if "i < x_nchains x" for i using finishedD(3) [OF fin(1)] that n by (simp add: node_done_def)
  then show "\<exists>e cl. hammer2_cluster_check (x_cluster x1) l CHECK_NULL = Some (e, cl) \<and> (e = H2_ESRCH \<or> e = H2_ENOENT)"
    using assms(3) fin(3) n by (intro check_eof [OF finishedD(2) [OF fin(1)]]) simp
  have "stream_votes pmp x1 j t = 0" for t using assms(3) fin(3) n by (auto simp: stream_votes_def filter_empty_conv)
  then have "\<not> quorum_key pmp x1 j" by (simp add: quorum_key_def)
  then show "x_collect_key x \<le> j \<Longrightarrow> \<not> quorum_key pmp x j" using scan_quorum [OF assms(1,2)] by blast
qed

text \<open>A key with a quorum is returned.\<close>

lemma collected_hit:
  assumes "finished pmp x" "scan_done x (x_nchains x) x1 l 0" "x_collect_key x \<le> l" "l \<noteq> - 1" "quorum_key pmp x l"
    and "hammer2_cluster_check (x_cluster x1) l 0 = Some (0, cl)"
  shows "collected pmp x 0 (x1\<lparr>x_cluster := cl, x_collect_key := l + 1\<rparr>)"
proof -
  let ?y = "x1\<lparr>x_cluster := cl, x_collect_key := l + 1\<rparr>"
  note fin = scan_finished [OF assms(1,2)] and after = after_check [OF assms(1,2,6)]
  have n: "x_nchains x1 = x_nchains x" using assms(2) by (simp add: scan_done_def same_xop_def)
  have chainerr: "ch_error c = 0" if "i < x_nchains x1" "ci_chain (x_item x1 i) = Some c" for i c
    using stream_done(2) [OF fin(1), of i c] fin(4) [of i c] that n by auto
  have kz: "(0 :: u32) AND CHECK_NULL = 0" by simp
  obtain t f where f: "cl_focus cl = Some f" "f < x_nchains x1" "is_master pmp f" "agree l t (item_chains (x_cluster x1)) f"
    using check_focus [OF assms(6) kz finishedD(2) [OF fin(1)] assms(4)] chainerr by blast
  obtain ch where ch: "ci_chain (x_item x1 f) = Some ch" "br_key (ch_bref ch) = l" using f(2,4) by (auto simp: agree_def item_chains_nth)
  have at: "ci_chain (cl_array cl ! f) = Some ch" using keeps_node(1) [OF check_keeps [OF assms(6)] f(2)] ch(1) by simp
  have "ch \<in> set (stream x1 f)" using fin(4) [of f ch] f(2) n ch(1) by auto
  then have mem: "ch \<in> set (stream x f)" using fin(2) [of f] f(2) n by simp
  have str: "stream ?y i = filter (\<lambda>c. \<not> below l c) (stream x i)" if i: "i < x_nchains x" for i
  proof -
    have "below (x_collect_key x) c = below l c" if "c \<in> set (stream x i)" for c
    proof -
      have "\<not> below (x_collect_key x) c \<Longrightarrow> l \<le> br_key (ch_bref c)" using scan_least(1) [OF assms(1,2) i, of c] that fin(2) [OF i] by simp
      then show ?thesis using assms(3) unfolding below_def by (meson linorder_not_le order_less_le_trans)
    qed
    then show ?thesis using after(3) [OF i] fin(2) [OF i] by (auto intro!: filter_cong)
  qed
  have ex: "\<exists>k \<ge> x_collect_key x. quorum_key pmp x k" using assms(3,5) by blast
  show ?thesis unfolding collected_def if_P [OF ex]
    using after(1,2) f(1-3) n ch(2) assms(3,5) at mem str scan_none [OF assms(1,2)]
    by (intro conjI exI [of _ l] exI [of _ f] exI [of _ ch]) simp_all
qed

lemma collect_check_run:
  "hammer2_cluster_check (x_cluster x) l kn = Some (e, cl) \<Longrightarrow>
   flags AND COLLECT_WAITALL = 0 \<or> m AND XOPMASK_ALLDONE = XOPMASK_VOP \<Longrightarrow>
   collect_check flags m l kn x = Some (e, x\<lparr>x_cluster := cl\<rparr>)"
  by (auto simp: collect_check_def)

lemma collect_finished:
  assumes "finished pmp x" "flags AND COLLECT_WAITALL = 0 \<or> x_run_mask x AND XOPMASK_ALLDONE = XOPMASK_VOP"
  shows "\<exists>e x'. hammer2_xop_collect flags x = Some (Collected e x') \<and> collected pmp x e x'"
  using assms
proof (induction flags x rule: hammer2_xop_collect.induct)
  case (1 flags x)
  let ?n = "x_nchains x" and ?k = "x_collect_key x"
  obtain x1 l kn where scan: "collect_items [0..<?n] (x, - 1, CHECK_NULL) = Some (x1, l, kn)" and sd: "scan_done x ?n x1 l kn"
    using collect_items_spec [OF finishedD(1) [OF "1.prems"(1)] le_refl] by blast
  note fin = scan_finished [OF "1.prems"(1) sd] and check = collect_check_run [OF _ "1.prems"(2)]
  show ?case
  proof (cases "\<forall>i < ?n. ci_chain (x_item x1 i) = None")
    case True
    note eof = scan_eof [OF "1.prems"(1) sd True]
    obtain e cl where c: "hammer2_cluster_check (x_cluster x1) l kn = Some (e, cl)" "e = H2_ESRCH \<or> e = H2_ENOENT" using eof(1,3) by blast
    have "hammer2_xop_collect flags x = Some (Collected H2_ENOENT (x1\<lparr>x_cluster := cl, x_collect_key := - 1\<rparr>))"
      using c(2) eof(4) unfolding hammer2_xop_collect.simps [of flags x] scan option.case prod.case check [OF c(1)] by auto
    then show ?thesis using after_check(1,2) [OF "1.prems"(1) sd c(1)] eof(2) by (auto simp: collected_def)
  next
    case False
    then have kn: "kn = 0" using sd by (auto simp: scan_done_def)
    obtain i c where "i < ?n" "ci_chain (x_item x1 i) = Some c" using False by auto
    then have l: "l \<noteq> - 1" using scan_least(2) [OF "1.prems"(1) sd, of i c] fin(4) [of i c] by auto
    have kl: "?k \<le> l" using collect_items_key [OF scan] by (metis fst_conv snd_conv word_order.extremum)
    note sd0 = sd [unfolded kn]
    note ans = scan_check [OF "1.prems"(1) sd0 kl l]
    show ?thesis
    proof (cases "quorum_key pmp x l")
      case True
      then obtain cl where c: "hammer2_cluster_check (x_cluster x1) l kn = Some (0, cl)" using ans kn by auto
      have "hammer2_xop_collect flags x = Some (Collected 0 (x1\<lparr>x_cluster := cl, x_collect_key := l + 1\<rparr>))"
        using l unfolding hammer2_xop_collect.simps [of flags x] scan option.case prod.case check [OF c] by simp
      then show ?thesis using collected_hit [OF "1.prems"(1) sd0 kl l True c [unfolded kn]] by blast
    next
      case False
      then obtain e cl where c: "hammer2_cluster_check (x_cluster x1) l kn = Some (e, cl)" "e = H2_ESRCH \<or> e = H2_EDEADLK" using ans kn by auto
      let ?x = "x1\<lparr>x_cluster := cl, x_collect_key := l + 1\<rparr>"
      note after = after_check [OF "1.prems"(1) sd c(1)]
      have go: "e \<noteq> H2_EINPROGRESS" "(e = H2_ESRCH \<or> e = H2_EDEADLK) \<and> l \<noteq> - 1" using c(2) l by auto
      have run: "hammer2_xop_collect flags x = hammer2_xop_collect flags ?x"
        using go unfolding hammer2_xop_collect.simps [of flags x] scan option.case prod.case check [OF c(1)] by simp
      have w: "flags AND COLLECT_WAITALL = 0 \<or> x_run_mask ?x AND XOPMASK_ALLDONE = XOPMASK_VOP" using "1.prems"(2) after(2) by (auto simp: same_xop_def)
      from "1.IH" [OF scan refl refl check [OF c(1)] refl go, simplified] obtain e' x' where IH:
        "hammer2_xop_collect flags ?x = Some (Collected e' x')" "collected pmp ?x e' x'" using after(1) w by auto
      have "\<forall>j. ?k \<le> j \<and> j \<le> l \<longrightarrow> \<not> quorum_key pmp x j" using scan_none [OF "1.prems"(1) sd] False by (metis order_le_less)
      then have "collected pmp x e' x'"
        using after(2,3) fin(2) l kl IH(2) by (intro collected_skip [of x ?x l]) simp_all
      then show ?thesis using run IH(1) by auto
    qed
  qed
qed

end
