(* ===== verification/H2_XopRun.thy ===== *)
theory H2_XopRun
  imports H2_XopCollect
begin

text \<open>
  The life of an xop: feeds, collections and retirements of the front end and the nodes in any order.
\<close>

section \<open>The clean-up\<close>

lemma drop_set_item: "drop_chain c (set_item i it x) = map_option (set_item i it) (drop_chain c x)"
  by (auto simp: drop_chain_def set_item_def split: option.splits)

lemma clean_cluster_spec:
  assumes "xop_ok x" "set ns \<subseteq> {..<x_nchains x}"
  shows "\<exists>y. clean_cluster ns x = Some y \<and> xop_ok y \<and> same_xop x y \<and> x_collect y = x_collect x \<and>
    (\<forall>i < x_nchains x. i \<in> set ns \<or> ci_chain (x_item x i) = None \<longrightarrow> ci_chain (x_item y i) = None)"
  using assms
proof (induction ns arbitrary: x)
  case Nil
  then show ?case by (simp add: same_xop_def)
next
  case (Cons i ns)
  let ?it = "(x_item x i)\<lparr>ci_flags := 0, ci_chain := None\<rparr>"
  have i: "i < x_nchains x" using Cons.prems(2) by simp
  obtain r where r: "drop_chain (ci_chain (x_item x i)) x = Some (x\<lparr>x_refs := r\<rparr>)"
    "x_refs x = r + mset (case ci_chain (x_item x i) of None \<Rightarrow> [] | Some c \<Rightarrow> [c])" using drop_owned [OF Cons.prems(1) i] by blast
  let ?y = "upd i ?it (x_collect x ! i) r x"
  have d: "drop_chain (ci_chain (x_item x i)) (set_item i ?it x) = Some ?y"
    unfolding drop_set_item r(1) by (simp add: upd_def set_item_def set_fifo_def)
  have ok: "xop_ok ?y"
    by (rule upd_ok [OF Cons.prems(1) i xop_okD(5) [OF Cons.prems(1) i]]) (use r(2) in \<open>simp_all add: stream_def node_stream_def ac_simps\<close>)
  have "set ns \<subseteq> {..<x_nchains ?y}" using Cons.prems(2) by simp
  from Cons.IH [OF ok this] obtain z where z: "clean_cluster ns ?y = Some z" "xop_ok z" "same_xop ?y z" "x_collect z = x_collect ?y"
    "\<forall>j < x_nchains ?y. j \<in> set ns \<or> ci_chain (x_item ?y j) = None \<longrightarrow> ci_chain (x_item z j) = None" by blast
  have "ci_chain (x_item z j) = None" if "j < x_nchains x" "j \<in> set (i # ns) \<or> ci_chain (x_item x j) = None" for j
  proof -
    have "j \<in> set ns \<or> ci_chain (x_item ?y j) = None" using that by (cases "j = i") simp_all
    moreover have "j < x_nchains ?y" using that(1) by simp
    ultimately show ?thesis using z(5) by blast
  qed
  then show ?case using z d by (auto simp: Let_def same_xop_def)
qed

lemma clean_fifo_spec:
  assumes "xop_ok x" "i < MAXCLUSTER"
  shows "\<exists>y. clean_fifo i x = Some y \<and> xop_ok y \<and> same_xop x y \<and> x_cluster y = x_cluster x \<and>
    (\<forall>j < MAXCLUSTER. j = i \<or> ff_ri (x_collect x ! j) = ff_wi (x_collect x ! j) \<longrightarrow> ff_ri (x_collect y ! j) = ff_wi (x_collect y ! j)) \<and>
    (\<forall>j. j \<noteq> i \<longrightarrow> x_collect y ! j = x_collect x ! j)"
  using assms
proof (induction i x rule: clean_fifo.induct)
  case (1 i x)
  let ?f = "x_collect x ! i" and ?sz = "x_fifo_size x"
  let ?j = "ff_ri ?f AND (?sz - 1)"
  note d = xop_okD [OF "1.prems"(1)]
  show ?case
  proof (cases "ff_ri ?f = ff_wi ?f")
    case True
    then show ?thesis using "1.prems" by (subst clean_fifo.simps) (auto simp: Let_def same_xop_def)
  next
    case False
    then have i: "i < x_nchains x" using d(6) "1.prems"(2) by blast
    then have le: "i < length (x_collect x)" using d(2,3) by simp
    note fok = d(5) [OF i] and p = pop_entries [OF d(5) [OF i] False]
    let ?g = "?f\<lparr>ff_ri := ff_ri ?f + 1\<rparr>"
    have sl: "?j < length (ff_array ?f)" "ff_ri ?f < ff_wi ?f" "ff_array ?f ! ?j = fst (entry ?sz ?f (ff_ri ?f))"
      using fok False pow2_double(3) [OF d(1)] by (simp_all add: fifo_ok_def pow2_and [OF d(1)] pow2_and [OF d(1), simplified] entry_def)
    obtain c e where ce: "entry ?sz ?f (ff_ri ?f) = (c, e)" by fastforce
    have "mset (case c of None \<Rightarrow> [] | Some ch \<Rightarrow> [ch]) \<subseteq># mset (stream x i)"
      unfolding stream_def node_stream_def p(2) ce by (auto simp: List.map_filter_def split: option.splits)
    then have sub: "mset (case c of None \<Rightarrow> [] | Some ch \<Rightarrow> [ch]) \<subseteq># x_refs x"
      using owned_item [OF i] unfolding d(7) by (rule subset_mset.order_trans)
    let ?r = "x_refs x - mset (case c of None \<Rightarrow> [] | Some ch \<Rightarrow> [ch])"
    have dr: "drop_chain (ff_array ?f ! ?j) x = Some (x\<lparr>x_refs := ?r\<rparr>)"
      using sub unfolding sl(3) ce by (auto simp: drop_chain_def split: option.splits)
    let ?y = "set_fifo i ?g (x\<lparr>x_refs := ?r\<rparr>)"
    have y: "?y = upd i (x_item x i) ?g ?r x" by (simp add: upd_def set_item_def set_fifo_def)
    have "?r + mset (stream x i) = x_refs x + mset (node_stream ?sz (x_item x i) ?g)"
    proof -
      have "mset (stream x i) = mset (case c of None \<Rightarrow> [] | Some ch \<Rightarrow> [ch]) + mset (node_stream ?sz (x_item x i) ?g)"
        unfolding stream_def node_stream_def p(2) ce by (auto simp: List.map_filter_def split: option.splits)
      moreover have "?r + mset (case c of None \<Rightarrow> [] | Some ch \<Rightarrow> [ch]) = x_refs x" by (rule subset_mset.diff_add [OF sub])
      ultimately show ?thesis by (simp only: add.assoc [symmetric])
    qed
    then have ok: "xop_ok ?y" unfolding y by (intro upd_ok [OF "1.prems"(1) i p(1)]) (use False in simp_all)
    have run: "clean_fifo i x = clean_fifo i ?y" using False le sl(1,2) dr by (subst clean_fifo.simps) (simp add: Let_def)
    have IH: "\<exists>y'. clean_fifo i ?y = Some y' \<and> xop_ok y' \<and> same_xop ?y y' \<and> x_cluster y' = x_cluster ?y \<and>
      (\<forall>j < MAXCLUSTER. j = i \<or> ff_ri (x_collect ?y ! j) = ff_wi (x_collect ?y ! j) \<longrightarrow> ff_ri (x_collect y' ! j) = ff_wi (x_collect y' ! j)) \<and>
      (\<forall>j. j \<noteq> i \<longrightarrow> x_collect y' ! j = x_collect ?y ! j)"
      by (rule "1.IH" [OF refl refl _ _ dr ok "1.prems"(2)]) (use False le sl in simp_all)
    moreover have "ff_ri (x_collect ?y ! j) = ff_wi (x_collect ?y ! j)" if "j \<noteq> i" "ff_ri (x_collect x ! j) = ff_wi (x_collect x ! j)" for j
      using that by simp
    moreover have "x_collect ?y ! j = x_collect x ! j" if "j \<noteq> i" for j using that by simp
    moreover have "same_xop ?y z = same_xop x z" "x_cluster ?y = x_cluster x" for z by (simp_all add: same_xop_def)
    ultimately show ?thesis unfolding run by metis
  qed
qed

lemma clear_bit:
  "i < 32 \<Longrightarrow> j < 32 \<Longrightarrow> bit (m AND ucast (NOT (push_bit i 1 :: u32)) :: u64) j \<longleftrightarrow> bit m j \<and> j \<noteq> i"
  by (auto simp: bit_simps)

lemma clean_fifos_spec:
  assumes "xop_ok x" "set ns \<subseteq> {..<MAXCLUSTER}" "distinct ns"
    and "\<forall>i \<in> set ns. ff_ri (x_collect x ! i) \<noteq> ff_wi (x_collect x ! i) \<longrightarrow> bit m i"
  shows "\<exists>y. clean_fifos ns m x = Some y \<and> xop_ok y \<and> same_xop x y \<and> x_cluster y = x_cluster x \<and>
    (\<forall>j < MAXCLUSTER. j \<in> set ns \<or> ff_ri (x_collect x ! j) = ff_wi (x_collect x ! j) \<longrightarrow> ff_ri (x_collect y ! j) = ff_wi (x_collect y ! j))"
  using assms
proof (induction ns arbitrary: x m)
  case Nil
  then show ?case by (simp add: same_xop_def)
next
  case (Cons i ns)
  show ?case
  proof (cases "m = 0")
    case True
    then show ?thesis using Cons.prems by (auto simp: same_xop_def)
  next
    case False
    have i: "i < MAXCLUSTER" using Cons.prems(2) by simp
    obtain y where y: "clean_fifo i x = Some y" "xop_ok y" "same_xop x y" "x_cluster y = x_cluster x"
      "\<forall>j < MAXCLUSTER. j = i \<or> ff_ri (x_collect x ! j) = ff_wi (x_collect x ! j) \<longrightarrow> ff_ri (x_collect y ! j) = ff_wi (x_collect y ! j)"
      "\<forall>j. j \<noteq> i \<longrightarrow> x_collect y ! j = x_collect x ! j" using clean_fifo_spec [OF Cons.prems(1) i] by blast
    let ?m = "m AND ucast (NOT (push_bit i 1 :: u32))"
    have "\<forall>j \<in> set ns. ff_ri (x_collect y ! j) \<noteq> ff_wi (x_collect y ! j) \<longrightarrow> bit ?m j"
    proof (intro ballI impI)
      fix j assume j: "j \<in> set ns" "ff_ri (x_collect y ! j) \<noteq> ff_wi (x_collect y ! j)"
      have ne: "j \<noteq> i" "j < 32" "i < 32" using j(1) Cons.prems(2,3) by auto
      then have "bit m j" using j y(6) Cons.prems(4) by simp
      then show "bit ?m j" using clear_bit [OF ne(3,2)] ne(1) by blast
    qed
    from Cons.IH [OF y(2) _ _ this] obtain z where z: "clean_fifos ns ?m y = Some z" "xop_ok z" "same_xop y z" "x_cluster z = x_cluster y"
      "\<forall>j < MAXCLUSTER. j \<in> set ns \<or> ff_ri (x_collect y ! j) = ff_wi (x_collect y ! j) \<longrightarrow> ff_ri (x_collect z ! j) = ff_wi (x_collect z ! j)"
      using Cons.prems(2,3) by auto
    have "ff_ri (x_collect z ! j) = ff_wi (x_collect z ! j)"
      if "j < MAXCLUSTER" "j \<in> set (i # ns) \<or> ff_ri (x_collect x ! j) = ff_wi (x_collect x ! j)" for j
      using that y(5) z(5) by auto
    then show ?thesis using z y same_xop_trans [OF y(3) z(3)] False by auto
  qed
qed

text \<open>The last retirement drops every reference.\<close>

lemma retire_last:
  assumes "xop_ok x" "x_run_mask x AND m \<noteq> 0" "x_run_mask x AND XOPMASK_ALLDONE = m"
  shows "hammer2_xop_retire m x = Some (Freed (cl_array (x_cluster x)) {#})"
proof -
  let ?x = "x\<lparr>x_run_mask := x_run_mask x + (- m + XOPMASK_FEED)\<rparr>" and ?n = "x_nchains x"
  have ok: "xop_ok ?x" using assms(1) by (simp add: xop_ok_def owned_def stream_def)
  have "set [0..<?n] \<subseteq> {..<x_nchains ?x}" by auto
  from clean_cluster_spec [OF ok this] obtain y where y: "clean_cluster [0..<?n] ?x = Some y" "xop_ok y" "same_xop ?x y"
    "x_collect y = x_collect x" "\<forall>i < ?n. ci_chain (x_item y i) = None" by auto
  have chk: "\<forall>i \<in> set [0..<MAXCLUSTER]. ff_ri (x_collect y ! i) \<noteq> ff_wi (x_collect y ! i) \<longrightarrow> bit (x_chk_mask y) i"
    using xop_okD(6) [OF y(2)] by auto
  have "set [0..<MAXCLUSTER] \<subseteq> {..<MAXCLUSTER}" "distinct [0..<MAXCLUSTER]" by auto
  from clean_fifos_spec [OF y(2) this chk] obtain z where z: "clean_fifos [0..<MAXCLUSTER] (x_chk_mask y) y = Some z" "xop_ok z" "same_xop y z"
    "x_cluster z = x_cluster y" "\<forall>j < MAXCLUSTER. ff_ri (x_collect z ! j) = ff_wi (x_collect z ! j)" by auto
  have n: "x_nchains z = ?n" using y(3) z(3) by (simp add: same_xop_def)
  have "stream z i = []" if "i < ?n" for i
  proof -
    have "ff_ri (x_collect z ! i) = ff_wi (x_collect z ! i)" using z(5) that xop_okD(3) [OF z(2)] n by simp
    then have "entries (x_fifo_size z) (x_collect z ! i) = []" using entries_Nil [OF xop_okD(5) [OF z(2), of i]] that n by simp
    then show ?thesis using y(5) that z(4) by (simp add: stream_def node_stream_def List.map_filter_def)
  qed
  then have "owned z = {#}" by (simp add: owned_def n)
  then have refs: "x_refs z = {#}" using xop_okD(7) [OF z(2)] by simp
  have "0 < x_fifo_size z" using pow2_double(3) [OF xop_okD(1) [OF z(2)]] .
  then show ?thesis unfolding hammer2_xop_retire_def Let_def kkassert_bind using assms(2,3) y(1) z(1) refs by simp
qed

section \<open>Who is attached\<close>

datatype party = Front | Node nat

fun party_bit :: "party \<Rightarrow> nat" where
  "party_bit Front = 31"
| "party_bit (Node i) = i"

definition party_mask :: "party \<Rightarrow> u64" where
  "party_mask p = push_bit (party_bit p) 1"

text \<open>The bits of the run mask are the front end and the nodes that have not retired.\<close>

definition attached :: "u64 \<Rightarrow> party set" where
  "attached m = {p. bit m (party_bit p) \<and> (\<forall>i. p = Node i \<longrightarrow> i < MAXCLUSTER)}"

lemma alldone_bit: "bit XOPMASK_ALLDONE k \<longleftrightarrow> k < 8 \<or> k = 31"
proof -
  have eq: "XOPMASK_ALLDONE = 2 ^ 31 OR mask 8" by (simp add: mask_eq_exp_minus_1)
  have "bit (2 ^ 31 :: u64) k \<longleftrightarrow> k = 31" "bit (mask 8 :: u64) k \<longleftrightarrow> k < 8" unfolding bit_exp_iff bit_mask_iff possible_bit_word by auto
  then show ?thesis unfolding eq bit_or_iff by blast
qed

lemma party_bit: "\<forall>i. p = Node i \<longrightarrow> i < MAXCLUSTER \<Longrightarrow> bit XOPMASK_ALLDONE (party_bit p) \<and> party_bit p < 32"
  unfolding alldone_bit by (cases p) simp_all

lemma attached_cong:
  assumes "m AND XOPMASK_ALLDONE = m' AND XOPMASK_ALLDONE"
  shows "attached m = attached m'"
proof -
  have "bit m k = bit m' k" if "bit XOPMASK_ALLDONE k" for k using arg_cong [OF assms, of "\<lambda>w. bit w k"] that by (simp add: bit_and_iff)
  then show ?thesis using party_bit by (auto simp: attached_def)
qed

lemma mask_bit: "\<forall>i. p = Node i \<longrightarrow> i < MAXCLUSTER \<Longrightarrow> bit (party_mask p) k \<longleftrightarrow> k = party_bit p"
  using party_bit [of p] by (auto simp: party_mask_def bit_exp_iff)

lemma party_bit_inj: "\<forall>i. p = Node i \<longrightarrow> i < MAXCLUSTER \<Longrightarrow> \<forall>i. q = Node i \<longrightarrow> i < MAXCLUSTER \<Longrightarrow> party_bit p = party_bit q \<Longrightarrow> p = q"
  by (cases p; cases q) auto

lemma attached_last:
  assumes "p \<in> attached m"
  shows "m AND party_mask p \<noteq> 0" "m AND XOPMASK_ALLDONE = party_mask p \<longleftrightarrow> attached m = {p}"
proof -
  have p: "\<forall>i. p = Node i \<longrightarrow> i < MAXCLUSTER" "bit m (party_bit p)" using assms by (simp_all add: attached_def)
  show "m AND party_mask p \<noteq> 0" using mask_bit [OF p(1), of "party_bit p"] p(2) by (metis bit_0_eq bit_and_iff bot_apply bot_bool_def)
  show "m AND XOPMASK_ALLDONE = party_mask p \<longleftrightarrow> attached m = {p}"
  proof
    assume eq: "m AND XOPMASK_ALLDONE = party_mask p"
    have "q = p" if "q \<in> attached m" for q
    proof -
      have q: "\<forall>i. q = Node i \<longrightarrow> i < MAXCLUSTER" "bit m (party_bit q)" using that by (simp_all add: attached_def)
      then have "bit (party_mask p) (party_bit q)" unfolding eq [symmetric] using party_bit [OF q(1)] by (simp add: bit_and_iff)
      then show ?thesis using mask_bit [OF p(1)] party_bit_inj [OF q(1) p(1)] by blast
    qed
    then show "attached m = {p}" using assms by blast
  next
    assume eq: "attached m = {p}"
    have "bit m k \<longleftrightarrow> k = party_bit p" if "k < 8 \<or> k = 31" for k
    proof -
      have "k = party_bit (if k = 31 then Front else Node k)" by simp
      then have "bit m k \<longleftrightarrow> (if k = 31 then Front else Node k) \<in> attached m" using that by (auto simp: attached_def)
      then show ?thesis using eq that p(1) by (cases p) auto
    qed
    then show "m AND XOPMASK_ALLDONE = party_mask p"
      using party_bit [OF p(1)] by (intro bit_word_eqI) (unfold bit_and_iff alldone_bit mask_bit [OF p(1)], blast)
  qed
qed

lemma attached_retire:
  assumes "p \<in> attached m"
  shows "attached (m + (- party_mask p + XOPMASK_FEED)) = attached m - {p}"
proof -
  have p: "\<forall>i. p = Node i \<longrightarrow> i < MAXCLUSTER" "bit m (party_bit p)" using assms by (simp_all add: attached_def)
  have "NOT m AND party_mask p = 0" by (rule bit_word_eqI) (use p mask_bit [OF p(1)] in \<open>auto simp: bit_and_iff bit_not_iff\<close>)
  then have "m - party_mask p = m AND NOT (party_mask p)" by (rule disjunctive_diff_eq_and_not)
  then have "m + (- party_mask p + XOPMASK_FEED) = (m AND NOT (party_mask p)) + XOPMASK_FEED" by (simp add: algebra_simps)
  then have "attached (m + (- party_mask p + XOPMASK_FEED)) = attached (m AND NOT (party_mask p))"
    using run_mask_feed(1) attached_cong by metis
  also have "\<dots> = attached m - {p}"
  proof -
    have "bit (m AND NOT (party_mask p)) (party_bit q) \<longleftrightarrow> bit m (party_bit q) \<and> q \<noteq> p" if "\<forall>i. q = Node i \<longrightarrow> i < MAXCLUSTER" for q
      using mask_bit [OF p(1)] party_bit_inj [OF that p(1)] party_bit [OF that] by (auto simp: bit_and_iff bit_not_iff)
    then show ?thesis by (auto simp: attached_def)
  qed
  finally show ?thesis .
qed

lemma attached_front: "hammer2_xop_active x \<longleftrightarrow> Front \<in> attached (x_run_mask x)"
proof -
  have "x_run_mask x AND XOPMASK_VOP \<noteq> 0 \<longleftrightarrow> bit (x_run_mask x) 31" using and_exp_eq_0 [of "x_run_mask x" 31] by simp
  then show ?thesis by (simp add: hammer2_xop_active_def attached_def)
qed

section \<open>Retirement and collection keep the invariant\<close>

definition live_ok :: "xop \<Rightarrow> bool" where
  "live_ok x \<longleftrightarrow> xop_ok x \<and> (\<forall>i. Node i \<in> attached (x_run_mask x) \<longrightarrow> i < x_nchains x \<and> bit (x_chk_mask x) i)"

lemma live_okI:
  assumes "live_ok x" "xop_ok y" "x_nchains y = x_nchains x" "x_chk_mask y = x_chk_mask x" "attached (x_run_mask y) \<subseteq> attached (x_run_mask x)"
  shows "live_ok y"
  using assms unfolding live_ok_def by auto

lemma retire_ok:
  assumes "live_ok x" "p \<in> attached (x_run_mask x)"
  shows "if attached (x_run_mask x) = {p} then \<exists>cc. hammer2_xop_retire (party_mask p) x = Some (Freed cc {#})
    else \<exists>y w. hammer2_xop_retire (party_mask p) x = Some (Retired y w) \<and> live_ok y \<and> attached (x_run_mask y) = attached (x_run_mask x) - {p}"
proof -
  note l = attached_last [OF assms(2)] and ok = assms(1) [unfolded live_ok_def]
  show ?thesis
  proof (cases "attached (x_run_mask x) = {p}")
    case True
    then show ?thesis using retire_last [OF conjunct1 [OF ok] l(1)] l(2) by auto
  next
    case False
    let ?y = "x\<lparr>x_run_mask := x_run_mask x + (- party_mask p + XOPMASK_FEED)\<rparr>"
    have run: "\<exists>w. hammer2_xop_retire (party_mask p) x = Some (Retired ?y w)"
      unfolding hammer2_xop_retire_def Let_def kkassert_bind using l False by simp
    have "xop_ok ?y" using ok by (simp add: xop_ok_def owned_def stream_def)
    moreover have e: "x_run_mask ?y = x_run_mask x + (- party_mask p + XOPMASK_FEED)" by simp
    have a: "attached (x_run_mask ?y) = attached (x_run_mask x) - {p}" unfolding e by (rule attached_retire [OF assms(2)])
    ultimately have "live_ok ?y" by (intro live_okI [OF assms(1)]) (auto simp only: a, simp_all)
    then show ?thesis unfolding if_not_P [OF False] using run a by blast
  qed
qed

lemma check_total: "cl_pmp cl \<noteq> None \<Longrightarrow> \<exists>e cl'. hammer2_cluster_check cl key fl = Some (e, cl')"
  by (auto simp: hammer2_cluster_check_def Let_def kkassert_bind split: prod.splits)

definition step_ok :: "xop \<Rightarrow> xop \<Rightarrow> bool" where
  "step_ok x y \<longleftrightarrow> xop_ok y \<and> x_nchains y = x_nchains x \<and> x_chk_mask y = x_chk_mask x \<and>
     x_run_mask y AND XOPMASK_ALLDONE = x_run_mask x AND XOPMASK_ALLDONE"

lemma step_live: "live_ok x \<Longrightarrow> step_ok x y \<Longrightarrow> live_ok y \<and> attached (x_run_mask y) = attached (x_run_mask x)"
  using attached_cong [of "x_run_mask y" "x_run_mask x"] by (auto simp: step_ok_def intro: live_okI)

lemma collect_total:
  assumes "xop_ok x"
  shows "\<exists>r. hammer2_xop_collect flags x = Some r \<and> (case r of Collected e y \<Rightarrow> step_ok x y | Sleeps y \<Rightarrow> step_ok x y)"
  using assms
proof (induction flags x rule: hammer2_xop_collect.induct)
  case (1 flags x)
  obtain x1 l kn where scan: "collect_items [0..<x_nchains x] (x, - 1, CHECK_NULL) = Some (x1, l, kn)" and sd: "scan_done x (x_nchains x) x1 l kn"
    using collect_items_spec [OF "1.prems" le_refl] by blast
  have ok1: "xop_ok x1" and same: "same_xop x x1" using sd by (simp_all add: scan_done_def)
  obtain e x2 where c: "collect_check flags (x_run_mask x) l kn x1 = Some (e, x2)" and k: "x2 = x1 \<or> (\<exists>cl. keeps_items (x_cluster x1) cl \<and> x2 = x1\<lparr>x_cluster := cl\<rparr>)"
  proof -
    obtain e' cl where h: "hammer2_cluster_check (x_cluster x1) l kn = Some (e', cl)" using check_total [OF xop_okD(4) [OF ok1]] by blast
    have "\<exists>e x2. collect_check flags (x_run_mask x) l kn x1 = Some (e, x2) \<and> (x2 = x1 \<or> x2 = x1\<lparr>x_cluster := cl\<rparr>)"
      using h by (auto simp: collect_check_def)
    then show ?thesis using that check_keeps [OF h] by blast
  qed
  have same1: "same_xop x1 x1" by (simp add: same_xop_def)
  have ok2: "xop_ok x2" "same_xop x1 x2" using k check_ok [OF ok1] ok1 same1 by metis+
  have s: "same_xop x x2" by (rule same_xop_trans [OF same ok2(2)])
  have upd: "step_ok x (x2\<lparr>x_collect_key := j\<rparr>)" "step_ok x x2" for j
    using ok2(1) s by (auto simp: step_ok_def same_xop_def xop_ok_def owned_def stream_def)
  have wait: "step_ok x (x2\<lparr>x_run_mask := x_run_mask x OR XOPMASK_WAIT\<rparr>)"
  proof -
    have "(x_run_mask x OR XOPMASK_WAIT) AND XOPMASK_ALLDONE = x_run_mask x AND XOPMASK_ALLDONE" by (simp add: bit.conj_disj_distrib2)
    then show ?thesis using ok2(1) s by (auto simp: step_ok_def same_xop_def xop_ok_def owned_def stream_def)
  qed
  note unf = hammer2_xop_collect.simps [of flags x, unfolded scan option.case prod.case c]
  consider "e = H2_EINPROGRESS" | "e \<noteq> H2_EINPROGRESS" "(e = H2_ESRCH \<or> e = H2_EDEADLK) \<and> l \<noteq> - 1"
    | "e \<noteq> H2_EINPROGRESS" "\<not> ((e = H2_ESRCH \<or> e = H2_EDEADLK) \<and> l \<noteq> - 1)" by blast
  then show ?case
  proof cases
    case 1
    then show ?thesis unfolding unf using upd wait by simp
  next
    case 2
    have ok3: "xop_ok (x2\<lparr>x_collect_key := l + 1\<rparr>)" using upd(1) by (simp add: step_ok_def)
    have run: "hammer2_xop_collect flags x = hammer2_xop_collect flags (x2\<lparr>x_collect_key := l + 1\<rparr>)" unfolding unf using 2 by simp
    have tr: "step_ok x y" if "step_ok (x2\<lparr>x_collect_key := l + 1\<rparr>) y" for y using that s by (simp add: step_ok_def same_xop_def)
    obtain r where r: "hammer2_xop_collect flags (x2\<lparr>x_collect_key := l + 1\<rparr>) = Some r"
      "case r of Collected e y \<Rightarrow> step_ok (x2\<lparr>x_collect_key := l + 1\<rparr>) y | Sleeps y \<Rightarrow> step_ok (x2\<lparr>x_collect_key := l + 1\<rparr>) y"
      using "1.IH" [OF scan refl refl c refl 2 ok3] by blast
    have "case r of Collected e y \<Rightarrow> step_ok x y | Sleeps y \<Rightarrow> step_ok x y" using r(2) tr by (cases r) simp_all
    then show ?thesis unfolding run using r(1) by blast
  next
    case 3
    then show ?thesis unfolding unf if_not_P [OF 3(1)] if_not_P [OF 3(2)] using upd by simp
  qed
qed

section \<open>Allocation and start\<close>

lemma fifo_alloc_first: "hammer2_xop_fifo_alloc XOPFIFO 0 fifo_zero =
  Some \<lparr>ff_array = replicate 16 None, ff_errors = replicate 16 0, ff_ri = 0, ff_wi = 0\<rparr>"
proof -
  have "(16 :: nat) AND 15 = 0" by simp
  then show ?thesis by (simp add: hammer2_xop_fifo_alloc_def realloc_def fifo_zero_def kkassert_bind)
qed

lemma xop_alloc_ok:
  assumes "hammer2_xop_alloc pmp n modifying tr = Some (x, tr')"
  shows "xop_ok x" "x_nchains x = n" "x_run_mask x = XOPMASK_VOP" "x_chk_mask x = 0" "cl_pmp (x_cluster x) = Some pmp"
proof -
  let ?f = "\<lparr>ff_array = replicate 16 None, ff_errors = replicate 16 0, ff_ri = 0, ff_wi = 0\<rparr> :: xop_fifo"
  obtain mt where n: "n \<le> MAXCLUSTER" and x: "x = \<lparr>x_mtid = mt, x_run_mask = XOPMASK_VOP, x_chk_mask = 0, x_fifo_size = XOPFIFO, x_collect_key = 0,
      x_collect = replicate n ?f @ replicate (MAXCLUSTER - n) fifo_zero, x_cluster = cluster_zero pmp n, x_refs = {#}\<rparr>"
    using assms unfolding hammer2_xop_alloc_def fifo_alloc_first by (auto simp: Let_def kkassert_bind split: prod.splits if_splits)
  show len: "x_nchains x = n" and "x_run_mask x = XOPMASK_VOP" "x_chk_mask x = 0" "cl_pmp (x_cluster x) = Some pmp"
    by (simp_all add: x cluster_zero_def)
  have at: "x_collect x ! i = (if i < n then ?f else fifo_zero)" if "i < MAXCLUSTER" for i using that n by (simp add: x nth_append)
  have f: "fifo_ok XOPFIFO ?f" "entries XOPFIFO ?f = []" by (simp_all add: fifo_ok_def entries_def)
  have "stream x i = []" if "i < n" for i using that at [of i] n f(2) by (simp add: stream_def node_stream_def x cluster_zero_def List.map_filter_def)
  then have "owned x = {#}" unfolding owned_def len by simp
  moreover have "pow2 XOPFIFO" using exI [of "\<lambda>k. (16 :: nat) = 2 ^ k" 4] by (simp add: pow2_def)
  moreover have "ff_ri (x_collect x ! i) = ff_wi (x_collect x ! i)" if "i < MAXCLUSTER" for i using at [OF that] by (simp add: fifo_zero_def)
  moreover have "fifo_ok XOPFIFO (x_collect x ! i)" if "i < n" for i using at [of i] that n f(1) by simp
  ultimately show "xop_ok x" unfolding xop_ok_def len using n by (simp add: x cluster_zero_def)
qed

lemma start_fold:
  assumes "set ns \<subseteq> {..<MAXCLUSTER}"
  shows "\<exists>y s. fold (\<lambda>i (x, started). if P i then (x\<lparr>x_run_mask := x_run_mask x OR push_bit i 1, x_chk_mask := x_chk_mask x OR push_bit i 1\<rparr>, started @ [i])
       else (x, started)) ns (x, st) = (y, st @ s) \<and> s = filter P ns \<and>
     (\<exists>m k. y = x\<lparr>x_run_mask := m, x_chk_mask := k\<rparr> \<and> (\<forall>j. bit m j \<longleftrightarrow> bit (x_run_mask x) j \<or> j \<in> set s) \<and> (\<forall>j. bit k j \<longleftrightarrow> bit (x_chk_mask x) j \<or> j \<in> set s))"
  using assms
proof (induction ns arbitrary: x st)
  case Nil
  show ?case by (intro exI [of _ x] exI [of _ "[]"] conjI exI [of _ "x_run_mask x"] exI [of _ "x_chk_mask x"]) simp_all
next
  case (Cons i ns)
  let ?x = "if P i then x\<lparr>x_run_mask := x_run_mask x OR push_bit i 1, x_chk_mask := x_chk_mask x OR push_bit i 1\<rparr> else x"
  obtain y s m k where IH: "fold (\<lambda>i (x, started). if P i then (x\<lparr>x_run_mask := x_run_mask x OR push_bit i 1, x_chk_mask := x_chk_mask x OR push_bit i 1\<rparr>, started @ [i])
       else (x, started)) ns (?x, if P i then st @ [i] else st) = (y, (if P i then st @ [i] else st) @ s)" "s = filter P ns"
    "y = ?x\<lparr>x_run_mask := m, x_chk_mask := k\<rparr>" "\<forall>j. bit m j \<longleftrightarrow> bit (x_run_mask ?x) j \<or> j \<in> set s" "\<forall>j. bit k j \<longleftrightarrow> bit (x_chk_mask ?x) j \<or> j \<in> set s"
    using Cons.IH [of ?x "if P i then st @ [i] else st"] Cons.prems by auto
  have b: "bit (w OR push_bit i 1) j \<longleftrightarrow> bit w j \<or> j = i" for w :: u64 and j
    using Cons.prems by (auto simp: bit_or_iff bit_exp_iff)
  show ?case
  proof (cases "P i")
    case True
    have "y = x\<lparr>x_run_mask := m, x_chk_mask := k\<rparr> \<and> (\<forall>j. bit m j \<longleftrightarrow> bit (x_run_mask x) j \<or> j \<in> set (i # s)) \<and>
        (\<forall>j. bit k j \<longleftrightarrow> bit (x_chk_mask x) j \<or> j \<in> set (i # s))" using IH(3-5) True b by auto
    then show ?thesis using IH(1,2) True by (intro exI [of _ y] exI [of _ "i # s"] conjI) (simp, simp, blast)
  next
    case False
    have "y = x\<lparr>x_run_mask := m, x_chk_mask := k\<rparr> \<and> (\<forall>j. bit m j \<longleftrightarrow> bit (x_run_mask x) j \<or> j \<in> set s) \<and>
        (\<forall>j. bit k j \<longleftrightarrow> bit (x_chk_mask x) j \<or> j \<in> set s)" using IH(3-5) False by auto
    then show ?thesis using IH(1,2) False by (intro exI [of _ y] exI [of _ s] conjI) (simp, simp, blast)
  qed
qed

lemma xop_start_ok:
  assumes "hammer2_xop_alloc pmp (length cs) modifying tr = Some (x0, tr')"
    and "hammer2_xop_start_except pmp cs modifying everywhere notidx x0 = Some (x, started)"
  shows "live_ok x" "attached (x_run_mask x) = insert Front (Node ` set started)" "x_nchains x = length cs"
proof -
  note a = xop_alloc_ok [OF assms(1)]
  have le: "length cs \<le> MAXCLUSTER" using xop_okD(3) [OF a(1)] a(2) by simp
  have "set [0..<length cs] \<subseteq> {..<MAXCLUSTER}" using le by auto
  from start_fold [OF this, of "xop_takes pmp cs modifying everywhere notidx" x0 "[]"] obtain m k where
    x: "x = x0\<lparr>x_run_mask := m, x_chk_mask := k\<rparr>" and s: "started = filter (xop_takes pmp cs modifying everywhere notidx) [0..<length cs]"
    and b: "\<forall>j. bit m j \<longleftrightarrow> bit (x_run_mask x0) j \<or> j \<in> set started" "\<forall>j. bit k j \<longleftrightarrow> bit (x_chk_mask x0) j \<or> j \<in> set started"
    using assms(2) le unfolding hammer2_xop_start_except_def by auto
  show n: "x_nchains x = length cs" using a(2) by (simp add: x)
  have st: "i < length cs" if "i \<in> set started" for i using that s by simp
  have vop: "bit (XOPMASK_VOP :: u64) j \<longleftrightarrow> j = 31" for j
  proof -
    have "XOPMASK_VOP = 2 ^ 31" by simp
    then show ?thesis unfolding bit_exp_iff possible_bit_word by (auto simp only: bit_exp_iff possible_bit_word) auto
  qed
  have "bit m (party_bit p) \<longleftrightarrow> p = Front \<or> (\<exists>i \<in> set started. p = Node i)" if "\<forall>i. p = Node i \<longrightarrow> i < MAXCLUSTER" for p
    using b(1) that st le unfolding a(3) vop by (cases p) auto
  moreover have "i < MAXCLUSTER" if "i \<in> set started" for i using st [OF that] le by simp
  moreover have "x_run_mask x = m" by (simp add: x)
  ultimately show att: "attached (x_run_mask x) = insert Front (Node ` set started)" unfolding attached_def by blast
  have ok: "xop_ok x"
  proof -
    have "owned x = owned x0" by (simp add: owned_def stream_def x)
    then show ?thesis using a(1) b(2) unfolding xop_ok_def by (simp add: x)
  qed
  then show "live_ok x" unfolding live_ok_def att using st n b(2) by (auto simp: x)
qed

end
