(* ===== verification/H2_XopClaims.thy ===== *)
theory H2_XopClaims
  imports H2_XopRun
begin

text \<open>
  The claims about cluster operations: what repeated collections return, the life of an xop, what the growth of
  a ring buffer loses, and a key that is skipped because a master answers late.
\<close>

section \<open>Repeated collection\<close>

text \<open>The loop of the callers: collect until there is an error, and look at the key of the focus.\<close>

fun collect_loop :: "nat \<Rightarrow> u32 \<Rightarrow> xop \<Rightarrow> (h2_key list \<times> int) option" where
  "collect_loop 0 flags x = None"
| "collect_loop (Suc n) flags x =
     (case hammer2_xop_collect flags x of
        Some (Collected e y) \<Rightarrow>
          if e \<noteq> 0 then Some ([], e)
          else (case cluster_focus_bref (x_cluster y) of
                  None \<Rightarrow> None
                | Some b \<Rightarrow> map_option (\<lambda>(ks, r). (br_key b # ks, r)) (collect_loop n flags y))
      | _ \<Rightarrow> None)"

definition quorum_keys :: "pfs \<Rightarrow> xop \<Rightarrow> h2_key set" where
  "quorum_keys pmp x = {k. x_collect_key x \<le> k \<and> quorum_key pmp x k}"

lemma quorum_keys_next:
  assumes "finished pmp x" "x_collect_key x \<le> k" "quorum_key pmp x k" "\<forall>j. x_collect_key x \<le> j \<and> j < k \<longrightarrow> \<not> quorum_key pmp x j"
    and "x_nchains y = x_nchains x" "x_collect_key y = k + 1" "\<And>i. i < x_nchains x \<Longrightarrow> stream y i = filter (\<lambda>c. \<not> below k c) (stream x i)"
  shows "quorum_keys pmp y = quorum_keys pmp x - {k}" "Min (quorum_keys pmp x) = k" "k \<in> quorum_keys pmp x"
proof -
  have "k \<noteq> - 1" by (rule quorum_key_bound [OF assms(1,3)])
  then have succ: "k + 1 \<le> j \<longleftrightarrow> k < j" for j unfolding word_le_nat_alt word_less_nat_alt word_Suc [OF \<open>k \<noteq> - 1\<close>] by linarith
  show mem: "k \<in> quorum_keys pmp x" using assms(2,3) by (simp add: quorum_keys_def)
  have least: "k \<le> j" if "j \<in> quorum_keys pmp x" for j using assms(4) that by (auto simp: quorum_keys_def not_less [symmetric])
  then show "Min (quorum_keys pmp x) = k" using mem by (intro Min_eqI) auto
  have "quorum_key pmp y j = quorum_key pmp x j" if "k < j" for j
    using that by (intro quorum_key_filter [OF assms(5,7)]) simp_all
  then show "quorum_keys pmp y = quorum_keys pmp x - {k}"
    using least assms(2) unfolding quorum_keys_def assms(6) succ by (auto simp: order.strict_iff_order)
qed

lemma collect_loop_run:
  assumes "finished pmp x" "flags AND COLLECT_WAITALL = 0 \<or> x_run_mask x AND XOPMASK_ALLDONE = XOPMASK_VOP" "card (quorum_keys pmp x) < n"
  shows "collect_loop n flags x = Some (sorted_list_of_set (quorum_keys pmp x), H2_ENOENT)"
  using assms
proof (induction n arbitrary: x)
  case (Suc n)
  obtain e y where c: "hammer2_xop_collect flags x = Some (Collected e y)" "collected pmp x e y" using collect_finished [OF Suc.prems(1,2)] by blast
  show ?case
  proof (cases "\<exists>k \<ge> x_collect_key x. quorum_key pmp x k")
    case False
    then have "e = H2_ENOENT" "quorum_keys pmp x = {}" using c(2) unfolding collected_def if_not_P [OF False] by (auto simp: quorum_keys_def)
    then show ?thesis using c(1) by simp
  next
    case True
    then obtain k f ch where e: "e = 0" and k: "x_collect_key x \<le> k" "quorum_key pmp x k" "\<forall>j. x_collect_key x \<le> j \<and> j < k \<longrightarrow> \<not> quorum_key pmp x j"
      and y: "x_collect_key y = k + 1" "cl_focus (x_cluster y) = Some f" "ci_chain (x_item y f) = Some ch" "br_key (ch_bref ch) = k"
      "\<forall>i < x_nchains x. stream y i = filter (\<lambda>c. \<not> below k c) (stream x i)" and fin: "finished pmp y" "same_xop x y"
      using c(2) unfolding collected_def if_P [OF True] by blast
    have n: "x_nchains y = x_nchains x" and rm: "x_run_mask y = x_run_mask x" using fin(2) by (simp_all add: same_xop_def)
    note q = quorum_keys_next [OF Suc.prems(1) k n y(1)] and str = y(5)
    have q: "quorum_keys pmp y = quorum_keys pmp x - {k}" "Min (quorum_keys pmp x) = k" "k \<in> quorum_keys pmp x" using q str by auto
    have fs: "finite (quorum_keys pmp x)" by simp
    have "card (quorum_keys pmp y) < n" using Suc.prems(3) q(1,3) by (simp add: card_Diff_singleton_if) (metis card_gt_0_iff Suc_pred empty_iff fs not_less_eq)
    then have "collect_loop n flags y = Some (sorted_list_of_set (quorum_keys pmp y), H2_ENOENT)" using Suc.IH fin(1) Suc.prems(2) rm by simp
    moreover have "cluster_focus_bref (x_cluster y) = Some (ch_bref ch)" using y(2,3) by (simp add: cluster_focus_bref_def)
    moreover have "sorted_list_of_set (quorum_keys pmp x) = k # sorted_list_of_set (quorum_keys pmp y)"
      using sorted_list_of_set_nonempty [OF fs] q by auto
    ultimately show ?thesis using c(1) e y(4) by simp
  qed
qed simp

text \<open>C13: When every master has fed its results, in the order of their keys and up to the end, repeated collections
return exactly the keys that more than half of the masters hold with one transaction id, each once and in
ascending order, and then \<open>ENOENT\<close>.\<close>

theorem xop_collects_quorum_keys:
  assumes "finished pmp x" "flags AND COLLECT_WAITALL = 0 \<or> x_run_mask x AND XOPMASK_ALLDONE = XOPMASK_VOP"
    and "card {k. x_collect_key x \<le> k \<and> quorum_key pmp x k} < n"
  shows "collect_loop n flags x = Some (sorted_list_of_set {k. x_collect_key x \<le> k \<and> quorum_key pmp x k}, H2_ENOENT)"
  using collect_loop_run [OF assms(1,2)] assms(3) unfolding quorum_keys_def .

definition demo_chain :: "h2_key \<Rightarrow> h2_tid \<Rightarrow> cl_chain" where
  "demo_chain k t = \<lparr>ch_bref = bref_zero\<lparr>br_type := BREF_INODE, br_key := k, br_modify_tid := t\<rparr>, ch_flags = 0, ch_error = 0, ch_bytes = 1024\<rparr>"

definition demo_pfs :: "nat \<Rightarrow> pfs" where
  "demo_pfs n = \<lparr>pfs_types = replicate n PFSTYPE_MASTER, pfs_nmasters = of_nat n\<rparr>"

text \<open>A run that allocates and starts an xop on \<open>n\<close> masters and feeds some results.\<close>

definition demo_started :: "nat \<Rightarrow> (xop \<times> nat list) option" where
  "demo_started n = Option.bind (hammer2_xop_alloc (demo_pfs n) n False \<lparr>tr_flags = 0, tr_modify_tid = 0, tr_inode_tid = 0\<rparr>)
     (\<lambda>(x, tr). hammer2_xop_start_except (demo_pfs n) (replicate n (Some (demo_chain 0 1))) False False (- 1) x)"

fun demo_feed :: "(nat \<times> cl_chain option) list \<Rightarrow> xop \<Rightarrow> xop option" where
  "demo_feed [] x = Some x"
| "demo_feed ((i, c) # fs) x = Option.bind (hammer2_xop_feed c i 0 x) (\<lambda>(e, w, x). demo_feed fs x)"

definition demo_results :: "(nat \<times> cl_chain option) list" where
  "demo_results = [(0, Some (demo_chain 1 5)), (1, Some (demo_chain 1 5)), (0, Some (demo_chain 2 5)), (2, Some (demo_chain 2 5)),
     (2, Some (demo_chain 3 5)), (1, Some (demo_chain 3 5)), (0, Some (demo_chain 4 5)), (1, Some (demo_chain 4 6)), (0, None), (1, None), (2, None)]"

definition demo_xop :: xop where
  "demo_xop = (case demo_started 3 of None \<Rightarrow> undefined | Some (x, st) \<Rightarrow> the (demo_feed demo_results x))"

lemma demo_fields: "x_fifo_size demo_xop = 16" "length (x_collect demo_xop) = 8" "x_nchains demo_xop = 3" "x_collect_key demo_xop = 0"
  "cl_pmp (x_cluster demo_xop) = Some (demo_pfs 3)"
  by code_simp+

lemma demo_nodes: "list_all (\<lambda>i. fifo_ok 16 (x_collect demo_xop ! i) \<and> node_done True 16 (x_item demo_xop i) (x_collect demo_xop ! i)) [0..<3]"
  "list_all (\<lambda>i. ff_ri (x_collect demo_xop ! i) = ff_wi (x_collect demo_xop ! i) \<or> i < 3 \<and> bit (x_chk_mask demo_xop) i) [0..<8]"
  by code_simp+

lemma demo_refs: "x_refs demo_xop = mset (stream demo_xop 0 @ stream demo_xop 1 @ stream demo_xop 2)"
  by code_simp

lemma demo_runs: "map_option fst (collect_loop 5 0 demo_xop) = Some [1, 2, 3]"
  by code_simp

lemma upt3: "{..<3} = {0, 1, 2 :: nat}" "i < 3 \<longleftrightarrow> i = 0 \<or> i = 1 \<or> i = (2 :: nat)"
  by auto

lemma demo_finished: "finished (demo_pfs 3) demo_xop"
proof -
  have nodes: "fifo_ok 16 (x_collect demo_xop ! i) \<and> node_done True 16 (x_item demo_xop i) (x_collect demo_xop ! i)" if "i < 3" for i
    using demo_nodes(1) that by (simp add: list_all_iff)
  have idx: "ff_ri (x_collect demo_xop ! i) \<noteq> ff_wi (x_collect demo_xop ! i) \<longrightarrow> i < 3 \<and> bit (x_chk_mask demo_xop) i" if "i < 8" for i
    using demo_nodes(2) that by (auto simp: list_all_iff)
  have "owned demo_xop = x_refs demo_xop" unfolding owned_def demo_fields demo_refs upt3 by (simp add: ac_simps)
  moreover have "pow2 16" using exI [of "\<lambda>k. (16 :: nat) = 2 ^ k" 4] by (simp add: pow2_def)
  ultimately have "xop_ok demo_xop" unfolding xop_ok_def demo_fields using nodes idx by simp
  moreover have "is_master (demo_pfs 3) i" if "i < 3" for i using that by (simp add: is_master_def demo_pfs_def)
  ultimately show ?thesis unfolding finished_def demo_fields using nodes by simp
qed

lemma stream_votes_pos: "0 < stream_votes pmp x k t \<Longrightarrow> \<exists>i < x_nchains x. \<exists>c \<in> set (stream x i). br_key (ch_bref c) = k"
  by (auto simp: stream_votes_def filter_empty_conv)

theorem xop_collects_quorum_keys_witness:
  "sorted_list_of_set {k. x_collect_key demo_xop \<le> k \<and> quorum_key (demo_pfs 3) demo_xop k} = [1, 2, 3]"
proof -
  let ?S = "{k. x_collect_key demo_xop \<le> k \<and> quorum_key (demo_pfs 3) demo_xop k}"
  have keys: "map (map (br_key \<circ> ch_bref)) (map (stream demo_xop) [0..<3]) = [[1, 2, 4], [1, 3, 4], [2, 3]]" by code_simp
  have "k \<in> {1, 2, 3, 4}" if q: "quorum_key (demo_pfs 3) demo_xop k" for k
  proof -
    obtain t where "t < HAMMER2_TID_MAX \<and> int (unat (pfs_nmasters (demo_pfs 3))) < 2 * stream_votes (demo_pfs 3) demo_xop k t"
      using q unfolding quorum_key_def by blast
    then have "0 < stream_votes (demo_pfs 3) demo_xop k t" by linarith
    then obtain i c where i: "i < 3" "c \<in> set (stream demo_xop i)" "br_key (ch_bref c) = k"
      using stream_votes_pos demo_fields(3) by metis
    have "map (br_key \<circ> ch_bref) (stream demo_xop i) = [[1, 2, 4], [1, 3, 4], [2, 3]] ! i"
      using arg_cong [OF keys, of "\<lambda>xs. xs ! i"] i(1) by simp
    moreover have "k \<in> set (map (br_key \<circ> ch_bref) (stream demo_xop i))" using i(2,3) by force
    ultimately show ?thesis using i(1) unfolding upt3 by auto
  qed
  then have sub: "?S \<subseteq> {1, 2, 3, 4}" by blast
  have "card ?S \<le> card {1, 2, 3, 4 :: h2_key}" by (rule card_mono [OF _ sub]) simp
  then have "card ?S < 5" by simp
  from xop_collects_quorum_keys [OF demo_finished _ this, of 0] have "collect_loop 5 0 demo_xop = Some (sorted_list_of_set ?S, H2_ENOENT)" by simp
  then show ?thesis using demo_runs by simp
qed

section \<open>The life of an xop\<close>

datatype xop_system = Live xop "party set" | Gone "party set" "cl_chain multiset"

text \<open>The parties that have not retired act in any order: a node feeds a result for which there is room, the front
end collects, and each retires once.\<close>

inductive xop_step :: "xop_system \<Rightarrow> xop_system \<Rightarrow> bool" where
  feed: "Node i \<in> A \<Longrightarrow> feed_room x i \<Longrightarrow> hammer2_xop_feed c i e x = Some (err, w, y) \<Longrightarrow> xop_step (Live x A) (Live y A)"
| collect: "Front \<in> A \<Longrightarrow> hammer2_xop_collect flags x = Some (Collected e y) \<Longrightarrow> xop_step (Live x A) (Live y A)"
| sleep: "Front \<in> A \<Longrightarrow> hammer2_xop_collect flags x = Some (Sleeps y) \<Longrightarrow> xop_step (Live x A) (Live y A)"
| retire: "p \<in> A \<Longrightarrow> hammer2_xop_retire (party_mask p) x = Some (Retired y w) \<Longrightarrow> xop_step (Live x A) (Live y (A - {p}))"
| free: "p \<in> A \<Longrightarrow> hammer2_xop_retire (party_mask p) x = Some (Freed cc r) \<Longrightarrow> xop_step (Live x A) (Gone (A - {p}) r)"

fun system_ok :: "xop_system \<Rightarrow> bool" where
  "system_ok (Live x A) \<longleftrightarrow> live_ok x \<and> A = attached (x_run_mask x)"
| "system_ok (Gone A r) \<longleftrightarrow> A = {} \<and> r = {#}"

lemma feed_step:
  assumes "live_ok x" "Node i \<in> attached (x_run_mask x)" "feed_room x i"
  shows "\<exists>err w y. hammer2_xop_feed c i e x = Some (err, w, y) \<and> live_ok y \<and> attached (x_run_mask y) = attached (x_run_mask x)"
proof (cases "hammer2_xop_active x")
  case False
  then show ?thesis using assms(1) by (auto simp: hammer2_xop_feed_def)
next
  case True
  have i: "xop_ok x" "i < x_nchains x" "bit (x_chk_mask x) i" using assms by (auto simp: live_ok_def)
  obtain w y where y: "hammer2_xop_feed c i e x = Some (0, w, y)" "xop_ok y" "x_cluster y = x_cluster x" "x_chk_mask y = x_chk_mask x"
    "x_run_mask y AND XOPMASK_ALLDONE = x_run_mask x AND XOPMASK_ALLDONE" using feed_ok [OF i assms(3) True] by blast
  then have "step_ok x y" by (simp add: step_ok_def)
  from step_live [OF assms(1) this] show ?thesis using y(1) by blast
qed

lemma collect_step:
  assumes "live_ok x" "hammer2_xop_collect flags x = Some r" "r = Collected e y \<or> r = Sleeps y"
  shows "live_ok y \<and> attached (x_run_mask y) = attached (x_run_mask x)"
proof -
  have "step_ok x y" using collect_total [of x flags] assms by (auto simp: live_ok_def)
  from step_live [OF assms(1) this] show ?thesis .
qed

lemma step_system_ok: "xop_step s s' \<Longrightarrow> system_ok s \<Longrightarrow> system_ok s'"
proof (induction rule: xop_step.induct)
  case (feed i A x c e err w y)
  then show ?case using feed_step [of x i c e] by auto
next
  case (collect A flags x e y)
  then show ?case using collect_step [of x flags "Collected e y"] by auto
next
  case (sleep A flags x y)
  then show ?case using collect_step [of x flags "Sleeps y"] by auto
next
  case (retire p A x y w)
  then show ?case using retire_ok [of x p] by (auto split: if_splits)
next
  case (free p A x cc r)
  then show ?case using retire_ok [of x p] by (auto split: if_splits)
qed

text \<open>C14: From its start, and as long as every feed finds room, no assertion of an xop fails, whatever the order of feeds,
collections and retirements: every such call that a party can make returns, and the xop is freed exactly by the last
party, when every reference that was taken has been dropped.  A feed finds room when the ring buffer of its node
is not full, or when the xop has one node whose reader is at the start of a double turn (in particular before any
result was taken); the other feeds make a buffer grow and can lose results or write out of bounds (C15).\<close>

theorem xop_life:
  assumes "hammer2_xop_alloc pmp (length cs) modifying tr = Some (x0, tr')"
    and "hammer2_xop_start_except pmp cs modifying everywhere notidx x0 = Some (x, started)"
    and "xop_step\<^sup>*\<^sup>* (Live x (insert Front (Node ` set started))) s"
  shows "case s of
      Live y A \<Rightarrow>
        (\<forall>p \<in> A. if A = {p} then \<exists>cc. hammer2_xop_retire (party_mask p) y = Some (Freed cc {#})
                 else \<exists>z w. hammer2_xop_retire (party_mask p) y = Some (Retired z w)) \<and>
        (\<forall>flags. hammer2_xop_collect flags y \<noteq> None) \<and>
        (\<forall>i c e. Node i \<in> A \<longrightarrow> feed_room y i \<longrightarrow> hammer2_xop_feed c i e y \<noteq> None)
    | Gone A r \<Rightarrow> A = {} \<and> r = {#}"
proof -
  have "system_ok (Live x (insert Front (Node ` set started)))" using xop_start_ok [OF assms(1,2)] by simp
  with assms(3) have ok: "system_ok s" by (induction rule: rtranclp_induct) (auto intro: step_system_ok)
  show ?thesis
  proof (cases s)
    case (Live y A)
    then have y: "live_ok y" "A = attached (x_run_mask y)" using ok by simp_all
    have "if A = {p} then \<exists>cc. hammer2_xop_retire (party_mask p) y = Some (Freed cc {#})
        else \<exists>z w. hammer2_xop_retire (party_mask p) y = Some (Retired z w)" if "p \<in> A" for p
      using retire_ok [OF y(1), of p] that y(2) by (auto split: if_splits)
    moreover have "hammer2_xop_collect flags y \<noteq> None" for flags using collect_total [of y flags] y(1) by (auto simp: live_ok_def)
    moreover have "hammer2_xop_feed c i e y \<noteq> None" if "Node i \<in> A" "feed_room y i" for i c e using feed_step [OF y(1) _ that(2)] that(1) y(2) by fastforce
    ultimately show ?thesis using Live by simp
  qed (use ok in simp)
qed

definition demo_one :: xop where
  "demo_one = fst (the (demo_started 1))"

lemma demo_one_started: "hammer2_xop_start_except (demo_pfs 1) [Some (demo_chain 0 1)] False False (- 1)
    (fst (the (hammer2_xop_alloc (demo_pfs 1) 1 False \<lparr>tr_flags = 0, tr_modify_tid = 0, tr_inode_tid = 0\<rparr>))) = Some (demo_one, [0])"
  "\<exists>tr'. hammer2_xop_alloc (demo_pfs 1) 1 False \<lparr>tr_flags = 0, tr_modify_tid = 0, tr_inode_tid = 0\<rparr> =
    Some (fst (the (hammer2_xop_alloc (demo_pfs 1) 1 False \<lparr>tr_flags = 0, tr_modify_tid = 0, tr_inode_tid = 0\<rparr>)), tr')"
proof -
  let ?a = "hammer2_xop_alloc (demo_pfs 1) 1 False \<lparr>tr_flags = 0, tr_modify_tid = 0, tr_inode_tid = 0\<rparr>"
  show a: "\<exists>tr'. ?a = Some (fst (the ?a), tr')"
    unfolding hammer2_xop_alloc_def fifo_alloc_first by (simp add: Let_def)
  obtain x0 tr0 where x0: "?a = Some (x0, tr0)" using a by blast
  have "demo_started 1 = hammer2_xop_start_except (demo_pfs 1) [Some (demo_chain 0 1)] False False (- 1) (fst (the ?a))"
    unfolding demo_started_def x0 by simp
  moreover have "xop_takes (demo_pfs 1) [Some (demo_chain 0 1)] False False (- 1) 0" by (simp add: xop_takes_def)
  ultimately show "hammer2_xop_start_except (demo_pfs 1) [Some (demo_chain 0 1)] False False (- 1) (fst (the ?a)) = Some (demo_one, [0])"
    unfolding demo_one_def by (simp add: hammer2_xop_start_except_def)
qed

theorem xop_life_witness:
  "\<exists>z w cc. hammer2_xop_retire (party_mask (Node 0)) demo_one = Some (Retired z w) \<and> hammer2_xop_retire (party_mask Front) z = Some (Freed cc {#})"
proof -
  obtain tr' where a: "hammer2_xop_alloc (demo_pfs 1) (length [Some (demo_chain 0 1)]) False \<lparr>tr_flags = 0, tr_modify_tid = 0, tr_inode_tid = 0\<rparr> =
    Some (fst (the (hammer2_xop_alloc (demo_pfs 1) 1 False \<lparr>tr_flags = 0, tr_modify_tid = 0, tr_inode_tid = 0\<rparr>)), tr')"
    using demo_one_started(2) by auto
  note life = xop_life [OF a demo_one_started(1)]
  let ?A = "insert Front (Node ` set [0])"
  obtain z w where r: "hammer2_xop_retire (party_mask (Node 0)) demo_one = Some (Retired z w)"
    using life [OF rtranclp.rtrancl_refl] by auto
  have "xop_step (Live demo_one ?A) (Live z (?A - {Node 0}))" by (rule xop_step.retire [OF _ r]) simp
  moreover have "?A - {Node 0} = {Front}" by auto
  ultimately have "xop_step\<^sup>*\<^sup>* (Live demo_one ?A) (Live z {Front})" by (metis r_into_rtranclp)
  from life [OF this] show ?thesis using r by auto
qed

section \<open>What goes wrong\<close>

text \<open>C15: When a full buffer grows, the results whose index lies in the upper half of a turn of the new size are lost:
the collector reads \<open>NULL\<close> in their place, which is the end of the node.  The buffers of the other nodes keep their
size, but the index mask is common: a node whose next index is in the upper half writes outside of its array.\<close>

theorem xop_growth_loses:
  assumes "hammer2_xop_active x" "i < length (x_collect x)" "f = x_collect x ! i" "n = x_fifo_size x"
    and "pow2 n" "fifo_ok n f" "ff_wi f = ff_ri f + n" "ff_wi f < 2 ^ 30"
  shows "\<exists>w y. hammer2_xop_feed c i e x = Some (0, w, y) \<and> x_fifo_size y = 2 * n \<and>
    entries (2 * n) (x_collect y ! i) =
      map (\<lambda>j. if j mod (2 * n) < n then entry n f j else (None, 0)) [ff_ri f..<ff_wi f] @ [(c, fed_error c e)] \<and>
    (\<forall>k d g. k \<noteq> i \<longrightarrow> k < length (x_collect x) \<longrightarrow> length (ff_array (x_collect x ! k)) = n \<longrightarrow>
       ff_ri (x_collect x ! k) + 2 * n \<noteq> ff_wi (x_collect x ! k) \<longrightarrow> n \<le> ff_wi (x_collect x ! k) mod (2 * n) \<longrightarrow>
       hammer2_xop_feed d k g y = None)"
proof -
  let ?g = "grown_at i x"
  note p = pow2_double [OF assms(5)]
  have "n < 2 ^ 30" using assms(7,8) by linarith
  then have g: "feed_grow i x = Some (True, ?g)" using assms by (intro grow_full) simp_all
  have gi: "x_collect ?g ! i = grown (2 * n) n f" "x_fifo_size ?g = 2 * n" "length (x_collect ?g) = length (x_collect x)"
    using assms(2-4) by (simp_all add: grown_at_def)
  note ge = grown_entries [OF assms(6) p(3)]
  have idx: "ff_wi (grown (2 * n) n f) = ff_wi f" "ff_ri (grown (2 * n) n f) = ff_ri f" by (simp_all add: grown_def)
  have w31: "ff_wi (x_collect ?g ! i) + 1 < 2 ^ 31" unfolding gi(1) idx using assms(8) by simp
  obtain w m where r: "hammer2_xop_feed c i e x = Some (0, w, (fed c i e ?g)\<lparr>x_run_mask := m\<rparr>)"
    "m AND XOPMASK_ALLDONE = x_run_mask ?g AND XOPMASK_ALLDONE"
    using feed_run [OF assms(1,2) g gi(3) _ _ w31] p(1) ge(1) unfolding gi by blast
  let ?y = "(fed c i e ?g)\<lparr>x_run_mask := m\<rparr>"
  have y: "x_fifo_size ?y = 2 * n" "x_collect ?y = (x_collect ?g)[i := push (2 * n) c (fed_error c e) (grown (2 * n) n f)]"
    by (simp_all add: fed_def gi)
  have "ff_wi (grown (2 * n) n f) < ff_ri (grown (2 * n) n f) + 2 * n" unfolding idx using assms(7) p(3) by simp
  note pe = push_entries(2) [OF ge(1) this, of c "fed_error c e"]
  have ent: "entries (2 * n) (x_collect ?y ! i) =
      map (\<lambda>j. if j mod (2 * n) < n then entry n f j else (None, 0)) [ff_ri f..<ff_wi f] @ [(c, fed_error c e)]"
    unfolding y(2) using pe ge(2) gi(3) assms(2) by simp
  have act: "hammer2_xop_active ?y" using assms(1) attached_cong [OF r(2)] by (simp add: attached_front grown_at_def)
  have oob: "hammer2_xop_feed d k h ?y = None"
    if k: "k \<noteq> i" "k < length (x_collect x)" "length (ff_array (x_collect x ! k)) = n"
      "ff_ri (x_collect x ! k) + 2 * n \<noteq> ff_wi (x_collect x ! k)" "n \<le> ff_wi (x_collect x ! k) mod (2 * n)" for k d h
  proof -
    have at: "x_collect ?y ! k = x_collect x ! k" using k(1) by (simp add: fed_def grown_at_def)
    have "feed_grow k ?y = Some (True, ?y)" by (rule grow_room) (use k(4) at y(1) in simp)
    moreover have "\<not> ff_wi (x_collect ?y ! k) AND (x_fifo_size ?y - 1) < length (ff_array (x_collect ?y ! k))"
      unfolding at y(1) pow2_and [OF p(1)] using k(3,5) by simp
    ultimately show ?thesis using act by (simp add: hammer2_xop_feed_def Let_def kkassert_bind)
  qed
  show ?thesis using r(1) y(1) ent oob by (intro exI [of _ w] exI [of _ ?y]) blast
qed

text \<open>C16: What the collection does with a key on which no quorum agrees yet.  The masters that have not answered are counted
with the votes of transaction id 0 only: if these reach the quorum, the collection waits for the masters, or says
\<open>EINPROGRESS\<close> when asked not to wait; otherwise it goes on behind the key.  So the key is skipped, and dropped when
the other masters feed it, even where they could complete the quorum together with the votes of its transaction
id \<open>t\<close>: with two masters of which one has answered.  With three masters of which one has answered it waits.\<close>

theorem xop_skips_pending_key:
  assumes "collect_items [0..<x_nchains x] (x, - 1, CHECK_NULL) = Some (x1, l, 0)" "l \<noteq> - 1" "cl_pmp (x_cluster x1) = Some pmp"
    and "flags AND COLLECT_WAITALL = 0"
    and "\<And>t. t < HAMMER2_TID_MAX \<Longrightarrow> votes pmp l (item_chains (x_cluster x1)) t < cluster_nquorum (x_cluster x1)"
    and "t < HAMMER2_TID_MAX" "cluster_nquorum (x_cluster x1) \<le> votes pmp l (item_chains (x_cluster x1)) t + pending pmp (x_cluster x1)"
  shows "\<exists>cl. if votes pmp l (item_chains (x_cluster x1)) 0 + pending pmp (x_cluster x1) < cluster_nquorum (x_cluster x1)
    then hammer2_xop_collect flags x = hammer2_xop_collect flags (x1\<lparr>x_cluster := cl, x_collect_key := l + 1\<rparr>)
    else hammer2_xop_collect flags x = Some
      (if flags AND COLLECT_NOWAIT \<noteq> 0 then Collected H2_EINPROGRESS (x1\<lparr>x_cluster := cl\<rparr>)
       else Sleeps (x1\<lparr>x_cluster := cl, x_run_mask := x_run_mask x OR XOPMASK_WAIT\<rparr>))"
proof -
  have z: "(0 :: u32) AND CHECK_NULL = 0" by simp
  note dec = cluster_check_decision [OF z assms(3,5)]
  show ?thesis
  proof (cases "votes pmp l (item_chains (x_cluster x1)) 0 + pending pmp (x_cluster x1) < cluster_nquorum (x_cluster x1)")
    case True
    then obtain e cl where c: "hammer2_cluster_check (x_cluster x1) l 0 = Some (e, cl)" "e = H2_ESRCH \<or> e = H2_EDEADLK"
      using dec by (cases "hammer2_cluster_check (x_cluster x1) l 0") (auto split: if_splits)
    have "e \<noteq> H2_EINPROGRESS" "(e = H2_ESRCH \<or> e = H2_EDEADLK) \<and> l \<noteq> - 1" using c(2) assms(2) by auto
    then have "hammer2_xop_collect flags x = hammer2_xop_collect flags (x1\<lparr>x_cluster := cl, x_collect_key := l + 1\<rparr>)"
      using collect_check_run [OF c(1)] assms(4) unfolding hammer2_xop_collect.simps [of flags x] assms(1) by simp
    then show ?thesis using True by auto
  next
    case False
    then obtain cl where c: "hammer2_cluster_check (x_cluster x1) l 0 = Some (H2_EINPROGRESS, cl)"
      using dec by (cases "hammer2_cluster_check (x_cluster x1) l 0") auto
    have "hammer2_xop_collect flags x = Some
      (if flags AND COLLECT_NOWAIT \<noteq> 0 then Collected H2_EINPROGRESS (x1\<lparr>x_cluster := cl\<rparr>)
       else Sleeps (x1\<lparr>x_cluster := cl, x_run_mask := x_run_mask x OR XOPMASK_WAIT\<rparr>))"
      using collect_check_run [OF c(1)] assms(4) unfolding hammer2_xop_collect.simps [of flags x] assms(1) by simp
    then show ?thesis using False by auto
  qed
qed

text \<open>A single master: 16 results are fed, one is collected, and two more are fed, the second of which makes the buffer
grow.  The result with key 17 is lost, and after key 18 the collector reports the end although the node did not end.\<close>

definition demo_full :: xop where
  "demo_full = (case hammer2_xop_collect 0 (the (demo_feed (map (\<lambda>k. (0, Some (demo_chain (of_nat k) 5))) [1..<17]) demo_one)) of
     Some (Collected e x) \<Rightarrow> the (demo_feed [(0, Some (demo_chain 17 5))] x) | _ \<Rightarrow> undefined)"

lemma demo_full_facts: "hammer2_xop_active demo_full" "length (x_collect demo_full) = 8" "x_fifo_size demo_full = 16"
  "fifo_ok 16 (x_collect demo_full ! 0)" "ff_ri (x_collect demo_full ! 0) = 1" "ff_wi (x_collect demo_full ! 0) = 17"
  by code_simp+

lemma demo_full_loop: "map_option (\<lambda>(e, w, y). collect_loop 18 0 y) (hammer2_xop_feed (Some (demo_chain 18 5)) 0 0 demo_full) =
    Some (Some ([2, 3, 4, 5, 6, 7, 8, 9, 10, 11, 12, 13, 14, 15, 16, 18], H2_ENOENT))"
  by code_simp

theorem xop_growth_loses_witness:
  "\<exists>w y. hammer2_xop_feed (Some (demo_chain 18 5)) 0 0 demo_full = Some (0, w, y) \<and> (None, 0) \<in> set (entries 32 (x_collect y ! 0)) \<and>
     collect_loop 18 0 y = Some ([2, 3, 4, 5, 6, 7, 8, 9, 10, 11, 12, 13, 14, 15, 16, 18], H2_ENOENT)"
proof -
  have "pow2 16" using exI [of "\<lambda>k. (16 :: nat) = 2 ^ k" 4] by (simp add: pow2_def)
  from xop_growth_loses [of demo_full 0 "x_collect demo_full ! 0" 16 "Some (demo_chain 18 5)" 0, OF demo_full_facts(1) _ refl _ this demo_full_facts(4)]
  obtain w y where y: "hammer2_xop_feed (Some (demo_chain 18 5)) 0 0 demo_full = Some (0, w, y)"
    "entries 32 (x_collect y ! 0) = map (\<lambda>j. if j mod 32 < 16 then entry 16 (x_collect demo_full ! 0) j else (None, 0)) [1..<17] @
       [(Some (demo_chain 18 5), fed_error (Some (demo_chain 18 5)) 0)]"
    unfolding demo_full_facts by auto
  have "(None, 0) \<in> (\<lambda>j. if j mod 32 < 16 then entry 16 (x_collect demo_full ! 0) j else (None, 0)) ` {1..<17}"
    by (rule image_eqI [of _ _ 16]) simp_all
  then have "(None, 0) \<in> set (entries 32 (x_collect y ! 0))" unfolding y(2) by simp
  then show ?thesis using y(1) demo_full_loop by simp
qed

text \<open>Two masters hold key 7 with transaction id 5.  The first has fed it, the second not yet.\<close>

definition demo_late :: xop where
  "demo_late = the (demo_feed [(0, Some (demo_chain 7 5)), (0, None)] (fst (the (demo_started 2))))"

definition demo_late_scan :: "xop \<times> h2_key \<times> u32" where
  "demo_late_scan = the (collect_items [0..<2] (demo_late, - 1, CHECK_NULL))"

lemma demo_late_facts: "x_nchains demo_late = 2" "collect_items [0..<2] (demo_late, - 1, CHECK_NULL) \<noteq> None"
  "snd demo_late_scan = (7, 0)" "cl_pmp (x_cluster (fst demo_late_scan)) = Some (demo_pfs 2)"
  "item_chains (x_cluster (fst demo_late_scan)) = [Some (demo_chain 7 5), None]" "pending (demo_pfs 2) (x_cluster (fst demo_late_scan)) = 1"
  "cluster_nquorum (x_cluster (fst demo_late_scan)) = 2"
  by code_simp+

text \<open>The collection sleeps behind the key, and when the second master feeds it too it is dropped.\<close>

lemma demo_late_loop: "(case hammer2_xop_collect 0 demo_late of
    Some (Sleeps x) \<Rightarrow> x_collect_key x = 8 \<and> map_option (collect_loop 2 0) (demo_feed [(1, Some (demo_chain 7 5)), (1, None)] x) = Some (Some ([], H2_ENOENT))
  | _ \<Rightarrow> False)"
  by code_simp

lemma demo_late_votes: "votes (demo_pfs 2) 7 [Some (demo_chain 7 5), None] t = (if t = 5 then 1 else 0)"
proof -
  have "has_tid (demo_pfs 2) 7 [Some (demo_chain 7 5), None] 0 t \<longleftrightarrow> t = 5" "\<not> has_tid (demo_pfs 2) 7 [Some (demo_chain 7 5), None] (Suc 0) t"
    by (auto simp: has_tid_def demo_chain_def is_master_def demo_pfs_def)
  then show ?thesis by (cases "t = 5") (simp_all add: votes_def upt_rec)
qed

theorem xop_skips_pending_key_witness:
  "\<exists>y. x_collect_key y = 8 \<and> hammer2_xop_collect 0 demo_late = hammer2_xop_collect 0 y \<and>
    (case hammer2_xop_collect 0 y of
       Some (Sleeps x) \<Rightarrow> map_option (collect_loop 2 0) (demo_feed [(1, Some (demo_chain 7 5)), (1, None)] x) = Some (Some ([], H2_ENOENT))
     | _ \<Rightarrow> False)"
proof -
  note d = demo_late_facts
  have s: "collect_items [0..<x_nchains demo_late] (demo_late, - 1, CHECK_NULL) = Some (fst demo_late_scan, 7, 0)"
    using d(2,3) unfolding d(1) demo_late_scan_def by (cases "collect_items [0..<2] (demo_late, - 1, CHECK_NULL)") auto
  have v: "votes (demo_pfs 2) 7 (item_chains (x_cluster (fst demo_late_scan))) t < cluster_nquorum (x_cluster (fst demo_late_scan))"
    "votes (demo_pfs 2) 7 (item_chains (x_cluster (fst demo_late_scan))) 0 + pending (demo_pfs 2) (x_cluster (fst demo_late_scan)) < cluster_nquorum (x_cluster (fst demo_late_scan))"
    "cluster_nquorum (x_cluster (fst demo_late_scan)) \<le> votes (demo_pfs 2) 7 (item_chains (x_cluster (fst demo_late_scan))) 5 +
       pending (demo_pfs 2) (x_cluster (fst demo_late_scan))" for t
    unfolding d(5-7) demo_late_votes by simp_all
  obtain cl where e: "hammer2_xop_collect 0 demo_late = hammer2_xop_collect 0 ((fst demo_late_scan)\<lparr>x_cluster := cl, x_collect_key := 7 + 1\<rparr>)"
    using xop_skips_pending_key [OF s _ d(4) _ v(1) _ v(3), of 0] v(2) by auto
  then obtain y where y: "hammer2_xop_collect 0 demo_late = hammer2_xop_collect 0 y" "x_collect_key y = 8" by simp
  show ?thesis using y(2) demo_late_loop unfolding y(1) [symmetric]
    by (intro exI [of _ y]) (auto simp: y(1) split: option.splits collect_result.splits)
qed

end
