(* ===== verification/Spec2Isabelle.thy ===== *)
theory Spec2Isabelle
  imports H2_Subr H2_Adjust H2_Reserve H2_Crc H2_Dirhash H2_BulkSafe H2_IndkeyProps H2_Ccms
    H2_ClusterProps H2_VolHdrProps H2_VolumeProps H2_IoCache H2_Trans H2_XopClaims
begin

text \<open>
  A verification development for the HAMMER2 file system of this repository, the kernel code in
  \<open>usr/src/sys/hammer2\<close> and the checksum in \<open>usr/src/sys/lib/libkern/icrc32.c\<close>.  (All paths below
  are under \<open>src\<close>.)

  \<^bold>\<open>The parts of the program.\<close>  A volume is a tree of block references.  Files and directories hang
  from it as chains of references; the free space is in a second tree, the freemap, whose leaves are
  arrays of bitmap entries, one for each 4 MB.  A write takes a block from the freemap
  (\<open>hammer2_freemap_alloc\<close>) and puts a reference to it into the array of its parent
  (\<open>hammer2_base_insert\<close>).  Nothing is freed directly: the bulk-free pass scans all references, builds
  a freemap in memory and merges it into the live one in two stages.  After a crash the mount marks the
  blocks it finds as allocated (\<open>hammer2_freemap_adjust\<close>).

  \<^bold>\<open>The theories.\<close>
  \<^item> \<open>H2_Prelude\<close>: word and list lemmas, results of fallible code (\<open>None\<close> is a panic, a failed
    \<open>KKASSERT\<close>, a \<open>NULL\<close> dereference or a value C leaves undefined), the \<open>named_theorems\<close>.
  \<^item> \<open>H2_Disk\<close>: block references and bitmap entries of \<open>hammer2_disk.h\<close>, and its constants.
  \<^item> \<open>H2_Subr\<close>: the helpers of \<open>hammer2_subr.c\<close> and the error tables of \<open>hammer2.h\<close>;
    \<open>H2_Dirhash\<close>: \<open>hammer2_dirhash\<close>; \<open>H2_CrcTables\<close>, \<open>H2_Crc\<close>: \<open>icrc32.c\<close>.
  \<^item> \<open>H2_Bitmap\<close>: the two-bit states of a bitmap entry, its invariant, the locale \<open>accounted\<close> (an
    operation on an entry keeps the invariant and accounts for what it takes).
  \<^item> \<open>H2_Freemap\<close>: the definitions of \<open>hammer2_bmap_alloc\<close>; \<open>H2_Segment\<close>: its correctness and the
    interpretation of \<open>accounted\<close>.
  \<^item> \<open>H2_Zone\<close>: the rest of \<open>hammer2_freemap.c\<close> (reserve, init, the search in a leaf, the iteration
    over the device, recovery); \<open>H2_Device\<close>: the invariant of a device and the allocation theorems;
    \<open>H2_Adjust\<close>: recovery; \<open>H2_Reserve\<close>: the rotation of the freemap's own blocks.
  \<^item> \<open>H2_Bulkfree\<close>: the in-memory freemap, the callback, the merge, the duplicate filter and the size
    hints of \<open>hammer2_bulkfree.c\<close>; \<open>H2_Sync\<close>, \<open>H2_Bigmask\<close>, \<open>H2_BulkMark\<close>, \<open>H2_BulkSync\<close>: the
    lemmas of the merge, the hints, the marking and the loop over the entries; \<open>H2_BulkSafe\<close>: the
    claims, and the merge as an interpretation of \<open>accounted\<close>.
  \<^item> \<open>H2_Blockmap\<close>: the block tables of \<open>hammer2_chain.c\<close>; \<open>H2_BlockmapOps\<close>: search and insertion;
    \<open>H2_BlockmapStore\<close>: deletion and the locale \<open>range_store\<close>, the contract of a bounded store of disjoint
    key ranges; \<open>H2_BlockmapProps\<close>: its interpretation on the code, the statistics, the claims.
  \<^item> \<open>H2_Combined\<close>: the combined search as a search in one merged list; \<open>H2_Indkey\<close>,
    \<open>H2_IndkeyProps\<close>: the scan of all live ranges and the key range of a new indirect block.
  \<^item> \<open>H2_Ccms\<close>: the cache-state locks of \<open>hammer2_ccms.c\<close> with their threads as a step relation;
    \<open>H2_Cluster\<close>: the quorum check of \<open>hammer2_cluster.c\<close>, \<open>H2_ClusterProps\<close>: what it decides.
  \<^item> \<open>H2_VolHdr\<close>: the bytes of the volume header, its reader in \<open>hammer2_ondisk.c\<close> and its writer in
    \<open>hammer2_flush.c\<close>; \<open>H2_VolHdrProps\<close>: commits, crashes during a commit.  \<open>H2_Volume\<close>,
    \<open>H2_VolumeProps\<close>: the verification of a set of volumes at mount and \<open>hammer2_get_volume\<close>.
  \<^item> \<open>H2_Io\<close>: the device buffers of \<open>hammer2_io.c\<close>; \<open>H2_IoProps\<close>: the table as a map, its invariant,
    \<open>hammer2_io_getblk\<close>; \<open>H2_IoRun\<close>: the release and the cleaning; \<open>H2_IoCache\<close>: runs of clients as a
    refinement of a memory, errors, the race of the release with the cleaning.
  \<^item> \<open>H2_Trans\<close>: the transactions of \<open>hammer2_flush.c\<close> with their threads as a step relation.
  \<^item> \<open>H2_Xop\<close>: the cluster operations of \<open>hammer2_admin.c\<close> (allocation, start, feed, collection,
    retirement) on top of the quorum check and the transaction ids; \<open>H2_XopProps\<close>: the ring buffer as a queue
    and the advance of the collector; \<open>H2_XopCollect\<close>: one collection; \<open>H2_XopRun\<close>: clean-up, who is
    attached; \<open>H2_XopClaims\<close>: repeated collections, the life of an xop, what goes wrong.

  \<^bold>\<open>How state corresponds.\<close>  A bitmap entry and a block reference are records with the fields of the
  structs at their width.  A freemap leaf is the list of its 256 entries; the device is a map from leaf
  keys to leaves with the volume's free count.  An array of references is a list of \<open>count\<close> entries; the
  children of a chain are the list of the red-black tree's elements in order.  The volume header is its
  64 KB with little-endian fields; a device is a function from byte offsets to bytes.  A pointer to a DIO is
  its \<open>pbase\<close>, under which it is in the table; the buffer cache below is a map from blocks to bytes with the
  set of held buffers, and what a buffer has that \<open>getblk\<close> returns for a block it has not cached is a parameter
  (\<open>io_getblk\<close>, any function of the volume, the block and the number of releases so far).  Machine integers are words
  of their width, C \<open>int\<close> loop counters are \<open>nat\<close> or \<open>int\<close>.  Locks, reference counts, transaction ids and
  the buffers of chains are not in the state of the freemap and the block tables, so those theorems are about
  code that runs with the locks the functions require.

  \<^bold>\<open>What the lemmas show.\<close>  Allocation: every block handed out is free, aligned, inside the volume,
  outside the reserved areas and disjoint from all earlier ones, the counters stay exact, and a failure
  changes nothing.  Bulk-free: a pass, over any range of whole segments that fits its buffer, never frees a block
  with a reference the scan saw, frees only what two passes did not see, and keeps the counters exact.  Block tables: insertion, deletion and search refine
  an ordered list of disjoint ranges and panic exactly where a caller breaks the contract.  Combined search: any search from
  a key to an end key is a search in the merged list of entries and children.  Key ranges: the
  scan visits every live range once.  Volume headers: a commit is found by the next mount; one that is cut off on a
  volume with room for two copies leaves the header of the commit before, or the new one when it was written whole; on a
  volume with one copy it can lose the header.  Device buffers: clients that keep to the contract, on a device without read
  errors, see a plain memory, and what they wrote is on the device when they have released it; the memory has undefined
  bytes, those of a whole buffer taken with \<open>DOP_NEWNZ\<close>, until they are written.  Transactions: at most one flush runs and no flush
  waits for nothing.  Xops: the front end collects exactly the keys with a quorum, in order, and drops every
  reference, as long as no buffer grows after a result was taken from it (the condition \<open>feed_room\<close>; what goes wrong
  without it is a theorem of its own).  Helpers: checksums equal their bitwise definition, round trips.

  \<^bold>\<open>Bounds and fuel.\<close>  Loops are structural recursion or have a measure.  The loop over the device in
  \<open>hammer2_freemap_alloc\<close> has the number of leaves and wraps as its bound, the scan for a key range has
  the code's own \<open>maxloops\<close> of 300000, and both are proved to end before the bound.

  \<^bold>\<open>Simplified.\<close>  \<open>calculate_crc32c\<close> has the length of its buffer without the narrowing to \<open>unsigned int\<close>, which
  cuts 4GB and more.  The transaction id of the volume chain is set by \<open>hammer2_voldata_modify\<close> and not again by
  \<open>hammer2_chain_modify\<close> within the flush, so a commit of the model advances the id of the header by one where one of the code
  can advance it by two.

  \<^bold>\<open>Not modelled.\<close>  The topology of chains (creation, lookup, locking, modification, deletion,
  snapshots of \<open>hammer2_chain.c\<close>), the flush, the traversal of the bulk-free scan, inodes, vnode and VFS
  operations, the back ends of xops and the queues of their worker threads, the references and locks of clusters, the device vnodes, strategy, compression, ioctls, the network
  messages, the user programs, the kernel's disk code and the boot code.  The VFS, vnode, strategy and
  ioctl files are mostly calls into the OpenBSD kernel; \<open>lz4\<close>, \<open>zlib\<close> and \<open>xxhash\<close> are third-party code.

  The properties that span components follow.
\<close>

end
